(* ===== verification/Prelude.thy ===== *)
theory Prelude
  imports Main "HOL-Library.Word"
begin

text \<open>
  What every component of the development shares: the machine integers of the 64-bit target,
  the outcome of code that may panic, \<open>Poll\<close>, wakers, the reasoning about flag bits packed into
  a word next to a counter, and the retry loop over \<open>compare_exchange\<close> that the atomics of the
  crate are driven by.
\<close>

unbundle bit_operations_syntax

named_theorems outcome_simps \<open>evaluation of the panic monad\<close>
named_theorems flag_simps \<open>flag bits of packed state words\<close>

section \<open>Machine integers\<close>

type_synonym usize = "64 word"
type_synonym u64 = "64 word"
type_synonym u32 = "32 word"

abbreviation usize_max :: usize where "usize_max \<equiv> - 1"

section \<open>Panics\<close>

text \<open>
  A Rust function that may panic returns an \<open>outcome\<close>: \<open>Inl\<close> names the failing check, \<open>Inr\<close>
  holds the value.
\<close>

datatype panic =
    AssertFailed
  | UnwrapNone
  | Unreachable
  | ArithOverflow
  | ProcessAbort
  | Unimplemented
  | ExplicitPanic
  | Uninitialised

type_synonym 'a outcome = "panic + 'a"

definition and_then :: "'a outcome \<Rightarrow> ('a \<Rightarrow> 'b outcome) \<Rightarrow> 'b outcome" where
  "and_then m f = (case m of Inl e \<Rightarrow> Inl e | Inr x \<Rightarrow> f x)"

definition ensure :: "bool \<Rightarrow> panic \<Rightarrow> unit outcome" where
  "ensure b e = (if b then Inr () else Inl e)"

lemma and_then_Inl [simp, outcome_simps]: "and_then (Inl e) f = Inl e"
  by (simp add: and_then_def)

lemma and_then_Inr [simp, outcome_simps]: "and_then (Inr x) f = f x"
  by (simp add: and_then_def)

lemma ensure_True [simp, outcome_simps]: "ensure True e = Inr ()"
  by (simp add: ensure_def)

lemma ensure_False [simp, outcome_simps]: "ensure False e = Inl e"
  by (simp add: ensure_def)

lemma and_then_eq_Inr:
  "and_then m f = Inr y \<longleftrightarrow> (\<exists>x. m = Inr x \<and> f x = Inr y)"
  by (cases m) auto

lemma ensure_eq_Inr [simp]: "ensure b e = Inr u \<longleftrightarrow> b"
  by (simp add: ensure_def)

lemma and_then_ensure: "and_then (ensure b e) f = (if b then f () else Inl e)"
  by (simp add: ensure_def)

lemma and_then_assoc: "and_then (and_then m f) g = and_then m (\<lambda>x. and_then (f x) g)"
  by (cases m) auto

text \<open>An outcome of code that may also not return (\<open>None\<close>).\<close>

definition bind_oo :: "'a outcome option \<Rightarrow> ('a \<Rightarrow> 'b outcome option) \<Rightarrow> 'b outcome option" where
  "bind_oo m f = (case m of None \<Rightarrow> None | Some (Inl e) \<Rightarrow> Some (Inl e) | Some (Inr x) \<Rightarrow> f x)"

lemma bind_oo_simps [simp, outcome_simps]:
  "bind_oo None f = None" "bind_oo (Some (Inl e)) f = Some (Inl e)" "bind_oo (Some (Inr x)) f = f x"
  by (simp_all add: bind_oo_def)

lemma bind_oo_eq:
  "bind_oo m f = Some (Inr y) \<longleftrightarrow> (\<exists>x. m = Some (Inr x) \<and> f x = Some (Inr y))"
  by (auto simp: bind_oo_def split: option.splits sum.splits)

text \<open>The bind may stand around the recursive calls of a \<open>partial_function\<close>.\<close>

lemma bind_oo_mono [partial_function_mono]:
  fixes B :: "('c \<Rightarrow> 'd option) \<Rightarrow> 'a outcome option"
    and C :: "'a \<Rightarrow> ('c \<Rightarrow> 'd option) \<Rightarrow> 'b outcome option"
  assumes "mono_option B" "\<And>y. mono_option (\<lambda>f. C y f)"
  shows "mono_option (\<lambda>f. bind_oo (B f) (\<lambda>y. C y f))"
proof -
  have ord: "option_ord (bind_oo x c) (bind_oo x' c')" if "option_ord x x'" "\<And>y. option_ord (c y) (c' y)"
    for x x' :: "'a outcome option" and c c' :: "'a \<Rightarrow> 'b outcome option"
  proof (cases "bind_oo x c = None")
    case True
    then show ?thesis by (simp add: flat_ord_def)
  next
    case False
    then have "x = x'" using that(1) by (auto simp: flat_ord_def)
    with that(2) show ?thesis by (auto simp: flat_ord_def bind_oo_def split: option.split sum.split)
  qed
  show ?thesis
    using assms by (intro monotoneI ord) (blast dest: monotoneD)+
qed

section \<open>Futures and wakers\<close>

datatype 'a poll = Pending | Ready 'a

text \<open>
  A waker is the identity of what it wakes, so \<open>a.will_wake(b)\<close> is equality; waking is an
  effect that the operations report as a list of wakers in the order of the calls.
\<close>

type_synonym waker = nat

fun is_ready :: "'a poll \<Rightarrow> bool" where
  "is_ready Pending = False"
| "is_ready (Ready _) = True"

lemma poll_bool_cases: "(r = Pending \<Longrightarrow> P) \<Longrightarrow> (r = Ready True \<Longrightarrow> P) \<Longrightarrow> (r = Ready False \<Longrightarrow> P) \<Longrightarrow> P"
  by (cases r) (metis (full_types))+

lemma poll_unit_cases: "(r = Pending \<Longrightarrow> P) \<Longrightarrow> (r = Ready () \<Longrightarrow> P) \<Longrightarrow> P"
  by (cases r) auto

section \<open>Lists and options\<close>

definition hd_opt :: "'a list \<Rightarrow> 'a option" where
  "hd_opt xs = (case xs of [] \<Rightarrow> None | x # _ \<Rightarrow> Some x)"

definition last_opt :: "'a list \<Rightarrow> 'a option" where
  "last_opt xs = (if xs = [] then None else Some (last xs))"

definition or_else :: "'a option \<Rightarrow> 'a option \<Rightarrow> 'a option" where
  "or_else a b = (case a of None \<Rightarrow> b | Some _ \<Rightarrow> a)"

lemma hd_opt_simps [simp]:
  "hd_opt [] = None" "hd_opt (x # xs) = Some x"
  by (simp_all add: hd_opt_def)

lemma last_opt_simps [simp]:
  "last_opt [] = None" "last_opt (xs @ [x]) = Some x"
  by (simp_all add: last_opt_def)

lemma last_opt_Cons [simp]: "last_opt (x # xs) = or_else (last_opt xs) (Some x)"
  by (simp add: last_opt_def or_else_def)

lemma or_else_simps [simp]:
  "or_else None b = b" "or_else (Some x) b = Some x" "or_else a None = a"
  by (simp_all add: or_else_def split: option.splits)

lemma or_else_or_else_Some [simp]: "or_else (or_else a (Some x)) b = or_else a (Some x)"
  by (simp add: or_else_def split: option.splits)

lemma or_else_eq_None [simp]: "or_else a b = None \<longleftrightarrow> a = None \<and> b = None"
  by (simp add: or_else_def split: option.splits)

lemma hd_opt_append [simp]: "hd_opt (xs @ ys) = or_else (hd_opt xs) (hd_opt ys)"
  by (cases xs) auto

lemma last_opt_append [simp]: "last_opt (xs @ ys) = or_else (last_opt ys) (last_opt xs)"
  by (simp add: last_opt_def or_else_def)

lemma hd_opt_None [simp]: "hd_opt xs = None \<longleftrightarrow> xs = []"
  by (cases xs) auto

lemma last_opt_None [simp]: "last_opt xs = None \<longleftrightarrow> xs = []"
  by (simp add: last_opt_def)

lemma hd_opt_Some: "hd_opt xs = Some x \<longleftrightarrow> (\<exists>ys. xs = x # ys)"
  by (cases xs) auto

lemma last_opt_Some: "last_opt xs = Some x \<longleftrightarrow> (\<exists>ys. xs = ys @ [x])"
  by (cases xs rule: rev_cases) (simp_all del: last_opt_append)

section \<open>Flags and counters packed into one word\<close>

text \<open>
  The state words of the crate keep flags in the low bits and a counter above them. A flag test
  \<open>x & FLAG == FLAG\<close> is a bit test, setting and clearing a flag touches that bit only, and adding
  a multiple of \<open>2 ^ k\<close> leaves the bits below \<open>k\<close> alone.
\<close>

lemma flag_test_bit:
  fixes x :: "'a::len word"
  assumes "n < LENGTH('a)"
  shows "(x AND push_bit n 1 = push_bit n 1) \<longleftrightarrow> bit x n"
proof
  assume "x AND push_bit n 1 = push_bit n 1"
  then have "bit (x AND push_bit n 1) n = bit (push_bit n 1 :: 'a word) n" by simp
  with assms show "bit x n" by (simp add: bit_simps)
next
  assume "bit x n"
  then show "x AND push_bit n 1 = push_bit n 1"
    by (intro bit_word_eqI) (auto simp: bit_simps)
qed

lemma flag_set_bit:
  fixes x :: "'a::len word"
  assumes "k < LENGTH('a)"
  shows "bit (x OR push_bit k 1) n \<longleftrightarrow> n = k \<or> bit x n"
  using assms by (auto simp: bit_simps)

lemma flag_clear_bit:
  fixes x :: "'a::len word"
  shows "bit (x AND NOT (push_bit k 1)) n \<longleftrightarrow> n \<noteq> k \<and> bit x n"
  by (auto simp: bit_simps dest: bit_imp_le_length)

lemma bit_mask_word: "bit (mask k :: 'a::len word) n \<longleftrightarrow> n < LENGTH('a) \<and> n < k"
  by (simp add: bit_mask_iff)

lemma bit_not_mask_word: "bit (NOT (mask k) :: 'a::len word) n \<longleftrightarrow> n < LENGTH('a) \<and> k \<le> n"
  by (auto simp: bit_not_iff bit_mask_iff)

lemma bit_add_push_low_int:
  fixes x :: int
  assumes "n < k"
  shows "bit (x + push_bit k c) n = bit x n"
proof -
  have "take_bit k (push_bit k c) = 0"
    by (simp add: take_bit_push_bit)
  then have "take_bit k (x + push_bit k c) = take_bit k x"
    using take_bit_add [of k x "push_bit k c"] by simp
  then have "bit (take_bit k (x + push_bit k c)) n = bit (take_bit k x) n" by simp
  with assms show ?thesis by (simp add: bit_take_bit_iff)
qed

lemma bit_add_push_low:
  fixes x :: "'a::len word"
  assumes "n < k"
  shows "bit (x + push_bit k c) n = bit x n"
  using assms by transfer (simp add: bit_add_push_low_int)

lemma bit_sub_push_low:
  fixes x :: "'a::len word"
  assumes "n < k"
  shows "bit (x - push_bit k c) n = bit x n"
  using bit_add_push_low [OF assms, of "x - push_bit k c" c] by simp

lemma unat_drop_bit: "unat (drop_bit k x) = unat x div 2 ^ k"
  unfolding unat_drop_bit_eq by (rule drop_bit_eq_div)

lemma unat_of_nat_small:
  assumes "n < 2 ^ LENGTH('a)"
  shows "unat (of_nat n :: 'a::len word) = n"
  using assms by (simp only: unat_of_nat mod_less)

lemma drop_bit_add_push:
  fixes x :: "'a::len word"
  assumes "unat x + c * 2 ^ k < 2 ^ LENGTH('a)"
  shows "unat (drop_bit k (x + of_nat (c * 2 ^ k))) = unat (drop_bit k x) + c"
proof -
  have "unat (x + of_nat (c * 2 ^ k)) = unat x + c * 2 ^ k"
    using assms by (simp only: unat_word_ariths unat_of_nat mod_add_right_eq mod_less)
  then show ?thesis by (simp add: unat_drop_bit)
qed

lemma drop_bit_sub_push:
  fixes x :: "'a::len word"
  assumes "c \<le> unat (drop_bit k x)"
  shows "unat (drop_bit k (x - of_nat (c * 2 ^ k))) = unat (drop_bit k x) - c"
proof -
  have le: "c * 2 ^ k \<le> unat x"
    using assms by (simp add: unat_drop_bit less_eq_div_iff_mult_less_eq)
  have small: "unat (of_nat (c * 2 ^ k) :: 'a word) = c * 2 ^ k"
    by (rule unat_of_nat_small) (rule le_less_trans [OF le unsigned_less])
  have "unat (x - of_nat (c * 2 ^ k)) = unat x - c * 2 ^ k"
    using le small by (metis unat_sub word_le_nat_alt)
  moreover have "(unat x - c * 2 ^ k) div 2 ^ k = unat x div 2 ^ k - c"
    using le nat_le_iff_add by fastforce
  ultimately show ?thesis by (simp only: unat_drop_bit)
qed

lemma and_one_odd: "x AND 1 = 1 \<longleftrightarrow> odd (unat (x :: usize))"
proof -
  have "x AND 1 = 1 \<longleftrightarrow> bit x 0" using flag_test_bit [of 0 x] by simp
  also have "\<dots> \<longleftrightarrow> odd (unat x)"
    by (metis bit_0 bit_unsigned_iff possible_bit_0)
  finally show ?thesis .
qed

end
