(* ===== verification/Atomic_Loop.thy ===== *)
theory Atomic_Loop
  imports Prelude
begin

text \<open>
  The retry loop over \<open>compare_exchange\<close> (\<open>State::fetch_update_action\<close> and \<open>State::fetch_update\<close> of
  \<open>runtime/task/state.rs\<close>; the loops of \<open>try_acquire\<close>, \<open>poll_acquire\<close> and \<open>assign_permits\<close> of
  \<open>sync/batch_semaphore.rs\<close> and of \<open>set_complete\<close> of \<open>sync/oneshot.rs\<close> have the same shape), with
  the writes of other threads between the attempts written out. It acts as one atomic step,
  which is what \<open>run_action\<close> and \<open>run_update\<close> make of it.
\<close>

section \<open>The retry loop\<close>

text \<open>
  \<open>fetch_update_action f cur seen\<close>: \<open>cur\<close> is the value loaded last, \<open>seen\<close> the values the cell
  holds at the successive \<open>compare_exchange\<close>s, which other threads may have written. The result
  is the closure's answer, the value written (if any) and the value it was computed from; \<open>None\<close>
  says that the loop is still retrying when the schedule ends.
\<close>

fun fetch_update_action ::
    "('s \<Rightarrow> ('t \<times> 's option) outcome) \<Rightarrow> 's \<Rightarrow> 's list \<Rightarrow> ('t \<times> 's option \<times> 's) option outcome" where
  "fetch_update_action f cur seen =
     and_then (f cur) (\<lambda>(out, next).
       case next of
         None \<Rightarrow> Inr (Some (out, None, cur))
       | Some nx \<Rightarrow>
           (case seen of
              [] \<Rightarrow> Inr None
            | actual # rest \<Rightarrow>
                if actual = cur then Inr (Some (out, Some nx, cur))
                else fetch_update_action f actual rest))"

fun fetch_update ::
    "('s \<Rightarrow> 's option outcome) \<Rightarrow> 's \<Rightarrow> 's list \<Rightarrow> (('s + 's) \<times> 's) option outcome" where
  "fetch_update f cur seen =
     and_then (f cur) (\<lambda>next.
       case next of
         None \<Rightarrow> Inr (Some (Inl cur, cur))
       | Some nx \<Rightarrow>
           (case seen of
              [] \<Rightarrow> Inr None
            | actual # rest \<Rightarrow>
                if actual = cur then Inr (Some (Inr nx, cur))
                else fetch_update f actual rest))"

declare fetch_update_action.simps [simp del] fetch_update.simps [simp del]

text \<open>
  On a cell no one else writes the first \<open>compare_exchange\<close> succeeds: the transition is one atomic
  step on the cell.
\<close>

definition run_action :: "('s \<Rightarrow> ('t \<times> 's option) outcome) \<Rightarrow> 's \<Rightarrow> ('t \<times> 's) outcome" where
  "run_action f cell =
     and_then (fetch_update_action f cell [cell]) (\<lambda>r. case r of
         None \<Rightarrow> Inl Unreachable
       | Some (out, None, _) \<Rightarrow> Inr (out, cell)
       | Some (out, Some nx, _) \<Rightarrow> Inr (out, nx))"

definition run_update :: "('s \<Rightarrow> 's option outcome) \<Rightarrow> 's \<Rightarrow> (('s + 's) \<times> 's) outcome" where
  "run_update f cell =
     and_then (fetch_update f cell [cell]) (\<lambda>r. case r of
         None \<Rightarrow> Inl Unreachable
       | Some (Inl c, _) \<Rightarrow> Inr (Inl c, cell)
       | Some (Inr nx, _) \<Rightarrow> Inr (Inr nx, nx))"

lemma run_action_eq:
  "run_action f cell =
     and_then (f cell) (\<lambda>(out, next). Inr (out, case next of None \<Rightarrow> cell | Some nx \<Rightarrow> nx))"
  by (cases "f cell")
     (auto simp: run_action_def fetch_update_action.simps split: option.splits)

lemma run_update_eq:
  "run_update f cell =
     and_then (f cell) (\<lambda>next. Inr (case next of None \<Rightarrow> (Inl cell, cell) | Some nx \<Rightarrow> (Inr nx, nx)))"
  by (cases "f cell")
     (auto simp: run_update_def fetch_update.simps split: option.splits)

text \<open>
  whatever other threads write to the cell while a transition retries, the answer and the
  write of \<open>fetch_update_action\<close> are those of its closure on one value the cell really held: the
  value found by the \<open>compare_exchange\<close> that succeeded, or the last value read when nothing is
  written. So each transition acts as one atomic step.
\<close>

lemma fetch_update_action_linearizable:
  assumes "fetch_update_action f cur seen = Inr (Some (out, w, at))"
  shows "f at = Inr (out, w) \<and>
         (\<exists>k. k \<le> length seen \<and> at = (cur # seen) ! k \<and>
              (w \<noteq> None \<longrightarrow> k < length seen \<and> seen ! k = at))"
  using assms
proof (induction seen arbitrary: cur)
  case Nil
  then obtain o1 n1 where f: "f cur = Inr (o1, n1)"
    by (subst (asm) fetch_update_action.simps) (cases "f cur"; force)
  with Nil show ?case
    by (subst (asm) fetch_update_action.simps) (cases n1; auto)
next
  case (Cons actual rest)
  then obtain o1 n1 where f: "f cur = Inr (o1, n1)"
    by (subst (asm) fetch_update_action.simps) (cases "f cur"; force)
  consider "n1 = None" | nx where "n1 = Some nx" "actual = cur" | nx where "n1 = Some nx" "actual \<noteq> cur"
    by (cases n1) auto
  then show ?case
  proof cases
    case 1
    with Cons.prems f show ?thesis by (subst (asm) fetch_update_action.simps) auto
  next
    case 2
    with Cons.prems f have "out = o1" "w = n1" "at = cur"
      by (auto simp: fetch_update_action.simps [of f cur])
    with f 2 show ?thesis by (intro conjI exI [of _ 0]) auto
  next
    case 3
    with Cons.prems f have "fetch_update_action f actual rest = Inr (Some (out, w, at))"
      by (auto simp: fetch_update_action.simps [of f cur])
    from Cons.IH [OF this] obtain k where "f at = Inr (out, w)" "k \<le> length rest"
      "at = (actual # rest) ! k" "w \<noteq> None \<longrightarrow> k < length rest \<and> rest ! k = at"
      by auto
    then show ?thesis by (intro conjI exI [of _ "Suc k"]) auto
  qed
qed

lemma fetch_update_action_linearizable_witness:
  "fetch_update_action (\<lambda>s::usize. Inr (s AND 1 = 1, Some (s OR 4))) 64 [65, 65]
     = Inr (Some (True, Some 69, 65)) \<and>
   (\<exists>k\<le>2. (65::usize) = ([64, 65, 65] ! k))"
proof -
  have run: "fetch_update_action (\<lambda>s::usize. Inr (s AND 1 = 1, Some (s OR 4))) 64 [65, 65]
     = Inr (Some (True, Some 69, 65))"
    by (simp add: fetch_update_action.simps)
  with fetch_update_action_linearizable [OF run] show ?thesis by auto
qed

text \<open>
  the retry loop is lock-free: when the closure does not panic, the loop returns as soon as
  one of its \<open>compare_exchange\<close>s finds the value it had read, that is, unless another write lands
  between every read and the next attempt.
\<close>

lemma fetch_update_action_returns:
  assumes "\<And>s. \<exists>r. f s = Inr r" and "k < length seen" and "seen ! k = (cur # seen) ! k"
  shows "\<exists>r. fetch_update_action f cur seen = Inr (Some r)"
  using assms(2,3)
proof (induction seen arbitrary: cur k)
  case Nil
  then show ?case by simp
next
  case (Cons actual rest)
  obtain o1 n1 where f: "f cur = Inr (o1, n1)" using assms(1) [of cur] by auto
  show ?case
  proof (cases "n1 = None \<or> actual = cur")
    case True
    with f show ?thesis by (subst fetch_update_action.simps) (cases n1; simp)
  next
    case False
    with Cons.prems obtain k' where "k = Suc k'" by (cases k) auto
    with Cons.prems Cons.IH [of k' actual] have "\<exists>r. fetch_update_action f actual rest = Inr (Some r)"
      by auto
    with False f show ?thesis by (subst fetch_update_action.simps) (cases n1; simp)
  qed
qed

lemma fetch_update_action_returns_witness:
  "\<exists>r. fetch_update_action (\<lambda>s. Inr (s, Some (s OR 32))) (64::usize) [72, 104, 104] = Inr (Some r)"
  by (rule fetch_update_action_returns [of _ 2]) simp_all

end
