(* ===== verification/Task_State.thy ===== *)
theory Task_State
  imports Atomic_Loop
begin

text \<open>
  \<open>runtime/task/state.rs\<close>: the state word of a task, six flag bits below a reference count, and the
  transitions on it. The closures of the transitions are definitions of their own (\<open>*_action\<close>), run
  by the retry loop \<open>fetch_update_action\<close>; \<open>decode\<close> reads a word as a record of flags and a count,
  and every transition is shown to act on that record as its specification says.
\<close>

section \<open>The state word\<close>

type_synonym snapshot = usize

definition RUNNING :: usize where "RUNNING = 1"
definition COMPLETE :: usize where "COMPLETE = 2"
definition LIFECYCLE_MASK :: usize where "LIFECYCLE_MASK = 3"
definition NOTIFIED :: usize where "NOTIFIED = 4"
definition JOIN_INTEREST :: usize where "JOIN_INTEREST = 8"
definition JOIN_WAKER :: usize where "JOIN_WAKER = 16"
definition CANCELLED :: usize where "CANCELLED = 32"

definition STATE_MASK :: usize where
  "STATE_MASK = LIFECYCLE_MASK OR NOTIFIED OR JOIN_INTEREST OR JOIN_WAKER OR CANCELLED"

definition REF_COUNT_MASK :: usize where
  "REF_COUNT_MASK = NOT STATE_MASK"

definition REF_COUNT_SHIFT :: nat where
  "REF_COUNT_SHIFT = length (filter (\<lambda>n. \<not> bit REF_COUNT_MASK n) [0..<64])"

definition REF_ONE :: usize where
  "REF_ONE = push_bit REF_COUNT_SHIFT 1"

definition INITIAL_STATE :: usize where
  "INITIAL_STATE = (REF_ONE * 3) OR JOIN_INTEREST OR NOTIFIED"

definition isize_max :: usize where
  "isize_max = 9223372036854775807"

datatype TransitionToRunning = RunSuccess | RunCancelled | RunFailed | RunDealloc
datatype TransitionToIdle = IdleOk | IdleOkNotified | IdleOkDealloc | IdleCancelled
datatype TransitionToNotifiedByVal = ValDoNothing | ValSubmit | ValDealloc
datatype TransitionToNotifiedByRef = RefDoNothing | RefSubmit

subsection \<open>Snapshots\<close>

definition ts_is_idle :: "snapshot \<Rightarrow> bool" where
  "ts_is_idle s \<longleftrightarrow> s AND (RUNNING OR COMPLETE) = 0"

definition ts_is_notified :: "snapshot \<Rightarrow> bool" where
  "ts_is_notified s \<longleftrightarrow> s AND NOTIFIED = NOTIFIED"

definition ts_unset_notified :: "snapshot \<Rightarrow> snapshot" where
  "ts_unset_notified s = s AND NOT NOTIFIED"

definition ts_set_notified :: "snapshot \<Rightarrow> snapshot" where
  "ts_set_notified s = s OR NOTIFIED"

definition ts_is_running :: "snapshot \<Rightarrow> bool" where
  "ts_is_running s \<longleftrightarrow> s AND RUNNING = RUNNING"

definition ts_set_running :: "snapshot \<Rightarrow> snapshot" where
  "ts_set_running s = s OR RUNNING"

definition ts_unset_running :: "snapshot \<Rightarrow> snapshot" where
  "ts_unset_running s = s AND NOT RUNNING"

definition ts_is_cancelled :: "snapshot \<Rightarrow> bool" where
  "ts_is_cancelled s \<longleftrightarrow> s AND CANCELLED = CANCELLED"

definition ts_set_cancelled :: "snapshot \<Rightarrow> snapshot" where
  "ts_set_cancelled s = s OR CANCELLED"

definition ts_is_complete :: "snapshot \<Rightarrow> bool" where
  "ts_is_complete s \<longleftrightarrow> s AND COMPLETE = COMPLETE"

definition ts_is_join_interested :: "snapshot \<Rightarrow> bool" where
  "ts_is_join_interested s \<longleftrightarrow> s AND JOIN_INTEREST = JOIN_INTEREST"

definition ts_unset_join_interested :: "snapshot \<Rightarrow> snapshot" where
  "ts_unset_join_interested s = s AND NOT JOIN_INTEREST"

definition ts_has_join_waker :: "snapshot \<Rightarrow> bool" where
  "ts_has_join_waker s \<longleftrightarrow> s AND JOIN_WAKER = JOIN_WAKER"

definition ts_set_join_waker :: "snapshot \<Rightarrow> snapshot" where
  "ts_set_join_waker s = s OR JOIN_WAKER"

definition ts_unset_join_waker :: "snapshot \<Rightarrow> snapshot" where
  "ts_unset_join_waker s = s AND NOT JOIN_WAKER"

definition ts_ref_count :: "snapshot \<Rightarrow> usize" where
  "ts_ref_count s = drop_bit REF_COUNT_SHIFT (s AND REF_COUNT_MASK)"

definition ts_ref_inc :: "snapshot \<Rightarrow> snapshot outcome" where
  "ts_ref_inc s = and_then (ensure (s \<le> isize_max) AssertFailed) (\<lambda>_. Inr (s + REF_ONE))"

definition ts_ref_dec :: "snapshot \<Rightarrow> snapshot outcome" where
  "ts_ref_dec s = and_then (ensure (ts_ref_count s > 0) AssertFailed) (\<lambda>_. Inr (s - REF_ONE))"

section \<open>The transitions\<close>

definition state_new :: snapshot where
  "state_new = INITIAL_STATE"

definition running_action :: "snapshot \<Rightarrow> (TransitionToRunning \<times> snapshot option) outcome" where
  "running_action s =
     and_then (ensure (ts_is_notified s) AssertFailed) (\<lambda>_.
       if \<not> ts_is_idle s then
         and_then (ts_ref_dec s) (\<lambda>nx.
           Inr (if ts_ref_count nx = 0 then RunDealloc else RunFailed, Some nx))
       else
         let nx = ts_unset_notified (ts_set_running s)
         in Inr (if ts_is_cancelled nx then RunCancelled else RunSuccess, Some nx))"

definition transition_to_running :: "snapshot \<Rightarrow> (TransitionToRunning \<times> snapshot) outcome" where
  "transition_to_running = run_action running_action"

definition idle_action :: "snapshot \<Rightarrow> (TransitionToIdle \<times> snapshot option) outcome" where
  "idle_action cur =
     and_then (ensure (ts_is_running cur) AssertFailed) (\<lambda>_.
       if ts_is_cancelled cur then Inr (IdleCancelled, None)
       else
         let nx = ts_unset_running cur in
         if \<not> ts_is_notified nx then
           and_then (ts_ref_dec nx) (\<lambda>nx.
             Inr (if ts_ref_count nx = 0 then IdleOkDealloc else IdleOk, Some nx))
         else
           and_then (ts_ref_inc nx) (\<lambda>nx. Inr (IdleOkNotified, Some nx)))"

definition transition_to_idle :: "snapshot \<Rightarrow> (TransitionToIdle \<times> snapshot) outcome" where
  "transition_to_idle = run_action idle_action"

definition transition_to_complete :: "snapshot \<Rightarrow> (snapshot \<times> snapshot) outcome" where
  "transition_to_complete prev =
     (let delta = RUNNING OR COMPLETE in
      and_then (ensure (ts_is_running prev) AssertFailed) (\<lambda>_.
      and_then (ensure (\<not> ts_is_complete prev) AssertFailed) (\<lambda>_.
        Inr (prev XOR delta, prev XOR delta))))"

definition transition_to_terminal :: "usize \<Rightarrow> snapshot \<Rightarrow> (bool \<times> snapshot) outcome" where
  "transition_to_terminal cnt prev =
     and_then (ensure (ts_ref_count prev \<ge> cnt) AssertFailed) (\<lambda>_.
       Inr (ts_ref_count prev = cnt, prev - cnt * REF_ONE))"

definition notified_by_val_action ::
    "snapshot \<Rightarrow> (TransitionToNotifiedByVal \<times> snapshot option) outcome" where
  "notified_by_val_action s =
     (if ts_is_running s then
        and_then (ts_ref_dec (ts_set_notified s)) (\<lambda>nx.
        and_then (ensure (ts_ref_count nx > 0) AssertFailed) (\<lambda>_.
          Inr (ValDoNothing, Some nx)))
      else if ts_is_complete s \<or> ts_is_notified s then
        and_then (ts_ref_dec s) (\<lambda>nx.
          Inr (if ts_ref_count nx = 0 then ValDealloc else ValDoNothing, Some nx))
      else
        and_then (ts_ref_inc (ts_set_notified s)) (\<lambda>nx. Inr (ValSubmit, Some nx)))"

definition transition_to_notified_by_val ::
    "snapshot \<Rightarrow> (TransitionToNotifiedByVal \<times> snapshot) outcome" where
  "transition_to_notified_by_val = run_action notified_by_val_action"

definition notified_by_ref_action ::
    "snapshot \<Rightarrow> (TransitionToNotifiedByRef \<times> snapshot option) outcome" where
  "notified_by_ref_action s =
     (if ts_is_complete s \<or> ts_is_notified s then Inr (RefDoNothing, None)
      else if ts_is_running s then Inr (RefDoNothing, Some (ts_set_notified s))
      else and_then (ts_ref_inc (ts_set_notified s)) (\<lambda>nx. Inr (RefSubmit, Some nx)))"

definition transition_to_notified_by_ref ::
    "snapshot \<Rightarrow> (TransitionToNotifiedByRef \<times> snapshot) outcome" where
  "transition_to_notified_by_ref = run_action notified_by_ref_action"

definition notified_and_cancel_action :: "snapshot \<Rightarrow> (bool \<times> snapshot option) outcome" where
  "notified_and_cancel_action s =
     (if ts_is_cancelled s \<or> ts_is_complete s then Inr (False, None)
      else if ts_is_running s then Inr (False, Some (ts_set_cancelled (ts_set_notified s)))
      else
        let nx = ts_set_cancelled s in
        if \<not> ts_is_notified nx then
          and_then (ts_ref_inc (ts_set_notified nx)) (\<lambda>nx. Inr (True, Some nx))
        else Inr (False, Some nx))"

definition transition_to_notified_and_cancel :: "snapshot \<Rightarrow> (bool \<times> snapshot) outcome" where
  "transition_to_notified_and_cancel = run_action notified_and_cancel_action"

definition transition_to_shutdown :: "snapshot \<Rightarrow> (bool \<times> snapshot) outcome" where
  "transition_to_shutdown cell =
     and_then
       (run_update (\<lambda>s. Inr (Some (ts_set_cancelled (if ts_is_idle s then ts_set_running s else s)))) cell)
       (\<lambda>(_, cell'). Inr (ts_is_idle cell, cell'))"

definition drop_join_handle_fast :: "snapshot \<Rightarrow> bool \<times> snapshot" where
  "drop_join_handle_fast cell =
     (if cell = INITIAL_STATE then (True, (INITIAL_STATE - REF_ONE) AND NOT JOIN_INTEREST)
      else (False, cell))"

definition unset_join_interested ::
    "snapshot \<Rightarrow> ((snapshot + snapshot) \<times> snapshot) outcome" where
  "unset_join_interested =
     run_update (\<lambda>cur. and_then (ensure (ts_is_join_interested cur) AssertFailed) (\<lambda>_.
       Inr (if ts_is_complete cur then None else Some (ts_unset_join_interested cur))))"

definition set_join_waker :: "snapshot \<Rightarrow> ((snapshot + snapshot) \<times> snapshot) outcome" where
  "set_join_waker =
     run_update (\<lambda>cur.
       and_then (ensure (ts_is_join_interested cur) AssertFailed) (\<lambda>_.
       and_then (ensure (\<not> ts_has_join_waker cur) AssertFailed) (\<lambda>_.
       Inr (if ts_is_complete cur then None else Some (ts_set_join_waker cur)))))"

definition unset_waker :: "snapshot \<Rightarrow> ((snapshot + snapshot) \<times> snapshot) outcome" where
  "unset_waker =
     run_update (\<lambda>cur.
       and_then (ensure (ts_is_join_interested cur) AssertFailed) (\<lambda>_.
       and_then (ensure (ts_has_join_waker cur) AssertFailed) (\<lambda>_.
       Inr (if ts_is_complete cur then None else Some (ts_unset_join_waker cur)))))"

definition state_ref_inc :: "snapshot \<Rightarrow> snapshot outcome" where
  "state_ref_inc prev =
     and_then (ensure (prev \<le> isize_max) ProcessAbort) (\<lambda>_. Inr (prev + REF_ONE))"

definition state_ref_dec :: "snapshot \<Rightarrow> (bool \<times> snapshot) outcome" where
  "state_ref_dec prev =
     and_then (ensure (ts_ref_count prev \<ge> 1) AssertFailed) (\<lambda>_.
       Inr (ts_ref_count prev = 1, prev - REF_ONE))"

definition state_ref_dec_twice :: "snapshot \<Rightarrow> (bool \<times> snapshot) outcome" where
  "state_ref_dec_twice prev =
     and_then (ensure (ts_ref_count prev \<ge> 2) AssertFailed) (\<lambda>_.
       Inr (ts_ref_count prev = 2, prev - 2 * REF_ONE))"


section \<open>Reading the word\<close>

record task_state =
  t_running :: bool
  t_complete :: bool
  t_notified :: bool
  t_join_interest :: bool
  t_join_waker :: bool
  t_cancelled :: bool
  t_refs :: nat

definition decode :: "snapshot \<Rightarrow> task_state" where
  "decode s = \<lparr>t_running = ts_is_running s, t_complete = ts_is_complete s,
     t_notified = ts_is_notified s, t_join_interest = ts_is_join_interested s,
     t_join_waker = ts_has_join_waker s, t_cancelled = ts_is_cancelled s,
     t_refs = unat (ts_ref_count s)\<rparr>"

lemmas task_flags =
  RUNNING_def COMPLETE_def NOTIFIED_def JOIN_INTEREST_def JOIN_WAKER_def CANCELLED_def

lemma STATE_MASK_eq: "STATE_MASK = 63"
  by (simp add: STATE_MASK_def task_flags LIFECYCLE_MASK_def)

lemma bit_REF_COUNT_MASK: "bit REF_COUNT_MASK n \<longleftrightarrow> 6 \<le> n \<and> n < 64"
proof -
  have "REF_COUNT_MASK = NOT (mask 6)"
    by (simp add: REF_COUNT_MASK_def STATE_MASK_eq mask_eq_exp_minus_1)
  then show ?thesis using bit_not_mask_word [of 6 n, where ?'a = 64] by (simp only:) auto
qed

lemma REF_COUNT_SHIFT_eq [simp]: "REF_COUNT_SHIFT = 6"
proof -
  have "filter (\<lambda>n. \<not> bit REF_COUNT_MASK n) [0..<64] = [0..<6]"
    by (simp add: bit_REF_COUNT_MASK upt_rec)
  then show ?thesis by (simp add: REF_COUNT_SHIFT_def)
qed

lemma REF_ONE_eq: "REF_ONE = 64"
  by (simp add: REF_ONE_def)

lemma REF_ONE_push: "c * REF_ONE = push_bit 6 c"
  by (simp add: REF_ONE_eq push_bit_eq_mult)

text \<open>Flags are bits, in the order of the constants.\<close>

lemma flag_bits [flag_simps]:
  "ts_is_running s \<longleftrightarrow> bit s 0"
  "ts_is_complete s \<longleftrightarrow> bit s 1"
  "ts_is_notified s \<longleftrightarrow> bit s 2"
  "ts_is_join_interested s \<longleftrightarrow> bit s 3"
  "ts_has_join_waker s \<longleftrightarrow> bit s 4"
  "ts_is_cancelled s \<longleftrightarrow> bit s 5"
  using flag_test_bit [of 0 s] flag_test_bit [of 1 s] flag_test_bit [of 2 s]
    flag_test_bit [of 3 s] flag_test_bit [of 4 s] flag_test_bit [of 5 s]
  by (simp_all add: ts_is_running_def ts_is_complete_def ts_is_notified_def
      ts_is_join_interested_def ts_has_join_waker_def ts_is_cancelled_def task_flags)

lemma is_idle_bits [flag_simps]: "ts_is_idle s \<longleftrightarrow> \<not> bit s 0 \<and> \<not> bit s 1"
proof -
  have "ts_is_idle s \<longleftrightarrow> s AND mask 2 = 0"
    by (simp add: ts_is_idle_def task_flags mask_eq_exp_minus_1)
  also have "\<dots> \<longleftrightarrow> (\<forall>n. \<not> bit (s AND mask 2) n)"
    by (metis bit_0_eq bit_word_eqI bot_apply bot_bool_def)
  also have "\<dots> \<longleftrightarrow> (\<forall>n. n < 2 \<longrightarrow> \<not> bit s n)"
  proof -
    have "bit (s AND mask 2) n \<longleftrightarrow> n < 2 \<and> bit s n" for n
      by (auto simp: bit_and_iff bit_mask_iff)
    then show ?thesis by blast
  qed
  also have "\<dots> \<longleftrightarrow> \<not> bit s 0 \<and> \<not> bit s 1"
    by (metis less_2_cases_iff One_nat_def)
  finally show ?thesis .
qed

lemma ref_count_drop: "ts_ref_count s = drop_bit 6 s"
  by (rule bit_word_eqI)
     (auto simp: ts_ref_count_def bit_drop_bit_eq bit_and_iff bit_REF_COUNT_MASK
       dest: bit_imp_le_length)

lemmas ts_setters =
  ts_set_running_def ts_unset_running_def ts_set_notified_def ts_unset_notified_def
  ts_set_cancelled_def ts_unset_join_interested_def ts_set_join_waker_def ts_unset_join_waker_def

lemma setter_bits [flag_simps]:
  "bit (ts_set_running s) n \<longleftrightarrow> n = 0 \<or> bit s n"
  "bit (ts_unset_running s) n \<longleftrightarrow> n \<noteq> 0 \<and> bit s n"
  "bit (ts_set_notified s) n \<longleftrightarrow> n = 2 \<or> bit s n"
  "bit (ts_unset_notified s) n \<longleftrightarrow> n \<noteq> 2 \<and> bit s n"
  "bit (ts_set_cancelled s) n \<longleftrightarrow> n = 5 \<or> bit s n"
  "bit (ts_unset_join_interested s) n \<longleftrightarrow> n \<noteq> 3 \<and> bit s n"
  "bit (ts_set_join_waker s) n \<longleftrightarrow> n = 4 \<or> bit s n"
  "bit (ts_unset_join_waker s) n \<longleftrightarrow> n \<noteq> 4 \<and> bit s n"
  using flag_set_bit [of 0 s n] flag_set_bit [of 2 s n] flag_set_bit [of 4 s n] flag_set_bit [of 5 s n]
    flag_clear_bit [of s 0 n] flag_clear_bit [of s 2 n] flag_clear_bit [of s 3 n] flag_clear_bit [of s 4 n]
  by (simp_all add: ts_setters task_flags)

lemma ref_count_cong: "(\<And>n. 6 \<le> n \<Longrightarrow> bit s n = bit t n) \<Longrightarrow> ts_ref_count s = ts_ref_count t"
  by (rule bit_word_eqI) (simp add: ref_count_drop bit_drop_bit_eq)

lemma setter_refs [flag_simps]:
  "ts_ref_count (ts_set_running s) = ts_ref_count s"
  "ts_ref_count (ts_unset_running s) = ts_ref_count s"
  "ts_ref_count (ts_set_notified s) = ts_ref_count s"
  "ts_ref_count (ts_unset_notified s) = ts_ref_count s"
  "ts_ref_count (ts_set_cancelled s) = ts_ref_count s"
  "ts_ref_count (ts_unset_join_interested s) = ts_ref_count s"
  "ts_ref_count (ts_set_join_waker s) = ts_ref_count s"
  "ts_ref_count (ts_unset_join_waker s) = ts_ref_count s"
  by (rule ref_count_cong; simp add: setter_bits)+

lemma refs_bits [flag_simps]:
  "n < 6 \<Longrightarrow> bit (s + REF_ONE) n \<longleftrightarrow> bit s n"
  "n < 6 \<Longrightarrow> bit (s - REF_ONE) n \<longleftrightarrow> bit s n"
  "n < 6 \<Longrightarrow> bit (s - c * REF_ONE) n \<longleftrightarrow> bit s n"
  using bit_add_push_low [of n 6 s 1] bit_sub_push_low [of n 6 s 1] bit_sub_push_low [of n 6 s c]
  by (simp_all only: REF_ONE_push [of c]) (simp_all add: REF_ONE_eq)

lemma unat_ref_count: "unat (ts_ref_count s) = unat s div 64"
  using unat_drop_bit [of 6 s] by (simp add: ref_count_drop)

lemma ref_count_less: "unat (ts_ref_count s) < 2 ^ 58"
  using unsigned_less [of s, where ?'a = nat] by (simp add: unat_ref_count less_mult_imp_div_less)

lemma refs_inc:
  assumes "s \<le> isize_max"
  shows "unat (ts_ref_count (s + REF_ONE)) = Suc (unat (ts_ref_count s))"
proof -
  have "unat s \<le> 9223372036854775807"
    using assms by (simp add: isize_max_def word_le_nat_alt)
  then show ?thesis
    using drop_bit_add_push [of s 1 6] by (simp add: ref_count_drop REF_ONE_eq)
qed

lemma refs_sub:
  assumes "c \<le> ts_ref_count s"
  shows "unat (ts_ref_count (s - c * REF_ONE)) = unat (ts_ref_count s) - unat c"
  using drop_bit_sub_push [of "unat c" 6 s] assms
  by (simp add: ref_count_drop REF_ONE_eq word_le_nat_alt)

lemma refs_dec:
  assumes "ts_ref_count s > 0"
  shows "unat (ts_ref_count (s - REF_ONE)) = unat (ts_ref_count s) - 1"
proof -
  have "1 \<le> ts_ref_count s" using assms by (simp add: word_le_nat_alt word_less_nat_alt)
  from refs_sub [OF this] show ?thesis by simp
qed


section \<open>The transitions on flags and counts\<close>

text \<open>
  The specification of each transition, on the decoded record. A failing assertion is \<open>Inl\<close>
  in both; a transition that creates a reference needs room in the counter.
\<close>

definition spec_running :: "task_state \<Rightarrow> (TransitionToRunning \<times> task_state) outcome" where
  "spec_running t =
     (if \<not> t_notified t then Inl AssertFailed
      else if t_running t \<or> t_complete t then
        (if t_refs t = 0 then Inl AssertFailed
         else Inr (if t_refs t = 1 then RunDealloc else RunFailed, t\<lparr>t_refs := t_refs t - 1\<rparr>))
      else Inr (if t_cancelled t then RunCancelled else RunSuccess,
                t\<lparr>t_running := True, t_notified := False\<rparr>))"

definition spec_idle :: "task_state \<Rightarrow> (TransitionToIdle \<times> task_state) outcome" where
  "spec_idle t =
     (if \<not> t_running t then Inl AssertFailed
      else if t_cancelled t then Inr (IdleCancelled, t)
      else if t_notified t then Inr (IdleOkNotified, t\<lparr>t_running := False, t_refs := t_refs t + 1\<rparr>)
      else if t_refs t = 0 then Inl AssertFailed
      else Inr (if t_refs t = 1 then IdleOkDealloc else IdleOk,
                t\<lparr>t_running := False, t_refs := t_refs t - 1\<rparr>))"

definition spec_complete :: "task_state \<Rightarrow> (task_state \<times> task_state) outcome" where
  "spec_complete t =
     (if \<not> t_running t \<or> t_complete t then Inl AssertFailed
      else let t' = t\<lparr>t_running := False, t_complete := True\<rparr> in Inr (t', t'))"

definition spec_terminal :: "nat \<Rightarrow> task_state \<Rightarrow> (bool \<times> task_state) outcome" where
  "spec_terminal n t =
     (if t_refs t < n then Inl AssertFailed else Inr (t_refs t = n, t\<lparr>t_refs := t_refs t - n\<rparr>))"

definition spec_by_val :: "task_state \<Rightarrow> (TransitionToNotifiedByVal \<times> task_state) outcome" where
  "spec_by_val t =
     (if t_running t then
        (if t_refs t < 2 then Inl AssertFailed
         else Inr (ValDoNothing, t\<lparr>t_notified := True, t_refs := t_refs t - 1\<rparr>))
      else if t_complete t \<or> t_notified t then
        (if t_refs t = 0 then Inl AssertFailed
         else Inr (if t_refs t = 1 then ValDealloc else ValDoNothing, t\<lparr>t_refs := t_refs t - 1\<rparr>))
      else Inr (ValSubmit, t\<lparr>t_notified := True, t_refs := t_refs t + 1\<rparr>))"

definition spec_by_ref :: "task_state \<Rightarrow> (TransitionToNotifiedByRef \<times> task_state) outcome" where
  "spec_by_ref t =
     (if t_complete t \<or> t_notified t then Inr (RefDoNothing, t)
      else if t_running t then Inr (RefDoNothing, t\<lparr>t_notified := True\<rparr>)
      else Inr (RefSubmit, t\<lparr>t_notified := True, t_refs := t_refs t + 1\<rparr>))"

definition spec_cancel :: "task_state \<Rightarrow> (bool \<times> task_state) outcome" where
  "spec_cancel t =
     (if t_cancelled t \<or> t_complete t then Inr (False, t)
      else if t_running t then Inr (False, t\<lparr>t_notified := True, t_cancelled := True\<rparr>)
      else if t_notified t then Inr (False, t\<lparr>t_cancelled := True\<rparr>)
      else Inr (True, t\<lparr>t_notified := True, t_cancelled := True, t_refs := t_refs t + 1\<rparr>))"

definition spec_shutdown :: "task_state \<Rightarrow> (bool \<times> task_state) outcome" where
  "spec_shutdown t =
     (let idle = (\<not> t_running t \<and> \<not> t_complete t)
      in Inr (idle, t\<lparr>t_running := t_running t \<or> idle, t_cancelled := True\<rparr>))"

definition decode_result :: "('a \<times> snapshot) outcome \<Rightarrow> ('a \<times> task_state) outcome" where
  "decode_result r = and_then r (\<lambda>(a, s). Inr (a, decode s))"

lemma decode_result_simps [simp]:
  "decode_result (Inl e) = Inl e" "decode_result (Inr (a, s)) = Inr (a, decode s)"
  by (simp_all add: decode_result_def)

lemma refs_zero: "(ts_ref_count s = 0) \<longleftrightarrow> unat (ts_ref_count s) = 0"
  by (simp add: unat_eq_0)

lemma refs_pos: "(0 < ts_ref_count s) \<longleftrightarrow> unat (ts_ref_count s) \<noteq> 0"
  by (simp add: word_neq_0_conv [symmetric] unat_eq_0)

lemma ts_ref_dec_eq:
  "ts_ref_dec s = (if unat (ts_ref_count s) = 0 then Inl AssertFailed else Inr (s - REF_ONE))"
  by (simp add: ts_ref_dec_def ensure_def refs_pos)

text \<open>The flags and the count of a word after an operation, all in one bundle.\<close>

lemma decode_setters:
  "decode (ts_set_running s) = (decode s)\<lparr>t_running := True\<rparr>"
  "decode (ts_unset_running s) = (decode s)\<lparr>t_running := False\<rparr>"
  "decode (ts_set_notified s) = (decode s)\<lparr>t_notified := True\<rparr>"
  "decode (ts_unset_notified s) = (decode s)\<lparr>t_notified := False\<rparr>"
  "decode (ts_set_cancelled s) = (decode s)\<lparr>t_cancelled := True\<rparr>"
  "decode (ts_unset_join_interested s) = (decode s)\<lparr>t_join_interest := False\<rparr>"
  "decode (ts_set_join_waker s) = (decode s)\<lparr>t_join_waker := True\<rparr>"
  "decode (ts_unset_join_waker s) = (decode s)\<lparr>t_join_waker := False\<rparr>"
  by (simp_all add: decode_def flag_simps)

lemma decode_inc:
  "s \<le> isize_max \<Longrightarrow> decode (s + REF_ONE) = (decode s)\<lparr>t_refs := t_refs (decode s) + 1\<rparr>"
  by (simp add: decode_def flag_simps refs_inc)

lemma decode_dec:
  "t_refs (decode s) \<noteq> 0 \<Longrightarrow> decode (s - REF_ONE) = (decode s)\<lparr>t_refs := t_refs (decode s) - 1\<rparr>"
  by (simp add: decode_def flag_simps refs_dec refs_pos)

lemma decode_sub:
  "c \<le> ts_ref_count s \<Longrightarrow>
     decode (s - c * REF_ONE) = (decode s)\<lparr>t_refs := t_refs (decode s) - unat c\<rparr>"
  by (simp add: decode_def flag_simps refs_sub)

lemma decode_tests:
  "ts_is_running s = t_running (decode s)" "ts_is_complete s = t_complete (decode s)"
  "ts_is_notified s = t_notified (decode s)" "ts_is_cancelled s = t_cancelled (decode s)"
  "ts_is_join_interested s = t_join_interest (decode s)"
  "ts_has_join_waker s = t_join_waker (decode s)"
  "ts_is_idle s \<longleftrightarrow> \<not> t_running (decode s) \<and> \<not> t_complete (decode s)"
  "ts_ref_count s = 0 \<longleftrightarrow> t_refs (decode s) = 0"
  "unat (ts_ref_count s) = t_refs (decode s)"
  by (simp_all add: decode_def flag_simps refs_zero)

lemma isize_bit: "s \<le> isize_max \<longleftrightarrow> \<not> bit s 63"
proof -
  have "bit s 63 \<longleftrightarrow> odd (unat s div 2 ^ 63)"
    by (metis bit_iff_odd bit_unsigned_iff bit_imp_le_length possible_bit_less_imp possible_bit_nat)
  also have "\<dots> \<longleftrightarrow> 2 ^ 63 \<le> unat s"
  proof -
    have "unat s < 2 * 2 ^ 63" using unsigned_less [of s, where ?'a = nat] by simp
    then have "unat s div 2 ^ 63 < 2" by (simp add: less_mult_imp_div_less)
    then show ?thesis
      by (cases "unat s < 2 ^ 63") (auto simp: less_2_cases_iff div_greater_zero_iff)
  qed
  finally show ?thesis by (auto simp: isize_max_def word_le_nat_alt)
qed

lemma isize_setters [simp]:
  "ts_set_running s \<le> isize_max \<longleftrightarrow> s \<le> isize_max"
  "ts_unset_running s \<le> isize_max \<longleftrightarrow> s \<le> isize_max"
  "ts_set_notified s \<le> isize_max \<longleftrightarrow> s \<le> isize_max"
  "ts_set_cancelled s \<le> isize_max \<longleftrightarrow> s \<le> isize_max"
  by (simp_all add: isize_bit setter_bits)

lemmas decode_eval = decode_setters decode_inc decode_dec decode_tests run_action_eq run_update_eq
  and_then_ensure ts_ref_dec_eq ts_ref_inc_def Let_def

lemma spec_running_refined:
  "decode_result (transition_to_running s) = spec_running (decode s)"
  by (auto simp: transition_to_running_def running_action_def spec_running_def decode_eval)

lemma spec_idle_refined:
  "s \<le> isize_max \<Longrightarrow> decode_result (transition_to_idle s) = spec_idle (decode s)"
  by (auto simp: transition_to_idle_def idle_action_def spec_idle_def decode_eval)

lemma spec_by_val_refined:
  "s \<le> isize_max \<Longrightarrow> decode_result (transition_to_notified_by_val s) = spec_by_val (decode s)"
  by (auto simp: transition_to_notified_by_val_def notified_by_val_action_def spec_by_val_def
      decode_eval refs_pos)

lemma spec_by_ref_refined:
  "s \<le> isize_max \<Longrightarrow> decode_result (transition_to_notified_by_ref s) = spec_by_ref (decode s)"
  by (auto simp: transition_to_notified_by_ref_def notified_by_ref_action_def spec_by_ref_def
      decode_eval)

lemma spec_cancel_refined:
  "s \<le> isize_max \<Longrightarrow> decode_result (transition_to_notified_and_cancel s) = spec_cancel (decode s)"
  by (auto simp: transition_to_notified_and_cancel_def notified_and_cancel_action_def spec_cancel_def
      decode_eval)

lemma spec_shutdown_refined:
  "decode_result (transition_to_shutdown s) = spec_shutdown (decode s)"
  by (auto simp: transition_to_shutdown_def spec_shutdown_def decode_eval)


definition spec_join ::
    "(task_state \<Rightarrow> bool) \<Rightarrow> (task_state \<Rightarrow> task_state) \<Rightarrow> task_state \<Rightarrow> (bool \<times> task_state) outcome" where
  "spec_join pre upd t =
     (if \<not> (t_join_interest t \<and> pre t) then Inl AssertFailed
      else if t_complete t then Inr (False, t) else Inr (True, upd t))"

definition answer :: "(('e + 'b) \<times> snapshot) outcome \<Rightarrow> (bool \<times> task_state) outcome" where
  "answer r = and_then r (\<lambda>(x, s). Inr (\<not> isl x, decode s))"

lemma answer_simps [simp]: "answer (Inl e) = Inl e" "answer (Inr (x, s)) = Inr (\<not> isl x, decode s)"
  by (simp_all add: answer_def)

lemma spec_join_refined:
  "answer (unset_join_interested s)
     = spec_join (\<lambda>_. True) (\<lambda>t. t\<lparr>t_join_interest := False\<rparr>) (decode s)"
  "answer (set_join_waker s)
     = spec_join (\<lambda>t. \<not> t_join_waker t) (\<lambda>t. t\<lparr>t_join_waker := True\<rparr>) (decode s)"
  "answer (unset_waker s)
     = spec_join t_join_waker (\<lambda>t. t\<lparr>t_join_waker := False\<rparr>) (decode s)"
  by (auto simp: unset_join_interested_def set_join_waker_def unset_waker_def spec_join_def decode_eval)

lemma bit_xor_lifecycle:
  "bit (s XOR (RUNNING OR COMPLETE)) n \<longleftrightarrow> (bit s n \<noteq> (n < 2))"
proof -
  have "RUNNING OR COMPLETE = mask 2" by (simp add: task_flags mask_eq_exp_minus_1)
  moreover have "bit (s XOR mask 2) n \<longleftrightarrow> (bit s n \<noteq> (n < 2))"
    by (auto simp: bit_xor_iff bit_mask_iff)
  ultimately show ?thesis by simp
qed

lemma spec_complete_refined:
  "decode_result (transition_to_complete s) = and_then (spec_complete (decode s)) (\<lambda>(_, t). Inr (s XOR (RUNNING OR COMPLETE), t))"
proof -
  have "ts_ref_count (s XOR (RUNNING OR COMPLETE)) = ts_ref_count s"
    by (rule ref_count_cong) (simp add: bit_xor_lifecycle)
  then show ?thesis
    by (auto simp: transition_to_complete_def spec_complete_def decode_def flag_bits
        bit_xor_lifecycle and_then_ensure Let_def)
qed

lemma spec_terminal_refined:
  "decode_result (transition_to_terminal c s) = spec_terminal (unat c) (decode s)"
  by (auto simp: transition_to_terminal_def spec_terminal_def and_then_ensure decode_sub
      word_le_nat_alt decode_tests word_unat_eq_iff)

lemma state_ref_dec_refined:
  "decode_result (state_ref_dec s) = spec_terminal 1 (decode s)"
  "decode_result (state_ref_dec_twice s) = spec_terminal 2 (decode s)"
proof -
  have "state_ref_dec s = transition_to_terminal 1 s"
    by (simp add: state_ref_dec_def transition_to_terminal_def)
  with spec_terminal_refined [of 1 s] show "decode_result (state_ref_dec s) = spec_terminal 1 (decode s)"
    by simp
  have "state_ref_dec_twice s = transition_to_terminal 2 s"
    by (simp add: state_ref_dec_twice_def transition_to_terminal_def)
  with spec_terminal_refined [of 2 s]
  show "decode_result (state_ref_dec_twice s) = spec_terminal 2 (decode s)"
    by simp
qed

lemma state_ref_inc_refined:
  "s \<le> isize_max \<Longrightarrow>
     state_ref_inc s = Inr (s + REF_ONE) \<and>
     decode (s + REF_ONE) = (decode s)\<lparr>t_refs := t_refs (decode s) + 1\<rparr>"
  by (simp add: state_ref_inc_def decode_inc)

lemma state_ref_inc_aborts: "isize_max < s \<Longrightarrow> state_ref_inc s = Inl ProcessAbort"
  by (simp add: state_ref_inc_def ensure_def)

lemma decode_initial:
  "decode INITIAL_STATE = \<lparr>t_running = False, t_complete = False, t_notified = True,
     t_join_interest = True, t_join_waker = False, t_cancelled = False, t_refs = 3\<rparr>"
  by (simp add: decode_def ts_is_running_def ts_is_complete_def ts_is_notified_def
      ts_is_join_interested_def ts_has_join_waker_def ts_is_cancelled_def unat_ref_count
      INITIAL_STATE_def REF_ONE_eq task_flags)

lemma decode_fast_drop:
  "decode ((INITIAL_STATE - REF_ONE) AND NOT JOIN_INTEREST)
     = (decode INITIAL_STATE)\<lparr>t_join_interest := False, t_refs := 2\<rparr>"
  using decode_setters(6) [of "INITIAL_STATE - REF_ONE"] decode_dec [of INITIAL_STATE]
  by (simp add: decode_initial ts_unset_join_interested_def)

lemma decode_inj: "decode s = decode s' \<longleftrightarrow> s = s'"
proof
  assume d: "decode s = decode s'"
  show "s = s'"
  proof (rule bit_word_eqI)
    fix n
    assume n: "n < LENGTH(64)"
    show "bit s n = bit s' n"
    proof (cases "n < 6")
      case True
      then have "n \<in> {0, 1, 2, 3, 4, 5}" by auto
      then show ?thesis using d by (auto simp: decode_def flag_bits)
    next
      case False
      have "ts_ref_count s = ts_ref_count s'" using d by (simp add: decode_def word_unat_eq_iff)
      then have "bit (ts_ref_count s) (n - 6) = bit (ts_ref_count s') (n - 6)" by simp
      then show ?thesis using False n by (simp add: ref_count_drop bit_drop_bit_eq)
    qed
  qed
qed simp

definition spec_fast_drop :: "task_state \<Rightarrow> bool \<times> task_state" where
  "spec_fast_drop t =
     (if t = \<lparr>t_running = False, t_complete = False, t_notified = True, t_join_interest = True,
             t_join_waker = False, t_cancelled = False, t_refs = 3\<rparr>
      then (True, t\<lparr>t_join_interest := False, t_refs := 2\<rparr>) else (False, t))"

lemma fast_drop_refined:
  "map_prod (\<lambda>ok. ok) decode (drop_join_handle_fast s) = spec_fast_drop (decode s)"
  using decode_inj [of s INITIAL_STATE]
  by (auto simp: drop_join_handle_fast_def spec_fast_drop_def decode_fast_drop decode_initial)

lemma complete_refined:
  "and_then (transition_to_complete s) (\<lambda>(a, s'). Inr (decode a, decode s')) = spec_complete (decode s)"
  using spec_complete_refined [of s]
  by (auto simp: transition_to_complete_def spec_complete_def and_then_ensure Let_def decode_tests)

section \<open>Properties\<close>

text \<open>
  C19: Every transition of the state word, \<open>transition_to_running\<close> to \<open>ref_dec_twice\<close>, does on its flags and
  its reference count exactly what its specification says, failing assertions included, and answers what it
  says (of the snapshots that the join flags' transitions return, whether it is \<open>Ok\<close> or \<open>Err\<close>), while the word
  leaves room for one more reference; without that room, \<open>ref_inc\<close> aborts. (Only the transitions that create a
  reference need the room. The compare-and-exchange of \<open>drop_join_handle_fast\<close> is taken
  not to fail spuriously; its caller then takes the slow path.)
\<close>

theorem transitions_refine_specification:
  assumes "s \<le> isize_max"
  shows "decode_result (transition_to_running s) = spec_running (decode s) \<and>
    decode_result (transition_to_idle s) = spec_idle (decode s) \<and>
    decode_result (transition_to_notified_by_val s) = spec_by_val (decode s) \<and>
    decode_result (transition_to_notified_by_ref s) = spec_by_ref (decode s) \<and>
    decode_result (transition_to_notified_and_cancel s) = spec_cancel (decode s) \<and>
    decode_result (transition_to_shutdown s) = spec_shutdown (decode s) \<and>
    decode_result (transition_to_terminal c s) = spec_terminal (unat c) (decode s) \<and>
    decode_result (state_ref_dec s) = spec_terminal 1 (decode s) \<and>
    decode_result (state_ref_dec_twice s) = spec_terminal 2 (decode s) \<and>
    and_then (state_ref_inc s) (\<lambda>s'. Inr (decode s')) = Inr ((decode s)\<lparr>t_refs := t_refs (decode s) + 1\<rparr>) \<and>
    (isize_max < s0 \<longrightarrow> state_ref_inc s0 = Inl ProcessAbort) \<and>
    and_then (transition_to_complete s) (\<lambda>(a, s'). Inr (decode a, decode s')) = spec_complete (decode s) \<and>
    map_prod (\<lambda>ok. ok) decode (drop_join_handle_fast s) = spec_fast_drop (decode s) \<and>
    answer (unset_join_interested s)
      = spec_join (\<lambda>_. True) (\<lambda>t. t\<lparr>t_join_interest := False\<rparr>) (decode s) \<and>
    answer (set_join_waker s)
      = spec_join (\<lambda>t. \<not> t_join_waker t) (\<lambda>t. t\<lparr>t_join_waker := True\<rparr>) (decode s) \<and>
    answer (unset_waker s) = spec_join t_join_waker (\<lambda>t. t\<lparr>t_join_waker := False\<rparr>) (decode s)"
  using assms state_ref_inc_refined [OF assms] state_ref_inc_aborts
  by (intro conjI spec_running_refined spec_idle_refined spec_by_val_refined spec_by_ref_refined
      spec_cancel_refined spec_shutdown_refined spec_terminal_refined state_ref_dec_refined
      spec_join_refined complete_refined fast_drop_refined) simp_all

theorem transitions_refine_specification_witness:
  "INITIAL_STATE \<le> isize_max \<and>
   decode_result (transition_to_running INITIAL_STATE)
     = Inr (RunSuccess, (decode INITIAL_STATE)\<lparr>t_running := True, t_notified := False\<rparr>)"
proof -
  have "INITIAL_STATE \<le> isize_max"
    by (simp add: INITIAL_STATE_def REF_ONE_eq task_flags isize_max_def)
  from transitions_refine_specification [OF this, of 0 0] this show ?thesis
    by (simp add: spec_running_def decode_initial)
qed

text \<open>The states a task's word passes through, by any interleaving of the transitions.\<close>

inductive state_step :: "snapshot \<Rightarrow> snapshot \<Rightarrow> bool" where
  to_running: "transition_to_running s = Inr (r, s') \<Longrightarrow> state_step s s'"
| to_idle: "transition_to_idle s = Inr (i, s') \<Longrightarrow> state_step s s'"
| to_complete: "transition_to_complete s = Inr (c, s') \<Longrightarrow> state_step s s'"
| to_terminal: "transition_to_terminal n s = Inr (d, s') \<Longrightarrow> state_step s s'"
| by_val: "transition_to_notified_by_val s = Inr (v, s') \<Longrightarrow> state_step s s'"
| by_ref: "transition_to_notified_by_ref s = Inr (f, s') \<Longrightarrow> state_step s s'"
| cancel: "transition_to_notified_and_cancel s = Inr (b, s') \<Longrightarrow> state_step s s'"
| shutdown: "transition_to_shutdown s = Inr (b, s') \<Longrightarrow> state_step s s'"
| fast_drop: "drop_join_handle_fast s = (b, s') \<Longrightarrow> state_step s s'"
| uninterested: "unset_join_interested s = Inr (u, s') \<Longrightarrow> state_step s s'"
| join_waker: "set_join_waker s = Inr (u, s') \<Longrightarrow> state_step s s'"
| no_waker: "unset_waker s = Inr (u, s') \<Longrightarrow> state_step s s'"
| inc: "state_ref_inc s = Inr s' \<Longrightarrow> state_step s s'"
| dec: "state_ref_dec s = Inr (b, s') \<Longrightarrow> state_step s s'"
| dec_twice: "state_ref_dec_twice s = Inr (b, s') \<Longrightarrow> state_step s s'"


text \<open>
  The lifecycle invariant on a decoded state: a task is never running and complete, and a state
  reached later keeps the bits \<open>COMPLETE\<close> and \<open>CANCELLED\<close>.
\<close>

definition exclusive :: "snapshot \<Rightarrow> bool" where
  "exclusive s \<longleftrightarrow> \<not> (ts_is_running s \<and> ts_is_complete s)"

lemma run_action_Inr:
  "run_action f s = Inr (a, s') \<longleftrightarrow>
     f s = Inr (a, None) \<and> s' = s \<or> f s = Inr (a, Some s')"
  by (cases "f s") (auto simp: run_action_eq split: option.splits)

lemma run_update_Inr:
  "run_update f s = Inr (a, s') \<longleftrightarrow>
     f s = Inr None \<and> a = Inl s \<and> s' = s \<or> f s = Inr (Some s') \<and> a = Inr s'"
  by (cases "f s") (auto simp: run_update_eq split: option.splits)

lemmas transition_defs =
  transition_to_running_def running_action_def transition_to_idle_def idle_action_def
  transition_to_complete_def transition_to_terminal_def transition_to_notified_by_val_def
  notified_by_val_action_def transition_to_notified_by_ref_def notified_by_ref_action_def
  transition_to_notified_and_cancel_def notified_and_cancel_action_def transition_to_shutdown_def
  drop_join_handle_fast_def unset_join_interested_def set_join_waker_def unset_waker_def
  state_ref_inc_def state_ref_dec_def state_ref_dec_twice_def

lemma initial_bits: "n < 3 \<Longrightarrow> bit INITIAL_STATE n \<longleftrightarrow> n = 2"
  using decode_initial by (auto simp: decode_def flag_bits numeral_3_eq_3 less_Suc_eq numeral_2_eq_2)

lemma fast_drop_bits:
  "n < 3 \<Longrightarrow> bit ((INITIAL_STATE - REF_ONE) AND NOT JOIN_INTEREST) n \<longleftrightarrow> n = 2"
  using decode_fast_drop decode_initial
  by (auto simp: decode_def flag_bits numeral_3_eq_3 less_Suc_eq numeral_2_eq_2)

lemma initial_not_cancelled: "\<not> bit INITIAL_STATE 5"
  using decode_initial by (simp add: decode_def flag_bits)

lemma refs_bits_numeral [flag_simps]: "n < 6 \<Longrightarrow> bit (s - 2 * REF_ONE) n \<longleftrightarrow> bit s n"
  by (rule refs_bits(3))

lemma state_step_lifecycle:
  assumes "state_step s s'"
  shows "(exclusive s \<longrightarrow> exclusive s') \<and> (bit s 1 \<longrightarrow> bit s' 1) \<and> (bit s 5 \<longrightarrow> bit s' 5)"
  using assms
proof (cases rule: state_step.cases)
  case (fast_drop b)
  then show ?thesis
    by (auto simp: transition_defs exclusive_def flag_bits fast_drop_bits initial_bits
        initial_not_cancelled split: if_splits)
qed (auto simp: transition_defs exclusive_def run_action_Inr run_update_Inr and_then_eq_Inr
    flag_simps bit_xor_lifecycle ts_ref_inc_def ts_ref_dec_def Let_def split: if_splits)


lemma state_steps_lifecycle:
  assumes "state_step\<^sup>*\<^sup>* s s'"
  shows "(exclusive s \<longrightarrow> exclusive s') \<and> (bit s 1 \<longrightarrow> bit s' 1) \<and> (bit s 5 \<longrightarrow> bit s' 5)"
  using assms by (induction rule: rtranclp_induct) (auto dest: state_step_lifecycle)

lemma complete_not_polled:
  "ts_is_complete s \<Longrightarrow> transition_to_running s = Inr (r, s') \<Longrightarrow> r \<in> {RunFailed, RunDealloc}"
  by (auto simp: transition_to_running_def running_action_def run_action_Inr and_then_eq_Inr
      flag_bits is_idle_bits split: if_splits)

text \<open>
  in every state a task can reach, it is not both running and complete; once it is complete it
  stays so, once cancelled it stays cancelled, and no later \<open>transition_to_running\<close> lets a poll
  start: it answers \<open>Failed\<close> or \<open>Dealloc\<close>.
\<close>

lemma completed_task_stays_complete:
  assumes "state_step\<^sup>*\<^sup>* INITIAL_STATE s" and "state_step\<^sup>*\<^sup>* s s'"
  shows "\<not> (ts_is_running s' \<and> ts_is_complete s') \<and>
         (ts_is_cancelled s \<longrightarrow> ts_is_cancelled s') \<and>
         (ts_is_complete s \<longrightarrow> ts_is_complete s' \<and>
            (\<forall>r s''. transition_to_running s' = Inr (r, s'') \<longrightarrow> r \<in> {RunFailed, RunDealloc}))"
proof -
  have "exclusive INITIAL_STATE"
    using decode_initial by (simp add: exclusive_def decode_def)
  with assms have "exclusive s'"
    using state_steps_lifecycle by blast
  with state_steps_lifecycle [OF assms(2)] complete_not_polled show ?thesis
    by (auto simp: exclusive_def flag_bits)
qed

lemma completed_task_stays_complete_witness:
  "\<not> (ts_is_running (INITIAL_STATE OR CANCELLED OR RUNNING) \<and>
      ts_is_complete (INITIAL_STATE OR CANCELLED OR RUNNING))"
proof -
  have "transition_to_shutdown INITIAL_STATE = Inr (True, INITIAL_STATE OR CANCELLED OR RUNNING)"
    using decode_initial
    by (simp add: transition_to_shutdown_def run_update_eq decode_def ts_is_idle_def
        ts_setters INITIAL_STATE_def REF_ONE_eq task_flags)
  then have "state_step\<^sup>*\<^sup>* INITIAL_STATE (INITIAL_STATE OR CANCELLED OR RUNNING)"
    by (blast intro: state_step.shutdown)
  from completed_task_stays_complete [OF rtranclp.rtrancl_refl this] show ?thesis by blast
qed

end
