(* ===== verification/Task_Harness.thy ===== *)
theory Task_Harness
  imports Task_State
begin

text \<open>
  One task: \<open>runtime/task\<close> \<open>core.rs\<close>, \<open>harness.rs\<close>, \<open>raw.rs\<close>, \<open>waker.rs\<close>, \<open>join.rs\<close> and the handle types of
  \<open>mod.rs\<close>. The future of the task is code of the user: its poll is a function \<open>user\<close> that may change the
  task (it may clone, wake and drop wakers of its own task, abort it, and so on) and answers; dropping
  it is a function \<open>udrop\<close> that may do the same and may panic. What the task asks of others comes out
  as a list of effects. \<open>tk_owned\<close> says that the task is in the list of its \<open>OwnedTasks\<close>, \<open>tk_freed\<close> that
  its memory was freed.
\<close>

section \<open>The cell of a task\<close>

datatype join_error = JoinCancelled u64 | JoinPanicked u64

datatype 'o stage = StRunning | StFinished "join_error + 'o" | StConsumed

datatype effect = ScheduleTask | YieldTask | WakeJoin waker

record 'o task =
  tk_state :: snapshot
  tk_stage :: "'o stage"
  tk_waker :: "waker option"
  tk_id :: u64
  tk_owned :: bool
  tk_freed :: bool

definition cell_new :: "u64 \<Rightarrow> 'o task" where
  "cell_new tid = \<lparr>tk_state = state_new, tk_stage = StRunning, tk_waker = None, tk_id = tid,
     tk_owned = False, tk_freed = False\<rparr>"

definition set_stage :: "'o stage \<Rightarrow> 'o task \<Rightarrow> 'o task" where
  "set_stage stage t = t\<lparr>tk_stage := stage\<rparr>"

definition drop_future_or_output :: "'o task \<Rightarrow> 'o task" where
  "drop_future_or_output t = set_stage StConsumed t"

definition store_output :: "(join_error + 'o) \<Rightarrow> 'o task \<Rightarrow> 'o task" where
  "store_output out t = set_stage (StFinished out) t"

definition take_output :: "'o task \<Rightarrow> ((join_error + 'o) \<times> 'o task) outcome" where
  "take_output t =
     (case tk_stage t of StFinished out \<Rightarrow> Inr (out, t\<lparr>tk_stage := StConsumed\<rparr>) | _ \<Rightarrow> Inl ExplicitPanic)"

definition trailer_set_waker :: "waker option \<Rightarrow> 'o task \<Rightarrow> 'o task" where
  "trailer_set_waker w t = t\<lparr>tk_waker := w\<rparr>"

definition trailer_will_wake :: "waker \<Rightarrow> 'o task \<Rightarrow> bool outcome" where
  "trailer_will_wake w t = (case tk_waker t of None \<Rightarrow> Inl UnwrapNone | Some k \<Rightarrow> Inr (k = w))"

definition trailer_wake_join :: "'o task \<Rightarrow> effect list outcome" where
  "trailer_wake_join t = (case tk_waker t of Some k \<Rightarrow> Inr [WakeJoin k] | None \<Rightarrow> Inl ExplicitPanic)"

section \<open>The harness\<close>

definition harness_dealloc :: "'o task \<Rightarrow> 'o task" where
  "harness_dealloc t = t\<lparr>tk_waker := None, tk_stage := StConsumed, tk_freed := True\<rparr>"

definition drop_reference :: "'o task \<Rightarrow> 'o task outcome" where
  "drop_reference t =
     and_then (state_ref_dec (tk_state t)) (\<lambda>(last, s).
       let t1 = t\<lparr>tk_state := s\<rparr> in Inr (if last then harness_dealloc t1 else t1))"

text \<open>\<open>release\<close>: the scheduler takes the task out of its list, if it is there.\<close>

definition harness_release :: "'o task \<Rightarrow> usize \<times> 'o task" where
  "harness_release t = (if tk_owned t then (2, t\<lparr>tk_owned := False\<rparr>) else (1, t))"

text \<open>A panic while the output is dropped or the join handle is woken is caught and ignored.\<close>

definition harness_complete :: "'o task \<Rightarrow> (effect list \<times> 'o task) outcome" where
  "harness_complete t =
     and_then (transition_to_complete (tk_state t)) (\<lambda>(snapshot, s).
       let t1 = t\<lparr>tk_state := s\<rparr>;
           (evs, t2) =
             (if \<not> ts_is_join_interested snapshot then ([], drop_future_or_output t1)
              else if ts_has_join_waker snapshot then
                (case trailer_wake_join t1 of Inr evs \<Rightarrow> (evs, t1) | Inl _ \<Rightarrow> ([], t1))
              else ([], t1));
           (num_release, t3) = harness_release t2 in
       and_then (transition_to_terminal num_release (tk_state t3)) (\<lambda>(last, s').
         let t4 = t3\<lparr>tk_state := s'\<rparr> in
         Inr (evs, if last then harness_dealloc t4 else t4)))"

definition cancel_store :: "bool \<Rightarrow> 'o task \<Rightarrow> 'o task" where
  "cancel_store panicked t =
     store_output (Inl (if panicked then JoinPanicked (tk_id t) else JoinCancelled (tk_id t))) t"

definition cancel_task ::
    "('o task \<Rightarrow> (bool \<times> effect list \<times> 'o task) outcome) \<Rightarrow> 'o task \<Rightarrow> (effect list \<times> 'o task) outcome" where
  "cancel_task udrop t =
     and_then (udrop t) (\<lambda>(panicked, evs, t1). Inr (evs, cancel_store panicked (drop_future_or_output t1)))"

datatype 'o poll_answer = AnsPending | AnsReady 'o | AnsPanic

definition poll_store :: "'o poll_answer \<Rightarrow> 'o task \<Rightarrow> bool \<times> 'o task" where
  "poll_store ans t =
     (case ans of
        AnsPending \<Rightarrow> (False, t)
      | AnsReady out \<Rightarrow> (True, store_output (Inr out) (drop_future_or_output t))
      | AnsPanic \<Rightarrow> (True, store_output (Inl (JoinPanicked (tk_id t))) (drop_future_or_output t)))"

text \<open>\<open>poll_future\<close>: whether the future is finished, with its output stored.\<close>

definition poll_future ::
    "('o task \<Rightarrow> ('o poll_answer \<times> effect list \<times> 'o task) outcome) \<Rightarrow> 'o task \<Rightarrow> (bool \<times> effect list \<times> 'o task) outcome" where
  "poll_future user t =
     (case tk_stage t of
        StRunning \<Rightarrow> and_then (user t) (\<lambda>(ans, evs, t1). case poll_store ans t1 of (ready, t2) \<Rightarrow> Inr (ready, evs, t2))
      | _ \<Rightarrow> (case poll_store AnsPanic t of (ready, t2) \<Rightarrow> Inr (ready, [], t2)))"

datatype PollFuture = PfComplete | PfNotified | PfDone | PfDealloc

definition to_running :: "'o task \<Rightarrow> (TransitionToRunning \<times> 'o task) outcome" where
  "to_running t = and_then (transition_to_running (tk_state t)) (\<lambda>(r, s). Inr (r, t\<lparr>tk_state := s\<rparr>))"

definition to_idle :: "'o task \<Rightarrow> (TransitionToIdle \<times> 'o task) outcome" where
  "to_idle t = and_then (transition_to_idle (tk_state t)) (\<lambda>(r, s). Inr (r, t\<lparr>tk_state := s\<rparr>))"

definition poll_inner ::
    "('o task \<Rightarrow> ('o poll_answer \<times> effect list \<times> 'o task) outcome) \<Rightarrow>
     ('o task \<Rightarrow> (bool \<times> effect list \<times> 'o task) outcome) \<Rightarrow> 'o task \<Rightarrow> (PollFuture \<times> effect list \<times> 'o task) outcome" where
  "poll_inner user udrop t =
     and_then (to_running t) (\<lambda>(r, t1).
       case r of
         RunSuccess \<Rightarrow>
           and_then (poll_future user t1) (\<lambda>(ready, evs, t2).
             if ready then Inr (PfComplete, evs, t2)
             else
               and_then (to_idle t2) (\<lambda>(i, t3).
                 case i of
                   IdleOk \<Rightarrow> Inr (PfDone, evs, t3)
                 | IdleOkNotified \<Rightarrow> Inr (PfNotified, evs, t3)
                 | IdleOkDealloc \<Rightarrow> Inr (PfDealloc, evs, t3)
                 | IdleCancelled \<Rightarrow>
                     and_then (cancel_task udrop t3) (\<lambda>(evs2, t4). Inr (PfComplete, evs @ evs2, t4))))
       | RunCancelled \<Rightarrow> and_then (cancel_task udrop t1) (\<lambda>(evs, t2). Inr (PfComplete, evs, t2))
       | RunFailed \<Rightarrow> Inr (PfDone, [], t1)
       | RunDealloc \<Rightarrow> Inr (PfDealloc, [], t1))"

definition harness_poll ::
    "('o task \<Rightarrow> ('o poll_answer \<times> effect list \<times> 'o task) outcome) \<Rightarrow>
     ('o task \<Rightarrow> (bool \<times> effect list \<times> 'o task) outcome) \<Rightarrow> 'o task \<Rightarrow> (effect list \<times> 'o task) outcome" where
  "harness_poll user udrop t =
     and_then (poll_inner user udrop t) (\<lambda>(r, evs, t1).
       case r of
         PfNotified \<Rightarrow> and_then (drop_reference t1) (\<lambda>t2. Inr (evs @ [YieldTask], t2))
       | PfComplete \<Rightarrow> and_then (harness_complete t1) (\<lambda>(evs2, t2). Inr (evs @ evs2, t2))
       | PfDealloc \<Rightarrow> Inr (evs, harness_dealloc t1)
       | PfDone \<Rightarrow> Inr (evs, t1))"

definition harness_shutdown ::
    "('o task \<Rightarrow> (bool \<times> effect list \<times> 'o task) outcome) \<Rightarrow> 'o task \<Rightarrow> (effect list \<times> 'o task) outcome" where
  "harness_shutdown udrop t =
     and_then (transition_to_shutdown (tk_state t)) (\<lambda>(ok, s).
       let t1 = t\<lparr>tk_state := s\<rparr> in
       if \<not> ok then and_then (drop_reference t1) (\<lambda>t2. Inr ([], t2))
       else
         and_then (cancel_task udrop t1) (\<lambda>(evs, t2).
         and_then (harness_complete t2) (\<lambda>(evs2, t3). Inr (evs @ evs2, t3))))"

section \<open>Join handles\<close>

definition hs_set_join_waker :: "waker \<Rightarrow> snapshot \<Rightarrow> 'o task \<Rightarrow> ((snapshot + snapshot) \<times> 'o task) outcome" where
  "hs_set_join_waker waker snapshot t =
     and_then (ensure (ts_is_join_interested snapshot) AssertFailed) (\<lambda>_.
     and_then (ensure (\<not> ts_has_join_waker snapshot) AssertFailed) (\<lambda>_.
       let t1 = trailer_set_waker (Some waker) t in
       and_then (Task_State.set_join_waker (tk_state t1)) (\<lambda>(res, s).
         let t2 = t1\<lparr>tk_state := s\<rparr> in
         Inr (res, if isl res then trailer_set_waker None t2 else t2))))"

definition can_read_output :: "waker \<Rightarrow> 'o task \<Rightarrow> (bool \<times> 'o task) outcome" where
  "can_read_output waker t =
     (let snapshot = tk_state t in
      and_then (ensure (ts_is_join_interested snapshot) AssertFailed) (\<lambda>_.
        if ts_is_complete snapshot then Inr (True, t)
        else
          let finish = (\<lambda>(res, t').
                case res of
                  Inr _ \<Rightarrow> Inr (False, t')
                | Inl snapshot' \<Rightarrow> and_then (ensure (ts_is_complete snapshot') AssertFailed) (\<lambda>_. Inr (True, t'))) in
          if ts_has_join_waker snapshot then
            and_then (trailer_will_wake waker t) (\<lambda>same.
              if same then Inr (False, t)
              else
                and_then (unset_waker (tk_state t)) (\<lambda>(res, s).
                  let t1 = t\<lparr>tk_state := s\<rparr> in
                  case res of
                    Inl snapshot' \<Rightarrow> finish (Inl snapshot', t1)
                  | Inr snapshot' \<Rightarrow> and_then (hs_set_join_waker waker snapshot' t1) finish))
          else and_then (hs_set_join_waker waker snapshot t) finish))"

definition try_read_output :: "waker \<Rightarrow> 'o task \<Rightarrow> ((join_error + 'o) poll \<times> 'o task) outcome" where
  "try_read_output waker t =
     and_then (can_read_output waker t) (\<lambda>(can, t1).
       if can then and_then (take_output t1) (\<lambda>(out, t2). Inr (Ready out, t2)) else Inr (Pending, t1))"

definition try_set_join_waker :: "waker \<Rightarrow> 'o task \<Rightarrow> (bool \<times> 'o task) outcome" where
  "try_set_join_waker waker t = can_read_output waker t"

definition drop_join_handle_slow :: "'o task \<Rightarrow> 'o task outcome" where
  "drop_join_handle_slow t =
     and_then (unset_join_interested (tk_state t)) (\<lambda>(res, s).
       let t1 = t\<lparr>tk_state := s\<rparr> in
       drop_reference (if isl res then drop_future_or_output t1 else t1))"

text \<open>\<open>Drop\<close> for \<open>JoinHandle\<close>.\<close>

definition join_handle_drop :: "'o task \<Rightarrow> 'o task outcome" where
  "join_handle_drop t =
     (case drop_join_handle_fast (tk_state t) of (ok, s) \<Rightarrow>
        let t1 = t\<lparr>tk_state := s\<rparr> in if ok then Inr t1 else drop_join_handle_slow t1)"

definition join_handle_poll :: "waker \<Rightarrow> 'o task \<Rightarrow> ((join_error + 'o) poll \<times> 'o task) outcome" where
  "join_handle_poll cx t = try_read_output cx t"

definition join_is_finished :: "'o task \<Rightarrow> bool" where
  "join_is_finished t = ts_is_complete (tk_state t)"

definition remote_abort :: "'o task \<Rightarrow> (effect list \<times> 'o task) outcome" where
  "remote_abort t =
     and_then (transition_to_notified_and_cancel (tk_state t)) (\<lambda>(submit, s).
       Inr (if submit then [ScheduleTask] else [], t\<lparr>tk_state := s\<rparr>))"

section \<open>Wakers\<close>

definition wake_by_val :: "'o task \<Rightarrow> (effect list \<times> 'o task) outcome" where
  "wake_by_val t =
     and_then (transition_to_notified_by_val (tk_state t)) (\<lambda>(r, s).
       let t1 = t\<lparr>tk_state := s\<rparr> in
       case r of
         ValSubmit \<Rightarrow> and_then (drop_reference t1) (\<lambda>t2. Inr ([ScheduleTask], t2))
       | ValDealloc \<Rightarrow> Inr ([], harness_dealloc t1)
       | ValDoNothing \<Rightarrow> Inr ([], t1))"

definition wake_by_ref :: "'o task \<Rightarrow> (effect list \<times> 'o task) outcome" where
  "wake_by_ref t =
     and_then (transition_to_notified_by_ref (tk_state t)) (\<lambda>(r, s).
       let t1 = t\<lparr>tk_state := s\<rparr> in
       case r of RefSubmit \<Rightarrow> Inr ([ScheduleTask], t1) | RefDoNothing \<Rightarrow> Inr ([], t1))"

definition clone_waker :: "'o task \<Rightarrow> 'o task outcome" where
  "clone_waker t = and_then (state_ref_inc (tk_state t)) (\<lambda>s. Inr (t\<lparr>tk_state := s\<rparr>))"

definition drop_waker :: "'o task \<Rightarrow> 'o task outcome" where
  "drop_waker t = drop_reference t"

section \<open>Handles\<close>

text \<open>\<open>new_task\<close> makes three handles of one cell: the \<open>Task\<close>, the \<open>Notified\<close> and the \<open>JoinHandle\<close>.\<close>

definition new_task :: "u64 \<Rightarrow> 'o task" where
  "new_task tid = cell_new tid"

definition task_drop :: "'o task \<Rightarrow> 'o task outcome" where
  "task_drop t =
     and_then (state_ref_dec (tk_state t)) (\<lambda>(last, s).
       let t1 = t\<lparr>tk_state := s\<rparr> in Inr (if last then harness_dealloc t1 else t1))"

definition task_shutdown ::
    "('o task \<Rightarrow> (bool \<times> effect list \<times> 'o task) outcome) \<Rightarrow> 'o task \<Rightarrow> (effect list \<times> 'o task) outcome" where
  "task_shutdown udrop t = harness_shutdown udrop t"

definition notified_run ::
    "('o task \<Rightarrow> ('o poll_answer \<times> effect list \<times> 'o task) outcome) \<Rightarrow>
     ('o task \<Rightarrow> (bool \<times> effect list \<times> 'o task) outcome) \<Rightarrow> 'o task \<Rightarrow> (effect list \<times> 'o task) outcome" where
  "notified_run user udrop t = harness_poll user udrop t"

section \<open>The world of a task\<close>

text \<open>
  A task with its handles: \<open>w_queued\<close> \<open>Notified\<close> handles in run queues, the \<open>JoinHandle\<close> while
  \<open>w_join\<close> (its output taken if \<open>w_read\<close>), \<open>w_wakers\<close> wakers, and the handle whoever polls or shuts
  down the task holds, while \<open>w_phase\<close> says that its future is being polled or dropped. A step of
  \<open>task_step\<close> is one operation of a handle; what runs between the start and the end of a poll is
  code of the user, so any operation may come between, those of the task's own wakers included. A
  \<open>Notified\<close> is dropped unrun only by a runtime that has shut down its tasks, so not while the task is idle.
\<close>

datatype phase = TIdle | TPolling | TCancelling

record 'o tworld =
  w_task :: "'o task"
  w_queued :: nat
  w_join :: bool
  w_read :: bool
  w_wakers :: nat
  w_phase :: phase

definition scheduled :: "effect list \<Rightarrow> nat" where
  "scheduled evs = length (filter (\<lambda>e. e = ScheduleTask \<or> e = YieldTask) evs)"

definition absorb :: "effect list \<Rightarrow> 'o tworld \<Rightarrow> 'o tworld" where
  "absorb evs w = w\<lparr>w_queued := w_queued w + scheduled evs\<rparr>"

definition spawned :: "u64 \<Rightarrow> 'o tworld" where
  "spawned tid = \<lparr>w_task = (new_task tid)\<lparr>tk_owned := True\<rparr>, w_queued = 1, w_join = True, w_read = False,
     w_wakers = 0, w_phase = TIdle\<rparr>"

text \<open>The end of a poll, once the future answered, and the end of a cancellation, once it is dropped.\<close>

definition poll_finish :: "'o poll_answer \<Rightarrow> 'o task \<Rightarrow> (PollFuture \<times> 'o task) outcome" where
  "poll_finish ans t =
     (case poll_store ans t of (ready, t2) \<Rightarrow>
        if ready then Inr (PfComplete, t2)
        else and_then (to_idle t2) (\<lambda>(i, t3).
          Inr (case i of IdleOk \<Rightarrow> PfDone | IdleOkNotified \<Rightarrow> PfNotified | IdleOkDealloc \<Rightarrow> PfDealloc
               | IdleCancelled \<Rightarrow> PfComplete, t3)))"

definition cancel_finish :: "bool \<Rightarrow> 'o task \<Rightarrow> (effect list \<times> 'o task) outcome" where
  "cancel_finish panicked t = harness_complete (cancel_store panicked (drop_future_or_output t))"

inductive task_step :: "'o tworld \<Rightarrow> effect list \<Rightarrow> 'o tworld \<Rightarrow> bool" where
  waker_clone: "\<lbrakk>0 < w_wakers w \<or> w_phase w = TPolling; clone_waker (w_task w) = Inr t\<rbrakk>
    \<Longrightarrow> task_step w [] (w\<lparr>w_task := t, w_wakers := w_wakers w + 1\<rparr>)"
| waker_drop: "\<lbrakk>0 < w_wakers w; drop_waker (w_task w) = Inr t\<rbrakk>
    \<Longrightarrow> task_step w [] (w\<lparr>w_task := t, w_wakers := w_wakers w - 1\<rparr>)"
| waker_wake: "\<lbrakk>0 < w_wakers w; wake_by_val (w_task w) = Inr (evs, t)\<rbrakk>
    \<Longrightarrow> task_step w evs (absorb evs (w\<lparr>w_task := t, w_wakers := w_wakers w - 1\<rparr>))"
| waker_ref: "\<lbrakk>0 < w_wakers w \<or> w_phase w = TPolling; wake_by_ref (w_task w) = Inr (evs, t)\<rbrakk>
    \<Longrightarrow> task_step w evs (absorb evs (w\<lparr>w_task := t\<rparr>))"
| join_poll: "\<lbrakk>w_join w; \<not> w_read w; join_handle_poll cx (w_task w) = Inr (r, t)\<rbrakk>
    \<Longrightarrow> task_step w [] (w\<lparr>w_task := t, w_read := (r \<noteq> Pending)\<rparr>)"
| join_abort: "\<lbrakk>w_join w; remote_abort (w_task w) = Inr (evs, t)\<rbrakk>
    \<Longrightarrow> task_step w evs (absorb evs (w\<lparr>w_task := t\<rparr>))"
| join_drop: "\<lbrakk>w_join w; join_handle_drop (w_task w) = Inr t\<rbrakk>
    \<Longrightarrow> task_step w [] (w\<lparr>w_task := t, w_join := False\<rparr>)"
| queue_drop: "\<lbrakk>0 < w_queued w; \<not> ts_is_idle (tk_state (w_task w)); task_drop (w_task w) = Inr t\<rbrakk>
    \<Longrightarrow> task_step w [] (w\<lparr>w_task := t, w_queued := w_queued w - 1\<rparr>)"
| shutdown_busy: "\<lbrakk>tk_owned (w_task w); transition_to_shutdown (tk_state (w_task w)) = Inr (False, s);
     drop_reference ((w_task w)\<lparr>tk_owned := False, tk_state := s\<rparr>) = Inr t\<rbrakk>
    \<Longrightarrow> task_step w [] (w\<lparr>w_task := t\<rparr>)"
| shutdown_idle: "\<lbrakk>tk_owned (w_task w); transition_to_shutdown (tk_state (w_task w)) = Inr (True, s)\<rbrakk>
    \<Longrightarrow> task_step w [] (w\<lparr>w_task := (w_task w)\<lparr>tk_owned := False, tk_state := s\<rparr>, w_phase := TCancelling\<rparr>)"
| poll_start: "\<lbrakk>0 < w_queued w; to_running (w_task w) = Inr (r, t); r = RunSuccess \<or> r = RunCancelled\<rbrakk>
    \<Longrightarrow> task_step w [] (w\<lparr>w_task := t, w_queued := w_queued w - 1,
          w_phase := if r = RunSuccess then TPolling else TCancelling\<rparr>)"
| poll_refused: "\<lbrakk>0 < w_queued w; to_running (w_task w) = Inr (r, t); r = RunFailed \<or> r = RunDealloc\<rbrakk>
    \<Longrightarrow> task_step w [] (w\<lparr>w_task := if r = RunDealloc then harness_dealloc t else t, w_queued := w_queued w - 1\<rparr>)"
| poll_complete: "\<lbrakk>w_phase w = TPolling; poll_finish ans (w_task w) = Inr (PfComplete, t); ans \<noteq> AnsPending;
     harness_complete t = Inr (evs, t')\<rbrakk>
    \<Longrightarrow> task_step w evs (absorb evs (w\<lparr>w_task := t', w_phase := TIdle\<rparr>))"
| poll_cancelled: "\<lbrakk>w_phase w = TPolling; poll_finish AnsPending (w_task w) = Inr (PfComplete, t)\<rbrakk>
    \<Longrightarrow> task_step w [] (w\<lparr>w_task := t, w_phase := TCancelling\<rparr>)"
| poll_pending: "\<lbrakk>w_phase w = TPolling; poll_finish AnsPending (w_task w) = Inr (PfDone, t)\<rbrakk>
    \<Longrightarrow> task_step w [] (w\<lparr>w_task := t, w_phase := TIdle\<rparr>)"
| poll_dealloc: "\<lbrakk>w_phase w = TPolling; poll_finish AnsPending (w_task w) = Inr (PfDealloc, t)\<rbrakk>
    \<Longrightarrow> task_step w [] (w\<lparr>w_task := harness_dealloc t, w_phase := TIdle\<rparr>)"
| poll_again: "\<lbrakk>w_phase w = TPolling; poll_finish AnsPending (w_task w) = Inr (PfNotified, t);
     drop_reference t = Inr t'\<rbrakk>
    \<Longrightarrow> task_step w [YieldTask] (absorb [YieldTask] (w\<lparr>w_task := t', w_phase := TIdle\<rparr>))"
| cancel_end: "\<lbrakk>w_phase w = TCancelling; cancel_finish panicked (w_task w) = Inr (evs, t)\<rbrakk>
    \<Longrightarrow> task_step w evs (absorb evs (w\<lparr>w_task := t, w_phase := TIdle\<rparr>))"

inductive task_steps :: "'o tworld \<Rightarrow> effect list \<Rightarrow> 'o tworld \<Rightarrow> bool" where
  steps_refl: "task_steps w [] w"
| steps_trans: "\<lbrakk>task_steps w evs w'; task_step w' evs' w''\<rbrakk> \<Longrightarrow> task_steps w (evs @ evs') w''"

definition handles :: "'o tworld \<Rightarrow> nat" where
  "handles w = w_queued w + w_wakers w + (if tk_owned (w_task w) then 1 else 0)
     + (if w_join w then 1 else 0) + (if w_phase w = TIdle then 0 else 1)"

definition flags_ok :: "task_state \<Rightarrow> 'o tworld \<Rightarrow> bool" where
  "flags_ok d w \<longleftrightarrow>
     (t_running d \<longleftrightarrow> w_phase w \<noteq> TIdle) \<and>
     \<not> (t_running d \<and> t_complete d) \<and>
     w_queued w \<le> 1 \<and> (w_queued w = 1 \<longrightarrow> t_notified d) \<and>
     (t_notified d \<and> \<not> t_complete d \<and> \<not> t_running d \<longrightarrow> w_queued w = 1) \<and>
     (w_phase w = TPolling \<longrightarrow> w_queued w = 0) \<and>
     (t_cancelled d \<and> \<not> t_complete d \<and> \<not> t_running d \<longrightarrow> t_notified d) \<and>
     (w_join w \<longrightarrow> t_join_interest d) \<and> (t_join_interest d \<and> \<not> t_complete d \<longrightarrow> w_join w) \<and>
     (w_read w \<longrightarrow> t_complete d)"

definition stage_ok :: "task_state \<Rightarrow> 'o tworld \<Rightarrow> bool" where
  "stage_ok d w \<longleftrightarrow>
     (\<not> t_complete d \<longrightarrow> tk_stage (w_task w) = StRunning) \<and>
     (t_complete d \<longrightarrow> \<not> tk_owned (w_task w) \<and>
        (if w_join w \<and> \<not> w_read w then \<exists>out. tk_stage (w_task w) = StFinished out
         else tk_stage (w_task w) = StConsumed)) \<and>
     (t_join_waker d \<longrightarrow> tk_waker (w_task w) \<noteq> None)"

definition task_inv :: "'o tworld \<Rightarrow> bool" where
  "task_inv w \<longleftrightarrow>
     (let d = decode (tk_state (w_task w)) in
      t_refs d = handles w \<and> (tk_freed (w_task w) \<longleftrightarrow> handles w = 0) \<and>
      (0 < handles w \<longrightarrow> flags_ok d w \<and> stage_ok d w))"

section \<open>The operations on a decoded state\<close>

lemma refined_Inr:
  "decode_result r = spec \<Longrightarrow> r = Inr (a, s') \<Longrightarrow> spec = Inr (a, decode s')"
  by auto

lemma inc_bound: "state_ref_inc s = Inr s' \<Longrightarrow> s \<le> isize_max"
  by (simp add: state_ref_inc_def and_then_ensure split: if_splits)

lemma spec_running_Inr: "transition_to_running s = Inr (r, s') \<Longrightarrow> spec_running (decode s) = Inr (r, decode s')"
  by (rule refined_Inr [OF spec_running_refined])

lemma spec_idle_Inr: "transition_to_idle s = Inr (r, s') \<Longrightarrow> spec_idle (decode s) = Inr (r, decode s')"
  by (auto simp: transition_to_idle_def idle_action_def spec_idle_def decode_eval split: if_splits)

lemma spec_by_val_Inr:
  "transition_to_notified_by_val s = Inr (r, s') \<Longrightarrow> spec_by_val (decode s) = Inr (r, decode s')"
  by (auto simp: transition_to_notified_by_val_def notified_by_val_action_def spec_by_val_def
      decode_eval refs_pos split: if_splits)

lemma spec_by_ref_Inr:
  "transition_to_notified_by_ref s = Inr (r, s') \<Longrightarrow> spec_by_ref (decode s) = Inr (r, decode s')"
  by (auto simp: transition_to_notified_by_ref_def notified_by_ref_action_def spec_by_ref_def
      decode_eval split: if_splits)

lemma spec_cancel_Inr:
  "transition_to_notified_and_cancel s = Inr (r, s') \<Longrightarrow> spec_cancel (decode s) = Inr (r, decode s')"
  by (auto simp: transition_to_notified_and_cancel_def notified_and_cancel_action_def spec_cancel_def
      decode_eval split: if_splits)

lemma spec_shutdown_Inr:
  "transition_to_shutdown s = Inr (r, s') \<Longrightarrow> spec_shutdown (decode s) = Inr (r, decode s')"
  by (rule refined_Inr [OF spec_shutdown_refined])

lemma spec_dec_Inr: "state_ref_dec s = Inr (r, s') \<Longrightarrow> spec_terminal 1 (decode s) = Inr (r, decode s')"
  by (rule refined_Inr [OF state_ref_dec_refined(1)])

lemma spec_inc_Inr:
  "state_ref_inc s = Inr s' \<Longrightarrow> decode s' = (decode s)\<lparr>t_refs := t_refs (decode s) + 1\<rparr>"
  using state_ref_inc_refined [OF inc_bound] by fastforce

lemma drop_reference_Inr:
  "drop_reference t = Inr t' \<Longrightarrow>
     \<exists>s. 1 \<le> t_refs (decode (tk_state t)) \<and>
       decode s = (decode (tk_state t))\<lparr>t_refs := t_refs (decode (tk_state t)) - 1\<rparr> \<and>
       t' = (if t_refs (decode (tk_state t)) = 1 then harness_dealloc (t\<lparr>tk_state := s\<rparr>) else t\<lparr>tk_state := s\<rparr>)"
  by (fastforce simp: drop_reference_def and_then_eq_Inr Let_def spec_terminal_def split: if_splits
      dest: spec_dec_Inr)

lemma task_drop_eq: "task_drop t = drop_reference t"
  by (simp add: task_drop_def drop_reference_def)

lemma dealloc_simps [simp]:
  "tk_state (harness_dealloc t) = tk_state t" "tk_freed (harness_dealloc t)"
  "tk_owned (harness_dealloc t) = tk_owned t"
  by (simp_all add: harness_dealloc_def)

lemma handles_update:
  "handles (w\<lparr>w_task := t\<rparr>) = (handles w - (if tk_owned (w_task w) then 1 else 0)) + (if tk_owned t then 1 else 0)"
  by (simp add: handles_def)

lemma scheduled_simps [simp]:
  "scheduled [] = 0" "scheduled (e # es) = (if e = ScheduleTask \<or> e = YieldTask then 1 else 0) + scheduled es"
  "scheduled (es @ fs) = scheduled es + scheduled fs"
  by (simp_all add: scheduled_def)

lemma absorb_Nil [simp]: "absorb [] w = w"
  by (simp add: absorb_def)

lemma refs_irrelevant [simp]:
  "flags_ok (d\<lparr>t_refs := n\<rparr>) w = flags_ok d w" "stage_ok (d\<lparr>t_refs := n\<rparr>) w = stage_ok d w"
  by (simp_all add: flags_ok_def stage_ok_def)

lemma handles_pos:
  "0 < w_wakers w \<Longrightarrow> 0 < handles w" "0 < w_queued w \<Longrightarrow> 0 < handles w" "w_join w \<Longrightarrow> 0 < handles w"
  "w_phase w \<noteq> TIdle \<Longrightarrow> 0 < handles w" "tk_owned (w_task w) \<Longrightarrow> 0 < handles w"
  by (auto simp: handles_def)

text \<open>What the invariant gives to an operation of a live handle, and what it asks of its result.\<close>

lemma task_inv_live:
  assumes "task_inv w" "0 < handles w"
  obtains d where "d = decode (tk_state (w_task w))" "t_refs d = handles w" "\<not> tk_freed (w_task w)"
    "flags_ok d w" "stage_ok d w"
  using assms by (auto simp: task_inv_def Let_def)

lemma task_invI:
  assumes "t_refs (decode (tk_state (w_task w))) = handles w" "tk_freed (w_task w) \<longleftrightarrow> handles w = 0"
    "0 < handles w \<Longrightarrow> flags_ok (decode (tk_state (w_task w))) w"
    "0 < handles w \<Longrightarrow> stage_ok (decode (tk_state (w_task w))) w"
  shows "task_inv w"
  using assms by (simp add: task_inv_def Let_def)

text \<open>A handle that is only dropped: the flags stay, the count goes down, the last one frees the task.\<close>

lemma dropped_ref:
  assumes inv: "task_inv w" and drop: "drop_reference ((w_task w)\<lparr>tk_owned := ow, tk_state := s\<rparr>) = Inr t"
    and s: "t_refs (decode s) = t_refs (decode (tk_state (w_task w)))"
    and less: "handles w = Suc (handles w')" and t: "w_task w' = t"
    and ok: "\<And>n. 0 < handles w' \<Longrightarrow> flags_ok (decode (tk_state (w_task w))) w \<Longrightarrow> stage_ok (decode (tk_state (w_task w))) w
       \<Longrightarrow> tk_stage t = tk_stage (w_task w) \<Longrightarrow> tk_owned t = ow \<Longrightarrow> tk_waker t = tk_waker (w_task w)
       \<Longrightarrow> flags_ok (decode s) w' \<and> stage_ok (decode s) w'"
  shows "task_inv w'"
proof -
  from less have pos: "0 < handles w" by simp
  from task_inv_live [OF inv this] obtain d where d: "d = decode (tk_state (w_task w))"
    and refs: "t_refs d = handles w" and live: "\<not> tk_freed (w_task w)" and "flags_ok d w" "stage_ok d w" .
  from drop_reference_Inr [OF drop] obtain s' where
    s': "decode s' = (decode s)\<lparr>t_refs := handles w - 1\<rparr>"
    and t': "t = (if handles w = 1 then harness_dealloc ((w_task w)\<lparr>tk_owned := ow, tk_state := s'\<rparr>)
       else (w_task w)\<lparr>tk_owned := ow, tk_state := s'\<rparr>)"
    using s refs d by auto
  show ?thesis
  proof (rule task_invI)
    show "t_refs (decode (tk_state (w_task w'))) = handles w'" using t t' s' less by simp
    show "tk_freed (w_task w') \<longleftrightarrow> handles w' = 0" using t t' less live by auto
    assume "0 < handles w'"
    with ok \<open>flags_ok d w\<close> \<open>stage_ok d w\<close> d t' less have "flags_ok (decode s) w' \<and> stage_ok (decode s) w'" by simp
    then show "flags_ok (decode (tk_state (w_task w'))) w'" "stage_ok (decode (tk_state (w_task w'))) w'"
      using t t' s' less \<open>0 < handles w'\<close> by simp_all
  qed
qed

lemma dropped_handle:
  assumes "task_inv w" "drop_reference (w_task w) = Inr t" "handles w = Suc (handles w')" "w_task w' = t"
    and "\<And>d. flags_ok d w \<Longrightarrow> stage_ok d w \<Longrightarrow> d = decode (tk_state (w_task w)) \<Longrightarrow> tk_stage t = tk_stage (w_task w)
       \<Longrightarrow> tk_owned t = tk_owned (w_task w) \<Longrightarrow> tk_waker t = tk_waker (w_task w) \<Longrightarrow> flags_ok d w' \<and> stage_ok d w'"
  shows "task_inv w'"
proof -
  have "(w_task w)\<lparr>tk_owned := tk_owned (w_task w), tk_state := tk_state (w_task w)\<rparr> = w_task w" by (cases "w_task w") simp
  then show ?thesis
    using dropped_ref [where w = w and ow = "tk_owned (w_task w)" and s = "tk_state (w_task w)" and t = t and w' = w'] assms by auto
qed

lemma drop_reference_owned: "drop_reference t = Inr t' \<Longrightarrow> tk_owned t' = tk_owned t"
  using drop_reference_Inr [of t t'] by (auto split: if_splits)

lemma frame [simp]:
  "flags_ok d (w\<lparr>w_task := t\<rparr>) = flags_ok d w" "flags_ok d (w\<lparr>w_wakers := n\<rparr>) = flags_ok d w"
  "stage_ok d (w\<lparr>w_wakers := n\<rparr>) = stage_ok d w" "stage_ok d (w\<lparr>w_queued := q\<rparr>) = stage_ok d w"
  "stage_ok d (w\<lparr>w_phase := p\<rparr>) = stage_ok d w"
  "stage_ok d (w\<lparr>w_task := (w_task w)\<lparr>tk_state := s\<rparr>\<rparr>) = stage_ok d w"
  by (simp_all add: flags_ok_def stage_ok_def)

lemma stage_frame [simp]:
  "tk_stage t = tk_stage (w_task w) \<Longrightarrow> tk_owned t = tk_owned (w_task w) \<Longrightarrow> tk_waker t = tk_waker (w_task w) \<Longrightarrow>
     stage_ok d (w\<lparr>w_task := t\<rparr>) = stage_ok d w"
  by (simp add: stage_ok_def)

lemma task_first:
  "w\<lparr>w_task := t, w_wakers := n\<rparr> = (w\<lparr>w_wakers := n\<rparr>)\<lparr>w_task := t\<rparr>"
  "w\<lparr>w_task := t, w_queued := n\<rparr> = (w\<lparr>w_queued := n\<rparr>)\<lparr>w_task := t\<rparr>"
  "w\<lparr>w_task := t, w_phase := p\<rparr> = (w\<lparr>w_phase := p\<rparr>)\<lparr>w_task := t\<rparr>"
  "w\<lparr>w_task := t, w_queued := n, w_phase := p\<rparr> = (w\<lparr>w_queued := n, w_phase := p\<rparr>)\<lparr>w_task := t\<rparr>"
  by simp_all

lemma waker_drop_inv:
  assumes "task_inv w" "0 < w_wakers w" "drop_waker (w_task w) = Inr t"
  shows "task_inv (w\<lparr>w_task := t, w_wakers := w_wakers w - 1\<rparr>)"
proof (rule dropped_handle [of w t])
  show "drop_reference (w_task w) = Inr t" using assms by (simp add: drop_waker_def)
  then show "handles w = Suc (handles (w\<lparr>w_task := t, w_wakers := w_wakers w - 1\<rparr>))"
    using assms drop_reference_owned [of "w_task w" t] by (simp add: handles_def)
qed (use assms in \<open>simp_all add: stage_frame\<close>)

lemma queued_less:
  "flags_ok d w \<Longrightarrow> \<not> (\<not> t_running d \<and> \<not> t_complete d) \<Longrightarrow> flags_ok d (w\<lparr>w_queued := w_queued w - 1\<rparr>)"
  by (simp add: flags_ok_def) auto

lemma queue_drop_inv:
  assumes "task_inv w" "0 < w_queued w" "\<not> ts_is_idle (tk_state (w_task w))" "task_drop (w_task w) = Inr t"
  shows "task_inv (w\<lparr>w_task := t, w_queued := w_queued w - 1\<rparr>)"
proof (rule dropped_handle [of w t])
  show "drop_reference (w_task w) = Inr t" using assms by (simp add: task_drop_eq)
  then show "handles w = Suc (handles (w\<lparr>w_task := t, w_queued := w_queued w - 1\<rparr>))"
    using assms drop_reference_owned [of "w_task w" t] by (simp add: handles_def)
next
  fix d assume "flags_ok d w" "d = decode (tk_state (w_task w))"
  moreover have "\<not> (\<not> t_running d \<and> \<not> t_complete d)" using assms(3) by (simp add: decode_tests \<open>d = _\<close>)
  ultimately have "flags_ok d (w\<lparr>w_queued := w_queued w - 1\<rparr>)" using queued_less by blast
  moreover assume "stage_ok d w" "tk_stage t = tk_stage (w_task w)" "tk_owned t = tk_owned (w_task w)" "tk_waker t = tk_waker (w_task w)"
  ultimately show "flags_ok d (w\<lparr>w_task := t, w_queued := w_queued w - 1\<rparr>) \<and> stage_ok d (w\<lparr>w_task := t, w_queued := w_queued w - 1\<rparr>)"
    by (simp only: task_first frame) (simp add: stage_frame)
qed (use assms in simp_all)

lemma waker_clone_inv:
  assumes inv: "task_inv w" and "0 < w_wakers w \<or> w_phase w = TPolling" and clone: "clone_waker (w_task w) = Inr t"
  shows "task_inv (w\<lparr>w_task := t, w_wakers := w_wakers w + 1\<rparr>)"
proof -
  have "0 < handles w" using assms(2) handles_pos [of w] by auto
  from task_inv_live [OF inv this] obtain d where d: "d = decode (tk_state (w_task w))" "t_refs d = handles w"
    "\<not> tk_freed (w_task w)" and ok: "flags_ok d w" "stage_ok d w" .
  from clone obtain s where s: "decode s = d\<lparr>t_refs := t_refs d + 1\<rparr>" and t: "t = (w_task w)\<lparr>tk_state := s\<rparr>"
    unfolding d by (auto simp: clone_waker_def and_then_eq_Inr dest!: spec_inc_Inr)
  show ?thesis
    by (rule task_invI) (use d ok in \<open>simp_all add: t s stage_frame, simp_all add: handles_def\<close>)
qed

lemma updated:
  assumes inv: "task_inv w" and pos: "0 < handles w"
    and new: "\<And>d. d = decode (tk_state (w_task w)) \<Longrightarrow> t_refs d = handles w \<Longrightarrow> flags_ok d w \<Longrightarrow> stage_ok d w
      \<Longrightarrow> \<exists>s. w_task w' = (w_task w)\<lparr>tk_state := s\<rparr> \<and> t_refs (decode s) = handles w' \<and> 0 < handles w'
        \<and> flags_ok (decode s) w' \<and> stage_ok (decode s) w'"
  shows "task_inv w'"
proof -
  from task_inv_live [OF inv pos] obtain d where "d = decode (tk_state (w_task w))" "t_refs d = handles w"
    and live: "\<not> tk_freed (w_task w)" and "flags_ok d w" "stage_ok d w" .
  with new [of d] obtain s where "w_task w' = (w_task w)\<lparr>tk_state := s\<rparr>" "t_refs (decode s) = handles w'"
    "0 < handles w'" "flags_ok (decode s) w'" "stage_ok (decode s) w'" by blast
  then show ?thesis using live by (intro task_invI) simp_all
qed

lemma stage_flags [simp]:
  "stage_ok (d\<lparr>t_notified := b\<rparr>) w = stage_ok d w" "stage_ok (d\<lparr>t_cancelled := b\<rparr>) w = stage_ok d w"
  "stage_ok (d\<lparr>t_running := b\<rparr>) w = stage_ok d w" "stage_ok (d\<lparr>t_join_interest := b\<rparr>) w = stage_ok d w"
  by (simp_all add: stage_ok_def)

lemma handles_simps [simp]:
  "handles (absorb evs w) = handles w + scheduled evs"
  "tk_owned t = tk_owned (w_task w) \<Longrightarrow> handles (w\<lparr>w_task := t\<rparr>) = handles w"
  by (simp_all add: handles_def absorb_def)

lemma handles_waker: "0 < w_wakers w \<Longrightarrow> handles w = Suc (handles (w\<lparr>w_wakers := w_wakers w - 1\<rparr>))"
  by (simp add: handles_def)

lemma absorb_task [simp]:
  "w_task (absorb evs w) = w_task w" "absorb evs (w\<lparr>w_task := t\<rparr>) = (absorb evs w)\<lparr>w_task := t\<rparr>"
  "stage_ok d (absorb evs w) = stage_ok d w"
  by (simp_all add: absorb_def)

lemma scheduled_flags:
  "flags_ok d w \<Longrightarrow> t_running d \<Longrightarrow> flags_ok (d\<lparr>t_notified := True\<rparr>) w"
  "flags_ok d w \<Longrightarrow> \<not> t_running d \<Longrightarrow> \<not> t_complete d \<Longrightarrow> \<not> t_notified d \<Longrightarrow>
     flags_ok (d\<lparr>t_notified := True\<rparr>) (absorb [ScheduleTask] w)"
  by (auto simp: flags_ok_def absorb_def)

lemma wake_by_ref_eq:
  "wake_by_ref t = and_then (transition_to_notified_by_ref (tk_state t)) (\<lambda>(r, s).
     Inr (if r = RefSubmit then [ScheduleTask] else [], t\<lparr>tk_state := s\<rparr>))"
  by (auto simp: wake_by_ref_def fun_eq_iff Let_def intro!: arg_cong [where f = "and_then _"] split: TransitionToNotifiedByRef.split)

lemma wake_by_ref_inv:
  assumes inv: "task_inv w" and "0 < w_wakers w \<or> w_phase w = TPolling" and wake: "wake_by_ref (w_task w) = Inr (evs, t)"
  shows "task_inv (absorb evs (w\<lparr>w_task := t\<rparr>))"
proof (rule updated [OF inv])
  show pos: "0 < handles w" using assms(2) handles_pos [of w] by auto
  fix d assume d: "d = decode (tk_state (w_task w))" "t_refs d = handles w" and ok: "flags_ok d w" "stage_ok d w"
  from wake obtain r s where tr: "transition_to_notified_by_ref (tk_state (w_task w)) = Inr (r, s)"
    and t: "t = (w_task w)\<lparr>tk_state := s\<rparr>" and evs: "evs = (if r = RefSubmit then [ScheduleTask] else [])"
    by (auto simp: wake_by_ref_eq and_then_eq_Inr)
  from spec_by_ref_Inr [OF tr] have sp: "Inr (r, decode s) = spec_by_ref d" by (simp add: d)
  have "t_refs (decode s) = handles w + scheduled evs"
    using sp d(2) evs by (auto simp: spec_by_ref_def split: if_splits)
  moreover have "flags_ok (decode s) (absorb evs w)"
    using sp ok evs scheduled_flags [of d w] by (auto simp: spec_by_ref_def split: if_splits)
  moreover have "stage_ok (decode s) w"
    using sp ok by (auto simp: spec_by_ref_def split: if_splits)
  ultimately show "\<exists>s. w_task (absorb evs (w\<lparr>w_task := t\<rparr>)) = (w_task w)\<lparr>tk_state := s\<rparr> \<and>
      t_refs (decode s) = handles (absorb evs (w\<lparr>w_task := t\<rparr>)) \<and> 0 < handles (absorb evs (w\<lparr>w_task := t\<rparr>)) \<and>
      flags_ok (decode s) (absorb evs (w\<lparr>w_task := t\<rparr>)) \<and> stage_ok (decode s) (absorb evs (w\<lparr>w_task := t\<rparr>))"
    using pos t by (intro exI [of _ s]) simp
qed

text \<open>Waking by value submits a fresh handle and drops the waker's; the count is as before.\<close>

lemma wake_by_val_Inr:
  assumes "wake_by_val t = Inr (evs, t')" and "1 \<le> t_refs d" and d: "d = decode (tk_state t)"
  shows "\<exists>s. (if t_running d then 1 < t_refs d \<and> evs = [] \<and> t' = t\<lparr>tk_state := s\<rparr> \<and> decode s = d\<lparr>t_notified := True, t_refs := t_refs d - 1\<rparr>
      else if t_complete d \<or> t_notified d then
        evs = [] \<and> decode s = d\<lparr>t_refs := t_refs d - 1\<rparr> \<and>
        t' = (if t_refs d = 1 then harness_dealloc (t\<lparr>tk_state := s\<rparr>) else t\<lparr>tk_state := s\<rparr>)
      else evs = [ScheduleTask] \<and> t' = t\<lparr>tk_state := s\<rparr> \<and> decode s = d\<lparr>t_notified := True\<rparr>)"
proof -
  from assms(1) obtain r s where tr: "transition_to_notified_by_val (tk_state t) = Inr (r, s)"
    and rest: "(case r of ValSubmit \<Rightarrow> and_then (drop_reference (t\<lparr>tk_state := s\<rparr>)) (\<lambda>t2. Inr ([ScheduleTask], t2))
       | ValDealloc \<Rightarrow> Inr ([], harness_dealloc (t\<lparr>tk_state := s\<rparr>)) | ValDoNothing \<Rightarrow> Inr ([], t\<lparr>tk_state := s\<rparr>)) = Inr (evs, t')"
    by (auto simp: wake_by_val_def and_then_eq_Inr Let_def)
  from spec_by_val_Inr [OF tr] have sp: "Inr (r, decode s) = spec_by_val d" by (simp add: d)
  show ?thesis
  proof (cases r)
    case ValSubmit
    with rest have evs: "evs = [ScheduleTask]" and "drop_reference (t\<lparr>tk_state := s\<rparr>) = Inr t'"
      by (auto simp: and_then_eq_Inr)
    with drop_reference_Inr [OF this(2)] obtain s' where
      "decode s' = (decode s)\<lparr>t_refs := t_refs (decode s) - 1\<rparr>"
      "t' = (if t_refs (decode s) = 1 then harness_dealloc (t\<lparr>tk_state := s'\<rparr>) else t\<lparr>tk_state := s'\<rparr>)" by auto
    with sp evs ValSubmit assms(2) show ?thesis
      by (intro exI [of _ s']) (auto simp: spec_by_val_def split: if_splits)
  qed (use sp rest assms(2) in \<open>auto intro!: exI [of _ s] simp: spec_by_val_def split: if_splits\<close>)
qed

lemma wake_by_val_inv:
  assumes inv: "task_inv w" and waker: "0 < w_wakers w" and wake: "wake_by_val (w_task w) = Inr (evs, t)"
  shows "task_inv (absorb evs (w\<lparr>w_task := t, w_wakers := w_wakers w - 1\<rparr>))"
proof -
  let ?v = "w\<lparr>w_wakers := w_wakers w - 1\<rparr>"
  have w': "absorb evs (w\<lparr>w_task := t, w_wakers := w_wakers w - 1\<rparr>) = (absorb evs ?v)\<lparr>w_task := t\<rparr>"
    by (simp add: absorb_def)
  have pos: "0 < handles w" "handles w = Suc (handles ?v)" using waker handles_waker handles_pos [of w] by auto
  from task_inv_live [OF inv pos(1)] obtain d where d: "d = decode (tk_state (w_task w))" "t_refs d = handles w"
    "\<not> tk_freed (w_task w)" and ok: "flags_ok d w" "stage_ok d w" .
  have "1 \<le> t_refs d" using d pos by simp
  from wake_by_val_Inr [OF wake this d(1)] obtain s where s:
    "if t_running d then 1 < t_refs d \<and> evs = [] \<and> t = (w_task w)\<lparr>tk_state := s\<rparr> \<and> decode s = d\<lparr>t_notified := True, t_refs := t_refs d - 1\<rparr>
      else if t_complete d \<or> t_notified d then
        evs = [] \<and> decode s = d\<lparr>t_refs := t_refs d - 1\<rparr> \<and>
        t = (if t_refs d = 1 then harness_dealloc ((w_task w)\<lparr>tk_state := s\<rparr>) else (w_task w)\<lparr>tk_state := s\<rparr>)
      else evs = [ScheduleTask] \<and> t = (w_task w)\<lparr>tk_state := s\<rparr> \<and> decode s = d\<lparr>t_notified := True\<rparr>" by blast
  have "flags_ok d ?v" using ok by simp
  note fl = scheduled_flags [OF this]
  show ?thesis
    unfolding w' by (rule task_invI; insert s d(2,3) pos ok fl) (auto split: if_splits)
qed

lemma remote_abort_inv:
  assumes inv: "task_inv w" and join: "w_join w" and abort: "remote_abort (w_task w) = Inr (evs, t)"
  shows "task_inv (absorb evs (w\<lparr>w_task := t\<rparr>))"
proof (rule updated [OF inv])
  show pos: "0 < handles w" using join handles_pos [of w] by auto
  fix d assume d: "d = decode (tk_state (w_task w))" "t_refs d = handles w" and ok: "flags_ok d w" "stage_ok d w"
  from abort obtain b s where tr: "transition_to_notified_and_cancel (tk_state (w_task w)) = Inr (b, s)"
    and t: "t = (w_task w)\<lparr>tk_state := s\<rparr>" and evs: "evs = (if b then [ScheduleTask] else [])"
    by (auto simp: remote_abort_def and_then_eq_Inr)
  from spec_cancel_Inr [OF tr] have sp: "Inr (b, decode s) = spec_cancel d" by (simp add: d)
  have "t_refs (decode s) = handles w + scheduled evs"
    using sp d(2) evs by (auto simp: spec_cancel_def split: if_splits)
  moreover have "flags_ok (decode s) (absorb evs w)"
    using sp ok evs unfolding spec_cancel_def by (auto simp: flags_ok_def absorb_def split: if_splits)
  moreover have "stage_ok (decode s) w"
    using sp ok by (auto simp: spec_cancel_def split: if_splits)
  ultimately show "\<exists>s. w_task (absorb evs (w\<lparr>w_task := t\<rparr>)) = (w_task w)\<lparr>tk_state := s\<rparr> \<and>
      t_refs (decode s) = handles (absorb evs (w\<lparr>w_task := t\<rparr>)) \<and> 0 < handles (absorb evs (w\<lparr>w_task := t\<rparr>)) \<and>
      flags_ok (decode s) (absorb evs (w\<lparr>w_task := t\<rparr>)) \<and> stage_ok (decode s) (absorb evs (w\<lparr>w_task := t\<rparr>))"
    using pos t by (intro exI [of _ s]) simp
qed

subsection \<open>Join handles\<close>

lemma unset_join_interested_eq:
  "unset_join_interested s =
     (if \<not> t_join_interest (decode s) then Inl AssertFailed
      else if t_complete (decode s) then Inr (Inl s, s) else Inr (Inr (ts_unset_join_interested s), ts_unset_join_interested s))"
  by (simp add: unset_join_interested_def run_update_eq and_then_ensure decode_tests)

lemma set_join_waker_eq:
  "Task_State.set_join_waker s =
     (if \<not> t_join_interest (decode s) \<or> t_join_waker (decode s) then Inl AssertFailed
      else if t_complete (decode s) then Inr (Inl s, s) else Inr (Inr (ts_set_join_waker s), ts_set_join_waker s))"
  by (simp add: Task_State.set_join_waker_def run_update_eq and_then_ensure decode_tests)

lemma unset_waker_eq:
  "unset_waker s =
     (if \<not> t_join_interest (decode s) \<or> \<not> t_join_waker (decode s) then Inl AssertFailed
      else if t_complete (decode s) then Inr (Inl s, s) else Inr (Inr (ts_unset_join_waker s), ts_unset_join_waker s))"
  by (simp add: unset_waker_def run_update_eq and_then_ensure decode_tests)

text \<open>
  Registering a waker for the output: the task is not complete, and then it has that waker, or it
  is complete and its output can be read.
\<close>

lemma can_read_output_spec:
  assumes d: "d = decode (tk_state t)" and interest: "t_join_interest d" and waker: "t_join_waker d \<longrightarrow> tk_waker t \<noteq> None"
  shows "\<exists>t'. can_read_output cx t = Inr (t_complete d, t') \<and>
    (if t_complete d then t' = t
     else \<exists>s. t' = t\<lparr>tk_waker := Some cx, tk_state := s\<rparr> \<and> decode s = d\<lparr>t_join_waker := True\<rparr>)"
proof -
  have keep: "t\<lparr>tk_waker := tk_waker t, tk_state := tk_state t\<rparr> = t" by (cases t) simp
  show ?thesis
    using interest waker unfolding d
    by (auto simp: can_read_output_def hs_set_join_waker_def trailer_will_wake_def trailer_set_waker_def Let_def
        and_then_ensure decode_tests set_join_waker_eq unset_waker_eq decode_setters keep
        split: option.split intro: exI [of _ "tk_state t"])
qed

lemma join_handle_poll_spec:
  assumes inv: "task_inv w" and join: "w_join w" "\<not> w_read w" and d: "d = decode (tk_state (w_task w))"
  shows "\<exists>r t. join_handle_poll cx (w_task w) = Inr (r, t) \<and>
    (if t_complete d then \<exists>out. r = Ready out \<and> tk_stage (w_task w) = StFinished out \<and> t = (w_task w)\<lparr>tk_stage := StConsumed\<rparr>
     else r = Pending \<and> (\<exists>s. t = (w_task w)\<lparr>tk_waker := Some cx, tk_state := s\<rparr> \<and> decode s = d\<lparr>t_join_waker := True\<rparr>))"
proof -
  from join handles_pos have "0 < handles w" by blast
  from task_inv_live [OF inv this] d have ok: "flags_ok d w" "stage_ok d w" by auto
  then have "t_join_interest d" "t_join_waker d \<longrightarrow> tk_waker (w_task w) \<noteq> None"
    using join by (simp_all add: flags_ok_def stage_ok_def)
  from can_read_output_spec [OF d this, of cx] obtain t' where
    t': "can_read_output cx (w_task w) = Inr (t_complete d, t')"
      "if t_complete d then t' = w_task w
       else \<exists>s. t' = (w_task w)\<lparr>tk_waker := Some cx, tk_state := s\<rparr> \<and> decode s = d\<lparr>t_join_waker := True\<rparr>" by blast
  show ?thesis
  proof (cases "t_complete d")
    case True
    with ok join obtain out where "tk_stage (w_task w) = StFinished out" by (auto simp: stage_ok_def)
    with True t' show ?thesis by (simp add: join_handle_poll_def try_read_output_def take_output_def)
  next
    case False
    with t' show ?thesis by (auto simp: join_handle_poll_def try_read_output_def)
  qed
qed

lemma join_handle_poll_inv:
  assumes inv: "task_inv w" and join: "w_join w" "\<not> w_read w" and poll: "join_handle_poll cx (w_task w) = Inr (r, t)"
  shows "task_inv (w\<lparr>w_task := t, w_read := (r \<noteq> Pending)\<rparr>)"
proof -
  from join have pos: "0 < handles w" using handles_pos by blast
  from task_inv_live [OF inv pos] obtain d where d: "d = decode (tk_state (w_task w))" "t_refs d = handles w"
    "\<not> tk_freed (w_task w)" and ok: "flags_ok d w" "stage_ok d w" .
  from join_handle_poll_spec [OF inv join d(1), of cx] poll
  consider (ready) out where "t_complete d" "r = Ready out" "t = (w_task w)\<lparr>tk_stage := StConsumed\<rparr>"
    | (pend) s where "\<not> t_complete d" "r = Pending" "t = (w_task w)\<lparr>tk_waker := Some cx, tk_state := s\<rparr>"
        "decode s = d\<lparr>t_join_waker := True\<rparr>" by (auto split: if_splits)
  then show ?thesis
  proof cases
    case ready
    then have "flags_ok d (w\<lparr>w_task := t, w_read := True\<rparr>)" "stage_ok d (w\<lparr>w_task := t, w_read := True\<rparr>)"
      using ok by (auto simp: flags_ok_def stage_ok_def)
    with ready d pos show ?thesis by (intro task_invI) (simp_all add: handles_def)
  next
    case pend
    then have "flags_ok (decode s) (w\<lparr>w_task := t, w_read := False\<rparr>)" "stage_ok (decode s) (w\<lparr>w_task := t, w_read := False\<rparr>)"
      using ok by (auto simp: flags_ok_def stage_ok_def)
    with pend d pos show ?thesis by (intro task_invI) (simp_all add: handles_def)
  qed
qed

text \<open>Dropping the handle gives up the interest, and takes an output nobody will read.\<close>

lemma unset_interest_inv:
  assumes "flags_ok d w" "stage_ok d w" "w_join w" "tk_owned t = tk_owned (w_task w)" "tk_waker t = tk_waker (w_task w)"
    "tk_stage t = (if t_complete d then StConsumed else tk_stage (w_task w))"
    "d' = (if t_complete d then d else d\<lparr>t_join_interest := False\<rparr>)"
  shows "flags_ok d' (w\<lparr>w_task := t, w_join := False\<rparr>) \<and> stage_ok d' (w\<lparr>w_task := t, w_join := False\<rparr>)"
  using assms by (auto simp: flags_ok_def stage_ok_def)

lemma join_handle_drop_inv:
  assumes inv: "task_inv w" and join: "w_join w" and drop: "join_handle_drop (w_task w) = Inr t"
  shows "task_inv (w\<lparr>w_task := t, w_join := False\<rparr>)"
proof -
  from join have pos: "0 < handles w" using handles_pos by blast
  from task_inv_live [OF inv pos] obtain d where d: "d = decode (tk_state (w_task w))" "t_refs d = handles w"
    "\<not> tk_freed (w_task w)" and ok: "flags_ok d w" "stage_ok d w" .
  from ok join have interest: "t_join_interest d" by (simp add: flags_ok_def)
  show ?thesis
  proof (cases "tk_state (w_task w) = INITIAL_STATE")
    case True
    with drop have t: "t = (w_task w)\<lparr>tk_state := (INITIAL_STATE - REF_ONE) AND NOT JOIN_INTEREST\<rparr>"
      by (simp add: join_handle_drop_def drop_join_handle_fast_def)
    from True have dd: "d = decode INITIAL_STATE" by (simp add: d)
    have three: "handles w = 3" using d(2) dd by (simp add: decode_initial)
    have d': "decode (tk_state t) = d\<lparr>t_join_interest := False, t_refs := 2\<rparr>"
      using decode_fast_drop by (simp add: t dd)
    have "\<not> t_complete d" by (simp add: dd decode_initial)
    with unset_interest_inv [OF ok join, of t "d\<lparr>t_join_interest := False\<rparr>"] t
    have "flags_ok (d\<lparr>t_join_interest := False\<rparr>) (w\<lparr>w_task := t, w_join := False\<rparr>)"
      "stage_ok (d\<lparr>t_join_interest := False\<rparr>) (w\<lparr>w_task := t, w_join := False\<rparr>)" by simp_all
    moreover have "handles (w\<lparr>w_task := t, w_join := False\<rparr>) = 2" using three join by (simp add: handles_def t)
    moreover have "flags_ok (decode (tk_state t)) v = flags_ok (d\<lparr>t_join_interest := False\<rparr>) v"
      "stage_ok (decode (tk_state t)) v = stage_ok (d\<lparr>t_join_interest := False\<rparr>) v" for v :: "'a tworld"
      by (simp_all add: d' flags_ok_def stage_ok_def)
    moreover have "\<not> tk_freed t" using d(3) by (simp add: t)
    ultimately show ?thesis using d' by (intro task_invI) simp_all
  next
    case False
    define s where "s = (if t_complete d then tk_state (w_task w) else ts_unset_join_interested (tk_state (w_task w)))"
    define u where "u = (if t_complete d then drop_future_or_output (w_task w) else (w_task w))\<lparr>tk_state := s\<rparr>"
    have "drop_reference u = Inr t"
      using drop False interest
      by (auto simp: join_handle_drop_def drop_join_handle_fast_def drop_join_handle_slow_def unset_join_interested_eq
          d(1) u_def s_def drop_future_or_output_def set_stage_def Let_def)
    then obtain s' where s': "decode s' = (decode s)\<lparr>t_refs := t_refs (decode s) - 1\<rparr>"
      "t = (if t_refs (decode s) = 1 then harness_dealloc (u\<lparr>tk_state := s'\<rparr>) else u\<lparr>tk_state := s'\<rparr>)"
      using drop_reference_Inr [of u t] by (auto simp: u_def)
    have ds: "decode s = (if t_complete d then d else d\<lparr>t_join_interest := False\<rparr>)" "t_refs (decode s) = handles w"
      using d by (auto simp: s_def decode_setters)
    have h: "handles w = Suc (handles (w\<lparr>w_task := t, w_join := False\<rparr>))"
      using join s'(2) by (simp add: handles_def u_def drop_future_or_output_def set_stage_def)
    have "flags_ok (decode s) (w\<lparr>w_task := t, w_join := False\<rparr>) \<and> stage_ok (decode s) (w\<lparr>w_task := t, w_join := False\<rparr>)"
      if "handles w \<noteq> 1"
      using that by (intro unset_interest_inv [OF ok join]) (use d(2) in \<open>simp_all add: ds s' u_def drop_future_or_output_def set_stage_def\<close>)
    with ds h s' d(3) show ?thesis
      by (intro task_invI) (auto simp: u_def drop_future_or_output_def set_stage_def)
  qed
qed

subsection \<open>Completion\<close>

definition completed :: "'o task \<Rightarrow> snapshot \<Rightarrow> 'o task" where
  "completed t s =
     (if t_join_interest (decode (tk_state t)) then t else t\<lparr>tk_stage := StConsumed\<rparr>)\<lparr>tk_owned := False, tk_state := s\<rparr>"

lemma not_owned: "\<not> tk_owned t \<Longrightarrow> t\<lparr>tk_owned := False\<rparr> = t"
  by (cases t) simp

definition wakes_joiner :: "'o task \<Rightarrow> effect list" where
  "wakes_joiner t =
     (let d = decode (tk_state t) in
      if t_join_interest d \<and> t_join_waker d then (case tk_waker t of Some k \<Rightarrow> [WakeJoin k] | None \<Rightarrow> []) else [])"

lemma scheduled_wakes_joiner [simp]: "scheduled (wakes_joiner t) = 0"
  by (simp add: wakes_joiner_def Let_def split: option.split)

lemma transition_to_complete_eq:
  "t_running (decode s) \<Longrightarrow> \<not> t_complete (decode s) \<Longrightarrow>
     \<exists>s'. transition_to_complete s = Inr (s', s') \<and> decode s' = (decode s)\<lparr>t_running := False, t_complete := True\<rparr>"
  using spec_complete_refined [of s]
  by (cases "transition_to_complete s") (auto simp: spec_complete_def transition_to_complete_def and_then_ensure Let_def decode_tests)

lemma transition_to_terminal_eq:
  "unat c \<le> t_refs (decode s) \<Longrightarrow>
     \<exists>s'. transition_to_terminal c s = Inr (t_refs (decode s) = unat c, s') \<and>
       decode s' = (decode s)\<lparr>t_refs := t_refs (decode s) - unat c\<rparr>"
  using spec_terminal_refined [of c s] by (cases "transition_to_terminal c s") (auto simp: spec_terminal_def)

lemma harness_complete_spec:
  assumes run: "t_running (decode (tk_state t))" "\<not> t_complete (decode (tk_state t))"
    and refs: "(if tk_owned t then 2 else 1) \<le> t_refs (decode (tk_state t))" (is "?n \<le> ?r")
  shows "\<exists>s. harness_complete t = Inr (wakes_joiner t, if ?r = ?n then harness_dealloc (completed t s) else completed t s) \<and>
    decode s = (decode (tk_state t))\<lparr>t_running := False, t_complete := True, t_refs := ?r - ?n\<rparr>"
proof -
  let ?d = "decode (tk_state t)"
  from transition_to_complete_eq [OF run] obtain s1 where s1: "transition_to_complete (tk_state t) = Inr (s1, s1)"
    and d1: "decode s1 = ?d\<lparr>t_running := False, t_complete := True\<rparr>" by blast
  define c :: usize where "c = (if tk_owned t then 2 else 1)"
  have c: "unat c = ?n" by (simp add: c_def)
  then have "unat c \<le> t_refs (decode s1)" using refs d1 by simp
  from transition_to_terminal_eq [OF this] c d1 obtain s2 where s2: "transition_to_terminal c s1 = Inr (?r = ?n, s2)"
    and d2: "decode s2 = ?d\<lparr>t_running := False, t_complete := True, t_refs := ?r - ?n\<rparr>" by auto
  have "harness_complete t = Inr (wakes_joiner t, if ?r = ?n then harness_dealloc (completed t s2) else completed t s2)"
    using s1 s2 c d1
    by (cases "tk_owned t") (auto simp: harness_complete_def completed_def wakes_joiner_def harness_release_def
        trailer_wake_join_def drop_future_or_output_def set_stage_def decode_tests Let_def c_def not_owned split: option.split)
  with d2 show ?thesis by blast
qed

lemma completed_inv:
  assumes ok: "flags_ok d w" "stage_ok d w" and run: "t_running d" and t: "tk_stage t = StFinished out"
    "tk_waker t = tk_waker (w_task w)" "decode (tk_state t) = d" and refs: "t_refs d = handles w" and owned: "tk_owned t = tk_owned (w_task w)"
    and live: "\<not> tk_freed t" and fin: "harness_complete t = Inr (evs, t')"
  shows "task_inv (absorb evs (w\<lparr>w_task := t', w_phase := TIdle\<rparr>))"
proof -
  have phase: "w_phase w \<noteq> TIdle" and notc: "\<not> t_complete d" using ok run by (auto simp: flags_ok_def)
  let ?n = "if tk_owned t then 2 else 1 :: nat"
  have h: "handles (w\<lparr>w_task := completed t s, w_phase := TIdle\<rparr>) = handles w - ?n" "?n \<le> handles w" for s
    using phase owned by (simp_all add: handles_def completed_def)
  with harness_complete_spec [of t] run notc refs t fin obtain s where
    evs: "evs = wakes_joiner t" and t': "t' = (if handles w = ?n then harness_dealloc (completed t s) else completed t s)"
    and s: "decode s = d\<lparr>t_running := False, t_complete := True, t_refs := handles w - ?n\<rparr>" by auto
  let ?w = "w\<lparr>w_task := completed t s, w_phase := TIdle\<rparr>"
  have flags: "flags_ok (decode s) ?w" using ok run phase by (auto simp: s flags_ok_def)
  have stage: "stage_ok (decode s) ?w" using ok notc t by (auto simp: s stage_ok_def completed_def flags_ok_def)
  show ?thesis
  proof (cases "handles w = ?n")
    case False
    then have "absorb evs (w\<lparr>w_task := t', w_phase := TIdle\<rparr>) = ?w" by (simp add: t' evs absorb_def)
    then show ?thesis
      using flags stage h False live s by (intro task_invI) (simp_all add: completed_def)
  next
    case True
    then have w': "absorb evs (w\<lparr>w_task := t', w_phase := TIdle\<rparr>) = ?w\<lparr>w_task := harness_dealloc (completed t s)\<rparr>"
      by (simp add: t' evs absorb_def)
    have "handles (?w\<lparr>w_task := harness_dealloc (completed t s)\<rparr>) = 0"
      using h(1) [of s] True by (simp add: handles_def)
    with w' True s show ?thesis by (intro task_invI) (simp_all add: completed_def)
  qed
qed

subsection \<open>Polls and shutdowns\<close>

lemma cancelled_flags: "flags_ok d w \<Longrightarrow> t_running d \<or> t_complete d \<Longrightarrow> flags_ok (d\<lparr>t_cancelled := c\<rparr>) w"
  by (simp add: flags_ok_def) blast

lemma unowned_stage:
  "stage_ok d w \<Longrightarrow> tk_stage t = tk_stage (w_task w) \<Longrightarrow> tk_waker t = tk_waker (w_task w) \<Longrightarrow> \<not> tk_owned t \<Longrightarrow>
     stage_ok d (w\<lparr>w_task := t\<rparr>)"
  by (simp add: stage_ok_def)

lemma running_same: "t_running d \<Longrightarrow> d\<lparr>t_running := True\<rparr> = d" "\<not> t_running d \<Longrightarrow> d\<lparr>t_running := False\<rparr> = d"
  by (cases d; simp)+

lemma shutdown_busy_inv:
  assumes inv: "task_inv w" and owned: "tk_owned (w_task w)"
    and tr: "transition_to_shutdown (tk_state (w_task w)) = Inr (False, s)"
    and drop: "drop_reference ((w_task w)\<lparr>tk_owned := False, tk_state := s\<rparr>) = Inr t"
  shows "task_inv (w\<lparr>w_task := t\<rparr>)"
proof (rule dropped_ref [OF inv drop])
  let ?d = "decode (tk_state (w_task w))"
  from spec_shutdown_Inr [OF tr, symmetric] have s: "t_running ?d \<or> t_complete ?d" "decode s = ?d\<lparr>t_cancelled := True\<rparr>"
    by (auto simp: spec_shutdown_def Let_def running_same)
  then show "t_refs (decode s) = t_refs ?d" by simp
  show "handles w = Suc (handles (w\<lparr>w_task := t\<rparr>))"
    using owned drop_reference_owned [OF drop] by (simp add: handles_def)
  assume "flags_ok ?d w" "stage_ok ?d w" "tk_stage t = tk_stage (w_task w)" "tk_owned t = False" "tk_waker t = tk_waker (w_task w)"
  with s show "flags_ok (decode s) (w\<lparr>w_task := t\<rparr>) \<and> stage_ok (decode s) (w\<lparr>w_task := t\<rparr>)"
    by (simp add: cancelled_flags unowned_stage)
qed simp

lemma started_flags:
  assumes "flags_ok d w" "\<not> t_running d" "\<not> t_complete d"
  shows "t_notified d \<Longrightarrow> p = TPolling \<or> p = TCancelling \<Longrightarrow>
      flags_ok (d\<lparr>t_running := True, t_notified := False\<rparr>) (w\<lparr>w_queued := w_queued w - 1, w_phase := p\<rparr>)"
    "flags_ok (d\<lparr>t_running := True, t_cancelled := True\<rparr>) (w\<lparr>w_phase := TCancelling\<rparr>)"
  using assms by (simp_all add: flags_ok_def) auto

lemma shutdown_idle_inv:
  assumes inv: "task_inv w" and owned: "tk_owned (w_task w)"
    and tr: "transition_to_shutdown (tk_state (w_task w)) = Inr (True, s)"
  shows "task_inv (w\<lparr>w_task := (w_task w)\<lparr>tk_owned := False, tk_state := s\<rparr>, w_phase := TCancelling\<rparr>)"
proof -
  from owned have pos: "0 < handles w" using handles_pos by blast
  from task_inv_live [OF inv pos] obtain d where d: "d = decode (tk_state (w_task w))" "t_refs d = handles w"
    "\<not> tk_freed (w_task w)" and ok: "flags_ok d w" "stage_ok d w" .
  from spec_shutdown_Inr [OF tr] have s: "\<not> t_running d" "\<not> t_complete d" "decode s = d\<lparr>t_running := True, t_cancelled := True\<rparr>"
    by (auto simp: spec_shutdown_def Let_def d)
  then have "w_phase w = TIdle" using ok by (simp add: flags_ok_def)
  then have h: "handles (w\<lparr>w_task := (w_task w)\<lparr>tk_owned := False, tk_state := s\<rparr>, w_phase := TCancelling\<rparr>) = handles w"
    using owned by (simp add: handles_def)
  have "stage_ok d (w\<lparr>w_task := (w_task w)\<lparr>tk_owned := False, tk_state := s\<rparr>\<rparr>)"
    using ok by (intro unowned_stage) simp_all
  with started_flags(2) [OF ok(1) s(1,2)] s(3) d pos h
  show ?thesis by (intro task_invI) (simp_all, simp_all add: task_first)
qed

lemma to_running_Inr:
  assumes "to_running t = Inr (r, t')"
  shows "\<exists>s. t' = t\<lparr>tk_state := s\<rparr> \<and> spec_running (decode (tk_state t)) = Inr (r, decode s)"
  using assms by (auto simp: to_running_def and_then_eq_Inr dest: spec_running_Inr)

lemma poll_start_inv:
  assumes inv: "task_inv w" and queued: "0 < w_queued w" and run: "to_running (w_task w) = Inr (r, t)"
    and r: "r = RunSuccess \<or> r = RunCancelled"
  shows "task_inv (w\<lparr>w_task := t, w_queued := w_queued w - 1, w_phase := if r = RunSuccess then TPolling else TCancelling\<rparr>)"
    (is "task_inv (w\<lparr>w_task := t, w_queued := w_queued w - 1, w_phase := ?p\<rparr>)")
proof -
  from queued have pos: "0 < handles w" using handles_pos by blast
  from task_inv_live [OF inv pos] obtain d where d: "d = decode (tk_state (w_task w))" "t_refs d = handles w"
    "\<not> tk_freed (w_task w)" and ok: "flags_ok d w" "stage_ok d w" .
  from to_running_Inr [OF run] r obtain s where t: "t = (w_task w)\<lparr>tk_state := s\<rparr>"
    and s: "t_notified d" "\<not> t_running d" "\<not> t_complete d" "decode s = d\<lparr>t_running := True, t_notified := False\<rparr>"
    by (auto simp: spec_running_def d split: if_splits)
  then have "w_phase w = TIdle" using ok by (simp add: flags_ok_def)
  then have "handles (w\<lparr>w_task := t, w_queued := w_queued w - 1, w_phase := ?p\<rparr>) = handles w"
    using queued by (simp add: handles_def t)
  moreover obtain p where p: "?p = p" "p = TPolling \<or> p = TCancelling" by simp
  moreover note started_flags(1) [OF ok(1) s(2,3,1) p(2)]
  ultimately show ?thesis using s d pos t ok
    by (simp only: p) (intro task_invI, simp_all, simp_all add: task_first)
qed

lemma poll_refused_inv:
  assumes inv: "task_inv w" and queued: "0 < w_queued w" and run: "to_running (w_task w) = Inr (r, t)"
    and r: "r = RunFailed \<or> r = RunDealloc"
  shows "task_inv (w\<lparr>w_task := if r = RunDealloc then harness_dealloc t else t, w_queued := w_queued w - 1\<rparr>)"
proof -
  from queued have pos: "0 < handles w" using handles_pos by blast
  from task_inv_live [OF inv pos] obtain d where d: "d = decode (tk_state (w_task w))" "t_refs d = handles w"
    "\<not> tk_freed (w_task w)" and ok: "flags_ok d w" "stage_ok d w" .
  from to_running_Inr [OF run] r obtain s where t: "t = (w_task w)\<lparr>tk_state := s\<rparr>"
    and s: "t_running d \<or> t_complete d" "decode s = d\<lparr>t_refs := t_refs d - 1\<rparr>" "r = RunDealloc \<longleftrightarrow> t_refs d = 1"
    by (auto simp: spec_running_def d split: if_splits)
  have h: "handles (w\<lparr>w_task := if r = RunDealloc then harness_dealloc t else t, w_queued := w_queued w - 1\<rparr>) = handles w - 1"
    using queued by (simp add: handles_def t)
  have "flags_ok d (w\<lparr>w_queued := w_queued w - 1\<rparr>)" using queued_less ok s(1) by blast
  with h s d t pos ok(2) show ?thesis
    by (intro task_invI) (simp_all only: task_first frame stage_frame, simp_all)
qed

lemma poll_finish_ready:
  "ans \<noteq> AnsPending \<Longrightarrow> poll_finish ans t = Inr (PfComplete, snd (poll_store ans t))"
  by (cases ans) (simp_all add: poll_finish_def poll_store_def)

lemma poll_store_ready:
  "ans \<noteq> AnsPending \<Longrightarrow> \<exists>out. snd (poll_store ans t) = t\<lparr>tk_stage := StFinished out\<rparr>"
  by (cases ans) (auto simp: poll_store_def store_output_def drop_future_or_output_def set_stage_def)

lemma poll_finish_pending:
  assumes "poll_finish AnsPending t = Inr (r, t')" and d: "d = decode (tk_state t)"
  shows "\<exists>s. t' = t\<lparr>tk_state := s\<rparr> \<and> t_running d \<and>
     (if t_cancelled d then r = PfComplete \<and> decode s = d
      else if t_notified d then r = PfNotified \<and> decode s = d\<lparr>t_running := False, t_refs := t_refs d + 1\<rparr>
      else r = (if t_refs d = 1 then PfDealloc else PfDone) \<and> decode s = d\<lparr>t_running := False, t_refs := t_refs d - 1\<rparr>)"
proof -
  from assms(1) obtain i s where tr: "transition_to_idle (tk_state t) = Inr (i, s)" and t: "t' = t\<lparr>tk_state := s\<rparr>"
    and r: "r = (case i of IdleOk \<Rightarrow> PfDone | IdleOkNotified \<Rightarrow> PfNotified | IdleOkDealloc \<Rightarrow> PfDealloc | IdleCancelled \<Rightarrow> PfComplete)"
    by (auto simp: poll_finish_def poll_store_def to_idle_def and_then_eq_Inr)
  from spec_idle_Inr [OF tr] have sp: "Inr (i, decode s) = spec_idle d" by (simp add: d)
  show ?thesis using sp r by (intro exI [of _ s]) (auto simp: t spec_idle_def split: if_splits)
qed

lemma idle_flags:
  assumes "flags_ok d w" "w_phase w = TPolling" "\<not> t_cancelled d"
  shows "\<not> t_notified d \<Longrightarrow> flags_ok (d\<lparr>t_running := False\<rparr>) (w\<lparr>w_phase := TIdle\<rparr>)"
    "t_notified d \<Longrightarrow> flags_ok (d\<lparr>t_running := False\<rparr>) (w\<lparr>w_queued := w_queued w + 1, w_phase := TIdle\<rparr>)"
    "w_queued w = 0"
  using assms by (simp_all add: flags_ok_def) auto

lemma cancelling_flags: "flags_ok d w \<Longrightarrow> w_phase w = TPolling \<Longrightarrow> flags_ok d (w\<lparr>w_phase := TCancelling\<rparr>)"
  by (simp add: flags_ok_def) blast

lemma handles_phase:
  "w_phase w \<noteq> TIdle \<Longrightarrow> handles w = Suc (handles (w\<lparr>w_phase := TIdle\<rparr>))"
  "w_phase w \<noteq> TIdle \<Longrightarrow> handles (w\<lparr>w_phase := TCancelling\<rparr>) = handles w"
  "handles (w\<lparr>w_queued := w_queued w + n, w_phase := TIdle\<rparr>) = handles (w\<lparr>w_phase := TIdle\<rparr>) + n"
  by (simp_all add: handles_def)

lemma poll_end_inv:
  assumes inv: "task_inv w" and phase: "w_phase w = TPolling" and fin: "poll_finish AnsPending (w_task w) = Inr (r, t)"
  shows "r = PfComplete \<Longrightarrow> task_inv (w\<lparr>w_task := t, w_phase := TCancelling\<rparr>)"
    "r = PfDone \<Longrightarrow> task_inv (w\<lparr>w_task := t, w_phase := TIdle\<rparr>)"
    "r = PfDealloc \<Longrightarrow> task_inv (w\<lparr>w_task := harness_dealloc t, w_phase := TIdle\<rparr>)"
    "r = PfNotified \<Longrightarrow> drop_reference t = Inr t' \<Longrightarrow> task_inv (absorb [YieldTask] (w\<lparr>w_task := t', w_phase := TIdle\<rparr>))"
proof -
  from phase have pos: "0 < handles w" by (simp add: handles_pos)
  from task_inv_live [OF inv pos] obtain d where d: "d = decode (tk_state (w_task w))" "t_refs d = handles w"
    and live: "\<not> tk_freed (w_task w)" and ok: "flags_ok d w" "stage_ok d w" .
  from poll_finish_pending [OF fin d(1)] obtain s where t: "t = (w_task w)\<lparr>tk_state := s\<rparr>" and s:
    "if t_cancelled d then r = PfComplete \<and> decode s = d
     else if t_notified d then r = PfNotified \<and> decode s = d\<lparr>t_running := False, t_refs := t_refs d + 1\<rparr>
     else r = (if t_refs d = 1 then PfDealloc else PfDone) \<and> decode s = d\<lparr>t_running := False, t_refs := t_refs d - 1\<rparr>" by blast
  have h: "handles w = Suc (handles (w\<lparr>w_phase := TIdle\<rparr>))" using handles_phase(1) [of w] phase by simp
  show "task_inv (w\<lparr>w_task := t, w_phase := TCancelling\<rparr>)" if "r = PfComplete"
  proof -
    from s that have "decode s = d" by (auto split: if_splits)
    moreover have "flags_ok d (w\<lparr>w_phase := TCancelling\<rparr>)" using cancelling_flags ok phase by blast
    ultimately show ?thesis unfolding task_first
      using d live ok pos phase by (intro task_invI) (simp_all add: t handles_phase(2))
  qed
  show "task_inv (w\<lparr>w_task := t, w_phase := TIdle\<rparr>)" if "r = PfDone"
  proof -
    from s that have "decode s = d\<lparr>t_running := False, t_refs := t_refs d - 1\<rparr>" "t_refs d \<noteq> 1" "\<not> t_cancelled d" "\<not> t_notified d"
      by (auto split: if_splits)
    with idle_flags(1) [OF ok(1) phase] show ?thesis unfolding task_first
      using d(2) live ok pos phase h by (intro task_invI) (simp_all add: t)
  qed
  show "task_inv (w\<lparr>w_task := harness_dealloc t, w_phase := TIdle\<rparr>)" if "r = PfDealloc"
  proof -
    from s that have "decode s = d\<lparr>t_running := False, t_refs := t_refs d - 1\<rparr>" "t_refs d = 1" by (auto split: if_splits)
    then show ?thesis unfolding task_first
      using d(2) live ok pos phase h by (intro task_invI) (simp_all add: t)
  qed
  show "task_inv (absorb [YieldTask] (w\<lparr>w_task := t', w_phase := TIdle\<rparr>))" if "r = PfNotified" "drop_reference t = Inr t'"
  proof -
    from s that have ds: "decode s = d\<lparr>t_running := False, t_refs := t_refs d + 1\<rparr>" and n: "\<not> t_cancelled d" "t_notified d"
      by (auto split: if_splits)
    from drop_reference_Inr [OF that(2)] t ds pos d(2) obtain s' where
      t': "t' = (w_task w)\<lparr>tk_state := s'\<rparr>" and s': "decode s' = d\<lparr>t_running := False\<rparr>" "t_refs (decode s') = handles w"
      by auto
    have w': "absorb [YieldTask] (w\<lparr>w_task := t', w_phase := TIdle\<rparr>) = w\<lparr>w_queued := w_queued w + 1, w_phase := TIdle, w_task := t'\<rparr>"
      by (simp add: absorb_def)
    have "handles (w\<lparr>w_queued := w_queued w + 1, w_phase := TIdle\<rparr>) = handles w" using h handles_phase(3) [of w 1] by simp
    with idle_flags(2) [OF ok(1) phase n] show ?thesis unfolding w'
      using d(2) live ok pos s' by (intro task_invI) (simp_all add: t')
  qed
qed

lemma poll_complete_inv:
  assumes inv: "task_inv w" and phase: "w_phase w = TPolling" and fin: "poll_finish ans (w_task w) = Inr (PfComplete, t)"
    and ans: "ans \<noteq> AnsPending" and comp: "harness_complete t = Inr (evs, t')"
  shows "task_inv (absorb evs (w\<lparr>w_task := t', w_phase := TIdle\<rparr>))"
proof -
  from phase have pos: "0 < handles w" by (simp add: handles_pos)
  from task_inv_live [OF inv pos] obtain d where d: "d = decode (tk_state (w_task w))" "t_refs d = handles w"
    and live: "\<not> tk_freed (w_task w)" and ok: "flags_ok d w" "stage_ok d w" .
  from poll_finish_ready [OF ans, of "w_task w"] fin poll_store_ready [OF ans, of "w_task w"] obtain out where
    t: "t = (w_task w)\<lparr>tk_stage := StFinished out\<rparr>" by auto
  have "t_running d" using ok phase by (simp add: flags_ok_def)
  from completed_inv [OF ok this, of t out] t d live comp show ?thesis by simp
qed

lemma cancel_end_inv:
  assumes inv: "task_inv w" and phase: "w_phase w = TCancelling" and fin: "cancel_finish panicked (w_task w) = Inr (evs, t)"
  shows "task_inv (absorb evs (w\<lparr>w_task := t, w_phase := TIdle\<rparr>))"
proof -
  from phase have pos: "0 < handles w" by (simp add: handles_pos)
  from task_inv_live [OF inv pos] obtain d where d: "d = decode (tk_state (w_task w))" "t_refs d = handles w"
    and live: "\<not> tk_freed (w_task w)" and ok: "flags_ok d w" "stage_ok d w" .
  obtain out where t: "cancel_store panicked (drop_future_or_output (w_task w)) = (w_task w)\<lparr>tk_stage := StFinished out\<rparr>"
    by (simp add: cancel_store_def store_output_def drop_future_or_output_def set_stage_def)
  have "t_running d" using ok phase by (simp add: flags_ok_def)
  from completed_inv [OF ok this, of "(w_task w)\<lparr>tk_stage := StFinished out\<rparr>" out] t d live fin
  show ?thesis by (simp add: cancel_finish_def)
qed

lemma task_step_inv: "task_step w evs w' \<Longrightarrow> task_inv w \<Longrightarrow> task_inv w'"
  by (induction rule: task_step.induct)
     (blast intro: waker_clone_inv waker_drop_inv wake_by_val_inv wake_by_ref_inv join_handle_poll_inv remote_abort_inv
       join_handle_drop_inv queue_drop_inv shutdown_busy_inv shutdown_idle_inv poll_start_inv poll_refused_inv
       poll_complete_inv poll_end_inv cancel_end_inv)+

lemma task_steps_inv: "task_steps w evs w' \<Longrightarrow> task_inv w \<Longrightarrow> task_inv w'"
  by (induction rule: task_steps.induct) (auto intro: task_step_inv)

lemma spawned_inv: "task_inv (spawned tid)"
  by (rule task_invI) (simp_all add: spawned_def new_task_def cell_new_def state_new_def decode_initial handles_def
      flags_ok_def stage_ok_def)

section \<open>No operation fails\<close>

lemma drop_reference_returns: "1 \<le> t_refs (decode (tk_state t)) \<Longrightarrow> \<exists>t'. drop_reference t = Inr t'"
  using state_ref_dec_refined(1) [of "tk_state t"]
  by (cases "state_ref_dec (tk_state t)") (auto simp: drop_reference_def spec_terminal_def Let_def)

lemma spec_returns:
  "decode_result r = Inr (a, d) \<Longrightarrow> \<exists>s. r = Inr (a, s) \<and> decode s = d"
  by (cases r) auto

lemma wake_by_val_returns:
  assumes "tk_state t \<le> isize_max" "1 \<le> t_refs (decode (tk_state t))" "t_running (decode (tk_state t)) \<Longrightarrow> 2 \<le> t_refs (decode (tk_state t))"
  shows "\<exists>evs t'. wake_by_val t = Inr (evs, t')"
proof -
  let ?d = "decode (tk_state t)"
  have "\<exists>r d'. spec_by_val ?d = Inr (r, d') \<and> (r = ValSubmit \<longrightarrow> 1 \<le> t_refs d')"
    using assms(2,3) by (auto simp: spec_by_val_def)
  then obtain r d' where sp: "spec_by_val ?d = Inr (r, d')" and r: "r = ValSubmit \<longrightarrow> 1 \<le> t_refs d'" by blast
  with spec_by_val_refined [OF assms(1)] spec_returns obtain s where
    s: "transition_to_notified_by_val (tk_state t) = Inr (r, s)" "decode s = d'" by metis
  then show ?thesis using r drop_reference_returns [of "t\<lparr>tk_state := s\<rparr>"]
    by (cases r) (auto simp: wake_by_val_def)
qed

lemma wake_by_ref_returns: "tk_state t \<le> isize_max \<Longrightarrow> \<exists>evs t'. wake_by_ref t = Inr (evs, t')"
  using spec_by_ref_refined [of "tk_state t"] spec_returns
  by (fastforce simp: wake_by_ref_eq spec_by_ref_def split: if_splits)

lemma remote_abort_returns: "tk_state t \<le> isize_max \<Longrightarrow> \<exists>evs t'. remote_abort t = Inr (evs, t')"
  using spec_cancel_refined [of "tk_state t"] spec_returns
  by (fastforce simp: remote_abort_def spec_cancel_def split: if_splits)

lemma clone_waker_returns: "tk_state t \<le> isize_max \<Longrightarrow> \<exists>t'. clone_waker t = Inr t'"
  using state_ref_inc_refined [of "tk_state t"] by (auto simp: clone_waker_def)

lemma join_handle_drop_returns:
  "t_join_interest (decode (tk_state t)) \<Longrightarrow> 1 \<le> t_refs (decode (tk_state t)) \<Longrightarrow> \<exists>t'. join_handle_drop t = Inr t'"
  using drop_reference_returns [of "t\<lparr>tk_stage := StConsumed\<rparr>"]
    drop_reference_returns [of "t\<lparr>tk_state := ts_unset_join_interested (tk_state t)\<rparr>"]
  by (auto simp: join_handle_drop_def drop_join_handle_fast_def drop_join_handle_slow_def unset_join_interested_eq
      drop_future_or_output_def set_stage_def decode_setters Let_def)

lemma to_running_returns:
  "t_notified (decode (tk_state t)) \<Longrightarrow> 1 \<le> t_refs (decode (tk_state t)) \<Longrightarrow> \<exists>r t'. to_running t = Inr (r, t')"
  using spec_running_refined [of "tk_state t"] spec_returns
  by (fastforce simp: to_running_def spec_running_def split: if_splits)

lemma poll_finish_returns:
  assumes "tk_state t \<le> isize_max" "t_running (decode (tk_state t))" "1 \<le> t_refs (decode (tk_state t))"
  shows "\<exists>r t'. poll_finish ans t = Inr (r, t')"
proof (cases "ans = AnsPending")
  case True
  have "\<exists>i d'. spec_idle (decode (tk_state t)) = Inr (i, d')" using assms by (auto simp: spec_idle_def)
  with spec_idle_refined [OF assms(1)] spec_returns True show ?thesis
    by (fastforce simp: poll_finish_def poll_store_def to_idle_def)
qed (simp add: poll_finish_ready)

lemma shutdown_returns: "\<exists>b s. transition_to_shutdown s0 = Inr (b, s)"
  using spec_shutdown_refined [of s0] spec_returns by (fastforce simp: spec_shutdown_def Let_def)

lemma harness_complete_returns:
  "flags_ok d w \<Longrightarrow> t_running d \<Longrightarrow> t_refs d = handles w \<Longrightarrow> decode (tk_state t) = d \<Longrightarrow> tk_owned t = tk_owned (w_task w) \<Longrightarrow>
     \<exists>evs t'. harness_complete t = Inr (evs, t')"
  using harness_complete_spec [of t] by (auto simp: flags_ok_def handles_def split: if_splits)

text \<open>The operations a handle of the world may call, each with a result.\<close>

definition operations_return :: "'o tworld \<Rightarrow> bool" where
  "operations_return w \<longleftrightarrow>
     (let t = w_task w in
      (0 < w_wakers w \<longrightarrow> (\<exists>t'. drop_waker t = Inr t') \<and> (\<exists>evs t'. wake_by_val t = Inr (evs, t'))) \<and>
      (0 < w_wakers w \<or> w_phase w = TPolling \<longrightarrow> (\<exists>t'. clone_waker t = Inr t') \<and> (\<exists>evs t'. wake_by_ref t = Inr (evs, t'))) \<and>
      (w_join w \<longrightarrow> (\<exists>evs t'. remote_abort t = Inr (evs, t')) \<and> (\<exists>t'. join_handle_drop t = Inr t') \<and>
         (\<not> w_read w \<longrightarrow> (\<forall>cx. \<exists>r t'. join_handle_poll cx t = Inr (r, t')))) \<and>
      (0 < w_queued w \<longrightarrow> (\<exists>t'. task_drop t = Inr t') \<and> (\<exists>r t'. to_running t = Inr (r, t'))) \<and>
      (tk_owned t \<longrightarrow> (\<exists>b s. transition_to_shutdown (tk_state t) = Inr (b, s) \<and>
         (\<not> b \<longrightarrow> (\<exists>t'. drop_reference (t\<lparr>tk_owned := False, tk_state := s\<rparr>) = Inr t')))) \<and>
      (w_phase w = TPolling \<longrightarrow> (\<forall>ans. \<exists>r t'. poll_finish ans t = Inr (r, t') \<and>
         (r = PfNotified \<longrightarrow> (\<exists>t2. drop_reference t' = Inr t2)) \<and>
         (r = PfComplete \<and> ans \<noteq> AnsPending \<longrightarrow> (\<exists>evs t2. harness_complete t' = Inr (evs, t2))))) \<and>
      (w_phase w = TCancelling \<longrightarrow> (\<forall>p. \<exists>evs t'. cancel_finish p t = Inr (evs, t'))))"

lemma operations_return_inv:
  assumes inv: "task_inv w" and room: "tk_state (w_task w) \<le> isize_max"
  shows "operations_return w"
proof (cases "0 < handles w")
  case False
  then show ?thesis using handles_pos [of w] by (auto simp: operations_return_def Let_def)
next
  case True
  from task_inv_live [OF inv True] obtain d where d: "d = decode (tk_state (w_task w))" "t_refs d = handles w"
    and ok: "flags_ok d w" "stage_ok d w" by metis
  have refs: "1 \<le> t_refs d" using True d by simp
  let ?t = "w_task w"
  have "2 \<le> t_refs d" if "t_running d" "0 < w_wakers w"
    using that ok(1) d(2) by (auto simp: flags_ok_def handles_def)
  then have waker: "0 < w_wakers w \<Longrightarrow> (\<exists>t'. drop_waker ?t = Inr t') \<and> (\<exists>evs t'. wake_by_val ?t = Inr (evs, t'))"
    using drop_reference_returns [of ?t] wake_by_val_returns [OF room] refs by (auto simp: drop_waker_def d)
  have join: "w_join w \<Longrightarrow> \<exists>t'. join_handle_drop ?t = Inr t'"
    using join_handle_drop_returns [of ?t] ok refs by (auto simp: flags_ok_def d)
  have jpoll: "w_join w \<Longrightarrow> \<not> w_read w \<Longrightarrow> \<exists>r t'. join_handle_poll cx ?t = Inr (r, t')" for cx
    using join_handle_poll_spec [OF inv _ _ d(1), of cx] by blast
  have queue: "0 < w_queued w \<Longrightarrow> (\<exists>t'. task_drop ?t = Inr t') \<and> (\<exists>r t'. to_running ?t = Inr (r, t'))"
  proof -
    assume "0 < w_queued w"
    then have "t_notified d" using ok(1) by (simp add: flags_ok_def)
    then show ?thesis using drop_reference_returns [of ?t] to_running_returns [of ?t] refs by (simp add: task_drop_eq d)
  qed
  have shut: "\<exists>b s. transition_to_shutdown (tk_state ?t) = Inr (b, s) \<and>
      (\<not> b \<longrightarrow> (\<exists>t'. drop_reference (?t\<lparr>tk_owned := False, tk_state := s\<rparr>) = Inr t'))"
  proof -
    from shutdown_returns obtain b s where bs: "transition_to_shutdown (tk_state ?t) = Inr (b, s)" by blast
    have "t_refs (decode s) = t_refs d" using spec_shutdown_Inr [OF bs, symmetric] by (auto simp: spec_shutdown_def Let_def d)
    then show ?thesis using bs drop_reference_returns [of "?t\<lparr>tk_owned := False, tk_state := s\<rparr>"] refs by auto
  qed
  have poll: "\<exists>r t'. poll_finish ans ?t = Inr (r, t') \<and> (r = PfNotified \<longrightarrow> (\<exists>t2. drop_reference t' = Inr t2)) \<and>
      (r = PfComplete \<and> ans \<noteq> AnsPending \<longrightarrow> (\<exists>evs t2. harness_complete t' = Inr (evs, t2)))"
    if "w_phase w = TPolling" for ans
  proof (cases "ans = AnsPending")
    case True
    have "t_running d" using ok that by (simp add: flags_ok_def)
    with poll_finish_returns [OF room, of ans] refs d obtain r t' where r: "poll_finish ans ?t = Inr (r, t')" by auto
    with poll_finish_pending [of ?t r t' d] True d obtain s where "t' = ?t\<lparr>tk_state := s\<rparr>"
      "r = PfNotified \<Longrightarrow> 1 \<le> t_refs (decode s)" by (auto split: if_splits)
    then show ?thesis using r True drop_reference_returns [of t'] by auto
  next
    case False
    obtain out where "snd (poll_store ans ?t) = ?t\<lparr>tk_stage := StFinished out\<rparr>" using poll_store_ready [OF False] by blast
    moreover have "t_running d" using ok that by (simp add: flags_ok_def)
    ultimately show ?thesis
      using False harness_complete_returns [OF ok(1), of "?t\<lparr>tk_stage := StFinished out\<rparr>"] d by (simp add: poll_finish_ready)
  qed
  have canc: "\<exists>evs t'. cancel_finish p ?t = Inr (evs, t')" if "w_phase w = TCancelling" for p
    using harness_complete_returns [OF ok(1), of "cancel_store p (drop_future_or_output ?t)"] that ok(1) d
    by (simp add: cancel_finish_def cancel_store_def store_output_def drop_future_or_output_def set_stage_def flags_ok_def)
  show ?thesis
    unfolding operations_return_def Let_def
    using waker join jpoll queue shut poll canc clone_waker_returns [OF room] wake_by_ref_returns [OF room]
      remote_abort_returns [OF room] by blast
qed

section \<open>Output and wake-ups\<close>

text \<open>A complete task whose join handle has not read the output.\<close>

definition output_held :: "(join_error + 'o) \<Rightarrow> 'o tworld \<Rightarrow> bool" where
  "output_held out w \<longleftrightarrow> t_complete (decode (tk_state (w_task w))) \<and> tk_stage (w_task w) = StFinished out"

lemma complete_keeps:
  assumes "t_complete (decode s)"
  shows "transition_to_notified_by_val s = Inr (v, s') \<Longrightarrow> t_complete (decode s') \<and> v \<noteq> ValSubmit"
    "transition_to_notified_by_ref s = Inr (f, s') \<Longrightarrow> t_complete (decode s')"
    "transition_to_notified_and_cancel s = Inr (b, s') \<Longrightarrow> t_complete (decode s')"
    "transition_to_running s = Inr (r, s') \<Longrightarrow> t_complete (decode s') \<and> (r = RunFailed \<or> r = RunDealloc)"
    "transition_to_shutdown s = Inr (b, s') \<Longrightarrow> t_complete (decode s') \<and> \<not> b"
    "state_ref_inc s = Inr s1 \<Longrightarrow> t_complete (decode s1)"
  using assms
  by (auto dest!: spec_by_val_Inr [THEN sym] spec_by_ref_Inr [THEN sym] spec_cancel_Inr [THEN sym] spec_running_Inr [THEN sym]
      spec_shutdown_Inr [THEN sym] spec_inc_Inr
      simp: spec_by_val_def spec_by_ref_def spec_cancel_def spec_running_def spec_shutdown_def Let_def split: if_splits)

definition kept :: "'o task \<Rightarrow> 'o task \<Rightarrow> bool" where
  "kept t t' \<longleftrightarrow> tk_freed t' \<or> tk_stage t' = tk_stage t \<and> t_complete (decode (tk_state t'))"

lemma kept_operations:
  assumes "t_complete (decode (tk_state t))"
  shows "drop_reference t = Inr t' \<Longrightarrow> kept t t'"
    "clone_waker t = Inr t' \<Longrightarrow> kept t t'"
    "wake_by_ref t = Inr (evs, t') \<Longrightarrow> kept t t'"
    "remote_abort t = Inr (evs, t') \<Longrightarrow> kept t t'"
    "to_running t = Inr (r, t') \<Longrightarrow> kept t t' \<and> (r = RunFailed \<or> r = RunDealloc)"
proof -
  show "drop_reference t = Inr t' \<Longrightarrow> kept t t'"
    using assms drop_reference_Inr [of t t'] by (auto simp: kept_def)
  show "clone_waker t = Inr t' \<Longrightarrow> kept t t'"
    using complete_keeps(6) [OF assms] by (auto simp: kept_def clone_waker_def and_then_eq_Inr)
  show "wake_by_ref t = Inr (evs, t') \<Longrightarrow> kept t t'"
    using complete_keeps(2) [OF assms] by (auto simp: kept_def wake_by_ref_eq and_then_eq_Inr)
  show "remote_abort t = Inr (evs, t') \<Longrightarrow> kept t t'"
    using complete_keeps(3) [OF assms] by (auto simp: kept_def remote_abort_def and_then_eq_Inr)
  show "to_running t = Inr (r, t') \<Longrightarrow> kept t t' \<and> (r = RunFailed \<or> r = RunDealloc)"
    using complete_keeps(4) [OF assms] by (fastforce simp: kept_def to_running_def and_then_eq_Inr)
qed

lemma kept_by_val:
  assumes "t_complete (decode (tk_state t))" "wake_by_val t = Inr (evs, t')"
  shows "kept t t'"
proof -
  from assms(2) obtain v s where "transition_to_notified_by_val (tk_state t) = Inr (v, s)"
    and "(case v of ValSubmit \<Rightarrow> and_then (drop_reference (t\<lparr>tk_state := s\<rparr>)) (\<lambda>t2. Inr ([ScheduleTask], t2))
      | ValDealloc \<Rightarrow> Inr ([], harness_dealloc (t\<lparr>tk_state := s\<rparr>)) | ValDoNothing \<Rightarrow> Inr ([], t\<lparr>tk_state := s\<rparr>)) = Inr (evs, t')"
    by (auto simp: wake_by_val_def and_then_eq_Inr Let_def)
  then show ?thesis using complete_keeps(1) [OF assms(1)] by (cases v) (auto simp: kept_def)
qed

lemma task_step_mono:
  "task_step w evs w' \<Longrightarrow> w_read w \<longrightarrow> w_read w'" "task_step w evs w' \<Longrightarrow> w_join w' \<longrightarrow> w_join w"
  by (induction rule: task_step.induct) (simp_all add: absorb_def)

lemma complete_idle: "flags_ok d w \<Longrightarrow> t_complete d \<Longrightarrow> w_phase w = TIdle"
  by (auto simp: flags_ok_def)

lemma output_held_step:
  assumes step: "task_step w evs w'" and inv: "task_inv w" and held: "output_held out w"
    and join: "w_join w'" "\<not> w_read w'"
  shows "output_held out w'"
proof -
  let ?d = "decode (tk_state (w_task w))"
  have "task_inv w'" using task_step_inv [OF step inv] .
  moreover have "0 < handles w'" using join(1) handles_pos by blast
  ultimately have live: "\<not> tk_freed (w_task w')" by (simp add: task_inv_def Let_def)
  have c: "t_complete ?d" using held by (simp add: output_held_def)
  have by_kept: "output_held out w'" if "kept (w_task w) (w_task w')"
    using that live held by (simp add: kept_def output_held_def)
  note ops = kept_operations [OF c]
  have polls: "w_phase w = TIdle"
  proof (rule ccontr)
    assume "w_phase w \<noteq> TIdle"
    moreover from handles_pos(4) [OF this] task_inv_live [OF inv] have "flags_ok ?d w" by metis
    ultimately show False using complete_idle [OF _ c] by blast
  qed
  show ?thesis
    using step
  proof cases
    case (join_poll cx r t)
    from join_handle_poll_spec [OF inv join_poll(3,4) refl, of cx] c join_poll(5) have "r \<noteq> Pending" by auto
    with join(2) join_poll(2) show ?thesis by simp
  next
    case (shutdown_busy s t)
    have "kept ((w_task w)\<lparr>tk_owned := False, tk_state := s\<rparr>) t"
      using complete_keeps(5) [OF c shutdown_busy(4)] by (intro kept_operations(1) [OF _ shutdown_busy(5)]) simp
    with shutdown_busy(2) show ?thesis by (intro by_kept) (simp add: kept_def)
  next
    case (shutdown_idle s)
    from complete_keeps(5) [OF c shutdown_idle(4)] show ?thesis by simp
  next
    case (poll_refused r t)
    with ops(5) [of r t] have "kept (w_task w) t" by blast
    with poll_refused show ?thesis by (intro by_kept) (simp add: kept_def)
  next
    case (poll_start r t)
    with ops(5) [of r t] show ?thesis by auto
  next
    case (waker_clone t)
    with ops(2) [of t] show ?thesis by (intro by_kept) simp
  next
    case (waker_drop t)
    with ops(1) [of t] show ?thesis by (intro by_kept) (simp add: drop_waker_def)
  next
    case (queue_drop t)
    with ops(1) [of t] show ?thesis by (intro by_kept) (simp add: task_drop_eq)
  next
    case (waker_wake t)
    with kept_by_val [OF c] show ?thesis by (intro by_kept) simp
  next
    case (waker_ref t)
    with ops(3) [of evs t] show ?thesis by (intro by_kept) simp
  next
    case (join_abort t)
    with ops(4) [of evs t] show ?thesis by (intro by_kept) simp
  next
    case (join_drop t)
    with join show ?thesis by simp
  qed (use polls in simp_all)
qed

lemma output_held_steps:
  assumes "task_steps w evs w'" "task_inv w" "output_held out w" "w_join w'" "\<not> w_read w'"
  shows "output_held out w'"
  using assms
proof (induction rule: task_steps.induct)
  case (steps_trans w evs w' evs' w'')
  have inv: "task_inv w'" using steps_trans task_steps_inv by blast
  have "w_join w'" "\<not> w_read w'"
    using task_step_mono [OF steps_trans(2)] steps_trans by simp_all
  with steps_trans inv show ?case using output_held_step by blast
qed simp

section \<open>The harness runs the steps\<close>

lemma steps_one: "task_step w evs w' \<Longrightarrow> task_steps w evs w'"
  using steps_trans [OF steps_refl, of w evs w'] by simp

lemma steps_append: "task_steps w' evs' w'' \<Longrightarrow> task_steps w evs w' \<Longrightarrow> task_steps w (evs @ evs') w''"
proof (induction rule: task_steps.induct)
  case (steps_trans w' evs' w1 evs1 w2)
  then show ?case using task_steps.steps_trans [of w "evs @ evs'" w1 evs1 w2] by simp
qed simp

lemma cancel_task_steps:
  assumes inv: "task_inv w" and phase: "w_phase w = TCancelling"
    and drop: "udrop (w_task w) = Inr (p, evs, w_task w2)" "task_steps w evs w2" "w_phase w2 = TCancelling"
  shows "\<exists>evs' t w'. cancel_task udrop (w_task w) = Inr (evs, t) \<and> harness_complete t = Inr (evs', w_task w') \<and>
    task_steps w (evs @ evs') w' \<and> w_phase w' = TIdle"
proof -
  have inv2: "task_inv w2" using task_steps_inv [OF drop(2) inv] .
  let ?t = "cancel_store p (drop_future_or_output (w_task w2))"
  have "0 < handles w2" using drop(3) handles_pos(4) [of w2] by simp
  from task_inv_live [OF inv2 this] obtain d where d: "d = decode (tk_state (w_task w2))" "t_refs d = handles w2" "flags_ok d w2" by metis
  have "\<exists>evs' t'. harness_complete ?t = Inr (evs', t')"
    using d drop(3) by (intro harness_complete_returns [OF d(3)])
      (auto simp: flags_ok_def cancel_store_def store_output_def drop_future_or_output_def set_stage_def)
  then obtain evs' t' where fin: "harness_complete ?t = Inr (evs', t')" by blast
  have "task_step w2 evs' (absorb evs' (w2\<lparr>w_task := t', w_phase := TIdle\<rparr>))"
    using fin by (intro cancel_end [OF drop(3)]) (simp add: cancel_finish_def)
  then have "task_steps w (evs @ evs') (absorb evs' (w2\<lparr>w_task := t', w_phase := TIdle\<rparr>))"
    using drop(2) steps_append steps_one by blast
  with fin show ?thesis
    by (intro exI [of _ evs'] exI [of _ ?t] exI [of _ "absorb evs' (w2\<lparr>w_task := t', w_phase := TIdle\<rparr>)"])
       (simp add: cancel_task_def drop(1), simp add: absorb_def)
qed

lemma poll_end_steps:
  assumes inv: "task_inv w" and phase: "w_phase w = TPolling" and room: "tk_state (w_task w) \<le> isize_max"
    and drop: "\<And>w1. task_step w [] w1 \<Longrightarrow> w_phase w1 = TCancelling \<Longrightarrow>
      \<exists>p evs w2. udrop (w_task w1) = Inr (p, evs, w_task w2) \<and> task_steps w1 evs w2 \<and> w_phase w2 = TCancelling"
  shows "\<exists>r evs1 evs2 t w'.
     and_then (to_idle (w_task w)) (\<lambda>(i, t3). case i of
         IdleOk \<Rightarrow> Inr (PfDone, e0, t3) | IdleOkNotified \<Rightarrow> Inr (PfNotified, e0, t3) | IdleOkDealloc \<Rightarrow> Inr (PfDealloc, e0, t3)
       | IdleCancelled \<Rightarrow> and_then (cancel_task udrop t3) (\<lambda>(evs2, t4). Inr (PfComplete, e0 @ evs2, t4))) = Inr (r, e0 @ evs1, t) \<and>
     (case r of PfNotified \<Rightarrow> and_then (drop_reference t) (\<lambda>t2. Inr ((e0 @ evs1) @ [YieldTask], t2))
       | PfComplete \<Rightarrow> and_then (harness_complete t) (\<lambda>(evs2, t2). Inr ((e0 @ evs1) @ evs2, t2))
       | PfDealloc \<Rightarrow> Inr (e0 @ evs1, harness_dealloc t)
       | PfDone \<Rightarrow> Inr (e0 @ evs1, t)) = Inr (e0 @ evs2, w_task w') \<and>
     task_steps w evs2 w' \<and> w_phase w' = TIdle"
proof -
  have "operations_return w" using operations_return_inv [OF inv room] .
  then obtain pr t where fin: "poll_finish AnsPending (w_task w) = Inr (pr, t)"
    and again: "pr = PfNotified \<longrightarrow> (\<exists>t2. drop_reference t = Inr t2)"
    using phase unfolding operations_return_def Let_def by blast
  then obtain i where i: "to_idle (w_task w) = Inr (i, t)"
    and pr: "pr = (case i of IdleOk \<Rightarrow> PfDone | IdleOkNotified \<Rightarrow> PfNotified | IdleOkDealloc \<Rightarrow> PfDealloc | IdleCancelled \<Rightarrow> PfComplete)"
    by (auto simp: poll_finish_def poll_store_def and_then_eq_Inr)
  show ?thesis
  proof (cases i)
    case IdleOk
    with pr fin poll_pending [OF phase] have "task_steps w [] (w\<lparr>w_task := t, w_phase := TIdle\<rparr>)" by (simp add: steps_one)
    then show ?thesis using IdleOk i
      by (intro exI [of _ PfDone] exI [of _ "[]"] exI [of _ t] exI [of _ "w\<lparr>w_task := t, w_phase := TIdle\<rparr>"]) simp
  next
    case IdleOkDealloc
    with pr fin poll_dealloc [OF phase] have "task_steps w [] (w\<lparr>w_task := harness_dealloc t, w_phase := TIdle\<rparr>)"
      by (simp add: steps_one)
    then show ?thesis using IdleOkDealloc i
      by (intro exI [of _ PfDealloc] exI [of _ "[]"] exI [of _ t] exI [of _ "w\<lparr>w_task := harness_dealloc t, w_phase := TIdle\<rparr>"]) simp
  next
    case IdleOkNotified
    with pr again obtain t2 where t2: "drop_reference t = Inr t2" by auto
    with pr fin IdleOkNotified poll_again [OF phase]
    have "task_steps w [YieldTask] (absorb [YieldTask] (w\<lparr>w_task := t2, w_phase := TIdle\<rparr>))" by (simp add: steps_one)
    then show ?thesis using IdleOkNotified i t2
      by (intro exI [of _ PfNotified] exI [of _ "[]"] exI [of _ "[YieldTask]"] exI [of _ t]
          exI [of _ "absorb [YieldTask] (w\<lparr>w_task := t2, w_phase := TIdle\<rparr>)"]) (simp add: absorb_def)
  next
    case IdleCancelled
    let ?w1 = "w\<lparr>w_task := t, w_phase := TCancelling\<rparr>"
    from IdleCancelled pr fin poll_cancelled [OF phase] have step: "task_step w [] ?w1" by simp
    from drop [OF step] obtain p evs w2 where
      ud: "udrop (w_task ?w1) = Inr (p, evs, w_task w2)" "task_steps ?w1 evs w2" "w_phase w2 = TCancelling" by auto
    from cancel_task_steps [where w = ?w1 and udrop = udrop and p = p and evs = evs and ?w2.0 = w2, OF task_step_inv [OF step inv] _ ud] obtain evs' t4 w' where
      c: "cancel_task udrop t = Inr (evs, t4)" "harness_complete t4 = Inr (evs', w_task w')"
      "task_steps ?w1 (evs @ evs') w'" "w_phase w' = TIdle" by auto
    have "task_steps w (evs @ evs') w'" using steps_append [OF c(3) steps_one [OF step]] by simp
    then show ?thesis using IdleCancelled i c
      by (intro exI [of _ PfComplete] exI [of _ evs] exI [of _ "evs @ evs'"] exI [of _ t4] exI [of _ w']) simp
  qed
qed

lemma harness_poll_runs_aux:
  assumes inv: "task_inv w" and idle: "w_phase w = TIdle" and queued: "0 < w_queued w"
    and user: "\<And>w1. task_step w [] w1 \<Longrightarrow> w_phase w1 = TPolling \<Longrightarrow>
      \<exists>ans evs w2. user (w_task w1) = Inr (ans, evs, w_task w2) \<and> task_steps w1 evs w2 \<and>
        w_phase w2 = TPolling \<and> tk_state (w_task w2) \<le> isize_max"
    and drop: "\<And>e w1. task_steps w e w1 \<Longrightarrow> w_phase w1 = TCancelling \<Longrightarrow>
      \<exists>p evs w2. udrop (w_task w1) = Inr (p, evs, w_task w2) \<and> task_steps w1 evs w2 \<and> w_phase w2 = TCancelling"
  shows "\<exists>evs w'. harness_poll user udrop (w_task w) = Inr (evs, w_task w') \<and> task_steps w evs w' \<and> w_phase w' = TIdle"
proof -
  have pos: "0 < handles w" using queued handles_pos by blast
  from task_inv_live [OF inv pos] obtain d where d: "d = decode (tk_state (w_task w))" "t_refs d = handles w" "flags_ok d w" by metis
  then obtain r t where run: "to_running (w_task w) = Inr (r, t)"
    using to_running_returns [of "w_task w"] queued pos by (auto simp: flags_ok_def)
  consider (refused) "r = RunFailed \<or> r = RunDealloc" | (cancelled) "r = RunCancelled" | (success) "r = RunSuccess" by (cases r) auto
  then show ?thesis
  proof cases
    case refused
    let ?w = "w\<lparr>w_task := if r = RunDealloc then harness_dealloc t else t, w_queued := w_queued w - 1\<rparr>"
    have "task_steps w [] ?w" by (rule steps_one [OF poll_refused [OF queued run refused]])
    then show ?thesis using refused run idle
      by (intro exI [of _ "[]"] exI [of _ ?w]) (auto simp: harness_poll_def poll_inner_def)
  next
    case cancelled
    let ?w1 = "w\<lparr>w_task := t, w_queued := w_queued w - 1, w_phase := TCancelling\<rparr>"
    have step: "task_step w [] ?w1" using poll_start [OF queued run] cancelled by simp
    from drop [OF steps_one [OF step]] obtain p evs w2 where
      ud: "udrop (w_task ?w1) = Inr (p, evs, w_task w2)" "task_steps ?w1 evs w2" "w_phase w2 = TCancelling" by auto
    from cancel_task_steps [where w = ?w1 and udrop = udrop and p = p and evs = evs and ?w2.0 = w2, OF task_step_inv [OF step inv] _ ud]
    obtain evs' t4 w' where
      c: "cancel_task udrop t = Inr (evs, t4)" "harness_complete t4 = Inr (evs', w_task w')"
      "task_steps ?w1 (evs @ evs') w'" "w_phase w' = TIdle" by auto
    have "task_steps w (evs @ evs') w'" using steps_append [OF c(3) steps_one [OF step]] by simp
    then show ?thesis using cancelled run c
      by (intro exI [of _ "evs @ evs'"] exI [of _ w']) (simp add: harness_poll_def poll_inner_def)
  next
    case success
    let ?w1 = "w\<lparr>w_task := t, w_queued := w_queued w - 1, w_phase := TPolling\<rparr>"
    have step: "task_step w [] ?w1" using poll_start [OF queued run] success by simp
    have inv1: "task_inv ?w1" by (rule task_step_inv [OF step inv])
    then have stage: "tk_stage t = StRunning"
      using handles_pos(4) [of ?w1] complete_idle [of _ ?w1] by (auto simp: task_inv_def Let_def stage_ok_def)
    from user [OF step] obtain ans e0 w2 where us: "user t = Inr (ans, e0, w_task w2)" "task_steps ?w1 e0 w2"
      "w_phase w2 = TPolling" and room: "tk_state (w_task w2) \<le> isize_max" by auto
    have steps2: "task_steps w e0 w2" using steps_append [OF us(2) steps_one [OF step]] by simp
    have inv2: "task_inv w2" by (rule task_steps_inv [OF us(2) inv1])
    show ?thesis
    proof (cases "ans = AnsPending")
      case False
      from operations_return_inv [OF inv2 room] us(3) obtain r' t' where "poll_finish ans (w_task w2) = Inr (r', t')"
        "r' = PfComplete \<and> ans \<noteq> AnsPending \<longrightarrow> (\<exists>evs t2. harness_complete t' = Inr (evs, t2))"
        unfolding operations_return_def Let_def by blast
      then obtain evs t2 where fin: "harness_complete (snd (poll_store ans (w_task w2))) = Inr (evs, t2)"
        using False poll_finish_ready [OF False, of "w_task w2"] by auto
      let ?w' = "absorb evs (w2\<lparr>w_task := t2, w_phase := TIdle\<rparr>)"
      have "task_step w2 evs ?w'" by (rule poll_complete [OF us(3) poll_finish_ready [OF False] False fin])
      then have "task_steps w (e0 @ evs) ?w'" using steps_append [OF steps_one steps2] by blast
      moreover obtain t5 where "poll_store ans (w_task w2) = (True, t5)"
        using False by (cases ans) (simp_all add: poll_store_def)
      ultimately show ?thesis using success run stage us fin
        by (intro exI [of _ "e0 @ evs"] exI [of _ ?w']) (simp add: harness_poll_def poll_inner_def poll_future_def, simp add: absorb_def)
    next
      case True
      have dr: "\<exists>p evs w3. udrop (w_task v) = Inr (p, evs, w_task w3) \<and> task_steps v evs w3 \<and> w_phase w3 = TCancelling"
        if "task_step w2 [] v" "w_phase v = TCancelling" for v
        using drop [OF steps_append [OF steps_one [OF that(1)] steps2] that(2)] .
      from poll_end_steps [where udrop = udrop and ?e0.0 = e0, OF inv2 us(3) room dr] obtain pr evs1 evs2 t' w' where
        "poll_inner user udrop (w_task w) = Inr (pr, e0 @ evs1, t')"
        "(case pr of PfNotified \<Rightarrow> and_then (drop_reference t') (\<lambda>t2. Inr ((e0 @ evs1) @ [YieldTask], t2))
           | PfComplete \<Rightarrow> and_then (harness_complete t') (\<lambda>(evs2, t2). Inr ((e0 @ evs1) @ evs2, t2))
           | PfDealloc \<Rightarrow> Inr (e0 @ evs1, harness_dealloc t')
           | PfDone \<Rightarrow> Inr (e0 @ evs1, t')) = Inr (e0 @ evs2, w_task w')"
        "task_steps w2 evs2 w'" "w_phase w' = TIdle"
        using success run stage us True by (auto simp: poll_inner_def poll_future_def poll_store_def)
      then show ?thesis
        using steps_append [OF _ steps2, of evs2 w']
        by (intro exI [of _ "e0 @ evs2"] exI [of _ w']) (simp add: harness_poll_def)
    qed
  qed
qed

section \<open>Properties\<close>

text \<open>
  C7: The reference count of a task is, after any interleaving of the operations of its handles, the
  number of its live handles, and its memory is freed exactly when there are none left.
\<close>

theorem task_freed_with_last_handle:
  assumes "task_steps (spawned tid) evs w"
  shows "t_refs (decode (tk_state (w_task w))) = handles w \<and> (tk_freed (w_task w) \<longleftrightarrow> handles w = 0)"
  using task_steps_inv [OF assms spawned_inv] by (simp add: task_inv_def Let_def)

text \<open>
  C27: No handle's operation ever fails an assertion, reads a consumed output or finds its waker
  missing: whenever the state word has room for one more reference, every operation a live handle
  may call returns.
\<close>

theorem task_operations_never_fail:
  assumes "task_steps (spawned tid) evs w" "tk_state (w_task w) \<le> isize_max"
  shows "operations_return w"
  by (rule operations_return_inv [OF task_steps_inv [OF assms(1) spawned_inv] assms(2)])

text \<open>
  C6: The output of a task reaches its join handle: once the task is complete, and whatever its other
  handles do, the first poll of the join handle returns the stored output; before completion it
  registers the waker of the poll and waits.
\<close>

theorem task_output_reaches_joiner:
  assumes "task_steps (spawned tid) e w" "task_steps w e' w'" "w_join w'" "\<not> w_read w'"
  shows "if t_complete (decode (tk_state (w_task w'))) then
      \<exists>out t. join_handle_poll cx (w_task w') = Inr (Ready out, t) \<and> tk_stage t = StConsumed \<and>
        (t_complete (decode (tk_state (w_task w))) \<longrightarrow> tk_stage (w_task w) = StFinished out)
    else \<exists>t. join_handle_poll cx (w_task w') = Inr (Pending, t) \<and> tk_waker t = Some cx \<and> t_join_waker (decode (tk_state t))"
proof -
  have inv: "task_inv w" and inv': "task_inv w'"
    using task_steps_inv [OF assms(1) spawned_inv] task_steps_inv [OF assms(2)] by auto
  have before: "w_join w" "\<not> w_read w"
    using assms(2-4) by (induction rule: task_steps.induct) (auto dest: task_step_mono)
  have held: "t_complete (decode (tk_state (w_task w))) \<Longrightarrow> \<exists>out. output_held out w"
    using task_inv_live [OF inv] handles_pos(3) [OF before(1)] before by (metis stage_ok_def output_held_def)
  show ?thesis
    using join_handle_poll_spec [OF inv' assms(3,4) refl, of cx] held output_held_steps [OF assms(2) inv _ assms(3,4)]
    by (auto simp: output_held_def split: if_splits)
qed

text \<open>
  C1: No wake-up is lost: after a waker of the task was woken the task is complete, or it is in a run
  queue, or it is being polled with a notification that puts it back when the poll ends.
\<close>

theorem task_wakeups_not_lost:
  assumes "task_steps (spawned tid) e w" "wake_by_ref (w_task w) = Inr (evs, t)"
    and "0 < w_wakers w \<or> w_phase w = TPolling" and "w' = absorb evs (w\<lparr>w_task := t\<rparr>)"
  shows "t_complete (decode (tk_state t)) \<or> w_queued w' = 1 \<or>
    w_phase w' \<noteq> TIdle \<and> t_notified (decode (tk_state t)) \<and>
    (\<forall>r t'. poll_finish AnsPending t = Inr (r, t') \<longrightarrow> r = PfNotified \<or> r = PfComplete)"
proof -
  have "task_inv w" using task_steps_inv [OF assms(1) spawned_inv] .
  from wake_by_ref_inv [OF this assms(3,2)] have inv: "task_inv w'" by (simp add: assms(4))
  have t: "w_task w' = t" and "w_wakers w' = w_wakers w" "w_phase w' = w_phase w" by (simp_all add: assms(4) absorb_def)
  with assms(3) handles_pos(1,4) [of w'] have "0 < handles w'" by auto
  from task_inv_live [OF inv this] t have ok: "flags_ok (decode (tk_state t)) w'" by metis
  from assms(2) obtain r s where "transition_to_notified_by_ref (tk_state (w_task w)) = Inr (r, s)" "tk_state t = s"
    by (auto simp: wake_by_ref_eq and_then_eq_Inr)
  from spec_by_ref_Inr [OF this(1), symmetric] this(2)
  have "t_complete (decode (tk_state t)) \<or> t_notified (decode (tk_state t))" by (auto simp: spec_by_ref_def split: if_splits)
  moreover have "r = PfNotified \<or> r = PfComplete" if "poll_finish AnsPending t = Inr (r, t')" "t_notified (decode (tk_state t))" for r t'
    using poll_finish_pending [OF that(1) refl] that(2) by (auto split: if_splits)
  ultimately show ?thesis using ok by (auto simp: flags_ok_def)
qed

text \<open>
  C8: Running a task from a run queue is a run of the step relation: whatever its future does while it
  is polled or dropped, the harness returns, leaves the task idle or complete, and asks the scheduler
  for exactly what the steps ask.
\<close>

theorem harness_poll_runs:
  assumes "task_steps (spawned tid) e w" "w_phase w = TIdle" "0 < w_queued w"
    and "\<And>w1. task_step w [] w1 \<Longrightarrow> w_phase w1 = TPolling \<Longrightarrow>
      \<exists>ans evs w2. user (w_task w1) = Inr (ans, evs, w_task w2) \<and> task_steps w1 evs w2 \<and>
        w_phase w2 = TPolling \<and> tk_state (w_task w2) \<le> isize_max"
    and "\<And>e w1. task_steps w e w1 \<Longrightarrow> w_phase w1 = TCancelling \<Longrightarrow>
      \<exists>p evs w2. udrop (w_task w1) = Inr (p, evs, w_task w2) \<and> task_steps w1 evs w2 \<and> w_phase w2 = TCancelling"
  shows "\<exists>evs w'. harness_poll user udrop (w_task w) = Inr (evs, w_task w') \<and> task_steps w evs w' \<and> w_phase w' = TIdle"
  by (rule harness_poll_runs_aux [OF task_steps_inv [OF assms(1) spawned_inv] assms(2-5)])

section \<open>A run\<close>

definition polling :: "u64 \<Rightarrow> nat tworld" where
  "polling tid = (spawned tid)\<lparr>w_task := (w_task (spawned tid))\<lparr>tk_state := 201\<rparr>, w_queued := 0, w_phase := TPolling\<rparr>"

lemma INITIAL_STATE_eq: "INITIAL_STATE = 204"
  by (simp add: INITIAL_STATE_def REF_ONE_eq task_flags)

lemma spawned_to_running:
  "to_running (w_task (spawned tid)) = Inr (RunSuccess, (w_task (spawned tid))\<lparr>tk_state := 201\<rparr>)"
  by (simp add: to_running_def spawned_def new_task_def cell_new_def state_new_def INITIAL_STATE_eq transition_to_running_def
      running_action_def run_action_eq ts_is_notified_def ts_is_idle_def ts_unset_notified_def ts_set_running_def ts_is_cancelled_def
      task_flags Let_def)

lemma polling_step: "task_step (spawned tid) [] (polling tid)"
  using poll_start [of "spawned tid" RunSuccess, OF _ spawned_to_running]
  by (simp add: polling_def) (simp add: spawned_def)

lemma polling_steps: "task_steps (spawned tid) [] (polling tid)"
  by (rule steps_one [OF polling_step])

lemma polling_facts [simp]:
  "w_phase (polling tid) = TPolling" "tk_state (w_task (polling tid)) = 201" "w_join (polling tid)" "\<not> w_read (polling tid)"
  "w_wakers (polling tid) = 0"
  by (simp_all add: polling_def spawned_def)

theorem task_freed_with_last_handle_witness:
  "t_refs (decode 201) = handles (polling 7) \<and> \<not> tk_freed (w_task (polling 7)) \<and> 0 < handles (polling 7)"
  using task_freed_with_last_handle [OF polling_steps [of 7]] handles_pos(4) [of "polling 7"] by simp

theorem task_operations_never_fail_witness: "operations_return (polling 7)"
  by (rule task_operations_never_fail [OF polling_steps]) (simp add: isize_max_def)

theorem task_output_reaches_joiner_witness:
  "\<exists>t. join_handle_poll 3 (w_task (polling 7)) = Inr (Pending, t) \<and> tk_waker t = Some 3 \<and> t_join_waker (decode (tk_state t))"
  using task_output_reaches_joiner [OF polling_steps [of 7] steps_refl, of 3]
  by (simp add: decode_def flag_bits bit_numeral_rec)

lemma polling_wake: "wake_by_ref (w_task (polling tid)) = Inr ([], (w_task (polling tid))\<lparr>tk_state := 205\<rparr>)"
  by (simp add: wake_by_ref_def transition_to_notified_by_ref_def notified_by_ref_action_def run_action_eq
      ts_is_complete_def ts_is_notified_def ts_is_running_def ts_set_notified_def task_flags)

theorem task_wakeups_not_lost_witness:
  "\<exists>t w'. wake_by_ref (w_task (polling 7)) = Inr ([], t) \<and> w' = absorb [] ((polling 7)\<lparr>w_task := t\<rparr>) \<and>
    (t_complete (decode (tk_state t)) \<or> w_queued w' = 1 \<or>
      w_phase w' \<noteq> TIdle \<and> t_notified (decode (tk_state t)) \<and>
      (\<forall>r t'. poll_finish AnsPending t = Inr (r, t') \<longrightarrow> r = PfNotified \<or> r = PfComplete))"
  using task_wakeups_not_lost [OF polling_steps polling_wake _ refl, of 7] polling_wake by simp

lemma spawned_facts [simp]:
  "w_phase (spawned tid) = TIdle" "0 < w_queued (spawned tid)" "w_wakers (spawned tid) = 0"
  by (simp_all add: spawned_def)

lemma poll_start_only:
  assumes step: "task_step (spawned tid) [] w1" and phase: "w_phase w1 = TPolling"
  shows "w1 = polling tid"
  using step
proof cases
  case (poll_start r t)
  then have "t = (w_task (spawned tid))\<lparr>tk_state := 201\<rparr>" "r = RunSuccess"
    using spawned_to_running [of tid, where 'a = nat] by simp_all
  with poll_start show ?thesis by (simp add: polling_def) (simp add: spawned_def)
qed (use phase in \<open>simp_all add: absorb_def\<close>)

theorem harness_poll_runs_witness:
  "\<exists>evs w'. harness_poll (\<lambda>t. Inr (AnsReady (5 :: nat), [], t)) (\<lambda>t. Inr (False, [], t)) (w_task (spawned 7)) = Inr (evs, w_task w') \<and>
     task_steps (spawned 7) evs w' \<and> w_phase w' = TIdle"
proof (rule harness_poll_runs [OF steps_refl])
  fix w1 :: "nat tworld" assume "task_step (spawned 7) [] w1" "w_phase w1 = TPolling"
  then have "w1 = polling 7" by (rule poll_start_only)
  then show "\<exists>ans evs w2. Inr (AnsReady 5, [], w_task w1) = Inr (ans, evs, w_task w2) \<and> task_steps w1 evs w2 \<and>
      w_phase w2 = TPolling \<and> tk_state (w_task w2) \<le> isize_max"
    by (intro exI [of _ "AnsReady 5"] exI [of _ "[]"] exI [of _ w1]) (simp add: steps_refl isize_max_def)
next
  fix e and w1 :: "nat tworld" assume "w_phase w1 = TCancelling"
  then show "\<exists>p evs w2. Inr (False, [], w_task w1) = Inr (p, evs, w_task w2) \<and> task_steps w1 evs w2 \<and> w_phase w2 = TCancelling"
    by (intro exI [of _ False] exI [of _ "[]"] exI [of _ w1]) (simp add: steps_refl)
qed simp_all

end
