(* ===== verification/Intrusive_List.thy ===== *)
theory Intrusive_List
  imports Prelude
begin

text \<open>
  \<open>util/linked_list.rs\<close>: the intrusive doubly linked list that holds the waiters of the
  semaphore, of \<open>Notify\<close> and of the broadcast channel, and the tasks owned by a scheduler. The nodes
  live in a store of \<open>links\<close> indexed by their address; a list is a pair of optional addresses. The
  relation \<open>dll h l xs\<close> says that \<open>l\<close> represents the addresses \<open>xs\<close>, head first. Every operation is
  shown to act on \<open>xs\<close> as the list functions \<open>wl_*\<close> do, which the clients' models use; the contract
  is the locale \<open>wait_queue\<close>, interpreted on both levels.
\<close>

section \<open>The pointer structure\<close>

record 'p links =
  l_prev :: "'p option"
  l_next :: "'p option"

type_synonym 'p store = "'p \<Rightarrow> 'p links"

record 'p linked_list =
  ll_head :: "'p option"
  ll_tail :: "'p option"

definition pointers_new :: "'p links" where
  "pointers_new = \<lparr>l_prev = None, l_next = None\<rparr>"

definition get_prev :: "'p store \<Rightarrow> 'p \<Rightarrow> 'p option" where
  "get_prev h p = l_prev (h p)"

definition get_next :: "'p store \<Rightarrow> 'p \<Rightarrow> 'p option" where
  "get_next h p = l_next (h p)"

definition set_prev :: "'p \<Rightarrow> 'p option \<Rightarrow> 'p store \<Rightarrow> 'p store" where
  "set_prev p v h = h(p := (h p)\<lparr>l_prev := v\<rparr>)"

definition set_next :: "'p \<Rightarrow> 'p option \<Rightarrow> 'p store \<Rightarrow> 'p store" where
  "set_next p v h = h(p := (h p)\<lparr>l_next := v\<rparr>)"

definition ll_new :: "'p linked_list" where
  "ll_new = \<lparr>ll_head = None, ll_tail = None\<rparr>"

definition ll_push_front ::
    "'p store \<Rightarrow> 'p linked_list \<Rightarrow> 'p \<Rightarrow> ('p store \<times> 'p linked_list) outcome" where
  "ll_push_front h l ptr =
     (if ll_head l = Some ptr then Inl AssertFailed
      else
        let h1 = set_prev ptr None (set_next ptr (ll_head l) h);
            h2 = (case ll_head l of Some h0 \<Rightarrow> set_prev h0 (Some ptr) h1 | None \<Rightarrow> h1);
            l1 = l\<lparr>ll_head := Some ptr\<rparr>;
            l2 = (if ll_tail l1 = None then l1\<lparr>ll_tail := Some ptr\<rparr> else l1)
        in Inr (h2, l2))"

definition ll_pop_back ::
    "'p store \<Rightarrow> 'p linked_list \<Rightarrow> ('p store \<times> 'p linked_list) \<times> 'p option" where
  "ll_pop_back h l =
     (case ll_tail l of
        None \<Rightarrow> ((h, l), None)
      | Some lst \<Rightarrow>
          let l1 = l\<lparr>ll_tail := get_prev h lst\<rparr>;
              (h2, l2) = (case get_prev h lst of
                            Some pr \<Rightarrow> (set_next pr None h, l1)
                          | None \<Rightarrow> (h, l1\<lparr>ll_head := None\<rparr>));
              h3 = set_next lst None (set_prev lst None h2)
          in ((h3, l2), Some lst))"

definition ll_is_empty :: "'p linked_list \<Rightarrow> bool outcome" where
  "ll_is_empty l =
     (if ll_head l \<noteq> None then Inr False
      else if ll_tail l \<noteq> None then Inl AssertFailed
      else Inr True)"

definition ll_last :: "'p linked_list \<Rightarrow> 'p option" where
  "ll_last l = ll_tail l"

text \<open>
  \<open>remove\<close> works on a node of the list, or on a node that is in no list (its pointers are null):
  then it changes nothing and answers \<open>None\<close>. The two \<open>debug_assert\<close>s are the \<open>Inl\<close> branches.
\<close>

definition ll_remove ::
    "'p store \<Rightarrow> 'p linked_list \<Rightarrow> 'p \<Rightarrow> (('p store \<times> 'p linked_list) \<times> 'p option) outcome" where
  "ll_remove h l node =
     and_then
       (case get_prev h node of
          Some pr \<Rightarrow>
            if get_next h pr \<noteq> Some node then Inl AssertFailed
            else Inr (Some (set_next pr (get_next h node) h, l))
        | None \<Rightarrow>
            if ll_head l \<noteq> Some node then Inr None
            else Inr (Some (h, l\<lparr>ll_head := get_next h node\<rparr>)))
       (\<lambda>r1. case r1 of
          None \<Rightarrow> Inr ((h, l), None)
        | Some (h1, l1) \<Rightarrow>
            and_then
              (case get_next h1 node of
                 Some nx \<Rightarrow>
                   if get_prev h1 nx \<noteq> Some node then Inl AssertFailed
                   else Inr (Some (set_prev nx (get_prev h1 node) h1, l1))
               | None \<Rightarrow>
                   if ll_tail l1 \<noteq> Some node then Inr None
                   else Inr (Some (h1, l1\<lparr>ll_tail := get_prev h1 node\<rparr>)))
              (\<lambda>r2. case r2 of
                 None \<Rightarrow> Inr ((h1, l1), None)
               | Some (h2, l2) \<Rightarrow>
                   Inr ((set_prev node None (set_next node None h2), l2), Some node)))"

text \<open>The clients drain a list by popping until it is empty.\<close>

partial_function (option) ll_drain ::
    "'p store \<Rightarrow> 'p linked_list \<Rightarrow> 'p list \<Rightarrow> (('p store \<times> 'p linked_list) \<times> 'p list) option" where
  "ll_drain h l acc =
     (case ll_pop_back h l of
        ((h1, l1), None) \<Rightarrow> Some ((h1, l1), rev acc)
      | ((h1, l1), Some p) \<Rightarrow> ll_drain h1 l1 (p # acc))"

section \<open>The list it represents\<close>

fun dseg :: "'p store \<Rightarrow> 'p option \<Rightarrow> 'p list \<Rightarrow> 'p option \<Rightarrow> bool" where
  "dseg h p [] n = True"
| "dseg h p (x # xs) n \<longleftrightarrow>
     h x = \<lparr>l_prev = p, l_next = or_else (hd_opt xs) n\<rparr> \<and> dseg h (Some x) xs n"

definition dll :: "'p store \<Rightarrow> 'p linked_list \<Rightarrow> 'p list \<Rightarrow> bool" where
  "dll h l xs \<longleftrightarrow>
     distinct xs \<and> dseg h None xs None \<and>
     l = \<lparr>ll_head = hd_opt xs, ll_tail = last_opt xs\<rparr>"

text \<open>A node outside every list has null pointers.\<close>

definition unlinked :: "'p store \<Rightarrow> 'p \<Rightarrow> bool" where
  "unlinked h p \<longleftrightarrow> h p = pointers_new"

lemma dseg_append [simp]:
  "dseg h p (xs @ ys) n \<longleftrightarrow>
     dseg h p xs (or_else (hd_opt ys) n) \<and> dseg h (or_else (last_opt xs) p) ys n"
  by (induction xs arbitrary: p) (auto simp: or_else_def split: option.splits)

lemma dseg_frame: "q \<notin> set xs \<Longrightarrow> dseg (h(q := v)) p xs n = dseg h p xs n"
  by (induction xs arbitrary: p) auto

lemma dll_Nil [simp]: "dll h l [] \<longleftrightarrow> l = ll_new"
  by (simp add: dll_def ll_new_def)

lemmas link_access = get_prev_def get_next_def set_prev_def set_next_def

lemma dll_push_front:
  assumes "dll h l xs" and "p \<notin> set xs"
  shows "\<exists>h' l'. ll_push_front h l p = Inr (h', l') \<and> dll h' l' (p # xs) \<and>
                 (\<forall>q. q \<notin> set (p # xs) \<longrightarrow> h' q = h q)"
proof (cases xs)
  case Nil
  with assms show ?thesis
    by (simp add: dll_def ll_push_front_def link_access)
next
  case (Cons y ys)
  with assms have "p \<noteq> y" "p \<notin> set ys" "y \<notin> set ys" by (auto simp: dll_def)
  with assms Cons show ?thesis
    by (auto simp: dll_def ll_push_front_def link_access dseg_frame or_else_def
        split: option.splits)
qed

lemma dll_pop_back_snoc:
  assumes "dll h l (xs @ [p])"
  shows "\<exists>h' l'. ll_pop_back h l = ((h', l'), Some p) \<and> dll h' l' xs \<and> unlinked h' p \<and>
                 (\<forall>q. q \<notin> set (xs @ [p]) \<longrightarrow> h' q = h q)"
proof (cases xs rule: rev_cases)
  case Nil
  with assms show ?thesis
    by (simp add: dll_def ll_pop_back_def link_access ll_new_def unlinked_def pointers_new_def)
next
  case (snoc ys y)
  with assms have d: "p \<noteq> y" "p \<notin> set ys" "y \<notin> set ys" by (auto simp: dll_def)
  with assms snoc show ?thesis
    by (auto simp: dll_def ll_pop_back_def link_access dseg_frame unlinked_def pointers_new_def)
qed

lemma dll_pop_back_Nil: "dll h l [] \<Longrightarrow> ll_pop_back h l = ((h, l), None)"
  by (simp add: ll_pop_back_def ll_new_def)

lemma dll_is_empty: "dll h l xs \<Longrightarrow> ll_is_empty l = Inr (xs = [])"
  by (cases xs) (auto simp: dll_def ll_is_empty_def)

lemma dll_last: "dll h l xs \<Longrightarrow> ll_last l = last_opt xs"
  by (simp add: dll_def ll_last_def)

lemma dll_remove_mem:
  assumes "dll h l (xs @ p # ys)"
  shows "\<exists>h' l'. ll_remove h l p = Inr ((h', l'), Some p) \<and> dll h' l' (xs @ ys) \<and> unlinked h' p \<and>
                 (\<forall>q. q \<notin> set (xs @ p # ys) \<longrightarrow> h' q = h q)"
proof -
  from assms have d: "distinct (xs @ p # ys)" and l: "l = \<lparr>ll_head = hd_opt (xs @ p # ys),
      ll_tail = last_opt (xs @ p # ys)\<rparr>"
    and s: "dseg h None xs (Some p)" "h p = \<lparr>l_prev = last_opt xs, l_next = hd_opt ys\<rparr>"
      "dseg h (Some p) ys None"
    by (auto simp: dll_def)
  show ?thesis
  proof (cases xs rule: rev_cases)
    case Nil
    show ?thesis
      using d l s Nil
      by (cases ys) (auto simp: dll_def ll_remove_def link_access dseg_frame unlinked_def
          pointers_new_def)
  next
    case (snoc as a)
    show ?thesis
      using d l s snoc
      by (cases ys) (auto simp: dll_def ll_remove_def link_access dseg_frame unlinked_def
          pointers_new_def)
  qed
qed

lemma dll_remove_unlinked:
  assumes "dll h l xs" and "p \<notin> set xs" and "unlinked h p"
  shows "ll_remove h l p = Inr ((h, l), None)"
  using assms
  by (cases xs) (auto simp: dll_def ll_remove_def link_access unlinked_def pointers_new_def)


section \<open>The contract\<close>

text \<open>The list operations the clients' models use in place of the pointer operations.\<close>

definition wl_push_front :: "'p \<Rightarrow> 'p list \<Rightarrow> 'p list" where
  "wl_push_front p xs = p # xs"

definition wl_pop_back :: "'p list \<Rightarrow> 'p list \<times> 'p option" where
  "wl_pop_back xs = (if xs = [] then ([], None) else (butlast xs, Some (last xs)))"

definition wl_remove :: "'p \<Rightarrow> 'p list \<Rightarrow> 'p list \<times> 'p option" where
  "wl_remove p xs = (remove1 p xs, if p \<in> set xs then Some p else None)"

text \<open>Programs over a queue, run with whatever operations implement it.\<close>

datatype 'p queue_op = PushFront 'p | PopBack | Remove 'p

fun q_exec ::
    "('h \<Rightarrow> 'l \<Rightarrow> 'p \<Rightarrow> ('h \<times> 'l) outcome) \<Rightarrow> ('h \<Rightarrow> 'l \<Rightarrow> ('h \<times> 'l) \<times> 'p option) \<Rightarrow>
     ('h \<Rightarrow> 'l \<Rightarrow> 'p \<Rightarrow> (('h \<times> 'l) \<times> 'p option) outcome) \<Rightarrow>
     'h \<times> 'l \<Rightarrow> 'p queue_op \<Rightarrow> (('h \<times> 'l) \<times> 'p option) outcome" where
  "q_exec push pop rem (h, l) (PushFront p) = and_then (push h l p) (\<lambda>s. Inr (s, None))"
| "q_exec push pop rem (h, l) PopBack = Inr (pop h l)"
| "q_exec push pop rem (h, l) (Remove p) = rem h l p"

fun q_run ::
    "('h \<Rightarrow> 'l \<Rightarrow> 'p \<Rightarrow> ('h \<times> 'l) outcome) \<Rightarrow> ('h \<Rightarrow> 'l \<Rightarrow> ('h \<times> 'l) \<times> 'p option) \<Rightarrow>
     ('h \<Rightarrow> 'l \<Rightarrow> 'p \<Rightarrow> (('h \<times> 'l) \<times> 'p option) outcome) \<Rightarrow>
     'h \<times> 'l \<Rightarrow> 'p queue_op list \<Rightarrow> (('h \<times> 'l) \<times> 'p option list) outcome" where
  "q_run push pop rem s [] = Inr (s, [])"
| "q_run push pop rem s (c # cs) =
     and_then (q_exec push pop rem s c) (\<lambda>(s1, r).
     and_then (q_run push pop rem s1 cs) (\<lambda>(s2, rs). Inr (s2, r # rs)))"

fun wl_exec :: "'p list \<Rightarrow> 'p queue_op \<Rightarrow> 'p list \<times> 'p option" where
  "wl_exec xs (PushFront p) = (wl_push_front p xs, None)"
| "wl_exec xs PopBack = wl_pop_back xs"
| "wl_exec xs (Remove p) = wl_remove p xs"

fun wl_run :: "'p list \<Rightarrow> 'p queue_op list \<Rightarrow> 'p list \<times> 'p option list" where
  "wl_run xs [] = (xs, [])"
| "wl_run xs (c # cs) =
     (let (xs1, r) = wl_exec xs c; (xs2, rs) = wl_run xs1 cs in (xs2, r # rs))"

text \<open>The clients' discipline: a node is pushed only while it is in no list.\<close>

fun wl_ok :: "'p list \<Rightarrow> 'p queue_op list \<Rightarrow> bool" where
  "wl_ok xs [] = True"
| "wl_ok xs (c # cs) \<longleftrightarrow>
     (case c of PushFront p \<Rightarrow> p \<notin> set xs | _ \<Rightarrow> True) \<and> wl_ok (fst (wl_exec xs c)) cs"

locale wait_queue =
  fixes new :: 'l
    and push_front :: "'h \<Rightarrow> 'l \<Rightarrow> 'p \<Rightarrow> ('h \<times> 'l) outcome"
    and pop_back :: "'h \<Rightarrow> 'l \<Rightarrow> ('h \<times> 'l) \<times> 'p option"
    and remove :: "'h \<Rightarrow> 'l \<Rightarrow> 'p \<Rightarrow> (('h \<times> 'l) \<times> 'p option) outcome"
    and rep :: "'h \<Rightarrow> 'l \<Rightarrow> 'p list \<Rightarrow> bool"
  assumes push_front_rep:
      "rep h l xs \<Longrightarrow> p \<notin> set xs \<Longrightarrow>
         \<exists>h' l'. push_front h l p = Inr (h', l') \<and> rep h' l' (p # xs)"
    and pop_back_rep_Nil: "rep h l [] \<Longrightarrow> pop_back h l = ((h, l), None)"
    and pop_back_rep_snoc:
      "rep h l (xs @ [p]) \<Longrightarrow> \<exists>h' l'. pop_back h l = ((h', l'), Some p) \<and> rep h' l' xs"
    and remove_rep_mem:
      "rep h l (xs @ p # ys) \<Longrightarrow>
         \<exists>h' l'. remove h l p = Inr ((h', l'), Some p) \<and> rep h' l' (xs @ ys)"
    and remove_rep_other: "rep h l xs \<Longrightarrow> p \<notin> set xs \<Longrightarrow> remove h l p = Inr ((h, l), None)"
    and rep_distinct: "rep h l xs \<Longrightarrow> distinct xs"
begin

lemma exec_rep:
  assumes "rep h l xs" and "case c of PushFront p \<Rightarrow> p \<notin> set xs | _ \<Rightarrow> True"
  shows "\<exists>h' l'. q_exec push_front pop_back remove (h, l) c = Inr ((h', l'), snd (wl_exec xs c)) \<and>
                 rep h' l' (fst (wl_exec xs c))"
proof (cases c)
  case (PushFront p)
  with assms push_front_rep [of h l xs p] show ?thesis by (auto simp: wl_push_front_def)
next
  case PopBack
  with assms(1) show ?thesis
    by (cases xs rule: rev_cases)
       (auto simp: wl_pop_back_def pop_back_rep_Nil dest: pop_back_rep_snoc)
next
  case (Remove p)
  show ?thesis
  proof (cases "p \<in> set xs")
    case True
    then obtain as bs where xs: "xs = as @ p # bs" and "p \<notin> set as"
      by (meson split_list_first)
    then have "remove1 p xs = as @ bs" by (simp add: remove1_append)
    with Remove assms(1) xs True show ?thesis
      by (auto simp: wl_remove_def dest: remove_rep_mem)
  next
    case False
    with Remove assms(1) show ?thesis
      by (auto simp: wl_remove_def remove_rep_other remove1_idem)
  qed
qed

lemma run_rep:
  assumes "rep h l xs" and "wl_ok xs cs"
  shows "\<exists>h' l'. q_run push_front pop_back remove (h, l) cs = Inr ((h', l'), snd (wl_run xs cs)) \<and>
                 rep h' l' (fst (wl_run xs cs))"
  using assms
proof (induction cs arbitrary: h l xs)
  case Nil
  then show ?case by simp
next
  case (Cons c cs)
  then obtain h1 l1 where
    step: "q_exec push_front pop_back remove (h, l) c = Inr ((h1, l1), snd (wl_exec xs c))"
    and rep1: "rep h1 l1 (fst (wl_exec xs c))"
    using exec_rep [of h l xs c] by auto
  from Cons.IH [OF rep1] Cons.prems(2) obtain h2 l2 where
    "q_run push_front pop_back remove (h1, l1) cs
       = Inr ((h2, l2), snd (wl_run (fst (wl_exec xs c)) cs))"
    "rep h2 l2 (fst (wl_run (fst (wl_exec xs c)) cs))"
    by auto
  with step show ?case by (auto simp: split_beta Let_def)
qed

end

text \<open>
  The pointer list satisfies the contract in every store where the nodes outside the list have
  null pointers.
\<close>

definition ll_rep :: "'p store \<Rightarrow> 'p linked_list \<Rightarrow> 'p list \<Rightarrow> bool" where
  "ll_rep h l xs \<longleftrightarrow> dll h l xs \<and> (\<forall>q. q \<notin> set xs \<longrightarrow> unlinked h q)"

interpretation lq: wait_queue ll_new ll_push_front ll_pop_back ll_remove ll_rep
proof unfold_locales
  fix h :: "'p store" and l xs p
  assume "ll_rep h l xs" "p \<notin> set xs"
  then show "\<exists>h' l'. ll_push_front h l p = Inr (h', l') \<and> ll_rep h' l' (p # xs)"
    using dll_push_front [of h l xs p] by (fastforce simp: ll_rep_def unlinked_def)
next
  fix h :: "'p store" and l
  assume "ll_rep h l []"
  then show "ll_pop_back h l = ((h, l), None)"
    by (simp add: ll_rep_def ll_pop_back_def ll_new_def)
next
  fix h :: "'p store" and l xs p
  assume "ll_rep h l (xs @ [p])"
  then show "\<exists>h' l'. ll_pop_back h l = ((h', l'), Some p) \<and> ll_rep h' l' xs"
    using dll_pop_back_snoc [of h l xs p] by (fastforce simp: ll_rep_def unlinked_def)
next
  fix h :: "'p store" and l xs p ys
  assume "ll_rep h l (xs @ p # ys)"
  then show "\<exists>h' l'. ll_remove h l p = Inr ((h', l'), Some p) \<and> ll_rep h' l' (xs @ ys)"
    using dll_remove_mem [of h l xs p ys] by (fastforce simp: ll_rep_def unlinked_def)
next
  fix h :: "'p store" and l xs p
  assume "ll_rep h l xs" "p \<notin> set xs"
  then show "ll_remove h l p = Inr ((h, l), None)"
    by (auto simp: ll_rep_def intro: dll_remove_unlinked)
next
  fix h :: "'p store" and l xs
  assume "ll_rep h l xs"
  then show "distinct xs" by (simp add: ll_rep_def dll_def)
qed

text \<open>So do the list functions themselves, on distinct lists: the clients' level.\<close>

interpretation wl: wait_queue "[]" "\<lambda>(_::unit) xs p. Inr ((), wl_push_front p xs)"
    "\<lambda>_ xs. map_prod (\<lambda>ys. ((), ys)) id (wl_pop_back xs)"
    "\<lambda>_ xs p. Inr (map_prod (\<lambda>ys. ((), ys)) id (wl_remove p xs))"
    "\<lambda>_ l xs. l = xs \<and> distinct xs"
  by unfold_locales
     (auto simp: wl_push_front_def wl_pop_back_def wl_remove_def remove1_append remove1_idem)

section \<open>Properties\<close>

lemma ll_drain_rep:
  "dll h l xs \<Longrightarrow> \<exists>h' l'. ll_drain h l acc = Some ((h', l'), rev acc @ rev xs) \<and> dll h' l' []"
proof (induction xs arbitrary: h l acc rule: rev_induct)
  case Nil
  then show ?case
    by (subst ll_drain.simps) (simp add: ll_pop_back_def ll_new_def)
next
  case (snoc p xs)
  from dll_pop_back_snoc [OF snoc.prems] obtain h1 l1 where
    pop: "ll_pop_back h l = ((h1, l1), Some p)" and rep1: "dll h1 l1 xs"
    by blast
  from snoc.IH [OF rep1, of "p # acc"] pop show ?case
    by (subst ll_drain.simps) simp
qed

text \<open>
  C25: started on a list that represents \<open>xs\<close>, any program of \<open>push_front\<close>, \<open>pop_back\<close> and \<open>remove\<close>
  that pushes only nodes outside the list runs without a panic, answers every call as the same
  program does on the plain list \<open>xs\<close>, and ends in a list that represents its result.
\<close>

theorem linked_list_refines_list:
  assumes "ll_rep h l xs" and "wl_ok xs cs"
  shows "\<exists>h' l'. q_run ll_push_front ll_pop_back ll_remove (h, l) cs
                   = Inr ((h', l'), snd (wl_run xs cs)) \<and>
                 ll_rep h' l' (fst (wl_run xs cs))"
  using assms by (rule lq.run_rep)

theorem linked_list_refines_list_witness:
  "\<exists>h' l'. q_run ll_push_front ll_pop_back ll_remove (\<lambda>_::nat. pointers_new, ll_new)
      [PushFront 1, PushFront 2, PushFront 3, Remove 2, PopBack, PopBack, PopBack]
      = Inr ((h', l'), [None, None, None, Some 2, Some 1, Some 3, None]) \<and> ll_rep h' l' []"
proof -
  have rep: "ll_rep (\<lambda>_::nat. pointers_new) ll_new []"
    by (simp add: ll_rep_def unlinked_def)
  have ok: "wl_ok [] [PushFront (1::nat), PushFront 2, PushFront 3, Remove 2, PopBack, PopBack, PopBack]"
    by (simp add: wl_push_front_def wl_remove_def wl_pop_back_def)
  show ?thesis
    using linked_list_refines_list [OF rep ok]
    by (simp add: wl_push_front_def wl_remove_def wl_pop_back_def)
qed

text \<open>
  draining a list (popping until it is empty, the loop of \<open>notify_waiters\<close>, \<open>close\<close>,
  \<open>notify_rx\<close> and \<open>close_and_shutdown_all\<close>) always ends, yields every node once, the oldest first,
  and leaves the empty list.
\<close>

lemma drain_terminates_oldest_first:
  assumes "dll h l xs"
  shows "\<exists>h' l'. ll_drain h l [] = Some ((h', l'), rev xs) \<and> dll h' l' []"
  using ll_drain_rep [OF assms, of "[]"] by simp

lemma drain_terminates_oldest_first_witness:
  "\<exists>h' l'. ll_drain ((\<lambda>_::nat. pointers_new)(7 := \<lparr>l_prev = None, l_next = None\<rparr>))
             \<lparr>ll_head = Some 7, ll_tail = Some 7\<rparr> [] = Some ((h', l'), [7]) \<and> dll h' l' []"
proof -
  have "dll ((\<lambda>_::nat. pointers_new)(7 := \<lparr>l_prev = None, l_next = None\<rparr>))
          \<lparr>ll_head = Some 7, ll_tail = Some 7\<rparr> [7]"
    by (simp add: dll_def)
  from drain_terminates_oldest_first [OF this] show ?thesis by simp
qed

end
