(* ===== verification/Scheduler.thy ===== *)
theory Scheduler
  imports Task_Harness Intrusive_List "HOL-Library.Monad_Syntax"
begin

text \<open>
  The scheduler: \<open>runtime/spawner.rs\<close> (\<open>BasicScheduler\<close>, \<open>Core\<close>, \<open>Context\<close>, \<open>CoreGuard\<close>, \<open>Spawner\<close>, \<open>Shared\<close>) with
  \<open>OwnedTasks\<close> of \<open>runtime/task/list.rs\<close>. Tasks are known by numbers; \<open>sc_tasks\<close> holds the world of each
  task, \<open>sc_owner\<close> the \<open>owner_id\<close> of its header. The core of the scheduler is in one of three places, as in
  the code: in the cell of the scheduler (\<open>sc_core\<close>), in the cell of the thread-local context while a task
  runs (\<open>cx_core\<close>), or a variable of the loop. What a task does while it runs is a parameter \<open>run\<close> of the
  loops: a function on the whole scheduler, with a contract as a hypothesis of the theorems.
  \<open>sc_notifies\<close> counts the calls of \<open>notify_one\<close> on the scheduler's \<open>Notify\<close>. The relation \<open>sched_run\<close> collects
  the states it can be in until it is shut down; the loops are shown to stay within it.
\<close>

section \<open>State\<close>

type_synonym u32 = "32 word"

record owned =
  ow_list :: "nat list"
  ow_closed :: bool
  ow_id :: u64

record core =
  c_tasks :: "nat list"
  c_tick :: u32
  c_unhandled :: bool

record 'o sched =
  sc_core :: "core option"
  cx_core :: "core option"
  cx_current :: bool
  sh_queue :: "nat list option"
  sh_woken :: bool
  sh_owned :: owned
  sc_entered :: bool
  sc_notifies :: nat
  sc_owner :: "nat \<Rightarrow> u64"
  sc_tasks :: "nat \<Rightarrow> 'o tworld option"

section \<open>The list of owned tasks\<close>

text \<open>\<open>get_next_id\<close> fetches and increments the global counter, again when it got \<open>0\<close>.\<close>

definition get_next_id :: "u64 \<Rightarrow> u64 \<times> u64" where
  "get_next_id n = (if n \<noteq> 0 then (n, n + 1) else (n + 1, n + 1 + 1))"

definition owned_new :: "u64 \<Rightarrow> owned \<times> u64" where
  "owned_new n = (case get_next_id n of (k, n') \<Rightarrow> (\<lparr>ow_list = [], ow_closed = False, ow_id = k\<rparr>, n'))"

definition owned_is_empty :: "owned \<Rightarrow> bool" where
  "owned_is_empty ow \<longleftrightarrow> ow_list ow = []"

text \<open>\<open>remove\<close>: a task that was never bound (owner \<open>0\<close>) is nobody's; one of another list is a bug.\<close>

definition owned_remove :: "u64 \<Rightarrow> nat \<Rightarrow> owned \<Rightarrow> (nat option \<times> owned) outcome" where
  "owned_remove owner i ow =
     (if owner = 0 then Inr (None, ow)
      else and_then (ensure (owner = ow_id ow) AssertFailed) (\<lambda>_.
        case wl_remove i (ow_list ow) of (xs, r) \<Rightarrow> Inr (r, ow\<lparr>ow_list := xs\<rparr>)))"

definition assert_owner :: "u64 \<Rightarrow> owned \<Rightarrow> unit outcome" where
  "assert_owner owner ow = ensure (owner = ow_id ow) AssertFailed"

definition owned_pop :: "owned \<Rightarrow> nat option \<times> owned" where
  "owned_pop ow = (case wl_pop_back (ow_list ow) of (xs, r) \<Rightarrow> (r, ow\<lparr>ow_list := xs\<rparr>))"

text \<open>\<open>close_and_shutdown_all\<close>, over what \<open>shutdown\<close> of a task does to the scheduler.\<close>

partial_function (option) shutdown_loop ::
    "(nat \<Rightarrow> 'o sched \<Rightarrow> 'o sched outcome) \<Rightarrow> 'o sched \<Rightarrow> 'o sched outcome option" where
  "shutdown_loop shut s =
     (case owned_pop (sh_owned s) of
        (None, ow) \<Rightarrow> Some (Inr (s\<lparr>sh_owned := ow\<rparr>))
      | (Some i, ow) \<Rightarrow> (case shut i (s\<lparr>sh_owned := ow\<rparr>) of
          Inl e \<Rightarrow> Some (Inl e) | Inr s' \<Rightarrow> shutdown_loop shut s'))"

definition close_and_shutdown_all ::
    "(nat \<Rightarrow> 'o sched \<Rightarrow> 'o sched outcome) \<Rightarrow> 'o sched \<Rightarrow> 'o sched outcome option" where
  "close_and_shutdown_all shut s = shutdown_loop shut (s\<lparr>sh_owned := (sh_owned s)\<lparr>ow_closed := True\<rparr>\<rparr>)"

section \<open>Queues\<close>

definition core_new :: core where
  "core_new = \<lparr>c_tasks = [], c_tick = 0, c_unhandled = False\<rparr>"

definition sched_new :: "u64 \<Rightarrow> 'o sched" where
  "sched_new n = \<lparr>sc_core = Some core_new, cx_core = None, cx_current = False, sh_queue = Some [], sh_woken = False,
     sh_owned = fst (owned_new n), sc_entered = False, sc_notifies = 0, sc_owner = (\<lambda>_. 0), sc_tasks = (\<lambda>_. None)\<rparr>"

definition push_task :: "nat \<Rightarrow> core \<Rightarrow> core" where
  "push_task i c = c\<lparr>c_tasks := c_tasks c @ [i]\<rparr>"

definition pop_task :: "core \<Rightarrow> nat option \<times> core" where
  "pop_task c = (case c_tasks c of [] \<Rightarrow> (None, c) | i # is \<Rightarrow> (Some i, c\<lparr>c_tasks := is\<rparr>))"

definition spawner_pop :: "'o sched \<Rightarrow> nat option \<times> 'o sched" where
  "spawner_pop s = (case sh_queue s of Some (i # is) \<Rightarrow> (Some i, s\<lparr>sh_queue := Some is\<rparr>) | _ \<Rightarrow> (None, s))"

definition sched_waker_ref :: "'o sched \<Rightarrow> 'o sched" where
  "sched_waker_ref s = s\<lparr>sh_woken := True\<rparr>"

definition sched_wake :: "'o sched \<Rightarrow> 'o sched" where
  "sched_wake s = s\<lparr>sh_woken := True\<rparr>"

definition reset_woken :: "'o sched \<Rightarrow> bool \<times> 'o sched" where
  "reset_woken s = (sh_woken s, s\<lparr>sh_woken := False\<rparr>)"

text \<open>
  \<open>schedule\<close>: into the core of the current context, or else into the shared queue. The flag is false when
  there was neither core nor queue, and the handle was dropped.
\<close>

definition schedule :: "nat \<Rightarrow> 'o sched \<Rightarrow> bool \<times> 'o sched" where
  "schedule i s =
     (if cx_current s then
        (case cx_core s of Some c \<Rightarrow> (True, s\<lparr>cx_core := Some (push_task i c)\<rparr>) | None \<Rightarrow> (False, s))
      else
        (case sh_queue s of Some q \<Rightarrow> (True, s\<lparr>sh_queue := Some (q @ [i])\<rparr>) | None \<Rightarrow> (False, s)))"

text \<open>\<open>bind\<close> for an open list and \<open>spawn\<close>; the closed list is \<open>bind_closed\<close> below.\<close>

definition bind_open :: "nat \<Rightarrow> u64 \<Rightarrow> 'o sched \<Rightarrow> 'o sched" where
  "bind_open i tid s = s\<lparr>sc_owner := (sc_owner s)(i := ow_id (sh_owned s)),
     sh_owned := (sh_owned s)\<lparr>ow_list := wl_push_front i (ow_list (sh_owned s))\<rparr>,
     sc_tasks := (sc_tasks s)(i \<mapsto> spawned tid)\<rparr>"

text \<open>With the list closed the \<open>Notified\<close> is dropped and the task shut down before the caller gets the join handle.\<close>

definition bind_closed :: "('o task \<Rightarrow> (bool \<times> effect list \<times> 'o task) outcome) \<Rightarrow> u64 \<Rightarrow> (effect list \<times> 'o task) outcome" where
  "bind_closed udrop tid = and_then (task_drop (new_task tid)) (\<lambda>t. task_shutdown udrop t)"

definition spawn :: "('o task \<Rightarrow> (bool \<times> effect list \<times> 'o task) outcome) \<Rightarrow> nat \<Rightarrow> u64 \<Rightarrow> 'o sched \<Rightarrow> 'o sched outcome" where
  "spawn udrop i tid s =
     (if ow_closed (sh_owned s) then
        and_then (bind_closed udrop tid) (\<lambda>(evs, t).
          Inr (s\<lparr>sc_owner := (sc_owner s)(i := ow_id (sh_owned s)),
            sc_tasks := (sc_tasks s)(i \<mapsto> (spawned tid)\<lparr>w_task := t, w_queued := 0\<rparr>)\<rparr>))
      else Inr (snd (schedule i (bind_open i tid s))))"

section \<open>The loops\<close>

text \<open>Every fifth tick the shared queue is served first.\<close>

definition shared_tick :: "u32 \<Rightarrow> bool" where
  "shared_tick t \<longleftrightarrow> t mod 5 = 0"

definition next_entry :: "core \<Rightarrow> 'o sched \<Rightarrow> nat option \<times> core \<times> 'o sched" where
  "next_entry c s =
     (let tick = c_tick c; c = c\<lparr>c_tick := c_tick c + 1\<rparr> in
      if shared_tick tick then
        (case spawner_pop s of
           (Some i, s') \<Rightarrow> (Some i, c, s')
         | (None, s') \<Rightarrow> (case pop_task c of (r, c') \<Rightarrow> (r, c', s')))
      else
        (case pop_task c of
           (Some i, c') \<Rightarrow> (Some i, c', s)
         | (None, c') \<Rightarrow> (case spawner_pop s of (r, s') \<Rightarrow> (r, c', s'))))"

text \<open>\<open>Context::enter\<close>: the core is in the cell of the context while \<open>f\<close> runs.\<close>

definition ctx_enter :: "core \<Rightarrow> ('o sched \<Rightarrow> ('r \<times> 'o sched) outcome) \<Rightarrow> 'o sched \<Rightarrow> (core \<times> 'r \<times> 'o sched) outcome" where
  "ctx_enter c f s =
     and_then (f (s\<lparr>cx_core := Some c\<rparr>)) (\<lambda>(r, s').
       case cx_core s' of None \<Rightarrow> Inl UnwrapNone | Some c' \<Rightarrow> Inr (c', r, s'\<lparr>cx_core := None\<rparr>))"

definition run_task :: "(nat \<Rightarrow> 'o sched \<Rightarrow> 'o sched outcome) \<Rightarrow> nat \<Rightarrow> core \<Rightarrow> 'o sched \<Rightarrow> (core \<times> 'o sched) outcome" where
  "run_task run i c s =
     and_then (assert_owner (sc_owner s i) (sh_owned s)) (\<lambda>_.
     and_then (ctx_enter c (\<lambda>s. and_then (run i s) (\<lambda>s'. Inr ((), s'))) s) (\<lambda>(c', _, s'). Inr (c', s')))"

text \<open>
  The loop of \<open>poll_until_deadlock\<close>, in its round of ten tasks the \<open>n\<close>-th, \<open>k\<close> of them run so far.
\<close>

partial_function (option) deadlock_loop ::
    "(nat \<Rightarrow> 'o sched \<Rightarrow> 'o sched outcome) \<Rightarrow> nat \<Rightarrow> nat \<Rightarrow> core \<Rightarrow> 'o sched \<Rightarrow> (core \<times> 'o sched) outcome option" where
  "deadlock_loop run n k c s =
     (if n = 10 then deadlock_loop run 0 0 c s
      else if c_unhandled c then Some (Inr (c, s))
      else
        (case next_entry c s of
           (None, c', s') \<Rightarrow> if k = 0 then Some (Inr (c', s')) else deadlock_loop run 0 0 c' s'
         | (Some i, c', s') \<Rightarrow>
             (case run_task run i c' s' of
                Inl e \<Rightarrow> Some (Inl e)
              | Inr (c2, s2) \<Rightarrow> deadlock_loop run (n + 1) (k + 1) c2 s2)))"

text \<open>
  The loop of \<open>block_on\<close>. \<open>main\<close> polls the future of the caller. After a round of ten tasks comes
  \<open>Context::park_yield\<close>, which is \<open>unimplemented!\<close>.
\<close>

definition park_yield :: "core \<Rightarrow> core outcome" where
  "park_yield c = Inl Unimplemented"

datatype block_stage = Outer | Inner nat nat

partial_function (option) block_loop ::
    "(nat \<Rightarrow> 'o sched \<Rightarrow> 'o sched outcome) \<Rightarrow> ('o sched \<Rightarrow> ('v poll \<times> 'o sched) outcome) \<Rightarrow> block_stage \<Rightarrow> core \<Rightarrow> 'o sched
      \<Rightarrow> (core \<times> 'v option \<times> 'o sched) outcome option" where
  "block_loop run main st c s =
     (case st of
        Outer \<Rightarrow>
          (case reset_woken s of (woken, s1) \<Rightarrow>
             if \<not> woken then block_loop run main (Inner 0 0) c s1
             else
               (case ctx_enter c main s1 of
                  Inl e \<Rightarrow> Some (Inl e)
                | Inr (c2, Ready v, s2) \<Rightarrow> Some (Inr (c2, Some v, s2))
                | Inr (c2, Pending, s2) \<Rightarrow> block_loop run main (Inner 0 1) c2 s2))
      | Inner n k \<Rightarrow>
          if n = 10 then
            (case park_yield c of Inl e \<Rightarrow> Some (Inl e) | Inr c' \<Rightarrow> block_loop run main Outer c' s)
          else if c_unhandled c then Some (Inr (c, None, s))
          else
            (case next_entry c s of
               (None, c', s') \<Rightarrow> if k = 0 then Some (Inr (c', None, s')) else block_loop run main Outer c' s'
             | (Some i, c', s') \<Rightarrow>
                 (case run_task run i c' s' of
                    Inl e \<Rightarrow> Some (Inl e)
                  | Inr (c2, s2) \<Rightarrow> block_loop run main (Inner (n + 1) (k + 1)) c2 s2)))"

section \<open>The scheduler's operations\<close>

text \<open>\<open>take_core\<close>, \<open>CoreGuard::enter\<close> and the drop of the guard.\<close>

definition take_core :: "'o sched \<Rightarrow> 'o sched option" where
  "take_core s = (case sc_core s of None \<Rightarrow> None | Some c \<Rightarrow> Some (s\<lparr>sc_core := None, cx_core := Some c\<rparr>))"

definition guard_enter ::
    "(core \<Rightarrow> 'o sched \<Rightarrow> (core \<times> 'r \<times> 'o sched) outcome option) \<Rightarrow> 'o sched \<Rightarrow> ('r \<times> 'o sched) outcome option" where
  "guard_enter f s =
     (case cx_core s of
        None \<Rightarrow> Some (Inl UnwrapNone)
      | Some c \<Rightarrow>
          bind_oo (f c (s\<lparr>cx_core := None, cx_current := True\<rparr>)) (\<lambda>(c', r, s').
            Some (Inr (r, s'\<lparr>cx_current := cx_current s, cx_core := Some c'\<rparr>))))"

definition core_guard_drop :: "'o sched \<Rightarrow> 'o sched" where
  "core_guard_drop s =
     (case cx_core s of
        None \<Rightarrow> s
      | Some c \<Rightarrow> s\<lparr>cx_core := None, sc_core := Some c, sc_notifies := sc_notifies s + 1\<rparr>)"

text \<open>\<open>runtime::enter\<close> around the body of a loop.\<close>

definition rt_entered :: "('o sched \<Rightarrow> (core \<times> 'r \<times> 'o sched) outcome option) \<Rightarrow> 'o sched \<Rightarrow> (core \<times> 'r \<times> 'o sched) outcome option" where
  "rt_entered f s =
     (if sc_entered s then Some (Inl ExplicitPanic)
      else bind_oo (f (s\<lparr>sc_entered := True\<rparr>)) (\<lambda>(c, r, s'). Some (Inr (c, r, s'\<lparr>sc_entered := False\<rparr>))))"

definition poll_until_deadlock :: "(nat \<Rightarrow> 'o sched \<Rightarrow> 'o sched outcome) \<Rightarrow> 'o sched \<Rightarrow> 'o sched outcome option" where
  "poll_until_deadlock run s =
     (case take_core s of
        None \<Rightarrow> Some (Inl ExplicitPanic)
      | Some s1 \<Rightarrow>
          bind_oo (guard_enter (\<lambda>c. rt_entered (\<lambda>s. bind_oo (deadlock_loop run 0 0 c s) (\<lambda>(c', s'). Some (Inr (c', (), s')))) ) s1)
            (\<lambda>(_, s2). Some (Inr (core_guard_drop s2))))"

text \<open>
  \<open>block_on\<close> with the core at hand; \<open>None\<close> is the answer \<open>Err(Deadlock)\<close>. Without it the thread is blocked
  on the scheduler's \<open>Notify\<close>: from inside a task that is a panic, and another thread is not modelled.
\<close>

definition block_on ::
    "(nat \<Rightarrow> 'o sched \<Rightarrow> 'o sched outcome) \<Rightarrow> ('o sched \<Rightarrow> ('v poll \<times> 'o sched) outcome) \<Rightarrow> 'o sched \<Rightarrow> ('v option \<times> 'o sched) outcome option" where
  "block_on run main s =
     (case take_core s of
        None \<Rightarrow> (if sc_entered s then Some (Inl ExplicitPanic) else None)
      | Some s1 \<Rightarrow>
          bind_oo (guard_enter (\<lambda>c. rt_entered (\<lambda>s. block_loop run main Outer c (sched_waker_ref s))) s1)
            (\<lambda>(r, s2). Some (Inr (r, core_guard_drop s2))))"

text \<open>\<open>Drop\<close> for \<open>BasicScheduler\<close>: \<open>lose\<close> drops a handle.\<close>

primrec drop_tasks :: "(nat \<Rightarrow> 'o sched \<Rightarrow> 'o sched outcome) \<Rightarrow> nat list \<Rightarrow> 'o sched \<Rightarrow> 'o sched outcome" where
  "drop_tasks lose [] s = Inr s"
| "drop_tasks lose (i # is) s = and_then (lose i s) (drop_tasks lose is)"

definition drop_body ::
    "(nat \<Rightarrow> 'o sched \<Rightarrow> 'o sched outcome) \<Rightarrow> (nat \<Rightarrow> 'o sched \<Rightarrow> 'o sched outcome) \<Rightarrow> core \<Rightarrow> 'o sched \<Rightarrow> (core \<times> unit \<times> 'o sched) outcome option" where
  "drop_body shut lose c s =
     bind_oo (close_and_shutdown_all shut s) (\<lambda>s1.
     bind_oo (Some (drop_tasks lose (c_tasks c) s1)) (\<lambda>s2.
       let remote = (case sh_queue s2 of None \<Rightarrow> [] | Some q \<Rightarrow> q) in
     bind_oo (Some (drop_tasks lose remote (s2\<lparr>sh_queue := None\<rparr>))) (\<lambda>s3.
       if owned_is_empty (sh_owned s3) then Some (Inr (c\<lparr>c_tasks := []\<rparr>, (), s3)) else Some (Inl AssertFailed))))"

definition sched_drop ::
    "(nat \<Rightarrow> 'o sched \<Rightarrow> 'o sched outcome) \<Rightarrow> (nat \<Rightarrow> 'o sched \<Rightarrow> 'o sched outcome) \<Rightarrow> 'o sched \<Rightarrow> 'o sched outcome option" where
  "sched_drop shut lose s =
     (case take_core s of
        None \<Rightarrow> Some (Inl ExplicitPanic)
      | Some s1 \<Rightarrow> bind_oo (guard_enter (drop_body shut lose) s1) (\<lambda>(_, s2). Some (Inr (core_guard_drop s2))))"

section \<open>Fairness of the two queues\<close>

text \<open>
  Entries taken one after the other, while tasks that run or others append to both queues: \<open>ps\<close> lists
  what is appended after each.
\<close>

definition append_entries :: "nat list \<times> nat list \<Rightarrow> core \<Rightarrow> 'o sched \<Rightarrow> core \<times> 'o sched" where
  "append_entries p c s = (c\<lparr>c_tasks := c_tasks c @ fst p\<rparr>, s\<lparr>sh_queue := map_option (\<lambda>q. q @ snd p) (sh_queue s)\<rparr>)"

fun entries :: "(nat list \<times> nat list) list \<Rightarrow> core \<Rightarrow> 'o sched \<Rightarrow> nat option list" where
  "entries [] c s = []"
| "entries (p # ps) c s =
     (case next_entry c s of (r, c1, s1) \<Rightarrow>
        case append_entries p c1 s1 of (c2, s2) \<Rightarrow> r # entries ps c2 s2)"

lemma unat_tick: "unat (t + 1 :: u32) = (if unat t + 1 = 2 ^ 32 then 0 else unat t + 1)"
  using unsigned_less [of t, where ?'a = nat] by (simp add: unat_word_ariths)

lemma tick_mod: "shared_tick t \<longleftrightarrow> unat t mod 5 = 0"
  by (simp add: shared_tick_def unat_mod_distrib flip: unat_eq_0)

text \<open>How long the tick does not favour the shared queue, and how often it does; it wraps at \<open>2 ^ 32\<close>.\<close>

definition until_shared :: "u32 \<Rightarrow> nat" where
  "until_shared t = (if shared_tick t then 0 else 5 - unat t mod 5)"

lemma until_shared_step:
  assumes "\<not> shared_tick t"
  shows "until_shared (t + 1) < until_shared t"
proof -
  have "unat t + 1 \<noteq> 2 ^ 32"
  proof
    assume "unat t + 1 = 2 ^ 32"
    then have "unat t = 4294967295" by simp
    then show False using assms by (simp add: tick_mod)
  qed
  then have "unat (t + 1) = Suc (unat t)" by (simp only: unat_tick) simp
  moreover have "unat t mod 5 < 5" by simp
  ultimately show ?thesis using assms unfolding until_shared_def tick_mod by (auto simp: mod_Suc)
qed

lemma until_shared_bound: "until_shared t \<le> 4"
  unfolding until_shared_def tick_mod by auto

lemma not_three_shared: "\<not> shared_tick t \<or> \<not> shared_tick (t + 1) \<or> \<not> shared_tick (t + 1 + 1)"
proof (cases "unat t + 1 = 2 ^ 32")
  case True
  then have "unat (t + 1) = 0" using unat_tick [of t] by (simp only: if_True refl)
  then have "unat (t + 1 + 1) = 1" using unat_tick [of "t + 1"] by simp
  then show ?thesis unfolding tick_mod by simp
next
  case False
  then have "unat (t + 1) = Suc (unat t)" by (simp only: unat_tick) simp
  then show ?thesis unfolding tick_mod by (auto simp: mod_Suc)
qed

lemma shared_head_step:
  assumes "sh_queue s = Some (i # q)" "next_entry c s = (r, c1, s1)" "append_entries p c1 s1 = (c2, s2)"
  shows "r = Some i \<or> \<not> shared_tick (c_tick c) \<and> c_tick c2 = c_tick c + 1 \<and> (\<exists>q'. sh_queue s2 = Some (i # q'))"
  using assms by (auto simp: next_entry_def spawner_pop_def pop_task_def append_entries_def Let_def split: list.splits if_splits)

lemma local_head_step:
  assumes "c_tasks c = i # q" "next_entry c s = (r, c1, s1)" "append_entries p c1 s1 = (c2, s2)"
  shows "r = Some i \<or> shared_tick (c_tick c) \<and> c_tick c2 = c_tick c + 1 \<and> (\<exists>q'. c_tasks c2 = i # q')"
  using assms by (auto simp: next_entry_def spawner_pop_def pop_task_def append_entries_def Let_def split: list.splits option.splits if_splits)

lemma shared_head_served:
  "sh_queue s = Some (i # q) \<Longrightarrow> until_shared (c_tick c) < length ps \<Longrightarrow> Some i \<in> set (entries ps c s)"
proof (induction ps arbitrary: c s q)
  case (Cons p ps)
  obtain r c1 s1 where n: "next_entry c s = (r, c1, s1)" by (metis prod_cases3)
  obtain c2 s2 where a: "append_entries p c1 s1 = (c2, s2)" by fastforce
  from shared_head_step [OF Cons.prems(1) n a] show ?case
  proof (elim disjE conjE exE)
    fix q' assume t: "\<not> shared_tick (c_tick c)" "c_tick c2 = c_tick c + 1" and q: "sh_queue s2 = Some (i # q')"
    with until_shared_step [OF t(1)] Cons.prems(2) have "until_shared (c_tick c2) < length ps" by simp
    from Cons.IH [OF q this] n a show ?thesis by simp
  qed (simp add: n a)
qed simp

lemma local_head_served:
  assumes "c_tasks c = j # q" "length ps = 3"
  shows "Some j \<in> set (entries ps c s)"
proof -
  from assms(2) obtain p0 p1 p2 where ps: "ps = [p0, p1, p2]" by (auto simp: numeral_3_eq_3 length_Suc_conv)
  obtain r0 c0 s0 where n0: "next_entry c s = (r0, c0, s0)" by (metis prod_cases3)
  obtain c1 s1 where a0: "append_entries p0 c0 s0 = (c1, s1)" by fastforce
  obtain r1 c2 s2 where n1: "next_entry c1 s1 = (r1, c2, s2)" by (metis prod_cases3)
  obtain c3 s3 where a1: "append_entries p1 c2 s2 = (c3, s3)" by fastforce
  obtain r2 c4 s4 where n2: "next_entry c3 s3 = (r2, c4, s4)" by (metis prod_cases3)
  obtain c5 s5 where a2: "append_entries p2 c4 s4 = (c5, s5)" by fastforce
  show ?thesis
  proof (rule ccontr)
    assume "Some j \<notin> set (entries ps c s)"
    then have no: "r0 \<noteq> Some j" "r1 \<noteq> Some j" "r2 \<noteq> Some j" by (auto simp: ps n0 a0 n1 a1 n2 a2)
    from local_head_step [OF assms(1) n0 a0] no obtain q1 where
      1: "shared_tick (c_tick c)" "c_tick c1 = c_tick c + 1" "c_tasks c1 = j # q1" by blast
    from local_head_step [OF 1(3) n1 a1] no obtain q2 where
      2: "shared_tick (c_tick c1)" "c_tick c3 = c_tick c1 + 1" "c_tasks c3 = j # q2" by blast
    from local_head_step [OF 2(3) n2 a2] no have "shared_tick (c_tick c3)" by blast
    with 1 2 not_three_shared [of "c_tick c"] show False by (simp only:) blast
  qed
qed

text \<open>
  C28: Neither queue starves the other: whoever appends whatever in between, the oldest task of the shared
  queue is taken within five entries, and the oldest task of the core's own queue within three (the tick
  favours the shared queue twice in a row only where it wraps around).
\<close>

theorem scheduler_is_fair:
  "(sh_queue s = Some (i # q) \<and> length ps = 5 \<longrightarrow> Some i \<in> set (entries ps c s)) \<and>
   (c_tasks c = j # r \<and> length ps = 3 \<longrightarrow> Some j \<in> set (entries ps c s))"
  using shared_head_served [of s i q c ps] until_shared_bound [of "c_tick c"] local_head_served [of c j r ps s] by auto

theorem scheduler_is_fair_witness:
  "entries [([], []), ([], []), ([], [])] \<lparr>c_tasks = [7, 8], c_tick = 4294967295, c_unhandled = False\<rparr>
     ((sched_new 1)\<lparr>sh_queue := Some [3, 4, 5]\<rparr> :: nat sched) = [Some 3, Some 4, Some 7] \<and>
   Some 7 \<in> set (entries [([], []), ([], []), ([], [])] \<lparr>c_tasks = [7, 8], c_tick = 4294967295, c_unhandled = False\<rparr>
     ((sched_new 1)\<lparr>sh_queue := Some [3, 4, 5]\<rparr> :: nat sched))"
  using scheduler_is_fair [of "(sched_new 1)\<lparr>sh_queue := Some [3, 4, 5]\<rparr> :: nat sched" 3 "[4, 5]" "[([], []), ([], []), ([], [])]"
      "\<lparr>c_tasks = [7, 8], c_tick = 4294967295, c_unhandled = False\<rparr>" 7 "[8]"]
  by (simp add: next_entry_def spawner_pop_def pop_task_def append_entries_def sched_new_def shared_tick_def)

section \<open>Tasks and queues together\<close>

text \<open>
  A handle operation on task \<open>i\<close> takes its world from \<open>w\<close> to \<open>w'\<close>; the handles it submits go through
  \<open>schedule\<close>, and a task that gave up its place in the list of owned tasks is taken out of it.
\<close>

definition settle :: "nat \<Rightarrow> 'o tworld \<Rightarrow> 'o tworld \<Rightarrow> effect list \<Rightarrow> 'o sched \<Rightarrow> 'o sched" where
  "settle i w w' evs s =
     ((snd \<circ> schedule i) ^^ scheduled evs)
       (s\<lparr>sc_tasks := (sc_tasks s)(i \<mapsto> w'),
          sh_owned := (if tk_owned (w_task w) \<and> \<not> tk_owned (w_task w')
            then (sh_owned s)\<lparr>ow_list := fst (wl_remove i (ow_list (sh_owned s)))\<rparr> else sh_owned s)\<rparr>)"

inductive rt_step :: "'o sched \<Rightarrow> 'o sched \<Rightarrow> bool" where
  rt_spawn: "\<lbrakk>sc_tasks s i = None; \<not> ow_closed (sh_owned s); spawn udrop i tid s = Inr s'\<rbrakk> \<Longrightarrow> rt_step s s'"
| rt_task: "\<lbrakk>sc_tasks s i = Some w; task_step w evs w'; w_queued w' = w_queued w + scheduled evs\<rbrakk>
    \<Longrightarrow> rt_step s (settle i w w' evs s)"

inductive rt_start :: "nat \<Rightarrow> 'o sched \<Rightarrow> 'o sched \<Rightarrow> bool" where
  "\<lbrakk>sc_tasks s i = Some w; task_step w [] w'; w_queued w = Suc (w_queued w')\<rbrakk> \<Longrightarrow> rt_start i s (settle i w w' [] s)"

definition queued_tasks :: "core \<Rightarrow> 'o sched \<Rightarrow> nat list" where
  "queued_tasks c s = c_tasks c @ (case sh_queue s of None \<Rightarrow> [] | Some q \<Rightarrow> q)"

text \<open>
  Every entry of the queues is one \<open>Notified\<close> of a live task, apart from the handle the loop holds; the
  list of owned tasks holds the tasks that say so.
\<close>

definition sched_ok :: "nat option \<Rightarrow> core \<Rightarrow> 'o sched \<Rightarrow> bool" where
  "sched_ok h c s \<longleftrightarrow>
     distinct (ow_list (sh_owned s)) \<and>
     (\<forall>i w. sc_tasks s i = Some w \<longrightarrow>
        task_inv w \<and> w_queued w = count_list (queued_tasks c s) i + (if h = Some i then 1 else 0) \<and>
        (tk_owned (w_task w) \<longleftrightarrow> i \<in> set (ow_list (sh_owned s))) \<and> sc_owner s i = ow_id (sh_owned s)) \<and>
     (\<forall>i. sc_tasks s i = None \<longrightarrow> i \<notin> set (queued_tasks c s) \<and> i \<notin> set (ow_list (sh_owned s)) \<and> h \<noteq> Some i)"

lemma drop_reference_shape: "drop_reference t = Inr t' \<Longrightarrow> tk_owned t' = tk_owned t"
  by (rule drop_reference_owned)

lemma harness_complete_unowned:
  assumes "harness_complete t = Inr (evs, t')"
  shows "\<not> tk_owned t'"
  using assms
  by (auto simp: harness_complete_def and_then_eq_Inr harness_release_def Let_def split_beta split: if_splits sum.splits)

lemma wake_by_val_owned:
  assumes "wake_by_val t = Inr (evs, t')"
  shows "tk_owned t' = tk_owned t"
proof -
  from assms obtain v s where "(case v of ValSubmit \<Rightarrow> and_then (drop_reference (t\<lparr>tk_state := s\<rparr>)) (\<lambda>t2. Inr ([ScheduleTask], t2))
      | ValDealloc \<Rightarrow> Inr ([], harness_dealloc (t\<lparr>tk_state := s\<rparr>)) | ValDoNothing \<Rightarrow> Inr ([], t\<lparr>tk_state := s\<rparr>)) = Inr (evs, t')"
    by (auto simp: wake_by_val_def and_then_eq_Inr Let_def)
  then show ?thesis by (cases v) (auto simp: and_then_eq_Inr dest: drop_reference_owned)
qed

lemma can_read_output_owned: "can_read_output cx t = Inr (b, t') \<Longrightarrow> tk_owned t' = tk_owned t"
  by (auto simp: can_read_output_def hs_set_join_waker_def trailer_set_waker_def trailer_will_wake_def and_then_ensure Let_def
      set_join_waker_eq unset_waker_eq split: if_splits option.splits)

lemma join_handle_poll_owned: "join_handle_poll cx t = Inr (r, t') \<Longrightarrow> tk_owned t' = tk_owned t"
  by (auto simp: join_handle_poll_def try_read_output_def take_output_def and_then_eq_Inr dest!: can_read_output_owned
      split: if_splits stage.splits)

lemma join_handle_drop_owned: "join_handle_drop t = Inr t' \<Longrightarrow> tk_owned t' = tk_owned t"
  by (auto simp: join_handle_drop_def drop_join_handle_fast_def drop_join_handle_slow_def and_then_eq_Inr Let_def
      drop_future_or_output_def set_stage_def dest!: drop_reference_owned split: if_splits)

lemma poll_finish_owned: "poll_finish ans t = Inr (r, t') \<Longrightarrow> tk_owned t' = tk_owned t"
  by (cases ans) (auto simp: poll_finish_def poll_store_def to_idle_def and_then_eq_Inr store_output_def
      drop_future_or_output_def set_stage_def)

lemma task_step_owned:
  assumes "task_step w evs w'"
  shows "tk_owned (w_task w') \<longrightarrow> tk_owned (w_task w)"
  using assms
proof cases
  case (poll_refused r t)
  then show ?thesis by (auto simp: to_running_def and_then_eq_Inr)
qed (auto simp: clone_waker_def drop_waker_def wake_by_ref_eq remote_abort_def task_drop_eq to_running_def cancel_finish_def and_then_eq_Inr
    dest: drop_reference_owned harness_complete_unowned wake_by_val_owned join_handle_poll_owned join_handle_drop_owned poll_finish_owned)

lemma schedule_in_core:
  "cx_current s \<Longrightarrow> cx_core s = Some c \<Longrightarrow> schedule i s = (True, s\<lparr>cx_core := Some (push_task i c)\<rparr>)"
  by (simp add: schedule_def)

lemma push_tasks: "push_task i (c\<lparr>c_tasks := ts\<rparr>) = c\<lparr>c_tasks := ts @ [i]\<rparr>"
  by (simp add: push_task_def)

lemma schedule_n:
  assumes "cx_current s" "cx_core s = Some c"
  shows "((snd \<circ> schedule i) ^^ n) s = s\<lparr>cx_core := Some (c\<lparr>c_tasks := c_tasks c @ replicate n i\<rparr>)\<rparr>"
proof (induction n)
  case 0
  have "c\<lparr>c_tasks := c_tasks c\<rparr> = c" "s\<lparr>cx_core := Some c\<rparr> = s" using assms by (cases c; simp)+
  then show ?case by simp
next
  case (Suc n)
  then show ?case using assms by (simp add: schedule_def push_tasks replicate_append_same)
qed

lemma count_replicate: "count_list (replicate n i) j = (if i = j then n else 0)"
  by (induction n) auto

lemma count_none: "x \<notin> set xs \<longleftrightarrow> count_list xs x = 0"
  by (simp add: count_list_0_iff)

lemma sched_okD:
  assumes "sched_ok h c s" "sc_tasks s i = Some w"
  shows "task_inv w" "w_queued w = count_list (queued_tasks c s) i + (if h = Some i then 1 else 0)"
    "tk_owned (w_task w) \<longleftrightarrow> i \<in> set (ow_list (sh_owned s))" "sc_owner s i = ow_id (sh_owned s)"
  using assms unfolding sched_ok_def by blast+

text \<open>
  What a step leaves alone: the places of the core, the shared queue and the guards; the core's own queue
  only grows.
\<close>

definition rt_frame :: "core \<Rightarrow> 'o sched \<Rightarrow> core \<Rightarrow> 'o sched \<Rightarrow> bool" where
  "rt_frame c s c' s' \<longleftrightarrow>
     cx_core s' = Some c' \<and> cx_current s' = cx_current s \<and> sc_core s' = sc_core s \<and> sh_queue s' = sh_queue s \<and>
     sc_entered s' = sc_entered s \<and> sc_notifies s' = sc_notifies s \<and> sh_woken s' = sh_woken s \<and>
     ow_closed (sh_owned s') = ow_closed (sh_owned s) \<and>
     c_tick c' = c_tick c \<and> c_unhandled c' = c_unhandled c \<and> (\<exists>is. c_tasks c' = c_tasks c @ is)"

lemma rt_frame_refl: "cx_core s = Some c \<Longrightarrow> rt_frame c s c s"
  by (simp add: rt_frame_def)

lemma rt_frame_trans: "rt_frame c s c' s' \<Longrightarrow> rt_frame c' s' c'' s'' \<Longrightarrow> rt_frame c s c'' s''"
  by (auto simp: rt_frame_def)

text \<open>What a step does to tasks and owners keeps the invariant, wherever the new entries of the queues go.\<close>

lemma settle_keeps:
  assumes ok: "sched_ok h c s" and i: "sc_tasks s i = Some w" and step: "task_step w evs w'"
    and parts: "sc_tasks s' = (sc_tasks s)(i \<mapsto> w')" "sc_owner s' = sc_owner s"
      "sh_owned s' = (if tk_owned (w_task w) \<and> \<not> tk_owned (w_task w')
            then (sh_owned s)\<lparr>ow_list := fst (wl_remove i (ow_list (sh_owned s)))\<rparr> else sh_owned s)"
    and q: "\<And>j. count_list (queued_tasks c' s') j = count_list (queued_tasks c s) j + (if i = j then scheduled evs else 0)"
    and h: "h' = h \<and> w_queued w' = w_queued w + scheduled evs \<or>
            h = Some i \<and> h' = None \<and> w_queued w = Suc (w_queued w') \<and> evs = []"
  shows "sched_ok h' c' s'"
proof -
  have dist: "distinct (ow_list (sh_owned s))" using ok by (simp add: sched_ok_def)
  have id: "ow_id (sh_owned s') = ow_id (sh_owned s)" by (simp add: parts(3))
  have mem: "j \<in> set (ow_list (sh_owned s')) \<longleftrightarrow> j \<in> set (ow_list (sh_owned s)) \<and> (j = i \<longrightarrow> tk_owned (w_task w'))" for j
    using dist sched_okD(3) [OF ok i] task_step_owned [OF step] by (auto simp: parts(3) wl_remove_def)
  have inv: "task_inv w'" using task_step_inv [OF step sched_okD(1) [OF ok i]] .
  show ?thesis
    unfolding sched_ok_def
  proof (intro conjI allI impI)
    show "distinct (ow_list (sh_owned s'))" using dist by (simp add: parts(3) wl_remove_def)
  next
    fix j v assume j: "sc_tasks s' j = Some v"
    then consider "j = i" "v = w'" | "j \<noteq> i" "sc_tasks s j = Some v" by (auto simp: parts(1) split: if_splits)
    then have "task_inv v \<and> sc_owner s' j = ow_id (sh_owned s') \<and> (tk_owned (w_task v) \<longleftrightarrow> j \<in> set (ow_list (sh_owned s'))) \<and>
        w_queued v = count_list (queued_tasks c' s') j + (if h' = Some j then 1 else 0)"
    proof cases
      case 1
      have "tk_owned (w_task w') \<longleftrightarrow> i \<in> set (ow_list (sh_owned s'))"
        using mem [of i] sched_okD(3) [OF ok i] task_step_owned [OF step] by blast
      moreover have "sc_owner s' i = ow_id (sh_owned s')" using sched_okD(4) [OF ok i] by (simp only: parts(2) id)
      moreover have "w_queued w' = count_list (queued_tasks c' s') i + (if h' = Some i then 1 else 0)"
        using q [of i] sched_okD(2) [OF ok i] h by auto
      ultimately show ?thesis using inv 1 by simp
    next
      case 2
      have "tk_owned (w_task v) \<longleftrightarrow> j \<in> set (ow_list (sh_owned s'))"
        using mem [of j] sched_okD(3) [OF ok 2(2)] 2(1) by blast
      moreover have "sc_owner s' j = ow_id (sh_owned s')" using sched_okD(4) [OF ok 2(2)] by (simp only: parts(2) id)
      moreover have "w_queued v = count_list (queued_tasks c' s') j + (if h' = Some j then 1 else 0)"
        using q [of j] sched_okD(2) [OF ok 2(2)] h 2(1) by auto
      ultimately show ?thesis using sched_okD(1) [OF ok 2(2)] by simp
    qed
    then show "task_inv v" "sc_owner s' j = ow_id (sh_owned s')" "tk_owned (w_task v) \<longleftrightarrow> j \<in> set (ow_list (sh_owned s'))"
        "w_queued v = count_list (queued_tasks c' s') j + (if h' = Some j then 1 else 0)" by blast+
  next
    fix j assume j: "sc_tasks s' j = None"
    then have "sc_tasks s j = None" "j \<noteq> i" by (auto simp: parts(1) split: if_splits)
    with ok have "j \<notin> set (queued_tasks c s)" "j \<notin> set (ow_list (sh_owned s))" "h \<noteq> Some j" by (simp_all add: sched_ok_def)
    with q [of j] mem [of j] \<open>j \<noteq> i\<close> show "j \<notin> set (queued_tasks c' s')" "j \<notin> set (ow_list (sh_owned s'))" "h' \<noteq> Some j"
      using h by (auto simp: count_none)
  qed
qed

lemma spawn_keeps:
  assumes ok: "sched_ok h c s" and new: "sc_tasks s i = None"
    and parts: "sc_tasks s' = (sc_tasks s)(i \<mapsto> spawned tid)" "sc_owner s' = (sc_owner s)(i := ow_id (sh_owned s))"
      "sh_owned s' = (sh_owned s)\<lparr>ow_list := wl_push_front i (ow_list (sh_owned s))\<rparr>"
    and q: "\<And>j. count_list (queued_tasks c' s') j = count_list (queued_tasks c s) j + (if i = j then 1 else 0)"
  shows "sched_ok h c' s'"
proof -
  have none: "i \<notin> set (queued_tasks c s)" "i \<notin> set (ow_list (sh_owned s))" "h \<noteq> Some i" using ok new by (auto simp: sched_ok_def)
  show ?thesis
    unfolding sched_ok_def
  proof (intro conjI allI impI)
    show "distinct (ow_list (sh_owned s'))" using ok none by (simp add: parts wl_push_front_def sched_ok_def)
  next
    fix j v assume j: "sc_tasks s' j = Some v"
    show "task_inv v" "sc_owner s' j = ow_id (sh_owned s')"
      using j sched_okD(1,4) [OF ok] spawned_inv by (auto simp: parts split: if_splits)
    show "tk_owned (w_task v) \<longleftrightarrow> j \<in> set (ow_list (sh_owned s'))"
      using j none sched_okD(3) [OF ok] by (auto simp: parts wl_push_front_def spawned_def split: if_splits)
    show "w_queued v = count_list (queued_tasks c' s') j + (if h = Some j then 1 else 0)"
      using j q [of j] none sched_okD(2) [OF ok] by (auto simp: parts spawned_def count_none split: if_splits)
  next
    fix j assume j: "sc_tasks s' j = None"
    then have "sc_tasks s j = None" "j \<noteq> i" by (auto simp: parts split: if_splits)
    with ok q [of j] show "j \<notin> set (queued_tasks c' s')" "j \<notin> set (ow_list (sh_owned s'))" "h \<noteq> Some j"
      by (auto simp: sched_ok_def parts wl_push_front_def count_none)
  qed
qed

lemma settle_ok:
  assumes ok: "sched_ok h c s" and core: "cx_core s = Some c" "cx_current s" and i: "sc_tasks s i = Some w"
    and step: "task_step w evs w'"
    and h: "h' = None" "h = None \<and> w_queued w' = w_queued w + scheduled evs \<or> h = Some i \<and> w_queued w = Suc (w_queued w') \<and> evs = []"
  shows "\<exists>c'. sched_ok h' c' (settle i w w' evs s) \<and> rt_frame c s c' (settle i w w' evs s)"
proof -
  let ?c = "c\<lparr>c_tasks := c_tasks c @ replicate (scheduled evs) i\<rparr>"
  have s': "settle i w w' evs s = s\<lparr>sc_tasks := (sc_tasks s)(i \<mapsto> w'), sh_owned := if tk_owned (w_task w) \<and> \<not> tk_owned (w_task w')
            then (sh_owned s)\<lparr>ow_list := fst (wl_remove i (ow_list (sh_owned s)))\<rparr> else sh_owned s, cx_core := Some ?c\<rparr>"
    unfolding settle_def by (subst schedule_n [where c = c]) (simp_all add: core)
  have "sched_ok h' ?c (settle i w w' evs s)"
    by (rule settle_keeps [OF ok i step]) (use h in \<open>auto simp: s' queued_tasks_def count_replicate split: option.split\<close>)
  moreover have "rt_frame c s ?c (settle i w w' evs s)" by (simp add: rt_frame_def s')
  ultimately show ?thesis by blast
qed

lemma spawn_ok:
  assumes ok: "sched_ok None c s" and core: "cx_core s = Some c" "cx_current s" and new: "sc_tasks s i = None"
    and "open": "\<not> ow_closed (sh_owned s)" and sp: "spawn udrop i tid s = Inr s'"
  shows "\<exists>c'. sched_ok None c' s' \<and> rt_frame c s c' s'"
proof -
  let ?c = "push_task i c"
  have s': "s' = (bind_open i tid s)\<lparr>cx_core := Some ?c\<rparr>"
    using sp "open" core by (simp add: spawn_def schedule_def bind_open_def)
  have "sched_ok None ?c s'"
    by (rule spawn_keeps [OF ok new]) (simp_all add: s' bind_open_def queued_tasks_def push_task_def split: option.split)
  moreover have "rt_frame c s ?c s'" by (simp add: rt_frame_def s' bind_open_def push_task_def)
  ultimately show ?thesis by blast
qed

text \<open>The same from outside the context: the new entries go to the shared queue, and the core is left alone.\<close>

definition rt_remote_frame :: "'o sched \<Rightarrow> 'o sched \<Rightarrow> bool" where
  "rt_remote_frame s s' \<longleftrightarrow>
     cx_core s' = cx_core s \<and> cx_current s' = cx_current s \<and> sc_core s' = sc_core s \<and> sc_entered s' = sc_entered s \<and>
     sc_notifies s' = sc_notifies s \<and> sh_woken s' = sh_woken s \<and> ow_closed (sh_owned s') = ow_closed (sh_owned s) \<and>
     (\<exists>q is. sh_queue s = Some q \<and> sh_queue s' = Some (q @ is))"

lemma schedule_remote_n:
  assumes "\<not> cx_current s" "sh_queue s = Some q"
  shows "((snd \<circ> schedule i) ^^ n) s = s\<lparr>sh_queue := Some (q @ replicate n i)\<rparr>"
proof (induction n)
  case 0
  have "s\<lparr>sh_queue := Some q\<rparr> = s" using assms by (cases s) simp
  then show ?case by simp
next
  case (Suc n)
  then show ?case using assms by (simp add: schedule_def replicate_append_same)
qed

lemma rt_step_remote_ok:
  assumes "rt_step s s'" "sched_ok h c s" "\<not> cx_current s" "sh_queue s = Some q"
  shows "sched_ok h c s' \<and> rt_remote_frame s s'"
  using assms(1)
proof cases
  case (rt_spawn i udrop tid)
  then have s': "s' = (bind_open i tid s)\<lparr>sh_queue := Some (q @ [i])\<rparr>"
    using assms(3,4) by (simp add: spawn_def schedule_def bind_open_def)
  have "sched_ok h c s'"
    by (rule spawn_keeps [OF assms(2) rt_spawn(1)]) (simp_all add: s' bind_open_def queued_tasks_def assms(4))
  then show ?thesis using assms(4) by (simp add: rt_remote_frame_def s' bind_open_def)
next
  case (rt_task i w evs w')
  have s': "s' = s\<lparr>sc_tasks := (sc_tasks s)(i \<mapsto> w'), sh_owned := if tk_owned (w_task w) \<and> \<not> tk_owned (w_task w')
            then (sh_owned s)\<lparr>ow_list := fst (wl_remove i (ow_list (sh_owned s)))\<rparr> else sh_owned s,
            sh_queue := Some (q @ replicate (scheduled evs) i)\<rparr>"
    unfolding rt_task(1) settle_def by (subst schedule_remote_n [where q = q]) (simp_all add: assms(3,4))
  have "sched_ok h c s'"
    by (rule settle_keeps [OF assms(2) rt_task(2,3)])
      (use rt_task(4) in \<open>auto simp: s' queued_tasks_def count_replicate assms(4)\<close>)
  then show ?thesis using assms(4) by (simp add: rt_remote_frame_def s')
qed

lemma rt_step_ok:
  assumes "rt_step s s'" "sched_ok None c s" "cx_core s = Some c" "cx_current s"
  shows "\<exists>c'. sched_ok None c' s' \<and> rt_frame c s c' s'"
  using assms
proof cases
  case (rt_spawn i udrop tid)
  with assms spawn_ok show ?thesis by blast
next
  case (rt_task i w evs w')
  then show ?thesis using settle_ok [where h = None and h' = None, OF assms(2-4) rt_task(2,3)] by simp
qed

lemma rt_steps_ok:
  assumes "rt_step\<^sup>*\<^sup>* s s'" "sched_ok None c s" "cx_core s = Some c" "cx_current s"
  shows "\<exists>c'. sched_ok None c' s' \<and> rt_frame c s c' s'"
  using assms(1)
proof (induction rule: rtranclp_induct)
  case base
  then show ?case using assms rt_frame_refl by blast
next
  case (step s1 s2)
  then obtain c1 where c1: "sched_ok None c1 s1" "rt_frame c s c1 s1" by blast
  then have "cx_core s1 = Some c1" "cx_current s1" using assms(4) by (simp_all add: rt_frame_def)
  with rt_step_ok [OF step(2) c1(1)] c1(2) rt_frame_trans show ?case by blast
qed

lemma rt_start_ok:
  assumes "rt_start i s s'" "sched_ok (Some i) c s" "cx_core s = Some c" "cx_current s"
  shows "\<exists>c'. sched_ok None c' s' \<and> rt_frame c s c' s'"
  using assms
proof cases
  case (1 w w')
  then show ?thesis using settle_ok [where h = "Some i" and h' = None, OF assms(2-4) 1(2,3)] by simp
qed

section \<open>The loops keep tasks and queues together\<close>

definition all_idle :: "'o sched \<Rightarrow> bool" where
  "all_idle s \<longleftrightarrow> (\<forall>i w. sc_tasks s i = Some w \<longrightarrow> w_phase w = TIdle)"

text \<open>
  The contract of what runs: \<open>run i\<close> takes the handle of task \<open>i\<close> the loop popped, uses it up and goes on
  in steps of the tasks, until no task is being polled.
\<close>

definition run_ok :: "(nat \<Rightarrow> 'o sched \<Rightarrow> 'o sched outcome) \<Rightarrow> bool" where
  "run_ok run \<longleftrightarrow> (\<forall>i c s. sched_ok (Some i) c s \<and> cx_core s = Some c \<and> cx_current s \<and> all_idle s \<longrightarrow>
     (\<exists>s1 s2. run i s = Inr s2 \<and> rt_start i s s1 \<and> rt_step\<^sup>*\<^sup>* s1 s2 \<and> all_idle s2))"

definition main_ok :: "('o sched \<Rightarrow> ('v poll \<times> 'o sched) outcome) \<Rightarrow> bool" where
  "main_ok main \<longleftrightarrow> (\<forall>c s. sched_ok None c s \<and> cx_core s = Some c \<and> cx_current s \<and> all_idle s \<longrightarrow>
     (\<exists>r b s2. main s = Inr (r, s2\<lparr>sh_woken := b\<rparr>) \<and> rt_step\<^sup>*\<^sup>* s s2 \<and> all_idle s2))"

text \<open>What holds between two entries of a loop.\<close>

definition loop_ok :: "nat option \<Rightarrow> core \<Rightarrow> 'o sched \<Rightarrow> bool" where
  "loop_ok h c s \<longleftrightarrow> sched_ok h c s \<and> cx_current s \<and> all_idle s"

lemma sched_ok_cong:
  "queued_tasks c' s' = queued_tasks c s \<Longrightarrow> sh_owned s' = sh_owned s \<Longrightarrow> sc_tasks s' = sc_tasks s \<Longrightarrow> sc_owner s' = sc_owner s \<Longrightarrow>
     sched_ok h c' s' = sched_ok h c s"
  by (simp add: sched_ok_def)

lemma sched_ok_ctx [simp]:
  "sched_ok h c (s\<lparr>cx_core := k\<rparr>) = sched_ok h c s" "sched_ok h c (s\<lparr>sh_woken := b\<rparr>) = sched_ok h c s"
  "sched_ok h c (s\<lparr>cx_current := b\<rparr>) = sched_ok h c s" "sched_ok h c (s\<lparr>sc_entered := b\<rparr>) = sched_ok h c s"
  "sched_ok h c (s\<lparr>sc_core := k\<rparr>) = sched_ok h c s" "sched_ok h c (s\<lparr>sc_notifies := n\<rparr>) = sched_ok h c s"
  "all_idle (s\<lparr>cx_core := k\<rparr>) = all_idle s" "all_idle (s\<lparr>sh_woken := b\<rparr>) = all_idle s"
  "all_idle (s\<lparr>cx_current := b\<rparr>) = all_idle s" "all_idle (s\<lparr>sc_entered := b\<rparr>) = all_idle s"
  "all_idle (s\<lparr>sc_core := k\<rparr>) = all_idle s" "all_idle (s\<lparr>sc_notifies := n\<rparr>) = all_idle s"
  "queued_tasks c (s\<lparr>cx_core := k\<rparr>) = queued_tasks c s" "queued_tasks c (s\<lparr>sh_woken := b\<rparr>) = queued_tasks c s"
  "queued_tasks c (s\<lparr>cx_current := b\<rparr>) = queued_tasks c s" "queued_tasks c (s\<lparr>sc_entered := b\<rparr>) = queued_tasks c s"
  by (simp_all add: sched_ok_def all_idle_def queued_tasks_def)

lemma spawner_pop_cases:
  "spawner_pop s = (None, s) \<and> (sh_queue s = None \<or> sh_queue s = Some []) \<or>
   (\<exists>i q. sh_queue s = Some (i # q) \<and> spawner_pop s = (Some i, s\<lparr>sh_queue := Some q\<rparr>))"
  by (auto simp: spawner_pop_def neq_Nil_conv split: option.split list.split)

lemma pop_task_cases:
  "pop_task c = (None, c) \<and> c_tasks c = [] \<or> (\<exists>i q. c_tasks c = i # q \<and> pop_task c = (Some i, c\<lparr>c_tasks := q\<rparr>))"
  by (simp add: pop_task_def split: list.split)

lemma next_entry_cases:
  assumes n: "next_entry c s = (r, c', s')"
  obtains (shared) i q where "r = Some i" "sh_queue s = Some (i # q)" "c' = c\<lparr>c_tick := c_tick c + 1\<rparr>" "s' = s\<lparr>sh_queue := Some q\<rparr>"
  | (local) i q where "r = Some i" "c_tasks c = i # q" "c' = c\<lparr>c_tick := c_tick c + 1, c_tasks := q\<rparr>" "s' = s"
  | (none) "r = None" "queued_tasks c s = []" "c' = c\<lparr>c_tick := c_tick c + 1\<rparr>" "s' = s"
proof -
  let ?c = "c\<lparr>c_tick := c_tick c + 1\<rparr>"
  consider (e) "spawner_pop s = (None, s)" "sh_queue s = None \<or> sh_queue s = Some []"
    | (f) i q where "sh_queue s = Some (i # q)" "spawner_pop s = (Some i, s\<lparr>sh_queue := Some q\<rparr>)"
    using spawner_pop_cases [of s] by blast
  then show thesis
  proof cases
    case e
    have n': "(case pop_task ?c of (r, c1) \<Rightarrow> (r, c1, s)) = (r, c', s')"
      using n e(1) by (simp add: next_entry_def Let_def split: if_splits option.splits prod.splits)
    show ?thesis
    proof (cases "c_tasks c")
      case Nil
      then have "pop_task ?c = (None, ?c)" by (simp add: pop_task_def)
      moreover have "queued_tasks c s = []" using Nil e(2) by (auto simp: queued_tasks_def)
      ultimately show ?thesis using n' by (intro none) simp_all
    next
      case (Cons i q)
      then have "pop_task ?c = (Some i, ?c\<lparr>c_tasks := q\<rparr>)" by (simp add: pop_task_def)
      then show ?thesis using n' Cons by (intro local [of i q]) simp_all
    qed
  next
    case (f i q)
    show ?thesis
    proof (cases "c_tasks c = [] \<or> shared_tick (c_tick c)")
      case True
      then have "next_entry c s = (Some i, ?c, s\<lparr>sh_queue := Some q\<rparr>)"
        using f(2) by (auto simp: next_entry_def pop_task_def Let_def)
      then show ?thesis using n f(1) by (intro shared [of i q]) simp_all
    next
      case False
      then obtain k ks where k: "c_tasks c = k # ks" by (cases "c_tasks c") auto
      then have "next_entry c s = (Some k, ?c\<lparr>c_tasks := ks\<rparr>, s)"
        using False by (simp add: next_entry_def pop_task_def Let_def)
      then show ?thesis using n k by (intro local [of k ks]) simp_all
    qed
  qed
qed

lemma next_entry_effect:
  assumes "next_entry c s = (r, c', s')"
  shows "(\<exists>q. s' = s\<lparr>sh_queue := q\<rparr> \<and> (q = None \<longleftrightarrow> sh_queue s = None)) \<and> c_unhandled c' = c_unhandled c \<and>
    (case r of None \<Rightarrow> queued_tasks c s = [] \<and> queued_tasks c' s' = []
     | Some i \<Rightarrow> \<exists>as bs. queued_tasks c s = as @ i # bs \<and> queued_tasks c' s' = as @ bs)"
  using assms
proof (cases rule: next_entry_cases)
  case (shared i q)
  then show ?thesis by (auto simp: queued_tasks_def intro: exI [of _ "c_tasks c"])
next
  case (local i q)
  have "s = s\<lparr>sh_queue := sh_queue s\<rparr>" by (cases s) simp
  then show ?thesis using local by (auto simp: queued_tasks_def intro: exI [of _ "[] :: nat list"] exI [of _ "sh_queue s"])
next
  case none
  have "s = s\<lparr>sh_queue := sh_queue s\<rparr>" by (cases s) simp
  then show ?thesis using none by (auto simp: queued_tasks_def intro: exI [of _ "sh_queue s"])
qed

lemma next_entry_sched_ok:
  assumes "sched_ok None c s" "next_entry c s = (r, c', s')"
  shows "sched_ok r c' s'"
proof -
  from next_entry_effect [OF assms(2)] obtain q where s': "s' = s\<lparr>sh_queue := q\<rparr>"
    and r: "case r of None \<Rightarrow> queued_tasks c s = [] \<and> queued_tasks c' s' = []
     | Some i \<Rightarrow> \<exists>as bs. queued_tasks c s = as @ i # bs \<and> queued_tasks c' s' = as @ bs" by blast
  show ?thesis
  proof (cases r)
    case None
    then have "queued_tasks c' s' = queued_tasks c s" using r by simp
    then show ?thesis using assms(1) sched_ok_cong [of c' s' c s None] None by (simp add: s')
  next
    case (Some i)
    then obtain as bs where q: "queued_tasks c s = as @ i # bs" "queued_tasks c' s' = as @ bs" using r by auto
    have "sc_tasks s i \<noteq> None" using assms(1) q(1) unfolding sched_ok_def by (metis in_set_conv_decomp)
    with assms(1) show ?thesis unfolding sched_ok_def q Some by (auto simp: s' q(1))
  qed
qed

lemma next_entry_ok:
  assumes "loop_ok None c s" "next_entry c s = (r, c', s')"
  shows "loop_ok r c' s'"
proof -
  from next_entry_effect [OF assms(2)] obtain q where "s' = s\<lparr>sh_queue := q\<rparr>" by blast
  with next_entry_sched_ok [OF _ assms(2)] assms(1) show ?thesis by (simp add: loop_ok_def all_idle_def)
qed

lemma run_task_ok:
  assumes run: "run_ok run" and ok: "loop_ok (Some i) c s"
  shows "\<exists>c' s'. run_task run i c s = Inr (c', s') \<and> loop_ok None c' s' \<and>
    rt_frame c (s\<lparr>cx_core := Some c\<rparr>) c' (s'\<lparr>cx_core := Some c'\<rparr>) \<and> cx_core s' = None \<and>
    (\<exists>s2. run i (s\<lparr>cx_core := Some c\<rparr>) = Inr s2 \<and> sc_tasks s' = sc_tasks s2)"
proof -
  have own: "sc_owner s i = ow_id (sh_owned s)"
    using ok by (cases "sc_tasks s i") (auto simp: loop_ok_def sched_ok_def)
  let ?s = "s\<lparr>cx_core := Some c\<rparr>"
  have "sched_ok (Some i) c ?s \<and> cx_core ?s = Some c \<and> cx_current ?s \<and> all_idle ?s" using ok by (simp add: loop_ok_def)
  with run obtain s1 s2 where r: "run i ?s = Inr s2" "rt_start i ?s s1" "rt_step\<^sup>*\<^sup>* s1 s2" "all_idle s2"
    unfolding run_ok_def by blast
  from rt_start_ok [OF r(2), of c] ok obtain c1 where c1: "sched_ok None c1 s1" "rt_frame c ?s c1 s1" by (auto simp: loop_ok_def)
  then have "cx_core s1 = Some c1" "cx_current s1" using ok by (auto simp: rt_frame_def loop_ok_def)
  from rt_steps_ok [OF r(3) c1(1) this] obtain c2 where c2: "sched_ok None c2 s2" "rt_frame c1 s1 c2 s2" by blast
  note fr = rt_frame_trans [OF c1(2) c2(2)]
  then have "cx_core s2 = Some c2" "cx_current s2" using ok by (simp_all add: rt_frame_def loop_ok_def)
  then have "run_task run i c s = Inr (c2, s2\<lparr>cx_core := None\<rparr>)" "s2\<lparr>cx_core := Some c2\<rparr> = s2"
    using r(1) own by (simp_all add: run_task_def assert_owner_def ctx_enter_def)
  then show ?thesis using c2(1) r(1,4) fr \<open>cx_current s2\<close>
    by (intro exI [of _ c2] exI [of _ "s2\<lparr>cx_core := None\<rparr>"]) (simp add: loop_ok_def)
qed

definition loop_keeps :: "'o sched \<Rightarrow> 'o sched \<Rightarrow> bool" where
  "loop_keeps s s' \<longleftrightarrow> sc_core s' = sc_core s \<and> sc_entered s' = sc_entered s \<and> sc_notifies s' = sc_notifies s"

lemma loop_keeps_refl [simp]: "loop_keeps s s"
  by (simp add: loop_keeps_def)

lemma loop_keeps_trans: "loop_keeps s s' \<Longrightarrow> loop_keeps s' s'' \<Longrightarrow> loop_keeps s s''"
  by (simp add: loop_keeps_def)

lemma next_entry_keeps: "next_entry c s = (r, c', s') \<Longrightarrow> loop_keeps s s' \<and> c_unhandled c' = c_unhandled c"
  using next_entry_effect [of c s r c' s'] by (auto simp: loop_keeps_def)

lemma run_task_keeps:
  "rt_frame c (s\<lparr>cx_core := Some c\<rparr>) c' (s'\<lparr>cx_core := Some c'\<rparr>) \<Longrightarrow> loop_keeps s s' \<and> sh_woken s' = sh_woken s"
  by (simp add: rt_frame_def loop_keeps_def)

definition loop_done :: "core \<Rightarrow> 'o sched \<Rightarrow> bool" where
  "loop_done c s \<longleftrightarrow> c_unhandled c \<or> queued_tasks c s = []"

lemma deadlock_loop_ends:
  assumes "deadlock_loop run n k c s = Some r"
  shows "run_ok run \<longrightarrow> loop_ok None c s \<longrightarrow>
    (\<exists>c' s'. r = Inr (c', s') \<and> loop_ok None c' s' \<and> loop_done c' s' \<and> loop_keeps s s')"
proof (rule deadlock_loop.raw_induct [where P = "\<lambda>run n k c s r. run_ok run \<longrightarrow> loop_ok None c s \<longrightarrow>
    (\<exists>c' s'. r = Inr (c', s') \<and> loop_ok None c' s' \<and> loop_done c' s' \<and> loop_keeps s s')", OF _ assms], intro impI)
  fix f :: "(nat \<Rightarrow> 'a sched \<Rightarrow> 'a sched outcome) \<Rightarrow> nat \<Rightarrow> nat \<Rightarrow> core \<Rightarrow> 'a sched \<Rightarrow> (core \<times> 'a sched) outcome option"
    and run n k c s r
  let ?goal = "\<lambda>s r. \<exists>c' s'. r = Inr (c', s') \<and> loop_ok None c' s' \<and> loop_done c' s' \<and> loop_keeps s s'"
  assume IH: "\<And>run n k c s r. f run n k c s = Some r \<Longrightarrow> run_ok run \<longrightarrow> loop_ok None c s \<longrightarrow> ?goal s r"
    and body: "(if n = 10 then f run 0 0 c s
      else if c_unhandled c then Some (Inr (c, s))
      else case next_entry c s of
          (None, c', s') \<Rightarrow> if k = 0 then Some (Inr (c', s')) else f run 0 0 c' s'
        | (Some i, c', s') \<Rightarrow>
            (case run_task run i c' s' of Inl e \<Rightarrow> Some (Inl e) | Inr (c2, s2) \<Rightarrow> f run (n + 1) (k + 1) c2 s2)) = Some r"
    and ok: "run_ok run" "loop_ok None c s"
  show "?goal s r"
  proof (cases "n = 10 \<or> c_unhandled c")
    case True
    show ?thesis
    proof (cases "n = 10")
      case True
      then have "f run 0 0 c s = Some r" using body by simp
      from IH [OF this] ok show ?thesis by simp
    next
      case False
      with True body have "r = Inr (c, s)" "c_unhandled c" by simp_all
      with ok show ?thesis by (simp add: loop_done_def)
    qed
  next
    case False
    obtain e c1 s1 where e: "next_entry c s = (e, c1, s1)" by (metis prod_cases3)
    from next_entry_ok [OF ok(2) e] next_entry_keeps [OF e] have ok1: "loop_ok e c1 s1" and keep: "loop_keeps s s1" by auto
    show ?thesis
    proof (cases e)
      case None
      then have dn: "loop_done c1 s1" using next_entry_effect [OF e] by (simp add: loop_done_def)
      have ok2: "loop_ok None c1 s1" using ok1 None by simp
      have next1: "(if k = 0 then Some (Inr (c1, s1)) else f run 0 0 c1 s1) = Some r" using body False e None by simp
      show ?thesis
      proof (cases "k = 0")
        case True
        with next1 have "r = Inr (c1, s1)" by simp
        with dn ok2 keep show ?thesis by (intro exI [of _ c1] exI [of _ s1]) simp
      next
        case False
        with next1 have "f run 0 0 c1 s1 = Some r" by simp
        from IH [OF this] ok(1) ok2 have "?goal s1 r" by simp
        then show ?thesis using loop_keeps_trans [OF keep] by blast
      qed
    next
      case (Some i)
      from ok1 Some have "loop_ok (Some i) c1 s1" by simp
      from run_task_ok [OF ok(1) this] obtain c2 s2 where r: "run_task run i c1 s1 = Inr (c2, s2)" "loop_ok None c2 s2"
        and "rt_frame c1 (s1\<lparr>cx_core := Some c1\<rparr>) c2 (s2\<lparr>cx_core := Some c2\<rparr>)" by blast
      from run_task_keeps [OF this(3)] have rk: "loop_keeps s1 s2" by blast
      have "f run (n + 1) (k + 1) c2 s2 = Some r" using r(1) body False e Some by simp
      from IH [OF this] ok(1) r(2) have "?goal s2 r" by simp
      then show ?thesis using loop_keeps_trans [OF loop_keeps_trans [OF keep rk]] by blast
    qed
  qed
qed

text \<open>A measure of the work left in the tasks bounds the loop.\<close>

definition works_off :: "((nat \<Rightarrow> 'o tworld option) \<Rightarrow> nat) \<Rightarrow> (nat \<Rightarrow> 'o sched \<Rightarrow> 'o sched outcome) \<Rightarrow> bool" where
  "works_off m run \<longleftrightarrow> (\<forall>i c s s'. loop_ok (Some i) c s \<and> cx_core s = Some c \<and> run i s = Inr s' \<longrightarrow> m (sc_tasks s') < m (sc_tasks s))"

lemma deadlock_loop_returns:
  assumes "run_ok run" "works_off m run" "loop_ok None c s"
  shows "deadlock_loop run n k c s \<noteq> None"
  using assms(3)
proof (induction "(m (sc_tasks s), if n = 10 then 3 else if k = 0 then 1 else 2 :: nat)" arbitrary: n k c s
    rule: wf_induct_rule [OF wf_lex_prod [OF wf_less_than wf_less_than]])
  case (1 n k s c)
  show ?case
  proof (cases "n = 10 \<or> c_unhandled c")
    case True
    then show ?thesis using 1(1) [of s 0 0 c] 1(2) by (subst deadlock_loop.simps) auto
  next
    case False
    obtain e c1 s1 where e: "next_entry c s = (e, c1, s1)" by (metis prod_cases3)
    from next_entry_ok [OF 1(2) e] have ok: "loop_ok e c1 s1" .
    from next_entry_effect [OF e] have same: "sc_tasks s1 = sc_tasks s" by auto
    show ?thesis
    proof (cases e)
      case None
      then show ?thesis using 1(1) [of s1 0 0 c1] ok False e same by (subst deadlock_loop.simps) auto
    next
      case (Some i)
      from run_task_ok [OF assms(1), of i c1 s1] ok Some obtain c2 s2 s3 where
        r: "run_task run i c1 s1 = Inr (c2, s2)" "loop_ok None c2 s2"
          "run i (s1\<lparr>cx_core := Some c1\<rparr>) = Inr s3" "sc_tasks s2 = sc_tasks s3" by blast
      have "loop_ok (Some i) c1 (s1\<lparr>cx_core := Some c1\<rparr>)" using ok Some by (simp add: loop_ok_def)
      with assms(2) r(3) have "m (sc_tasks s3) < m (sc_tasks s)" unfolding works_off_def using same by fastforce
      with r(4) have "m (sc_tasks s2) < m (sc_tasks s)" by simp
      then have "deadlock_loop run (n + 1) (k + 1) c2 s2 \<noteq> None" using 1(1) [of s2 "n + 1" "k + 1" c2] r(2) by simp
      then show ?thesis using False e Some r(1) by (subst deadlock_loop.simps) simp
    qed
  qed
qed

section \<open>Deadlock\<close>

text \<open>A scheduler at rest: the core is in its cell, nothing runs.\<close>

definition resting :: "core \<Rightarrow> 'o sched \<Rightarrow> bool" where
  "resting c s \<longleftrightarrow> sc_core s = Some c \<and> cx_core s = None \<and> \<not> cx_current s \<and> \<not> sc_entered s \<and> sched_ok None c s \<and> all_idle s"

text \<open>A task nobody has to run: freed, complete, or waiting for a wake-up that has not come.\<close>

definition at_rest :: "'o tworld \<Rightarrow> bool" where
  "at_rest w \<longleftrightarrow> handles w = 0 \<or> t_complete (decode (tk_state (w_task w))) \<or>
     \<not> t_notified (decode (tk_state (w_task w))) \<and> \<not> t_running (decode (tk_state (w_task w)))"

lemma drained_at_rest:
  assumes "sched_ok None c s" "all_idle s" "queued_tasks c s = []" "sc_tasks s i = Some w"
  shows "at_rest w"
proof (cases "0 < handles w")
  case True
  from task_inv_live [OF sched_okD(1) [OF assms(1,4)] True] obtain d where
    d: "d = decode (tk_state (w_task w))" "flags_ok d w" by metis
  have "w_queued w = 0" using sched_okD(2) [OF assms(1,4)] assms(3) by simp
  moreover have "w_phase w = TIdle" using assms(2,4) by (simp add: all_idle_def)
  ultimately have "t_complete d \<or> \<not> t_notified d \<and> \<not> t_running d" using d(2) by (auto simp: flags_ok_def)
  then show ?thesis by (simp add: at_rest_def d(1))
qed (simp add: at_rest_def)

lemma resting_start:
  "resting c s \<Longrightarrow> loop_ok None c (s\<lparr>sc_core := None, cx_core := None, cx_current := True, sc_entered := True\<rparr>)"
  by (simp add: resting_def loop_ok_def)

lemma resting_end:
  "loop_ok None c s \<Longrightarrow> \<not> b \<Longrightarrow>
    resting c (s\<lparr>sc_entered := False, cx_current := b, cx_core := None, sc_core := Some c, sc_notifies := n\<rparr>)"
  by (simp add: resting_def loop_ok_def)

lemma poll_until_deadlock_eq:
  assumes "resting c s"
  shows "poll_until_deadlock run s =
     bind_oo (deadlock_loop run 0 0 c (s\<lparr>sc_core := None, cx_core := None, cx_current := True, sc_entered := True\<rparr>)) (\<lambda>(c', s').
       Some (Inr (s'\<lparr>sc_entered := False, cx_current := False, cx_core := None, sc_core := Some c', sc_notifies := sc_notifies s' + 1\<rparr>)))"
  using assms
  by (simp add: poll_until_deadlock_def take_core_def guard_enter_def rt_entered_def core_guard_drop_def resting_def bind_oo_def
      split: option.split sum.split prod.split)

text \<open>
  C3: When \<open>poll_until_deadlock\<close> returns, unless a panic was left unhandled, no queue holds a task and every
  task is complete, freed or waits for a wake-up: a deadlock is never reported while a task could run.
\<close>

theorem deadlock_means_nothing_to_run:
  assumes "run_ok run" "resting c s" "poll_until_deadlock run s = Some r"
  shows "\<exists>c' s'. r = Inr s' \<and> resting c' s' \<and>
    (\<not> c_unhandled c' \<longrightarrow> queued_tasks c' s' = [] \<and> (\<forall>i w. sc_tasks s' i = Some w \<longrightarrow> at_rest w))"
proof -
  let ?s = "s\<lparr>sc_core := None, cx_core := None, cx_current := True, sc_entered := True\<rparr>"
  from assms(3) obtain r1 where l: "deadlock_loop run 0 0 c ?s = Some r1"
    and r: "bind_oo (Some r1) (\<lambda>(c', s').
       Some (Inr (s'\<lparr>sc_entered := False, cx_current := False, cx_core := None, sc_core := Some c', sc_notifies := sc_notifies s' + 1\<rparr>))) = Some r"
    unfolding poll_until_deadlock_eq [OF assms(2)] by (cases "deadlock_loop run 0 0 c ?s") auto
  from deadlock_loop_ends [OF l] assms(1) resting_start [OF assms(2)] obtain c' s1 where
    s1: "r1 = Inr (c', s1)" "loop_ok None c' s1" "loop_done c' s1" by blast
  let ?s' = "s1\<lparr>sc_entered := False, cx_current := False, cx_core := None, sc_core := Some c', sc_notifies := sc_notifies s1 + 1\<rparr>"
  have "r = Inr ?s'" using r s1(1) by simp
  moreover have rest: "resting c' ?s'" using resting_end [OF s1(2), of False "sc_notifies s1 + 1"] by simp
  moreover have "queued_tasks c' ?s' = queued_tasks c' s1" by (simp add: queued_tasks_def)
  moreover have "sched_ok None c' ?s'" "all_idle ?s'" using rest by (simp_all add: resting_def)
  ultimately show ?thesis using s1(3) drained_at_rest [of c' ?s'] by (auto simp: loop_done_def)
qed

lemma deadlock_total:
  assumes "run_ok run" "works_off m run" "resting c s"
  shows "\<exists>s'. poll_until_deadlock run s = Some (Inr s')"
proof -
  let ?s = "s\<lparr>sc_core := None, cx_core := None, cx_current := True, sc_entered := True\<rparr>"
  from deadlock_loop_returns [OF assms(1,2) resting_start [OF assms(3)]] obtain r1 where
    l: "deadlock_loop run 0 0 c ?s = Some r1" by blast
  from deadlock_loop_ends [OF l] assms(1) resting_start [OF assms(3)] obtain c' s1 where "r1 = Inr (c', s1)" by blast
  then show ?thesis using l by (simp add: poll_until_deadlock_eq [OF assms(3)])
qed

text \<open>
  C30: \<open>poll_until_deadlock\<close> returns whenever running a task always uses up some of a finite amount of work.
\<close>

theorem poll_until_deadlock_returns:
  assumes "run_ok run" "works_off m run" "resting c s"
  shows "\<exists>s'. poll_until_deadlock run s = Some (Inr s')"
  by (rule deadlock_total [OF assms])

section \<open>A scheduler at work\<close>

text \<open>Tasks whose futures are ready at the first poll, as an instance of the contract.\<close>

definition ready_run :: "(nat \<Rightarrow> 'o) \<Rightarrow> nat \<Rightarrow> 'o sched \<Rightarrow> 'o sched outcome" where
  "ready_run ans i s =
     (case sc_tasks s i of
        None \<Rightarrow> Inl AssertFailed
      | Some w \<Rightarrow>
          and_then (harness_poll (\<lambda>t. Inr (AnsReady (ans i), [], t)) (\<lambda>t. Inr (False, [], t)) (w_task w)) (\<lambda>(evs, t).
            Inr (settle i w (w\<lparr>w_task := t, w_queued := w_queued w - 1\<rparr>) evs s)))"

lemma settle_twice:
  assumes "scheduled evs = 0" "sc_tasks s i = Some w" "tk_owned (w_task w2) \<longrightarrow> tk_owned (w_task w1)"
    "tk_owned (w_task w1) \<longrightarrow> tk_owned (w_task w)"
  shows "settle i w1 w2 evs (settle i w w1 [] s) = settle i w w2 evs s"
  using assms by (cases "tk_owned (w_task w)"; cases "tk_owned (w_task w1)"; cases "tk_owned (w_task w2)") (simp_all add: settle_def)

lemma ready_poll:
  assumes inv: "task_inv w" and idle: "w_phase w = TIdle" and queued: "0 < w_queued w"
  shows "\<exists>evs t. harness_poll (\<lambda>t. Inr (AnsReady a, [], t)) (\<lambda>t. Inr (False, [], t)) (w_task w) = Inr (evs, t) \<and> scheduled evs = 0 \<and>
    (evs = [] \<and> task_step w [] (w\<lparr>w_task := t, w_queued := w_queued w - 1\<rparr>) \<or>
     (\<exists>t1 p. task_step w [] (w\<lparr>w_task := t1, w_queued := w_queued w - 1, w_phase := p\<rparr>) \<and>
       task_step (w\<lparr>w_task := t1, w_queued := w_queued w - 1, w_phase := p\<rparr>) evs
         (w\<lparr>w_task := t, w_queued := w_queued w - 1\<rparr>)))"
proof -
  have pos: "0 < handles w" using queued handles_pos by blast
  from task_inv_live [OF inv pos] obtain d where d: "d = decode (tk_state (w_task w))" "t_refs d = handles w" "flags_ok d w" by metis
  then obtain r t1 where run: "to_running (w_task w) = Inr (r, t1)"
    using to_running_returns [of "w_task w"] queued pos by (auto simp: flags_ok_def)
  show ?thesis
  proof (cases "r = RunFailed \<or> r = RunDealloc")
    case True
    from poll_refused [OF queued run this] True run show ?thesis
      by (intro exI [of _ "[]"] exI [of _ "if r = RunDealloc then harness_dealloc t1 else t1"])
         (auto simp: harness_poll_def poll_inner_def)
  next
    case False
    then have r: "r = RunSuccess \<or> r = RunCancelled" by (cases r) auto
    let ?p = "if r = RunSuccess then TPolling else TCancelling"
    let ?w1 = "w\<lparr>w_task := t1, w_queued := w_queued w - 1, w_phase := ?p\<rparr>"
    have start: "task_step w [] ?w1" using poll_start [OF queued run r] .
    have inv1: "task_inv ?w1" by (rule task_step_inv [OF start inv])
    have phase: "w_phase ?w1 \<noteq> TIdle" "w_task ?w1 = t1" by simp_all
    obtain d1 where d1: "d1 = decode (tk_state t1)" "t_refs d1 = handles ?w1" "flags_ok d1 ?w1" "stage_ok d1 ?w1"
      using task_inv_live [OF inv1 handles_pos(4) [OF phase(1)]] phase(2) by metis
    have running: "t_running d1" "\<not> t_complete d1"
      using d1(3) phase(1) complete_idle [OF d1(3)] by (simp add: flags_ok_def, blast)
    then have stage: "tk_stage t1 = StRunning" using d1(4) by (simp add: stage_ok_def)
    let ?out = "if r = RunSuccess then Inr a else Inl (JoinCancelled (tk_id t1))"
    let ?t2 = "t1\<lparr>tk_stage := StFinished ?out\<rparr>"
    have "(if tk_owned t1 then 2 else 1) \<le> handles ?w1" by (simp add: handles_def)
    then have "t_running (decode (tk_state ?t2))" "\<not> t_complete (decode (tk_state ?t2))"
      "(if tk_owned ?t2 then 2 else 1) \<le> t_refs (decode (tk_state ?t2))" using running d1(1,2) by simp_all
    from harness_complete_spec [OF this] scheduled_wakes_joiner [of ?t2] obtain evs t' where
      fin: "harness_complete ?t2 = Inr (evs, t')" and sched: "scheduled evs = 0" by metis
    have "absorb evs (?w1\<lparr>w_task := t', w_phase := TIdle\<rparr>) = w\<lparr>w_task := t', w_queued := w_queued w - 1\<rparr>"
      using idle sched by (cases w) (simp add: absorb_def)
    moreover have "task_step ?w1 evs (absorb evs (?w1\<lparr>w_task := t', w_phase := TIdle\<rparr>))"
    proof (cases "r = RunSuccess")
      case True
      show ?thesis
        by (rule poll_complete [where ans = "AnsReady a" and t = ?t2])
           (use True fin in \<open>simp_all add: poll_finish_def poll_store_def store_output_def drop_future_or_output_def set_stage_def\<close>)
    next
      case False
      show ?thesis
        by (rule cancel_end [where panicked = False])
           (use False fin in \<open>simp_all add: cancel_finish_def cancel_store_def store_output_def drop_future_or_output_def set_stage_def\<close>)
    qed
    moreover have "harness_poll (\<lambda>t. Inr (AnsReady a, [], t)) (\<lambda>t. Inr (False, [], t)) (w_task w) = Inr (evs, t')"
      using r run stage fin
      by (auto simp: harness_poll_def poll_inner_def poll_future_def poll_store_def cancel_task_def cancel_store_def
          store_output_def drop_future_or_output_def set_stage_def)
    ultimately have "task_step ?w1 evs (w\<lparr>w_task := t', w_queued := w_queued w - 1\<rparr>)" by simp
    with start sched \<open>harness_poll _ _ _ = Inr (evs, t')\<close> show ?thesis
      by (intro exI [of _ evs] exI [of _ t'] conjI disjI2 exI [of _ t1] exI [of _ ?p])
  qed
qed

lemma ready_run_ok: "run_ok (ready_run ans)"
  unfolding run_ok_def
proof (intro allI impI, elim conjE)
  fix i c and s :: "'a sched"
  assume ok: "sched_ok (Some i) c s" and cx: "cx_core s = Some c" "cx_current s" and idle: "all_idle s"
  obtain w where w: "sc_tasks s i = Some w" using ok by (cases "sc_tasks s i") (auto simp: sched_ok_def)
  have wi: "w_phase w = TIdle" using idle w by (simp add: all_idle_def)
  have wq: "0 < w_queued w" using sched_okD(2) [OF ok w] by simp
  from ready_poll [OF sched_okD(1) [OF ok w] wi wq, of "ans i"] obtain evs t where
    poll: "harness_poll (\<lambda>t. Inr (AnsReady (ans i), [], t)) (\<lambda>t. Inr (False, [], t)) (w_task w) = Inr (evs, t)"
    and none: "scheduled evs = 0"
    and steps: "evs = [] \<and> task_step w [] (w\<lparr>w_task := t, w_queued := w_queued w - 1\<rparr>) \<or>
     (\<exists>t1 p. task_step w [] (w\<lparr>w_task := t1, w_queued := w_queued w - 1, w_phase := p\<rparr>) \<and>
       task_step (w\<lparr>w_task := t1, w_queued := w_queued w - 1, w_phase := p\<rparr>) evs
         (w\<lparr>w_task := t, w_queued := w_queued w - 1\<rparr>))" by blast
  let ?w' = "w\<lparr>w_task := t, w_queued := w_queued w - 1\<rparr>"
  let ?s' = "settle i w ?w' evs s"
  have run: "ready_run ans i s = Inr ?s'" by (simp add: ready_run_def w poll)
  have idle': "all_idle ?s'" using idle wi none by (auto simp: all_idle_def settle_def split: if_splits)
  show "\<exists>s1 s2. ready_run ans i s = Inr s2 \<and> rt_start i s s1 \<and> rt_step\<^sup>*\<^sup>* s1 s2 \<and> all_idle s2"
    using steps
  proof (elim disjE exE conjE)
    assume "evs = []" "task_step w [] ?w'"
    then have "rt_start i s ?s'" using rt_start.intros [OF w, of ?w'] wq by simp
    with run idle' show ?thesis by blast
  next
    fix t1 p
    let ?w1 = "w\<lparr>w_task := t1, w_queued := w_queued w - 1, w_phase := p\<rparr>"
    assume st: "task_step w [] ?w1" "task_step ?w1 evs ?w'"
    have "rt_start i s (settle i w ?w1 [] s)" using rt_start.intros [OF w st(1)] wq by simp
    moreover have "sc_tasks (settle i w ?w1 [] s) i = Some ?w1" by (simp add: settle_def)
    from rt_task [OF this st(2)] none have "rt_step (settle i w ?w1 [] s) (settle i ?w1 ?w' evs (settle i w ?w1 [] s))" by simp
    moreover have "settle i ?w1 ?w' evs (settle i w ?w1 [] s) = ?s'"
      by (rule settle_twice [OF none w task_step_owned [OF st(2)] task_step_owned [OF st(1)]])
    ultimately show ?thesis using run idle' by (metis r_into_rtranclp)
  qed
qed

definition queued_work :: "(nat \<Rightarrow> 'o tworld option) \<Rightarrow> nat" where
  "queued_work ts = card {i. \<exists>w. ts i = Some w \<and> 0 < w_queued w}"

lemma ready_run_works_off: "works_off queued_work (ready_run ans)"
  unfolding works_off_def
proof (intro allI impI, elim conjE)
  fix i c and s s' :: "'a sched"
  assume ok: "loop_ok (Some i) c s" and run: "ready_run ans i s = Inr s'"
  then have sok: "sched_ok (Some i) c s" and idle: "all_idle s" by (simp_all add: loop_ok_def)
  obtain w where w: "sc_tasks s i = Some w" using sok by (cases "sc_tasks s i") (auto simp: sched_ok_def)
  have wi: "w_phase w = TIdle" using idle w by (simp add: all_idle_def)
  have wq: "0 < w_queued w" using sched_okD(2) [OF sok w] by simp
  from ready_poll [OF sched_okD(1) [OF sok w] wi wq, of "ans i"] run obtain evs t where
    s': "s' = settle i w (w\<lparr>w_task := t, w_queued := w_queued w - 1\<rparr>) evs s" and none: "scheduled evs = 0"
    by (auto simp: ready_run_def w)
  have one: "w_queued w = 1"
  proof -
    have "0 < handles w" using wq handles_pos by blast
    from task_inv_live [OF sched_okD(1) [OF sok w] this] obtain d where "flags_ok d w" by metis
    then show ?thesis using wq by (auto simp: flags_ok_def)
  qed
  have ts: "sc_tasks s' = (sc_tasks s)(i \<mapsto> w\<lparr>w_task := t, w_queued := 0\<rparr>)" using none one by (simp add: s' settle_def)
  let ?A = "{i. \<exists>w. sc_tasks s i = Some w \<and> 0 < w_queued w}"
  have "?A \<subseteq> insert i (set (queued_tasks c s))"
  proof
    fix j assume "j \<in> ?A"
    then obtain v where "sc_tasks s j = Some v" "0 < w_queued v" by auto
    with sched_okD(2) [OF sok this(1)] show "j \<in> insert i (set (queued_tasks c s))"
      by (cases "j = i") (auto simp: count_none [symmetric] split: if_splits intro: ccontr)
  qed
  then have fin: "finite ?A" by (rule finite_subset) simp
  have "{j. \<exists>w. sc_tasks s' j = Some w \<and> 0 < w_queued w} = ?A - {i}" by (auto simp: ts)
  moreover have "i \<in> ?A" using w wq by simp
  ultimately show "queued_work (sc_tasks s') < queued_work (sc_tasks s)"
    unfolding queued_work_def using card_Diff1_less [OF fin] by (simp only:)
qed

text \<open>A fresh scheduler with one task in the shared queue.\<close>

definition one_task :: "nat sched" where
  "one_task = snd (schedule 0 (bind_open 0 7 (sched_new 1)))"

lemma one_task_resting: "resting core_new one_task"
proof -
  have t: "sc_tasks one_task = [0 \<mapsto> spawned 7]" and q: "queued_tasks core_new one_task = [0]"
    and o: "ow_list (sh_owned one_task) = [0]" "sc_owner one_task 0 = ow_id (sh_owned one_task)"
    by (simp_all add: one_task_def schedule_def bind_open_def sched_new_def owned_new_def get_next_id_def queued_tasks_def
        core_new_def wl_push_front_def)
  have "sched_ok None core_new one_task"
    unfolding sched_ok_def using spawned_inv [of 7] by (auto simp: t q o spawned_def)
  moreover have "all_idle one_task" by (simp add: all_idle_def t)
  ultimately show ?thesis
    by (simp add: resting_def) (simp add: one_task_def schedule_def bind_open_def sched_new_def)
qed

theorem poll_until_deadlock_returns_witness:
  "\<exists>s'. poll_until_deadlock (ready_run (\<lambda>_. 5)) one_task = Some (Inr s')"
  by (rule poll_until_deadlock_returns [OF ready_run_ok ready_run_works_off one_task_resting])

theorem deadlock_means_nothing_to_run_witness:
  "\<exists>s' c'. poll_until_deadlock (ready_run (\<lambda>_. 5)) one_task = Some (Inr s') \<and> resting c' s' \<and>
     (\<not> c_unhandled c' \<longrightarrow> queued_tasks c' s' = [])"
proof -
  obtain s' where s': "poll_until_deadlock (ready_run (\<lambda>_. 5)) one_task = Some (Inr s')"
    using deadlock_total [OF ready_run_ok ready_run_works_off one_task_resting] by blast
  from deadlock_means_nothing_to_run [OF ready_run_ok one_task_resting s'] s' show ?thesis by auto
qed

section \<open>\<open>block_on\<close>\<close>

lemma ctx_enter_main:
  assumes main: "main_ok main" and ok: "loop_ok None c s" and cx: "cx_core s = None"
  shows "\<exists>c' r s'. ctx_enter c main s = Inr (c', r, s') \<and> loop_ok None c' s' \<and> cx_core s' = None \<and>
    loop_keeps s s' \<and> length (queued_tasks c s) \<le> length (queued_tasks c' s') \<and> c_unhandled c' = c_unhandled c"
proof -
  let ?s = "s\<lparr>cx_core := Some c\<rparr>"
  have "sched_ok None c ?s \<and> cx_core ?s = Some c \<and> cx_current ?s \<and> all_idle ?s" using ok by (simp add: loop_ok_def)
  with main obtain r b s2 where m: "main ?s = Inr (r, s2\<lparr>sh_woken := b\<rparr>)" "rt_step\<^sup>*\<^sup>* ?s s2" "all_idle s2"
    unfolding main_ok_def by blast
  from rt_steps_ok [OF m(2), of c] ok obtain c2 where c2: "sched_ok None c2 s2" "rt_frame c ?s c2 s2" by (auto simp: loop_ok_def)
  then have "cx_core s2 = Some c2" "cx_current s2" using ok by (simp_all add: rt_frame_def loop_ok_def)
  then have "ctx_enter c main s = Inr (c2, r, s2\<lparr>sh_woken := b, cx_core := None\<rparr>)"
    using m(1) by (simp add: ctx_enter_def)
  moreover have "length (queued_tasks c s) \<le> length (queued_tasks c2 s2)"
    using c2(2) by (auto simp: rt_frame_def queued_tasks_def)
  moreover have "loop_keeps s (s2\<lparr>sh_woken := b, cx_core := None\<rparr>)" using c2(2) by (simp add: rt_frame_def loop_keeps_def)
  moreover have "c_unhandled c2 = c_unhandled c" using c2(2) by (simp add: rt_frame_def)
  ultimately show ?thesis using c2(1) m(3) \<open>cx_current s2\<close>
    by (intro exI [of _ c2] exI [of _ r] exI [of _ "s2\<lparr>sh_woken := b, cx_core := None\<rparr>"]) (simp add: loop_ok_def)
qed

text \<open>Ten entries in a row, none missing.\<close>

lemma block_round:
  assumes "run_ok run" "loop_ok None c s" "n + m = 10" "m \<le> length (queued_tasks c s)" "\<not> c_unhandled c"
  shows "block_loop run main (Inner n k) c s = Some (Inl Unimplemented)"
  using assms(2-)
proof (induction m arbitrary: n k c s)
  case 0
  then show ?case by (subst block_loop.simps) (simp add: park_yield_def)
next
  case (Suc m)
  obtain e c1 s1 where e: "next_entry c s = (e, c1, s1)" by (metis prod_cases3)
  from next_entry_ok [OF Suc.prems(1) e] have ok: "loop_ok e c1 s1" .
  have "queued_tasks c s \<noteq> []" using Suc.prems(3) by auto
  with next_entry_effect [OF e] obtain i as bs where i: "e = Some i" "queued_tasks c s = as @ i # bs" "queued_tasks c1 s1 = as @ bs"
    and u: "c_unhandled c1 = c_unhandled c" by (cases e) auto
  from ok i(1) have "loop_ok (Some i) c1 s1" by simp
  from run_task_ok [OF assms(1) this] obtain c2 s2 where r: "run_task run i c1 s1 = Inr (c2, s2)" "loop_ok None c2 s2"
    and fr: "rt_frame c1 (s1\<lparr>cx_core := Some c1\<rparr>) c2 (s2\<lparr>cx_core := Some c2\<rparr>)" by blast
  have "length (queued_tasks c1 s1) \<le> length (queued_tasks c2 s2)" using fr by (auto simp: rt_frame_def queued_tasks_def)
  then have len: "m \<le> length (queued_tasks c2 s2)" using Suc.prems(3) i by simp
  have "\<not> c_unhandled c2" using fr u Suc.prems(4) by (simp add: rt_frame_def)
  from Suc.IH [OF r(2) _ len this, of "n + 1" "k + 1"] Suc.prems(2)
  have "block_loop run main (Inner (n + 1) (k + 1)) c2 s2 = Some (Inl Unimplemented)" by simp
  then show ?case using Suc.prems(2,4) e i(1) r(1) by (subst block_loop.simps) simp
qed

lemma block_on_eq:
  assumes "resting c s"
  shows "block_on run main s =
     bind_oo (block_loop run main Outer c (s\<lparr>sc_core := None, cx_core := None, cx_current := True, sc_entered := True, sh_woken := True\<rparr>)) (\<lambda>(c', r, s').
       Some (Inr (r, s'\<lparr>sc_entered := False, cx_current := False, cx_core := None, sc_core := Some c', sc_notifies := sc_notifies s' + 1\<rparr>)))"
  using assms
  by (simp add: block_on_def take_core_def guard_enter_def rt_entered_def core_guard_drop_def resting_def bind_oo_def sched_waker_ref_def
      split: option.split sum.split prod.split)

text \<open>
  C29: A call of \<open>block_on\<close> whose future is not ready at its first poll panics as soon as ten tasks are queued: after
  a round of ten the loop calls \<open>park_yield\<close>, which is \<open>unimplemented!\<close>.
\<close>

theorem block_on_panics_after_ten_tasks:
  assumes "run_ok run" "main_ok main" "resting c s" "\<not> c_unhandled c" "10 \<le> length (queued_tasks c s)"
    and "\<And>s r s'. main s = Inr (r, s') \<Longrightarrow> r = Pending"
  shows "block_on run main s = Some (Inl Unimplemented)"
proof -
  let ?s = "s\<lparr>sc_core := None, cx_core := None, cx_current := True, sc_entered := True, sh_woken := False\<rparr>"
  have ok: "loop_ok None c ?s" using resting_start [OF assms(3)] by (simp add: loop_ok_def)
  from ctx_enter_main [OF assms(2) ok] obtain c1 r s1 where
    m: "ctx_enter c main ?s = Inr (c1, r, s1)" "loop_ok None c1 s1" "length (queued_tasks c ?s) \<le> length (queued_tasks c1 s1)"
      "c_unhandled c1 = c_unhandled c" by auto
  have "r = Pending" using m(1) assms(6) by (auto simp: ctx_enter_def and_then_eq_Inr split: option.splits)
  moreover have "length (queued_tasks c ?s) = length (queued_tasks c s)" by (simp add: queued_tasks_def)
  ultimately have "block_loop run main (Inner 0 1) c1 s1 = Some (Inl Unimplemented)"
    using block_round [OF assms(1) m(2), of 0 10 main 1] m(3,4) assms(4,5) by simp
  then have "block_loop run main Outer c (s\<lparr>sc_core := None, cx_core := None, cx_current := True, sc_entered := True, sh_woken := True\<rparr>)
      = Some (Inl Unimplemented)"
    using m(1) \<open>r = Pending\<close> by (subst block_loop.simps) (simp add: reset_woken_def)
  then show ?thesis by (simp add: block_on_eq [OF assms(3)])
qed

primrec many :: "nat \<Rightarrow> nat sched" where
  "many 0 = sched_new 1"
| "many (Suc n) = snd (schedule n (bind_open n 7 (many n)))"

lemma many_resting:
  "resting core_new (many n) \<and> (\<forall>i\<ge>n. sc_tasks (many n) i = None) \<and> (\<exists>q. sh_queue (many n) = Some q \<and> length q = n)"
proof (induction n)
  case 0
  then show ?case by (simp add: resting_def sched_ok_def all_idle_def sched_new_def owned_new_def get_next_id_def queued_tasks_def core_new_def)
next
  case (Suc n)
  let ?s = "many n"
  from Suc obtain q where q: "sh_queue ?s = Some q" "length q = n" and rest: "resting core_new ?s"
    and new: "\<forall>i\<ge>n. sc_tasks ?s i = None" by blast
  then have ok: "sched_ok None core_new ?s" "all_idle ?s" and cx: "\<not> cx_current ?s" by (simp_all add: resting_def)
  have s': "many (Suc n) = (bind_open n 7 ?s)\<lparr>sh_queue := Some (q @ [n])\<rparr>"
    using cx q(1) by (simp add: schedule_def bind_open_def)
  have none: "n \<notin> set (queued_tasks core_new ?s)" "n \<notin> set (ow_list (sh_owned ?s))" using ok(1) new by (auto simp: sched_ok_def)
  have tq: "queued_tasks core_new ?s = q" "queued_tasks core_new (many (Suc n)) = q @ [n]"
    unfolding s' by (simp_all add: queued_tasks_def core_new_def q bind_open_def)
  have parts: "sc_tasks (many (Suc n)) = (sc_tasks ?s)(n \<mapsto> spawned 7)" "sc_owner (many (Suc n)) = (sc_owner ?s)(n := ow_id (sh_owned ?s))"
    "ow_list (sh_owned (many (Suc n))) = n # ow_list (sh_owned ?s)" "ow_id (sh_owned (many (Suc n))) = ow_id (sh_owned ?s)"
    unfolding s' by (simp_all add: bind_open_def wl_push_front_def)
  have "sched_ok None core_new (many (Suc n))"
    unfolding sched_ok_def parts tq
  proof (intro conjI allI impI)
    show "distinct (n # ow_list (sh_owned ?s))" using ok(1) none by (simp add: sched_ok_def)
  next
    fix j v assume "((sc_tasks ?s)(n \<mapsto> spawned 7)) j = Some v"
    then consider "j = n" "v = spawned 7" | "j \<noteq> n" "sc_tasks ?s j = Some v" by (auto split: if_splits)
    then have "task_inv v \<and> w_queued v = count_list (q @ [n]) j \<and> (tk_owned (w_task v) \<longleftrightarrow> j \<in> set (n # ow_list (sh_owned ?s))) \<and>
      ((sc_owner ?s)(n := ow_id (sh_owned ?s))) j = ow_id (sh_owned ?s)"
    proof cases
      case 1
      then show ?thesis using spawned_inv none by (simp add: tq count_none spawned_def)
    next
      case 2
      then show ?thesis using sched_okD [OF ok(1) 2(2)] by (simp add: tq)
    qed
    then show "task_inv v" "w_queued v = count_list (q @ [n]) j + (if None = Some j then 1 else 0)"
      "tk_owned (w_task v) \<longleftrightarrow> j \<in> set (n # ow_list (sh_owned ?s))" "((sc_owner ?s)(n := ow_id (sh_owned ?s))) j = ow_id (sh_owned ?s)"
      by simp_all
  next
    fix j assume "((sc_tasks ?s)(n \<mapsto> spawned 7)) j = None"
    then have "j \<noteq> n" "sc_tasks ?s j = None" by (auto split: if_splits)
    then show "j \<notin> set (q @ [n])" "j \<notin> set (n # ow_list (sh_owned ?s))" using ok(1) by (auto simp: sched_ok_def tq)
  qed simp
  moreover have "all_idle (many (Suc n))" using ok(2) by (simp add: all_idle_def parts spawned_def del: many.simps)
  moreover have "sc_core (many (Suc n)) = sc_core ?s" "cx_core (many (Suc n)) = cx_core ?s" "cx_current (many (Suc n)) = cx_current ?s"
    "sc_entered (many (Suc n)) = sc_entered ?s" unfolding s' by (simp_all add: bind_open_def)
  ultimately have "resting core_new (many (Suc n))" using rest by (simp add: resting_def del: many.simps)
  moreover have "sh_queue (many (Suc n)) = Some (q @ [n])" unfolding s' by simp
  ultimately show ?case using new q(2) by (simp add: parts del: many.simps)
qed

lemma constant_main_ok: "main_ok (\<lambda>s. Inr (r0, s))"
  unfolding main_ok_def
proof (intro allI impI)
  fix c and s :: "'a sched" assume "sched_ok None c s \<and> cx_core s = Some c \<and> cx_current s \<and> all_idle s"
  moreover have "s\<lparr>sh_woken := sh_woken s\<rparr> = s" by (cases s) simp
  ultimately show "\<exists>r b s2. Inr (r0, s) = Inr (r, s2\<lparr>sh_woken := b\<rparr>) \<and> rt_step\<^sup>*\<^sup>* s s2 \<and> all_idle s2"
    by (intro exI [of _ r0] exI [of _ "sh_woken s"] exI [of _ s]) simp
qed

theorem block_on_panics_after_ten_tasks_witness:
  "block_on (ready_run (\<lambda>_. 5)) (\<lambda>s. Inr (Pending :: nat poll, s)) (many 10) = Some (Inl Unimplemented)"
proof (rule block_on_panics_after_ten_tasks [OF ready_run_ok constant_main_ok conjunct1 [OF many_resting]])
  show "\<not> c_unhandled core_new" by (simp add: core_new_def)
  show "10 \<le> length (queued_tasks core_new (many 10))"
    using many_resting [of 10] by (auto simp: queued_tasks_def core_new_def)
qed simp

text \<open>What a call of \<open>block_on\<close> can end with.\<close>

definition woken_ok :: "block_stage \<Rightarrow> 'o sched \<Rightarrow> bool" where
  "woken_ok st s \<longleftrightarrow> (\<forall>n. st = Inner n 0 \<longrightarrow> \<not> sh_woken s)"

lemma next_entry_woken: "next_entry c s = (r, c', s') \<Longrightarrow> sh_woken s' = sh_woken s \<and> cx_core s' = cx_core s"
  using next_entry_effect [of c s r c' s'] by auto

definition block_end :: "'o sched \<Rightarrow> (core \<times> 'v option \<times> 'o sched) outcome \<Rightarrow> bool" where
  "block_end s r \<longleftrightarrow> r = Inl Unimplemented \<or>
     (\<exists>c' v s'. r = Inr (c', v, s') \<and> loop_ok None c' s' \<and>
       (v = None \<longrightarrow> c_unhandled c' \<or> queued_tasks c' s' = [] \<and> \<not> sh_woken s'))"

lemma block_loop_ends:
  fixes run :: "nat \<Rightarrow> 'a sched \<Rightarrow> 'a sched outcome" and main :: "'a sched \<Rightarrow> ('b poll \<times> 'a sched) outcome"
  assumes "block_loop run main st c s = Some r"
  shows "run_ok run \<longrightarrow> main_ok main \<longrightarrow> loop_ok None c s \<longrightarrow> cx_core s = None \<longrightarrow> woken_ok st s \<longrightarrow> block_end s r"
proof (rule block_loop.raw_induct [where P = "\<lambda>run main st c s r. run_ok run \<longrightarrow> main_ok main \<longrightarrow> loop_ok None c s \<longrightarrow>
    cx_core s = None \<longrightarrow> woken_ok st s \<longrightarrow> block_end s r", OF _ assms], intro impI)
  fix f :: "(nat \<Rightarrow> 'a sched \<Rightarrow> 'a sched outcome) \<Rightarrow> ('a sched \<Rightarrow> ('b poll \<times> 'a sched) outcome) \<Rightarrow> block_stage \<Rightarrow> core \<Rightarrow> 'a sched
      \<Rightarrow> (core \<times> 'b option \<times> 'a sched) outcome option" and run main st c s r
  assume IH: "\<And>run main st c s r. f run main st c s = Some r \<Longrightarrow> run_ok run \<longrightarrow> main_ok main \<longrightarrow> loop_ok None c s \<longrightarrow>
      cx_core s = None \<longrightarrow> woken_ok st s \<longrightarrow> block_end s r"
    and body: "(case st of
        Outer \<Rightarrow>
          (case reset_woken s of (woken, s1) \<Rightarrow>
             if \<not> woken then f run main (Inner 0 0) c s1
             else
               (case ctx_enter c main s1 of
                  Inl e \<Rightarrow> Some (Inl e)
                | Inr (c2, Ready v, s2) \<Rightarrow> Some (Inr (c2, Some v, s2))
                | Inr (c2, Pending, s2) \<Rightarrow> f run main (Inner 0 1) c2 s2))
      | Inner n k \<Rightarrow>
          if n = 10 then
            (case park_yield c of Inl e \<Rightarrow> Some (Inl e) | Inr c' \<Rightarrow> f run main Outer c' s)
          else if c_unhandled c then Some (Inr (c, None, s))
          else
            (case next_entry c s of
               (None, c', s') \<Rightarrow> if k = 0 then Some (Inr (c', None, s')) else f run main Outer c' s'
             | (Some i, c', s') \<Rightarrow>
                 (case run_task run i c' s' of
                    Inl e \<Rightarrow> Some (Inl e)
                  | Inr (c2, s2) \<Rightarrow> f run main (Inner (n + 1) (k + 1)) c2 s2))) = Some r"
    and ok: "run_ok run" "main_ok main" "loop_ok None c s" "cx_core s = None" "woken_ok st s"
  have end_indep: "block_end s1 r \<Longrightarrow> block_end s r" for s1 by (simp add: block_end_def)
  show "block_end s r"
  proof (cases st)
    case Outer
    let ?s1 = "s\<lparr>sh_woken := False\<rparr>"
    have ok1: "loop_ok None c ?s1" "cx_core ?s1 = None" using ok by (simp_all add: loop_ok_def)
    show ?thesis
    proof (cases "sh_woken s")
      case False
      then have "f run main (Inner 0 0) c ?s1 = Some r" using body Outer by (simp add: reset_woken_def)
      from IH [OF this] ok ok1 have "block_end ?s1 r" by (simp add: woken_ok_def)
      then show ?thesis by (rule end_indep)
    next
      case True
      from ctx_enter_main [OF ok(2) ok1] obtain c2 v s2 where
        m: "ctx_enter c main ?s1 = Inr (c2, v, s2)" "loop_ok None c2 s2" "cx_core s2 = None" by blast
      show ?thesis
      proof (cases v)
        case Pending
        then have "f run main (Inner 0 1) c2 s2 = Some r" using body Outer True m(1) by (simp add: reset_woken_def)
        from IH [OF this] ok m have "block_end s2 r" by (simp add: woken_ok_def)
        then show ?thesis by (rule end_indep)
      next
        case (Ready x)
        then have "r = Inr (c2, Some x, s2)" using body Outer True m(1) by (simp add: reset_woken_def)
        then show ?thesis using m(2) by (simp add: block_end_def)
      qed
    qed
  next
    case (Inner n k)
    show ?thesis
    proof (cases "n = 10 \<or> c_unhandled c")
      case True
      show ?thesis
      proof (cases "n = 10")
        case True
        then have "r = Inl Unimplemented" using body Inner by (simp add: park_yield_def)
        then show ?thesis by (simp add: block_end_def)
      next
        case False
        with True body Inner have "r = Inr (c, None, s)" "c_unhandled c" by simp_all
        then show ?thesis using ok(3) by (simp add: block_end_def)
      qed
    next
      case False
      obtain e c1 s1 where e: "next_entry c s = (e, c1, s1)" by (metis prod_cases3)
      from next_entry_ok [OF ok(3) e] next_entry_woken [OF e] have ok1: "loop_ok e c1 s1" "cx_core s1 = None" "sh_woken s1 = sh_woken s"
        using ok(4) by simp_all
      show ?thesis
      proof (cases e)
        case None
        then have empty: "queued_tasks c1 s1 = []" using next_entry_effect [OF e] by simp
        have ok2: "loop_ok None c1 s1" using ok1(1) None by simp
        show ?thesis
        proof (cases "k = 0")
          case True
          then have "r = Inr (c1, None, s1)" using body Inner False e None by simp
          moreover have "\<not> sh_woken s1" using ok(5) ok1(3) Inner True by (simp add: woken_ok_def)
          ultimately show ?thesis using empty ok2 by (simp add: block_end_def)
        next
          case k: False
          then have "f run main Outer c1 s1 = Some r" using body Inner False e None by simp
          from IH [OF this] ok ok1(2) ok2 have "block_end s1 r" by (simp add: woken_ok_def)
          then show ?thesis by (rule end_indep)
        qed
      next
        case (Some i)
        from ok1(1) Some have "loop_ok (Some i) c1 s1" by simp
        from run_task_ok [OF ok(1) this] obtain c2 s2 where r: "run_task run i c1 s1 = Inr (c2, s2)" "loop_ok None c2 s2" "cx_core s2 = None" by blast
        have "f run main (Inner (n + 1) (k + 1)) c2 s2 = Some r" using r(1) body Inner False e Some by simp
        from IH [OF this] ok r have "block_end s2 r" by (simp add: woken_ok_def)
        then show ?thesis by (rule end_indep)
      qed
    qed
  qed
qed

text \<open>
  When \<open>block_on\<close> returns it has either the value its future answered, or reports a deadlock while both queues are
  empty, every task is at rest and nobody woke the future; the only panic is the missing \<open>park_yield\<close>.
\<close>

lemma block_on_answers:
  assumes "run_ok run" "main_ok main" "resting c s" "block_on run main s = Some r"
  shows "r = Inl Unimplemented \<or> (\<exists>v c' s'. r = Inr (v, s') \<and> resting c' s' \<and>
    (v = None \<longrightarrow> c_unhandled c' \<or> \<not> sh_woken s' \<and> queued_tasks c' s' = [] \<and> (\<forall>i w. sc_tasks s' i = Some w \<longrightarrow> at_rest w)))"
proof -
  let ?s = "s\<lparr>sc_core := None, cx_core := None, cx_current := True, sc_entered := True, sh_woken := True\<rparr>"
  let ?fin = "\<lambda>c' s'. s'\<lparr>sc_entered := False, cx_current := False, cx_core := None, sc_core := Some c', sc_notifies := sc_notifies s' + 1\<rparr>"
  from assms(4) obtain r1 where l: "block_loop run main Outer c ?s = Some r1"
    and r: "bind_oo (Some r1) (\<lambda>(c', v, s'). Some (Inr (v, ?fin c' s'))) = Some r"
    unfolding block_on_eq [OF assms(3)] by (cases "block_loop run main Outer c ?s") auto
  have "loop_ok None c ?s" using resting_start [OF assms(3)] by (simp add: loop_ok_def)
  with block_loop_ends [OF l] assms(1,2) have "block_end ?s r1" by (simp add: woken_ok_def)
  then consider "r1 = Inl Unimplemented" | c' v s' where "r1 = Inr (c', v, s')" "loop_ok None c' s'"
      "v = None \<longrightarrow> c_unhandled c' \<or> queued_tasks c' s' = [] \<and> \<not> sh_woken s'" unfolding block_end_def by blast
  then show ?thesis
  proof cases
    case 1
    then show ?thesis using r by simp
  next
    case (2 c' v s')
    have e: "r = Inr (v, ?fin c' s')" using r 2(1) by simp
    have rest: "resting c' (?fin c' s')" using resting_end [OF 2(2), of False "sc_notifies s' + 1"] by simp
    have q: "queued_tasks c' (?fin c' s') = queued_tasks c' s'" "sh_woken (?fin c' s') = sh_woken s'" by (simp_all add: queued_tasks_def)
    have "sched_ok None c' (?fin c' s')" "all_idle (?fin c' s')" using rest by (simp_all add: resting_def)
    then have "queued_tasks c' s' = [] \<Longrightarrow> sc_tasks (?fin c' s') i = Some w \<Longrightarrow> at_rest w" for i w
      using drained_at_rest [of c' "?fin c' s'" i w] q by simp
    moreover obtain u where u: "?fin c' s' = u" by blast
    ultimately show ?thesis using e rest 2(3) q unfolding u by (intro disjI2 exI [of _ v] exI [of _ c'] exI [of _ u]) auto
  qed
qed

lemma block_on_answers_witness:
  "\<exists>s'. block_on (ready_run (\<lambda>_. 5)) (\<lambda>s. Inr (Ready (3 :: nat), s)) one_task = Some (Inr (Some 3, s')) \<and>
     (\<exists>c'. resting c' s')"
proof -
  have "\<exists>s'. block_on (ready_run (\<lambda>_. 5)) (\<lambda>s. Inr (Ready (3 :: nat), s)) one_task = Some (Inr (Some 3, s'))"
    unfolding block_on_eq [OF one_task_resting] by (subst block_loop.simps) (simp add: reset_woken_def ctx_enter_def)
  then obtain s' where e: "block_on (ready_run (\<lambda>_. 5)) (\<lambda>s. Inr (Ready (3 :: nat), s)) one_task = Some (Inr (Some 3, s'))" by blast
  from block_on_answers [OF ready_run_ok constant_main_ok one_task_resting e] e show ?thesis by auto
qed

section \<open>Shutdown\<close>

lemma owned_pop_simps:
  "ow_list ow = [] \<Longrightarrow> owned_pop ow = (None, ow)"
  "ow_list ow = is @ [i] \<Longrightarrow> owned_pop ow = (Some i, ow\<lparr>ow_list := is\<rparr>)"
proof -
  have "ow\<lparr>ow_list := ow_list ow\<rparr> = ow" by (cases ow) simp
  then show "ow_list ow = [] \<Longrightarrow> owned_pop ow = (None, ow)" by (simp add: owned_pop_def wl_pop_back_def)
  show "ow_list ow = is @ [i] \<Longrightarrow> owned_pop ow = (Some i, ow\<lparr>ow_list := is\<rparr>)" by (simp add: owned_pop_def wl_pop_back_def)
qed

lemma shutdown_loop_ends:
  assumes shut: "\<And>i s. ow_closed (sh_owned s) \<Longrightarrow> \<exists>s'. shut i s = Inr s' \<and> ow_closed (sh_owned s') \<and>
      length (ow_list (sh_owned s')) \<le> length (ow_list (sh_owned s))"
    and "ow_closed (sh_owned s)"
  shows "\<exists>s'. shutdown_loop shut s = Some (Inr s') \<and> ow_list (sh_owned s') = [] \<and> ow_closed (sh_owned s')"
  using assms(2)
proof (induction "length (ow_list (sh_owned s))" arbitrary: s rule: less_induct)
  case less
  show ?case
  proof (cases "ow_list (sh_owned s)" rule: rev_cases)
    case Nil
    have "s\<lparr>sh_owned := sh_owned s\<rparr> = s" by (cases s) simp
    then show ?thesis using Nil less.prems by (subst shutdown_loop.simps) (simp add: owned_pop_simps)
  next
    case (snoc js i)
    let ?s = "s\<lparr>sh_owned := (sh_owned s)\<lparr>ow_list := js\<rparr>\<rparr>"
    have "ow_closed (sh_owned ?s)" using less.prems by simp
    from shut [OF this, of i] obtain s' where s': "shut i ?s = Inr s'" "ow_closed (sh_owned s')" "length (ow_list (sh_owned s')) \<le> length js"
      by auto
    have "length (ow_list (sh_owned s')) < length (ow_list (sh_owned s))" using s'(3) snoc by simp
    from less.hyps [OF this s'(2)] s'(1) snoc show ?thesis by (subst shutdown_loop.simps) (simp add: owned_pop_simps)
  qed
qed

lemma drop_tasks_ends:
  assumes lose: "\<And>i s. \<exists>s'. lose i s = Inr s' \<and> sh_owned s' = sh_owned s \<and> sh_queue s' = sh_queue s"
  shows "\<exists>s'. drop_tasks lose js s = Inr s' \<and> sh_owned s' = sh_owned s \<and> sh_queue s' = sh_queue s"
proof (induction js arbitrary: s)
  case (Cons i js)
  from lose obtain s1 where "lose i s = Inr s1" "sh_owned s1 = sh_owned s" "sh_queue s1 = sh_queue s" by blast
  with Cons.IH [of s1] show ?case by auto
qed simp

text \<open>
  Dropping the scheduler shuts down every task it owns and empties both queues for good; the assertion
  that no owned task is left holds. \<open>shut\<close> and \<open>lose\<close> are what shutting down a task and dropping a handle do:
  neither adds to a closed list of owned tasks.
\<close>

lemma scheduler_drop_shuts_down:
  assumes "\<And>i s. ow_closed (sh_owned s) \<Longrightarrow> \<exists>s'. shut i s = Inr s' \<and> ow_closed (sh_owned s') \<and>
      length (ow_list (sh_owned s')) \<le> length (ow_list (sh_owned s))"
    and "\<And>i s. \<exists>s'. lose i s = Inr s' \<and> sh_owned s' = sh_owned s \<and> sh_queue s' = sh_queue s"
    and "resting c s"
  shows "\<exists>s'. sched_drop shut lose s = Some (Inr s') \<and> sc_core s' = Some (c\<lparr>c_tasks := []\<rparr>) \<and> sh_queue s' = None \<and>
    ow_list (sh_owned s') = [] \<and> ow_closed (sh_owned s')"
proof -
  let ?s = "s\<lparr>sc_core := None, cx_core := None, cx_current := True\<rparr>"
  let ?c = "?s\<lparr>sh_owned := (sh_owned ?s)\<lparr>ow_closed := True\<rparr>\<rparr>"
  have "ow_closed (sh_owned ?c)" by simp
  from shutdown_loop_ends [where shut = shut, OF assms(1) this] obtain s1 where
    s1: "shutdown_loop shut ?c = Some (Inr s1)" "ow_list (sh_owned s1) = []" "ow_closed (sh_owned s1)" by blast
  from drop_tasks_ends [where lose = lose, OF assms(2), of "c_tasks c" s1] obtain s2 where
    s2: "drop_tasks lose (c_tasks c) s1 = Inr s2" "sh_owned s2 = sh_owned s1" by blast
  define remote where "remote = (case sh_queue s2 of None \<Rightarrow> [] | Some q \<Rightarrow> q)"
  from drop_tasks_ends [where lose = lose, OF assms(2), of remote "s2\<lparr>sh_queue := None\<rparr>"] obtain s3 where
    s3: "drop_tasks lose remote (s2\<lparr>sh_queue := None\<rparr>) = Inr s3" "sh_owned s3 = sh_owned s2" "sh_queue s3 = None" by auto
  have "drop_body shut lose c ?s = Some (Inr (c\<lparr>c_tasks := []\<rparr>, (), s3))"
    using s1 s2 s3 by (simp add: drop_body_def close_and_shutdown_all_def Let_def remote_def [symmetric] owned_is_empty_def)
  then show ?thesis
    using assms(3) s1 s2 s3
    by (simp add: sched_drop_def take_core_def guard_enter_def core_guard_drop_def resting_def)
qed

lemma scheduler_drop_shuts_down_witness:
  "\<exists>s'. sched_drop (\<lambda>_. Inr) (\<lambda>_. Inr) one_task = Some (Inr s') \<and> sh_queue s' = None \<and> ow_list (sh_owned s') = [] \<and> ow_closed (sh_owned s')"
  using scheduler_drop_shuts_down [OF _ _ one_task_resting, of "\<lambda>_. Inr" "\<lambda>_. Inr"] by auto

lemma count_distinct:
  assumes "\<And>x. x \<in> set xs \<Longrightarrow> count_list xs x = 1"
  shows "distinct xs"
proof (rule ccontr)
  assume "\<not> distinct xs"
  then obtain as y bs cs where "xs = as @ [y] @ bs @ [y] @ cs" using not_distinct_decomp by blast
  then have "y \<in> set xs" "2 \<le> count_list xs y" by simp_all
  with assms show False by force
qed

section \<open>Everything that can happen to the queues\<close>

text \<open>
  The states a scheduler can be in until it is shut down: \<open>h\<close> is the handle a loop popped and has not run yet,
  \<open>c\<close> the core, which is in its cell, in the loop that took it, or in the context while a task (or the
  future of \<open>block_on\<close>) runs. \<open>sr_remote\<close> is a task operation from where the context is not set: between the
  calls of the scheduler, in the context of another one, or on another thread, whatever this one is doing.
\<close>

inductive sched_run :: "nat option \<Rightarrow> core \<Rightarrow> 'o sched \<Rightarrow> bool" where
  sr_start: "sched_run None core_new (sched_new n)"
| sr_remote: "\<lbrakk>sched_run h c s; rt_step (s\<lparr>cx_current := False\<rparr>) s'\<rbrakk> \<Longrightarrow> sched_run h c (s'\<lparr>cx_current := cx_current s\<rparr>)"
| sr_enter: "\<lbrakk>sched_run None c s; \<not> cx_current s; take_core s = Some s'\<rbrakk>
    \<Longrightarrow> sched_run None c (s'\<lparr>cx_core := None, cx_current := True\<rparr>)"
| sr_entry: "\<lbrakk>sched_run None c s; cx_current s; cx_core s = None; next_entry c s = (h, c', s')\<rbrakk> \<Longrightarrow> sched_run h c' s'"
| sr_poll: "\<lbrakk>sched_run (Some i) c s; rt_start i (s\<lparr>cx_core := Some c\<rparr>) s'; cx_core s' = Some c'\<rbrakk> \<Longrightarrow> sched_run None c' s'"
| sr_main: "\<lbrakk>sched_run None c s; cx_current s; cx_core s = None\<rbrakk> \<Longrightarrow> sched_run None c (s\<lparr>cx_core := Some c\<rparr>)"
| sr_task: "\<lbrakk>sched_run None c s; cx_current s; cx_core s = Some c; rt_step s s'; cx_core s' = Some c'\<rbrakk> \<Longrightarrow> sched_run None c' s'"
| sr_back: "\<lbrakk>sched_run None c s; cx_current s; cx_core s = Some c\<rbrakk> \<Longrightarrow> sched_run None c (s\<lparr>cx_core := None\<rparr>)"
| sr_leave: "\<lbrakk>sched_run None c s; cx_current s; cx_core s = None\<rbrakk>
    \<Longrightarrow> sched_run None c (core_guard_drop (s\<lparr>cx_current := False, cx_core := Some c\<rparr>))"
| sr_flags: "sched_run h c s \<Longrightarrow> sched_run h c (s\<lparr>sh_woken := b, sc_entered := e\<rparr>)"

definition run_inv :: "nat option \<Rightarrow> core \<Rightarrow> 'o sched \<Rightarrow> bool" where
  "run_inv h c s \<longleftrightarrow> sched_ok h c s \<and> sh_queue s \<noteq> None \<and>
     (if cx_current s then sc_core s = None \<and> (cx_core s = None \<or> cx_core s = Some c \<and> h = None)
      else h = None \<and> cx_core s = None \<and> sc_core s = Some c)"

text \<open>What the invariant says of the tasks that are queued, and of those that must be.\<close>

lemma queued_live:
  assumes ok: "sched_ok h c s" and i: "i \<in> set (queued_tasks c s) \<or> h = Some i"
  shows "\<exists>w. sc_tasks s i = Some w \<and> \<not> tk_freed (w_task w) \<and>
    count_list (queued_tasks c s) i + (if h = Some i then 1 else 0) = 1"
proof -
  let ?n = "count_list (queued_tasks c s) i + (if h = Some i then 1 else 0)"
  have "sc_tasks s i \<noteq> None" using ok i unfolding sched_ok_def by blast
  then obtain w where w: "sc_tasks s i = Some w" by blast
  have q: "w_queued w = ?n" by (rule sched_okD(2) [OF ok w])
  have "?n \<noteq> 0" using i count_none [of i "queued_tasks c s"] by (cases "h = Some i") simp_all
  then have pos: "0 < w_queued w" using q by simp
  from task_inv_live [OF sched_okD(1) [OF ok w] handles_pos(2) [OF pos]] have "w_queued w \<le> 1" "\<not> tk_freed (w_task w)"
    by (auto simp: flags_ok_def)
  moreover from this(1) pos have "w_queued w = 1" by linarith
  ultimately show ?thesis using w q by simp
qed

lemma notified_queued:
  assumes ok: "sched_ok h c s" and w: "sc_tasks s i = Some w" "\<not> at_rest w" "w_phase w = TIdle"
  shows "i \<in> set (queued_tasks c s) \<or> h = Some i"
proof -
  from w(2) have pos: "0 < handles w" by (auto simp: at_rest_def)
  from task_inv_live [OF sched_okD(1) [OF ok w(1)] pos] obtain d where d: "d = decode (tk_state (w_task w))" "flags_ok d w" by metis
  with w(2,3) have "w_queued w = 1" by (auto simp: at_rest_def flags_ok_def)
  then have "count_list (queued_tasks c s) i + (if h = Some i then 1 else 0) = 1" using sched_okD(2) [OF ok w(1)] by simp
  then show ?thesis using count_none [of i "queued_tasks c s"] by (cases "h = Some i") simp_all
qed

lemma run_inv_start: "run_inv None core_new (sched_new n)"
  by (simp add: run_inv_def sched_ok_def sched_new_def core_new_def queued_tasks_def owned_new_def split_beta)

lemma run_inv_remote:
  assumes "rt_step (s\<lparr>cx_current := False\<rparr>) s'" "run_inv h c s"
  shows "run_inv h c (s'\<lparr>cx_current := cx_current s\<rparr>)"
proof -
  let ?s = "s\<lparr>cx_current := False\<rparr>"
  have "sched_ok h c ?s" "sh_queue ?s \<noteq> None" using assms(2) by (simp_all add: run_inv_def)
  then obtain q where q: "sched_ok h c ?s" "sh_queue ?s = Some q" by blast
  from rt_step_remote_ok [OF assms(1) q(1) _ q(2)] have ok: "sched_ok h c s'" and fr: "rt_remote_frame ?s s'" by simp_all
  from fr have "cx_core s' = cx_core s" "sc_core s' = sc_core s" "sh_queue s' \<noteq> None" by (auto simp: rt_remote_frame_def)
  with ok assms(2) show ?thesis unfolding run_inv_def by simp
qed

lemma run_inv_entry:
  assumes "run_inv None c s" "cx_current s" "cx_core s = None" "next_entry c s = (h, c', s')"
  shows "run_inv h c' s'"
proof -
  obtain q where s': "s' = s\<lparr>sh_queue := q\<rparr>" "q = None \<longleftrightarrow> sh_queue s = None"
    using conjunct1 [OF next_entry_effect [OF assms(4)]] by (elim exE conjE) (rule that)
  have "sched_ok h c' s'" by (rule next_entry_sched_ok [OF _ assms(4)]) (use assms(1) in \<open>simp add: run_inv_def\<close>)
  with assms(1-3) s' show ?thesis by (simp add: run_inv_def)
qed

lemma run_inv_inside:
  assumes "run_inv h c s" "cx_current s" "cx_core s = None \<or> cx_core s = Some c"
    and "sched_ok None c1 s'" "rt_frame c (s\<lparr>cx_core := Some c\<rparr>) c1 s'" "cx_core s' = Some c'"
  shows "run_inv None c' s'"
proof -
  have "c1 = c'" "cx_current s'" "sc_core s' = sc_core s" "sh_queue s' = sh_queue s" using assms(2,5,6) by (simp_all add: rt_frame_def)
  with assms(1,2,4,6) show ?thesis unfolding run_inv_def by simp
qed

lemma sched_run_inv: "sched_run h c s \<Longrightarrow> run_inv h c s"
proof (induction rule: sched_run.induct)
  case (sr_start n)
  show ?case by (rule run_inv_start)
next
  case (sr_remote h c s s')
  show ?case by (rule run_inv_remote [OF sr_remote(2,3)])
next
  case (sr_enter c s s')
  then have "s' = s\<lparr>sc_core := None, cx_core := Some c\<rparr>" by (simp add: take_core_def run_inv_def)
  with sr_enter(4) show ?case by (simp add: run_inv_def)
next
  case (sr_entry c s h c' s')
  show ?case by (rule run_inv_entry [OF sr_entry(5,2,3,4)])
next
  case (sr_poll i c s s' c')
  have cur: "cx_current s" "cx_core s = None" "sched_ok (Some i) c s"
    using sr_poll(4) by (simp_all add: run_inv_def split: if_splits)
  obtain c1 where "sched_ok None c1 s'" "rt_frame c (s\<lparr>cx_core := Some c\<rparr>) c1 s'"
    using rt_start_ok [OF sr_poll(2), of c] cur(1,3) by auto
  with run_inv_inside [OF sr_poll(4) cur(1)] cur(2) sr_poll(3) show ?case by blast
next
  case (sr_task c s s' c')
  have ok: "sched_ok None c s" using sr_task(6) by (simp add: run_inv_def)
  have same: "s\<lparr>cx_core := Some c\<rparr> = s" using sr_task(3) by simp
  obtain c1 where "sched_ok None c1 s'" "rt_frame c s c1 s'"
    using rt_step_ok [OF sr_task(4) ok sr_task(3,2)] by blast
  with run_inv_inside [OF sr_task(6,2)] sr_task(3,5) same show ?case by metis
next
  case (sr_leave c s)
  then show ?case by (simp add: run_inv_def core_guard_drop_def)
next
  case (sr_main c s)
  then show ?case by (simp add: run_inv_def)
next
  case (sr_back c s)
  then show ?case by (simp add: run_inv_def)
next
  case (sr_flags h c s b e)
  then show ?case by (simp add: run_inv_def)
qed

text \<open>The loops go through these states only.\<close>

definition in_loop :: "nat option \<Rightarrow> core \<Rightarrow> 'o sched \<Rightarrow> bool" where
  "in_loop h c s \<longleftrightarrow> sched_run h c s \<and> cx_current s \<and> cx_core s = None \<and> all_idle s"

lemma rt_steps_run:
  assumes "rt_step\<^sup>*\<^sup>* s s2" "sched_run None c s" "cx_current s" "cx_core s = Some c"
  shows "\<exists>c2. sched_run None c2 s2 \<and> cx_current s2 \<and> cx_core s2 = Some c2"
  using assms(1)
proof (induction rule: rtranclp_induct)
  case base
  then show ?case using assms(2-4) by blast
next
  case (step s1 s2)
  then obtain c1 where c1: "sched_run None c1 s1" "cx_current s1" "cx_core s1 = Some c1" by blast
  have "sched_ok None c1 s1" using sched_run_inv [OF c1(1)] by (simp add: run_inv_def)
  from rt_step_ok [OF step(2) this c1(3,2)] obtain c2 where "rt_frame c1 s1 c2 s2" by blast
  then have "cx_core s2 = Some c2" "cx_current s2" using c1(2) by (simp_all add: rt_frame_def)
  with sr_task [OF c1 step(2)] show ?case by blast
qed

lemma run_task_run:
  assumes run: "run_ok run" and l: "in_loop (Some i) c s"
  shows "\<exists>c' s'. run_task run i c s = Inr (c', s') \<and> in_loop None c' s'"
proof -
  let ?s = "s\<lparr>cx_core := Some c\<rparr>"
  have sr: "sched_run (Some i) c s" "cx_current s" "all_idle s" using l by (simp_all add: in_loop_def)
  have ok: "sched_ok (Some i) c s" using sched_run_inv [OF sr(1)] by (simp add: run_inv_def)
  have own: "sc_owner s i = ow_id (sh_owned s)" using ok by (cases "sc_tasks s i") (auto simp: sched_ok_def)
  have "sched_ok (Some i) c ?s \<and> cx_core ?s = Some c \<and> cx_current ?s \<and> all_idle ?s" using ok sr by simp
  with run obtain s1 s2 where r: "run i ?s = Inr s2" "rt_start i ?s s1" "rt_step\<^sup>*\<^sup>* s1 s2" "all_idle s2"
    unfolding run_ok_def by blast
  have "sched_ok (Some i) c ?s" "cx_core ?s = Some c" "cx_current ?s" using ok sr by simp_all
  from rt_start_ok [OF r(2) this] obtain c1 where "rt_frame c ?s c1 s1" by blast
  then have c1: "cx_core s1 = Some c1" "cx_current s1" using sr(2) by (simp_all add: rt_frame_def)
  from rt_steps_run [OF r(3) sr_poll [OF sr(1) r(2) c1(1)] c1(2,1)] obtain c2 where
    c2: "sched_run None c2 s2" "cx_current s2" "cx_core s2 = Some c2" by blast
  have "run_task run i c s = Inr (c2, s2\<lparr>cx_core := None\<rparr>)"
    using r(1) own c2(3) by (simp add: run_task_def assert_owner_def ctx_enter_def)
  moreover have "in_loop None c2 (s2\<lparr>cx_core := None\<rparr>)" using sr_back [OF c2] c2(2) r(4) by (simp add: in_loop_def)
  ultimately show ?thesis by blast
qed

lemma in_loop_entry: "in_loop None c s \<Longrightarrow> next_entry c s = (h, c', s') \<Longrightarrow> in_loop h c' s'"
  using sr_entry [of c s h c' s'] next_entry_effect [of c s h c' s'] by (auto simp: in_loop_def all_idle_def)

lemma deadlock_loop_runs:
  assumes "deadlock_loop run n k c s = Some r"
  shows "run_ok run \<longrightarrow> in_loop None c s \<longrightarrow> (\<exists>c' s'. r = Inr (c', s') \<and> in_loop None c' s')"
proof (rule deadlock_loop.raw_induct [where P = "\<lambda>run n k c s r. run_ok run \<longrightarrow> in_loop None c s \<longrightarrow>
    (\<exists>c' s'. r = Inr (c', s') \<and> in_loop None c' s')", OF _ assms], intro impI)
  fix f :: "(nat \<Rightarrow> 'a sched \<Rightarrow> 'a sched outcome) \<Rightarrow> nat \<Rightarrow> nat \<Rightarrow> core \<Rightarrow> 'a sched \<Rightarrow> (core \<times> 'a sched) outcome option"
    and run n k c s and r :: "(core \<times> 'a sched) outcome"
  let ?goal = "\<exists>c' s'. r = Inr (c', s') \<and> in_loop None c' s'"
  assume IH: "\<And>run n k c s r. f run n k c s = Some r \<Longrightarrow> run_ok run \<longrightarrow> in_loop None c s \<longrightarrow> (\<exists>c' s'. r = Inr (c', s') \<and> in_loop None c' s')"
    and body: "(if n = 10 then f run 0 0 c s
      else if c_unhandled c then Some (Inr (c, s))
      else case next_entry c s of
          (None, c', s') \<Rightarrow> if k = 0 then Some (Inr (c', s')) else f run 0 0 c' s'
        | (Some i, c', s') \<Rightarrow>
            (case run_task run i c' s' of Inl e \<Rightarrow> Some (Inl e) | Inr (c2, s2) \<Rightarrow> f run (n + 1) (k + 1) c2 s2)) = Some r"
    and ok: "run_ok run" "in_loop None c s"
  obtain e c1 s1 where e: "next_entry c s = (e, c1, s1)" by (metis prod_cases3)
  note entry = in_loop_entry [OF ok(2) e]
  consider "n = 10" | "n \<noteq> 10" "c_unhandled c" | "n \<noteq> 10" "\<not> c_unhandled c" "e = None"
    | i where "n \<noteq> 10" "\<not> c_unhandled c" "e = Some i" by (cases e) auto
  then show ?goal
  proof cases
    case 1
    then have "f run 0 0 c s = Some r" using body by simp
    from IH [OF this] ok show ?thesis by blast
  next
    case 2
    with body have "r = Inr (c, s)" by simp
    with ok(2) show ?thesis by blast
  next
    case 3
    with body e have "(if k = 0 then Some (Inr (c1, s1)) else f run 0 0 c1 s1) = Some r" by simp
    with IH [of run 0 0 c1 s1 r] entry ok(1) 3(3) show ?thesis by (auto split: if_splits)
  next
    case 4
    from run_task_run [OF ok(1) entry [unfolded 4(3)]] obtain c2 s2 where
      r: "run_task run i c1 s1 = Inr (c2, s2)" "in_loop None c2 s2" by blast
    then have "f run (n + 1) (k + 1) c2 s2 = Some r" using body e 4 by simp
    from IH [OF this] ok(1) r(2) show ?thesis by blast
  qed
qed

lemma main_run:
  assumes main: "main_ok main" and l: "in_loop None c s" and m: "ctx_enter c main s = Inr (c', r, s')"
  shows "in_loop None c' s'"
proof -
  let ?s = "s\<lparr>cx_core := Some c\<rparr>"
  have sr: "sched_run None c s" "cx_current s" "cx_core s = None" "all_idle s" using l by (simp_all add: in_loop_def)
  have ok: "sched_ok None c s" using sched_run_inv [OF sr(1)] by (simp add: run_inv_def)
  have "sched_ok None c ?s \<and> cx_core ?s = Some c \<and> cx_current ?s \<and> all_idle ?s" using ok sr by simp
  with main obtain q b s2 where r: "main ?s = Inr (q, s2\<lparr>sh_woken := b\<rparr>)" "rt_step\<^sup>*\<^sup>* ?s s2" "all_idle s2"
    unfolding main_ok_def by blast
  have "cx_current ?s" "cx_core ?s = Some c" using sr(2) by simp_all
  from rt_steps_run [OF r(2) sr_main [OF sr(1-3)] this] obtain c2 where
    c2: "sched_run None c2 s2" "cx_current s2" "cx_core s2 = Some c2" by blast
  have e: "c' = c2" "s' = (s2\<lparr>cx_core := None\<rparr>)\<lparr>sh_woken := b, sc_entered := sc_entered s2\<rparr>"
    using m r(1) c2(3) by (cases s2, simp_all add: ctx_enter_def)+
  have "sched_run None c' s'" unfolding e by (rule sr_flags [OF sr_back [OF c2]])
  then show ?thesis using c2(2) r(3) by (simp add: in_loop_def e)
qed

lemma reset_woken_run: "in_loop h c s \<Longrightarrow> in_loop h c (snd (reset_woken s))"
  using sr_flags [where s = s and h = h and c = c and b = False and e = "sc_entered s"]
  by (simp add: in_loop_def reset_woken_def)

lemma block_loop_runs:
  fixes run :: "nat \<Rightarrow> 'a sched \<Rightarrow> 'a sched outcome" and main :: "'a sched \<Rightarrow> ('b poll \<times> 'a sched) outcome"
  assumes "block_loop run main st c s = Some r"
  shows "run_ok run \<longrightarrow> main_ok main \<longrightarrow> in_loop None c s \<longrightarrow> (\<forall>c' v s'. r = Inr (c', v, s') \<longrightarrow> in_loop None c' s')"
proof (rule block_loop.raw_induct [where P = "\<lambda>run main st c s r. run_ok run \<longrightarrow> main_ok main \<longrightarrow> in_loop None c s \<longrightarrow>
    (\<forall>c' v s'. r = Inr (c', v, s') \<longrightarrow> in_loop None c' s')", OF _ assms], intro impI)
  fix f :: "(nat \<Rightarrow> 'a sched \<Rightarrow> 'a sched outcome) \<Rightarrow> ('a sched \<Rightarrow> ('b poll \<times> 'a sched) outcome) \<Rightarrow> block_stage \<Rightarrow> core \<Rightarrow> 'a sched
      \<Rightarrow> (core \<times> 'b option \<times> 'a sched) outcome option"
    and run main st c s and r :: "(core \<times> 'b option \<times> 'a sched) outcome"
  let ?goal = "\<forall>c' v s'. r = Inr (c', v, s') \<longrightarrow> in_loop None c' s'"
  assume IH: "\<And>run main st c s r. f run main st c s = Some r \<Longrightarrow> run_ok run \<longrightarrow> main_ok main \<longrightarrow> in_loop None c s \<longrightarrow>
      (\<forall>c' v s'. r = Inr (c', v, s') \<longrightarrow> in_loop None c' s')"
    and body: "(case st of
        Outer \<Rightarrow>
          (case reset_woken s of (woken, s1) \<Rightarrow>
             if \<not> woken then f run main (Inner 0 0) c s1
             else
               (case ctx_enter c main s1 of
                  Inl e \<Rightarrow> Some (Inl e)
                | Inr (c2, Ready v, s2) \<Rightarrow> Some (Inr (c2, Some v, s2))
                | Inr (c2, Pending, s2) \<Rightarrow> f run main (Inner 0 1) c2 s2))
      | Inner n k \<Rightarrow>
          if n = 10 then
            (case park_yield c of Inl e \<Rightarrow> Some (Inl e) | Inr c' \<Rightarrow> f run main Outer c' s)
          else if c_unhandled c then Some (Inr (c, None, s))
          else
            (case next_entry c s of
               (None, c', s') \<Rightarrow> if k = 0 then Some (Inr (c', None, s')) else f run main Outer c' s'
             | (Some i, c', s') \<Rightarrow>
                 (case run_task run i c' s' of
                    Inl e \<Rightarrow> Some (Inl e)
                  | Inr (c2, s2) \<Rightarrow> f run main (Inner (n + 1) (k + 1)) c2 s2))) = Some r"
    and ok: "run_ok run" "main_ok main" "in_loop None c s"
  have go: "?goal" if "f run main st' c1 s1 = Some r" "in_loop None c1 s1" for st' c1 s1
    using IH [OF that(1)] ok(1,2) that(2) by blast
  show ?goal
  proof (cases st)
    case Outer
    let ?s = "snd (reset_woken s)"
    note l = reset_woken_run [OF ok(3)]
    show ?thesis
    proof (cases "fst (reset_woken s)")
      case False
      with body Outer have "f run main (Inner 0 0) c ?s = Some r" by (simp add: split_beta)
      from go [OF this l] show ?thesis .
    next
      case True
      show ?thesis
      proof (cases "ctx_enter c main ?s")
        case (Inl e)
        with body Outer True have "r = Inl e" by (simp add: split_beta)
        then show ?thesis by simp
      next
        case (Inr y)
        obtain c2 q s2 where y: "ctx_enter c main ?s = Inr (c2, q, s2)" using Inr by (cases y) simp
        note l2 = main_run [OF ok(2) l y]
        show ?thesis
        proof (cases q)
          case (Ready v)
          with body Outer True y have "r = Inr (c2, Some v, s2)" by (simp add: split_beta)
          with l2 show ?thesis by simp
        next
          case Pending
          with body Outer True y have "f run main (Inner 0 1) c2 s2 = Some r" by (simp add: split_beta)
          from go [OF this l2] show ?thesis .
        qed
      qed
    qed
  next
    case (Inner n k)
    obtain e c1 s1 where e: "next_entry c s = (e, c1, s1)" by (metis prod_cases3)
    note entry = in_loop_entry [OF ok(3) e]
    consider "n = 10" | "n \<noteq> 10" "c_unhandled c" | "n \<noteq> 10" "\<not> c_unhandled c" "e = None"
      | i where "n \<noteq> 10" "\<not> c_unhandled c" "e = Some i" by (cases e) auto
    then show ?thesis
    proof cases
      case 1
      with body Inner have "r = Inl Unimplemented" by (simp add: park_yield_def)
      then show ?thesis by simp
    next
      case 2
      with body Inner have "r = Inr (c, None, s)" by simp
      with ok(3) show ?thesis by simp
    next
      case 3
      with body Inner e have b: "(if k = 0 then Some (Inr (c1, None, s1)) else f run main Outer c1 s1) = Some r" by simp
      have l: "in_loop None c1 s1" using entry 3(3) by simp
      show ?thesis
      proof (cases "k = 0")
        case True
        with b have "r = Inr (c1, None, s1)" by simp
        with l show ?thesis by simp
      next
        case False
        with b have "f run main Outer c1 s1 = Some r" by simp
        from go [OF this l] show ?thesis .
      qed
    next
      case 4
      from run_task_run [OF ok(1) entry [unfolded 4(3)]] obtain c2 s2 where
        r: "run_task run i c1 s1 = Inr (c2, s2)" "in_loop None c2 s2" by blast
      then have "f run main (Inner (n + 1) (k + 1)) c2 s2 = Some r" using body Inner e 4 by simp
      from go [OF this r(2)] show ?thesis .
    qed
  qed
qed

lemma sched_run_entered: "sched_run h c s \<Longrightarrow> sched_run h c (s\<lparr>sc_entered := e\<rparr>)"
  using sr_flags [where s = s and b = "sh_woken s" and e = e] by simp

lemma poll_until_deadlock_runs:
  assumes "run_ok run" "sched_run None c s" "\<not> cx_current s" "\<not> sc_entered s" "all_idle s"
    and ret: "poll_until_deadlock run s = Some r"
  shows "\<exists>c' s'. r = Inr s' \<and> sched_run None c' s'"
proof -
  have core: "sc_core s = Some c" "cx_core s = None" using sched_run_inv [OF assms(2)] assms(3) by (simp_all add: run_inv_def)
  let ?s1 = "s\<lparr>sc_core := None, cx_core := Some c\<rparr>"
  let ?s = "s\<lparr>sc_core := None, cx_core := None, cx_current := True, sc_entered := True\<rparr>"
  have tc: "take_core s = Some ?s1" by (simp add: take_core_def core)
  have "in_loop None c ?s"
    using sched_run_entered [OF sr_enter [OF assms(2,3) tc], of True] assms(5) by (simp add: in_loop_def)
  moreover obtain x where x: "deadlock_loop run 0 0 c ?s = Some x"
    using ret assms(3,4) by (cases "deadlock_loop run 0 0 c ?s") (simp_all add: poll_until_deadlock_def tc guard_enter_def rt_entered_def)
  ultimately obtain c' s' where s': "x = Inr (c', s')" "in_loop None c' s'" using deadlock_loop_runs [OF x] assms(1) by blast
  let ?e = "core_guard_drop (s'\<lparr>sc_entered := False, cx_current := False, cx_core := Some c'\<rparr>)"
  have "r = Inr ?e" using ret x s'(1) assms(3,4) by (simp add: poll_until_deadlock_def tc guard_enter_def rt_entered_def)
  moreover have "sched_run None c' ?e"
    using sr_leave [OF sched_run_entered [of None c' s' False]] s'(2) by (simp add: in_loop_def)
  ultimately show ?thesis by blast
qed

text \<open>
  C2: The scheduler loses no wake-up. In every state it can reach until it is shut down, by any interleaving of its
  loops, of tasks that run (spawn, wake, clone and drop handles), and of spawns and wake-ups from outside its context
  or from other threads, no task is queued twice or queued while a loop holds it, what is queued is a live task,
  and every live task that was notified and is neither complete nor being polled is in a queue, or is the one whose
  handle \<open>h\<close> the loop has just popped. The core is never lost.
\<close>

theorem scheduler_loses_no_wakeup:
  assumes "sched_run h c s"
  shows "distinct (queued_tasks c s) \<and> (\<forall>i. h = Some i \<longrightarrow> i \<notin> set (queued_tasks c s)) \<and>
    (\<forall>i. i \<in> set (queued_tasks c s) \<or> h = Some i \<longrightarrow> (\<exists>w. sc_tasks s i = Some w \<and> \<not> tk_freed (w_task w))) \<and>
    (\<forall>i w. sc_tasks s i = Some w \<and> \<not> at_rest w \<and> w_phase w = TIdle \<longrightarrow> i \<in> set (queued_tasks c s) \<or> h = Some i) \<and>
    sh_queue s \<noteq> None \<and>
    (if cx_current s then cx_core s = None \<or> cx_core s = Some c else sc_core s = Some c)"
proof -
  have inv: "run_inv h c s" by (rule sched_run_inv [OF assms])
  then have ok: "sched_ok h c s" by (simp add: run_inv_def)
  note live = queued_live [OF ok] and queued = notified_queued [OF ok]
  have once: "count_list (queued_tasks c s) i = 1 \<and> h \<noteq> Some i" if "i \<in> set (queued_tasks c s)" for i
  proof -
    have "count_list (queued_tasks c s) i \<noteq> 0" using that count_none [of i "queued_tasks c s"] by blast
    moreover have "count_list (queued_tasks c s) i + (if h = Some i then 1 else 0) = 1" using live [of i] that by blast
    ultimately show ?thesis by (cases "h = Some i") simp_all
  qed
  have dist: "distinct (queued_tasks c s)" using count_distinct [of "queued_tasks c s"] once by simp
  show ?thesis
  proof (intro conjI)
    show "\<forall>i. h = Some i \<longrightarrow> i \<notin> set (queued_tasks c s)" using once by blast
    show "\<forall>i. i \<in> set (queued_tasks c s) \<or> h = Some i \<longrightarrow> (\<exists>w. sc_tasks s i = Some w \<and> \<not> tk_freed (w_task w))"
      using live by blast
    show "sh_queue s \<noteq> None" "if cx_current s then cx_core s = None \<or> cx_core s = Some c else sc_core s = Some c"
      using inv unfolding run_inv_def by (blast, cases "cx_current s") auto
    show "\<forall>i w. sc_tasks s i = Some w \<and> \<not> at_rest w \<and> w_phase w = TIdle \<longrightarrow> i \<in> set (queued_tasks c s) \<or> h = Some i"
      using queued by blast
  qed (rule dist)
qed

text \<open>A task is spawned from outside the context.\<close>

lemma one_task_run: "sched_run None core_new one_task"
proof -
  have "rt_step ((sched_new 1)\<lparr>cx_current := False\<rparr>) one_task"
    by (rule rt_spawn [where i = 0 and tid = 7 and udrop = "\<lambda>t. Inr (False, [], t)"])
      (simp_all add: one_task_def spawn_def sched_new_def owned_new_def split_beta)
  from sr_remote [OF sr_start this] show ?thesis
    by (simp add: one_task_def schedule_def bind_open_def sched_new_def)
qed

theorem scheduler_loses_no_wakeup_witness:
  "sched_run None core_new one_task \<and> queued_tasks core_new one_task = [0] \<and> sc_core one_task = Some core_new"
  using scheduler_loses_no_wakeup [OF one_task_run] one_task_run
  by (simp add: queued_tasks_def) (simp add: one_task_def schedule_def bind_open_def sched_new_def core_new_def)

end
