(* ===== verification/Batch_Semaphore.thy ===== *)
theory Batch_Semaphore
  imports Atomic_Loop Intrusive_List
begin

text \<open>
  \<open>sync/batch_semaphore.rs\<close>: the FIFO semaphore under the locks, the cells and the bounded channel.
  The state word keeps the free permits above the \<open>CLOSED\<close> bit; waiters are nodes (numbered) with
  the permits they still need and a waker, queued at the front and served at the back. The node of
  an \<open>Acquire\<close> future is part of it and never moves, so it is known by the number of the future.
  Woken wakers are returned in the order of the \<open>wake\<close> calls.
\<close>

section \<open>The semaphore\<close>

record waiter =
  w_state :: usize
  w_waker :: "waker option"

record sem =
  s_state :: usize
  s_list :: "nat list"
  s_list_closed :: bool
  s_nodes :: "nat \<Rightarrow> waiter"

definition MAX_PERMIT :: usize where "MAX_PERMIT = drop_bit 3 usize_max"
definition SEM_CLOSED :: usize where "SEM_CLOSED = 1"
definition PERMIT_SHIFT :: nat where "PERMIT_SHIFT = 1"

datatype TryAcquireError = AcqClosed | AcqNoPermits

definition waiter_new :: "usize \<Rightarrow> waiter" where
  "waiter_new n = \<lparr>w_state = n, w_waker = None\<rparr>"

definition sem_new :: "usize \<Rightarrow> sem outcome" where
  "sem_new permits =
     and_then (ensure (permits < MAX_PERMIT) AssertFailed) (\<lambda>_.
       Inr \<lparr>s_state = push_bit PERMIT_SHIFT permits, s_list = [], s_list_closed = False,
            s_nodes = (\<lambda>_. waiter_new 0)\<rparr>)"

definition sem_const_new :: "usize \<Rightarrow> sem" where
  "sem_const_new permits =
     \<lparr>s_state = push_bit PERMIT_SHIFT (permits AND MAX_PERMIT), s_list = [], s_list_closed = False,
      s_nodes = (\<lambda>_. waiter_new 0)\<rparr>"

definition available_permits :: "sem \<Rightarrow> usize" where
  "available_permits s = drop_bit PERMIT_SHIFT (s_state s)"

definition sem_is_closed :: "sem \<Rightarrow> bool" where
  "sem_is_closed s \<longleftrightarrow> s_state s AND SEM_CLOSED = SEM_CLOSED"

text \<open>\<open>waiter.waker.take()\<close>.\<close>

definition take_waker :: "nat \<Rightarrow> (nat \<Rightarrow> waiter) \<Rightarrow> waker list \<times> (nat \<Rightarrow> waiter)" where
  "take_waker w nodes =
     (case w_waker (nodes w) of None \<Rightarrow> [] | Some k \<Rightarrow> [k], nodes(w := (nodes w)\<lparr>w_waker := None\<rparr>))"

definition assign_action :: "usize \<Rightarrow> usize \<Rightarrow> ((bool \<times> usize) \<times> usize option) outcome" where
  "assign_action n cur = (let assign = min cur n; nx = cur - assign in Inr ((nx = 0, n - assign), Some nx))"

definition assign_permits :: "nat \<Rightarrow> usize \<Rightarrow> (nat \<Rightarrow> waiter) \<Rightarrow> bool \<times> usize \<times> (nat \<Rightarrow> waiter)" where
  "assign_permits w n nodes =
     (case run_action (assign_action n) (w_state (nodes w)) of
        Inr ((full, n'), st) \<Rightarrow> (full, n', nodes(w := (nodes w)\<lparr>w_state := st\<rparr>))
      | Inl _ \<Rightarrow> (False, n, nodes))"

text \<open>
  The inner loop of \<open>add_permits_locked\<close>: serve the waiter at the back until one is left short or the
  list is empty. It returns the nodes, the list, the permits left, \<open>is_empty\<close> and the wakers.
\<close>

function add_inner ::
    "(nat \<Rightarrow> waiter) \<Rightarrow> nat list \<Rightarrow> usize \<Rightarrow> waker list \<Rightarrow>
     (nat \<Rightarrow> waiter) \<times> nat list \<times> usize \<times> bool \<times> waker list" where
  "add_inner nodes lst rem wakers =
     (case last_opt lst of
        None \<Rightarrow> (nodes, lst, rem, True, wakers)
      | Some w \<Rightarrow>
          (case assign_permits w rem nodes of (full, rem', nodes') \<Rightarrow>
             if \<not> full then (nodes', lst, rem', False, wakers)
             else case take_waker w nodes' of (ws, nodes'') \<Rightarrow>
               add_inner nodes'' (fst (wl_pop_back lst)) rem' (wakers @ ws)))"
  by pat_completeness auto
termination
  by (relation "measure (\<lambda>(_, lst, _, _). length lst)")
     (auto simp: wl_pop_back_def last_opt_def split: if_splits)

declare add_inner.simps [simp del]

partial_function (option) add_permits_loop ::
    "sem \<Rightarrow> usize \<Rightarrow> bool \<Rightarrow> waker list \<Rightarrow> (sem \<times> waker list) outcome option" where
  "add_permits_loop s rem is_empty woken =
     (if rem = 0 then Some (Inr (s, woken))
      else
        case add_inner (s_nodes s) (s_list s) rem [] of (nodes, lst, rem', emp, wakers) \<Rightarrow>
          let s1 = s\<lparr>s_nodes := nodes, s_list := lst\<rparr>; is_empty' = (is_empty \<or> emp) in
          if rem' > 0 \<and> is_empty' then
            (if \<not> rem' < MAX_PERMIT then Some (Inl AssertFailed)
             else add_permits_loop (s1\<lparr>s_state := s_state s1 + push_bit PERMIT_SHIFT rem'\<rparr>) 0 is_empty'
                    (woken @ wakers))
          else add_permits_loop s1 rem' is_empty' (woken @ wakers))"

definition add_permits_locked :: "usize \<Rightarrow> sem \<Rightarrow> (sem \<times> waker list) outcome option" where
  "add_permits_locked rem s = add_permits_loop s rem False []"

definition release :: "usize \<Rightarrow> sem \<Rightarrow> (sem \<times> waker list) outcome option" where
  "release added s = (if added = 0 then Some (Inr (s, [])) else add_permits_locked added s)"

function close_loop :: "(nat \<Rightarrow> waiter) \<Rightarrow> nat list \<Rightarrow> waker list \<Rightarrow> (nat \<Rightarrow> waiter) \<times> waker list" where
  "close_loop nodes lst woken =
     (case wl_pop_back lst of
        (_, None) \<Rightarrow> (nodes, woken)
      | (lst', Some w) \<Rightarrow>
          (case take_waker w nodes of (ws, nodes') \<Rightarrow> close_loop nodes' lst' (woken @ ws)))"
  by pat_completeness auto
termination
  by (relation "measure (\<lambda>(_, lst, _). length lst)")
     (auto simp: wl_pop_back_def split: if_splits)

declare close_loop.simps [simp del]

definition sem_close :: "sem \<Rightarrow> sem \<times> waker list" where
  "sem_close s =
     (case close_loop (s_nodes s) (s_list s) [] of (nodes, woken) \<Rightarrow>
        (s\<lparr>s_state := s_state s OR SEM_CLOSED, s_list_closed := True, s_list := [], s_nodes := nodes\<rparr>,
         woken))"

definition try_acquire_action ::
    "usize \<Rightarrow> usize \<Rightarrow> ((TryAcquireError + unit) \<times> usize option) outcome" where
  "try_acquire_action needed cur =
     Inr (if cur AND SEM_CLOSED = SEM_CLOSED then (Inl AcqClosed, None)
          else if cur < needed then (Inl AcqNoPermits, None)
          else (Inr (), Some (cur - needed)))"

definition try_acquire :: "usize \<Rightarrow> sem \<Rightarrow> ((TryAcquireError + unit) \<times> sem) outcome" where
  "try_acquire num_permits s =
     and_then (ensure (num_permits < MAX_PERMIT) AssertFailed) (\<lambda>_.
     and_then (run_action (try_acquire_action (push_bit PERMIT_SHIFT num_permits)) (s_state s))
       (\<lambda>(r, st). Inr (r, s\<lparr>s_state := st\<rparr>)))"

section \<open>The Acquire future\<close>

record acquire =
  a_node :: nat
  a_num :: usize
  a_queued :: bool

definition acquire_new :: "nat \<Rightarrow> usize \<Rightarrow> sem \<Rightarrow> acquire \<times> sem" where
  "acquire_new i n s =
     (\<lparr>a_node = i, a_num = n, a_queued = False\<rparr>, s\<lparr>s_nodes := (s_nodes s)(i := waiter_new n)\<rparr>)"

text \<open>
  The loop of \<open>poll_acquire\<close>: its closure answers whether the semaphore is closed, how many permits
  are taken and whether some are still missing. (\<open>acquired\<close> is 0 until an attempt succeeds.)
\<close>

definition acquire_action :: "usize \<Rightarrow> usize \<Rightarrow> ((usize \<times> bool) option \<times> usize option) outcome" where
  "acquire_action needed cur =
     Inr (if cur AND SEM_CLOSED > 0 then (None, None)
          else if cur \<ge> needed then (Some (drop_bit PERMIT_SHIFT needed, False), Some (cur - needed))
          else (Some (drop_bit PERMIT_SHIFT cur, True), Some 0))"

definition set_waker :: "nat \<Rightarrow> waker \<Rightarrow> (nat \<Rightarrow> waiter) \<Rightarrow> (nat \<Rightarrow> waiter)" where
  "set_waker w cx nodes =
     (if (case w_waker (nodes w) of None \<Rightarrow> True | Some k \<Rightarrow> k \<noteq> cx)
      then nodes(w := (nodes w)\<lparr>w_waker := Some cx\<rparr>) else nodes)"

text \<open>The answer: pending, ready with success (\<open>True\<close>), or ready with \<open>AcquireError\<close> (\<open>False\<close>).\<close>

definition poll_acquire ::
    "waker \<Rightarrow> usize \<Rightarrow> nat \<Rightarrow> bool \<Rightarrow> sem \<Rightarrow> (bool poll \<times> sem \<times> waker list) outcome option" where
  "poll_acquire cx num_permits node queued s =
     (let needed = push_bit PERMIT_SHIFT (if queued then w_state (s_nodes s node) else num_permits) in
      case run_action (acquire_action needed) (s_state s) of
        Inl e \<Rightarrow> Some (Inl e)
      | Inr (None, _) \<Rightarrow> Some (Inr (Ready False, s, []))
      | Inr (Some (acquired, missing), st) \<Rightarrow>
          let s1 = s\<lparr>s_state := st\<rparr> in
          if \<not> missing \<and> \<not> queued then Some (Inr (Ready True, s1, []))
          else if s_list_closed s1 then Some (Inr (Ready False, s1, []))
          else
            (case assign_permits node acquired (s_nodes s1) of (full, acquired', nodes) \<Rightarrow>
               let s2 = s1\<lparr>s_nodes := nodes\<rparr> in
               if full then
                 map_option (\<lambda>r. and_then r (\<lambda>(s3, woken). Inr (Ready True, s3, woken)))
                   (add_permits_locked acquired' s2)
               else if acquired' \<noteq> 0 then Some (Inl AssertFailed)
               else
                 let s3 = s2\<lparr>s_nodes := set_waker node cx nodes\<rparr> in
                 Some (Inr (Pending,
                   (if queued then s3 else s3\<lparr>s_list := wl_push_front node (s_list s3)\<rparr>), []))))"

definition acquire_poll ::
    "waker \<Rightarrow> acquire \<Rightarrow> sem \<Rightarrow> (bool poll \<times> acquire \<times> sem \<times> waker list) outcome option" where
  "acquire_poll cx a s =
     map_option (\<lambda>r. and_then r (\<lambda>(p, s', woken).
        Inr (p,
             (case p of Pending \<Rightarrow> a\<lparr>a_queued := True\<rparr>
              | Ready False \<Rightarrow> a
              | Ready True \<Rightarrow> a\<lparr>a_queued := False\<rparr>),
             s', woken)))
       (poll_acquire cx (a_num a) (a_node a) (a_queued a) s)"

definition acquire_drop :: "acquire \<Rightarrow> sem \<Rightarrow> (sem \<times> waker list) outcome option" where
  "acquire_drop a s =
     (if \<not> a_queued a then Some (Inr (s, []))
      else
        let s1 = s\<lparr>s_list := fst (wl_remove (a_node a) (s_list s))\<rparr> in
        if w_state (s_nodes s (a_node a)) > a_num a then Some (Inl ArithOverflow)
        else
          let acquired = a_num a - w_state (s_nodes s (a_node a)) in
          if acquired > 0 then add_permits_locked acquired s1 else Some (Inr (s1, [])))"


section \<open>Reading a semaphore\<close>

definition avail :: "sem \<Rightarrow> nat" where
  "avail s = unat (available_permits s)"

definition needs :: "(nat \<Rightarrow> waiter) \<Rightarrow> nat \<Rightarrow> nat" where
  "needs nodes i = unat (w_state (nodes i))"

lemma and_one_pos: "x AND 1 > 0 \<longleftrightarrow> odd (unat (x :: usize))"
proof -
  have "x AND 1 > 0 \<longleftrightarrow> x AND 1 \<noteq> 0" by (simp only: word_neq_0_conv)
  also have "\<dots> \<longleftrightarrow> x AND 1 = 1" by (simp only: and_one_eq not_mod_2_eq_0_eq_1)
  finally show ?thesis by (simp only: and_one_odd)
qed

lemma sem_closed_odd: "sem_is_closed s \<longleftrightarrow> odd (unat (s_state s))"
  by (simp add: sem_is_closed_def SEM_CLOSED_def and_one_odd)

lemma avail_state: "avail s = unat (s_state s) div 2"
  using unat_drop_bit [of 1 "s_state s"] by (simp add: avail_def available_permits_def PERMIT_SHIFT_def)

lemma unat_shift1: "unat n < 2 ^ 63 \<Longrightarrow> unat (push_bit PERMIT_SHIFT n :: usize) = 2 * unat n"
proof -
  assume "unat n < 2 ^ 63"
  then have "unat (n * 2) = unat n * unat (2 :: usize)"
    by (subst unat_mult_lem [symmetric]) simp
  then show ?thesis by (simp add: PERMIT_SHIFT_def push_bit_eq_mult)
qed

lemma unat_add_shift1:
  assumes "unat st + 2 * unat n < 2 ^ 64"
  shows "unat (st + push_bit PERMIT_SHIFT n :: usize) = unat st + 2 * unat n"
proof -
  have "unat (push_bit PERMIT_SHIFT n) = 2 * unat n"
    using assms by (intro unat_shift1) simp
  with assms show ?thesis by (simp add: unat_word_ariths)
qed

lemma MAX_PERMIT_eq: "unat MAX_PERMIT = 2 ^ 61 - 1"
  by (simp add: MAX_PERMIT_def mask_eq_exp_minus_1)

lemma less_MAX_PERMIT: "n < MAX_PERMIT \<longleftrightarrow> unat n < 2 ^ 61 - 1"
  by (simp add: word_less_nat_alt MAX_PERMIT_eq)

section \<open>Serving the waiters\<close>

lemma assign_permits_eq:
  "assign_permits w n nodes =
     (let k = min (w_state (nodes w)) n in
      (w_state (nodes w) - k = 0, n - k, nodes(w := (nodes w)\<lparr>w_state := w_state (nodes w) - k\<rparr>)))"
  by (simp add: assign_permits_def assign_action_def run_action_eq Let_def)

lemma unat_sub_min: "unat (x - min x n) = unat x - unat n" for x n :: usize
  by (simp add: min_def unat_sub word_le_nat_alt)

lemma unat_sub_min2: "unat (n - min x n) = unat n - unat x" for x n :: usize
  by (simp add: min_def unat_sub word_le_nat_alt)

lemma assign_permits_spec:
  assumes "assign_permits w n nodes = (full, n', nodes')"
  shows "full \<longleftrightarrow> needs nodes w \<le> unat n" and "unat n' = unat n - needs nodes w"
    and "needs nodes' w = needs nodes w - unat n"
    and "i \<noteq> w \<Longrightarrow> nodes' i = nodes i" and "w_waker (nodes' w) = w_waker (nodes w)"
proof -
  have *: "(w_state (nodes w) - min (w_state (nodes w)) n = 0) \<longleftrightarrow> needs nodes w \<le> unat n"
    by (metis needs_def diff_is_0_eq unat_eq_0 unat_sub_min)
  show "full \<longleftrightarrow> needs nodes w \<le> unat n" "unat n' = unat n - needs nodes w"
    "needs nodes' w = needs nodes w - unat n"
    "i \<noteq> w \<Longrightarrow> nodes' i = nodes i" "w_waker (nodes' w) = w_waker (nodes w)"
    using assms * unat_sub_min [of "w_state (nodes w)" n] unat_sub_min2 [of n "w_state (nodes w)"]
    by (auto simp: assign_permits_eq Let_def needs_def)
qed

lemma take_waker_spec:
  assumes "take_waker w nodes = (ws, nodes')"
  shows "needs nodes' = needs nodes" and "ws = (case w_waker (nodes w) of None \<Rightarrow> [] | Some k \<Rightarrow> [k])"
    and "i \<noteq> w \<Longrightarrow> nodes' i = nodes i"
  using assms by (auto simp: take_waker_def needs_def)

text \<open>
  What serving \<open>rem\<close> permits to the list does: a suffix of the list is served in full, the waiter
  before it (then the last one) gets what is left, and no permit is lost.
\<close>

definition wakers_of :: "(nat \<Rightarrow> waiter) \<Rightarrow> nat list \<Rightarrow> waker list" where
  "wakers_of nodes is = concat (map (\<lambda>i. case w_waker (nodes i) of None \<Rightarrow> [] | Some k \<Rightarrow> [k]) is)"

lemma wakers_of_simps [simp]:
  "wakers_of nodes [] = []"
  "wakers_of nodes (i # is) = (case w_waker (nodes i) of None \<Rightarrow> [] | Some k \<Rightarrow> [k]) @ wakers_of nodes is"
  by (simp_all add: wakers_of_def)

lemma wakers_of_cong:
  "(\<And>i. i \<in> set is \<Longrightarrow> w_waker (nodes i) = w_waker (nodes' i)) \<Longrightarrow> wakers_of nodes is = wakers_of nodes' is"
  by (induction "is") auto

definition served :: "(nat \<Rightarrow> nat) \<Rightarrow> nat list \<Rightarrow> nat \<Rightarrow> (nat \<Rightarrow> nat) \<Rightarrow> nat list \<Rightarrow> nat list \<Rightarrow> nat \<Rightarrow> bool" where
  "served nd lst n nd' lst' gone n' \<longleftrightarrow>
     lst = lst' @ gone \<and> (\<forall>i. i \<notin> set lst \<longrightarrow> nd' i = nd i) \<and>
     (\<forall>i \<in> set gone. nd' i = 0) \<and> (\<forall>i \<in> set (butlast lst'). nd' i = nd i) \<and>
     (\<forall>i \<in> set lst'. 0 < nd' i \<and> nd' i \<le> nd i) \<and> (lst' \<noteq> [] \<longrightarrow> n' = 0) \<and>
     n = n' + (\<Sum>i\<leftarrow>lst. nd i - nd' i)"

lemma served_snoc:
  assumes "served nd1 xs n1 nd' lst' gone n'" and "\<And>i. i \<noteq> w \<Longrightarrow> nd1 i = nd i"
    and "w \<notin> set xs" and "nd1 w = 0" and "n = n1 + nd w"
  shows "served nd (xs @ [w]) n nd' lst' (gone @ [w]) n'"
proof -
  from assms(1) have xs: "xs = lst' @ gone" by (simp add: served_def)
  have in_eq: "nd1 i = nd i" if "i \<in> set xs" for i
    using assms(2,3) that by metis
  then have sum: "(\<Sum>i\<leftarrow>xs. nd1 i - nd' i) = (\<Sum>i\<leftarrow>xs. nd i - nd' i)"
    by (intro arg_cong [of _ _ sum_list] map_cong) auto
  have "nd' w = 0" using assms(1,3,4) by (simp add: served_def)
  moreover have "nd1 i = nd i" if "i \<in> set (butlast lst') \<or> i \<in> set lst'" for i
    using that in_eq xs by (auto dest: in_set_butlastD)
  ultimately show ?thesis
    using assms sum xs unfolding served_def by auto
qed

lemma add_inner_served:
  assumes "add_inner nodes lst rem ws = (nodes', lst', rem', emp, ws')"
    and "distinct lst" and "\<forall>i \<in> set lst. 0 < needs nodes i"
  shows "\<exists>gone. served (needs nodes) lst (unat rem) (needs nodes') lst' gone (unat rem') \<and>
                (emp \<longleftrightarrow> lst' = []) \<and> ws' = ws @ wakers_of nodes (rev gone)"
  using assms
proof (induction lst arbitrary: nodes rem ws rule: rev_induct)
  case Nil
  then show ?case by (auto simp: add_inner.simps [of nodes] served_def)
next
  case (snoc w xs)
  show ?case
  proof -
    obtain full rem1 nodes1 where asg: "assign_permits w rem nodes = (full, rem1, nodes1)"
      by (metis prod_cases3)
    note sp = assign_permits_spec [OF asg]
    from snoc.prems(2,3) have w: "w \<notin> set xs" "distinct xs" "0 < needs nodes w" by auto
    have eq: "needs nodes1 i = needs nodes i" if "i \<noteq> w" for i
      using sp(4) [OF that] by (simp add: needs_def)
    have xs_eq: "needs nodes1 i = needs nodes i" if "i \<in> set xs" for i
      using eq that w(1) by metis
    show ?thesis
    proof (cases full)
      case False
      with snoc.prems(1) asg have "nodes' = nodes1" "lst' = xs @ [w]" "rem' = rem1" "\<not> emp" "ws' = ws"
        by (auto simp: add_inner.simps [of nodes])
      moreover have "map (\<lambda>i. needs nodes i - needs nodes1 i) xs = map (\<lambda>_. 0) xs"
        using xs_eq by (intro map_cong) auto
      ultimately show ?thesis
        using False sp w snoc.prems(3) eq xs_eq
        by (intro exI [of _ "[]"]) (auto simp: served_def)
    next
      case True
      obtain ws1 nodes2 where tk: "take_waker w nodes1 = (ws1, nodes2)" by fastforce
      note tw = take_waker_spec [OF tk]
      have rest: "add_inner nodes2 xs rem1 (ws @ ws1) = (nodes', lst', rem', emp, ws')"
        using snoc.prems(1) True asg tk by (simp add: add_inner.simps [of nodes] wl_pop_back_def)
      have same: "nodes2 i = nodes i" if "i \<noteq> w" for i
        using that sp(4) tw(3) by simp
      have pos: "\<forall>i \<in> set xs. 0 < needs nodes2 i"
        using snoc.prems(3) w same by (metis UnCI needs_def set_append)
      from snoc.IH [OF rest w(2) pos]
      obtain gone where d: "served (needs nodes2) xs (unat rem1) (needs nodes') lst' gone (unat rem')"
        "emp \<longleftrightarrow> lst' = []" "ws' = (ws @ ws1) @ wakers_of nodes2 (rev gone)"
        by blast
      have n2: "needs nodes2 i = (if i = w then needs nodes w - unat rem else needs nodes i)" for i
        using tw(1) sp(3) eq by auto
      have xs: "xs = lst' @ gone" using d(1) unfolding served_def by blast
      have "served (needs nodes) (xs @ [w]) (unat rem) (needs nodes') lst' (gone @ [w]) (unat rem')"
        using w(1) n2 True sp(1,2) by (intro served_snoc [OF d(1)]) auto
      moreover have "wakers_of nodes2 (rev gone) = wakers_of nodes (rev gone)"
        using w(1) xs same by (intro wakers_of_cong) (metis UnCI set_append set_rev)
      ultimately show ?thesis
        using d(2,3) tw(2) sp(5) by (intro exI [of _ "gone @ [w]"]) auto
    qed
  qed
qed


definition list_ok :: "sem \<Rightarrow> bool" where
  "list_ok s \<longleftrightarrow> distinct (s_list s) \<and> (\<forall>i \<in> set (s_list s). 0 < needs (s_nodes s) i)"

text \<open>The outcome of handing \<open>n\<close> permits to a semaphore.\<close>

definition handed :: "nat \<Rightarrow> sem \<Rightarrow> sem \<Rightarrow> nat list \<Rightarrow> nat \<Rightarrow> waker list \<Rightarrow> bool" where
  "handed n s s' gone n' woken \<longleftrightarrow>
     served (needs (s_nodes s)) (s_list s) n (needs (s_nodes s')) (s_list s') gone n' \<and>
     avail s' = avail s + n' \<and> sem_is_closed s' = sem_is_closed s \<and>
     s_list_closed s' = s_list_closed s \<and> woken = wakers_of (s_nodes s) (rev gone)"

lemma handed_zero: "list_ok s \<Longrightarrow> handed 0 s s [] 0 []"
  by (auto simp: handed_def served_def list_ok_def)

lemma add_permits_loop_zero: "add_permits_loop s 0 e woken = Some (Inr (s, woken))"
  by (simp add: add_permits_loop.simps)

lemma add_permits_locked_handed:
  assumes ok: "list_ok s" and room: "avail s + unat rem < 2 ^ 61 - 1"
  shows "\<exists>s' woken gone n'. add_permits_locked rem s = Some (Inr (s', woken)) \<and>
           handed (unat rem) s s' gone n' woken"
proof (cases "rem = 0")
  case True
  then show ?thesis
    using handed_zero [OF ok] by (auto simp: add_permits_locked_def add_permits_loop_zero)
next
  case False
  obtain nodes lst rem' emp wakers where
    inner: "add_inner (s_nodes s) (s_list s) rem [] = (nodes, lst, rem', emp, wakers)"
    by (metis prod_cases5)
  from add_inner_served [OF inner] ok obtain gone where
    sv: "served (needs (s_nodes s)) (s_list s) (unat rem) (needs nodes) lst gone (unat rem')"
    and emp: "emp \<longleftrightarrow> lst = []" and wk: "wakers = wakers_of (s_nodes s) (rev gone)"
    by (auto simp: list_ok_def)
  let ?s1 = "s\<lparr>s_nodes := nodes, s_list := lst\<rparr>"
  show ?thesis
  proof (cases "rem' > 0 \<and> emp")
    case True
    let ?s2 = "?s1\<lparr>s_state := s_state s + push_bit PERMIT_SHIFT rem'\<rparr>"
    from sv have le: "unat rem' \<le> unat rem" by (simp add: served_def)
    then have max: "rem' < MAX_PERMIT" using room by (simp add: less_MAX_PERMIT)
    have st: "unat (s_state ?s2) = unat (s_state s) + 2 * unat rem'"
      using room le by (simp add: unat_add_shift1 avail_state)
    have "add_permits_locked rem s = Some (Inr (?s2, wakers))"
      using False inner True max
      by (simp add: add_permits_locked_def add_permits_loop.simps [of s] add_permits_loop_zero Let_def)
    moreover have "handed (unat rem) s ?s2 gone (unat rem') wakers"
      using sv wk st by (simp add: handed_def avail_state sem_closed_odd)
    ultimately show ?thesis by blast
  next
    case nemp: False
    have "rem' = 0"
    proof (rule ccontr)
      assume "rem' \<noteq> 0"
      then have "\<not> emp" using nemp by (simp add: word_neq_0_conv)
      with emp sv have "unat rem' = 0" by (simp add: served_def)
      with \<open>rem' \<noteq> 0\<close> show False by (simp add: unat_eq_0)
    qed
    then have "add_permits_locked rem s = Some (Inr (?s1, wakers))"
      using False inner by (simp add: add_permits_locked_def add_permits_loop.simps [of s] add_permits_loop_zero Let_def)
    moreover have "handed (unat rem) s ?s1 gone (unat rem') wakers"
      using sv wk \<open>rem' = 0\<close> by (simp add: handed_def avail_state sem_closed_odd)
    ultimately show ?thesis by blast
  qed
qed

section \<open>A semaphore with its futures and permits\<close>

text \<open>
  The pool adds to the semaphore the \<open>Acquire\<close> futures that exist, and two ghost counters: the
  permits handed out and not given back, and all permits there are. Its steps are the calls of
  the crate; a future that returned \<open>Ready(Ok)\<close> is gone, as no future is polled after completion.
\<close>

record pool =
  p_sem :: sem
  p_futs :: "nat \<Rightarrow> acquire option"
  p_held :: nat
  p_total :: nat

inductive pool_op :: "pool \<Rightarrow> pool \<Rightarrow> bool" where
  start: "p_futs p i = None \<Longrightarrow> n < MAX_PERMIT \<Longrightarrow>
     acquire_new i n (p_sem p) = (a, s) \<Longrightarrow>
     pool_op p (p\<lparr>p_sem := s, p_futs := (p_futs p)(i \<mapsto> a)\<rparr>)"
| granted: "p_futs p i = Some a \<Longrightarrow> acquire_poll cx a (p_sem p) = Some (Inr (Ready True, a', s, ws)) \<Longrightarrow>
     pool_op p (p\<lparr>p_sem := s, p_futs := (p_futs p)(i := None), p_held := p_held p + unat (a_num a)\<rparr>)"
| waiting: "p_futs p i = Some a \<Longrightarrow> acquire_poll cx a (p_sem p) = Some (Inr (Pending, a', s, ws)) \<Longrightarrow>
     pool_op p (p\<lparr>p_sem := s, p_futs := (p_futs p)(i \<mapsto> a')\<rparr>)"
| refused: "p_futs p i = Some a \<Longrightarrow> acquire_poll cx a (p_sem p) = Some (Inr (Ready False, a', s, ws)) \<Longrightarrow>
     pool_op p (p\<lparr>p_sem := s, p_futs := (p_futs p)(i \<mapsto> a')\<rparr>)"
| dropped: "p_futs p i = Some a \<Longrightarrow> acquire_drop a (p_sem p) = Some (Inr (s, ws)) \<Longrightarrow>
     pool_op p (p\<lparr>p_sem := s, p_futs := (p_futs p)(i := None)\<rparr>)"
| try_ok: "try_acquire n (p_sem p) = Inr (Inr (), s) \<Longrightarrow>
     pool_op p (p\<lparr>p_sem := s, p_held := p_held p + unat n\<rparr>)"
| try_err: "try_acquire n (p_sem p) = Inr (Inl e, s) \<Longrightarrow> pool_op p (p\<lparr>p_sem := s\<rparr>)"
| given_back: "unat n \<le> p_held p \<Longrightarrow> release n (p_sem p) = Some (Inr (s, ws)) \<Longrightarrow>
     pool_op p (p\<lparr>p_sem := s, p_held := p_held p - unat n\<rparr>)"
| added: "p_total p + unat n < 2 ^ 61 - 1 \<Longrightarrow> release n (p_sem p) = Some (Inr (s, ws)) \<Longrightarrow>
     pool_op p (p\<lparr>p_sem := s, p_total := p_total p + unat n\<rparr>)"
| forgotten: "k \<le> p_held p \<Longrightarrow> pool_op p (p\<lparr>p_held := p_held p - k, p_total := p_total p - k\<rparr>)"

inductive pool_step :: "pool \<Rightarrow> pool \<Rightarrow> bool" where
  op: "pool_op p q \<Longrightarrow> pool_step p q"
| closed: "sem_close (p_sem p) = (s, ws) \<Longrightarrow> pool_step p (p\<lparr>p_sem := s\<rparr>)"

text \<open>Permits assigned to futures that have not been granted yet.\<close>

definition num_of :: "(nat \<Rightarrow> acquire option) \<Rightarrow> nat \<Rightarrow> nat" where
  "num_of futs i = (case futs i of None \<Rightarrow> 0 | Some a \<Rightarrow> unat (a_num a))"

definition assigned :: "pool \<Rightarrow> nat" where
  "assigned p = (\<Sum>i \<in> dom (p_futs p). num_of (p_futs p) i - needs (s_nodes (p_sem p)) i)"

definition fut_ok :: "pool \<Rightarrow> nat \<Rightarrow> acquire \<Rightarrow> bool" where
  "fut_ok p i a \<longleftrightarrow>
     a_node a = i \<and> unat (a_num a) < 2 ^ 61 - 1 \<and> needs (s_nodes (p_sem p)) i \<le> unat (a_num a) \<and>
     (\<not> a_queued a \<longrightarrow> i \<notin> set (s_list (p_sem p)) \<and> needs (s_nodes (p_sem p)) i = unat (a_num a)) \<and>
     (a_queued a \<and> i \<notin> set (s_list (p_sem p)) \<and> \<not> s_list_closed (p_sem p) \<longrightarrow>
        needs (s_nodes (p_sem p)) i = 0)"

text \<open>\<open>pool_bal n\<close>: everything is in order, except that \<open>n\<close> permits are in the hands of the running call.\<close>

definition pool_bal :: "nat \<Rightarrow> pool \<Rightarrow> bool" where
  "pool_bal n p \<longleftrightarrow>
     list_ok (p_sem p) \<and> finite (dom (p_futs p)) \<and> set (s_list (p_sem p)) \<subseteq> dom (p_futs p) \<and>
     (\<forall>i a. p_futs p i = Some a \<longrightarrow> fut_ok p i a) \<and>
     sem_is_closed (p_sem p) = s_list_closed (p_sem p) \<and>
     (s_list_closed (p_sem p) \<longrightarrow> s_list (p_sem p) = []) \<and>
     (s_list (p_sem p) \<noteq> [] \<longrightarrow> avail (p_sem p) = 0) \<and>
     (\<forall>i \<in> set (butlast (s_list (p_sem p))). needs (s_nodes (p_sem p)) i = num_of (p_futs p) i) \<and>
     avail (p_sem p) + assigned p + p_held p + n = p_total p \<and> p_total p < 2 ^ 61 - 1"

definition pool_inv :: "pool \<Rightarrow> bool" where
  "pool_inv p \<longleftrightarrow> pool_bal 0 p"

lemma sum_sub_split:
  fixes nd nd' num :: "nat \<Rightarrow> nat"
  assumes "finite D" "distinct lst" "set lst \<subseteq> D" "\<And>i. i \<in> D \<Longrightarrow> nd' i \<le> nd i \<and> nd i \<le> num i"
    "\<And>i. i \<notin> set lst \<Longrightarrow> nd' i = nd i"
  shows "(\<Sum>i\<in>D. num i - nd' i) = (\<Sum>i\<in>D. num i - nd i) + (\<Sum>i\<leftarrow>lst. nd i - nd' i)"
proof -
  have "(\<Sum>i\<leftarrow>lst. nd i - nd' i) = (\<Sum>i\<in>set lst. nd i - nd' i)"
    using assms(2) by (simp add: sum_list_distinct_conv_sum_set)
  also have "\<dots> = (\<Sum>i\<in>D. nd i - nd' i)"
    using assms by (intro sum.mono_neutral_left) auto
  finally have "(\<Sum>i\<in>D. num i - nd i) + (\<Sum>i\<leftarrow>lst. nd i - nd' i) = (\<Sum>i\<in>D. (num i - nd i) + (nd i - nd' i))"
    by (simp add: sum.distrib)
  also have "\<dots> = (\<Sum>i\<in>D. num i - nd' i)"
    using assms(4) by (intro sum.cong refl) (metis diff_add_assoc le_add_diff_inverse2 Nat.add_diff_assoc)
  finally show ?thesis by simp
qed

lemma butlast_prefix: "x \<in> set (butlast xs) \<Longrightarrow> x \<in> set (butlast (xs @ ys))"
  by (auto simp: butlast_append dest: in_set_butlastD)

lemma pool_bal_num: "pool_bal n p \<Longrightarrow> p_futs p i = Some a \<Longrightarrow> needs (s_nodes (p_sem p)) i \<le> num_of (p_futs p) i"
  by (auto simp: pool_bal_def fut_ok_def num_of_def)

lemma handed_bal:
  assumes inv: "pool_bal n p" and h: "handed n (p_sem p) s' gone n' woken"
  shows "pool_inv (p\<lparr>p_sem := s'\<rparr>)"
proof -
  let ?s = "p_sem p" and ?nd = "needs (s_nodes (p_sem p))" and ?nd' = "needs (s_nodes s')"
  from h have sv: "served ?nd (s_list ?s) n ?nd' (s_list s') gone n'"
    and av: "avail s' = avail ?s + n'" and cl: "sem_is_closed s' = sem_is_closed ?s"
      "s_list_closed s' = s_list_closed ?s"
    by (simp_all add: handed_def)
  from inv have ok: "distinct (s_list ?s)" and fin: "finite (dom (p_futs p))"
    and sub: "set (s_list ?s) \<subseteq> dom (p_futs p)" and fut: "\<And>i a. p_futs p i = Some a \<Longrightarrow> fut_ok p i a"
    by (simp_all add: pool_bal_def list_ok_def)
  from sv have lst: "s_list ?s = s_list s' @ gone" and out: "\<And>i. i \<notin> set (s_list ?s) \<Longrightarrow> ?nd' i = ?nd i"
    and g0: "\<And>i. i \<in> set gone \<Longrightarrow> ?nd' i = 0" and bl: "\<And>i. i \<in> set (butlast (s_list s')) \<Longrightarrow> ?nd' i = ?nd i"
    and pos: "\<And>i. i \<in> set (s_list s') \<Longrightarrow> 0 < ?nd' i \<and> ?nd' i \<le> ?nd i"
    and n0: "s_list s' \<noteq> [] \<Longrightarrow> n' = 0" and n: "n = n' + (\<Sum>i\<leftarrow>s_list ?s. ?nd i - ?nd' i)"
    unfolding served_def by auto
  have le: "?nd' i \<le> ?nd i" for i
    using out [of i] g0 [of i] pos [of i] lst by (cases "i \<in> set (s_list ?s)") auto
  have "assigned (p\<lparr>p_sem := s'\<rparr>) = assigned p + (\<Sum>i\<leftarrow>s_list ?s. ?nd i - ?nd' i)"
    unfolding assigned_def using fin ok sub le out pool_bal_num [OF inv]
    by (simp, intro sum_sub_split) auto
  with n have as: "assigned (p\<lparr>p_sem := s'\<rparr>) + n' = assigned p + n" by simp
  have "fut_ok (p\<lparr>p_sem := s'\<rparr>) i a" if "p_futs p i = Some a" for i a
    using fut [OF that] le [of i] out [of i] g0 [of i] lst cl inv unfolding fut_ok_def pool_bal_def by auto
  moreover have "?nd' i = num_of (p_futs p) i" if "i \<in> set (butlast (s_list s'))" for i
  proof -
    have "i \<in> set (butlast (s_list ?s))" using butlast_prefix [OF that] lst by simp
    with bl [OF that] inv show ?thesis by (simp add: pool_bal_def)
  qed
  ultimately show ?thesis
    using inv sub lst pos n0 cl av as
    unfolding pool_inv_def pool_bal_def list_ok_def by auto
qed

text \<open>Giving \<open>n\<close> loose permits to the semaphore always returns, and restores the balance.\<close>

lemma add_permits_bal:
  assumes inv: "pool_bal (unat rem) p"
  shows "\<exists>s' ws gone n'. add_permits_locked rem (p_sem p) = Some (Inr (s', ws)) \<and>
           handed (unat rem) (p_sem p) s' gone n' ws \<and> pool_inv (p\<lparr>p_sem := s'\<rparr>) \<and>
           sem_is_closed s' = sem_is_closed (p_sem p)"
proof -
  from inv have "list_ok (p_sem p)" "avail (p_sem p) + unat rem < 2 ^ 61 - 1"
    by (auto simp: pool_bal_def)
  from add_permits_locked_handed [OF this] handed_bal [OF inv] show ?thesis by (metis handed_def)
qed

section \<open>Every call returns and keeps the balance\<close>

lemma state_even: "\<not> sem_is_closed s \<Longrightarrow> unat (s_state s) = 2 * avail s"
  using sem_closed_odd [of s] by (auto simp: avail_state)

lemma push_le_state:
  assumes "\<not> sem_is_closed s" "unat n < 2 ^ 63"
  shows "push_bit PERMIT_SHIFT n \<le> s_state s \<longleftrightarrow> unat n \<le> avail s"
  using state_even [OF assms(1)] unat_shift1 [OF assms(2)] by (simp add: word_le_nat_alt)

lemma avail_take:
  assumes "\<not> sem_is_closed s" "unat n \<le> avail s" "unat n < 2 ^ 63"
  shows "avail (s\<lparr>s_state := s_state s - push_bit PERMIT_SHIFT n\<rparr>) = avail s - unat n"
    and "\<not> sem_is_closed (s\<lparr>s_state := s_state s - push_bit PERMIT_SHIFT n\<rparr>)"
proof -
  have "unat (s_state s - push_bit PERMIT_SHIFT n) = 2 * avail s - 2 * unat n"
    using push_le_state [OF assms(1,3)] assms(2) state_even [OF assms(1)] unat_shift1 [OF assms(3)]
    by (simp add: unat_sub)
  then show "avail (s\<lparr>s_state := s_state s - push_bit PERMIT_SHIFT n\<rparr>) = avail s - unat n"
    "\<not> sem_is_closed (s\<lparr>s_state := s_state s - push_bit PERMIT_SHIFT n\<rparr>)"
    by (simp_all add: avail_state sem_closed_odd)
qed

lemma closed_pos: "s_state s AND SEM_CLOSED > 0 \<longleftrightarrow> sem_is_closed s"
  by (simp add: SEM_CLOSED_def and_one_pos sem_closed_odd)

lemma shift_back: "unat n < 2 ^ 63 \<Longrightarrow> drop_bit PERMIT_SHIFT (push_bit PERMIT_SHIFT n :: usize) = n"
  using unat_shift1 [of n] unat_drop_bit [of 1 "push_bit PERMIT_SHIFT n"]
  by (simp add: PERMIT_SHIFT_def word_unat_eq_iff)

lemma run_acquire:
  assumes "unat n < 2 ^ 63"
  shows "run_action (acquire_action (push_bit PERMIT_SHIFT n)) (s_state s) = Inr
     (if sem_is_closed s then (None, s_state s)
      else if unat n \<le> avail s then (Some (n, False), s_state s - push_bit PERMIT_SHIFT n)
      else (Some (available_permits s, True), 0))"
  using push_le_state [OF _ assms, of s]
  by (auto simp: run_action_eq acquire_action_def closed_pos shift_back [OF assms] available_permits_def)

lemma run_try_acquire:
  assumes "unat n < 2 ^ 63"
  shows "run_action (try_acquire_action (push_bit PERMIT_SHIFT n)) (s_state s) = Inr
     (if sem_is_closed s then (Inl AcqClosed, s_state s)
      else if avail s < unat n then (Inl AcqNoPermits, s_state s)
      else (Inr (), s_state s - push_bit PERMIT_SHIFT n))"
  using push_le_state [OF _ assms, of s]
  by (auto simp: run_action_eq try_acquire_action_def sem_is_closed_def not_le [symmetric])

lemma sum_dom_upd:
  fixes f g :: "nat \<Rightarrow> nat"
  assumes "finite D" "\<And>j. j \<noteq> i \<Longrightarrow> f j = g j"
  shows "sum f (D - {i}) = sum g (D - {i})"
  using assms by (intro sum.cong) auto

lemma assigned_take:
  assumes "finite (dom (p_futs p))"
  shows "assigned p = (num_of (p_futs p) i - needs (s_nodes (p_sem p)) i) +
           (\<Sum>j \<in> dom (p_futs p) - {i}. num_of (p_futs p) j - needs (s_nodes (p_sem p)) j)"
proof (cases "i \<in> dom (p_futs p)")
  case True
  then show ?thesis unfolding assigned_def using assms by (simp add: sum.remove)
next
  case False
  then have "num_of (p_futs p) i = 0" by (auto simp: num_of_def split: option.splits)
  with False show ?thesis by (simp add: assigned_def)
qed

lemma assigned_eqI:
  assumes "finite (dom (p_futs p))" "finite (dom (p_futs q))"
    and "dom (p_futs q) - {i} = dom (p_futs p) - {i}"
    and "\<And>j. j \<noteq> i \<Longrightarrow> p_futs q j = p_futs p j"
    and "\<And>j. j \<noteq> i \<Longrightarrow> needs (s_nodes (p_sem q)) j = needs (s_nodes (p_sem p)) j"
  shows "assigned q + (num_of (p_futs p) i - needs (s_nodes (p_sem p)) i) =
         assigned p + (num_of (p_futs q) i - needs (s_nodes (p_sem q)) i)"
proof -
  have "(\<Sum>j \<in> dom (p_futs q) - {i}. num_of (p_futs q) j - needs (s_nodes (p_sem q)) j) =
        (\<Sum>j \<in> dom (p_futs p) - {i}. num_of (p_futs p) j - needs (s_nodes (p_sem p)) j)"
    using assms by (intro sum.cong) (auto simp: num_of_def)
  then show ?thesis
    using assigned_take [OF assms(1), of i] assigned_take [OF assms(2), of i] by simp
qed

text \<open>
  How the pool changes when the poll of future \<open>i\<close> answers \<open>r\<close>.
\<close>

definition after_poll :: "pool \<Rightarrow> nat \<Rightarrow> bool poll \<Rightarrow> acquire \<Rightarrow> sem \<Rightarrow> pool" where
  "after_poll p i r a s =
     (if r = Ready True
      then p\<lparr>p_sem := s, p_futs := (p_futs p)(i := None), p_held := p_held p + unat (a_num a)\<rparr>
      else p\<lparr>p_sem := s, p_futs := (p_futs p)(i \<mapsto> a)\<rparr>)"

text \<open>The outcomes of a poll.\<close>

lemma pool_fut:
  assumes "pool_inv p" "p_futs p i = Some a"
  shows "a_node a = i" "unat (a_num a) < 2 ^ 61 - 1" "unat (a_num a) < 2 ^ 63"
    "needs (s_nodes (p_sem p)) i \<le> unat (a_num a)"
    "\<not> a_queued a \<Longrightarrow> i \<notin> set (s_list (p_sem p))"
    "\<not> a_queued a \<Longrightarrow> needs (s_nodes (p_sem p)) i = unat (a_num a)"
    "a_queued a \<Longrightarrow> i \<notin> set (s_list (p_sem p)) \<Longrightarrow> \<not> s_list_closed (p_sem p) \<Longrightarrow>
       needs (s_nodes (p_sem p)) i = 0"
    "i \<in> set (s_list (p_sem p)) \<Longrightarrow> 0 < needs (s_nodes (p_sem p)) i"
proof -
  from assms have "fut_ok p i a" "list_ok (p_sem p)" by (simp_all add: pool_inv_def pool_bal_def)
  then show "a_node a = i" "unat (a_num a) < 2 ^ 61 - 1" "unat (a_num a) < 2 ^ 63"
    "needs (s_nodes (p_sem p)) i \<le> unat (a_num a)"
    "\<not> a_queued a \<Longrightarrow> i \<notin> set (s_list (p_sem p))"
    "\<not> a_queued a \<Longrightarrow> needs (s_nodes (p_sem p)) i = unat (a_num a)"
    "a_queued a \<Longrightarrow> i \<notin> set (s_list (p_sem p)) \<Longrightarrow> \<not> s_list_closed (p_sem p) \<Longrightarrow>
       needs (s_nodes (p_sem p)) i = 0"
    "i \<in> set (s_list (p_sem p)) \<Longrightarrow> 0 < needs (s_nodes (p_sem p)) i"
    by (simp_all add: fut_ok_def list_ok_def)
qed

lemma pool_facts:
  assumes "pool_inv p"
  shows "sem_is_closed (p_sem p) = s_list_closed (p_sem p)"
    "s_list_closed (p_sem p) \<Longrightarrow> s_list (p_sem p) = []"
    "x \<in> set (s_list (p_sem p)) \<Longrightarrow> avail (p_sem p) = 0"
    "avail (p_sem p) + assigned p + p_held p = p_total p" "p_total p < 2 ^ 61 - 1"
    "set (s_list (p_sem p)) \<subseteq> dom (p_futs p)" "finite (dom (p_futs p))"
  using assms unfolding pool_inv_def pool_bal_def by (auto dest: length_pos_if_in_set)

lemma poll_closed:
  assumes "sem_is_closed (p_sem p)" "pool_inv p" "p_futs p i = Some a"
  shows "acquire_poll cx a (p_sem p) = Some (Inr (Ready False, a, p_sem p, []))"
proof -
  have "unat (if a_queued a then w_state (s_nodes (p_sem p) (a_node a)) else a_num a) < 2 ^ 63"
    using pool_fut(3,4) [OF assms(2,3)] pool_fut(1) [OF assms(2,3)] by (auto simp: needs_def)
  then show ?thesis using assms(1)
    by (simp add: acquire_poll_def poll_acquire_def run_acquire)
qed

lemma poll_at_once:
  assumes "\<not> sem_is_closed (p_sem p)" "pool_inv p" "p_futs p i = Some a" "\<not> a_queued a"
    "unat (a_num a) \<le> avail (p_sem p)"
  shows "acquire_poll cx a (p_sem p) = Some (Inr (Ready True, a\<lparr>a_queued := False\<rparr>,
    (p_sem p)\<lparr>s_state := s_state (p_sem p) - push_bit PERMIT_SHIFT (a_num a)\<rparr>, []))"
proof -
  have "unat (a_num a) < 2 ^ 63"
    using pool_fut(3) [OF assms(2,3)] .
  then show ?thesis using assms(1,4,5)
    by (simp add: acquire_poll_def poll_acquire_def run_acquire)
qed

lemma poll_enqueue:
  assumes "\<not> sem_is_closed (p_sem p)" "pool_inv p" "p_futs p i = Some a" "\<not> a_queued a"
    "avail (p_sem p) < unat (a_num a)"
  shows "\<exists>nodes. acquire_poll cx a (p_sem p) = Some (Inr (Pending, a\<lparr>a_queued := True\<rparr>,
      (p_sem p)\<lparr>s_state := 0, s_nodes := nodes, s_list := i # s_list (p_sem p)\<rparr>, [])) \<and>
      needs nodes i = unat (a_num a) - avail (p_sem p) \<and> w_waker (nodes i) = Some cx \<and>
      (\<forall>j. j \<noteq> i \<longrightarrow> nodes j = s_nodes (p_sem p) j)"
proof -
  let ?s = "p_sem p"
  from assms have f: "a_node a = i" "needs (s_nodes ?s) i = unat (a_num a)" "unat (a_num a) < 2 ^ 63"
    "\<not> s_list_closed ?s"
    using pool_fut(1,3,6) [OF assms(2,3)] pool_facts(1) [OF assms(2)] by auto
  obtain full rem nodes where asg: "assign_permits i (available_permits ?s) (s_nodes ?s) = (full, rem, nodes)"
    by (metis prod_cases3)
  note sp = assign_permits_spec [OF asg]
  have "\<not> full" "rem = 0"
    using sp(1,2) f(2) assms(5) by (auto simp: avail_def unat_eq_0 [symmetric])
  moreover have "needs (set_waker i cx nodes) i = unat (a_num a) - avail ?s"
    "w_waker (set_waker i cx nodes i) = Some cx" "j \<noteq> i \<Longrightarrow> set_waker i cx nodes j = s_nodes ?s j" for j
    using sp(3,4) f(2) by (auto simp: set_waker_def needs_def avail_def split: option.splits if_splits)
  ultimately show ?thesis
    using assms(1,4,5) f asg
    by (intro exI [of _ "set_waker i cx nodes"])
       (simp add: acquire_poll_def poll_acquire_def run_acquire wl_push_front_def)
qed

lemma poll_again:
  assumes "\<not> sem_is_closed (p_sem p)" "pool_inv p" "p_futs p i = Some a" "a_queued a"
    "i \<in> set (s_list (p_sem p))"
  shows "\<exists>nodes. acquire_poll cx a (p_sem p) = Some (Inr (Pending, a\<lparr>a_queued := True\<rparr>,
      (p_sem p)\<lparr>s_state := 0, s_nodes := nodes\<rparr>, [])) \<and>
      needs nodes = needs (s_nodes (p_sem p)) \<and> w_waker (nodes i) = Some cx \<and>
      (\<forall>j. j \<noteq> i \<longrightarrow> nodes j = s_nodes (p_sem p) j)"
proof -
  let ?s = "p_sem p"
  from assms have f: "a_node a = i" "needs (s_nodes ?s) i \<le> unat (a_num a)" "unat (a_num a) < 2 ^ 63"
    "\<not> s_list_closed ?s" "avail ?s = 0" "0 < needs (s_nodes ?s) i"
    using pool_fut(1,3,4,8) [OF assms(2,3)] pool_facts(1,3) [OF assms(2)] by auto
  then have av: "available_permits ?s = 0" by (simp add: avail_def unat_eq_0)
  have small: "unat (w_state (s_nodes ?s i)) < 2 ^ 63" using f by (simp add: needs_def)
  obtain full rem nodes where asg: "assign_permits i 0 (s_nodes ?s) = (full, rem, nodes)"
    by (metis prod_cases3)
  note sp = assign_permits_spec [OF asg]
  have "\<not> full" "rem = 0" using sp(1,2) f by (auto simp: unat_eq_0 [symmetric])
  moreover have "needs (set_waker i cx nodes) j = needs (s_nodes ?s) j" for j
    using sp(3,4) by (cases "j = i") (auto simp: set_waker_def needs_def split: option.splits if_splits)
  moreover have "w_waker (set_waker i cx nodes i) = Some cx"
    "j \<noteq> i \<Longrightarrow> set_waker i cx nodes j = s_nodes ?s j" for j
    using sp(4) by (auto simp: set_waker_def split: option.splits if_splits)
  ultimately show ?thesis
    using assms(1,4) f asg av run_acquire [OF small, of ?s]
    by (intro exI [of _ "set_waker i cx nodes"])
       (auto simp: acquire_poll_def poll_acquire_def needs_def)
qed

lemma poll_served:
  assumes "\<not> sem_is_closed (p_sem p)" "pool_inv p" "p_futs p i = Some a" "a_queued a"
    "i \<notin> set (s_list (p_sem p))"
  shows "acquire_poll cx a (p_sem p) = Some (Inr (Ready True, a\<lparr>a_queued := False\<rparr>, p_sem p, []))"
proof -
  let ?s = "p_sem p"
  from assms have f: "a_node a = i" "needs (s_nodes ?s) i = 0" "\<not> s_list_closed ?s"
    using pool_fut(1,7) [OF assms(2,3)] pool_facts(1) [OF assms(2)] by auto
  then have "w_state (s_nodes ?s i) = 0" by (simp add: needs_def unat_eq_0)
  moreover have "(s_nodes ?s)(i := (s_nodes ?s i)\<lparr>w_state := 0\<rparr>) = s_nodes ?s"
    using calculation by (auto simp: fun_eq_iff)
  ultimately show ?thesis
    using assms(1,4) f run_acquire [of 0 ?s]
    by (simp add: acquire_poll_def poll_acquire_def assign_permits_eq add_permits_locked_def add_permits_loop_zero)
qed

text \<open>Changing the entry of one future that is not queued.\<close>

lemma keep_at_once:
  assumes "\<not> sem_is_closed (p_sem p)" "pool_inv p" "p_futs p i = Some a" "\<not> a_queued a"
    "unat (a_num a) \<le> avail (p_sem p)"
  shows "pool_inv (after_poll p i (Ready True) (a\<lparr>a_queued := False\<rparr>)
    ((p_sem p)\<lparr>s_state := s_state (p_sem p) - push_bit PERMIT_SHIFT (a_num a)\<rparr>))"
    (is "pool_inv ?q")
proof -
  note f = pool_fut [OF assms(2,3)] and pf = pool_facts [OF assms(2)]
  note tk = avail_take [OF assms(1,5) f(3)]
  have "assigned ?q + (num_of (p_futs p) i - needs (s_nodes (p_sem p)) i) =
         assigned p + (num_of (p_futs ?q) i - needs (s_nodes (p_sem ?q)) i)"
    using pf(7) by (intro assigned_eqI) (auto simp: after_poll_def)
  then have "assigned ?q = assigned p"
    using f(6) assms(3,4) by (simp add: num_of_def after_poll_def)
  moreover have "i \<notin> set (s_list (p_sem p))" using f(5) assms(4) by blast
  ultimately show ?thesis
    using assms tk pf
    by (auto simp: pool_inv_def pool_bal_def after_poll_def fut_ok_def list_ok_def num_of_def dest: in_set_butlastD)
qed

lemma keep_enqueue:
  assumes "\<not> sem_is_closed (p_sem p)" "pool_inv p" "p_futs p i = Some a" "\<not> a_queued a"
    "avail (p_sem p) < unat (a_num a)"
    and nodes: "needs nodes i = unat (a_num a) - avail (p_sem p)" "\<forall>j. j \<noteq> i \<longrightarrow> nodes j = s_nodes (p_sem p) j"
  shows "pool_inv (after_poll p i Pending (a\<lparr>a_queued := True\<rparr>)
    ((p_sem p)\<lparr>s_state := 0, s_nodes := nodes, s_list := i # s_list (p_sem p)\<rparr>))"
    (is "pool_inv ?q")
proof -
  note f = pool_fut [OF assms(2,3)] and pf = pool_facts [OF assms(2)]
  have same: "needs nodes j = needs (s_nodes (p_sem p)) j" if "j \<noteq> i" for j
    using nodes(2) that by (simp add: needs_def)
  have "assigned ?q + (num_of (p_futs p) i - needs (s_nodes (p_sem p)) i) =
         assigned p + (num_of (p_futs ?q) i - needs (s_nodes (p_sem ?q)) i)"
    using pf(7) same by (intro assigned_eqI) (auto simp: after_poll_def)
  then have as: "assigned ?q = assigned p + avail (p_sem p)"
    using f(6) assms(3-5) nodes(1) by (simp add: num_of_def after_poll_def)
  have ni: "i \<notin> set (s_list (p_sem p))" using f(5) assms(4) by blast
  have z: "avail (p_sem ?q) = 0" "\<not> sem_is_closed (p_sem ?q)"
    by (simp_all add: after_poll_def avail_state sem_closed_odd)
  have full: "needs nodes i = num_of (p_futs p) i" if "s_list (p_sem p) \<noteq> []"
    using pf(3) [OF hd_in_set [OF that]] nodes(1) assms(3) by (simp add: num_of_def)
  have "j \<noteq> i \<Longrightarrow> p_futs p j = Some b \<Longrightarrow> fut_ok ?q j b" for j b
    using assms(1,2) same [of j] by (auto simp: pool_inv_def pool_bal_def fut_ok_def after_poll_def)
  moreover have "fut_ok ?q i (a\<lparr>a_queued := True\<rparr>)"
    using f nodes(1) assms(4) by (auto simp: fut_ok_def after_poll_def)
  moreover have "needs nodes j = num_of (p_futs ?q) j" if "j \<in> set (butlast (i # s_list (p_sem p)))" for j
  proof (cases "j = i")
    case True
    then show ?thesis using full that assms(3) by (auto simp: num_of_def after_poll_def split: if_splits)
  next
    case False
    with that have "j \<in> set (butlast (s_list (p_sem p)))" by (auto split: if_splits)
    with False show ?thesis using assms(2) same [OF False]
      by (auto simp: pool_inv_def pool_bal_def num_of_def after_poll_def)
  qed
  moreover have "0 < needs nodes j" if "j \<in> set (s_list (p_sem p))" for j
    using that ni assms(2) same [of j] by (cases "j = i") (auto simp: pool_inv_def pool_bal_def list_ok_def)
  then have "list_ok (p_sem ?q)"
    using assms(2,5) ni nodes(1) by (auto simp: pool_inv_def pool_bal_def list_ok_def after_poll_def)
  moreover have "set (s_list (p_sem ?q)) \<subseteq> dom (p_futs ?q)" "finite (dom (p_futs ?q))"
    using pf(6,7) by (auto simp: after_poll_def)
  ultimately show ?thesis
    using z as pf(1,4,5) assms(1) unfolding pool_inv_def pool_bal_def
    by (auto simp: after_poll_def)
qed

lemma keep_again:
  assumes "\<not> sem_is_closed (p_sem p)" "pool_inv p" "p_futs p i = Some a" "a_queued a"
    "i \<in> set (s_list (p_sem p))" and nodes: "needs nodes = needs (s_nodes (p_sem p))"
  shows "pool_inv (after_poll p i Pending (a\<lparr>a_queued := True\<rparr>) ((p_sem p)\<lparr>s_state := 0, s_nodes := nodes\<rparr>))"
    (is "pool_inv ?q")
proof -
  note pf = pool_facts [OF assms(2)]
  have upd: "p_futs ?q = p_futs p" using assms(3,4) by (auto simp: after_poll_def fun_eq_iff)
  then have "assigned ?q = assigned p" using nodes by (simp add: assigned_def after_poll_def)
  moreover have "avail (p_sem ?q) = 0" "\<not> sem_is_closed (p_sem ?q)"
    by (simp_all add: after_poll_def avail_state sem_closed_odd)
  ultimately show ?thesis
    using assms(1,2) upd nodes pf(3) [OF assms(5)]
    by (auto simp: pool_inv_def pool_bal_def list_ok_def fut_ok_def after_poll_def)
qed

lemma keep_served:
  assumes "\<not> sem_is_closed (p_sem p)" "pool_inv p" "p_futs p i = Some a" "a_queued a"
    "i \<notin> set (s_list (p_sem p))"
  shows "pool_inv (after_poll p i (Ready True) (a\<lparr>a_queued := False\<rparr>) (p_sem p))" (is "pool_inv ?q")
proof -
  note f = pool_fut [OF assms(2,3)] and pf = pool_facts [OF assms(2)]
  have nd: "needs (s_nodes (p_sem p)) i = 0" using f(7) pf(1) assms by auto
  have "assigned ?q + (num_of (p_futs p) i - needs (s_nodes (p_sem p)) i) =
         assigned p + (num_of (p_futs ?q) i - needs (s_nodes (p_sem ?q)) i)"
    using pf(7) by (intro assigned_eqI) (auto simp: after_poll_def)
  then have "assigned ?q + unat (a_num a) = assigned p"
    using nd assms(3) by (simp add: num_of_def after_poll_def)
  then show ?thesis
    using assms pf
    by (auto simp: pool_inv_def pool_bal_def after_poll_def fut_ok_def list_ok_def num_of_def dest: in_set_butlastD)
qed

lemma poll_keeps:
  assumes "pool_inv p" "p_futs p i = Some a"
  shows "\<exists>r a' s. acquire_poll cx a (p_sem p) = Some (Inr (r, a', s, [])) \<and> pool_inv (after_poll p i r a' s) \<and>
           a_num a' = a_num a \<and> sem_is_closed s = sem_is_closed (p_sem p)"
proof (cases "sem_is_closed (p_sem p)")
  case True
  moreover have "after_poll p i (Ready False) a (p_sem p) = p"
    using assms(2) by (simp add: after_poll_def fun_upd_idem)
  ultimately show ?thesis using poll_closed [OF True assms] assms(1) by auto
next
  case open_sem: False
  show ?thesis
  proof (cases "a_queued a")
    case unq: False
    show ?thesis
    proof (cases "unat (a_num a) \<le> avail (p_sem p)")
      case True
      show ?thesis using poll_at_once [OF open_sem assms unq True] keep_at_once [OF open_sem assms unq True]
          avail_take(2) [OF open_sem True pool_fut(3) [OF assms]] open_sem by auto
    next
      case False
      then have "avail (p_sem p) < unat (a_num a)" by simp
      from poll_enqueue [OF open_sem assms unq this] keep_enqueue [OF open_sem assms unq this]
      show ?thesis using open_sem by (fastforce simp: sem_closed_odd)
    qed
  next
    case q: True
    show ?thesis
    proof (cases "i \<in> set (s_list (p_sem p))")
      case True
      from poll_again [OF open_sem assms q True] keep_again [OF open_sem assms q True]
      show ?thesis using open_sem by (fastforce simp: sem_closed_odd)
    next
      case False
      from poll_served [OF open_sem assms q False] keep_served [OF open_sem assms q False]
      show ?thesis by auto
    qed
  qed
qed

lemma drop_keeps:
  assumes inv: "pool_inv p" and a: "p_futs p i = Some a"
  shows "\<exists>s ws. acquire_drop a (p_sem p) = Some (Inr (s, ws)) \<and>
           pool_inv (p\<lparr>p_sem := s, p_futs := (p_futs p)(i := None)\<rparr>) \<and> sem_is_closed s = sem_is_closed (p_sem p)"
proof -
  let ?s = "p_sem p" and ?n = "a_num a - w_state (s_nodes (p_sem p) i)"
  note f = pool_fut [OF inv a] and pf = pool_facts [OF inv]
  let ?s1 = "if a_queued a then ?s\<lparr>s_list := fst (wl_remove i (s_list ?s))\<rparr> else ?s"
  let ?q = "p\<lparr>p_sem := ?s1, p_futs := (p_futs p)(i := None)\<rparr>"
  have le: "w_state (s_nodes ?s i) \<le> a_num a" using f(4) by (simp add: needs_def word_le_nat_alt)
  then have n: "unat ?n = unat (a_num a) - needs (s_nodes ?s) i" by (simp add: needs_def unat_sub)
  have l1: "s_list ?s1 = remove1 i (s_list ?s)"
    using f(5) by (auto simp: wl_remove_def remove1_idem)
  have dist: "distinct (s_list ?s)" using inv by (simp add: pool_inv_def pool_bal_def list_ok_def)
  have s1: "s_state ?s1 = s_state ?s" "s_nodes ?s1 = s_nodes ?s" "s_list_closed ?s1 = s_list_closed ?s"
    by simp_all
  then have rd: "avail ?s1 = avail ?s" "sem_is_closed ?s1 = sem_is_closed ?s"
    by (simp_all add: avail_state sem_closed_odd)
  have "assigned ?q + (num_of (p_futs p) i - needs (s_nodes (p_sem p)) i) =
         assigned p + (num_of (p_futs ?q) i - needs (s_nodes (p_sem ?q)) i)"
    using pf(7) by (intro assigned_eqI) auto
  then have as: "assigned ?q + unat ?n = assigned p" using a n by (simp add: num_of_def)
  have bl: "j \<in> set (butlast (s_list ?s)) \<and> j \<noteq> i" if "j \<in> set (butlast (s_list ?s1))" for j
  proof -
    have "j \<in> set (s_list ?s1)" using that by (rule in_set_butlastD)
    then have "j \<noteq> i" using l1 dist by auto
    moreover have "set (butlast (remove1 i xs)) \<subseteq> set (butlast xs)" for xs
      by (induction xs rule: rev_induct) (auto simp: remove1_append butlast_append dest: in_set_butlastD subsetD [OF set_remove1_subset])
    ultimately show ?thesis using that l1 by auto
  qed
  have "pool_bal (unat ?n) ?q"
    unfolding pool_bal_def
  proof (intro conjI allI impI ballI)
    show "list_ok (p_sem ?q)" using l1 s1 inv
      by (auto simp: list_ok_def pool_inv_def pool_bal_def dest: notin_set_remove1)
    show "finite (dom (p_futs ?q))" using pf(7) by simp
    show "set (s_list (p_sem ?q)) \<subseteq> dom (p_futs ?q)" using l1 pf(6) dist by auto
    show "fut_ok ?q j b" if "p_futs ?q j = Some b" for j b
    proof -
      from that have ne: "j \<noteq> i" and "p_futs p j = Some b" by (auto split: if_splits)
      then have "fut_ok p j b" using inv by (simp add: pool_inv_def pool_bal_def)
      then show ?thesis using l1 s1 ne by (simp add: fut_ok_def)
    qed
    show "sem_is_closed (p_sem ?q) = s_list_closed (p_sem ?q)" using pf(1) s1 rd by simp
    show "s_list (p_sem ?q) = []" if "s_list_closed (p_sem ?q)" using that pf(2) l1 s1 by simp
    show "avail (p_sem ?q) = 0" if "s_list (p_sem ?q) \<noteq> []"
      using that pf(3) [of "hd (s_list ?s)"] l1 rd by (cases "s_list ?s") auto
    show "needs (s_nodes (p_sem ?q)) j = num_of (p_futs ?q) j" if "j \<in> set (butlast (s_list (p_sem ?q)))" for j
      using bl [of j] that inv s1 by (auto simp: pool_inv_def pool_bal_def num_of_def)
    show "avail (p_sem ?q) + assigned ?q + p_held ?q + unat ?n = p_total ?q" using pf(4) as rd by simp
    show "p_total ?q < 2 ^ 61 - 1" using pf(5) by simp
  qed
  from add_permits_bal [OF this] obtain s' ws gone n' where
    add: "add_permits_locked ?n ?s1 = Some (Inr (s', ws))" and "pool_inv (?q\<lparr>p_sem := s'\<rparr>)" "sem_is_closed s' = sem_is_closed ?s"
    using rd(2) by auto
  moreover have "acquire_drop a ?s = Some (Inr (s', ws))"
  proof (cases "a_queued a")
    case True
    then show ?thesis using add le f(1)
      by (cases "?n = 0") (auto simp: acquire_drop_def Let_def add_permits_locked_def add_permits_loop_zero not_less word_gt_0)
  next
    case False
    then have "?n = 0" using f(6) n by (simp add: unat_eq_0 [symmetric])
    with False add show ?thesis by (simp add: acquire_drop_def add_permits_locked_def add_permits_loop_zero)
  qed
  ultimately show ?thesis by (cases p) auto
qed

lemma try_keeps:
  assumes inv: "pool_inv p" and n: "n < MAX_PERMIT"
  shows "\<exists>r s. try_acquire n (p_sem p) = Inr (r, s) \<and>
     (case r of Inl e \<Rightarrow> s = p_sem p | Inr _ \<Rightarrow> pool_inv (p\<lparr>p_sem := s, p_held := p_held p + unat n\<rparr>)) \<and>
     sem_is_closed s = sem_is_closed (p_sem p)"
proof -
  let ?s = "p_sem p"
  have small: "unat n < 2 ^ 63" using n by (simp add: less_MAX_PERMIT)
  show ?thesis
  proof (cases "\<not> sem_is_closed ?s \<and> unat n \<le> avail ?s")
    case True
    then have t: "try_acquire n ?s = Inr (Inr (), ?s\<lparr>s_state := s_state ?s - push_bit PERMIT_SHIFT n\<rparr>)"
      using n by (simp add: try_acquire_def run_try_acquire [OF small])
    moreover note avail_take [OF conjunct1 [OF True] conjunct2 [OF True] small]
    moreover note pool_facts [OF inv]
    ultimately show ?thesis using inv True
      by (auto simp: pool_inv_def pool_bal_def list_ok_def fut_ok_def assigned_def)
  next
    case False
    then have "run_action (try_acquire_action (push_bit PERMIT_SHIFT n)) (s_state ?s) =
      Inr (if sem_is_closed ?s then Inl AcqClosed else Inl AcqNoPermits, s_state ?s)"
      by (auto simp: run_try_acquire [OF small])
    then have "try_acquire n ?s = Inr (if sem_is_closed ?s then Inl AcqClosed else Inl AcqNoPermits, ?s)"
      using n by (simp add: try_acquire_def)
    then show ?thesis by auto
  qed
qed

lemma release_locked: "release n s = add_permits_locked n s"
  by (simp add: release_def add_permits_locked_def add_permits_loop_zero)

lemma release_keeps:
  assumes "pool_inv p" "unat n \<le> p_held p"
  shows "\<exists>s ws. release n (p_sem p) = Some (Inr (s, ws)) \<and>
           pool_inv (p\<lparr>p_sem := s, p_held := p_held p - unat n\<rparr>) \<and> sem_is_closed s = sem_is_closed (p_sem p)"
proof -
  have "pool_bal (unat n) (p\<lparr>p_held := p_held p - unat n\<rparr>)"
    using assms by (auto simp: pool_inv_def pool_bal_def assigned_def fut_ok_def)
  from add_permits_bal [OF this] show ?thesis by (cases p) (auto simp: release_locked)
qed

lemma added_keeps:
  assumes "pool_inv p" "p_total p + unat n < 2 ^ 61 - 1"
  shows "\<exists>s ws. release n (p_sem p) = Some (Inr (s, ws)) \<and>
           pool_inv (p\<lparr>p_sem := s, p_total := p_total p + unat n\<rparr>) \<and> sem_is_closed s = sem_is_closed (p_sem p)"
proof -
  have "pool_bal (unat n) (p\<lparr>p_total := p_total p + unat n\<rparr>)"
    using assms by (auto simp: pool_inv_def pool_bal_def assigned_def fut_ok_def)
  from add_permits_bal [OF this] show ?thesis by (cases p) (auto simp: release_locked)
qed

lemma close_loop_needs:
  "close_loop nodes lst ws = (nodes', woken) \<Longrightarrow>
     needs nodes' = needs nodes \<and> (distinct lst \<longrightarrow> woken = ws @ wakers_of nodes (rev lst))"
proof (induction lst arbitrary: nodes ws rule: rev_induct)
  case Nil
  then show ?case by (simp add: close_loop.simps [of nodes] wl_pop_back_def)
next
  case (snoc w xs)
  obtain ws1 nodes1 where tk: "take_waker w nodes = (ws1, nodes1)" by fastforce
  note tw = take_waker_spec [OF tk]
  have "close_loop nodes1 xs (ws @ ws1) = (nodes', woken)"
    using snoc.prems tk by (simp add: close_loop.simps [of nodes] wl_pop_back_def)
  from snoc.IH [OF this] have IH: "needs nodes' = needs nodes1"
    "distinct xs \<Longrightarrow> woken = (ws @ ws1) @ wakers_of nodes1 (rev xs)" by auto
  have "wakers_of nodes1 (rev xs) = wakers_of nodes (rev xs)" if "w \<notin> set xs"
    using that tw(3) by (intro wakers_of_cong) (metis set_rev)
  then show ?case using IH tw(1,2) by auto
qed

lemma close_keeps:
  assumes inv: "pool_inv p" and cl: "sem_close (p_sem p) = (s, ws)"
  shows "pool_inv (p\<lparr>p_sem := s\<rparr>)" and "sem_is_closed s" and "ws = wakers_of (s_nodes (p_sem p)) (rev (s_list (p_sem p)))"
proof -
  let ?s = "p_sem p"
  obtain nodes woken where l: "close_loop (s_nodes ?s) (s_list ?s) [] = (nodes, woken)" by fastforce
  from close_loop_needs [OF l] have nd: "needs nodes = needs (s_nodes ?s)"
    and wk: "distinct (s_list ?s) \<Longrightarrow> woken = wakers_of (s_nodes ?s) (rev (s_list ?s))" by auto
  have s: "s = ?s\<lparr>s_state := s_state ?s OR SEM_CLOSED, s_list_closed := True, s_list := [], s_nodes := nodes\<rparr>"
    and "ws = woken"
    using cl l by (simp_all add: sem_close_def)
  then show "ws = wakers_of (s_nodes ?s) (rev (s_list ?s))"
    using wk inv by (simp add: pool_inv_def pool_bal_def list_ok_def)
  have b: "bit (s_state s) i \<longleftrightarrow> bit (s_state ?s) i \<or> i = 0" for i
    using s by (auto simp: SEM_CLOSED_def bit_simps)
  then show c: "sem_is_closed s"
    using flag_test_bit [of 0 "s_state s"] by (simp add: sem_is_closed_def SEM_CLOSED_def)
  have "available_permits s = available_permits ?s"
    by (rule bit_word_eqI) (simp add: available_permits_def PERMIT_SHIFT_def bit_drop_bit_eq b)
  then have av: "avail s = avail ?s" by (simp add: avail_def)
  have "assigned (p\<lparr>p_sem := s\<rparr>) = assigned p" using s nd by (simp add: assigned_def)
  moreover have "fut_ok (p\<lparr>p_sem := s\<rparr>) i a" if "p_futs p i = Some a" for i a
    using inv that s nd by (auto simp: pool_inv_def pool_bal_def fut_ok_def)
  ultimately show "pool_inv (p\<lparr>p_sem := s\<rparr>)"
    using inv c s av nd unfolding pool_inv_def pool_bal_def list_ok_def by simp
qed

lemma start_keeps:
  assumes inv: "pool_inv p" and new: "p_futs p i = None" and n: "n < MAX_PERMIT"
    and a: "acquire_new i n (p_sem p) = (a, s)"
  shows "pool_inv (p\<lparr>p_sem := s, p_futs := (p_futs p)(i \<mapsto> a)\<rparr>)" (is "pool_inv ?q")
proof -
  note pf = pool_facts [OF inv]
  have a_s: "a = \<lparr>a_node = i, a_num = n, a_queued = False\<rparr>"
    "s = (p_sem p)\<lparr>s_nodes := (s_nodes (p_sem p))(i := waiter_new n)\<rparr>"
    using a by (simp_all add: acquire_new_def)
  have ni: "i \<notin> set (s_list (p_sem p))" using pf(6) new by auto
  have nd: "needs (s_nodes s) j = (if j = i then unat n else needs (s_nodes (p_sem p)) j)" for j
    by (simp add: a_s needs_def waiter_new_def)
  have "assigned ?q + (num_of (p_futs p) i - needs (s_nodes (p_sem p)) i) =
         assigned p + (num_of (p_futs ?q) i - needs (s_nodes (p_sem ?q)) i)"
    using pf(7) nd by (intro assigned_eqI) auto
  then have as: "assigned ?q = assigned p" using new nd a_s(1) by (simp add: num_of_def)
  have rd: "avail s = avail (p_sem p)" "sem_is_closed s = sem_is_closed (p_sem p)"
    "s_list s = s_list (p_sem p)" "s_list_closed s = s_list_closed (p_sem p)"
    by (simp_all add: a_s avail_state sem_closed_odd)
  have "fut_ok ?q j b" if "p_futs ?q j = Some b" for j b
    using inv that ni n nd a_s(1) rd
    by (auto simp: pool_inv_def pool_bal_def fut_ok_def less_MAX_PERMIT split: if_splits)
  moreover have "j \<noteq> i" if "j \<in> set (s_list (p_sem p)) \<or> j \<in> set (butlast (s_list (p_sem p)))" for j
    using that ni by (auto dest: in_set_butlastD)
  ultimately show ?thesis
    using inv as rd nd pf unfolding pool_inv_def pool_bal_def list_ok_def
    by (auto simp: num_of_def)
qed

lemma pool_op_inv: "pool_op p q \<Longrightarrow> pool_inv p \<Longrightarrow> pool_inv q"
proof (induction rule: pool_op.induct)
  case (start p i n a s)
  then show ?case using start_keeps by blast
next
  case (granted p i a cx a' s ws)
  from poll_keeps [OF granted(3,1), of cx] granted(2) show ?case by (auto simp: after_poll_def)
next
  case (waiting p i a cx a' s ws)
  from poll_keeps [OF waiting(3,1), of cx] waiting(2) show ?case by (auto simp: after_poll_def)
next
  case (refused p i a cx a' s ws)
  from poll_keeps [OF refused(3,1), of cx] refused(2) show ?case by (auto simp: after_poll_def)
next
  case (dropped p i a s ws)
  from drop_keeps [OF dropped(3,1)] dropped(2) show ?case by auto
next
  case (try_ok n p s)
  then have "n < MAX_PERMIT" by (simp add: try_acquire_def and_then_ensure split: if_splits)
  from try_keeps [OF try_ok(2) this] try_ok(1) show ?case by auto
next
  case (try_err n p e s)
  then have "n < MAX_PERMIT" by (simp add: try_acquire_def and_then_ensure split: if_splits)
  from try_keeps [OF try_err(2) this] try_err show ?case by auto
next
  case (given_back n p s ws)
  from release_keeps [OF given_back(3,1)] given_back(2) show ?case by auto
next
  case (added p n s ws)
  from added_keeps [OF added(3,1)] added(2) show ?case by auto
next
  case (forgotten k p)
  then show ?case by (auto simp: pool_inv_def pool_bal_def assigned_def fut_ok_def)
qed

lemma pool_op_open: "pool_op p q \<Longrightarrow> pool_inv p \<Longrightarrow> sem_is_closed (p_sem q) = sem_is_closed (p_sem p)"
proof (induction rule: pool_op.induct)
  case (start p i n a s)
  then show ?case by (auto simp: acquire_new_def sem_closed_odd)
next
  case (granted p i a cx a' s ws)
  from poll_keeps [OF granted(3,1), of cx] granted(2) show ?case by auto
next
  case (waiting p i a cx a' s ws)
  from poll_keeps [OF waiting(3,1), of cx] waiting(2) show ?case by auto
next
  case (refused p i a cx a' s ws)
  from poll_keeps [OF refused(3,1), of cx] refused(2) show ?case by auto
next
  case (dropped p i a s ws)
  from drop_keeps [OF dropped(3,1)] dropped(2) show ?case by auto
next
  case (try_ok n p s)
  then have "n < MAX_PERMIT" by (simp add: try_acquire_def and_then_ensure split: if_splits)
  from try_keeps [OF try_ok(2) this] try_ok(1) show ?case by auto
next
  case (try_err n p e s)
  then have "n < MAX_PERMIT" by (simp add: try_acquire_def and_then_ensure split: if_splits)
  from try_keeps [OF try_err(2) this] try_err show ?case by auto
next
  case (given_back n p s ws)
  from release_keeps [OF given_back(3,1)] given_back(2) show ?case by auto
next
  case (added p n s ws)
  from added_keeps [OF added(3,1)] added(2) show ?case by auto
qed simp

lemma pool_step_inv: "pool_step p q \<Longrightarrow> pool_inv p \<Longrightarrow> pool_inv q"
  by (induction rule: pool_step.induct) (auto intro: pool_op_inv close_keeps(1))

lemma pool_steps_inv: "pool_step\<^sup>*\<^sup>* p q \<Longrightarrow> pool_inv p \<Longrightarrow> pool_inv q"
  by (induction rule: rtranclp_induct) (auto intro: pool_step_inv)

inductive sem_reach :: "usize \<Rightarrow> pool \<Rightarrow> bool" where
  reach_new: "sem_new n = Inr s \<Longrightarrow>
     sem_reach n \<lparr>p_sem = s, p_futs = (\<lambda>_. None), p_held = 0, p_total = unat n\<rparr>"
| reach_step: "sem_reach n p \<Longrightarrow> pool_step p q \<Longrightarrow> sem_reach n q"

lemma sem_new_Inr:
  "sem_new n = Inr s \<Longrightarrow> unat n < 2 ^ 61 - 1 \<and> avail s = unat n \<and> \<not> sem_is_closed s \<and>
     s_list s = [] \<and> \<not> s_list_closed s"
  using unat_shift1 [of n]
  by (auto simp: sem_new_def and_then_ensure less_MAX_PERMIT avail_state sem_closed_odd split: if_splits)

lemma new_pool_inv:
  assumes "sem_new n = Inr s"
  shows "pool_inv \<lparr>p_sem = s, p_futs = (\<lambda>_. None), p_held = 0, p_total = unat n\<rparr>"
  using sem_new_Inr [OF assms]
  by (auto simp: pool_inv_def pool_bal_def list_ok_def assigned_def)

lemma sem_reach_inv: "sem_reach n p \<Longrightarrow> pool_inv p"
  by (induction rule: sem_reach.induct) (auto intro: new_pool_inv pool_step_inv)

section \<open>What the semaphore promises\<close>

text \<open>
  C18: In every state a semaphore can reach, the free permits, those assigned to waiting futures and
  those handed out add up to all permits; no future waits in the queue while a permit is free, and only
  the oldest waiter may hold a part of what it asked for.
\<close>

theorem semaphore_conserves_permits:
  assumes "sem_reach n p"
  shows "avail (p_sem p) + assigned p + p_held p = p_total p \<and>
    (s_list (p_sem p) \<noteq> [] \<longrightarrow> avail (p_sem p) = 0) \<and>
    (\<forall>i \<in> set (butlast (s_list (p_sem p))). needs (s_nodes (p_sem p)) i = num_of (p_futs p) i)"
  using sem_reach_inv [OF assms] by (simp add: pool_inv_def pool_bal_def)

definition sem_three :: sem where
  "sem_three = \<lparr>s_state = 6, s_list = [], s_list_closed = False, s_nodes = (\<lambda>_. waiter_new 0)\<rparr>"

lemma sem_new_three: "sem_new 3 = Inr sem_three"
  by (simp add: sem_new_def sem_three_def MAX_PERMIT_def PERMIT_SHIFT_def mask_eq_exp_minus_1 push_bit_eq_mult)

lemma try_two: "try_acquire 2 sem_three = Inr (Inr (), sem_three\<lparr>s_state := 2\<rparr>)"
  by (simp add: try_acquire_def MAX_PERMIT_def PERMIT_SHIFT_def run_action_eq try_acquire_action_def
      sem_three_def SEM_CLOSED_def push_bit_eq_mult mask_eq_exp_minus_1)

lemma reach_two_held:
  "sem_reach 3 \<lparr>p_sem = sem_three\<lparr>s_state := 2\<rparr>, p_futs = (\<lambda>_. None), p_held = 2, p_total = 3\<rparr>"
proof -
  let ?p = "\<lparr>p_sem = sem_three, p_futs = (\<lambda>_. None), p_held = 0, p_total = 3\<rparr>"
  have "sem_reach 3 ?p" using reach_new [OF sem_new_three] by simp
  moreover have "pool_step ?p (?p\<lparr>p_sem := sem_three\<lparr>s_state := 2\<rparr>, p_held := p_held ?p + unat (2 :: usize)\<rparr>)"
    by (rule op, rule try_ok) (simp add: try_two)
  ultimately have "sem_reach 3 (?p\<lparr>p_sem := sem_three\<lparr>s_state := 2\<rparr>, p_held := p_held ?p + unat (2 :: usize)\<rparr>)"
    by (rule reach_step)
  moreover have "unat (2 :: usize) = 2" by simp
  ultimately show ?thesis by (simp only: pool.select_convs pool.update_convs add_0)
qed

theorem semaphore_conserves_permits_witness:
  "avail (sem_three\<lparr>s_state := 2\<rparr>) + 2 = 3"
  using semaphore_conserves_permits [OF reach_two_held] by (simp add: assigned_def)

text \<open>
  Polling an \<open>Acquire\<close> future always returns, without a panic: with the error once the semaphore is
  closed, with the permits when enough are free for a new future or all have been assigned to a queued
  one, and pending otherwise, a new future then standing last in the queue with all free permits.
\<close>

lemma semaphore_poll_answers:
  assumes "sem_reach n p" and "p_futs p i = Some a"
  shows "\<exists>a' s. acquire_poll cx a (p_sem p) =
      Some (Inr (if sem_is_closed (p_sem p) then Ready False
                 else if (if a_queued a then i \<notin> set (s_list (p_sem p)) else unat (a_num a) \<le> avail (p_sem p))
                 then Ready True else Pending, a', s, [])) \<and>
      s_list s = (if \<not> sem_is_closed (p_sem p) \<and> \<not> a_queued a \<and> avail (p_sem p) < unat (a_num a)
                  then i # s_list (p_sem p) else s_list (p_sem p)) \<and>
      avail s = (if sem_is_closed (p_sem p) \<or> a_queued a then avail (p_sem p)
                 else avail (p_sem p) - unat (a_num a))"
proof (cases "sem_is_closed (p_sem p)")
  case True
  then show ?thesis using poll_closed [OF True sem_reach_inv [OF assms(1)] assms(2)] by auto
next
  case open_sem: False
  note inv = sem_reach_inv [OF assms(1)]
  show ?thesis
  proof (cases "a_queued a")
    case unq: False
    show ?thesis
    proof (cases "unat (a_num a) \<le> avail (p_sem p)")
      case True
      then show ?thesis
        using poll_at_once [OF open_sem inv assms(2) unq True] open_sem unq
          avail_take(1) [OF open_sem True pool_fut(3) [OF inv assms(2)]] by auto
    next
      case False
      then have "avail (p_sem p) < unat (a_num a)" by simp
      from poll_enqueue [OF open_sem inv assms(2) unq this, of cx] False open_sem unq
      show ?thesis by (auto simp: avail_state)
    qed
  next
    case q: True
    show ?thesis
    proof (cases "i \<in> set (s_list (p_sem p))")
      case True
      from poll_again [OF open_sem inv assms(2) q True, of cx] pool_facts(3) [OF inv True] open_sem q True
      show ?thesis by (auto simp: avail_state)
    next
      case False
      then show ?thesis using poll_served [OF open_sem inv assms(2) q False] open_sem q by auto
    qed
  qed
qed

lemma reach_waiting:
  "sem_reach 3 \<lparr>p_sem = sem_three\<lparr>s_nodes := (\<lambda>_. waiter_new 0)(7 := waiter_new 2)\<rparr>,
     p_futs = [7 \<mapsto> \<lparr>a_node = 7, a_num = 2, a_queued = False\<rparr>], p_held = 0, p_total = 3\<rparr>"
proof -
  let ?p = "\<lparr>p_sem = sem_three, p_futs = (\<lambda>_. None), p_held = 0, p_total = 3\<rparr>"
  have "sem_reach 3 ?p" using reach_new [OF sem_new_three] by simp
  moreover have "pool_step ?p (?p\<lparr>p_sem := sem_three\<lparr>s_nodes := (s_nodes sem_three)(7 := waiter_new 2)\<rparr>,
      p_futs := (p_futs ?p)(7 \<mapsto> \<lparr>a_node = 7, a_num = 2, a_queued = False\<rparr>)\<rparr>)"
    by (rule op, rule start [where n = 2]) (simp_all add: acquire_new_def sem_three_def less_MAX_PERMIT)
  ultimately show ?thesis using reach_step by (fastforce simp: sem_three_def)
qed

lemma semaphore_poll_answers_witness:
  "\<exists>a' s. acquire_poll 5 \<lparr>a_node = 7, a_num = 2, a_queued = False\<rparr>
     (sem_three\<lparr>s_nodes := (\<lambda>_. waiter_new 0)(7 := waiter_new 2)\<rparr>) = Some (Inr (Ready True, a', s, [])) \<and> avail s = 1"
proof -
  have "\<not> sem_is_closed (sem_three\<lparr>s_nodes := (\<lambda>_. waiter_new 0)(7 := waiter_new 2)\<rparr>)"
    "avail (sem_three\<lparr>s_nodes := (\<lambda>_. waiter_new 0)(7 := waiter_new 2)\<rparr>) = 3"
    by (simp_all add: sem_three_def avail_state sem_closed_odd)
  then show ?thesis
    using semaphore_poll_answers [OF reach_waiting, of 7 "\<lparr>a_node = 7, a_num = 2, a_queued = False\<rparr>" 5] by auto
qed

text \<open>
  Giving \<open>k\<close> held permits back always returns: a suffix of the queue, its oldest futures, is served
  in full and woken, oldest first; the next one keeps what is left, no other changes, and permits become
  free only when nobody is left to wait.
\<close>

lemma release_serves_oldest_first:
  assumes "sem_reach n p" and "unat k \<le> p_held p"
  shows "\<exists>s rest gone. release k (p_sem p) = Some (Inr (s, wakers_of (s_nodes (p_sem p)) (rev gone))) \<and>
      s_list (p_sem p) = rest @ gone \<and> s_list s = rest \<and>
      (\<forall>i \<in> set gone. needs (s_nodes s) i = 0) \<and> (\<forall>i \<in> set rest. 0 < needs (s_nodes s) i) \<and>
      (\<forall>i \<in> set (butlast rest). needs (s_nodes s) i = needs (s_nodes (p_sem p)) i) \<and>
      (rest \<noteq> [] \<longrightarrow> avail s = avail (p_sem p)) \<and>
      avail s + (\<Sum>i\<leftarrow>s_list (p_sem p). needs (s_nodes (p_sem p)) i - needs (s_nodes s) i) =
        avail (p_sem p) + unat k"
proof -
  note inv = sem_reach_inv [OF assms(1)]
  then have "list_ok (p_sem p)" "avail (p_sem p) + unat k < 2 ^ 61 - 1"
    using assms(2) by (auto simp: pool_inv_def pool_bal_def)
  from add_permits_locked_handed [OF this] obtain s' woken gone n' where
    "add_permits_locked k (p_sem p) = Some (Inr (s', woken))" "handed (unat k) (p_sem p) s' gone n' woken"
    by blast
  then show ?thesis
    by (intro exI [of _ s'] exI [of _ "s_list s'"] exI [of _ gone])
       (auto simp: release_locked handed_def served_def)
qed

lemma release_serves_oldest_first_witness:
  "\<exists>s ws. release 2 (sem_three\<lparr>s_state := 2\<rparr>) = Some (Inr (s, ws)) \<and> avail s = 3"
  using release_serves_oldest_first [OF reach_two_held, of 2]
  by (auto simp: sem_three_def avail_state)

section \<open>Clients of the semaphore\<close>

text \<open>
  \<open>semaphore.acquire(n).await\<close> inside an async function: the first poll creates the \<open>Acquire\<close> future
  (numbered \<open>i\<close>), every poll polls it, and it is dropped when it is ready.
\<close>

definition acquire_async ::
    "waker \<Rightarrow> nat \<Rightarrow> usize \<Rightarrow> acquire option \<Rightarrow> sem \<Rightarrow> (bool poll \<times> acquire \<times> sem \<times> waker list) outcome option" where
  "acquire_async cx i n fut s =
     bind_oo (case fut of
        None \<Rightarrow> (case acquire_new i n s of (a, s1) \<Rightarrow> acquire_poll cx a s1)
      | Some a \<Rightarrow> acquire_poll cx a s) (\<lambda>(r, a, s1, ws).
     case r of Pending \<Rightarrow> Some (Inr (r, a, s1, ws))
     | Ready _ \<Rightarrow> bind_oo (acquire_drop a s1) (\<lambda>(s2, ws2). Some (Inr (r, a, s2, ws @ ws2))))"

definition after_async :: "pool \<Rightarrow> nat \<Rightarrow> usize \<Rightarrow> bool poll \<Rightarrow> acquire \<Rightarrow> sem \<Rightarrow> pool" where
  "after_async p i n r a s =
     (case r of
        Pending \<Rightarrow> p\<lparr>p_sem := s, p_futs := (p_futs p)(i \<mapsto> a)\<rparr>
      | Ready True \<Rightarrow> p\<lparr>p_sem := s, p_futs := (p_futs p)(i := None), p_held := p_held p + unat n\<rparr>
      | Ready False \<Rightarrow> p\<lparr>p_sem := s, p_futs := (p_futs p)(i := None)\<rparr>)"

text \<open>
  A client poll always returns, its permits are \<open>n\<close>, it is made of pool operations, and it fails exactly
  when the semaphore is closed.
\<close>

lemma poll_fails_closed:
  assumes inv: "pool_inv p" and a: "p_futs p i = Some b"
    and r: "acquire_poll cx b (p_sem p) = Some (Inr (r, a', s, ws))"
  shows "(r = Ready False) = sem_is_closed (p_sem p)"
proof (cases "sem_is_closed (p_sem p)")
  case True
  then show ?thesis using poll_closed [OF True inv a] r by simp
next
  case False
  have "\<exists>a' s. acquire_poll cx b (p_sem p) = Some (Inr (if \<not> a_queued b \<and> unat (a_num b) \<le> avail (p_sem p) \<or>
      a_queued b \<and> i \<notin> set (s_list (p_sem p)) then Ready True else Pending, a', s, []))"
    using poll_at_once [OF False inv a] poll_enqueue [OF False inv a, of cx] poll_served [OF False inv a]
      poll_again [OF False inv a, of cx] by (cases "a_queued b"; cases "unat (a_num b) \<le> avail (p_sem p)"; auto)
  then show ?thesis using r False by auto
qed

lemma poll_ops:
  assumes inv: "pool_inv p" and f: "p_futs p i = Some b"
  shows "\<exists>r a' s ws. acquire_async cx i n (Some b) (p_sem p) = Some (Inr (r, a', s, ws)) \<and> a_num a' = a_num b \<and>
           pool_op\<^sup>*\<^sup>* p (after_async p i (a_num b) r a' s) \<and>
           (r = Ready False) = sem_is_closed (p_sem p) \<and> sem_is_closed s = sem_is_closed (p_sem p)"
proof -
  from poll_keeps [OF inv f, of cx] obtain r a' s where
    r: "acquire_poll cx b (p_sem p) = Some (Inr (r, a', s, []))" "a_num a' = a_num b"
      "sem_is_closed s = sem_is_closed (p_sem p)" and inv': "pool_inv (after_poll p i r a' s)" by blast
  note cl = poll_fails_closed [OF inv f r(1)]
  show ?thesis
  proof (cases r rule: poll_bool_cases)
    case 1
    then show ?thesis using r cl waiting [OF f, of cx a' s "[]"] by (auto simp: acquire_async_def after_async_def)
  next
    case 2
    have "\<not> a_queued a'" using r(1) 2 by (auto simp: acquire_poll_def and_then_eq_Inr split: poll.split_asm bool.split_asm)
    then show ?thesis using r cl 2 granted [OF f, of cx a' s "[]"]
      by (auto simp: acquire_async_def after_async_def acquire_drop_def)
  next
    case 3
    let ?q = "p\<lparr>p_sem := s, p_futs := (p_futs p)(i \<mapsto> a')\<rparr>"
    have op: "pool_op p ?q" using refused [OF f, of cx a' s "[]"] r(1) 3 by simp
    have "pool_inv ?q" "p_futs ?q i = Some a'" using pool_op_inv [OF op inv] by simp_all
    from drop_keeps [OF this] obtain s2 ws where
      d: "acquire_drop a' s = Some (Inr (s2, ws))" "sem_is_closed s2 = sem_is_closed s" by auto
    with dropped [of ?q i a' s2 ws] op have "pool_op\<^sup>*\<^sup>* p (p\<lparr>p_sem := s2, p_futs := (p_futs p)(i := None)\<rparr>)"
      by (simp add: converse_rtranclp_into_rtranclp)
    then show ?thesis using r cl 3 d by (auto simp: acquire_async_def after_async_def)
  qed
qed

lemma async_ops:
  assumes inv: "pool_inv p" and n: "n < MAX_PERMIT" and a: "\<And>a. p_futs p i = Some a \<Longrightarrow> a_num a = n"
  shows "\<exists>r a' s ws. acquire_async cx i n (p_futs p i) (p_sem p) = Some (Inr (r, a', s, ws)) \<and> a_num a' = n \<and>
           pool_op\<^sup>*\<^sup>* p (after_async p i n r a' s) \<and>
           (r = Ready False) = sem_is_closed (p_sem p) \<and> sem_is_closed s = sem_is_closed (p_sem p)"
proof (cases "p_futs p i")
  case (Some b)
  then show ?thesis using poll_ops [OF inv Some, of cx n] a [OF Some] by simp
next
  case None
  obtain b s1 where new: "acquire_new i n (p_sem p) = (b, s1)" by fastforce
  let ?q = "p\<lparr>p_sem := s1, p_futs := (p_futs p)(i \<mapsto> b)\<rparr>"
  have op1: "pool_op p ?q" by (rule start [OF None n new])
  have cl: "sem_is_closed s1 = sem_is_closed (p_sem p)" using pool_op_open [OF op1 inv] by simp
  have b: "a_num b = n" using new by (auto simp: acquire_new_def)
  have "p_futs ?q i = Some b" by simp
  from poll_ops [OF pool_op_inv [OF op1 inv] this, of cx n] obtain r a' s ws where
    r: "acquire_async cx i n (Some b) s1 = Some (Inr (r, a', s, ws))" "a_num a' = n"
    "pool_op\<^sup>*\<^sup>* ?q (after_async ?q i n r a' s)" "(r = Ready False) = sem_is_closed s1" "sem_is_closed s = sem_is_closed s1"
    using b by auto
  have "after_async ?q i n r a' s = after_async p i n r a' s"
    using None by (auto simp: after_async_def split: poll.split bool.split)
  then show ?thesis
    using r op1 new None cl
    by (auto simp: acquire_async_def intro: converse_rtranclp_into_rtranclp)
qed

text \<open>
  The interface of the semaphore to its clients. A client is a transition system with a view of the
  pool behind it; each of its steps must be made of calls of the semaphore. What follows for every
  client: it never holds more permits than there are.
\<close>

locale permit_client =
  fixes cstart :: "'w \<Rightarrow> bool" and cstep :: "'w \<Rightarrow> 'w \<Rightarrow> bool"
    and cinv :: "'w \<Rightarrow> bool" and pool_of :: "'w \<Rightarrow> pool"
  assumes start_ok: "cstart w \<Longrightarrow> cinv w \<and> pool_inv (pool_of w)"
    and step_ok: "cinv w \<Longrightarrow> pool_inv (pool_of w) \<Longrightarrow> cstep w w' \<Longrightarrow>
       cinv w' \<and> pool_step\<^sup>*\<^sup>* (pool_of w) (pool_of w')"
begin

lemma client_inv:
  assumes "cstep\<^sup>*\<^sup>* w w'" "cstart w"
  shows "cinv w' \<and> pool_inv (pool_of w')"
  using assms
proof (induction rule: rtranclp_induct)
  case base
  then show ?case by (rule start_ok)
next
  case (step y z)
  then show ?case using step_ok pool_steps_inv by blast
qed

lemma held_le_total: "cstep\<^sup>*\<^sup>* w w' \<Longrightarrow> cstart w \<Longrightarrow> p_held (pool_of w') \<le> p_total (pool_of w')"
  using client_inv pool_facts(4) by fastforce

lemma accounts:
  "cstep\<^sup>*\<^sup>* w w' \<Longrightarrow> cstart w \<Longrightarrow>
     avail (p_sem (pool_of w')) + assigned (pool_of w') + p_held (pool_of w') = p_total (pool_of w')"
  using client_inv pool_facts(4) by fastforce

end

text \<open>A client that never closes its semaphore: polls never see it closed.\<close>

locale open_client =
  fixes cstart :: "'w \<Rightarrow> bool" and cstep :: "'w \<Rightarrow> 'w \<Rightarrow> bool"
    and cinv :: "'w \<Rightarrow> bool" and pool_of :: "'w \<Rightarrow> pool"
  assumes open_start: "cstart w \<Longrightarrow> cinv w \<and> pool_inv (pool_of w) \<and> \<not> sem_is_closed (p_sem (pool_of w))"
    and open_step: "cinv w \<Longrightarrow> pool_inv (pool_of w) \<Longrightarrow> cstep w w' \<Longrightarrow>
       cinv w' \<and> pool_op\<^sup>*\<^sup>* (pool_of w) (pool_of w')"
begin

lemma pool_ops_steps: "pool_op\<^sup>*\<^sup>* p q \<Longrightarrow> pool_step\<^sup>*\<^sup>* p q"
  by (induction rule: rtranclp_induct) (auto intro: op rtranclp.rtrancl_into_rtrancl)

lemma pool_ops_open:
  "pool_op\<^sup>*\<^sup>* p q \<Longrightarrow> pool_inv p \<Longrightarrow> sem_is_closed (p_sem q) = sem_is_closed (p_sem p) \<and> pool_inv q"
  by (induction rule: rtranclp_induct) (auto simp: pool_op_open intro: pool_op_inv)

end

sublocale open_client \<subseteq> permit_client
  by unfold_locales (use open_start open_step pool_ops_steps in blast)+

context open_client
begin

lemma stays_open:
  assumes "cstep\<^sup>*\<^sup>* w w'" "cstart w"
  shows "\<not> sem_is_closed (p_sem (pool_of w'))"
  using assms
proof (induction rule: rtranclp_induct)
  case base
  then show ?case using open_start by blast
next
  case (step y z)
  then show ?case using client_inv open_step pool_ops_open by metis
qed

end

end
