(* ===== verification/Permit_Guards.thy ===== *)
theory Permit_Guards
  imports Batch_Semaphore "HOL-Library.Multiset"
begin

text \<open>
  The guards of \<open>sync/semaphore.rs\<close>, \<open>sync/mutex.rs\<close> and \<open>sync/rwlock\<close> all own permits of a semaphore
  and give them back when they are dropped. This theory holds what they share: a collection of guards
  seen as the permits handed out by the semaphore, and the effect of each call on that view.
\<close>

definition guard_pool :: "('g \<Rightarrow> usize) \<Rightarrow> nat \<Rightarrow> sem \<Rightarrow> (nat \<Rightarrow> acquire option) \<Rightarrow> 'g multiset \<Rightarrow> pool" where
  "guard_pool wt tot s futs gs =
     \<lparr>p_sem = s, p_futs = futs, p_held = (\<Sum>g\<in>#gs. unat (wt g)), p_total = tot\<rparr>"

lemma guard_pool_sel [simp]:
  "p_sem (guard_pool wt tot s futs gs) = s" "p_futs (guard_pool wt tot s futs gs) = futs"
  "p_held (guard_pool wt tot s futs gs) = (\<Sum>g\<in>#gs. unat (wt g))" "p_total (guard_pool wt tot s futs gs) = tot"
  by (simp_all add: guard_pool_def)

lemma sum_remove:
  "g \<in># gs \<Longrightarrow> (\<Sum>x\<in>#gs. unat (wt x)) = unat (wt g) + (\<Sum>x\<in>#gs - {#g#}. unat (wt x))"
  by (metis image_mset_add_mset insert_DiffM sum_mset.add_mset)

lemma guard_async:
  assumes inv: "pool_inv (guard_pool wt tot s futs gs)" and n: "n < MAX_PERMIT"
    and a: "\<And>a. futs i = Some a \<Longrightarrow> a_num a = n"
    and run: "acquire_async cx i n (futs i) s = Some (Inr (r, a', s', ws))"
  shows "r = Ready True \<Longrightarrow> wt g = n \<Longrightarrow>
           pool_op\<^sup>*\<^sup>* (guard_pool wt tot s futs gs) (guard_pool wt tot s' (futs(i := None)) (add_mset g gs))"
    and "r = Pending \<Longrightarrow>
           pool_op\<^sup>*\<^sup>* (guard_pool wt tot s futs gs) (guard_pool wt tot s' (futs(i \<mapsto> a')) gs)"
    and "r = Ready False \<Longrightarrow>
           pool_op\<^sup>*\<^sup>* (guard_pool wt tot s futs gs) (guard_pool wt tot s' (futs(i := None)) gs)"
    and "a_num a' = n" and "(r = Ready False) = sem_is_closed s" and "sem_is_closed s' = sem_is_closed s"
proof -
  let ?p = "guard_pool wt tot s futs gs"
  from async_ops [OF inv n, of i cx] a run have
    ops: "pool_op\<^sup>*\<^sup>* ?p (after_async ?p i n r a' s')" and num: "a_num a' = n" and cl: "(r = Ready False) = sem_is_closed s"
      and cl': "sem_is_closed s' = sem_is_closed s"
    by auto
  show "a_num a' = n" "(r = Ready False) = sem_is_closed s" "sem_is_closed s' = sem_is_closed s"
    by (rule num, rule cl, rule cl')
  show "pool_op\<^sup>*\<^sup>* ?p (guard_pool wt tot s' (futs(i := None)) (add_mset g gs))" if "r = Ready True" "wt g = n"
    using ops that by (simp add: after_async_def guard_pool_def add.commute)
  show "pool_op\<^sup>*\<^sup>* ?p (guard_pool wt tot s' (futs(i \<mapsto> a')) gs)" if "r = Pending"
    using ops that by (simp add: after_async_def guard_pool_def)
  show "pool_op\<^sup>*\<^sup>* ?p (guard_pool wt tot s' (futs(i := None)) gs)" if "r = Ready False"
    using ops that by (simp add: after_async_def guard_pool_def)
qed

lemma guard_drop_future:
  assumes "futs i = Some a" "acquire_drop a s = Some (Inr (s', ws))"
  shows "pool_op (guard_pool wt tot s futs gs) (guard_pool wt tot s' (futs(i := None)) gs)"
  using dropped [of "guard_pool wt tot s futs gs" i a s' ws] assms by (simp add: guard_pool_def)

lemma guard_try:
  assumes "try_acquire n s = Inr (r, s')"
  shows "r = Inr () \<Longrightarrow> wt g = n \<Longrightarrow>
           pool_op (guard_pool wt tot s futs gs) (guard_pool wt tot s' futs (add_mset g gs))"
    and "r = Inl e \<Longrightarrow> pool_op (guard_pool wt tot s futs gs) (guard_pool wt tot s' futs gs)"
  using try_ok [of n "guard_pool wt tot s futs gs" s'] try_err [of n "guard_pool wt tot s futs gs" e s'] assms
  by (auto simp: guard_pool_def add.commute)

lemma guard_release:
  assumes "g \<in># gs" "release (wt g) s = Some (Inr (s', ws))"
  shows "pool_op (guard_pool wt tot s futs gs) (guard_pool wt tot s' futs (gs - {#g#}))"
  using given_back [of "wt g" "guard_pool wt tot s futs gs" s' ws] assms sum_remove [OF assms(1), of wt]
  by (simp add: guard_pool_def)

lemma guard_shrink:
  assumes "g \<in># gs" "release k s = Some (Inr (s', ws))" "unat (wt g) = unat k + unat (wt g')"
  shows "pool_op (guard_pool wt tot s futs gs) (guard_pool wt tot s' futs (add_mset g' (gs - {#g#})))"
  using given_back [of k "guard_pool wt tot s futs gs" s' ws] assms sum_remove [OF assms(1), of wt]
  by (simp add: guard_pool_def)

lemma guard_swap:
  assumes "g \<in># gs" "wt g' = wt g"
  shows "guard_pool wt tot s futs (add_mset g' (gs - {#g#})) = guard_pool wt tot s futs gs"
  using sum_remove [OF assms(1), of wt] assms by (simp add: guard_pool_def)

lemma guard_forget:
  assumes "g \<in># gs"
  shows "pool_op (guard_pool wt tot s futs gs) (guard_pool wt (tot - unat (wt g)) s futs (gs - {#g#}))"
  using forgotten [of "unat (wt g)" "guard_pool wt tot s futs gs"] sum_remove [OF assms, of wt]
  by (simp add: guard_pool_def)

lemma guard_async_returns:
  assumes "pool_inv (guard_pool wt tot s futs gs)" "n < MAX_PERMIT" "\<And>a. futs i = Some a \<Longrightarrow> a_num a = n"
  shows "\<exists>r a s' ws. acquire_async cx i n (futs i) s = Some (Inr (r, a, s', ws))"
  using async_ops [OF assms(1,2), of i cx] assms(3) by auto

lemma guard_release_returns:
  assumes "pool_inv (guard_pool wt tot s futs gs)" "g \<in># gs" "unat k \<le> unat (wt g)"
  shows "\<exists>s' ws. release k s = Some (Inr (s', ws))"
  using release_keeps [OF assms(1), of k] sum_remove [OF assms(2), of wt] assms(3) by auto

text \<open>
  Dropping a guard whose permits the oldest waiter needs hands them over: that waiter is woken and
  its next poll succeeds.
\<close>

lemma guard_release_hands_over:
  assumes inv: "pool_inv (guard_pool wt tot s futs gs)" and g: "g \<in># gs"
    and lst: "s_list s = rest @ [j]" and need: "needs (s_nodes s) j \<le> unat (wt g)"
    and wk: "w_waker (s_nodes s j) = Some k"
  shows "\<exists>s' ws a. release (wt g) s = Some (Inr (s', k # ws)) \<and> futs j = Some a \<and> a_queued a \<and>
           (\<not> sem_is_closed s \<longrightarrow> acquire_poll cx a s' = Some (Inr (Ready True, a\<lparr>a_queued := False\<rparr>, s', [])))"
proof -
  let ?p = "guard_pool wt tot s futs gs" and ?q = "\<lambda>s'. guard_pool wt tot s' futs (gs - {#g#})"
  have ok: "list_ok s" "avail s + unat (wt g) < 2 ^ 61 - 1"
    using inv pool_facts(4,5) [OF inv] sum_remove [OF g, of wt] by (simp_all add: pool_inv_def pool_bal_def)
  from add_permits_locked_handed [OF ok] obtain s' woken gone n' where
    rel: "release (wt g) s = Some (Inr (s', woken))" and h: "handed (unat (wt g)) s s' gone n' woken"
    unfolding release_locked by blast
  have inv': "pool_inv (?q s')" using pool_op_inv [OF guard_release [where wt = wt, OF g rel] inv] .
  have sv: "served (needs (s_nodes s)) (s_list s) (unat (wt g)) (needs (s_nodes s')) (s_list s') gone n'"
    and woken: "woken = wakers_of (s_nodes s) (rev gone)" using h by (simp_all add: handed_def)
  have "gone \<noteq> []"
  proof
    assume "gone = []"
    with sv lst have l: "s_list s' = rest @ [j]" "n' = 0" by (auto simp: served_def)
    then have "0 < needs (s_nodes s') j" using sv by (simp add: served_def)
    have "map (\<lambda>i. needs (s_nodes s) i - needs (s_nodes s') i) rest = map (\<lambda>_. 0) rest"
      using sv l by (intro map_cong) (auto simp: served_def)
    then have z: "(\<Sum>i\<leftarrow>rest. needs (s_nodes s) i - needs (s_nodes s') i) = 0" by simp
    have "unat (wt g) = (\<Sum>i\<leftarrow>rest. needs (s_nodes s) i - needs (s_nodes s') i) +
        (needs (s_nodes s) j - needs (s_nodes s') j)"
      using sv l lst unfolding served_def by simp
    then have "unat (wt g) = needs (s_nodes s) j - needs (s_nodes s') j" using z by linarith
    moreover have "needs (s_nodes s') j \<le> needs (s_nodes s) j" using sv l by (simp add: served_def)
    ultimately show False using need \<open>0 < needs (s_nodes s') j\<close> by linarith
  qed
  then obtain gone' where gone: "gone = gone' @ [j]" "rest = s_list s' @ gone'"
    using sv lst unfolding served_def by (metis append.assoc append_butlast_last_id last_appendR last_snoc butlast_snoc)
  have nj: "needs (s_nodes s') j = 0" "j \<notin> set (s_list s')"
    using sv ok(1) gone lst by (auto simp: served_def list_ok_def)
  have "j \<in> dom futs" using pool_facts(6) [OF inv] lst by auto
  then obtain a where a: "futs j = Some a" by auto
  have q: "a_queued a" using pool_fut(5) [OF inv, of j a] a lst by auto
  have "sem_is_closed s' = sem_is_closed s" using h by (simp add: handed_def)
  then have "acquire_poll cx a s' = Some (Inr (Ready True, a\<lparr>a_queued := False\<rparr>, s', []))" if "\<not> sem_is_closed s"
    using poll_served [OF _ inv', of j a cx] that a q nj(2) by simp
  moreover have "woken = k # wakers_of (s_nodes s) (rev gone')" using woken gone wk by simp
  ultimately show ?thesis using rel a q by blast
qed

end
