(* ===== verification/Semaphore.thy ===== *)
theory Semaphore
  imports Permit_Guards
begin

text \<open>
  \<open>sync/semaphore.rs\<close>: the public counting semaphore, its permits and their \<open>Drop\<close>. An async function
  is its poll: the first poll creates the \<open>Acquire\<close> future (see \<open>acquire_async\<close>). The reference to
  the semaphore that a permit keeps is left out, so an owned permit is the same record; the owned operations
  are defined from the code of their own, and are equal to the borrowing ones.
\<close>

section \<open>Operations\<close>

record SemaphorePermit =
  pm_permits :: usize

definition semaphore_new :: "usize \<Rightarrow> sem outcome" where
  "semaphore_new permits = sem_new permits"

definition semaphore_const_new :: "usize \<Rightarrow> sem" where
  "semaphore_const_new permits = sem_const_new permits"

definition semaphore_available_permits :: "sem \<Rightarrow> usize" where
  "semaphore_available_permits s = available_permits s"

definition semaphore_add_permits :: "usize \<Rightarrow> sem \<Rightarrow> (sem \<times> waker list) outcome option" where
  "semaphore_add_permits n s = release n s"

definition semaphore_acquire_many ::
    "waker \<Rightarrow> nat \<Rightarrow> usize \<Rightarrow> acquire option \<Rightarrow> sem \<Rightarrow>
     ((unit + SemaphorePermit) poll \<times> acquire \<times> sem \<times> waker list) outcome option" where
  "semaphore_acquire_many cx i n fut s =
     map_option (\<lambda>o1. and_then o1 (\<lambda>(r, a, s', ws).
        Inr ((case r of Pending \<Rightarrow> Pending
              | Ready True \<Rightarrow> Ready (Inr \<lparr>pm_permits = n\<rparr>)
              | Ready False \<Rightarrow> Ready (Inl ())), a, s', ws)))
       (acquire_async cx i n fut s)"

definition semaphore_acquire ::
    "waker \<Rightarrow> nat \<Rightarrow> acquire option \<Rightarrow> sem \<Rightarrow>
     ((unit + SemaphorePermit) poll \<times> acquire \<times> sem \<times> waker list) outcome option" where
  "semaphore_acquire cx i fut s =
     map_option (\<lambda>o1. and_then o1 (\<lambda>(r, a, s', ws).
        Inr ((case r of Pending \<Rightarrow> Pending
              | Ready True \<Rightarrow> Ready (Inr \<lparr>pm_permits = 1\<rparr>)
              | Ready False \<Rightarrow> Ready (Inl ())), a, s', ws)))
       (acquire_async cx i 1 fut s)"

definition semaphore_try_acquire_many ::
    "usize \<Rightarrow> sem \<Rightarrow> ((TryAcquireError + SemaphorePermit) \<times> sem) outcome" where
  "semaphore_try_acquire_many n s =
     and_then (try_acquire n s) (\<lambda>(r, s').
       Inr (case r of Inr _ \<Rightarrow> Inr \<lparr>pm_permits = n\<rparr> | Inl e \<Rightarrow> Inl e, s'))"

definition semaphore_try_acquire :: "sem \<Rightarrow> ((TryAcquireError + SemaphorePermit) \<times> sem) outcome" where
  "semaphore_try_acquire s =
     and_then (try_acquire 1 s) (\<lambda>(r, s').
       Inr (case r of Inr _ \<Rightarrow> Inr \<lparr>pm_permits = 1\<rparr> | Inl e \<Rightarrow> Inl e, s'))"

definition semaphore_close :: "sem \<Rightarrow> sem \<times> waker list" where
  "semaphore_close s = sem_close s"

definition semaphore_is_closed :: "sem \<Rightarrow> bool" where
  "semaphore_is_closed s = sem_is_closed s"

definition permit_drop :: "SemaphorePermit \<Rightarrow> sem \<Rightarrow> (sem \<times> waker list) outcome option" where
  "permit_drop pm s = semaphore_add_permits (pm_permits pm) s"

text \<open>\<open>forget\<close> consumes the permit: its field is cleared, then it is dropped.\<close>

definition permit_forget :: "SemaphorePermit \<Rightarrow> sem \<Rightarrow> (sem \<times> waker list) outcome option" where
  "permit_forget pm s = permit_drop (pm\<lparr>pm_permits := 0\<rparr>) s"

text \<open>The operations that keep the semaphore alive by an \<open>Arc\<close>.\<close>

definition semaphore_acquire_owned ::
    "waker \<Rightarrow> nat \<Rightarrow> acquire option \<Rightarrow> sem \<Rightarrow>
     ((unit + SemaphorePermit) poll \<times> acquire \<times> sem \<times> waker list) outcome option" where
  "semaphore_acquire_owned cx i fut s =
     map_option (\<lambda>o1. and_then o1 (\<lambda>(r, a, s', ws).
        Inr ((case r of Pending \<Rightarrow> Pending
              | Ready True \<Rightarrow> Ready (Inr \<lparr>pm_permits = 1\<rparr>)
              | Ready False \<Rightarrow> Ready (Inl ())), a, s', ws)))
       (acquire_async cx i 1 fut s)"

definition semaphore_acquire_many_owned ::
    "waker \<Rightarrow> nat \<Rightarrow> usize \<Rightarrow> acquire option \<Rightarrow> sem \<Rightarrow>
     ((unit + SemaphorePermit) poll \<times> acquire \<times> sem \<times> waker list) outcome option" where
  "semaphore_acquire_many_owned cx i n fut s =
     map_option (\<lambda>o1. and_then o1 (\<lambda>(r, a, s', ws).
        Inr ((case r of Pending \<Rightarrow> Pending
              | Ready True \<Rightarrow> Ready (Inr \<lparr>pm_permits = n\<rparr>)
              | Ready False \<Rightarrow> Ready (Inl ())), a, s', ws)))
       (acquire_async cx i n fut s)"

definition semaphore_try_acquire_owned :: "sem \<Rightarrow> ((TryAcquireError + SemaphorePermit) \<times> sem) outcome" where
  "semaphore_try_acquire_owned s =
     and_then (try_acquire 1 s) (\<lambda>(r, s').
       Inr (case r of Inr _ \<Rightarrow> Inr \<lparr>pm_permits = 1\<rparr> | Inl e \<Rightarrow> Inl e, s'))"

definition semaphore_try_acquire_many_owned ::
    "usize \<Rightarrow> sem \<Rightarrow> ((TryAcquireError + SemaphorePermit) \<times> sem) outcome" where
  "semaphore_try_acquire_many_owned n s =
     and_then (try_acquire n s) (\<lambda>(r, s').
       Inr (case r of Inr _ \<Rightarrow> Inr \<lparr>pm_permits = n\<rparr> | Inl e \<Rightarrow> Inl e, s'))"

definition owned_sem_permit_drop :: "SemaphorePermit \<Rightarrow> sem \<Rightarrow> (sem \<times> waker list) outcome option" where
  "owned_sem_permit_drop pm s = semaphore_add_permits (pm_permits pm) s"

definition owned_sem_permit_forget :: "SemaphorePermit \<Rightarrow> sem \<Rightarrow> (sem \<times> waker list) outcome option" where
  "owned_sem_permit_forget pm s = owned_sem_permit_drop (pm\<lparr>pm_permits := 0\<rparr>) s"

lemma semaphore_owned_simps [simp]:
  "semaphore_acquire_many_owned = semaphore_acquire_many" "semaphore_acquire_owned = semaphore_acquire"
  "semaphore_try_acquire_many_owned = semaphore_try_acquire_many" "semaphore_try_acquire_owned = semaphore_try_acquire"
  "owned_sem_permit_drop = permit_drop" "owned_sem_permit_forget = permit_forget"
  by (simp_all add: fun_eq_iff semaphore_acquire_many_owned_def semaphore_acquire_many_def semaphore_acquire_owned_def
      semaphore_acquire_def semaphore_try_acquire_many_owned_def semaphore_try_acquire_many_def semaphore_try_acquire_owned_def
      semaphore_try_acquire_def owned_sem_permit_drop_def permit_drop_def owned_sem_permit_forget_def permit_forget_def)

lemma semaphore_acquire_one: "semaphore_acquire cx i fut s = semaphore_acquire_many cx i 1 fut s"
  by (simp add: semaphore_acquire_def semaphore_acquire_many_def)

lemma semaphore_try_acquire_one: "semaphore_try_acquire s = semaphore_try_acquire_many 1 s"
  by (simp add: semaphore_try_acquire_def semaphore_try_acquire_many_def)

section \<open>A semaphore in use\<close>

text \<open>
  The futures that have been polled and not finished, the permits alive, and (ghost) the number of
  permits there are: those given to \<open>new\<close>, added by \<open>add_permits\<close>, less those forgotten.
\<close>

record semaphore_use =
  su_sem :: sem
  su_futs :: "nat \<Rightarrow> acquire option"
  su_permits :: "SemaphorePermit multiset"
  su_total :: nat

inductive semaphore_step :: "semaphore_use \<Rightarrow> semaphore_use \<Rightarrow> bool" where
  poll_permit: "n < MAX_PERMIT \<Longrightarrow> (\<And>a. su_futs w i = Some a \<Longrightarrow> a_num a = n) \<Longrightarrow>
     semaphore_acquire_many cx i n (su_futs w i) (su_sem w) = Some (Inr (Ready (Inr pm), a', s', ws)) \<Longrightarrow>
     semaphore_step w (w\<lparr>su_sem := s', su_futs := (su_futs w)(i := None), su_permits := add_mset pm (su_permits w)\<rparr>)"
| poll_pending: "n < MAX_PERMIT \<Longrightarrow> (\<And>a. su_futs w i = Some a \<Longrightarrow> a_num a = n) \<Longrightarrow>
     semaphore_acquire_many cx i n (su_futs w i) (su_sem w) = Some (Inr (Pending, a', s', ws)) \<Longrightarrow>
     semaphore_step w (w\<lparr>su_sem := s', su_futs := (su_futs w)(i \<mapsto> a')\<rparr>)"
| poll_error: "n < MAX_PERMIT \<Longrightarrow> (\<And>a. su_futs w i = Some a \<Longrightarrow> a_num a = n) \<Longrightarrow>
     semaphore_acquire_many cx i n (su_futs w i) (su_sem w) = Some (Inr (Ready (Inl ()), a', s', ws)) \<Longrightarrow>
     semaphore_step w (w\<lparr>su_sem := s', su_futs := (su_futs w)(i := None)\<rparr>)"
| cancel: "su_futs w i = Some a \<Longrightarrow> acquire_drop a (su_sem w) = Some (Inr (s', ws)) \<Longrightarrow>
     semaphore_step w (w\<lparr>su_sem := s', su_futs := (su_futs w)(i := None)\<rparr>)"
| try_permit: "semaphore_try_acquire_many n (su_sem w) = Inr (Inr pm, s') \<Longrightarrow>
     semaphore_step w (w\<lparr>su_sem := s', su_permits := add_mset pm (su_permits w)\<rparr>)"
| try_fails: "semaphore_try_acquire_many n (su_sem w) = Inr (Inl e, s') \<Longrightarrow>
     semaphore_step w (w\<lparr>su_sem := s'\<rparr>)"
| permit_dropped: "pm \<in># su_permits w \<Longrightarrow> permit_drop pm (su_sem w) = Some (Inr (s', ws)) \<Longrightarrow>
     semaphore_step w (w\<lparr>su_sem := s', su_permits := su_permits w - {#pm#}\<rparr>)"
| permit_forgotten: "pm \<in># su_permits w \<Longrightarrow> permit_forget pm (su_sem w) = Some (Inr (s', ws)) \<Longrightarrow>
     semaphore_step w (w\<lparr>su_sem := s', su_permits := su_permits w - {#pm#},
       su_total := su_total w - unat (pm_permits pm)\<rparr>)"
| permits_added: "su_total w + unat n < 2 ^ 61 - 1 \<Longrightarrow> semaphore_add_permits n (su_sem w) = Some (Inr (s', ws)) \<Longrightarrow>
     semaphore_step w (w\<lparr>su_sem := s', su_total := su_total w + unat n\<rparr>)"
| sem_closed: "semaphore_close (su_sem w) = (s', ws) \<Longrightarrow> semaphore_step w (w\<lparr>su_sem := s'\<rparr>)"

definition semaphore_pool :: "semaphore_use \<Rightarrow> pool" where
  "semaphore_pool w = guard_pool pm_permits (su_total w) (su_sem w) (su_futs w) (su_permits w)"

inductive semaphore_start :: "semaphore_use \<Rightarrow> bool" where
  "semaphore_new n = Inr s \<Longrightarrow>
     semaphore_start \<lparr>su_sem = s, su_futs = (\<lambda>_. None), su_permits = {#}, su_total = unat n\<rparr>"

lemma acquire_many_async:
  assumes "semaphore_acquire_many cx i n fut s = Some (Inr (r, a', s', ws))"
  shows "\<exists>r'. acquire_async cx i n fut s = Some (Inr (r', a', s', ws)) \<and>
           (r = Ready (Inr pm) \<longrightarrow> r' = Ready True \<and> pm_permits pm = n) \<and>
           (r = Pending \<longrightarrow> r' = Pending) \<and> (r = Ready (Inl ()) \<longrightarrow> r' = Ready False)"
proof -
  from assms obtain r' where "acquire_async cx i n fut s = Some (Inr (r', a', s', ws))"
    "r = (case r' of Pending \<Rightarrow> Pending | Ready True \<Rightarrow> Ready (Inr \<lparr>pm_permits = n\<rparr>) | Ready False \<Rightarrow> Ready (Inl ()))"
    by (auto simp: semaphore_acquire_many_def and_then_eq_Inr)
  then show ?thesis by (cases r' rule: poll_bool_cases) auto
qed

lemma try_many_try:
  "semaphore_try_acquire_many n s = Inr (r, s') \<Longrightarrow>
     \<exists>r'. try_acquire n s = Inr (r', s') \<and> (case r of Inr pm \<Rightarrow> r' = Inr () \<and> pm_permits pm = n | Inl e \<Rightarrow> r' = Inl e)"
  by (cases "try_acquire n s")
     (auto simp: semaphore_try_acquire_many_def and_then_eq_Inr split: sum.split_asm sum.split)

lemma add_zero: "semaphore_add_permits 0 s = Some (Inr (s, []))"
  by (simp add: semaphore_add_permits_def release_def)

lemma semaphore_step_pool:
  "semaphore_step w w' \<Longrightarrow> pool_inv (semaphore_pool w) \<Longrightarrow> pool_step\<^sup>*\<^sup>* (semaphore_pool w) (semaphore_pool w')"
proof -
  have ops: "pool_op\<^sup>*\<^sup>* p q \<Longrightarrow> pool_step\<^sup>*\<^sup>* p q" for p q
    by (induction rule: rtranclp_induct) (auto intro: op rtranclp.rtrancl_into_rtrancl)
  then have one: "pool_op p q \<Longrightarrow> pool_step\<^sup>*\<^sup>* p q" for p q by blast
  show "semaphore_step w w' \<Longrightarrow> pool_inv (semaphore_pool w) \<Longrightarrow> pool_step\<^sup>*\<^sup>* (semaphore_pool w) (semaphore_pool w')"
  proof (induction rule: semaphore_step.induct)
    case (poll_permit n w i cx pm a' s' ws)
    from acquire_many_async [OF poll_permit(3), of pm] have
      run: "acquire_async cx i n (su_futs w i) (su_sem w) = Some (Inr (Ready True, a', s', ws))"
      and pm: "pm_permits pm = n" by auto
    from guard_async(1) [OF poll_permit(4) [unfolded semaphore_pool_def] poll_permit(1,2) run refl, of pm] pm ops
    show ?case by (simp add: semaphore_pool_def)
  next
    case (poll_pending n w i cx a' s' ws)
    from acquire_many_async [OF poll_pending(3)] have
      run: "acquire_async cx i n (su_futs w i) (su_sem w) = Some (Inr (Pending, a', s', ws))" by auto
    from guard_async(2) [OF poll_pending(4) [unfolded semaphore_pool_def] poll_pending(1,2) run refl] ops
    show ?case by (simp add: semaphore_pool_def)
  next
    case (poll_error n w i cx a' s' ws)
    from acquire_many_async [OF poll_error(3)] have
      run: "acquire_async cx i n (su_futs w i) (su_sem w) = Some (Inr (Ready False, a', s', ws))" by auto
    from guard_async(3) [OF poll_error(4) [unfolded semaphore_pool_def] poll_error(1,2) run refl] ops
    show ?case by (simp add: semaphore_pool_def)
  next
    case (cancel w i a s' ws)
    from guard_drop_future [where futs = "su_futs w" and i = i and wt = pm_permits and tot = "su_total w" and gs = "su_permits w", OF cancel(1,2)] show ?case
      by (simp add: semaphore_pool_def one)
  next
    case (try_permit n w pm s')
    from try_many_try [OF try_permit(1)] have "try_acquire n (su_sem w) = Inr (Inr (), s')" "pm_permits pm = n" by auto
    from guard_try(1) [where wt = pm_permits and g = pm and tot = "su_total w" and futs = "su_futs w" and gs = "su_permits w", OF this(1) refl this(2)] show ?case
      by (simp add: semaphore_pool_def one)
  next
    case (try_fails n w e s')
    from try_many_try [OF try_fails(1)] have "try_acquire n (su_sem w) = Inr (Inl e, s')" by auto
    from guard_try(2) [where wt = pm_permits and tot = "su_total w" and futs = "su_futs w" and gs = "su_permits w", OF this refl] show ?case
      by (simp add: semaphore_pool_def one)
  next
    case (permit_dropped pm w s' ws)
    then have "release (pm_permits pm) (su_sem w) = Some (Inr (s', ws))"
      by (simp add: permit_drop_def semaphore_add_permits_def)
    from guard_release [where wt = pm_permits, OF permit_dropped(1) this, of "su_total w" "su_futs w"] show ?case
      by (simp add: semaphore_pool_def one)
  next
    case (permit_forgotten pm w s' ws)
    then have "s' = su_sem w" by (simp add: permit_forget_def permit_drop_def add_zero)
    with guard_forget [OF permit_forgotten(1), of pm_permits "su_total w" "su_sem w" "su_futs w"] show ?case
      by (simp add: semaphore_pool_def one)
  next
    case (permits_added w n s' ws)
    then show ?case using added [of "semaphore_pool w" n s' ws]
      by (simp add: semaphore_pool_def semaphore_add_permits_def guard_pool_def one)
  next
    case (sem_closed w s' ws)
    then show ?case using closed [of "semaphore_pool w" s' ws]
      by (simp add: semaphore_pool_def semaphore_close_def guard_pool_def r_into_rtranclp)
  qed
qed

lemma semaphore_start_pool: "semaphore_start w \<Longrightarrow> pool_inv (semaphore_pool w)"
  by (auto elim!: semaphore_start.cases dest!: new_pool_inv simp: semaphore_new_def semaphore_pool_def guard_pool_def)

interpretation semaphore_client: permit_client semaphore_start semaphore_step "\<lambda>_. True" semaphore_pool
  by unfold_locales (auto intro: semaphore_start_pool semaphore_step_pool)

text \<open>
  However a semaphore is used, the permits alive, those free and those already assigned to waiting
  calls are exactly the permits it was given, those forgotten excepted.
\<close>

lemma semaphore_permits_balance:
  assumes "semaphore_start w" and "semaphore_step\<^sup>*\<^sup>* w w'"
  shows "unat (semaphore_available_permits (su_sem w')) + assigned (semaphore_pool w') +
           (\<Sum>pm\<in>#su_permits w'. unat (pm_permits pm)) = su_total w'"
  using semaphore_client.accounts [OF assms(2,1)]
  by (simp add: semaphore_pool_def semaphore_available_permits_def avail_def)

lemma semaphore_permits_balance_witness:
  "unat (semaphore_available_permits (sem_three\<lparr>s_state := 2\<rparr>)) + 2 = 3"
proof -
  let ?w = "\<lparr>su_sem = sem_three, su_futs = (\<lambda>_. None), su_permits = {#}, su_total = 3\<rparr>"
  let ?w' = "?w\<lparr>su_sem := sem_three\<lparr>s_state := 2\<rparr>, su_permits := add_mset \<lparr>pm_permits = 2\<rparr> (su_permits ?w)\<rparr>"
  have "semaphore_start ?w"
    using semaphore_start.intros [of 3 sem_three] sem_new_three by (simp add: semaphore_new_def)
  moreover have "semaphore_step ?w ?w'"
    by (rule try_permit [where n = 2]) (simp add: semaphore_try_acquire_many_def try_two)
  then have "semaphore_step\<^sup>*\<^sup>* ?w ?w'" by (rule r_into_rtranclp)
  ultimately show ?thesis
    using semaphore_permits_balance [of ?w ?w'] by (simp add: assigned_def semaphore_pool_def)
qed

end
