(* ===== verification/Mutex.thy ===== *)
theory Mutex
  imports Permit_Guards
begin

text \<open>
  \<open>sync/mutex.rs\<close>: a semaphore with one permit next to the data. The three kinds of guard are kept;
  a mapped guard remembers the place (of type \<open>'l\<close>) its closure chose. Guards release their permit
  when dropped. \<open>blocking_lock\<close> (deprecated, it blocks a thread) is not modelled.
\<close>

section \<open>Operations\<close>

record 'a mutex =
  mx_s :: sem
  mx_c :: 'a

datatype 'l mutex_guard = MutexGuard | OwnedMutexGuard | MappedMutexGuard 'l

definition mutex_new :: "'a \<Rightarrow> 'a mutex outcome" where
  "mutex_new t = and_then (sem_new 1) (\<lambda>s. Inr \<lparr>mx_s = s, mx_c = t\<rparr>)"

definition mutex_acquire ::
    "waker \<Rightarrow> nat \<Rightarrow> acquire option \<Rightarrow> 'a mutex \<Rightarrow>
     (unit poll \<times> acquire \<times> 'a mutex \<times> waker list) outcome option" where
  "mutex_acquire cx i fut m =
     map_option (\<lambda>o1. and_then o1 (\<lambda>(r, a, s, ws).
        case r of Pending \<Rightarrow> Inr (Pending, a, m\<lparr>mx_s := s\<rparr>, ws)
        | Ready True \<Rightarrow> Inr (Ready (), a, m\<lparr>mx_s := s\<rparr>, ws)
        | Ready False \<Rightarrow> Inl Unreachable))
       (acquire_async cx i 1 fut (mx_s m))"

definition mutex_lock ::
    "waker \<Rightarrow> nat \<Rightarrow> acquire option \<Rightarrow> 'a mutex \<Rightarrow>
     ('l mutex_guard poll \<times> acquire \<times> 'a mutex \<times> waker list) outcome option" where
  "mutex_lock cx i fut m =
     map_option (\<lambda>o1. and_then o1 (\<lambda>(r, rest).
        Inr (case r of Pending \<Rightarrow> Pending | Ready _ \<Rightarrow> Ready MutexGuard, rest))) (mutex_acquire cx i fut m)"

definition mutex_lock_owned ::
    "waker \<Rightarrow> nat \<Rightarrow> acquire option \<Rightarrow> 'a mutex \<Rightarrow>
     ('l mutex_guard poll \<times> acquire \<times> 'a mutex \<times> waker list) outcome option" where
  "mutex_lock_owned cx i fut m =
     map_option (\<lambda>o1. and_then o1 (\<lambda>(r, rest).
        Inr (case r of Pending \<Rightarrow> Pending | Ready _ \<Rightarrow> Ready OwnedMutexGuard, rest))) (mutex_acquire cx i fut m)"

text \<open>The answer \<open>None\<close> is \<open>Err(TryLockError)\<close>.\<close>

definition mutex_try_lock :: "'a mutex \<Rightarrow> ('l mutex_guard option \<times> 'a mutex) outcome" where
  "mutex_try_lock m =
     and_then (try_acquire 1 (mx_s m)) (\<lambda>(r, s).
       Inr (case r of Inr _ \<Rightarrow> Some MutexGuard | Inl _ \<Rightarrow> None, m\<lparr>mx_s := s\<rparr>))"

definition mutex_try_lock_owned :: "'a mutex \<Rightarrow> ('l mutex_guard option \<times> 'a mutex) outcome" where
  "mutex_try_lock_owned m =
     and_then (try_acquire 1 (mx_s m)) (\<lambda>(r, s).
       Inr (case r of Inr _ \<Rightarrow> Some OwnedMutexGuard | Inl _ \<Rightarrow> None, m\<lparr>mx_s := s\<rparr>))"

definition mutex_into_inner :: "'a mutex \<Rightarrow> 'a" where
  "mutex_into_inner m = mx_c m"

text \<open>Reading and writing through a guard (\<open>Deref\<close>, \<open>DerefMut\<close>), and \<open>get_mut\<close>.\<close>

definition guard_deref :: "'a mutex \<Rightarrow> 'a" where
  "guard_deref m = mx_c m"

definition guard_deref_mut :: "('a \<Rightarrow> 'a) \<Rightarrow> 'a mutex \<Rightarrow> 'a mutex" where
  "guard_deref_mut f m = m\<lparr>mx_c := f (mx_c m)\<rparr>"

text \<open>
  \<open>map\<close> and \<open>try_map\<close>, of a guard of the whole data and of a mapped one: the closure may change the data, and
  picks a place in it (given the place of the old guard, if it has one). The old guard is forgotten.
\<close>

definition mutex_guard_map :: "('a \<Rightarrow> 'a \<times> 'l) \<Rightarrow> 'a mutex \<Rightarrow> 'l mutex_guard \<times> 'a mutex" where
  "mutex_guard_map f m = (case f (mx_c m) of (c, loc) \<Rightarrow> (MappedMutexGuard loc, m\<lparr>mx_c := c\<rparr>))"

definition mapped_guard_map :: "('l \<Rightarrow> 'a \<Rightarrow> 'a \<times> 'l) \<Rightarrow> 'l \<Rightarrow> 'a mutex \<Rightarrow> 'l mutex_guard \<times> 'a mutex" where
  "mapped_guard_map f data m = (case f data (mx_c m) of (c, loc) \<Rightarrow> (MappedMutexGuard loc, m\<lparr>mx_c := c\<rparr>))"

definition mutex_guard_try_map ::
    "('a \<Rightarrow> 'a \<times> 'l option) \<Rightarrow> 'a mutex \<Rightarrow> ('l mutex_guard + 'l mutex_guard) \<times> 'a mutex" where
  "mutex_guard_try_map f m =
     (case f (mx_c m) of
        (c, None) \<Rightarrow> (Inl MutexGuard, m\<lparr>mx_c := c\<rparr>)
      | (c, Some loc) \<Rightarrow> (Inr (MappedMutexGuard loc), m\<lparr>mx_c := c\<rparr>))"

definition mapped_guard_try_map ::
    "('l \<Rightarrow> 'a \<Rightarrow> 'a \<times> 'l option) \<Rightarrow> 'l \<Rightarrow> 'a mutex \<Rightarrow> ('l mutex_guard + 'l mutex_guard) \<times> 'a mutex" where
  "mapped_guard_try_map f data m =
     (case f data (mx_c m) of
        (c, None) \<Rightarrow> (Inl (MappedMutexGuard data), m\<lparr>mx_c := c\<rparr>)
      | (c, Some loc) \<Rightarrow> (Inr (MappedMutexGuard loc), m\<lparr>mx_c := c\<rparr>))"

text \<open>An owned guard cannot be mapped.\<close>

fun guard_map :: "('l option \<Rightarrow> 'a \<Rightarrow> 'a \<times> 'l) \<Rightarrow> 'l mutex_guard \<Rightarrow> 'a mutex \<Rightarrow> ('l mutex_guard \<times> 'a mutex) option" where
  "guard_map f MutexGuard m = Some (mutex_guard_map (f None) m)"
| "guard_map f (MappedMutexGuard l) m = Some (mapped_guard_map (\<lambda>l. f (Some l)) l m)"
| "guard_map f OwnedMutexGuard m = None"

fun guard_try_map ::
    "('l option \<Rightarrow> 'a \<Rightarrow> 'a \<times> 'l option) \<Rightarrow> 'l mutex_guard \<Rightarrow> 'a mutex \<Rightarrow> (('l mutex_guard + 'l mutex_guard) \<times> 'a mutex) option" where
  "guard_try_map f MutexGuard m = Some (mutex_guard_try_map (f None) m)"
| "guard_try_map f (MappedMutexGuard l) m = Some (mapped_guard_try_map (\<lambda>l. f (Some l)) l m)"
| "guard_try_map f OwnedMutexGuard m = None"

lemmas guard_map_defs = mutex_guard_map_def mapped_guard_map_def mutex_guard_try_map_def mapped_guard_try_map_def

text \<open>\<open>Drop\<close>, for each kind of guard.\<close>

definition mutex_release :: "'a mutex \<Rightarrow> ('a mutex \<times> waker list) outcome option" where
  "mutex_release m = map_option (\<lambda>o1. and_then o1 (\<lambda>(s, ws). Inr (m\<lparr>mx_s := s\<rparr>, ws))) (release 1 (mx_s m))"

definition mutex_guard_drop :: "'a mutex \<Rightarrow> ('a mutex \<times> waker list) outcome option" where
  "mutex_guard_drop m = mutex_release m"

definition owned_guard_drop :: "'a mutex \<Rightarrow> ('a mutex \<times> waker list) outcome option" where
  "owned_guard_drop m = mutex_release m"

definition mapped_guard_drop :: "'a mutex \<Rightarrow> ('a mutex \<times> waker list) outcome option" where
  "mapped_guard_drop m = mutex_release m"

fun guard_drop :: "'l mutex_guard \<Rightarrow> 'a mutex \<Rightarrow> ('a mutex \<times> waker list) outcome option" where
  "guard_drop MutexGuard m = mutex_guard_drop m"
| "guard_drop OwnedMutexGuard m = owned_guard_drop m"
| "guard_drop (MappedMutexGuard _) m = mapped_guard_drop m"

lemma guard_drop_release:
  "guard_drop g m = map_option (\<lambda>o1. and_then o1 (\<lambda>(s, ws). Inr (m\<lparr>mx_s := s\<rparr>, ws))) (release 1 (mx_s m))"
  by (cases g) (simp_all add: mutex_guard_drop_def owned_guard_drop_def mapped_guard_drop_def mutex_release_def)

section \<open>A mutex in use\<close>

record ('a, 'l) mutex_use =
  mu_mutex :: "'a mutex"
  mu_futs :: "nat \<Rightarrow> acquire option"
  mu_guards :: "'l mutex_guard multiset"

text \<open>
  The steps: polls of \<open>lock\<close> and \<open>lock_owned\<close> futures (owned or not), dropping such a future,
  \<open>try_lock\<close>, mapping a guard, changing the data through a guard, and dropping a guard.
\<close>

inductive mutex_step :: "('a, 'l) mutex_use \<Rightarrow> ('a, 'l) mutex_use \<Rightarrow> bool" where
  lock_ready: "mutex_lock cx i (mu_futs w i) (mu_mutex w) = Some (Inr (Ready g, a, m, ws)) \<or>
     mutex_lock_owned cx i (mu_futs w i) (mu_mutex w) = Some (Inr (Ready g, a, m, ws)) \<Longrightarrow>
     mutex_step w (w\<lparr>mu_mutex := m, mu_futs := (mu_futs w)(i := None), mu_guards := add_mset g (mu_guards w)\<rparr>)"
| lock_pending: "mutex_lock cx i (mu_futs w i) (mu_mutex w) = Some (Inr (Pending :: 'l mutex_guard poll, a, m, ws)) \<or>
     mutex_lock_owned cx i (mu_futs w i) (mu_mutex w) = Some (Inr (Pending :: 'l mutex_guard poll, a, m, ws)) \<Longrightarrow>
     mutex_step w (w\<lparr>mu_mutex := m, mu_futs := (mu_futs w)(i \<mapsto> a)\<rparr>)"
| lock_cancelled: "mu_futs w i = Some a \<Longrightarrow> acquire_drop a (mx_s (mu_mutex w)) = Some (Inr (s, ws)) \<Longrightarrow>
     mutex_step w (w\<lparr>mu_mutex := (mu_mutex w)\<lparr>mx_s := s\<rparr>, mu_futs := (mu_futs w)(i := None)\<rparr>)"
| try_locked: "mutex_try_lock (mu_mutex w) = Inr (Some g, m) \<or> mutex_try_lock_owned (mu_mutex w) = Inr (Some g, m) \<Longrightarrow>
     mutex_step w (w\<lparr>mu_mutex := m, mu_guards := add_mset g (mu_guards w)\<rparr>)"
| try_refused: "mutex_try_lock (mu_mutex w) = Inr (None :: 'l mutex_guard option, m) \<or>
     mutex_try_lock_owned (mu_mutex w) = Inr (None :: 'l mutex_guard option, m) \<Longrightarrow>
     mutex_step w (w\<lparr>mu_mutex := m\<rparr>)"
| guard_mapped: "g \<in># mu_guards w \<Longrightarrow> guard_map f g (mu_mutex w) = Some (g', m) \<Longrightarrow>
     mutex_step w (w\<lparr>mu_mutex := m, mu_guards := add_mset g' (mu_guards w - {#g#})\<rparr>)"
| guard_try_mapped: "g \<in># mu_guards w \<Longrightarrow> guard_try_map f g (mu_mutex w) = Some (r, m) \<Longrightarrow>
     mutex_step w (w\<lparr>mu_mutex := m, mu_guards := add_mset (case r of Inl g' \<Rightarrow> g' | Inr g' \<Rightarrow> g') (mu_guards w - {#g#})\<rparr>)"
| guard_write: "g \<in># mu_guards w \<Longrightarrow> mutex_step w (w\<lparr>mu_mutex := guard_deref_mut h (mu_mutex w)\<rparr>)"
| guard_dropped: "g \<in># mu_guards w \<Longrightarrow> guard_drop g (mu_mutex w) = Some (Inr (m, ws)) \<Longrightarrow>
     mutex_step w (w\<lparr>mu_mutex := m, mu_guards := mu_guards w - {#g#}\<rparr>)"

inductive mutex_start :: "('a, 'l) mutex_use \<Rightarrow> bool" where
  "mutex_new t = Inr m \<Longrightarrow> mutex_start \<lparr>mu_mutex = m, mu_futs = (\<lambda>_. None), mu_guards = {#}\<rparr>"

definition mutex_pool :: "('a, 'l) mutex_use \<Rightarrow> pool" where
  "mutex_pool w = guard_pool (\<lambda>_. 1) 1 (mx_s (mu_mutex w)) (mu_futs w) (mu_guards w)"

definition mutex_inv :: "('a, 'l) mutex_use \<Rightarrow> bool" where
  "mutex_inv w \<longleftrightarrow> (\<forall>i a. mu_futs w i = Some a \<longrightarrow> a_num a = 1)"

lemma one_permit: "1 < MAX_PERMIT" by (simp add: less_MAX_PERMIT)

lemma mutex_acquire_async:
  assumes "mutex_acquire cx i fut m = Some (Inr (r, a, m', ws))"
  shows "\<exists>s. acquire_async cx i 1 fut (mx_s m) =
             Some (Inr (case r of Pending \<Rightarrow> Pending | Ready _ \<Rightarrow> Ready True, a, s, ws)) \<and> m' = m\<lparr>mx_s := s\<rparr>"
proof -
  from assms obtain x where x: "acquire_async cx i 1 fut (mx_s m) = Some (Inr x)" and
    f: "(case x of (r', a', s, ws') \<Rightarrow>
        case r' of Pending \<Rightarrow> Inr (Pending, a', m\<lparr>mx_s := s\<rparr>, ws')
        | Ready True \<Rightarrow> Inr (Ready (), a', m\<lparr>mx_s := s\<rparr>, ws')
        | Ready False \<Rightarrow> Inl Unreachable) = Inr (r, a, m', ws)"
    by (auto simp only: mutex_acquire_def map_option_eq_Some and_then_eq_Inr)
  obtain r' a' s ws' where "x = (r', a', s, ws')" by (cases x)
  with x f show ?thesis by (cases r' rule: poll_bool_cases) auto
qed

lemma mutex_lock_async:
  assumes "mutex_lock cx i fut m = Some (Inr (r, a, m', ws)) \<or> mutex_lock_owned cx i fut m = Some (Inr (r, a, m', ws))"
  shows "\<exists>r' s. acquire_async cx i 1 fut (mx_s m) = Some (Inr (r', a, s, ws)) \<and> m' = m\<lparr>mx_s := s\<rparr> \<and>
           (r = Pending \<longrightarrow> r' = Pending) \<and> (r \<noteq> Pending \<longrightarrow> r' = Ready True)"
proof -
  from assms obtain r1 where acq: "mutex_acquire cx i fut m = Some (Inr (r1, a, m', ws))" and
    r: "r = (case r1 of Pending \<Rightarrow> Pending | Ready _ \<Rightarrow> Ready MutexGuard) \<or>
        r = (case r1 of Pending \<Rightarrow> Pending | Ready _ \<Rightarrow> Ready OwnedMutexGuard)"
    by (auto simp: mutex_lock_def mutex_lock_owned_def and_then_eq_Inr)
  from r have "(r = Pending) = (r1 = Pending)" by (cases r1) auto
  note this acq
  with mutex_acquire_async [OF acq] show ?thesis by (cases r1) auto
qed

lemma mutex_async:
  assumes inv: "mutex_inv w" "pool_inv (mutex_pool w)"
    and run: "acquire_async cx i 1 (mu_futs w i) (mx_s (mu_mutex w)) = Some (Inr (r, a, s, ws))"
    and m: "m = (mu_mutex w)\<lparr>mx_s := s\<rparr>"
  shows "r = Ready True \<Longrightarrow> pool_op\<^sup>*\<^sup>* (mutex_pool w)
           (mutex_pool (w\<lparr>mu_mutex := m, mu_futs := (mu_futs w)(i := None), mu_guards := add_mset g (mu_guards w)\<rparr>))"
    and "r = Pending \<Longrightarrow> pool_op\<^sup>*\<^sup>* (mutex_pool w) (mutex_pool (w\<lparr>mu_mutex := m, mu_futs := (mu_futs w)(i \<mapsto> a)\<rparr>))"
    and "a_num a = 1"
proof -
  have num: "mu_futs w i = Some b \<Longrightarrow> a_num b = 1" for b using inv(1) by (simp add: mutex_inv_def)
  note ga = guard_async [OF inv(2) [unfolded mutex_pool_def] one_permit num run]
  show "r = Ready True \<Longrightarrow> pool_op\<^sup>*\<^sup>* (mutex_pool w)
           (mutex_pool (w\<lparr>mu_mutex := m, mu_futs := (mu_futs w)(i := None), mu_guards := add_mset g (mu_guards w)\<rparr>))"
    using ga(1) m by (simp add: mutex_pool_def)
  show "r = Pending \<Longrightarrow> pool_op\<^sup>*\<^sup>* (mutex_pool w) (mutex_pool (w\<lparr>mu_mutex := m, mu_futs := (mu_futs w)(i \<mapsto> a)\<rparr>))"
    using ga(2) m by (simp add: mutex_pool_def)
  show "a_num a = 1" using ga(4) by simp
qed

lemma mutex_try:
  assumes "mutex_try_lock m = Inr (r, m') \<or> mutex_try_lock_owned m = Inr (r, m')"
  shows "\<exists>r' s. try_acquire 1 (mx_s m) = Inr (r', s) \<and> m' = m\<lparr>mx_s := s\<rparr> \<and> (r \<noteq> None \<longleftrightarrow> r' = Inr ())"
proof -
  from assms obtain r' s where "try_acquire 1 (mx_s m) = Inr (r', s)" "m' = m\<lparr>mx_s := s\<rparr>"
    "r = (case r' of Inr _ \<Rightarrow> Some MutexGuard | Inl _ \<Rightarrow> None) \<or>
     r = (case r' of Inr _ \<Rightarrow> Some OwnedMutexGuard | Inl _ \<Rightarrow> None)"
    by (auto simp: mutex_try_lock_def mutex_try_lock_owned_def and_then_eq_Inr)
  then show ?thesis by (cases r') auto
qed

lemma mutex_step_ops:
  "mutex_step w w' \<Longrightarrow> mutex_inv w \<Longrightarrow> pool_inv (mutex_pool w) \<Longrightarrow>
     mutex_inv w' \<and> pool_op\<^sup>*\<^sup>* (mutex_pool w) (mutex_pool w')"
proof (induction rule: mutex_step.induct)
  case (lock_ready cx i w g a m ws)
  from mutex_lock_async [OF lock_ready(1)] obtain s where
    "acquire_async cx i 1 (mu_futs w i) (mx_s (mu_mutex w)) = Some (Inr (Ready True, a, s, ws))"
    "m = (mu_mutex w)\<lparr>mx_s := s\<rparr>" by auto
  from mutex_async(1) [OF lock_ready(2,3) this refl] lock_ready(2) show ?case by (auto simp: mutex_inv_def)
next
  case (lock_pending cx i w a m ws)
  from mutex_lock_async [OF lock_pending(1)] obtain s where
    "acquire_async cx i 1 (mu_futs w i) (mx_s (mu_mutex w)) = Some (Inr (Pending, a, s, ws))"
    "m = (mu_mutex w)\<lparr>mx_s := s\<rparr>" by auto
  from mutex_async(2,3) [OF lock_pending(2,3) this] lock_pending(2) show ?case by (auto simp: mutex_inv_def)
next
  case (lock_cancelled w i a s ws)
  from guard_drop_future [where futs = "mu_futs w" and i = i and wt = "\<lambda>_. 1" and tot = 1 and gs = "mu_guards w",
      OF lock_cancelled(1,2)] lock_cancelled(3)
  show ?case by (auto simp: mutex_inv_def mutex_pool_def)
next
  case (try_locked w g m)
  from mutex_try [OF try_locked(1)] obtain s where
    "try_acquire 1 (mx_s (mu_mutex w)) = Inr (Inr (), s)" "m = (mu_mutex w)\<lparr>mx_s := s\<rparr>" by auto
  from guard_try(1) [where wt = "\<lambda>_. 1" and g = g and tot = 1 and futs = "mu_futs w" and gs = "mu_guards w",
      OF this(1) refl refl] this(2) try_locked(2)
  show ?case by (auto simp: mutex_inv_def mutex_pool_def)
next
  case (try_refused w m)
  from mutex_try [OF try_refused(1)] obtain r s where
    "try_acquire 1 (mx_s (mu_mutex w)) = Inr (r, s)" "m = (mu_mutex w)\<lparr>mx_s := s\<rparr>" "r \<noteq> Inr ()" by auto
  moreover then obtain e where "r = Inl e" by (cases r) auto
  ultimately show ?case
    using guard_try(2) [where wt = "\<lambda>_. 1" and tot = 1 and futs = "mu_futs w" and gs = "mu_guards w", of 1 _ r s e]
      try_refused(2) by (auto simp: mutex_inv_def mutex_pool_def)
next
  case (guard_mapped g w f g' m)
  then have "mx_s m = mx_s (mu_mutex w)" by (cases g) (auto simp: guard_map_defs split: prod.splits)
  then show ?case using guard_swap [OF guard_mapped(1), of "\<lambda>_. 1" g'] guard_mapped(3)
    by (simp add: mutex_inv_def mutex_pool_def)
next
  case (guard_try_mapped g w f r m)
  then have "mx_s m = mx_s (mu_mutex w)" by (cases g) (auto simp: guard_map_defs split: prod.splits option.splits)
  then show ?case using guard_swap [OF guard_try_mapped(1), of "\<lambda>_. 1"] guard_try_mapped(3)
    by (simp add: mutex_inv_def mutex_pool_def)
next
  case (guard_write g w h)
  then show ?case by (simp add: mutex_inv_def mutex_pool_def guard_deref_mut_def)
next
  case (guard_dropped g w m ws)
  then obtain s where "release 1 (mx_s (mu_mutex w)) = Some (Inr (s, ws))" "m = (mu_mutex w)\<lparr>mx_s := s\<rparr>"
    by (auto simp: guard_drop_release and_then_eq_Inr)
  from guard_release [where wt = "\<lambda>_. 1" and tot = 1 and futs = "mu_futs w", OF guard_dropped(1) this(1)] this(2)
    guard_dropped(3)
  show ?case by (auto simp: mutex_inv_def mutex_pool_def)
qed

lemma mutex_start_pool:
  "mutex_start w \<Longrightarrow> mutex_inv w \<and> pool_inv (mutex_pool w) \<and> \<not> sem_is_closed (p_sem (mutex_pool w))"
proof (induction rule: mutex_start.induct)
  case (1 t m)
  then obtain s where "sem_new 1 = Inr s" "m = \<lparr>mx_s = s, mx_c = t\<rparr>" by (auto simp: mutex_new_def and_then_eq_Inr)
  then show ?case using new_pool_inv [of 1 s] sem_new_Inr [of 1 s]
    by (simp add: mutex_inv_def mutex_pool_def guard_pool_def)
qed

interpretation mutex_client: open_client mutex_start mutex_step mutex_inv mutex_pool
  by unfold_locales (auto dest: mutex_start_pool mutex_step_ops)

section \<open>What the mutex promises\<close>

lemma mutex_exclusive:
  fixes w' :: "('a, 'l) mutex_use"
  assumes "mutex_start w" and "mutex_step\<^sup>*\<^sup>* w w'"
  shows "size (mu_guards w') \<le> 1 \<and>
    (mu_guards w' \<noteq> {#} \<longrightarrow> mutex_try_lock (mu_mutex w') = Inr (None :: 'l mutex_guard option, mu_mutex w'))"
proof (intro conjI impI)
  note inv = mutex_client.client_inv [OF assms(2,1)]
  have sum: "(\<Sum>g\<in>#mu_guards w'. unat (1 :: usize)) = size (mu_guards w')" by simp
  show "size (mu_guards w') \<le> 1"
    using mutex_client.held_le_total [OF assms(2,1)] by (simp add: mutex_pool_def)
  assume "mu_guards w' \<noteq> {#}"
  then have "avail (mx_s (mu_mutex w')) = 0"
    using mutex_client.accounts [OF assms(2,1)] by (simp add: mutex_pool_def nonempty_has_size)
  then have "run_action (try_acquire_action (push_bit PERMIT_SHIFT 1)) (s_state (mx_s (mu_mutex w'))) =
      Inr (Inl AcqNoPermits, s_state (mx_s (mu_mutex w')))"
    using run_try_acquire [of 1] mutex_client.stays_open [OF assms(2,1)] by (simp add: mutex_pool_def)
  then show "mutex_try_lock (mu_mutex w') = Inr (None, mu_mutex w')"
    by (simp add: mutex_try_lock_def try_acquire_def one_permit)
qed

text \<open>
  C20: At any time at most one guard of a mutex is alive, and while one is, \<open>try_lock\<close> is refused.
\<close>

theorem mutex_excludes:
  fixes w' :: "('a, 'l) mutex_use"
  assumes "mutex_start w" and "mutex_step\<^sup>*\<^sup>* w w'"
  shows "size (mu_guards w') \<le> 1 \<and>
    (mu_guards w' \<noteq> {#} \<longrightarrow> mutex_try_lock (mu_mutex w') = Inr (None :: 'l mutex_guard option, mu_mutex w'))"
  by (rule mutex_exclusive [OF assms])

definition locked_mutex :: "nat mutex" where
  "locked_mutex = \<lparr>mx_s = sem_three\<lparr>s_state := 0\<rparr>, mx_c = 5\<rparr>"

definition mutex_world :: "nat \<Rightarrow> usize \<Rightarrow> nat mutex_guard multiset \<Rightarrow> (nat, nat) mutex_use" where
  "mutex_world c st gs =
     \<lparr>mu_mutex = \<lparr>mx_s = sem_three\<lparr>s_state := st\<rparr>, mx_c = c\<rparr>, mu_futs = (\<lambda>_. None), mu_guards = gs\<rparr>"

lemma mutex_world_locked: "mutex_start (mutex_world 5 2 {#}) \<and> mutex_step\<^sup>*\<^sup>* (mutex_world 5 2 {#}) (mutex_world 5 0 {#MutexGuard#})"
proof
  have "sem_new 1 = Inr (sem_three\<lparr>s_state := 2\<rparr>)"
    by (simp add: sem_new_def sem_three_def and_then_ensure one_permit PERMIT_SHIFT_def)
  then show "mutex_start (mutex_world 5 2 {#})"
    using mutex_start.intros [of 5] by (simp add: mutex_new_def mutex_world_def)
  have "try_acquire 1 (sem_three\<lparr>s_state := 2\<rparr>) = Inr (Inr (), sem_three\<lparr>s_state := 0\<rparr>)"
    by (simp add: try_acquire_def one_permit PERMIT_SHIFT_def run_action_eq try_acquire_action_def sem_three_def SEM_CLOSED_def)
  then have "mutex_step (mutex_world 5 2 {#}) ((mutex_world 5 2 {#})\<lparr>mu_mutex := locked_mutex,
      mu_guards := add_mset MutexGuard (mu_guards (mutex_world 5 2 {#}))\<rparr>)"
    by (intro try_locked) (simp add: mutex_try_lock_def mutex_world_def locked_mutex_def)
  then show "mutex_step\<^sup>*\<^sup>* (mutex_world 5 2 {#}) (mutex_world 5 0 {#MutexGuard#})"
    by (intro r_into_rtranclp) (simp add: mutex_world_def locked_mutex_def)
qed

theorem mutex_excludes_witness:
  "mutex_try_lock (mu_mutex (mutex_world 5 0 {#MutexGuard#})) =
     Inr (None :: nat mutex_guard option, mu_mutex (mutex_world 5 0 {#MutexGuard#}))"
  using mutex_excludes [OF conjunct1 [OF mutex_world_locked] conjunct2 [OF mutex_world_locked]]
  by (simp add: mutex_world_def)

text \<open>
  Dropping the guard while calls of \<open>lock\<close> wait hands the mutex to the one that waited longest: it is
  woken, nobody can overtake it with \<open>try_lock\<close>, and its next poll returns the guard.
\<close>

lemma mutex_unlock_is_fair:
  fixes w' :: "('a, 'l) mutex_use"
  assumes "mutex_start w" "mutex_step\<^sup>*\<^sup>* w w'" "g \<in># mu_guards w'"
    and "s_list (mx_s (mu_mutex w')) = rest @ [j]" "w_waker (s_nodes (mx_s (mu_mutex w')) j) = Some k"
  shows "\<exists>m ws a. guard_drop g (mu_mutex w') = Some (Inr (m, k # ws)) \<and> mu_futs w' j = Some a \<and>
    mutex_try_lock m = Inr (None :: 'l mutex_guard option, m) \<and>
    mutex_lock cx j (Some a) m = Some (Inr (Ready MutexGuard :: 'l mutex_guard poll, a\<lparr>a_queued := False\<rparr>, m, []))"
proof -
  let ?s = "mx_s (mu_mutex w')"
  from mutex_client.client_inv [OF assms(2,1)] have minv: "mutex_inv w'" and inv: "pool_inv (mutex_pool w')" by auto
  have op: "\<not> sem_is_closed ?s" using mutex_client.stays_open [OF assms(2,1)] by (simp add: mutex_pool_def)
  have "j \<in> dom (mu_futs w')" using pool_facts(6) [OF inv] assms(4) by (auto simp: mutex_pool_def)
  then have need: "needs (s_nodes ?s) j \<le> 1"
    using pool_fut(4) [OF inv, of j] minv by (force simp: mutex_pool_def mutex_inv_def)
  from guard_release_hands_over [where wt = "\<lambda>_. 1", OF inv [unfolded mutex_pool_def] assms(3,4) _ assms(5)] need op
  obtain s' ws a where rel: "release 1 ?s = Some (Inr (s', k # ws))" and a: "mu_futs w' j = Some a"
    and poll: "acquire_poll cx a s' = Some (Inr (Ready True, a\<lparr>a_queued := False\<rparr>, s', []))"
    by force
  have drop: "guard_drop g (mu_mutex w') = Some (Inr ((mu_mutex w')\<lparr>mx_s := s'\<rparr>, k # ws))"
    using rel by (simp add: guard_drop_release)
  have step: "mutex_step w' (w'\<lparr>mu_mutex := (mu_mutex w')\<lparr>mx_s := s'\<rparr>, mu_guards := mu_guards w' - {#g#}\<rparr>)" (is "mutex_step w' ?v")
    by (rule guard_dropped [OF assms(3) drop])
  have lock: "mutex_lock cx j (Some a) ((mu_mutex w')\<lparr>mx_s := s'\<rparr>) =
      Some (Inr (Ready MutexGuard :: 'l mutex_guard poll, a\<lparr>a_queued := False\<rparr>, (mu_mutex w')\<lparr>mx_s := s'\<rparr>, []))"
    using poll by (simp add: mutex_lock_def mutex_acquire_def acquire_async_def acquire_drop_def)
  have "mutex_step ?v (?v\<lparr>mu_mutex := mu_mutex ?v, mu_futs := (mu_futs ?v)(j := None),
      mu_guards := add_mset MutexGuard (mu_guards ?v)\<rparr>)" (is "mutex_step _ ?u")
    by (rule lock_ready [where a = "a\<lparr>a_queued := False\<rparr>" and ws = "[]" and cx = cx]) (use lock a in simp)
  then have "mutex_step\<^sup>*\<^sup>* w ?u" using step assms(2) by (meson rtranclp.rtrancl_into_rtrancl)
  from mutex_exclusive [OF assms(1) this]
  have "mutex_try_lock ((mu_mutex w')\<lparr>mx_s := s'\<rparr>) = Inr (None :: 'l mutex_guard option, (mu_mutex w')\<lparr>mx_s := s'\<rparr>)"
    by simp
  with drop a lock show ?thesis by blast
qed

lemma lock_waits:
  "mutex_lock 9 1 None (mu_mutex (mutex_world 5 0 {#MutexGuard#})) =
     Some (Inr (Pending :: nat mutex_guard poll, \<lparr>a_node = 1, a_num = 1, a_queued = True\<rparr>,
       \<lparr>mx_s = sem_three\<lparr>s_state := 0, s_list := [1], s_nodes := (\<lambda>_. waiter_new 0)(1 := \<lparr>w_state = 1, w_waker = Some 9\<rparr>)\<rparr>, mx_c = 5\<rparr>, []))"
  by (simp add: mutex_lock_def mutex_acquire_def acquire_async_def acquire_new_def acquire_poll_def poll_acquire_def
      mutex_world_def sem_three_def run_action_eq acquire_action_def PERMIT_SHIFT_def SEM_CLOSED_def push_bit_eq_mult
      assign_permits_def assign_action_def waiter_new_def set_waker_def wl_push_front_def Let_def)

lemma mutex_unlock_is_fair_witness:
  "\<exists>m ws. guard_drop (MutexGuard :: nat mutex_guard)
       \<lparr>mx_s = sem_three\<lparr>s_state := 0, s_list := [1], s_nodes := (\<lambda>_. waiter_new 0)(1 := \<lparr>w_state = 1, w_waker = Some 9\<rparr>)\<rparr>, mx_c = 5 :: nat\<rparr>
       = Some (Inr (m, 9 # ws)) \<and> mutex_try_lock m = Inr (None :: nat mutex_guard option, m)"
proof -
  let ?w = "mutex_world 5 0 {#MutexGuard#}"
  have "mutex_step ?w (?w\<lparr>mu_mutex := \<lparr>mx_s = sem_three\<lparr>s_state := 0, s_list := [1],
      s_nodes := (\<lambda>_. waiter_new 0)(1 := \<lparr>w_state = 1, w_waker = Some 9\<rparr>)\<rparr>, mx_c = 5\<rparr>,
      mu_futs := (mu_futs ?w)(1 \<mapsto> \<lparr>a_node = 1, a_num = 1, a_queued = True\<rparr>)\<rparr>)" (is "mutex_step _ ?v")
    using lock_waits by (intro lock_pending [where cx = 9 and ws = "[]"]) (simp add: mutex_world_def)
  then have "mutex_step\<^sup>*\<^sup>* (mutex_world 5 2 {#}) ?v" using mutex_world_locked by (meson rtranclp.rtrancl_into_rtrancl)
  from mutex_unlock_is_fair [OF conjunct1 [OF mutex_world_locked] this, of MutexGuard "[]" 1 9 0]
  show ?thesis by (simp add: mutex_world_def) blast
qed

end
