(* ===== verification/Rw_Lock.thy ===== *)
theory Rw_Lock
  imports Permit_Guards
begin

text \<open>
  \<open>sync/rwlock\<close>: a semaphore with \<open>mr\<close> permits; a reader takes one, a writer all. Each guard of the
  six files is a constructor here (plain or owned); guards carry the permits that their \<open>Drop\<close> gives
  back. The arithmetic of \<open>downgrade\<close> is checked, as in a debug build.
\<close>

section \<open>Operations\<close>

record 'a rwlock =
  rw_mr :: usize
  rw_s :: sem
  rw_c :: 'a

datatype rw_guard =
    RwLockReadGuard
  | OwnedRwLockReadGuard
  | RwLockWriteGuard usize
  | OwnedRwLockWriteGuard usize
  | RwLockMappedWriteGuard usize
  | OwnedRwLockMappedWriteGuard usize

definition MAX_READS :: usize where "MAX_READS = ucast (drop_bit 3 (- 1 :: u32))"

definition rwlock_new :: "'a \<Rightarrow> 'a rwlock outcome" where
  "rwlock_new v = and_then (sem_new MAX_READS) (\<lambda>s. Inr \<lparr>rw_mr = MAX_READS, rw_s = s, rw_c = v\<rparr>)"

definition rwlock_with_max_readers :: "'a \<Rightarrow> usize \<Rightarrow> 'a rwlock outcome" where
  "rwlock_with_max_readers v max_reads =
     and_then (ensure (max_reads \<le> MAX_READS) AssertFailed) (\<lambda>_.
     and_then (sem_new max_reads) (\<lambda>s. Inr \<lparr>rw_mr = max_reads, rw_s = s, rw_c = v\<rparr>))"

text \<open>The part that \<open>read\<close>, \<open>read_owned\<close>, \<open>write\<close> and \<open>write_owned\<close> share: acquire, and no error.\<close>

definition rwlock_acquire ::
    "waker \<Rightarrow> nat \<Rightarrow> usize \<Rightarrow> rw_guard \<Rightarrow> acquire option \<Rightarrow> 'a rwlock \<Rightarrow>
     (rw_guard poll \<times> acquire \<times> 'a rwlock \<times> waker list) outcome option" where
  "rwlock_acquire cx i n g fut l =
     map_option (\<lambda>o1. and_then o1 (\<lambda>(r, a, s, ws).
        case r of Pending \<Rightarrow> Inr (Pending, a, l\<lparr>rw_s := s\<rparr>, ws)
        | Ready True \<Rightarrow> Inr (Ready g, a, l\<lparr>rw_s := s\<rparr>, ws)
        | Ready False \<Rightarrow> Inl Unreachable))
       (acquire_async cx i n fut (rw_s l))"

definition rwlock_read ::
    "waker \<Rightarrow> nat \<Rightarrow> acquire option \<Rightarrow> 'a rwlock \<Rightarrow> (rw_guard poll \<times> acquire \<times> 'a rwlock \<times> waker list) outcome option" where
  "rwlock_read cx i fut l = rwlock_acquire cx i 1 RwLockReadGuard fut l"

definition rwlock_read_owned ::
    "waker \<Rightarrow> nat \<Rightarrow> acquire option \<Rightarrow> 'a rwlock \<Rightarrow> (rw_guard poll \<times> acquire \<times> 'a rwlock \<times> waker list) outcome option" where
  "rwlock_read_owned cx i fut l = rwlock_acquire cx i 1 OwnedRwLockReadGuard fut l"

definition rwlock_write ::
    "waker \<Rightarrow> nat \<Rightarrow> acquire option \<Rightarrow> 'a rwlock \<Rightarrow> (rw_guard poll \<times> acquire \<times> 'a rwlock \<times> waker list) outcome option" where
  "rwlock_write cx i fut l = rwlock_acquire cx i (rw_mr l) (RwLockWriteGuard (rw_mr l)) fut l"

definition rwlock_write_owned ::
    "waker \<Rightarrow> nat \<Rightarrow> acquire option \<Rightarrow> 'a rwlock \<Rightarrow> (rw_guard poll \<times> acquire \<times> 'a rwlock \<times> waker list) outcome option" where
  "rwlock_write_owned cx i fut l = rwlock_acquire cx i (rw_mr l) (OwnedRwLockWriteGuard (rw_mr l)) fut l"

text \<open>The \<open>try_\<close> operations; \<open>None\<close> is \<open>Err(TryLockError)\<close>.\<close>

definition rwlock_try :: "usize \<Rightarrow> rw_guard \<Rightarrow> 'a rwlock \<Rightarrow> (rw_guard option \<times> 'a rwlock) outcome" where
  "rwlock_try n g l =
     and_then (try_acquire n (rw_s l)) (\<lambda>(r, s).
       case r of Inr _ \<Rightarrow> Inr (Some g, l\<lparr>rw_s := s\<rparr>)
       | Inl AcqNoPermits \<Rightarrow> Inr (None, l\<lparr>rw_s := s\<rparr>)
       | Inl AcqClosed \<Rightarrow> Inl Unreachable)"

definition rwlock_try_read :: "'a rwlock \<Rightarrow> (rw_guard option \<times> 'a rwlock) outcome" where
  "rwlock_try_read l = rwlock_try 1 RwLockReadGuard l"

definition rwlock_try_read_owned :: "'a rwlock \<Rightarrow> (rw_guard option \<times> 'a rwlock) outcome" where
  "rwlock_try_read_owned l = rwlock_try 1 OwnedRwLockReadGuard l"

definition rwlock_try_write :: "'a rwlock \<Rightarrow> (rw_guard option \<times> 'a rwlock) outcome" where
  "rwlock_try_write l = rwlock_try (rw_mr l) (RwLockWriteGuard (rw_mr l)) l"

definition rwlock_try_write_owned :: "'a rwlock \<Rightarrow> (rw_guard option \<times> 'a rwlock) outcome" where
  "rwlock_try_write_owned l = rwlock_try (rw_mr l) (OwnedRwLockWriteGuard (rw_mr l)) l"

definition rwlock_into_inner :: "'a rwlock \<Rightarrow> 'a" where
  "rwlock_into_inner l = rw_c l"

text \<open>\<open>Drop\<close>, for each kind of guard.\<close>

definition rw_release :: "usize \<Rightarrow> 'a rwlock \<Rightarrow> ('a rwlock \<times> waker list) outcome option" where
  "rw_release n l = map_option (\<lambda>o1. and_then o1 (\<lambda>(s, ws). Inr (l\<lparr>rw_s := s\<rparr>, ws))) (release n (rw_s l))"

definition read_guard_drop :: "'a rwlock \<Rightarrow> ('a rwlock \<times> waker list) outcome option" where
  "read_guard_drop l = rw_release 1 l"

definition owned_read_guard_drop :: "'a rwlock \<Rightarrow> ('a rwlock \<times> waker list) outcome option" where
  "owned_read_guard_drop l = rw_release 1 l"

definition write_guard_drop :: "usize \<Rightarrow> 'a rwlock \<Rightarrow> ('a rwlock \<times> waker list) outcome option" where
  "write_guard_drop permits_acquired l = rw_release permits_acquired l"

definition owned_write_guard_drop :: "usize \<Rightarrow> 'a rwlock \<Rightarrow> ('a rwlock \<times> waker list) outcome option" where
  "owned_write_guard_drop permits_acquired l = rw_release permits_acquired l"

definition mapped_write_guard_drop :: "usize \<Rightarrow> 'a rwlock \<Rightarrow> ('a rwlock \<times> waker list) outcome option" where
  "mapped_write_guard_drop permits_acquired l = rw_release permits_acquired l"

definition owned_mapped_write_guard_drop :: "usize \<Rightarrow> 'a rwlock \<Rightarrow> ('a rwlock \<times> waker list) outcome option" where
  "owned_mapped_write_guard_drop permits_acquired l = rw_release permits_acquired l"

fun rw_guard_drop :: "rw_guard \<Rightarrow> 'a rwlock \<Rightarrow> ('a rwlock \<times> waker list) outcome option" where
  "rw_guard_drop RwLockReadGuard l = read_guard_drop l"
| "rw_guard_drop OwnedRwLockReadGuard l = owned_read_guard_drop l"
| "rw_guard_drop (RwLockWriteGuard n) l = write_guard_drop n l"
| "rw_guard_drop (OwnedRwLockWriteGuard n) l = owned_write_guard_drop n l"
| "rw_guard_drop (RwLockMappedWriteGuard n) l = mapped_write_guard_drop n l"
| "rw_guard_drop (OwnedRwLockMappedWriteGuard n) l = owned_mapped_write_guard_drop n l"

fun rw_permits :: "rw_guard \<Rightarrow> usize" where
  "rw_permits RwLockReadGuard = 1"
| "rw_permits OwnedRwLockReadGuard = 1"
| "rw_permits (RwLockWriteGuard n) = n"
| "rw_permits (OwnedRwLockWriteGuard n) = n"
| "rw_permits (RwLockMappedWriteGuard n) = n"
| "rw_permits (OwnedRwLockMappedWriteGuard n) = n"

lemma rw_guard_drop_release: "rw_guard_drop g l = rw_release (rw_permits g) l"
  by (cases g) (simp_all add: read_guard_drop_def owned_read_guard_drop_def write_guard_drop_def owned_write_guard_drop_def
      mapped_write_guard_drop_def owned_mapped_write_guard_drop_def)

text \<open>
  \<open>map\<close>, \<open>try_map\<close> with a closure that finds a place (\<open>ok\<close>; \<open>Inl\<close> gives the guard back), and \<open>into_mapped\<close>.
  The old guard is forgotten, not dropped. The place a mapped guard points to is left out.
\<close>

definition read_guard_map :: rw_guard where "read_guard_map = RwLockReadGuard"

definition owned_read_guard_map :: rw_guard where "owned_read_guard_map = OwnedRwLockReadGuard"

definition write_guard_map :: "usize \<Rightarrow> rw_guard" where
  "write_guard_map permits_acquired = RwLockMappedWriteGuard permits_acquired"

definition owned_write_guard_map :: "usize \<Rightarrow> rw_guard" where
  "owned_write_guard_map permits_acquired = OwnedRwLockMappedWriteGuard permits_acquired"

definition mapped_write_guard_map :: "usize \<Rightarrow> rw_guard" where
  "mapped_write_guard_map permits_acquired = RwLockMappedWriteGuard permits_acquired"

definition owned_mapped_write_guard_map :: "usize \<Rightarrow> rw_guard" where
  "owned_mapped_write_guard_map permits_acquired = OwnedRwLockMappedWriteGuard permits_acquired"

definition read_guard_try_map :: "bool \<Rightarrow> rw_guard + rw_guard" where
  "read_guard_try_map ok = (if ok then Inr RwLockReadGuard else Inl RwLockReadGuard)"

definition owned_read_guard_try_map :: "bool \<Rightarrow> rw_guard + rw_guard" where
  "owned_read_guard_try_map ok = (if ok then Inr OwnedRwLockReadGuard else Inl OwnedRwLockReadGuard)"

definition write_guard_try_map :: "bool \<Rightarrow> usize \<Rightarrow> rw_guard + rw_guard" where
  "write_guard_try_map ok n = (if ok then Inr (RwLockMappedWriteGuard n) else Inl (RwLockWriteGuard n))"

definition owned_write_guard_try_map :: "bool \<Rightarrow> usize \<Rightarrow> rw_guard + rw_guard" where
  "owned_write_guard_try_map ok n = (if ok then Inr (OwnedRwLockMappedWriteGuard n) else Inl (OwnedRwLockWriteGuard n))"

definition mapped_write_guard_try_map :: "bool \<Rightarrow> usize \<Rightarrow> rw_guard + rw_guard" where
  "mapped_write_guard_try_map ok n = (if ok then Inr (RwLockMappedWriteGuard n) else Inl (RwLockMappedWriteGuard n))"

definition owned_mapped_write_guard_try_map :: "bool \<Rightarrow> usize \<Rightarrow> rw_guard + rw_guard" where
  "owned_mapped_write_guard_try_map ok n = (if ok then Inr (OwnedRwLockMappedWriteGuard n) else Inl (OwnedRwLockMappedWriteGuard n))"

definition write_guard_into_mapped :: "usize \<Rightarrow> rw_guard" where
  "write_guard_into_mapped permits_acquired = write_guard_map permits_acquired"

definition owned_write_guard_into_mapped :: "usize \<Rightarrow> rw_guard" where
  "owned_write_guard_into_mapped permits_acquired = owned_write_guard_map permits_acquired"

fun rw_guard_map :: "rw_guard \<Rightarrow> rw_guard" where
  "rw_guard_map RwLockReadGuard = read_guard_map"
| "rw_guard_map OwnedRwLockReadGuard = owned_read_guard_map"
| "rw_guard_map (RwLockWriteGuard n) = write_guard_map n"
| "rw_guard_map (OwnedRwLockWriteGuard n) = owned_write_guard_map n"
| "rw_guard_map (RwLockMappedWriteGuard n) = mapped_write_guard_map n"
| "rw_guard_map (OwnedRwLockMappedWriteGuard n) = owned_mapped_write_guard_map n"

fun rw_guard_try_map :: "bool \<Rightarrow> rw_guard \<Rightarrow> rw_guard + rw_guard" where
  "rw_guard_try_map ok RwLockReadGuard = read_guard_try_map ok"
| "rw_guard_try_map ok OwnedRwLockReadGuard = owned_read_guard_try_map ok"
| "rw_guard_try_map ok (RwLockWriteGuard n) = write_guard_try_map ok n"
| "rw_guard_try_map ok (OwnedRwLockWriteGuard n) = owned_write_guard_try_map ok n"
| "rw_guard_try_map ok (RwLockMappedWriteGuard n) = mapped_write_guard_try_map ok n"
| "rw_guard_try_map ok (OwnedRwLockMappedWriteGuard n) = owned_mapped_write_guard_try_map ok n"

fun rw_guard_into_mapped :: "rw_guard \<Rightarrow> rw_guard option" where
  "rw_guard_into_mapped (RwLockWriteGuard n) = Some (write_guard_into_mapped n)"
| "rw_guard_into_mapped (OwnedRwLockWriteGuard n) = Some (owned_write_guard_into_mapped n)"
| "rw_guard_into_mapped _ = None"

lemmas rw_map_defs = read_guard_map_def owned_read_guard_map_def write_guard_map_def owned_write_guard_map_def
  mapped_write_guard_map_def owned_mapped_write_guard_map_def read_guard_try_map_def owned_read_guard_try_map_def
  write_guard_try_map_def owned_write_guard_try_map_def mapped_write_guard_try_map_def owned_mapped_write_guard_try_map_def
  write_guard_into_mapped_def owned_write_guard_into_mapped_def

definition write_guard_downgrade :: "usize \<Rightarrow> 'a rwlock \<Rightarrow> (rw_guard \<times> 'a rwlock \<times> waker list) outcome option" where
  "write_guard_downgrade n l =
     (if n = 0 then Some (Inl ArithOverflow)
      else map_option (\<lambda>o1. and_then o1 (\<lambda>(s, ws). Inr (RwLockReadGuard, l\<lparr>rw_s := s\<rparr>, ws))) (release (n - 1) (rw_s l)))"

definition owned_write_guard_downgrade :: "usize \<Rightarrow> 'a rwlock \<Rightarrow> (rw_guard \<times> 'a rwlock \<times> waker list) outcome option" where
  "owned_write_guard_downgrade n l =
     (if n = 0 then Some (Inl ArithOverflow)
      else map_option (\<lambda>o1. and_then o1 (\<lambda>(s, ws). Inr (OwnedRwLockReadGuard, l\<lparr>rw_s := s\<rparr>, ws))) (release (n - 1) (rw_s l)))"

fun rw_guard_downgrade :: "rw_guard \<Rightarrow> 'a rwlock \<Rightarrow> (rw_guard \<times> 'a rwlock \<times> waker list) outcome option" where
  "rw_guard_downgrade (RwLockWriteGuard n) l = write_guard_downgrade n l"
| "rw_guard_downgrade (OwnedRwLockWriteGuard n) l = owned_write_guard_downgrade n l"
| "rw_guard_downgrade g l = Some (Inl Unreachable)"

lemmas downgrade_defs = write_guard_downgrade_def owned_write_guard_downgrade_def

fun is_writer :: "rw_guard \<Rightarrow> bool" where
  "is_writer RwLockReadGuard = False"
| "is_writer OwnedRwLockReadGuard = False"
| "is_writer _ = True"

fun can_downgrade :: "rw_guard \<Rightarrow> bool" where
  "can_downgrade (RwLockWriteGuard _) = True"
| "can_downgrade (OwnedRwLockWriteGuard _) = True"
| "can_downgrade _ = False"

section \<open>A lock in use\<close>

record 'a rwlock_use =
  ru_lock :: "'a rwlock"
  ru_futs :: "nat \<Rightarrow> acquire option"
  ru_guards :: "rw_guard multiset"

text \<open>The guard that the future numbered \<open>i\<close> will return is fixed by the call that made the future.\<close>

inductive rwlock_step :: "(nat \<Rightarrow> bool) \<Rightarrow> 'a rwlock_use \<Rightarrow> 'a rwlock_use \<Rightarrow> bool" for writes where
  read_ready: "\<not> writes i \<Longrightarrow> rwlock_read cx i (ru_futs w i) (ru_lock w) = Some (Inr (Ready g, a, l, ws)) \<or>
     rwlock_read_owned cx i (ru_futs w i) (ru_lock w) = Some (Inr (Ready g, a, l, ws)) \<Longrightarrow>
     rwlock_step writes w (w\<lparr>ru_lock := l, ru_futs := (ru_futs w)(i := None), ru_guards := add_mset g (ru_guards w)\<rparr>)"
| read_pending: "\<not> writes i \<Longrightarrow> rwlock_read cx i (ru_futs w i) (ru_lock w) = Some (Inr (Pending, a, l, ws)) \<or>
     rwlock_read_owned cx i (ru_futs w i) (ru_lock w) = Some (Inr (Pending, a, l, ws)) \<Longrightarrow>
     rwlock_step writes w (w\<lparr>ru_lock := l, ru_futs := (ru_futs w)(i \<mapsto> a)\<rparr>)"
| write_ready: "writes i \<Longrightarrow> rwlock_write cx i (ru_futs w i) (ru_lock w) = Some (Inr (Ready g, a, l, ws)) \<or>
     rwlock_write_owned cx i (ru_futs w i) (ru_lock w) = Some (Inr (Ready g, a, l, ws)) \<Longrightarrow>
     rwlock_step writes w (w\<lparr>ru_lock := l, ru_futs := (ru_futs w)(i := None), ru_guards := add_mset g (ru_guards w)\<rparr>)"
| write_pending: "writes i \<Longrightarrow> rwlock_write cx i (ru_futs w i) (ru_lock w) = Some (Inr (Pending, a, l, ws)) \<or>
     rwlock_write_owned cx i (ru_futs w i) (ru_lock w) = Some (Inr (Pending, a, l, ws)) \<Longrightarrow>
     rwlock_step writes w (w\<lparr>ru_lock := l, ru_futs := (ru_futs w)(i \<mapsto> a)\<rparr>)"
| rw_cancelled: "ru_futs w i = Some a \<Longrightarrow> acquire_drop a (rw_s (ru_lock w)) = Some (Inr (s, ws)) \<Longrightarrow>
     rwlock_step writes w (w\<lparr>ru_lock := (ru_lock w)\<lparr>rw_s := s\<rparr>, ru_futs := (ru_futs w)(i := None)\<rparr>)"
| rw_try: "t \<in> {rwlock_try_read, rwlock_try_read_owned, rwlock_try_write, rwlock_try_write_owned} \<Longrightarrow>
     t (ru_lock w) = Inr (r, l) \<Longrightarrow>
     rwlock_step writes w (w\<lparr>ru_lock := l, ru_guards := (case r of None \<Rightarrow> ru_guards w | Some g \<Rightarrow> add_mset g (ru_guards w))\<rparr>)"
| rw_mapped: "g \<in># ru_guards w \<Longrightarrow> g' = rw_guard_map g \<or> rw_guard_try_map b g \<in> {Inl g', Inr g'} \<or> rw_guard_into_mapped g = Some g' \<Longrightarrow>
     rwlock_step writes w (w\<lparr>ru_guards := add_mset g' (ru_guards w - {#g#})\<rparr>)"
| rw_written: "g \<in># ru_guards w \<Longrightarrow> is_writer g \<Longrightarrow>
     rwlock_step writes w (w\<lparr>ru_lock := (ru_lock w)\<lparr>rw_c := c\<rparr>\<rparr>)"
| rw_downgraded: "g \<in># ru_guards w \<Longrightarrow> rw_guard_downgrade g (ru_lock w) = Some (Inr (g', l, ws)) \<Longrightarrow>
     rwlock_step writes w (w\<lparr>ru_lock := l, ru_guards := add_mset g' (ru_guards w - {#g#})\<rparr>)"
| rw_dropped: "g \<in># ru_guards w \<Longrightarrow> rw_guard_drop g (ru_lock w) = Some (Inr (l, ws)) \<Longrightarrow>
     rwlock_step writes w (w\<lparr>ru_lock := l, ru_guards := ru_guards w - {#g#}\<rparr>)"

definition rwlock_pool :: "'a rwlock_use \<Rightarrow> pool" where
  "rwlock_pool w = guard_pool rw_permits (unat (rw_mr (ru_lock w))) (rw_s (ru_lock w)) (ru_futs w) (ru_guards w)"

inductive rwlock_start :: "usize \<Rightarrow> 'a rwlock_use \<Rightarrow> bool" where
  "rwlock_with_max_readers v n = Inr l \<Longrightarrow>
     rwlock_start n \<lparr>ru_lock = l, ru_futs = (\<lambda>_. None), ru_guards = {#}\<rparr>"

text \<open>Futures ask for the permits of their call, and writers hold all permits of the lock.\<close>

definition rwlock_inv :: "(nat \<Rightarrow> bool) \<Rightarrow> usize \<Rightarrow> 'a rwlock_use \<Rightarrow> bool" where
  "rwlock_inv writes n w \<longleftrightarrow>
     rw_mr (ru_lock w) = n \<and> n < MAX_PERMIT \<and>
     (\<forall>i a. ru_futs w i = Some a \<longrightarrow> a_num a = (if writes i then n else 1)) \<and>
     (\<forall>g \<in># ru_guards w. is_writer g \<longrightarrow> rw_permits g = n)"

lemma MAX_READS_eq: "unat MAX_READS = 2 ^ 29 - 1"
  by (simp add: MAX_READS_def mask_eq_exp_minus_1 unsigned_ucast_eq take_bit_eq_mod)

lemma one_read: "1 < MAX_PERMIT" by (simp add: less_MAX_PERMIT)

lemma rwlock_acquire_async:
  assumes "rwlock_acquire cx i n g fut l = Some (Inr (r, a, l', ws))"
  shows "\<exists>s. acquire_async cx i n fut (rw_s l) =
             Some (Inr (case r of Pending \<Rightarrow> Pending | Ready _ \<Rightarrow> Ready True, a, s, ws)) \<and> l' = l\<lparr>rw_s := s\<rparr> \<and>
             (r = Pending \<or> r = Ready g)"
proof -
  from assms obtain x where x: "acquire_async cx i n fut (rw_s l) = Some (Inr x)" and
    f: "(case x of (r', a', s, ws') \<Rightarrow>
        case r' of Pending \<Rightarrow> Inr (Pending, a', l\<lparr>rw_s := s\<rparr>, ws')
        | Ready True \<Rightarrow> Inr (Ready g, a', l\<lparr>rw_s := s\<rparr>, ws')
        | Ready False \<Rightarrow> Inl Unreachable) = Inr (r, a, l', ws)"
    by (auto simp only: rwlock_acquire_def map_option_eq_Some and_then_eq_Inr)
  obtain r' a' s ws' where "x = (r', a', s, ws')" by (cases x)
  with x f show ?thesis by (cases r' rule: poll_bool_cases) auto
qed

text \<open>What a poll of any of the four futures does to the pool.\<close>

lemma rwlock_async:
  assumes inv: "rwlock_inv writes n w" "pool_inv (rwlock_pool w)"
    and k: "k = (if writes i then n else 1)" and g: "rw_permits g = k"
    and run: "rwlock_acquire cx i k g (ru_futs w i) (ru_lock w) = Some (Inr (r, a, l, ws))"
  shows "r = Ready g' \<Longrightarrow> g' = g \<and> rw_mr l = rw_mr (ru_lock w) \<and> pool_op\<^sup>*\<^sup>* (rwlock_pool w)
           (rwlock_pool (w\<lparr>ru_lock := l, ru_futs := (ru_futs w)(i := None), ru_guards := add_mset g (ru_guards w)\<rparr>))"
    and "r = Pending \<Longrightarrow> rw_mr l = rw_mr (ru_lock w) \<and>
           pool_op\<^sup>*\<^sup>* (rwlock_pool w) (rwlock_pool (w\<lparr>ru_lock := l, ru_futs := (ru_futs w)(i \<mapsto> a)\<rparr>))"
    and "a_num a = k"
proof -
  from rwlock_acquire_async [OF run] obtain s where
    as: "acquire_async cx i k (ru_futs w i) (rw_s (ru_lock w)) =
             Some (Inr (case r of Pending \<Rightarrow> Pending | Ready _ \<Rightarrow> Ready True, a, s, ws))"
    and l: "l = (ru_lock w)\<lparr>rw_s := s\<rparr>" and r: "r = Pending \<or> r = Ready g" by auto
  have k_less: "k < MAX_PERMIT" and num: "ru_futs w i = Some b \<Longrightarrow> a_num b = k" for b
    using inv(1) k one_read by (auto simp: rwlock_inv_def)
  note ga = guard_async [OF inv(2) [unfolded rwlock_pool_def] k_less num as]
  show "a_num a = k" using ga(4) by simp
  show "r = Ready g' \<Longrightarrow> g' = g \<and> rw_mr l = rw_mr (ru_lock w) \<and> pool_op\<^sup>*\<^sup>* (rwlock_pool w)
           (rwlock_pool (w\<lparr>ru_lock := l, ru_futs := (ru_futs w)(i := None), ru_guards := add_mset g (ru_guards w)\<rparr>))"
    using ga(1) [of g] g l r by (auto simp: rwlock_pool_def)
  show "r = Pending \<Longrightarrow> rw_mr l = rw_mr (ru_lock w) \<and>
           pool_op\<^sup>*\<^sup>* (rwlock_pool w) (rwlock_pool (w\<lparr>ru_lock := l, ru_futs := (ru_futs w)(i \<mapsto> a)\<rparr>))"
    using ga(2) l by (simp add: rwlock_pool_def)
qed

lemma rwlock_try_cases:
  assumes "t \<in> {rwlock_try_read, rwlock_try_read_owned, rwlock_try_write, rwlock_try_write_owned}" "t l = Inr (r, l')"
  shows "\<exists>g s. (is_writer g \<longrightarrow> rw_permits g = rw_mr l) \<and> l' = l\<lparr>rw_s := s\<rparr> \<and>
           (r = Some g \<and> try_acquire (rw_permits g) (rw_s l) = Inr (Inr (), s) \<or>
            r = None \<and> try_acquire (rw_permits g) (rw_s l) = Inr (Inl AcqNoPermits, s))"
proof -
  have "\<exists>g. (is_writer g \<longrightarrow> rw_permits g = rw_mr l) \<and> rwlock_try (rw_permits g) g l = Inr (r, l')"
    using assms
    by (auto simp: rwlock_try_read_def rwlock_try_read_owned_def rwlock_try_write_def rwlock_try_write_owned_def
        intro: exI [of _ RwLockReadGuard] exI [of _ OwnedRwLockReadGuard] exI [of _ "RwLockWriteGuard (rw_mr l)"]
          exI [of _ "OwnedRwLockWriteGuard (rw_mr l)"])
  then obtain g where g: "is_writer g \<longrightarrow> rw_permits g = rw_mr l" and t: "rwlock_try (rw_permits g) g l = Inr (r, l')"
    by blast
  from t obtain q s where "try_acquire (rw_permits g) (rw_s l) = Inr (q, s)"
    "(case q of Inr _ \<Rightarrow> Inr (Some g, l\<lparr>rw_s := s\<rparr>) | Inl AcqNoPermits \<Rightarrow> Inr (None, l\<lparr>rw_s := s\<rparr>)
      | Inl AcqClosed \<Rightarrow> Inl Unreachable) = Inr (r, l')"
    by (auto simp only: rwlock_try_def and_then_eq_Inr prod.case split: prod.split_asm)
  with g show ?thesis
    by (intro exI [of _ g] exI [of _ s]) (auto split: sum.split_asm TryAcquireError.split_asm)
qed

lemma rw_mapped_same:
  assumes "g' = rw_guard_map g \<or> rw_guard_try_map b g \<in> {Inl g', Inr g'} \<or> rw_guard_into_mapped g = Some g'"
  shows "rw_permits g' = rw_permits g" "is_writer g' = is_writer g"
  using assms by (cases g; auto simp: rw_map_defs split: if_splits)+

lemma rw_downgrade_release:
  assumes "rw_guard_downgrade g l = Some (Inr (g', l', ws))"
  shows "\<exists>s. release (rw_permits g - 1) (rw_s l) = Some (Inr (s, ws)) \<and> l' = l\<lparr>rw_s := s\<rparr> \<and>
           rw_permits g' = 1 \<and> \<not> is_writer g' \<and> rw_permits g \<noteq> 0 \<and> is_writer g"
  using assms by (cases g) (auto simp: downgrade_defs and_then_eq_Inr split: if_splits)

text \<open>Every step is made of semaphore calls and keeps the invariant.\<close>

definition rwlock_keeps :: "(nat \<Rightarrow> bool) \<Rightarrow> usize \<Rightarrow> 'a rwlock_use \<Rightarrow> 'a rwlock_use \<Rightarrow> bool" where
  "rwlock_keeps writes n w w' \<longleftrightarrow> rwlock_inv writes n w' \<and> pool_op\<^sup>*\<^sup>* (rwlock_pool w) (rwlock_pool w')"

lemma rwlock_poll_ready:
  assumes inv: "rwlock_inv writes n w" "pool_inv (rwlock_pool w)"
    and k: "k = (if writes i then n else 1)" "rw_permits g0 = k" "is_writer g0 = writes i"
    and run: "rwlock_acquire cx i k g0 (ru_futs w i) (ru_lock w) = Some (Inr (Ready g, a, l, ws))"
  shows "rwlock_keeps writes n w (w\<lparr>ru_lock := l, ru_futs := (ru_futs w)(i := None), ru_guards := add_mset g (ru_guards w)\<rparr>)"
  using rwlock_async(1) [OF inv k(1,2) run refl] inv(1) k
  by (auto simp: rwlock_keeps_def rwlock_inv_def)

lemma rwlock_poll_pending:
  assumes inv: "rwlock_inv writes n w" "pool_inv (rwlock_pool w)"
    and k: "k = (if writes i then n else 1)" "rw_permits g0 = k"
    and run: "rwlock_acquire cx i k g0 (ru_futs w i) (ru_lock w) = Some (Inr (Pending, a, l, ws))"
  shows "rwlock_keeps writes n w (w\<lparr>ru_lock := l, ru_futs := (ru_futs w)(i \<mapsto> a)\<rparr>)"
  using rwlock_async(2,3) [OF inv k run] inv(1) k
  by (auto simp: rwlock_keeps_def rwlock_inv_def)

lemma rwlock_step_ops:
  "rwlock_step writes w w' \<Longrightarrow> rwlock_inv writes n w \<Longrightarrow> pool_inv (rwlock_pool w) \<Longrightarrow> rwlock_keeps writes n w w'"
proof (induction rule: rwlock_step.induct)
  case (read_ready i cx w g a l ws)
  then show ?case
    using rwlock_poll_ready [OF read_ready(3,4), of 1 i RwLockReadGuard cx g a l ws]
      rwlock_poll_ready [OF read_ready(3,4), of 1 i OwnedRwLockReadGuard cx g a l ws]
    by (auto simp: rwlock_read_def rwlock_read_owned_def)
next
  case (read_pending i cx w a l ws)
  then show ?case
    using rwlock_poll_pending [OF read_pending(3,4), of 1 i RwLockReadGuard cx a l ws]
      rwlock_poll_pending [OF read_pending(3,4), of 1 i OwnedRwLockReadGuard cx a l ws]
    by (auto simp: rwlock_read_def rwlock_read_owned_def)
next
  case (write_ready i cx w g a l ws)
  then have "rw_mr (ru_lock w) = n" by (simp add: rwlock_inv_def)
  with write_ready show ?case
    using rwlock_poll_ready [OF write_ready(3,4), of n i "RwLockWriteGuard n" cx g a l ws]
      rwlock_poll_ready [OF write_ready(3,4), of n i "OwnedRwLockWriteGuard n" cx g a l ws]
    by (auto simp: rwlock_write_def rwlock_write_owned_def)
next
  case (write_pending i cx w a l ws)
  then have "rw_mr (ru_lock w) = n" by (simp add: rwlock_inv_def)
  with write_pending show ?case
    using rwlock_poll_pending [OF write_pending(3,4), of n i "RwLockWriteGuard n" cx a l ws]
      rwlock_poll_pending [OF write_pending(3,4), of n i "OwnedRwLockWriteGuard n" cx a l ws]
    by (auto simp: rwlock_write_def rwlock_write_owned_def)
next
  case (rw_cancelled w i a s ws)
  from guard_drop_future [where futs = "ru_futs w" and i = i and wt = rw_permits
      and tot = "unat (rw_mr (ru_lock w))" and gs = "ru_guards w", OF rw_cancelled(1,2)] rw_cancelled(3)
  show ?case by (auto simp: rwlock_keeps_def rwlock_inv_def rwlock_pool_def)
next
  case (rw_try t w r l)
  from rwlock_try_cases [OF rw_try(1,2)] obtain g s where
    g: "is_writer g \<longrightarrow> rw_permits g = rw_mr (ru_lock w)" and l: "l = (ru_lock w)\<lparr>rw_s := s\<rparr>" and
    r: "r = Some g \<and> try_acquire (rw_permits g) (rw_s (ru_lock w)) = Inr (Inr (), s) \<or>
        r = None \<and> try_acquire (rw_permits g) (rw_s (ru_lock w)) = Inr (Inl AcqNoPermits, s)" by blast
  from r show ?case
  proof
    assume t: "r = Some g \<and> try_acquire (rw_permits g) (rw_s (ru_lock w)) = Inr (Inr (), s)"
    from guard_try(1) [where wt = rw_permits and g = g and tot = "unat (rw_mr (ru_lock w))" and futs = "ru_futs w"
        and gs = "ru_guards w", OF conjunct2 [OF t] refl refl] t l g rw_try(3)
    show ?thesis by (auto simp: rwlock_keeps_def rwlock_inv_def rwlock_pool_def)
  next
    assume t: "r = None \<and> try_acquire (rw_permits g) (rw_s (ru_lock w)) = Inr (Inl AcqNoPermits, s)"
    from guard_try(2) [where wt = rw_permits and tot = "unat (rw_mr (ru_lock w))" and futs = "ru_futs w"
        and gs = "ru_guards w", OF conjunct2 [OF t] refl] t l g rw_try(3)
    show ?thesis by (auto simp: rwlock_keeps_def rwlock_inv_def rwlock_pool_def)
  qed
next
  case (rw_mapped g w g' b)
  note same = rw_mapped_same [OF rw_mapped(2)]
  then show ?case using guard_swap [OF rw_mapped(1), of rw_permits g'] rw_mapped(1,3) same
    by (auto simp: rwlock_keeps_def rwlock_inv_def rwlock_pool_def dest: in_diffD)
next
  case (rw_written g w c)
  then show ?case by (simp add: rwlock_keeps_def rwlock_inv_def rwlock_pool_def)
next
  case (rw_downgraded g w g' l ws)
  from rw_downgrade_release [OF rw_downgraded(2)] obtain s where
    s: "release (rw_permits g - 1) (rw_s (ru_lock w)) = Some (Inr (s, ws))" "l = (ru_lock w)\<lparr>rw_s := s\<rparr>"
    "rw_permits g' = 1" "\<not> is_writer g'" "rw_permits g \<noteq> 0" by blast
  have "unat (rw_permits g) = unat (rw_permits g - 1) + unat (rw_permits g')"
    using s(3,5) by (simp add: unat_minus_one unat_gt_0)
  from guard_shrink [where wt = rw_permits and tot = "unat (rw_mr (ru_lock w))" and futs = "ru_futs w",
      OF rw_downgraded(1) s(1) this] s rw_downgraded(3)
  show ?case by (auto simp: rwlock_keeps_def rwlock_inv_def rwlock_pool_def dest: in_diffD)
next
  case (rw_dropped g w l ws)
  then obtain s where "release (rw_permits g) (rw_s (ru_lock w)) = Some (Inr (s, ws))" "l = (ru_lock w)\<lparr>rw_s := s\<rparr>"
    by (auto simp: rw_guard_drop_release rw_release_def and_then_eq_Inr)
  from guard_release [where wt = rw_permits and tot = "unat (rw_mr (ru_lock w))" and futs = "ru_futs w",
      OF rw_dropped(1) this(1)] this(2) rw_dropped(3)
  show ?case by (auto simp: rwlock_keeps_def rwlock_inv_def rwlock_pool_def dest: in_diffD)
qed

lemma rwlock_start_pool:
  "rwlock_start n w \<Longrightarrow> rwlock_inv writes n w \<and> pool_inv (rwlock_pool w) \<and> \<not> sem_is_closed (p_sem (rwlock_pool w))"
proof (induction rule: rwlock_start.induct)
  case (1 v n l)
  then obtain s where n: "n \<le> MAX_READS" and s: "sem_new n = Inr s" "l = \<lparr>rw_mr = n, rw_s = s, rw_c = v\<rparr>"
    by (auto simp: rwlock_with_max_readers_def and_then_eq_Inr)
  then show ?case using new_pool_inv [of n s] sem_new_Inr [of n s]
    by (simp add: rwlock_inv_def rwlock_pool_def guard_pool_def less_MAX_PERMIT)
qed

interpretation rwlock_client: open_client "rwlock_start n" "rwlock_step writes" "rwlock_inv writes n" rwlock_pool
  for n writes
  by unfold_locales (auto dest: rwlock_start_pool rwlock_step_ops simp: rwlock_keeps_def)

section \<open>What the lock promises\<close>

definition rw_writers :: "'a rwlock_use \<Rightarrow> nat" where
  "rw_writers w = size (filter_mset is_writer (ru_guards w))"

definition rw_readers :: "'a rwlock_use \<Rightarrow> nat" where
  "rw_readers w = size (filter_mset (\<lambda>g. \<not> is_writer g) (ru_guards w))"

lemma reader_permits: "\<not> is_writer g \<Longrightarrow> rw_permits g = 1"
  by (cases g) auto

lemma rw_held:
  "(\<forall>g \<in># gs. is_writer g \<longrightarrow> rw_permits g = n) \<Longrightarrow>
     (\<Sum>g\<in>#gs. unat (rw_permits g)) =
       size (filter_mset is_writer gs) * unat n + size (filter_mset (\<lambda>g. \<not> is_writer g) gs)"
  by (induction gs) (auto simp: reader_permits)

text \<open>
  C21: A lock made for at least one reader never has a writer next to another writer or to a reader, and
  never more readers than it allows.
\<close>

theorem rwlock_excludes:
  assumes "rwlock_start n w" "(rwlock_step writes)\<^sup>*\<^sup>* w w'" "0 < n"
  shows "rw_writers w' \<le> 1 \<and> (rw_writers w' = 1 \<longrightarrow> rw_readers w' = 0) \<and> rw_readers w' \<le> unat n"
proof -
  have "rw_writers w' * unat n + rw_readers w' \<le> unat n"
    using rwlock_client.client_inv [OF assms(2,1)] rwlock_client.held_le_total [OF assms(2,1)] rw_held [of "ru_guards w'" n]
    by (simp add: rwlock_inv_def rwlock_pool_def rw_writers_def rw_readers_def)
  moreover have "0 < unat n" using assms(3) by (simp add: word_less_nat_alt)
  ultimately show ?thesis
    by (cases "rw_writers w'"; cases "rw_writers w' - 1") auto
qed

text \<open>A run of a lock for one reader: one writer gets it, and downgrades.\<close>

definition rw_world :: "usize \<Rightarrow> usize \<Rightarrow> rw_guard multiset \<Rightarrow> nat rwlock_use" where
  "rw_world n st gs =
     \<lparr>ru_lock = \<lparr>rw_mr = n, rw_s = sem_three\<lparr>s_state := st\<rparr>, rw_c = 5\<rparr>, ru_futs = (\<lambda>_. None), ru_guards = gs\<rparr>"

lemma rw_world_start: "rwlock_start 1 (rw_world 1 2 {#})" "rwlock_start 0 (rw_world 0 0 {#})"
proof -
  have "sem_new 1 = Inr (sem_three\<lparr>s_state := 2\<rparr>)" "sem_new 0 = Inr (sem_three\<lparr>s_state := 0\<rparr>)"
    by (simp_all add: sem_new_def sem_three_def and_then_ensure less_MAX_PERMIT PERMIT_SHIFT_def)
  moreover have "(1 :: usize) \<le> MAX_READS" by (simp add: word_le_nat_alt MAX_READS_eq)
  ultimately show "rwlock_start 1 (rw_world 1 2 {#})" "rwlock_start 0 (rw_world 0 0 {#})"
    using rwlock_start.intros [of 5 1] rwlock_start.intros [of 5 0]
    by (simp_all add: rwlock_with_max_readers_def rw_world_def)
qed

lemma rw_world_write: "(rwlock_step writes)\<^sup>*\<^sup>* (rw_world 1 2 {#}) (rw_world 1 0 {#RwLockWriteGuard 1#})"
proof (rule r_into_rtranclp)
  show "rwlock_step writes (rw_world 1 2 {#}) (rw_world 1 0 {#RwLockWriteGuard 1#})"
  proof -
  have "try_acquire 1 (sem_three\<lparr>s_state := 2\<rparr>) = Inr (Inr (), sem_three\<lparr>s_state := 0\<rparr>)"
    by (simp add: try_acquire_def one_read PERMIT_SHIFT_def run_action_eq try_acquire_action_def sem_three_def SEM_CLOSED_def)
  then have "rwlock_try_write (ru_lock (rw_world 1 2 {#})) = Inr (Some (RwLockWriteGuard 1), ru_lock (rw_world 1 0 {#}))"
    by (simp add: rwlock_try_write_def rwlock_try_def rw_world_def)
  from rw_try [where t = rwlock_try_write and w = "rw_world 1 2 {#}" and writes = writes, OF _ this]
  show ?thesis by (simp add: rw_world_def)
  qed
qed

theorem rwlock_excludes_witness:
  "rw_writers (rw_world 1 0 {#RwLockWriteGuard 1#}) \<le> 1 \<and> rw_readers (rw_world 1 0 {#RwLockWriteGuard 1#}) = 0"
  using rwlock_excludes [OF rw_world_start(1) rw_world_write]
  by (simp add: rw_writers_def rw_readers_def rw_world_def)

text \<open>
  Downgrading the guard of a writer always returns, leaves a reader in its place at once, and no
  other guard exists at that moment.
\<close>

lemma rwlock_downgrade_is_atomic:
  assumes "rwlock_start n w" "(rwlock_step writes)\<^sup>*\<^sup>* w w'" "0 < n" "g \<in># ru_guards w'" "can_downgrade g"
  shows "\<exists>g' l ws. rw_guard_downgrade g (ru_lock w') = Some (Inr (g', l, ws)) \<and> \<not> is_writer g' \<and>
    ru_guards w' - {#g#} = {#} \<and> rw_c l = rw_c (ru_lock w') \<and>
    avail (rw_s l) + assigned (rwlock_pool (w'\<lparr>ru_lock := l, ru_guards := {#g'#}\<rparr>)) + 1 = unat n"
proof -
  note ci = rwlock_client.client_inv [OF assms(2,1)]
  have g: "is_writer g" "rw_permits g = n"
    using assms(4,5) ci by (cases g; force simp: rwlock_inv_def)+
  have n0: "0 < unat n" using assms(3) by (simp add: word_less_nat_alt)
  have "(\<Sum>x\<in>#ru_guards w'. unat (rw_permits x)) \<le> unat n"
    using ci rwlock_client.held_le_total [OF assms(2,1)] by (simp add: rwlock_inv_def rwlock_pool_def)
  then have rest: "(\<Sum>x\<in>#ru_guards w' - {#g#}. unat (rw_permits x)) = 0"
    using sum_remove [OF assms(4), of rw_permits] g(2) by simp
  have "ru_guards w' - {#g#} = {#}"
  proof (rule ccontr)
    assume "ru_guards w' - {#g#} \<noteq> {#}"
    then obtain x where x: "x \<in># ru_guards w' - {#g#}" by auto
    then have "unat (rw_permits x) = 0" using rest sum_remove [OF x, of rw_permits] by simp
    moreover have "rw_permits x = n \<or> rw_permits x = 1"
      using in_diffD [OF x] ci reader_permits by (auto simp: rwlock_inv_def)
    ultimately show False using n0 by auto
  qed
  moreover have "n \<noteq> 0" using assms(3) by (simp add: word_neq_0_conv)
  moreover from guard_release_returns [where wt = rw_permits, OF _ assms(4), of _ _ _ "n - 1"] ci g(2) n0
  obtain s ws where rel: "release (n - 1) (rw_s (ru_lock w')) = Some (Inr (s, ws))"
    unfolding rwlock_pool_def by (metis calculation(2) diff_le_self unat_minus_one)
  ultimately obtain g' where down: "rw_guard_downgrade g (ru_lock w') = Some (Inr (g', (ru_lock w')\<lparr>rw_s := s\<rparr>, ws))"
    using assms(5) g(2) by (cases g) (auto simp: downgrade_defs)
  have "rwlock_step writes w' (w'\<lparr>ru_lock := (ru_lock w')\<lparr>rw_s := s\<rparr>, ru_guards := add_mset g' (ru_guards w' - {#g#})\<rparr>)"
    by (rule rw_downgraded [OF assms(4) down])
  with assms(2) have "(rwlock_step writes)\<^sup>*\<^sup>* w (w'\<lparr>ru_lock := (ru_lock w')\<lparr>rw_s := s\<rparr>, ru_guards := add_mset g' (ru_guards w' - {#g#})\<rparr>)"
    by (rule rtranclp.rtrancl_into_rtrancl)
  from rwlock_client.accounts [OF this assms(1)] rwlock_client.client_inv [OF this assms(1)]
    rw_downgrade_release [OF down] down \<open>ru_guards w' - {#g#} = {#}\<close>
  show ?thesis by (auto simp: rwlock_pool_def rwlock_inv_def)
qed

lemma rwlock_downgrade_is_atomic_witness:
  "\<exists>g' l ws. rw_guard_downgrade (RwLockWriteGuard 1) (ru_lock (rw_world 1 0 {#RwLockWriteGuard 1#})) = Some (Inr (g', l, ws)) \<and>
     \<not> is_writer g'"
  using rwlock_downgrade_is_atomic [OF rw_world_start(1) rw_world_write, of "RwLockWriteGuard 1"]
  by (auto simp: rw_world_def)

text \<open>
  C26: A lock made for zero readers (the constructor accepts it) excludes nobody: two writers hold it
  at the same time.
\<close>

theorem rwlock_zero_readers_admits_two_writers:
  "\<exists>w w' :: nat rwlock_use. rwlock_start 0 w \<and> (rwlock_step (\<lambda>_. True))\<^sup>*\<^sup>* w w' \<and> rw_writers w' = 2"
proof (intro exI conjI)
  let ?g = "RwLockWriteGuard 0"
  show "rwlock_start 0 (rw_world 0 0 {#})" by (rule rw_world_start(2))
  have "try_acquire 0 (sem_three\<lparr>s_state := 0\<rparr>) = Inr (Inr (), sem_three\<lparr>s_state := 0\<rparr>)"
    by (simp add: try_acquire_def less_MAX_PERMIT PERMIT_SHIFT_def run_action_eq try_acquire_action_def sem_three_def SEM_CLOSED_def)
  then have t: "rwlock_try_write (ru_lock (rw_world 0 0 gs)) = Inr (Some ?g, ru_lock (rw_world 0 0 gs))" for gs
    by (simp add: rwlock_try_write_def rwlock_try_def rw_world_def)
  have "rwlock_step (\<lambda>_. True) (rw_world 0 0 gs) (rw_world 0 0 (add_mset ?g gs))" for gs
    using rw_try [where t = rwlock_try_write and w = "rw_world 0 0 gs" and writes = "\<lambda>_. True", OF _ t] by (simp add: rw_world_def)
  then show "(rwlock_step (\<lambda>_. True))\<^sup>*\<^sup>* (rw_world 0 0 {#}) (rw_world 0 0 {#?g, ?g#})"
    by (meson rtranclp.rtrancl_into_rtrancl rtranclp.rtrancl_refl)
  show "rw_writers (rw_world 0 0 {#?g, ?g#}) = 2" by (simp add: rw_writers_def rw_world_def)
qed

end
