(* ===== verification/Once_Cell.thy ===== *)
theory Once_Cell
  imports Semaphore
begin

text \<open>
  \<open>sync/once_cell.rs\<close>: a value set at most once, guarded by a semaphore with one permit that is closed
  when the value is there. \<open>MaybeUninit\<close> is an option: reading it uninitialised is the value \<open>None\<close>,
  which the theorems exclude. The initialiser of \<open>get_or_try_init\<close> is a future of the caller; its
  answer at a poll is an argument, and the async function keeps a \<open>once_state\<close> between its polls.
\<close>

section \<open>Operations\<close>

record 'a once_cell =
  oc_value_set :: bool
  oc_value :: "'a option"
  oc_sem :: sem

datatype 'a SetError = AlreadyInitializedError 'a | InitializingError 'a

definition once_new :: "'a once_cell outcome" where
  "once_new = and_then (semaphore_new 1) (\<lambda>s.
     Inr \<lparr>oc_value_set = False, oc_value = None, oc_sem = s\<rparr>)"

definition once_const_new :: "'a once_cell" where
  "once_const_new = \<lparr>oc_value_set = False, oc_value = None, oc_sem = semaphore_const_new 1\<rparr>"

definition once_from :: "'a \<Rightarrow> 'a once_cell outcome" where
  "once_from v = and_then (semaphore_new 0) (\<lambda>s.
     case semaphore_close s of (s', _) \<Rightarrow> Inr \<lparr>oc_value_set = True, oc_value = Some v, oc_sem = s'\<rparr>)"

definition once_new_with :: "'a option \<Rightarrow> 'a once_cell outcome" where
  "once_new_with value = (case value of Some v \<Rightarrow> once_from v | None \<Rightarrow> once_new)"

definition once_initialized :: "'a once_cell \<Rightarrow> bool" where
  "once_initialized c = oc_value_set c"

definition once_get_unchecked :: "'a once_cell \<Rightarrow> 'a option" where
  "once_get_unchecked c = oc_value c"

definition once_get :: "'a once_cell \<Rightarrow> 'a option" where
  "once_get c = (if once_initialized c then once_get_unchecked c else None)"

definition once_set_value ::
    "'a \<Rightarrow> SemaphorePermit \<Rightarrow> 'a once_cell \<Rightarrow> ('a option \<times> 'a once_cell \<times> waker list) outcome option" where
  "once_set_value v permit c =
     (let c1 = c\<lparr>oc_value := Some v\<rparr>; c2 = c1\<lparr>oc_value_set := True\<rparr> in
      case semaphore_close (oc_sem c2) of (s1, ws1) \<Rightarrow>
      bind_oo (permit_forget permit s1) (\<lambda>(s2, ws2).
        let c3 = c2\<lparr>oc_sem := s2\<rparr> in Some (Inr (once_get_unchecked c3, c3, ws1 @ ws2))))"

definition once_set :: "'a \<Rightarrow> 'a once_cell \<Rightarrow> (('a SetError + unit) \<times> 'a once_cell \<times> waker list) outcome option" where
  "once_set v c =
     (if once_initialized c then Some (Inr (Inl (AlreadyInitializedError v), c, []))
      else
        bind_oo (Some (semaphore_try_acquire (oc_sem c))) (\<lambda>(r, s).
          let c1 = c\<lparr>oc_sem := s\<rparr> in
          case r of
            Inr permit \<Rightarrow>
              bind_oo (Some (ensure (\<not> once_initialized c1) AssertFailed)) (\<lambda>_.
              bind_oo (once_set_value v permit c1) (\<lambda>(_, c2, ws). Some (Inr (Inr (), c2, ws))))
          | Inl AcqNoPermits \<Rightarrow> Some (Inr (Inl (InitializingError v), c1, []))
          | Inl AcqClosed \<Rightarrow> Some (Inr (Inl (AlreadyInitializedError v), c1, []))))"

text \<open>Where a call of \<open>get_or_init\<close> stands: not polled, waiting for the permit, in the initialiser, finished.\<close>

datatype once_state = OnceStart | OnceAcquiring acquire | OnceRunning | OnceDone

definition once_run ::
    "('e + 'a) poll \<Rightarrow> SemaphorePermit \<Rightarrow> 'a once_cell \<Rightarrow>
     (('e + 'a option) poll \<times> once_state \<times> 'a once_cell \<times> waker list) outcome option" where
  "once_run fr permit c =
     (case fr of
        Pending \<Rightarrow> Some (Inr (Pending, OnceRunning, c, []))
      | Ready (Inr v) \<Rightarrow>
          bind_oo (once_set_value v permit c) (\<lambda>(x, c', ws). Some (Inr (Ready (Inr x), OnceDone, c', ws)))
      | Ready (Inl e) \<Rightarrow>
          bind_oo (permit_drop permit (oc_sem c)) (\<lambda>(s, ws).
            Some (Inr (Ready (Inl e), OnceDone, c\<lparr>oc_sem := s\<rparr>, ws))))"

definition once_wait ::
    "waker \<Rightarrow> nat \<Rightarrow> acquire option \<Rightarrow> ('e + 'a) poll \<Rightarrow> 'a once_cell \<Rightarrow>
     (('e + 'a option) poll \<times> once_state \<times> 'a once_cell \<times> waker list) outcome option" where
  "once_wait cx i fut fr c =
     bind_oo (semaphore_acquire cx i fut (oc_sem c)) (\<lambda>(r, a, s, ws).
       let c1 = c\<lparr>oc_sem := s\<rparr> in
       case r of
         Pending \<Rightarrow> Some (Inr (Pending, OnceAcquiring a, c1, ws))
       | Ready (Inr permit) \<Rightarrow>
           bind_oo (Some (ensure (\<not> once_initialized c1) AssertFailed)) (\<lambda>_.
           bind_oo (once_run fr permit c1) (\<lambda>(x, st, c2, ws2). Some (Inr (x, st, c2, ws @ ws2))))
       | Ready (Inl _) \<Rightarrow>
           bind_oo (Some (ensure (once_initialized c1) AssertFailed)) (\<lambda>_.
             Some (Inr (Ready (Inr (once_get_unchecked c1)), OnceDone, c1, ws))))"

definition get_or_try_init ::
    "waker \<Rightarrow> nat \<Rightarrow> once_state \<Rightarrow> ('e + 'a) poll \<Rightarrow> 'a once_cell \<Rightarrow>
     (('e + 'a option) poll \<times> once_state \<times> 'a once_cell \<times> waker list) outcome option" where
  "get_or_try_init cx i st fr c =
     (case st of
        OnceStart \<Rightarrow>
          if once_initialized c then Some (Inr (Ready (Inr (once_get_unchecked c)), OnceDone, c, []))
          else once_wait cx i None fr c
      | OnceAcquiring a \<Rightarrow> once_wait cx i (Some a) fr c
      | OnceRunning \<Rightarrow> once_run fr \<lparr>pm_permits = 1\<rparr> c
      | OnceDone \<Rightarrow> Some (Inl ExplicitPanic))"

text \<open>\<open>get_or_init\<close> is the same code for an initialiser that cannot fail.\<close>

definition get_or_init ::
    "waker \<Rightarrow> nat \<Rightarrow> once_state \<Rightarrow> 'a poll \<Rightarrow> 'a once_cell \<Rightarrow>
     ((unit + 'a option) poll \<times> once_state \<times> 'a once_cell \<times> waker list) outcome option" where
  "get_or_init cx i st fr c =
     get_or_try_init cx i st (case fr of Pending \<Rightarrow> Pending | Ready v \<Rightarrow> Ready (Inr v)) c"

text \<open>Dropping the future of such a call gives back what it owns.\<close>

definition once_future_drop :: "once_state \<Rightarrow> 'a once_cell \<Rightarrow> ('a once_cell \<times> waker list) outcome option" where
  "once_future_drop st c =
     bind_oo (case st of
        OnceAcquiring a \<Rightarrow> acquire_drop a (oc_sem c)
      | OnceRunning \<Rightarrow> permit_drop \<lparr>pm_permits = 1\<rparr> (oc_sem c)
      | _ \<Rightarrow> Some (Inr (oc_sem c, []))) (\<lambda>(s, ws). Some (Inr (c\<lparr>oc_sem := s\<rparr>, ws)))"

text \<open>\<open>into_inner\<close> returns what is left of the cell too, which is then dropped; \<open>once_drop\<close> lists what that drops.\<close>

definition once_into_inner :: "'a once_cell \<Rightarrow> 'a option \<times> 'a once_cell" where
  "once_into_inner c = (if oc_value_set c then (oc_value c, c\<lparr>oc_value_set := False\<rparr>) else (None, c))"

definition once_drop :: "'a once_cell \<Rightarrow> 'a option list" where
  "once_drop c = (if oc_value_set c then [oc_value c] else [])"

definition once_take :: "'a once_cell \<Rightarrow> ('a option \<times> 'a once_cell) outcome" where
  "once_take c = and_then once_new (\<lambda>fresh. Inr (fst (once_into_inner c), fresh))"

section \<open>A cell in use\<close>

text \<open>The calls that wait for the permit, and those whose initialiser runs.\<close>

record 'a once_use =
  ou_cell :: "'a once_cell"
  ou_futs :: "nat \<Rightarrow> acquire option"
  ou_running :: "nat multiset"

definition once_state_of :: "nat \<Rightarrow> 'a once_use \<Rightarrow> once_state" where
  "once_state_of i w =
     (if i \<in># ou_running w then OnceRunning
      else case ou_futs w i of Some a \<Rightarrow> OnceAcquiring a | None \<Rightarrow> OnceStart)"

definition once_put :: "nat \<Rightarrow> once_state \<Rightarrow> 'a once_use \<Rightarrow> 'a once_use" where
  "once_put i st w =
     (let run = (if i \<in># ou_running w then ou_running w - {#i#} else ou_running w) in
      case st of
        OnceAcquiring a \<Rightarrow> w\<lparr>ou_futs := (ou_futs w)(i \<mapsto> a), ou_running := run\<rparr>
      | OnceRunning \<Rightarrow> w\<lparr>ou_futs := (ou_futs w)(i := None), ou_running := add_mset i run\<rparr>
      | _ \<Rightarrow> w\<lparr>ou_futs := (ou_futs w)(i := None), ou_running := run\<rparr>)"

inductive once_step :: "'a once_use \<Rightarrow> 'a once_use \<Rightarrow> bool" where
  once_polled: "get_or_try_init cx i (once_state_of i w) (fr :: (nat + 'a) poll) (ou_cell w) = Some (Inr (r, st, c, ws)) \<Longrightarrow>
     once_step w ((once_put i st w)\<lparr>ou_cell := c\<rparr>)"
| once_cancelled: "once_future_drop (once_state_of i w) (ou_cell w) = Some (Inr (c, ws)) \<Longrightarrow>
     once_step w ((once_put i OnceDone w)\<lparr>ou_cell := c\<rparr>)"
| once_was_set: "once_set v (ou_cell w) = Some (Inr (r, c, ws)) \<Longrightarrow> once_step w (w\<lparr>ou_cell := c\<rparr>)"

inductive once_start :: "'a once_use \<Rightarrow> bool" where
  "once_new_with v = Inr c \<Longrightarrow> once_start \<lparr>ou_cell = c, ou_futs = (\<lambda>_. None), ou_running = {#}\<rparr>"

definition once_pool :: "'a once_use \<Rightarrow> pool" where
  "once_pool w = guard_pool (\<lambda>_. 1) (if oc_value_set (ou_cell w) then 0 else 1) (oc_sem (ou_cell w)) (ou_futs w) (ou_running w)"

definition once_inv :: "'a once_use \<Rightarrow> bool" where
  "once_inv w \<longleftrightarrow>
     sem_is_closed (oc_sem (ou_cell w)) = oc_value_set (ou_cell w) \<and>
     (oc_value_set (ou_cell w) \<longrightarrow> oc_value (ou_cell w) \<noteq> None) \<and>
     (\<forall>i a. ou_futs w i = Some a \<longrightarrow> a_num a = 1) \<and>
     (\<forall>i \<in># ou_running w. ou_futs w i = None)"

text \<open>What a step must keep, and what it may do to the value.\<close>

definition once_ok :: "'a once_use \<Rightarrow> 'a once_use \<Rightarrow> bool" where
  "once_ok w w' \<longleftrightarrow> once_inv w' \<and> pool_step\<^sup>*\<^sup>* (once_pool w) (once_pool w') \<and>
     (oc_value_set (ou_cell w) \<longrightarrow> oc_value_set (ou_cell w') \<and> oc_value (ou_cell w') = oc_value (ou_cell w))"

lemma ops_steps: "pool_op\<^sup>*\<^sup>* p q \<Longrightarrow> pool_step\<^sup>*\<^sup>* p q"
  by (induction rule: rtranclp_induct) (auto intro: op rtranclp.rtrancl_into_rtrancl)

lemma once_ok_trans: "once_ok w v \<Longrightarrow> once_ok v u \<Longrightarrow> once_ok w u"
  by (auto simp: once_ok_def)

lemma running_unset:
  assumes "pool_inv (once_pool w)" "i \<in># ou_running w"
  shows "\<not> oc_value_set (ou_cell w)" and "ou_running w = {#i#}"
proof -
  have le: "size (ou_running w) \<le> (if oc_value_set (ou_cell w) then 0 else 1)"
    using pool_facts(4) [OF assms(1)] by (simp add: once_pool_def)
  show "\<not> oc_value_set (ou_cell w)" using le assms(2) by (auto split: if_splits)
  from assms(2) obtain gs where "ou_running w = add_mset i gs" by (auto dest: multi_member_split)
  with le show "ou_running w = {#i#}" by (auto split: if_splits)
qed

lemma set_value_ok:
  assumes inv: "once_inv w" "pool_inv (once_pool w)" and i: "i \<in># ou_running w"
  shows "\<exists>c ws. once_set_value v \<lparr>pm_permits = 1\<rparr> (ou_cell w) = Some (Inr (Some v, c, ws)) \<and>
           oc_value c = Some v \<and> oc_value_set c \<and>
           once_ok w (w\<lparr>ou_running := {#}, ou_cell := c\<rparr>)"
proof -
  let ?c = "ou_cell w"
  note un = running_unset [OF inv(2) i]
  obtain s ws where cl: "sem_close (oc_sem ?c) = (s, ws)" by fastforce
  have "sem_close (p_sem (once_pool w)) = (s, ws)" using cl by (simp add: once_pool_def)
  from closed [OF this] close_keeps(2) [OF inv(2) this] have
    st: "pool_step (once_pool w) ((once_pool w)\<lparr>p_sem := s\<rparr>)" and sc: "sem_is_closed s" by auto
  have "pool_op ((once_pool w)\<lparr>p_sem := s\<rparr>) (guard_pool (\<lambda>_. 1) 0 s (ou_futs w) {#})"
    using guard_forget [OF i, of "\<lambda>_. 1" 1 s "ou_futs w"] un by (simp add: once_pool_def guard_pool_def)
  then have "pool_step\<^sup>*\<^sup>* (once_pool w) (guard_pool (\<lambda>_. 1) 0 s (ou_futs w) {#})"
    using st op by (blast intro: converse_rtranclp_into_rtranclp r_into_rtranclp)
  then show ?thesis
    using cl sc inv(1) un
    by (auto simp: once_set_value_def semaphore_close_def permit_forget_def permit_drop_def add_zero
        once_get_unchecked_def once_ok_def once_inv_def once_pool_def Let_def)
qed

text \<open>The facts about the answer \<open>r\<close> of a call that leaves the cell \<open>c\<close>.\<close>

definition once_answer :: "('e + 'a option) poll \<Rightarrow> 'a once_cell \<Rightarrow> bool" where
  "once_answer r c \<longleftrightarrow> (\<forall>x. r = Ready (Inr x) \<longrightarrow> oc_value_set c \<and> x = oc_value c \<and> x \<noteq> None)"

lemma run_ok:
  assumes inv: "once_inv w" "pool_inv (once_pool w)" and i: "i \<in># ou_running w"
  shows "\<exists>r st c ws. once_run fr \<lparr>pm_permits = 1\<rparr> (ou_cell w) = Some (Inr (r, st, c, ws)) \<and>
           once_ok w ((once_put i st w)\<lparr>ou_cell := c\<rparr>) \<and> once_answer r c"
proof -
  note un = running_unset [OF inv(2) i]
  have none: "ou_futs w i = None" using inv(1) i by (simp add: once_inv_def)
  then have fut: "(ou_futs w)(i := None) = ou_futs w" by (simp add: fun_upd_idem)
  show ?thesis
  proof (cases fr)
    case Pending
    then show ?thesis using un i inv fut
      by (simp add: once_run_def once_put_def once_answer_def once_ok_def once_inv_def once_pool_def)
  next
    case (Ready x)
    show ?thesis
    proof (cases x)
      case (Inr v)
      from set_value_ok [OF inv i, of v] show ?thesis using Ready Inr un i fut
        by (auto simp: once_run_def once_put_def once_answer_def)
    next
      case (Inl e)
      have "pool_inv (guard_pool (\<lambda>_. 1) 1 (oc_sem (ou_cell w)) (ou_futs w) (ou_running w))"
        using inv(2) un(1) by (simp add: once_pool_def)
      from guard_release_returns [OF this i, of 1]
      obtain s ws where rel: "release 1 (oc_sem (ou_cell w)) = Some (Inr (s, ws))" by auto
      from guard_release [where wt = "\<lambda>_. 1" and tot = 1 and futs = "ou_futs w", OF i rel]
      have op: "pool_op (once_pool w) (guard_pool (\<lambda>_. 1) 1 s (ou_futs w) (ou_running w - {#i#}))"
        using un by (simp add: once_pool_def)
      have "sem_is_closed s = sem_is_closed (oc_sem (ou_cell w))"
        using pool_op_open [OF op inv(2)] by (simp add: once_pool_def)
      then show ?thesis using Ready Inl rel op un i fut inv(1)
        by (simp add: once_run_def permit_drop_def semaphore_add_permits_def once_put_def once_answer_def
            once_ok_def once_inv_def once_pool_def r_into_rtranclp Batch_Semaphore.op)
    qed
  qed
qed

lemma wait_ok:
  assumes inv: "once_inv w" "pool_inv (once_pool w)" and i: "i \<notin># ou_running w"
  shows "\<exists>r st c ws. once_wait cx i (ou_futs w i) fr (ou_cell w) = Some (Inr (r, st, c, ws)) \<and>
           once_ok w ((once_put i st w)\<lparr>ou_cell := c\<rparr>) \<and> once_answer r c"
proof -
  let ?c = "ou_cell w" and ?tot = "if oc_value_set (ou_cell w) then 0 else 1 :: nat"
  have pinv: "pool_inv (guard_pool (\<lambda>_. 1) ?tot (oc_sem ?c) (ou_futs w) (ou_running w))"
    using inv(2) by (simp add: once_pool_def)
  have less: "1 < MAX_PERMIT" by (simp add: less_MAX_PERMIT)
  have num: "ou_futs w i = Some b \<Longrightarrow> a_num b = 1" for b using inv(1) by (simp add: once_inv_def)
  from guard_async_returns [where i = i, OF pinv less num, of cx] obtain r a s ws where
    run: "acquire_async cx i 1 (ou_futs w i) (oc_sem ?c) = Some (Inr (r, a, s, ws))" by blast
  note ga = guard_async [OF pinv less num run]
  have cl: "(r = Ready False) = oc_value_set ?c" "sem_is_closed s = oc_value_set ?c"
    using ga(5,6) inv(1) by (simp_all add: once_inv_def)
  show ?thesis
  proof (cases r rule: poll_bool_cases)
    case 1
    then show ?thesis using ga(2,4) cl inv(1) i run
      by (auto simp: once_wait_def semaphore_acquire_def once_put_def once_answer_def once_ok_def once_inv_def
          once_pool_def ops_steps Let_def)
  next
    case 3
    then have set: "oc_value_set ?c" and ne: "oc_value ?c \<noteq> None" using cl inv(1) by (simp_all add: once_inv_def)
    show ?thesis using ga(3) 3 cl inv(1) i run set ne
      by (auto simp: once_wait_def semaphore_acquire_def once_put_def once_answer_def once_ok_def once_inv_def
          once_pool_def ops_steps once_initialized_def once_get_unchecked_def Let_def)
  next
    case 2
    let ?v = "w\<lparr>ou_futs := (ou_futs w)(i := None), ou_running := add_mset i (ou_running w), ou_cell := ?c\<lparr>oc_sem := s\<rparr>\<rparr>"
    have unset: "\<not> oc_value_set ?c" using cl 2 by simp
    have ok: "once_ok w ?v"
      using ga(1) [of i] 2 cl inv(1) i unset
      by (auto simp: once_ok_def once_inv_def once_pool_def ops_steps)
    then have vinv: "once_inv ?v" "pool_inv (once_pool ?v)"
      using pool_steps_inv inv(2) by (auto simp: once_ok_def)
    from run_ok [OF vinv, of i fr] obtain r2 st c ws where
      "once_run fr \<lparr>pm_permits = 1\<rparr> (?c\<lparr>oc_sem := s\<rparr>) = Some (Inr (r2, st, c, ws))"
      "once_ok ?v ((once_put i st ?v)\<lparr>ou_cell := c\<rparr>)" "once_answer r2 c" by auto
    moreover have "(once_put i st ?v)\<lparr>ou_cell := c\<rparr> = (once_put i st w)\<lparr>ou_cell := c\<rparr>"
      using i by (cases st) (simp_all add: once_put_def Let_def)
    ultimately show ?thesis
      using once_ok_trans [OF ok] run 2 unset
      by (auto simp: once_wait_def semaphore_acquire_def once_initialized_def Let_def)
  qed
qed

lemma once_put_done: "i \<notin># ou_running w \<Longrightarrow> ou_futs w i = None \<Longrightarrow> once_put i OnceDone w = w"
  by (simp add: once_put_def fun_upd_idem)

lemma poll_ok:
  assumes inv: "once_inv w" "pool_inv (once_pool w)"
  shows "\<exists>r st c ws. get_or_try_init cx i (once_state_of i w) fr (ou_cell w) = Some (Inr (r, st, c, ws)) \<and>
           once_ok w ((once_put i st w)\<lparr>ou_cell := c\<rparr>) \<and> once_answer r c"
proof (cases "i \<in># ou_running w")
  case True
  with run_ok [OF inv True, of fr] show ?thesis by (simp add: get_or_try_init_def once_state_of_def)
next
  case False
  show ?thesis
  proof (cases "ou_futs w i")
    case (Some a)
    with wait_ok [OF inv False, of cx fr] False show ?thesis by (simp add: get_or_try_init_def once_state_of_def)
  next
    case None
    show ?thesis
    proof (cases "oc_value_set (ou_cell w)")
      case True
      then show ?thesis using inv(1) False None
        by (auto simp: get_or_try_init_def once_state_of_def once_initialized_def once_get_unchecked_def
            once_put_done once_ok_def once_answer_def once_inv_def)
    next
      case unset: False
      with wait_ok [OF inv False, of cx fr] False None show ?thesis
        by (simp add: get_or_try_init_def once_state_of_def once_initialized_def)
    qed
  qed
qed

lemma cancel_ok:
  assumes inv: "once_inv w" "pool_inv (once_pool w)"
    and run: "once_future_drop (once_state_of i w) (ou_cell w) = Some (Inr (c, ws))"
  shows "once_ok w ((once_put i OnceDone w)\<lparr>ou_cell := c\<rparr>)"
proof (cases "i \<in># ou_running w")
  case True
  note un = running_unset [OF inv(2) True]
  have "ou_futs w i = None" using inv(1) True by (simp add: once_inv_def)
  then have fut: "(ou_futs w)(i := None) = ou_futs w" by (simp add: fun_upd_idem)
  from run True obtain s where rel: "release 1 (oc_sem (ou_cell w)) = Some (Inr (s, ws))" "c = (ou_cell w)\<lparr>oc_sem := s\<rparr>"
    by (auto simp: once_future_drop_def once_state_of_def permit_drop_def semaphore_add_permits_def bind_oo_eq)
  from guard_release [where wt = "\<lambda>_. 1" and tot = 1 and futs = "ou_futs w", OF True rel(1)]
  have op: "pool_op (once_pool w) (guard_pool (\<lambda>_. 1) 1 s (ou_futs w) (ou_running w - {#i#}))"
    using un by (simp add: once_pool_def)
  have "sem_is_closed s = sem_is_closed (oc_sem (ou_cell w))"
    using pool_op_open [OF op inv(2)] by (simp add: once_pool_def)
  then show ?thesis using rel op un True inv(1) fut
    by (simp add: once_put_def once_ok_def once_inv_def once_pool_def r_into_rtranclp Batch_Semaphore.op)
next
  case False
  show ?thesis
  proof (cases "ou_futs w i")
    case None
    then have "c = ou_cell w" using run False by (simp add: once_future_drop_def once_state_of_def)
    then show ?thesis using once_put_done [OF False None] inv by (simp add: once_ok_def)
  next
    case (Some a)
    let ?tot = "if oc_value_set (ou_cell w) then 0 else 1 :: nat"
    from run False Some obtain s where d: "acquire_drop a (oc_sem (ou_cell w)) = Some (Inr (s, ws))" "c = (ou_cell w)\<lparr>oc_sem := s\<rparr>"
      by (auto simp: once_future_drop_def once_state_of_def bind_oo_eq)
    from guard_drop_future [where futs = "ou_futs w" and i = i and wt = "\<lambda>_. 1" and tot = ?tot and gs = "ou_running w", OF Some d(1)]
    have op: "pool_op (once_pool w) (guard_pool (\<lambda>_. 1) ?tot s ((ou_futs w)(i := None)) (ou_running w))"
      by (simp add: once_pool_def)
    have "sem_is_closed s = sem_is_closed (oc_sem (ou_cell w))"
      using pool_op_open [OF op inv(2)] by (simp add: once_pool_def)
    then show ?thesis using d op False inv(1)
      by (auto simp: once_put_def once_ok_def once_inv_def once_pool_def r_into_rtranclp Batch_Semaphore.op)
  qed
qed

lemma set_ok:
  assumes inv: "once_inv w" "pool_inv (once_pool w)"
  shows "\<exists>r c ws. once_set v (ou_cell w) = Some (Inr (r, c, ws)) \<and> once_ok w (w\<lparr>ou_cell := c\<rparr>) \<and>
           (r = Inr () \<longleftrightarrow> \<not> oc_value_set (ou_cell w) \<and> oc_value_set c) \<and>
           (r = Inr () \<longrightarrow> oc_value c = Some v) \<and>
           (r = Inl (InitializingError v) \<longrightarrow> avail (oc_sem (ou_cell w)) = 0)"
proof (cases "oc_value_set (ou_cell w)")
  case True
  then show ?thesis using inv by (auto simp: once_set_def once_initialized_def once_ok_def)
next
  case unset: False
  let ?c = "ou_cell w"
  have less: "1 < MAX_PERMIT" by (simp add: less_MAX_PERMIT)
  have op: "\<not> sem_is_closed (oc_sem ?c)" using inv(1) unset by (simp add: once_inv_def)
  obtain r s where t: "try_acquire 1 (oc_sem ?c) = Inr (r, s)" and
    rs: "case r of Inl e \<Rightarrow> s = oc_sem ?c | Inr _ \<Rightarrow> True" and cl: "sem_is_closed s = sem_is_closed (oc_sem ?c)"
    using try_keeps [OF inv(2) less] by (fastforce simp: once_pool_def split: sum.split_asm)
  have ans: "r = (if avail (oc_sem ?c) < 1 then Inl AcqNoPermits else Inr ())"
    using t op run_try_acquire [of 1 "oc_sem ?c"] by (auto simp: try_acquire_def less split: if_splits)
  show ?thesis
  proof (cases "avail (oc_sem ?c) < 1")
    case True
    then show ?thesis using t ans rs unset inv
      by (auto simp: once_set_def semaphore_try_acquire_def once_initialized_def once_ok_def Let_def)
  next
    case False
    let ?v = "w\<lparr>ou_running := {#0#}, ou_cell := ?c\<lparr>oc_sem := s\<rparr>, ou_futs := (ou_futs w)\<rparr>"
    have run: "ou_running w = {#}"
    proof (rule ccontr)
      assume "ou_running w \<noteq> {#}"
      then have "0 < size (ou_running w)" by (simp add: nonempty_has_size)
      with False pool_facts(4) [OF inv(2)] unset show False by (simp add: once_pool_def)
    qed
    obtain j where j: "ou_futs w j = None"
      using pool_facts(7) [OF inv(2)] ex_new_if_finite [OF infinite_UNIV_nat, of "dom (ou_futs w)"]
      by (auto simp: once_pool_def)
    let ?v = "w\<lparr>ou_running := {#j#}, ou_cell := ?c\<lparr>oc_sem := s\<rparr>\<rparr>"
    have t1: "try_acquire 1 (oc_sem ?c) = Inr (Inr (), s)" using t ans False by simp
    have "pool_op (once_pool w) (guard_pool (\<lambda>_. 1) 1 s (ou_futs w) {#j#})"
      using guard_try(1) [where wt = "\<lambda>_. 1" and g = j and tot = 1 and futs = "ou_futs w" and gs = "{#}",
          OF t1 refl refl] run unset by (simp add: once_pool_def)
    then have ok: "once_ok w ?v"
      using inv(1) unset cl j by (auto simp: once_ok_def once_inv_def once_pool_def op r_into_rtranclp Batch_Semaphore.op)
    then have "once_inv ?v" "pool_inv (once_pool ?v)" using pool_steps_inv inv(2) by (auto simp: once_ok_def)
    from set_value_ok [OF this, of j v] obtain c ws where
      c: "once_set_value v \<lparr>pm_permits = 1\<rparr> (?c\<lparr>oc_sem := s\<rparr>) = Some (Inr (Some v, c, ws))"
      "oc_value c = Some v" "oc_value_set c" and ok2: "once_ok ?v (?v\<lparr>ou_running := {#}, ou_cell := c\<rparr>)" by auto
    have "?v\<lparr>ou_running := {#}, ou_cell := c\<rparr> = w\<lparr>ou_cell := c\<rparr>" using run by (cases w) simp
    then have "once_ok w (w\<lparr>ou_cell := c\<rparr>)" using once_ok_trans [OF ok ok2] by simp
    then show ?thesis using t1 c unset
      by (simp add: once_set_def semaphore_try_acquire_def once_initialized_def Let_def)
  qed
qed

lemma once_step_ok: "once_step w w' \<Longrightarrow> once_inv w \<Longrightarrow> pool_inv (once_pool w) \<Longrightarrow> once_ok w w'"
proof (induction rule: once_step.induct)
  case (once_polled cx i w fr r st c ws)
  from poll_ok [OF once_polled(2,3), of cx i fr] once_polled(1) show ?case by auto
next
  case (once_cancelled i w c ws)
  from cancel_ok [OF once_cancelled(2,3,1)] show ?case .
next
  case (once_was_set v w r c ws)
  from set_ok [OF once_was_set(2,3), of v] once_was_set(1) show ?case by auto
qed

lemma once_start_pool: "once_start w \<Longrightarrow> once_inv w \<and> pool_inv (once_pool w)"
proof (induction rule: once_start.induct)
  case (1 v c)
  show ?case
  proof (cases v)
    case None
    with 1 obtain s where "sem_new 1 = Inr s" "c = \<lparr>oc_value_set = False, oc_value = None, oc_sem = s\<rparr>"
      by (auto simp: once_new_with_def once_new_def semaphore_new_def and_then_eq_Inr)
    then show ?thesis using new_pool_inv [of 1 s] sem_new_Inr [of 1 s]
      by (simp add: once_inv_def once_pool_def guard_pool_def)
  next
    case (Some x)
    note defs = once_new_with_def once_from_def semaphore_new_def semaphore_close_def
    obtain s where s0: "sem_new 0 = Inr s" using 1 Some by (cases "sem_new 0") (auto simp: defs)
    obtain s' ws where cl: "sem_close s = (s', ws)" by fastforce
    have "c = \<lparr>oc_value_set = True, oc_value = Some x, oc_sem = s'\<rparr>" using 1 Some s0 cl by (simp add: defs)
    note s = s0 cl this
    let ?p = "\<lparr>p_sem = s, p_futs = (\<lambda>_. None), p_held = 0, p_total = unat (0 :: usize)\<rparr>"
    have "sem_close (p_sem ?p) = (s', ws)" using s(2) by simp
    from close_keeps(1,2) [OF new_pool_inv [OF s(1)] this] s(3) show ?thesis
      by (simp add: once_inv_def once_pool_def guard_pool_def)
  qed
qed

interpretation once_client: permit_client once_start once_step once_inv once_pool
  by unfold_locales (auto dest: once_start_pool once_step_ok simp: once_ok_def)

section \<open>What the cell promises\<close>

text \<open>
  C23: Polling a call of \<open>get_or_try_init\<close> never panics (its assertions hold) and never reads the value
  uninitialised: a successful answer is the value the cell then holds.
\<close>

theorem once_cell_answers:
  assumes "once_start w" "once_step\<^sup>*\<^sup>* w w'"
  shows "\<exists>r st c ws. get_or_try_init cx i (once_state_of i w') fr (ou_cell w') = Some (Inr (r, st, c, ws)) \<and>
           (\<forall>x. r = Ready (Inr x) \<longrightarrow> once_initialized c \<and> x = once_get c \<and> x \<noteq> None)"
  using poll_ok [of w' cx i fr] once_client.client_inv [OF assms(2,1)]
  by (fastforce simp: once_answer_def once_initialized_def once_get_def once_get_unchecked_def)

text \<open>
  At most one initialiser runs at a time, none once the value is there, and a value once set is never
  changed: not by \<open>set\<close>, nor by calls that were already waiting.
\<close>

lemma once_cell_set_once:
  assumes "once_start w" "once_step\<^sup>*\<^sup>* w w1" "once_step\<^sup>*\<^sup>* w1 w2"
  shows "size (ou_running w1) \<le> 1 \<and>
    (once_initialized (ou_cell w1) \<longrightarrow> ou_running w1 = {#} \<and> once_get (ou_cell w1) \<noteq> None \<and>
       once_initialized (ou_cell w2) \<and> once_get (ou_cell w2) = once_get (ou_cell w1))"
proof -
  have inv1: "once_inv w1" "pool_inv (once_pool w1)" using once_client.client_inv [OF assms(2,1)] by auto
  have le: "size (ou_running w1) \<le> (if oc_value_set (ou_cell w1) then 0 else 1)"
    using once_client.held_le_total [OF assms(2,1)] by (simp add: once_pool_def)
  from assms(3) have "oc_value_set (ou_cell w1) \<longrightarrow>
      oc_value_set (ou_cell w2) \<and> oc_value (ou_cell w2) = oc_value (ou_cell w1)"
  proof (induction rule: rtranclp_induct)
    case (step y z)
    have "once_step\<^sup>*\<^sup>* w y" using assms(2) step.hyps(1) by (rule rtranclp_trans)
    from once_client.client_inv [OF this assms(1)] once_step_ok [OF step.hyps(2)] step.IH
    show ?case by (auto simp: once_ok_def)
  qed simp
  with le inv1(1) show ?thesis
    by (auto simp: once_initialized_def once_get_def once_get_unchecked_def once_inv_def split: if_splits)
qed

definition once_world :: "nat once_use" where
  "once_world = \<lparr>ou_cell = \<lparr>oc_value_set = False, oc_value = None, oc_sem = sem_three\<lparr>s_state := 2\<rparr>\<rparr>,
     ou_futs = (\<lambda>_. None), ou_running = {#}\<rparr>"

lemma once_world_start: "once_start once_world"
proof -
  have "sem_new 1 = Inr (sem_three\<lparr>s_state := 2\<rparr>)"
    by (simp add: sem_new_def sem_three_def and_then_ensure less_MAX_PERMIT PERMIT_SHIFT_def)
  then show ?thesis
    using once_start.intros [of None] by (simp add: once_new_with_def once_new_def semaphore_new_def once_world_def)
qed

theorem once_cell_answers_witness:
  "\<exists>r st c ws. get_or_try_init 9 4 OnceStart (Ready (Inr 7) :: (nat + nat) poll) (ou_cell once_world) = Some (Inr (r, st, c, ws)) \<and>
     (\<forall>x. r = Ready (Inr x) \<longrightarrow> once_initialized c \<and> x = once_get c \<and> x \<noteq> None)"
  using once_cell_answers [OF once_world_start rtranclp.rtrancl_refl, of 9 4 "Ready (Inr 7)"]
  by (simp add: once_state_of_def once_world_def)

lemma once_cell_set_once_witness: "size (ou_running once_world) \<le> 1"
  using once_cell_set_once [OF once_world_start rtranclp.rtrancl_refl rtranclp.rtrancl_refl] by blast

end
