(* ===== verification/Notify.thy ===== *)
theory Notify
  imports Intrusive_List
begin

text \<open>
  \<open>sync/notify.rs\<close>: one stored notification, a queue of waiting futures, and a counter of the calls of
  \<open>notify_waiters\<close>. The state word holds the state in its two low bits and the counter above. The
  waiter node of a \<open>Notified\<close> future is part of it and is known by the number of the future. Wakers are
  returned in the order in which they are woken; loops over \<open>compare_exchange\<close> are loops here.
\<close>

section \<open>State\<close>

datatype NotificationType = AllWaiters | OneWaiter

record nwaiter =
  nw_waker :: "waker option"
  nw_notified :: "NotificationType option"

record notify =
  nf_state :: usize
  nf_waiters :: "nat list"
  nf_nodes :: "nat \<Rightarrow> nwaiter"

datatype notified_state = NtInit usize | NtWaiting | NtDone

definition NOTIFY_WAITERS_SHIFT :: nat where "NOTIFY_WAITERS_SHIFT = 2"
definition NOTIFY_STATE_MASK :: usize where "NOTIFY_STATE_MASK = push_bit NOTIFY_WAITERS_SHIFT 1 - 1"
definition NOTIFY_WAITERS_CALLS_MASK :: usize where "NOTIFY_WAITERS_CALLS_MASK = NOT NOTIFY_STATE_MASK"
definition NEMPTY :: usize where "NEMPTY = 0"
definition NWAITING :: usize where "NWAITING = 1"
definition NNOTIFIED :: usize where "NNOTIFIED = 2"

definition set_state :: "usize \<Rightarrow> usize \<Rightarrow> usize" where
  "set_state data state = (data AND NOTIFY_WAITERS_CALLS_MASK) OR (state AND NOTIFY_STATE_MASK)"

definition get_state :: "usize \<Rightarrow> usize" where
  "get_state data = data AND NOTIFY_STATE_MASK"

definition get_num_notify_waiters_calls :: "usize \<Rightarrow> usize" where
  "get_num_notify_waiters_calls data = drop_bit NOTIFY_WAITERS_SHIFT (data AND NOTIFY_WAITERS_CALLS_MASK)"

text \<open>The addition is checked, as in a debug build; the atomic addition wraps.\<close>

definition inc_num_notify_waiters_calls :: "usize \<Rightarrow> usize outcome" where
  "inc_num_notify_waiters_calls data =
     (if unat data + unat (push_bit NOTIFY_WAITERS_SHIFT 1 :: usize) < 2 ^ 64
      then Inr (data + push_bit NOTIFY_WAITERS_SHIFT 1) else Inl ArithOverflow)"

definition atomic_inc_num_notify_waiters_calls :: "usize \<Rightarrow> usize" where
  "atomic_inc_num_notify_waiters_calls data = data + push_bit NOTIFY_WAITERS_SHIFT 1"

definition nwaiter_new :: nwaiter where
  "nwaiter_new = \<lparr>nw_waker = None, nw_notified = None\<rparr>"

section \<open>Notify\<close>

definition notify_new :: notify where
  "notify_new = \<lparr>nf_state = 0, nf_waiters = [], nf_nodes = (\<lambda>_. nwaiter_new)\<rparr>"

text \<open>\<open>notified()\<close>: the future numbered \<open>i\<close>, and its node.\<close>

definition notify_notified :: "nat \<Rightarrow> notify \<Rightarrow> notified_state \<times> notify" where
  "notify_notified i n =
     (NtInit (drop_bit NOTIFY_WAITERS_SHIFT (nf_state n)), n\<lparr>nf_nodes := (nf_nodes n)(i := nwaiter_new)\<rparr>)"

definition nt_take_waker :: "nat \<Rightarrow> (nat \<Rightarrow> nwaiter) \<Rightarrow> waker option \<times> (nat \<Rightarrow> nwaiter)" where
  "nt_take_waker w nodes = (nw_waker (nodes w), nodes(w := (nodes w)\<lparr>nw_waker := None\<rparr>))"

text \<open>\<open>notify_locked\<close> on a loaded state \<open>cur\<close>; every branch of its loop returns.\<close>

definition notify_locked :: "usize \<Rightarrow> notify \<Rightarrow> (waker option \<times> notify) outcome" where
  "notify_locked cur n =
     (if get_state cur = NEMPTY \<or> get_state cur = NNOTIFIED then
        if nf_state n = cur then Inr (None, n\<lparr>nf_state := set_state cur NNOTIFIED\<rparr>)
        else
          let actual = nf_state n in
          and_then (ensure (get_state actual = NEMPTY \<or> get_state actual = NNOTIFIED) AssertFailed) (\<lambda>_.
            Inr (None, n\<lparr>nf_state := set_state actual NNOTIFIED\<rparr>))
      else if get_state cur = NWAITING then
        (case wl_pop_back (nf_waiters n) of
           (_, None) \<Rightarrow> Inl UnwrapNone
         | (rest, Some w) \<Rightarrow>
             and_then (ensure (nw_notified (nf_nodes n w) = None) AssertFailed) (\<lambda>_.
               let nodes1 = (nf_nodes n)(w := (nf_nodes n w)\<lparr>nw_notified := Some OneWaiter\<rparr>) in
               case nt_take_waker w nodes1 of (waker, nodes2) \<Rightarrow>
               let n1 = n\<lparr>nf_waiters := rest, nf_nodes := nodes2\<rparr> in
               Inr (waker, if rest = [] then n1\<lparr>nf_state := set_state cur NEMPTY\<rparr> else n1)))
      else Inl Unreachable)"

text \<open>
  The loop at the start of \<open>notify_one\<close>: it returns the state word, the last value loaded, and whether
  the call is finished.
\<close>

partial_function (option) notify_one_loop :: "usize \<Rightarrow> usize \<Rightarrow> (usize \<times> usize \<times> bool) option" where
  "notify_one_loop cur st =
     (if get_state cur = NEMPTY \<or> get_state cur = NNOTIFIED then
        if st = cur then Some (set_state cur NNOTIFIED, cur, True) else notify_one_loop st st
      else Some (st, cur, False))"

definition notify_one :: "notify \<Rightarrow> (waker list \<times> notify) outcome option" where
  "notify_one n =
     (case notify_one_loop (nf_state n) (nf_state n) of
        None \<Rightarrow> None
      | Some (st, _, True) \<Rightarrow> Some (Inr ([], n\<lparr>nf_state := st\<rparr>))
      | Some (st, _, False) \<Rightarrow>
          let n1 = n\<lparr>nf_state := st\<rparr> in
          Some (and_then (notify_locked (nf_state n1) n1) (\<lambda>(wk, n2).
            Inr (case wk of None \<Rightarrow> [] | Some k \<Rightarrow> [k], n2))))"

function notify_all_loop ::
    "(nat \<Rightarrow> nwaiter) \<Rightarrow> nat list \<Rightarrow> waker list \<Rightarrow> (waker list \<times> (nat \<Rightarrow> nwaiter)) outcome" where
  "notify_all_loop nodes lst wakers =
     (case wl_pop_back lst of
        (_, None) \<Rightarrow> Inr (wakers, nodes)
      | (rest, Some w) \<Rightarrow>
          and_then (ensure (nw_notified (nodes w) = None) AssertFailed) (\<lambda>_.
            let nodes1 = nodes(w := (nodes w)\<lparr>nw_notified := Some AllWaiters\<rparr>) in
            case nt_take_waker w nodes1 of (waker, nodes2) \<Rightarrow>
              notify_all_loop nodes2 rest (wakers @ (case waker of None \<Rightarrow> [] | Some k \<Rightarrow> [k]))))"
  by pat_completeness auto
termination
  by (relation "measure (\<lambda>(_, lst, _). length lst)") (auto simp: wl_pop_back_def split: if_splits)

declare notify_all_loop.simps [simp del]

definition notify_waiters :: "notify \<Rightarrow> (waker list \<times> notify) outcome" where
  "notify_waiters n =
     (let cur = nf_state n in
      if get_state cur = NEMPTY \<or> get_state cur = NNOTIFIED
      then Inr ([], n\<lparr>nf_state := atomic_inc_num_notify_waiters_calls (nf_state n)\<rparr>)
      else
        and_then (notify_all_loop (nf_nodes n) (nf_waiters n) []) (\<lambda>(wakers, nodes).
        and_then (inc_num_notify_waiters_calls cur) (\<lambda>inc.
          Inr (wakers, n\<lparr>nf_waiters := [], nf_nodes := nodes, nf_state := set_state inc NEMPTY\<rparr>))))"

section \<open>Notified futures\<close>

text \<open>
  The inner loop of the first poll: it returns the state word and whether a stored notification was taken.
\<close>

partial_function (option) poll_init_loop :: "usize \<Rightarrow> usize \<Rightarrow> (usize \<times> bool) outcome option" where
  "poll_init_loop cur st =
     (if get_state cur = NEMPTY then
        if st = set_state cur NEMPTY then Some (Inr (set_state cur NWAITING, False))
        else if get_state st \<noteq> NNOTIFIED then Some (Inl AssertFailed)
        else poll_init_loop st st
      else if get_state cur = NWAITING then Some (Inr (st, False))
      else if get_state cur = NNOTIFIED then
        if st = set_state cur NNOTIFIED then Some (Inr (set_state cur NEMPTY, True))
        else if get_state st \<noteq> NEMPTY then Some (Inl AssertFailed)
        else poll_init_loop st st
      else Some (Inl Unreachable))"

definition poll_init ::
    "waker option \<Rightarrow> nat \<Rightarrow> usize \<Rightarrow> notify \<Rightarrow> (unit poll \<times> notified_state \<times> notify) outcome option" where
  "poll_init waker i initial_calls n =
     (let cur = nf_state n in
      if nf_state n = set_state cur NNOTIFIED
      then Some (Inr (Ready (), NtDone, n\<lparr>nf_state := set_state cur NEMPTY\<rparr>))
      else
        let cur = nf_state n in
        if get_num_notify_waiters_calls cur \<noteq> initial_calls then Some (Inr (Ready (), NtDone, n))
        else
          bind_oo (poll_init_loop cur (nf_state n)) (\<lambda>(st, taken).
            let n1 = n\<lparr>nf_state := st\<rparr> in
            if taken then Some (Inr (Ready (), NtDone, n1))
            else
              let nodes = (case waker of None \<Rightarrow> nf_nodes n1
                           | Some k \<Rightarrow> (nf_nodes n1)(i := (nf_nodes n1 i)\<lparr>nw_waker := Some k\<rparr>)) in
              Some (Inr (Pending, NtWaiting, n1\<lparr>nf_nodes := nodes, nf_waiters := wl_push_front i (nf_waiters n1)\<rparr>))))"

function poll_notified ::
    "waker option \<Rightarrow> nat \<Rightarrow> notified_state \<Rightarrow> notify \<Rightarrow> (unit poll \<times> notified_state \<times> notify) outcome option" where
  "poll_notified waker i (NtInit calls) n = poll_init waker i calls n"
| "poll_notified waker i NtWaiting n =
     (let w = nf_nodes n i in
      if nw_notified w \<noteq> None
      then poll_notified waker i NtDone (n\<lparr>nf_nodes := (nf_nodes n)(i := \<lparr>nw_waker = None, nw_notified = None\<rparr>)\<rparr>)
      else
        Some (Inr (Pending, NtWaiting,
          (case waker of
             None \<Rightarrow> n
           | Some k \<Rightarrow>
               if (case nw_waker w of Some k' \<Rightarrow> k' \<noteq> k | None \<Rightarrow> True)
               then n\<lparr>nf_nodes := (nf_nodes n)(i := w\<lparr>nw_waker := Some k\<rparr>)\<rparr> else n))))"
| "poll_notified waker i NtDone n = Some (Inr (Ready (), NtDone, n))"
  by pat_completeness auto
termination
  by (relation "measure (\<lambda>(_, _, st, _). case st of NtWaiting \<Rightarrow> 1 | _ \<Rightarrow> 0)") auto

definition notified_poll ::
    "waker \<Rightarrow> nat \<Rightarrow> notified_state \<Rightarrow> notify \<Rightarrow> (unit poll \<times> notified_state \<times> notify) outcome option" where
  "notified_poll cx i st n = poll_notified (Some cx) i st n"

definition notified_enable ::
    "nat \<Rightarrow> notified_state \<Rightarrow> notify \<Rightarrow> (bool \<times> notified_state \<times> notify) outcome option" where
  "notified_enable i st n =
     bind_oo (poll_notified None i st n) (\<lambda>(r, st', n'). Some (Inr (is_ready r, st', n')))"

definition notified_drop :: "nat \<Rightarrow> notified_state \<Rightarrow> notify \<Rightarrow> (waker list \<times> notify) outcome" where
  "notified_drop i st n =
     (if st \<noteq> NtWaiting then Inr ([], n)
      else
        let notify_state = nf_state n;
            waiters = fst (wl_remove i (nf_waiters n));
            n1 = n\<lparr>nf_waiters := waiters\<rparr>;
            (notify_state, n2) =
              (if waiters = [] \<and> get_state notify_state = NWAITING
               then (set_state notify_state NEMPTY, n1\<lparr>nf_state := set_state notify_state NEMPTY\<rparr>)
               else (notify_state, n1)) in
        if nw_notified (nf_nodes n2 i) = Some OneWaiter
        then and_then (notify_locked notify_state n2) (\<lambda>(wk, n3).
               Inr (case wk of None \<Rightarrow> [] | Some k \<Rightarrow> [k], n3))
        else Inr ([], n2))"

section \<open>The state word\<close>

lemmas state_defs = NOTIFY_STATE_MASK_def NOTIFY_WAITERS_CALLS_MASK_def NOTIFY_WAITERS_SHIFT_def NEMPTY_def NWAITING_def NNOTIFIED_def

lemma bit_state_mask: "bit NOTIFY_STATE_MASK i \<longleftrightarrow> i < 2"
proof -
  have "NOTIFY_STATE_MASK = mask 2" by (simp add: state_defs mask_eq_exp_minus_1 push_bit_eq_mult)
  moreover have "bit (mask 2 :: usize) i \<longleftrightarrow> i < 2" by (simp only: bit_mask_iff) auto
  ultimately show ?thesis by (simp only:)
qed

lemma get_set_state [simp]: "get_state (set_state d s) = s AND NOTIFY_STATE_MASK"
  by (rule bit_word_eqI)
     (auto simp: get_state_def set_state_def NOTIFY_WAITERS_CALLS_MASK_def bit_simps bit_state_mask)

lemma set_set_state [simp]: "set_state (set_state d s) s' = set_state d s'"
  by (rule bit_word_eqI)
     (auto simp: set_state_def NOTIFY_WAITERS_CALLS_MASK_def bit_simps bit_state_mask)

lemma set_state_id: "get_state d = s AND NOTIFY_STATE_MASK \<Longrightarrow> set_state d s = d"
proof (rule bit_word_eqI)
  fix i
  assume "get_state d = s AND NOTIFY_STATE_MASK" and i: "i < LENGTH(64)"
  then have "bit (get_state d) i = bit (s AND NOTIFY_STATE_MASK) i" by simp
  then show "bit (set_state d s) i = bit d i" using i
    by (auto simp: get_state_def set_state_def NOTIFY_WAITERS_CALLS_MASK_def bit_simps bit_state_mask)
qed

definition calls_of :: "notify \<Rightarrow> usize" where
  "calls_of n = drop_bit NOTIFY_WAITERS_SHIFT (nf_state n)"

lemma calls_set_state [simp]: "drop_bit NOTIFY_WAITERS_SHIFT (set_state d s) = drop_bit NOTIFY_WAITERS_SHIFT d"
  by (rule bit_word_eqI)
     (auto simp: set_state_def state_defs(2,3) bit_simps bit_state_mask dest: bit_imp_le_length)

lemma get_calls [simp]: "get_num_notify_waiters_calls d = drop_bit NOTIFY_WAITERS_SHIFT d"
  by (rule bit_word_eqI)
     (auto simp: get_num_notify_waiters_calls_def state_defs(2,3) bit_simps bit_state_mask dest: bit_imp_le_length)

lemma state_values [simp]:
  "NEMPTY AND NOTIFY_STATE_MASK = NEMPTY" "NWAITING AND NOTIFY_STATE_MASK = NWAITING" "NNOTIFIED AND NOTIFY_STATE_MASK = NNOTIFIED"
  "NEMPTY \<noteq> NWAITING" "NEMPTY \<noteq> NNOTIFIED" "NWAITING \<noteq> NEMPTY" "NWAITING \<noteq> NNOTIFIED"
  "NNOTIFIED \<noteq> NEMPTY" "NNOTIFIED \<noteq> NWAITING"
  by (simp_all add: state_defs push_bit_eq_mult)

lemma state_inc [simp]: "get_state (d + 2 ^ NOTIFY_WAITERS_SHIFT) = get_state d"
proof (rule bit_word_eqI)
  fix i
  show "bit (get_state (d + 2 ^ NOTIFY_WAITERS_SHIFT)) i = bit (get_state d) i"
    using bit_add_push_low [of i 2 d 1]
    by (auto simp: get_state_def bit_and_iff bit_state_mask NOTIFY_WAITERS_SHIFT_def push_bit_eq_mult)
qed

section \<open>A notifier in use\<close>

record notify_use =
  nu_notify :: notify
  nu_futs :: "nat \<Rightarrow> notified_state option"

inductive notify_step :: "notify_use \<Rightarrow> notify_use \<Rightarrow> bool" where
  nt_created: "nu_futs w i = None \<Longrightarrow> notify_notified i (nu_notify w) = (st, n) \<Longrightarrow>
     notify_step w (w\<lparr>nu_notify := n, nu_futs := (nu_futs w)(i \<mapsto> st)\<rparr>)"
| nt_polled: "nu_futs w i = Some st \<Longrightarrow> poll_notified waker i st (nu_notify w) = Some (Inr (r, st', n)) \<Longrightarrow>
     notify_step w (w\<lparr>nu_notify := n, nu_futs := (nu_futs w)(i \<mapsto> st')\<rparr>)"
| nt_dropped: "nu_futs w i = Some st \<Longrightarrow> notified_drop i st (nu_notify w) = Inr (ws, n) \<Longrightarrow>
     notify_step w (w\<lparr>nu_notify := n, nu_futs := (nu_futs w)(i := None)\<rparr>)"
| nt_one: "notify_one (nu_notify w) = Some (Inr (ws, n)) \<Longrightarrow> notify_step w (w\<lparr>nu_notify := n\<rparr>)"
| nt_all: "notify_waiters (nu_notify w) = Inr (ws, n) \<Longrightarrow> notify_step w (w\<lparr>nu_notify := n\<rparr>)"

text \<open>
  The queue holds the futures that wait and have not been notified; it is not empty exactly in state
  \<open>WAITING\<close>, so nobody waits while a notification is stored.
\<close>

definition queue_ok :: "notify \<Rightarrow> bool" where
  "queue_ok n \<longleftrightarrow>
     distinct (nf_waiters n) \<and> (\<forall>i \<in> set (nf_waiters n). nw_notified (nf_nodes n i) = None) \<and>
     (if nf_waiters n = [] then get_state (nf_state n) \<in> {NEMPTY, NNOTIFIED} else get_state (nf_state n) = NWAITING)"

definition futs_ok :: "notify \<Rightarrow> (nat \<Rightarrow> notified_state option) \<Rightarrow> bool" where
  "futs_ok n futs \<longleftrightarrow>
     (\<forall>i \<in> set (nf_waiters n). futs i = Some NtWaiting) \<and>
     (\<forall>i. futs i = Some NtWaiting \<longrightarrow> i \<in> set (nf_waiters n) \<or> nw_notified (nf_nodes n i) \<noteq> None) \<and>
     (\<forall>i c. futs i = Some (NtInit c) \<longrightarrow> nw_notified (nf_nodes n i) = None)"

definition notify_inv :: "notify_use \<Rightarrow> bool" where
  "notify_inv w \<longleftrightarrow> queue_ok (nu_notify w) \<and> futs_ok (nu_notify w) (nu_futs w)"

definition waker_list :: "waker option \<Rightarrow> waker list" where
  "waker_list wk = (case wk of None \<Rightarrow> [] | Some k \<Rightarrow> [k])"

lemma nwaiter_upd [simp]: "w\<lparr>nw_notified := a, nw_waker := b\<rparr> = \<lparr>nw_waker = b, nw_notified = a\<rparr>"
  by (cases w) simp

lemma locked_stores:
  assumes "nf_waiters n = []" "get_state (nf_state n) \<in> {NEMPTY, NNOTIFIED}" "cur = nf_state n"
  shows "notify_locked cur n = Inr (None, n\<lparr>nf_state := set_state (nf_state n) NNOTIFIED\<rparr>)"
  using assms by (auto simp: notify_locked_def)

lemma locked_serves:
  assumes "queue_ok n" "nf_waiters n = rest @ [j]" "cur = nf_state n"
  shows "\<exists>st. notify_locked cur n = Inr (nw_waker (nf_nodes n j),
           n\<lparr>nf_state := st, nf_waiters := rest,
             nf_nodes := (nf_nodes n)(j := \<lparr>nw_waker = None, nw_notified = Some OneWaiter\<rparr>)\<rparr>) \<and>
         drop_bit NOTIFY_WAITERS_SHIFT st = drop_bit NOTIFY_WAITERS_SHIFT (nf_state n) \<and>
         get_state st = (if rest = [] then NEMPTY else NWAITING)"
proof -
  have n: "get_state (nf_state n) = NWAITING" "nw_notified (nf_nodes n j) = None"
    using assms(1,2) by (auto simp: queue_ok_def)
  let ?st = "if rest = [] then set_state (nf_state n) NEMPTY else nf_state n"
  show ?thesis using n assms(2,3)
    by (intro exI [of _ ?st], cases n) (auto simp: notify_locked_def wl_pop_back_def nt_take_waker_def Let_def)
qed

lemma notify_one_loop_eq:
  "notify_one_loop st st =
     Some (if get_state st = NEMPTY \<or> get_state st = NNOTIFIED then (set_state st NNOTIFIED, st, True)
           else (st, st, False))"
  by (simp add: notify_one_loop.simps)

text \<open>\<open>notify_one\<close>: the oldest waiter is notified, or the notification is stored.\<close>

lemma notify_one_stores:
  assumes "queue_ok n" "nf_waiters n = []"
  shows "notify_one n = Some (Inr ([], n\<lparr>nf_state := set_state (nf_state n) NNOTIFIED\<rparr>))"
  using assms by (auto simp: notify_one_def notify_one_loop_eq queue_ok_def)

lemma notify_one_serves:
  assumes "queue_ok n" "nf_waiters n = rest @ [j]"
  shows "\<exists>st. notify_one n = Some (Inr (waker_list (nw_waker (nf_nodes n j)),
           n\<lparr>nf_state := st, nf_waiters := rest,
             nf_nodes := (nf_nodes n)(j := \<lparr>nw_waker = None, nw_notified = Some OneWaiter\<rparr>)\<rparr>)) \<and>
         drop_bit NOTIFY_WAITERS_SHIFT st = drop_bit NOTIFY_WAITERS_SHIFT (nf_state n) \<and>
         get_state st = (if rest = [] then NEMPTY else NWAITING)"
proof -
  have n: "get_state (nf_state n) = NWAITING" using assms by (simp add: queue_ok_def)
  from locked_serves [OF assms refl] n show ?thesis
    by (auto simp: notify_one_def notify_one_loop_eq waker_list_def)
qed

lemma serve_keeps:
  assumes "queue_ok n" "futs_ok n futs" "nf_waiters n = rest @ [j]" "get_state st = (if rest = [] then NEMPTY else NWAITING)"
  shows "queue_ok (n\<lparr>nf_state := st, nf_waiters := rest,
             nf_nodes := (nf_nodes n)(j := \<lparr>nw_waker = None, nw_notified = Some OneWaiter\<rparr>)\<rparr>)"
    and "futs_ok (n\<lparr>nf_state := st, nf_waiters := rest,
             nf_nodes := (nf_nodes n)(j := \<lparr>nw_waker = None, nw_notified = Some OneWaiter\<rparr>)\<rparr>) futs"
  using assms by (auto simp: queue_ok_def futs_ok_def)

text \<open>\<open>notify_waiters\<close>: every waiter is notified, oldest first.\<close>

definition nt_wakers :: "(nat \<Rightarrow> nwaiter) \<Rightarrow> nat list \<Rightarrow> waker list" where
  "nt_wakers nodes is = concat (map (\<lambda>i. waker_list (nw_waker (nodes i))) is)"

lemma notify_all_loop_eq:
  "distinct lst \<Longrightarrow> \<forall>i \<in> set lst. nw_notified (nodes i) = None \<Longrightarrow>
     notify_all_loop nodes lst ws =
       Inr (ws @ nt_wakers nodes (rev lst),
            (\<lambda>i. if i \<in> set lst then \<lparr>nw_waker = None, nw_notified = Some AllWaiters\<rparr> else nodes i))"
proof (induction lst arbitrary: nodes ws rule: rev_induct)
  case Nil
  then show ?case by (simp add: notify_all_loop.simps [of nodes] wl_pop_back_def nt_wakers_def)
next
  case (snoc j xs)
  let ?n1 = "nodes(j := \<lparr>nw_waker = None, nw_notified = Some AllWaiters\<rparr>)"
  have "notify_all_loop nodes (xs @ [j]) ws = notify_all_loop ?n1 xs (ws @ waker_list (nw_waker (nodes j)))"
    using snoc.prems
    by (simp add: notify_all_loop.simps [of nodes "xs @ [j]"] wl_pop_back_def nt_take_waker_def waker_list_def)
  moreover have "\<forall>i \<in> set xs. nw_notified (?n1 i) = None" using snoc.prems by auto
  moreover have "nt_wakers ?n1 (rev xs) = nt_wakers nodes (rev xs)"
    using snoc.prems(1) unfolding nt_wakers_def by (intro arg_cong [of _ _ concat] map_cong) auto
  moreover have "(\<lambda>i. if i \<in> set xs then \<lparr>nw_waker = None, nw_notified = Some AllWaiters\<rparr> else ?n1 i) =
      (\<lambda>i. if i \<in> set (xs @ [j]) then \<lparr>nw_waker = None, nw_notified = Some AllWaiters\<rparr> else nodes i)"
    by auto
  moreover have "nt_wakers nodes (rev (xs @ [j])) = waker_list (nw_waker (nodes j)) @ nt_wakers nodes (rev xs)"
    by (simp add: nt_wakers_def)
  ultimately show ?case using snoc.IH [of ?n1] snoc.prems(1) by (simp del: fun_upd_apply)
qed

lemma poll_init_loop_eq:
  "get_state st \<in> {NEMPTY, NWAITING} \<Longrightarrow>
     poll_init_loop st st = Some (Inr (if get_state st = NEMPTY then set_state st NWAITING else st, False))"
  by (auto simp: poll_init_loop.simps set_state_id)

text \<open>The answers of a poll.\<close>

definition poll_waits :: "notify \<Rightarrow> nat \<Rightarrow> notified_state \<Rightarrow> bool" where
  "poll_waits n i st =
     (case st of
        NtInit c \<Rightarrow> get_state (nf_state n) \<noteq> NNOTIFIED \<and> calls_of n = c
      | NtWaiting \<Rightarrow> nw_notified (nf_nodes n i) = None
      | NtDone \<Rightarrow> False)"

definition set_nwaker :: "waker option \<Rightarrow> nwaiter \<Rightarrow> nwaiter" where
  "set_nwaker waker w = (case waker of None \<Rightarrow> w | Some k \<Rightarrow> w\<lparr>nw_waker := Some k\<rparr>)"

lemma poll_init_eq:
  assumes q: "queue_ok n"
  shows "poll_notified waker i (NtInit c) n = Some (Inr
    (if get_state (nf_state n) = NNOTIFIED then (Ready (), NtDone, n\<lparr>nf_state := set_state (nf_state n) NEMPTY\<rparr>)
     else if calls_of n \<noteq> c then (Ready (), NtDone, n)
     else (Pending, NtWaiting,
           n\<lparr>nf_state := (if get_state (nf_state n) = NEMPTY then set_state (nf_state n) NWAITING else nf_state n),
             nf_nodes := (nf_nodes n)(i := set_nwaker waker (nf_nodes n i)),
             nf_waiters := i # nf_waiters n\<rparr>)))"
proof -
  have st: "get_state (nf_state n) \<in> {NEMPTY, NWAITING, NNOTIFIED}" using q by (auto simp: queue_ok_def split: if_splits)
  have eq: "nf_state n = set_state (nf_state n) NNOTIFIED \<longleftrightarrow> get_state (nf_state n) = NNOTIFIED"
    using get_set_state [of "nf_state n" NNOTIFIED] set_state_id [of "nf_state n" NNOTIFIED] by (metis state_values(3))
  show ?thesis
  proof (cases "get_state (nf_state n) = NNOTIFIED")
    case True
    then show ?thesis using eq by (simp add: poll_init_def Let_def)
  next
    case False
    then have "get_state (nf_state n) \<in> {NEMPTY, NWAITING}" using st by auto
    note loop = poll_init_loop_eq [OF this]
    show ?thesis using False eq loop
      by (cases n) (auto simp: poll_init_def Let_def calls_of_def wl_push_front_def set_nwaker_def split: option.split)
  qed
qed

lemma poll_waiting_eq:
  "poll_notified waker i NtWaiting n = Some (Inr
     (if nw_notified (nf_nodes n i) \<noteq> None
      then (Ready (), NtDone, n\<lparr>nf_nodes := (nf_nodes n)(i := nwaiter_new)\<rparr>)
      else (Pending, NtWaiting, n\<lparr>nf_nodes := (nf_nodes n)(i := set_nwaker waker (nf_nodes n i))\<rparr>)))"
proof -
  have "(nf_nodes n)(i := (nf_nodes n i)\<lparr>nw_waker := Some k\<rparr>) = nf_nodes n" if "nw_waker (nf_nodes n i) = Some k" for k
    using that by (cases "nf_nodes n i") (auto simp: fun_eq_iff)
  then show ?thesis
    by (cases n) (auto simp: poll_notified.simps Let_def set_nwaker_def nwaiter_new_def split: option.split)
qed

declare poll_notified.simps(1,2) [simp del]

lemma set_nwaker_notified [simp]: "nw_notified (set_nwaker waker w) = nw_notified w"
  by (simp add: set_nwaker_def split: option.split)

lemma notify_poll_keeps:
  assumes inv: "notify_inv w" and i: "nu_futs w i = Some st"
  shows "\<exists>r st' n. poll_notified waker i st (nu_notify w) = Some (Inr (r, st', n)) \<and>
           (r = Pending \<longleftrightarrow> poll_waits (nu_notify w) i st) \<and>
           notify_inv (w\<lparr>nu_notify := n, nu_futs := (nu_futs w)(i \<mapsto> st')\<rparr>)"
proof -
  let ?n = "nu_notify w"
  from inv have q: "queue_ok ?n" and f: "futs_ok ?n (nu_futs w)" by (simp_all add: notify_inv_def)
  show ?thesis
  proof (cases st)
    case (NtInit c)
    have ni: "i \<notin> set (nf_waiters ?n)" and nn: "nw_notified (nf_nodes ?n i) = None"
      using f i NtInit by (auto simp: futs_ok_def)
    have st: "nf_waiters ?n = [] \<Longrightarrow> get_state (nf_state ?n) = NEMPTY \<or> get_state (nf_state ?n) = NNOTIFIED"
      "nf_waiters ?n \<noteq> [] \<Longrightarrow> get_state (nf_state ?n) = NWAITING"
      using q by (auto simp: queue_ok_def)
    from f have f1: "\<forall>j \<in> set (nf_waiters ?n). j \<noteq> i \<and> nu_futs w j = Some NtWaiting"
      using ni by (auto simp: futs_ok_def)
    consider "get_state (nf_state ?n) = NNOTIFIED" | "get_state (nf_state ?n) \<noteq> NNOTIFIED" "calls_of ?n \<noteq> c"
      | "get_state (nf_state ?n) \<noteq> NNOTIFIED" "calls_of ?n = c" by blast
    then show ?thesis
    proof cases
      case 1
      then have "nf_waiters ?n = []" using st by (cases "nf_waiters ?n = []") auto
      then show ?thesis using 1 NtInit q f i
        by (auto simp: poll_init_eq [OF q] notify_inv_def poll_waits_def queue_ok_def futs_ok_def)
    next
      case 2
      then show ?thesis using NtInit q f i f1
        by (auto simp: poll_init_eq [OF q] notify_inv_def poll_waits_def queue_ok_def futs_ok_def)
    next
      case 3
      let ?st = "if get_state (nf_state ?n) = NEMPTY then set_state (nf_state ?n) NWAITING else nf_state ?n"
      have "get_state ?st = NWAITING" using 3 st by (cases "nf_waiters ?n = []") auto
      then show ?thesis using 3 NtInit q f i ni nn f1
        by (auto simp: poll_init_eq [OF q] notify_inv_def poll_waits_def queue_ok_def futs_ok_def simp del: if_split)
    qed
  next
    case NtWaiting
    show ?thesis
    proof (cases "nw_notified (nf_nodes ?n i)")
      case None
      then show ?thesis using NtWaiting q f i
        by (auto simp: poll_waiting_eq notify_inv_def poll_waits_def queue_ok_def futs_ok_def)
    next
      case (Some k)
      have "i \<notin> set (nf_waiters ?n)" using q Some by (auto simp: queue_ok_def)
      then have "\<forall>j \<in> set (nf_waiters ?n). j \<noteq> i" by blast
      then show ?thesis using NtWaiting q f i Some
        by (auto simp: poll_waiting_eq notify_inv_def poll_waits_def queue_ok_def futs_ok_def nwaiter_new_def)
    qed
  next
    case NtDone
    have "(nu_futs w)(i \<mapsto> NtDone) = nu_futs w" using i NtDone by (simp add: fun_upd_idem)
    then show ?thesis using NtDone inv by (simp add: poll_waits_def)
  qed
qed

text \<open>
  Dropping a future: one that was notified by \<open>notify_one\<close> and not polled since passes the
  notification on.
\<close>

lemma notify_drop_keeps:
  assumes inv: "notify_inv w" and i: "nu_futs w i = Some st"
  shows "\<exists>ws n. notified_drop i st (nu_notify w) = Inr (ws, n) \<and>
           notify_inv (w\<lparr>nu_notify := n, nu_futs := (nu_futs w)(i := None)\<rparr>) \<and>
           calls_of n = calls_of (nu_notify w) \<and>
           (st = NtWaiting \<and> nw_notified (nf_nodes (nu_notify w) i) = Some OneWaiter \<longrightarrow>
             (if nf_waiters (nu_notify w) = [] then ws = [] \<and> nf_waiters n = [] \<and> get_state (nf_state n) = NNOTIFIED
              else nf_waiters n = butlast (nf_waiters (nu_notify w)) \<and>
                   nw_notified (nf_nodes n (last (nf_waiters (nu_notify w)))) = Some OneWaiter \<and>
                   ws = waker_list (nw_waker (nf_nodes (nu_notify w) (last (nf_waiters (nu_notify w)))))))"
proof (cases "st = NtWaiting")
  case False
  then show ?thesis using inv i
    by (auto simp: notified_drop_def notify_inv_def futs_ok_def)
next
  case True
  let ?n = "nu_notify w"
  from inv have q: "queue_ok ?n" and f: "futs_ok ?n (nu_futs w)" by (simp_all add: notify_inv_def)
  show ?thesis
  proof (cases "i \<in> set (nf_waiters ?n)")
    case mem: True
    let ?ws = "remove1 i (nf_waiters ?n)"
    have nn: "nw_notified (nf_nodes ?n i) = None" and w: "get_state (nf_state ?n) = NWAITING"
      using q mem by (auto simp: queue_ok_def split: if_splits)
    let ?m = "?n\<lparr>nf_waiters := ?ws, nf_state := (if ?ws = [] then set_state (nf_state ?n) NEMPTY else nf_state ?n)\<rparr>"
    have "notified_drop i st ?n = Inr ([], ?m)"
      using True nn w mem by (cases ?n) (auto simp: notified_drop_def wl_remove_def Let_def)
    moreover have "queue_ok ?m" using q w by (auto simp: queue_ok_def dest: notin_set_remove1)
    moreover have "futs_ok ?m ((nu_futs w)(i := None))"
      using f q by (auto simp: futs_ok_def queue_ok_def)
    ultimately show ?thesis using nn by (simp add: notify_inv_def calls_of_def)
  next
    case nmem: False
    then have "remove1 i (nf_waiters ?n) = nf_waiters ?n" by (rule remove1_idem)
    have st: "nf_waiters ?n = [] \<Longrightarrow> get_state (nf_state ?n) \<noteq> NWAITING" using q by (auto simp: queue_ok_def)
    have f': "futs_ok ?n ((nu_futs w)(i := None))" using f nmem by (auto simp: futs_ok_def)
    show ?thesis
    proof (cases "nw_notified (nf_nodes ?n i) = Some OneWaiter")
      case False
      then have "notified_drop i st ?n = Inr ([], ?n)"
        using True st nmem by (cases "nf_waiters ?n = []"; cases ?n) (auto simp: notified_drop_def wl_remove_def remove1_idem Let_def)
      then show ?thesis using q f' False by (simp add: notify_inv_def)
    next
      case one: True
      have drop: "notified_drop i st ?n = and_then (notify_locked (nf_state ?n) ?n) (\<lambda>(wk, n3). Inr (waker_list wk, n3))"
        using True st nmem one
        by (cases "nf_waiters ?n = []"; cases ?n) (auto simp: notified_drop_def wl_remove_def remove1_idem Let_def waker_list_def)
      show ?thesis
      proof (cases "nf_waiters ?n" rule: rev_cases)
        case Nil
        then have "get_state (nf_state ?n) \<in> {NEMPTY, NNOTIFIED}" using q by (simp add: queue_ok_def)
        from locked_stores [OF Nil this refl] drop Nil q f' show ?thesis
          by (auto simp: notify_inv_def waker_list_def calls_of_def queue_ok_def futs_ok_def)
      next
        case (snoc rest j)
        from locked_serves [OF q snoc refl] obtain s where
          lk: "notify_locked (nf_state ?n) ?n = Inr (nw_waker (nf_nodes ?n j),
             ?n\<lparr>nf_state := s, nf_waiters := rest,
               nf_nodes := (nf_nodes ?n)(j := \<lparr>nw_waker = None, nw_notified = Some OneWaiter\<rparr>)\<rparr>)"
          "drop_bit NOTIFY_WAITERS_SHIFT s = drop_bit NOTIFY_WAITERS_SHIFT (nf_state ?n)"
          "get_state s = (if rest = [] then NEMPTY else NWAITING)" by blast
        from serve_keeps [OF q f' snoc lk(3)] lk drop snoc show ?thesis
          by (simp add: notify_inv_def calls_of_def)
      qed
    qed
  qed
qed

lemma notify_one_keeps:
  assumes inv: "notify_inv w"
  shows "\<exists>ws n. notify_one (nu_notify w) = Some (Inr (ws, n)) \<and> notify_inv (w\<lparr>nu_notify := n\<rparr>) \<and>
           calls_of n = calls_of (nu_notify w) \<and>
           (if nf_waiters (nu_notify w) = [] then ws = [] \<and> nf_waiters n = [] \<and> get_state (nf_state n) = NNOTIFIED
            else nf_waiters n = butlast (nf_waiters (nu_notify w)) \<and>
                 nw_notified (nf_nodes n (last (nf_waiters (nu_notify w)))) = Some OneWaiter \<and>
                 ws = waker_list (nw_waker (nf_nodes (nu_notify w) (last (nf_waiters (nu_notify w))))))"
proof -
  let ?n = "nu_notify w"
  from inv have q: "queue_ok ?n" and f: "futs_ok ?n (nu_futs w)" by (simp_all add: notify_inv_def)
  show ?thesis
  proof (cases "nf_waiters ?n" rule: rev_cases)
    case Nil
    with notify_one_stores [OF q Nil] q f show ?thesis
      by (auto simp: notify_inv_def calls_of_def queue_ok_def futs_ok_def)
  next
    case (snoc rest j)
    from notify_one_serves [OF q snoc] obtain s where
      one: "notify_one ?n = Some (Inr (waker_list (nw_waker (nf_nodes ?n j)),
         ?n\<lparr>nf_state := s, nf_waiters := rest,
           nf_nodes := (nf_nodes ?n)(j := \<lparr>nw_waker = None, nw_notified = Some OneWaiter\<rparr>)\<rparr>))"
      "drop_bit NOTIFY_WAITERS_SHIFT s = drop_bit NOTIFY_WAITERS_SHIFT (nf_state ?n)"
      "get_state s = (if rest = [] then NEMPTY else NWAITING)" by blast
    from serve_keeps [OF q f snoc one(3)] one snoc show ?thesis
      by (simp add: notify_inv_def calls_of_def)
  qed
qed

lemma drop_push_inc:
  "unat d + 4 < 2 ^ 64 \<Longrightarrow>
     drop_bit NOTIFY_WAITERS_SHIFT (d + 2 ^ NOTIFY_WAITERS_SHIFT :: usize) = drop_bit NOTIFY_WAITERS_SHIFT d + 1"
proof -
  assume small: "unat d + 4 < 2 ^ 64"
  have "unat (d + 2 ^ NOTIFY_WAITERS_SHIFT) = unat d + 4"
    using small by (simp add: NOTIFY_WAITERS_SHIFT_def unat_word_ariths)
  then have "unat (drop_bit 2 (d + 2 ^ NOTIFY_WAITERS_SHIFT)) = unat d div 4 + 1"
    by (simp add: unat_drop_bit)
  moreover have "unat (drop_bit 2 d + 1) = unat d div 4 + 1"
    using small by (simp add: unat_word_ariths unat_drop_bit)
  ultimately show ?thesis by (simp add: NOTIFY_WAITERS_SHIFT_def word_unat_eq_iff)
qed

lemma notify_waiters_keeps:
  assumes inv: "notify_inv w" and room: "unat (nf_state (nu_notify w)) + 4 < 2 ^ 64"
  shows "\<exists>n. notify_waiters (nu_notify w) =
             Inr (nt_wakers (nf_nodes (nu_notify w)) (rev (nf_waiters (nu_notify w))), n) \<and>
           notify_inv (w\<lparr>nu_notify := n\<rparr>) \<and> nf_waiters n = [] \<and> calls_of n = calls_of (nu_notify w) + 1 \<and>
           (\<forall>i \<in> set (nf_waiters (nu_notify w)). nw_notified (nf_nodes n i) = Some AllWaiters) \<and>
           (get_state (nf_state n) = NNOTIFIED \<longleftrightarrow> get_state (nf_state (nu_notify w)) = NNOTIFIED) \<and>
           (\<forall>i. i \<notin> set (nf_waiters (nu_notify w)) \<longrightarrow> nf_nodes n i = nf_nodes (nu_notify w) i)"
proof -
  let ?n = "nu_notify w"
  from inv have q: "queue_ok ?n" and f: "futs_ok ?n (nu_futs w)" by (simp_all add: notify_inv_def)
  show ?thesis
  proof (cases "nf_waiters ?n = []")
    case True
    then show ?thesis using q f room
      by (auto simp: notify_waiters_def queue_ok_def futs_ok_def notify_inv_def calls_of_def drop_push_inc
          atomic_inc_num_notify_waiters_calls_def nt_wakers_def)
  next
    case False
    then have st: "get_state (nf_state ?n) = NWAITING" and d: "distinct (nf_waiters ?n)"
      and nn: "\<forall>i \<in> set (nf_waiters ?n). nw_notified (nf_nodes ?n i) = None" using q by (auto simp: queue_ok_def)
    have sh: "unat (push_bit NOTIFY_WAITERS_SHIFT 1 :: usize) = 4" by (simp add: NOTIFY_WAITERS_SHIFT_def push_bit_eq_mult)
    show ?thesis using st notify_all_loop_eq [OF d nn, of "[]"] q f room sh
      by (auto simp: notify_waiters_def queue_ok_def futs_ok_def notify_inv_def calls_of_def drop_push_inc
          inc_num_notify_waiters_calls_def)
  qed
qed

lemma notify_step_inv: "notify_step w w' \<Longrightarrow> notify_inv w \<Longrightarrow> notify_inv w'"
proof (induction rule: notify_step.induct)
  case (nt_created w i st n)
  then show ?case
    by (auto simp: notify_notified_def notify_inv_def queue_ok_def futs_ok_def nwaiter_new_def)
next
  case (nt_polled w i st waker r st' n)
  from notify_poll_keeps [OF nt_polled(3,1), of waker] nt_polled(2) show ?case by auto
next
  case (nt_dropped w i st ws n)
  from notify_drop_keeps [OF nt_dropped(3,1)] nt_dropped(2) show ?case by auto
next
  case (nt_one w ws n)
  from notify_one_keeps [OF nt_one(2)] nt_one(1) show ?case by auto
next
  case (nt_all w ws n)
  let ?n = "nu_notify w"
  have q: "queue_ok ?n" and f: "futs_ok ?n (nu_futs w)" using nt_all(2) by (simp_all add: notify_inv_def)
  show ?case
  proof (cases "nf_waiters ?n = []")
    case True
    then show ?thesis using q f nt_all(1)
      by (auto simp: notify_waiters_def queue_ok_def futs_ok_def notify_inv_def atomic_inc_num_notify_waiters_calls_def)
  next
    case False
    then have "get_state (nf_state ?n) = NWAITING" and d: "distinct (nf_waiters ?n)"
      and nn: "\<forall>i \<in> set (nf_waiters ?n). nw_notified (nf_nodes ?n i) = None" using q by (auto simp: queue_ok_def)
    then show ?thesis using notify_all_loop_eq [OF d nn, of "[]"] f nt_all(1)
      by (auto simp: notify_waiters_def queue_ok_def futs_ok_def notify_inv_def and_then_eq_Inr)
  qed
qed

inductive notify_reach :: "notify_use \<Rightarrow> bool" where
  "notify_reach \<lparr>nu_notify = notify_new, nu_futs = (\<lambda>_. None)\<rparr>"
| "notify_reach w \<Longrightarrow> notify_step w w' \<Longrightarrow> notify_reach w'"

lemma get_zero: "get_state 0 = NEMPTY" by (simp add: get_state_def NEMPTY_def)

lemma notify_reach_inv: "notify_reach w \<Longrightarrow> notify_inv w"
proof (induction rule: notify_reach.induct)
  case 1
  show ?case by (simp add: notify_inv_def queue_ok_def futs_ok_def notify_new_def get_zero)
next
  case (2 w w')
  then show ?case by (blast intro: notify_step_inv)
qed

section \<open>What the notifier promises\<close>

text \<open>
  A poll of a \<open>Notified\<close> future always returns without a panic. It waits exactly when no
  notification is stored and \<open>notify_waiters\<close> was not called since the future was made (first poll), or
  when it has not been notified (later polls); otherwise it is ready.
\<close>

lemma notified_poll_answers:
  assumes "notify_reach w" "nu_futs w i = Some st"
  shows "\<exists>r st' n. notified_poll cx i st (nu_notify w) = Some (Inr (r, st', n)) \<and>
           (r = Pending \<longleftrightarrow> poll_waits (nu_notify w) i st) \<and> (r = Pending \<longrightarrow> st' = NtWaiting)"
proof -
  have q: "queue_ok (nu_notify w)" using notify_reach_inv [OF assms(1)] by (simp add: notify_inv_def)
  show ?thesis
    by (cases st) (auto simp: notified_poll_def poll_init_eq [OF q] poll_waiting_eq poll_waits_def)
qed

text \<open>
  \<open>notify_one\<close> always returns without a panic. With waiters it notifies the one that waited longest,
  and no other, and wakes it; without, it stores the notification.
\<close>

lemma notify_one_serves_oldest:
  assumes "notify_reach w"
  shows "\<exists>ws n. notify_one (nu_notify w) = Some (Inr (ws, n)) \<and>
           (if nf_waiters (nu_notify w) = [] then ws = [] \<and> nf_waiters n = [] \<and> get_state (nf_state n) = NNOTIFIED
            else nf_waiters n = butlast (nf_waiters (nu_notify w)) \<and>
                 nw_notified (nf_nodes n (last (nf_waiters (nu_notify w)))) = Some OneWaiter \<and>
                 ws = waker_list (nw_waker (nf_nodes (nu_notify w) (last (nf_waiters (nu_notify w))))))"
  using notify_one_keeps [OF notify_reach_inv [OF assms]] by blast

text \<open>
  \<open>notify_waiters\<close> notifies every waiter and wakes them oldest first, counts the call (so that
  futures made before it are ready at their first poll), and neither stores nor consumes a notification.
\<close>

lemma notify_waiters_wakes_all:
  assumes "notify_reach w" "unat (nf_state (nu_notify w)) + 4 < 2 ^ 64"
  shows "\<exists>n. notify_waiters (nu_notify w) =
             Inr (nt_wakers (nf_nodes (nu_notify w)) (rev (nf_waiters (nu_notify w))), n) \<and>
           nf_waiters n = [] \<and> calls_of n = calls_of (nu_notify w) + 1 \<and>
           (\<forall>i \<in> set (nf_waiters (nu_notify w)). nw_notified (nf_nodes n i) = Some AllWaiters) \<and>
           (get_state (nf_state n) = NNOTIFIED \<longleftrightarrow> get_state (nf_state (nu_notify w)) = NNOTIFIED)"
  using notify_waiters_keeps [OF notify_reach_inv [OF assms(1)] assms(2)] by blast

text \<open>
  C24: No notification is lost when a future is dropped: if it had been notified by \<open>notify_one\<close> and not
  polled since, the next waiter is notified and woken instead, or the notification is stored.
\<close>

theorem dropped_notification_is_passed_on:
  assumes "notify_reach w" "nu_futs w i = Some NtWaiting" "nw_notified (nf_nodes (nu_notify w) i) = Some OneWaiter"
  shows "\<exists>ws n. notified_drop i NtWaiting (nu_notify w) = Inr (ws, n) \<and>
           (if nf_waiters (nu_notify w) = [] then get_state (nf_state n) = NNOTIFIED
            else nf_waiters n = butlast (nf_waiters (nu_notify w)) \<and>
                 nw_notified (nf_nodes n (last (nf_waiters (nu_notify w)))) = Some OneWaiter \<and>
                 ws = waker_list (nw_waker (nf_nodes (nu_notify w) (last (nf_waiters (nu_notify w))))))"
  using notify_drop_keeps [OF notify_reach_inv [OF assms(1)] assms(2)] assms(3) by (auto split: if_splits)

text \<open>A run: two futures wait, one is notified.\<close>

definition notify_world :: "usize \<Rightarrow> nat list \<Rightarrow> (nat \<Rightarrow> nwaiter) \<Rightarrow> (nat \<Rightarrow> notified_state option) \<Rightarrow> notify_use" where
  "notify_world st ws nodes futs = \<lparr>nu_notify = \<lparr>nf_state = st, nf_waiters = ws, nf_nodes = nodes\<rparr>, nu_futs = futs\<rparr>"

lemma notify_world_waiting:
  "notify_reach (notify_world 1 [4] ((\<lambda>_. nwaiter_new)(4 := \<lparr>nw_waker = Some 9, nw_notified = None\<rparr>)) [4 \<mapsto> NtWaiting])"
proof -
  let ?w0 = "notify_world 0 [] (\<lambda>_. nwaiter_new) (\<lambda>_. None)"
  let ?w1 = "notify_world 0 [] (\<lambda>_. nwaiter_new) [4 \<mapsto> NtInit 0]"
  have r0: "notify_reach ?w0" using notify_reach.intros(1) by (simp add: notify_world_def notify_new_def)
  have "notify_step ?w0 (?w0\<lparr>nu_notify := nu_notify ?w1, nu_futs := (nu_futs ?w0)(4 \<mapsto> NtInit 0)\<rparr>)"
    by (rule nt_created) (simp_all add: notify_world_def notify_notified_def fun_upd_idem)
  with r0 have r1: "notify_reach ?w1" by (auto simp: notify_world_def dest: notify_reach.intros(2))
  have "queue_ok (nu_notify ?w1)" by (simp add: notify_world_def queue_ok_def get_zero)
  from poll_init_eq [OF this, of "Some 9" 4 0]
  have "poll_notified (Some 9) 4 (NtInit 0) (nu_notify ?w1) = Some (Inr (Pending, NtWaiting,
      \<lparr>nf_state = 1, nf_waiters = [4], nf_nodes = (\<lambda>_. nwaiter_new)(4 := \<lparr>nw_waker = Some 9, nw_notified = None\<rparr>)\<rparr>))"
    by (simp add: notify_world_def get_zero calls_of_def set_nwaker_def nwaiter_new_def)
       (simp add: set_state_def state_defs)
  from nt_polled [OF _ this] r1 show ?thesis
    by (auto simp: notify_world_def dest: notify_reach.intros(2))
qed

lemma notified_poll_answers_witness:
  "\<exists>r st' n. notified_poll 9 4 NtWaiting (nu_notify (notify_world 1 [4]
     ((\<lambda>_. nwaiter_new)(4 := \<lparr>nw_waker = Some 9, nw_notified = None\<rparr>)) [4 \<mapsto> NtWaiting])) = Some (Inr (r, st', n)) \<and> r = Pending"
  using notified_poll_answers [OF notify_world_waiting, of 4 NtWaiting 9]
  by (auto simp: notify_world_def poll_waits_def)

lemma notify_one_serves_oldest_witness:
  "\<exists>n. notify_one (nu_notify (notify_world 1 [4]
     ((\<lambda>_. nwaiter_new)(4 := \<lparr>nw_waker = Some 9, nw_notified = None\<rparr>)) [4 \<mapsto> NtWaiting])) = Some (Inr ([9], n)) \<and>
     nf_waiters n = []"
  using notify_one_serves_oldest [OF notify_world_waiting] by (auto simp: notify_world_def waker_list_def)

lemma notify_waiters_wakes_all_witness:
  "\<exists>n. notify_waiters (nu_notify (notify_world 1 [4]
     ((\<lambda>_. nwaiter_new)(4 := \<lparr>nw_waker = Some 9, nw_notified = None\<rparr>)) [4 \<mapsto> NtWaiting])) = Inr ([9], n) \<and> calls_of n = 1"
  using notify_waiters_wakes_all [OF notify_world_waiting]
  by (auto simp: notify_world_def waker_list_def nt_wakers_def calls_of_def NOTIFY_WAITERS_SHIFT_def)

lemma notify_world_notified:
  "\<exists>n. notify_reach \<lparr>nu_notify = n, nu_futs = [4 \<mapsto> NtWaiting]\<rparr> \<and> nf_waiters n = [] \<and>
     nw_notified (nf_nodes n 4) = Some OneWaiter"
proof -
  from notify_one_keeps [OF notify_reach_inv [OF notify_world_waiting]] obtain n where
    one: "notify_one (nu_notify (notify_world 1 [4]
       ((\<lambda>_. nwaiter_new)(4 := \<lparr>nw_waker = Some 9, nw_notified = None\<rparr>)) [4 \<mapsto> NtWaiting])) = Some (Inr ([9], n))"
    "nf_waiters n = []" "nw_notified (nf_nodes n 4) = Some OneWaiter"
    by (auto simp: notify_world_def waker_list_def)
  from nt_one [OF one(1)] notify_world_waiting one(2,3) show ?thesis
    by (auto simp: notify_world_def dest: notify_reach.intros(2))
qed

theorem dropped_notification_is_passed_on_witness:
  "\<exists>n ws n'. nw_notified (nf_nodes n 4) = Some OneWaiter \<and> notified_drop 4 NtWaiting n = Inr (ws, n') \<and>
     get_state (nf_state n') = NNOTIFIED"
proof -
  from notify_world_notified obtain n where
    n: "notify_reach \<lparr>nu_notify = n, nu_futs = [4 \<mapsto> NtWaiting]\<rparr>" "nf_waiters n = []" "nw_notified (nf_nodes n 4) = Some OneWaiter"
    by blast
  from dropped_notification_is_passed_on [OF n(1), of 4] n(2,3) show ?thesis by auto
qed

end
