(* ===== verification/Watch.thy ===== *)
theory Watch
  imports Notify
begin

text \<open>
  \<open>sync/watch.rs\<close>: one value, a version that every send advances by two (bit 0 of the state word says
  that the sender is gone), and the number of receivers. Receivers keep the version they saw. The
  \<open>std\<close> lock around the value is left out: each operation here runs as a whole, which is how a
  single thread sees it when it keeps no \<open>Ref\<close> across a send. The state of use keeps, for each call of
  \<open>changed\<close> that waits, the waker of its last poll until an operation calls it.
\<close>

section \<open>State\<close>

record 'a watch =
  wt_value :: 'a
  wt_state :: usize
  wt_ref_count_rx :: usize
  wt_notify_rx :: notify
  wt_notify_tx :: notify

definition WCLOSED :: usize where "WCLOSED = 1"

definition version_initial :: usize where "version_initial = 0"

definition snapshot_version :: "usize \<Rightarrow> usize" where
  "snapshot_version st = st AND NOT WCLOSED"

definition snapshot_is_closed :: "usize \<Rightarrow> bool" where
  "snapshot_is_closed st \<longleftrightarrow> st AND WCLOSED = WCLOSED"

definition increment_version :: "usize \<Rightarrow> usize" where
  "increment_version st = st + 2"

definition set_closed :: "usize \<Rightarrow> usize" where
  "set_closed st = st OR WCLOSED"

text \<open>\<open>channel\<close>: the shared state and the version of the first receiver.\<close>

definition watch_channel :: "'a \<Rightarrow> 'a watch \<times> usize" where
  "watch_channel init =
     (\<lparr>wt_value = init, wt_state = 0, wt_ref_count_rx = 1, wt_notify_rx = notify_new, wt_notify_tx = notify_new\<rparr>,
      version_initial)"

section \<open>Receivers\<close>

definition watch_from_shared :: "usize \<Rightarrow> 'a watch \<Rightarrow> usize \<times> 'a watch" where
  "watch_from_shared v w = (v, w\<lparr>wt_ref_count_rx := wt_ref_count_rx w + 1\<rparr>)"

definition watch_borrow :: "'a watch \<Rightarrow> 'a" where
  "watch_borrow w = wt_value w"

definition watch_borrow_and_update :: "'a watch \<Rightarrow> 'a \<times> usize" where
  "watch_borrow_and_update w = (wt_value w, snapshot_version (wt_state w))"

text \<open>\<open>None\<close> is \<open>Err(RecvError)\<close>.\<close>

definition watch_has_changed :: "usize \<Rightarrow> 'a watch \<Rightarrow> bool option" where
  "watch_has_changed v w =
     (if snapshot_is_closed (wt_state w) then None else Some (v \<noteq> snapshot_version (wt_state w)))"

text \<open>\<open>maybe_changed\<close>: the answer (\<open>True\<close> for \<open>Ok(())\<close>, \<open>False\<close> for the error) and the version.\<close>

definition maybe_changed :: "'a watch \<Rightarrow> usize \<Rightarrow> bool option \<times> usize" where
  "maybe_changed w v =
     (let state = wt_state w; new_version = snapshot_version state in
      if v \<noteq> new_version then (Some True, new_version)
      else if snapshot_is_closed state then (Some False, v)
      else (None, v))"

text \<open>
  \<open>changed().await\<close>: the future keeps a \<open>Notified\<close> future, numbered \<open>i\<close>, between its polls (\<open>None\<close>: not
  polled yet). A poll runs the loop until it returns or has to wait. Dropping a \<open>Notified\<close> that
  never waited or has finished does nothing, so only the waiting one is dropped in \<open>changed_drop\<close>.
\<close>

partial_function (option) changed_loop ::
    "waker \<Rightarrow> nat \<Rightarrow> usize \<Rightarrow> notified_state option \<Rightarrow> 'a watch \<Rightarrow>
     (bool poll \<times> usize \<times> notified_state option \<times> 'a watch) outcome option" where
  "changed_loop cx i v fut w =
     (case fut of
        None \<Rightarrow>
          let (nst, n1) = notify_notified i (wt_notify_rx w); w1 = w\<lparr>wt_notify_rx := n1\<rparr> in
          (case maybe_changed w1 v of
             (Some ret, v') \<Rightarrow> Some (Inr (Ready ret, v', None, w1))
           | (None, v') \<Rightarrow> changed_loop cx i v' (Some nst) w1)
      | Some nst \<Rightarrow>
          bind_oo (notified_poll cx i nst (wt_notify_rx w)) (\<lambda>(r, nst', n').
            let w' = w\<lparr>wt_notify_rx := n'\<rparr> in
            case r of
              Pending \<Rightarrow> Some (Inr (Pending, v, Some nst', w'))
            | Ready _ \<Rightarrow> changed_loop cx i v None w'))"

definition changed_drop :: "nat \<Rightarrow> notified_state option \<Rightarrow> 'a watch \<Rightarrow> (waker list \<times> 'a watch) outcome" where
  "changed_drop i fut w =
     (case fut of
        None \<Rightarrow> Inr ([], w)
      | Some nst \<Rightarrow> and_then (notified_drop i nst (wt_notify_rx w)) (\<lambda>(ws, n). Inr (ws, w\<lparr>wt_notify_rx := n\<rparr>)))"

definition watch_clone :: "usize \<Rightarrow> 'a watch \<Rightarrow> usize \<times> 'a watch" where
  "watch_clone v w = watch_from_shared v w"

definition watch_receiver_drop :: "'a watch \<Rightarrow> (waker list \<times> 'a watch) outcome" where
  "watch_receiver_drop w =
     (let old = wt_ref_count_rx w; w1 = w\<lparr>wt_ref_count_rx := old - 1\<rparr> in
      if old = 1
      then and_then (notify_waiters (wt_notify_tx w1)) (\<lambda>(ws, n). Inr (ws, w1\<lparr>wt_notify_tx := n\<rparr>))
      else Inr ([], w1))"

section \<open>The sender\<close>

definition watch_receiver_count :: "'a watch \<Rightarrow> usize" where
  "watch_receiver_count w = wt_ref_count_rx w"

text \<open>
  The closure of \<open>send_if_modified\<close> answers whether it modified the value, or panics (\<open>None\<close>); either way
  it may have written the value. A panic is passed on after the lock is released.
\<close>

definition watch_send_if_modified ::
    "('a \<Rightarrow> bool option \<times> 'a) \<Rightarrow> 'a watch \<Rightarrow> (bool \<times> waker list) outcome \<times> 'a watch" where
  "watch_send_if_modified modify w =
     (case modify (wt_value w) of (result, value) \<Rightarrow>
      let w1 = w\<lparr>wt_value := value\<rparr> in
      case result of
        None \<Rightarrow> (Inl ExplicitPanic, w1)
      | Some False \<Rightarrow> (Inr (False, []), w1)
      | Some True \<Rightarrow>
          let w2 = w1\<lparr>wt_state := increment_version (wt_state w1)\<rparr> in
          (case notify_waiters (wt_notify_rx w2) of
             Inl e \<Rightarrow> (Inl e, w2)
           | Inr (ws, n) \<Rightarrow> (Inr (True, ws), w2\<lparr>wt_notify_rx := n\<rparr>)))"

definition watch_send_modify :: "('a \<Rightarrow> 'a) \<Rightarrow> 'a watch \<Rightarrow> (bool \<times> waker list) outcome \<times> 'a watch" where
  "watch_send_modify modify w = watch_send_if_modified (\<lambda>value. (Some True, modify value)) w"

definition watch_send_replace :: "'a \<Rightarrow> 'a watch \<Rightarrow> ('a \<times> waker list) outcome \<times> 'a watch" where
  "watch_send_replace value w =
     (case watch_send_modify (\<lambda>_. value) w of
        (Inl e, w') \<Rightarrow> (Inl e, w')
      | (Inr (_, ws), w') \<Rightarrow> (Inr (wt_value w, ws), w'))"

text \<open>\<open>send\<close> gives the value back when there is no receiver.\<close>

definition watch_send :: "'a \<Rightarrow> 'a watch \<Rightarrow> ('a option \<times> waker list) outcome \<times> 'a watch" where
  "watch_send value w =
     (if 0 = watch_receiver_count w then (Inr (Some value, []), w)
      else case watch_send_replace value w of
          (Inl e, w') \<Rightarrow> (Inl e, w')
        | (Inr (_, ws), w') \<Rightarrow> (Inr (None, ws), w'))"

definition watch_is_closed :: "'a watch \<Rightarrow> bool" where
  "watch_is_closed w \<longleftrightarrow> watch_receiver_count w = 0"

partial_function (option) closed_loop ::
    "waker \<Rightarrow> nat \<Rightarrow> notified_state option \<Rightarrow> 'a watch \<Rightarrow>
     (unit poll \<times> notified_state option \<times> 'a watch) outcome option" where
  "closed_loop cx i fut w =
     (case fut of
        None \<Rightarrow>
          if \<not> watch_receiver_count w > 0 then Some (Inr (Ready (), None, w))
          else
            let (nst, n1) = notify_notified i (wt_notify_tx w); w1 = w\<lparr>wt_notify_tx := n1\<rparr> in
            if watch_receiver_count w1 = 0 then Some (Inr (Ready (), None, w1))
            else closed_loop cx i (Some nst) w1
      | Some nst \<Rightarrow>
          bind_oo (notified_poll cx i nst (wt_notify_tx w)) (\<lambda>(r, nst', n').
            let w' = w\<lparr>wt_notify_tx := n'\<rparr> in
            case r of
              Pending \<Rightarrow> Some (Inr (Pending, Some nst', w'))
            | Ready _ \<Rightarrow> closed_loop cx i None w'))"

definition watch_subscribe :: "'a watch \<Rightarrow> usize \<times> 'a watch" where
  "watch_subscribe w = watch_from_shared (snapshot_version (wt_state w)) w"

definition watch_sender_drop :: "'a watch \<Rightarrow> (waker list \<times> 'a watch) outcome" where
  "watch_sender_drop w =
     (let w1 = w\<lparr>wt_state := set_closed (wt_state w)\<rparr> in
      and_then (notify_waiters (wt_notify_rx w1)) (\<lambda>(ws, n). Inr (ws, w1\<lparr>wt_notify_rx := n\<rparr>)))"

section \<open>Versions\<close>

lemma bit_version: "bit (snapshot_version st) k \<longleftrightarrow> bit st k \<and> k \<noteq> 0"
  by (auto simp: snapshot_version_def WCLOSED_def bit_simps dest: bit_imp_le_length)

lemma closed_bit: "snapshot_is_closed st \<longleftrightarrow> bit st 0"
  using flag_test_bit [of 0 st] by (simp add: snapshot_is_closed_def WCLOSED_def)

lemma version_set_closed [simp]: "snapshot_version (set_closed st) = snapshot_version st" "snapshot_is_closed (set_closed st)"
proof -
  show "snapshot_version (set_closed st) = snapshot_version st"
    by (rule bit_word_eqI) (auto simp: bit_version set_closed_def WCLOSED_def bit_simps)
  show "snapshot_is_closed (set_closed st)"
    by (simp add: closed_bit set_closed_def WCLOSED_def bit_simps)
qed

lemma version_incr [simp]:
  "snapshot_version (increment_version st) = snapshot_version st + 2"
  "snapshot_is_closed (increment_version st) = snapshot_is_closed st"
proof -
  have add: "snapshot_version st + (st AND 1) = st" for st
  proof -
    have "snapshot_version st AND (st AND 1) = 0" "snapshot_version st OR (st AND 1) = st"
      by (rule bit_word_eqI, force simp: bit_version bit_simps)+
    then show ?thesis using word_plus_and_or [of "snapshot_version st" "st AND 1"] by simp
  qed
  have low: "(st + 2) AND 1 = st AND 1" for st :: usize
    using bit_add_push_low [of 0 1 st 1] by (intro bit_word_eqI) (auto simp: bit_simps push_bit_eq_mult)
  have "snapshot_version (st + 2) + (st AND 1) = (snapshot_version st + 2) + (st AND 1)"
    using add [of st] add [of "st + 2"] low [of st] by (simp add: ac_simps)
  then show "snapshot_version (increment_version st) = snapshot_version st + 2"
    by (simp add: increment_version_def)
  show "snapshot_is_closed (increment_version st) = snapshot_is_closed st"
    using low [of st] by (simp add: snapshot_is_closed_def increment_version_def WCLOSED_def)
qed

lemma version_init [simp]: "snapshot_version 0 = 0" "\<not> snapshot_is_closed 0"
  by (simp_all add: snapshot_version_def snapshot_is_closed_def WCLOSED_def)

section \<open>A channel in use\<close>

text \<open>
  The receivers and the versions they saw, the \<open>changed\<close> futures that wait (a receiver has at most one),
  and three ghosts: all values the channel ever held, newest first, how many sends each receiver saw, and
  the waker each waiting call was last polled with, until an operation on the channel wakes it.
\<close>

record 'a watch_use =
  wu_shared :: "'a watch"
  wu_tx :: bool
  wu_rx :: "nat \<Rightarrow> usize option"
  wu_futs :: "nat \<Rightarrow> notified_state option"
  wu_hist :: "'a list"
  wu_seen :: "nat \<Rightarrow> nat"
  wu_wakers :: "nat \<Rightarrow> waker option"

text \<open>The calls that still wait for their wake-up after the wakers \<open>ws\<close> were called.\<close>

definition unwoken :: "waker list \<Rightarrow> (nat \<Rightarrow> waker option) \<Rightarrow> nat \<Rightarrow> waker option" where
  "unwoken ws wk i = (case wk i of None \<Rightarrow> None | Some k \<Rightarrow> if k \<in> set ws then None else Some k)"

definition woken_by :: "('b \<times> waker list) outcome \<Rightarrow> waker list" where
  "woken_by r = (case r of Inl _ \<Rightarrow> [] | Inr (_, ws) \<Rightarrow> ws)"

definition sends :: "'a watch_use \<Rightarrow> nat" where
  "sends w = length (wu_hist w) - 1"

inductive watch_step :: "'a watch_use \<Rightarrow> 'a watch_use \<Rightarrow> bool" where
  wt_polled: "wu_rx w i = Some v \<Longrightarrow> changed_loop cx i v (wu_futs w i) (wu_shared w) = Some (Inr (r, v', fut, sh)) \<Longrightarrow>
     watch_step w (w\<lparr>wu_shared := sh, wu_rx := (wu_rx w)(i \<mapsto> v'), wu_futs := (wu_futs w)(i := fut),
       wu_seen := (if r = Ready True then (wu_seen w)(i := sends w) else wu_seen w),
       wu_wakers := (wu_wakers w)(i := if r = Pending then Some cx else None)\<rparr>)"
| wt_cancelled: "wu_rx w i = Some v \<Longrightarrow> changed_drop i (wu_futs w i) (wu_shared w) = Inr (ws, sh) \<Longrightarrow>
     watch_step w (w\<lparr>wu_shared := sh, wu_futs := (wu_futs w)(i := None),
       wu_wakers := unwoken ws ((wu_wakers w)(i := None))\<rparr>)"
| wt_updated: "wu_rx w i = Some v \<Longrightarrow> wu_futs w i = None \<Longrightarrow> watch_borrow_and_update (wu_shared w) = (x, v') \<Longrightarrow>
     watch_step w (w\<lparr>wu_rx := (wu_rx w)(i \<mapsto> v'), wu_seen := (wu_seen w)(i := sends w)\<rparr>)"
| wt_cloned: "wu_rx w j = Some v \<Longrightarrow> wu_rx w i = None \<Longrightarrow> watch_clone v (wu_shared w) = (v', sh) \<Longrightarrow>
     watch_step w (w\<lparr>wu_shared := sh, wu_rx := (wu_rx w)(i \<mapsto> v'), wu_seen := (wu_seen w)(i := wu_seen w j)\<rparr>)"
| wt_subscribed: "wu_tx w \<Longrightarrow> wu_rx w i = None \<Longrightarrow> watch_subscribe (wu_shared w) = (v', sh) \<Longrightarrow>
     watch_step w (w\<lparr>wu_shared := sh, wu_rx := (wu_rx w)(i \<mapsto> v'), wu_seen := (wu_seen w)(i := sends w)\<rparr>)"
| wt_rx_dropped: "wu_rx w i = Some v \<Longrightarrow> wu_futs w i = None \<Longrightarrow> watch_receiver_drop (wu_shared w) = Inr (ws, sh) \<Longrightarrow>
     watch_step w (w\<lparr>wu_shared := sh, wu_rx := (wu_rx w)(i := None)\<rparr>)"
| wt_sent: "wu_tx w \<Longrightarrow> length (wu_hist w) < 2 ^ 61 \<Longrightarrow> watch_send x (wu_shared w) = (Inr (rest, ws), sh) \<Longrightarrow>
     watch_step w (w\<lparr>wu_shared := sh, wu_hist := (if rest = None then x # wu_hist w else wu_hist w),
       wu_wakers := unwoken ws (wu_wakers w)\<rparr>)"
| wt_modified: "wu_tx w \<Longrightarrow> length (wu_hist w) < 2 ^ 61 \<Longrightarrow> watch_send_if_modified f (wu_shared w) = (r, sh) \<Longrightarrow>
     watch_step w (w\<lparr>wu_shared := sh, wu_hist := wt_value sh # (if fst (f (wt_value (wu_shared w))) = Some True
       then wu_hist w else tl (wu_hist w)), wu_wakers := unwoken (woken_by r) (wu_wakers w)\<rparr>)"
| wt_tx_dropped: "wu_tx w \<Longrightarrow> watch_sender_drop (wu_shared w) = Inr (ws, sh) \<Longrightarrow>
     watch_step w (w\<lparr>wu_shared := sh, wu_tx := False, wu_wakers := unwoken ws (wu_wakers w)\<rparr>)"

text \<open>Only \<open>notify_waiters\<close> is called on this notifier, so it stores nothing.\<close>

definition plain_notify :: "notify \<Rightarrow> bool" where
  "plain_notify n \<longleftrightarrow> get_state (nf_state n) \<noteq> NNOTIFIED \<and> (\<forall>i. nw_notified (nf_nodes n i) \<noteq> Some OneWaiter)"

definition watch_inv :: "'a watch_use \<Rightarrow> bool" where
  "watch_inv w \<longleftrightarrow>
     notify_inv \<lparr>nu_notify = wt_notify_rx (wu_shared w), nu_futs = wu_futs w\<rparr> \<and>
     plain_notify (wt_notify_rx (wu_shared w)) \<and>
     wu_hist w \<noteq> [] \<and> wt_value (wu_shared w) = hd (wu_hist w) \<and> length (wu_hist w) \<le> 2 ^ 61 \<and>
     unat (calls_of (wt_notify_rx (wu_shared w))) \<le> length (wu_hist w) \<and>
     (wu_tx w \<longrightarrow> unat (calls_of (wt_notify_rx (wu_shared w))) < length (wu_hist w)) \<and>
     snapshot_version (wt_state (wu_shared w)) = of_nat (2 * sends w) \<and>
     snapshot_is_closed (wt_state (wu_shared w)) = (\<not> wu_tx w) \<and>
     (\<forall>i v. wu_rx w i = Some v \<longrightarrow> v = of_nat (2 * wu_seen w i) \<and> wu_seen w i \<le> sends w) \<and>
     (\<forall>i st. wu_futs w i = Some st \<longrightarrow> st = NtWaiting \<and> wu_rx w i \<noteq> None \<and>
        (nw_notified (nf_nodes (wt_notify_rx (wu_shared w)) i) = None \<longrightarrow> wu_seen w i = sends w \<and> wu_tx w))"

text \<open>
  The waker of a waiting call that no operation has woken since its last poll is the one its node in the
  queue of the notifier holds.
\<close>

definition waker_held :: "notified_state option \<Rightarrow> nwaiter \<Rightarrow> waker option \<Rightarrow> bool" where
  "waker_held fut node wk \<longleftrightarrow>
     (if fut \<noteq> None \<and> nw_notified node = None then wk \<noteq> None \<and> wk = nw_waker node else wk = None)"

definition wakers_ok :: "'a watch_use \<Rightarrow> bool" where
  "wakers_ok w \<longleftrightarrow>
     (\<forall>i. waker_held (wu_futs w i) (nf_nodes (wt_notify_rx (wu_shared w)) i) (wu_wakers w i)) \<and>
     (\<forall>i. wu_futs w i \<noteq> None \<and> wu_wakers w i = None \<longrightarrow> wu_seen w i < sends w \<or> \<not> wu_tx w)"

lemma wakers_okI:
  assumes "wakers_ok w"
    and "\<And>j. j \<noteq> i \<Longrightarrow> wu_futs w' j = wu_futs w j \<and> wu_wakers w' j = wu_wakers w j \<and> wu_seen w' j = wu_seen w j \<and>
           nf_nodes (wt_notify_rx (wu_shared w')) j = nf_nodes (wt_notify_rx (wu_shared w)) j"
    and "sends w' = sends w" "wu_tx w' = wu_tx w"
    and "waker_held (wu_futs w' i) (nf_nodes (wt_notify_rx (wu_shared w')) i) (wu_wakers w' i)"
    and "wu_futs w' i = None \<or> wu_wakers w' i \<noteq> None \<or> wu_seen w' i = wu_seen w i \<and> wu_futs w i \<noteq> None \<and> wu_wakers w i = None"
  shows "wakers_ok w'"
  using assms unfolding wakers_ok_def by metis

lemma watch_inv_wakers [simp]: "watch_inv (w\<lparr>wu_wakers := f\<rparr>) = watch_inv w"
  by (simp add: watch_inv_def sends_def)

lemma version_eq:
  assumes "watch_inv w" "wu_rx w i = Some v"
  shows "v = snapshot_version (wt_state (wu_shared w)) \<longleftrightarrow> wu_seen w i = sends w"
proof -
  from assms have v: "v = of_nat (2 * wu_seen w i)" and le: "wu_seen w i \<le> sends w" and
    s: "snapshot_version (wt_state (wu_shared w)) = of_nat (2 * sends w)" and b: "sends w < 2 ^ 61"
    by (auto simp: watch_inv_def sends_def)
  have "unat (of_nat (2 * k) :: usize) = 2 * k" if "k < 2 ^ 61" for k
    using that by (intro unat_of_nat_small) simp
  then have "2 * wu_seen w i = 2 * sends w" if "(of_nat (2 * wu_seen w i) :: usize) = of_nat (2 * sends w)"
    using that le b by (metis le_less_trans)
  then show ?thesis using v s by auto
qed

lemma maybe_changed_eq:
  assumes "watch_inv w" "wu_rx w i = Some v" "wt_state sh = wt_state (wu_shared w)"
  shows "maybe_changed sh v =
    (if wu_seen w i \<noteq> sends w then (Some True, of_nat (2 * sends w))
     else if wu_tx w then (None, v) else (Some False, v))"
  using version_eq [OF assms(1,2)] assms by (auto simp: maybe_changed_def Let_def watch_inv_def)

text \<open>The first poll of \<open>changed\<close>.\<close>

definition fresh_node :: "nat \<Rightarrow> 'a watch \<Rightarrow> 'a watch" where
  "fresh_node i sh = sh\<lparr>wt_notify_rx := (wt_notify_rx sh)\<lparr>nf_nodes := (nf_nodes (wt_notify_rx sh))(i := nwaiter_new)\<rparr>\<rparr>"

lemma changed_start:
  assumes inv: "watch_inv w" and rx: "wu_rx w i = Some v"
    and sh: "wt_state sh = wt_state (wu_shared w)" and q: "queue_ok (wt_notify_rx (fresh_node i sh))"
    and st: "get_state (nf_state (wt_notify_rx sh)) \<noteq> NNOTIFIED"
  shows "changed_loop cx i v None sh = Some (Inr
    (if wu_seen w i \<noteq> sends w then (Ready True, of_nat (2 * sends w), None, fresh_node i sh)
     else if \<not> wu_tx w then (Ready False, v, None, fresh_node i sh)
     else (Pending, v, Some NtWaiting,
       sh\<lparr>wt_notify_rx := (wt_notify_rx sh)\<lparr>nf_state := (if get_state (nf_state (wt_notify_rx sh)) = NEMPTY
             then set_state (nf_state (wt_notify_rx sh)) NWAITING else nf_state (wt_notify_rx sh)),
           nf_nodes := (nf_nodes (wt_notify_rx sh))(i := set_nwaker (Some cx) nwaiter_new),
           nf_waiters := i # nf_waiters (wt_notify_rx sh)\<rparr>\<rparr>)))"
proof -
  have nn: "notify_notified i (wt_notify_rx sh) = (NtInit (calls_of (wt_notify_rx sh)), wt_notify_rx (fresh_node i sh))"
    by (simp add: notify_notified_def calls_of_def fresh_node_def)
  have fr: "sh\<lparr>wt_notify_rx := wt_notify_rx (fresh_node i sh)\<rparr> = fresh_node i sh"
    by (simp add: fresh_node_def)
  have mc: "maybe_changed (fresh_node i sh) v = maybe_changed sh v" by (simp add: maybe_changed_def fresh_node_def)
  note eq = maybe_changed_eq [OF inv rx sh]
  have poll: "notified_poll cx i (NtInit (calls_of (wt_notify_rx sh))) (wt_notify_rx (fresh_node i sh)) =
      Some (Inr (Pending, NtWaiting, (wt_notify_rx sh)\<lparr>nf_state := (if get_state (nf_state (wt_notify_rx sh)) = NEMPTY
             then set_state (nf_state (wt_notify_rx sh)) NWAITING else nf_state (wt_notify_rx sh)),
           nf_nodes := (nf_nodes (wt_notify_rx sh))(i := set_nwaker (Some cx) nwaiter_new),
           nf_waiters := i # nf_waiters (wt_notify_rx sh)\<rparr>))"
    using st unfolding notified_poll_def poll_init_eq [OF q] by (simp add: fresh_node_def calls_of_def)
  show ?thesis
    using nn fr mc eq poll
    by (simp add: changed_loop.simps [of cx i v None] changed_loop.simps [of cx i v "Some _"] fresh_node_def)
qed

lemma fresh_node_idem [simp]: "fresh_node i (fresh_node i sh) = fresh_node i sh"
  by (simp add: fresh_node_def)

lemma fresh_node_sel [simp]:
  "wt_state (fresh_node i sh) = wt_state sh" "wt_value (fresh_node i sh) = wt_value sh"
  "nf_state (wt_notify_rx (fresh_node i sh)) = nf_state (wt_notify_rx sh)"
  "nf_waiters (wt_notify_rx (fresh_node i sh)) = nf_waiters (wt_notify_rx sh)"
  "nf_nodes (wt_notify_rx (fresh_node i sh)) = (nf_nodes (wt_notify_rx sh))(i := nwaiter_new)"
  "calls_of (wt_notify_rx (fresh_node i sh)) = calls_of (wt_notify_rx sh)"
  by (simp_all add: fresh_node_def calls_of_def)

text \<open>What the poll of \<open>changed\<close> answers, and the channel it leaves.\<close>

definition changed_answer :: "'a watch_use \<Rightarrow> nat \<Rightarrow> bool poll" where
  "changed_answer w i =
     (if wu_seen w i \<noteq> sends w then Ready True else if wu_tx w then Pending else Ready False)"

definition after_changed :: "waker \<Rightarrow> 'a watch_use \<Rightarrow> nat \<Rightarrow> usize \<Rightarrow> notified_state option \<Rightarrow> 'a watch \<Rightarrow> 'a watch_use" where
  "after_changed cx w i v fut sh =
     w\<lparr>wu_shared := sh, wu_rx := (wu_rx w)(i \<mapsto> v), wu_futs := (wu_futs w)(i := fut),
       wu_seen := (if changed_answer w i = Ready True then (wu_seen w)(i := sends w) else wu_seen w),
       wu_wakers := (wu_wakers w)(i := if changed_answer w i = Pending then Some cx else None)\<rparr>"

text \<open>A poll touches its own node only, and one that has to wait leaves its waker there.\<close>

definition node_polled :: "waker \<Rightarrow> 'a watch_use \<Rightarrow> nat \<Rightarrow> 'a watch \<Rightarrow> bool" where
  "node_polled cx w i sh \<longleftrightarrow>
     (\<forall>j. j \<noteq> i \<longrightarrow> nf_nodes (wt_notify_rx sh) j = nf_nodes (wt_notify_rx (wu_shared w)) j) \<and>
     (changed_answer w i = Pending \<longrightarrow> nf_nodes (wt_notify_rx sh) i = \<lparr>nw_waker = Some cx, nw_notified = None\<rparr>)"

definition changed_ok :: "waker \<Rightarrow> 'a watch_use \<Rightarrow> nat \<Rightarrow> usize \<Rightarrow> bool" where
  "changed_ok cx w i v \<longleftrightarrow>
     (\<exists>v' fut sh. changed_loop cx i v (wu_futs w i) (wu_shared w) = Some (Inr (changed_answer w i, v', fut, sh)) \<and>
        watch_inv (after_changed cx w i v' fut sh) \<and> wt_value sh = wt_value (wu_shared w) \<and>
        fut = (if changed_answer w i = Pending then Some NtWaiting else None) \<and> node_polled cx w i sh)"

lemma wakers_ok_polled:
  assumes "wakers_ok w" "node_polled cx w i sh" "fut = (if changed_answer w i = Pending then Some NtWaiting else None)"
  shows "wakers_ok (after_changed cx w i v fut sh)"
  by (rule wakers_okI [OF assms(1), of i])
    (use assms in \<open>auto simp: waker_held_def node_polled_def after_changed_def sends_def\<close>)

lemma inv_parts:
  assumes "watch_inv w"
  shows "queue_ok (wt_notify_rx (wu_shared w))" "futs_ok (wt_notify_rx (wu_shared w)) (wu_futs w)"
    "get_state (nf_state (wt_notify_rx (wu_shared w))) \<noteq> NNOTIFIED"
    "\<And>i. nw_notified (nf_nodes (wt_notify_rx (wu_shared w)) i) \<noteq> Some OneWaiter"
  using assms by (auto simp: watch_inv_def notify_inv_def plain_notify_def)

lemma watch_inv_notify:
  assumes "watch_inv w" "queue_ok n'" "futs_ok n' futs'" "plain_notify n'"
    and "calls_of n' = calls_of (wt_notify_rx (wu_shared w))"
    and "wt_state sh' = wt_state (wu_shared w)" "wt_value sh' = wt_value (wu_shared w)" "wt_notify_rx sh' = n'"
    and "\<And>i st. futs' i = Some st \<Longrightarrow> st = NtWaiting \<and> wu_rx w i \<noteq> None \<and>
           (nw_notified (nf_nodes n' i) = None \<longrightarrow> wu_seen w i = sends w \<and> wu_tx w)"
  shows "watch_inv (w\<lparr>wu_shared := sh', wu_futs := futs'\<rparr>)"
  using assms unfolding watch_inv_def notify_inv_def by (auto simp: sends_def)

lemma after_changed_pending:
  assumes "wu_rx w i = Some v" "changed_answer w i = Pending"
  shows "after_changed cx w i v fut sh =
    w\<lparr>wu_shared := sh, wu_futs := (wu_futs w)(i := fut), wu_wakers := (wu_wakers w)(i \<mapsto> cx)\<rparr>"
  using assms by (cases w) (simp add: after_changed_def fun_upd_idem)

lemma futs_waiting:
  assumes "watch_inv w" "wu_futs w i = Some st"
  shows "st = NtWaiting \<and> wu_rx w i \<noteq> None \<and>
    (nw_notified (nf_nodes (wt_notify_rx (wu_shared w)) i) = None \<longrightarrow> wu_seen w i = sends w \<and> wu_tx w)"
  using assms unfolding watch_inv_def by blast

lemma rx_seen: "watch_inv w \<Longrightarrow> wu_rx w i = Some v \<Longrightarrow> v = of_nat (2 * wu_seen w i) \<and> wu_seen w i \<le> sends w"
  unfolding watch_inv_def by blast

lemma changed_from_start:
  assumes inv: "watch_inv w" and rx: "wu_rx w i = Some v"
    and ni: "i \<notin> set (nf_waiters (wt_notify_rx (wu_shared w)))"
    and sh: "sh = wu_shared w \<or> sh = fresh_node i (wu_shared w)"
  shows "\<exists>v' fut sh'. changed_loop cx i v None sh = Some (Inr (changed_answer w i, v', fut, sh')) \<and>
           watch_inv (after_changed cx w i v' fut sh') \<and> wt_value sh' = wt_value (wu_shared w) \<and>
           fut = (if changed_answer w i = Pending then Some NtWaiting else None) \<and> node_polled cx w i sh'"
proof -
  let ?n = "wt_notify_rx (wu_shared w)"
  note ip = inv_parts [OF inv]
  have ne: "\<forall>j \<in> set (nf_waiters ?n). j \<noteq> i" using ni by blast
  have fr: "fresh_node i sh = fresh_node i (wu_shared w)" and st: "wt_state sh = wt_state (wu_shared w)"
    and wn: "nf_state (wt_notify_rx sh) = nf_state ?n" "nf_waiters (wt_notify_rx sh) = nf_waiters ?n"
    and nd: "(nf_nodes (wt_notify_rx sh))(i := z) = (nf_nodes ?n)(i := z)" for z
    using sh by (auto simp: fun_eq_iff)
  have q: "queue_ok (wt_notify_rx (fresh_node i (wu_shared w)))"
    using ip(1) ne by (auto simp: queue_ok_def nwaiter_new_def)
  have f0: "futs_ok (wt_notify_rx (fresh_node i (wu_shared w))) ((wu_futs w)(i := None))"
    using ip(2) ne by (auto simp: futs_ok_def)
  have wst: "nf_waiters ?n = [] \<Longrightarrow> get_state (nf_state ?n) = NEMPTY"
    "nf_waiters ?n \<noteq> [] \<Longrightarrow> get_state (nf_state ?n) = NWAITING"
    using ip(1,3) by (auto simp: queue_ok_def)
  have "get_state (nf_state (wt_notify_rx sh)) \<noteq> NNOTIFIED" using ip(3) wn by simp
  note start = changed_start [OF inv rx st q [folded fr] this, of cx, unfolded fr wn nd]
  show ?thesis
  proof (cases "wu_seen w i = sends w \<and> wu_tx w")
    case False
    then obtain v' where "changed_loop cx i v None sh = Some (Inr (changed_answer w i, v', None, fresh_node i (wu_shared w)))"
      and v': "v' = (if wu_seen w i \<noteq> sends w then of_nat (2 * sends w) else v)"
      using start by (auto simp: changed_answer_def)
    moreover have "v = of_nat (2 * wu_seen w i)" using inv rx unfolding watch_inv_def by blast
    with v' have "v' = of_nat (2 * sends w)" by (auto split: if_splits)
    moreover have "node_polled cx w i (fresh_node i (wu_shared w))"
      using False by (auto simp: node_polled_def changed_answer_def)
    moreover from \<open>v' = of_nat (2 * sends w)\<close> have "watch_inv (after_changed cx w i v' None (fresh_node i (wu_shared w)))"
      using inv rx q f0 ip(4) False
      by (auto simp: watch_inv_def after_changed_def notify_inv_def plain_notify_def sends_def changed_answer_def
          nwaiter_new_def)
    ultimately show ?thesis using False by (auto simp: changed_answer_def)
  next
    case True
    let ?n' = "(wt_notify_rx sh)\<lparr>nf_state := (if get_state (nf_state ?n) = NEMPTY
             then set_state (nf_state ?n) NWAITING else nf_state ?n),
           nf_nodes := (nf_nodes ?n)(i := set_nwaker (Some cx) nwaiter_new), nf_waiters := i # nf_waiters ?n\<rparr>"
    have "changed_loop cx i v None sh = Some (Inr (Pending, v, Some NtWaiting, sh\<lparr>wt_notify_rx := ?n'\<rparr>))"
      using start True by simp
    moreover have st': "get_state (nf_state ?n') = NWAITING" using wst by (cases "nf_waiters ?n = []") auto
    then have "queue_ok ?n'" "futs_ok ?n' ((wu_futs w)(i \<mapsto> NtWaiting))"
      using ip(1,2) ni ne by (auto simp: queue_ok_def futs_ok_def nwaiter_new_def set_nwaker_def simp del: if_split)
    moreover have "plain_notify ?n'" "calls_of ?n' = calls_of ?n"
      using st' ip(4) by (auto simp: plain_notify_def calls_of_def nwaiter_new_def set_nwaker_def)
    moreover have val: "wt_value sh = wt_value (wu_shared w)" using sh by auto
    moreover have ans: "changed_answer w i = Pending" using True by (simp add: changed_answer_def)
    moreover have "node_polled cx w i (sh\<lparr>wt_notify_rx := ?n'\<rparr>)"
      by (simp add: node_polled_def set_nwaker_def nwaiter_new_def)
    moreover have "watch_inv (w\<lparr>wu_shared := sh\<lparr>wt_notify_rx := ?n'\<rparr>, wu_futs := (wu_futs w)(i \<mapsto> NtWaiting)\<rparr>)"
    proof (rule watch_inv_notify [OF inv, where n' = ?n'])
      fix j st
      assume "((wu_futs w)(i \<mapsto> NtWaiting)) j = Some st"
      then show "st = NtWaiting \<and> wu_rx w j \<noteq> None \<and>
          (nw_notified (nf_nodes ?n' j) = None \<longrightarrow> wu_seen w j = sends w \<and> wu_tx w)"
        using rx True futs_waiting [OF inv, of j st] by (cases "j = i") auto
    qed (use calculation val st in simp_all)
    ultimately show ?thesis using after_changed_pending [OF rx ans]
      by (intro exI [of _ v] exI [of _ "Some NtWaiting"] exI [of _ "sh\<lparr>wt_notify_rx := ?n'\<rparr>"]) simp
  qed
qed

lemma changed_poll:
  assumes inv: "watch_inv w" and rx: "wu_rx w i = Some v"
  shows "changed_ok cx w i v"
proof -
  let ?n = "wt_notify_rx (wu_shared w)"
  note ip = inv_parts [OF inv]
  show ?thesis
  proof (cases "wu_futs w i")
    case None
    then have "i \<notin> set (nf_waiters ?n)" using ip(2) by (auto simp: futs_ok_def)
    from changed_from_start [OF inv rx this, of "wu_shared w"] None show ?thesis by (auto simp: changed_ok_def)
  next
    case (Some st)
    with inv have st: "st = NtWaiting" unfolding watch_inv_def by blast
    show ?thesis
    proof (cases "nw_notified (nf_nodes ?n i)")
      case None
      let ?n' = "?n\<lparr>nf_nodes := (nf_nodes ?n)(i := set_nwaker (Some cx) (nf_nodes ?n i))\<rparr>"
      have up: "wu_seen w i = sends w" "wu_tx w" using inv Some None by (auto simp: watch_inv_def)
      have "changed_loop cx i v (wu_futs w i) (wu_shared w) = Some (Inr (Pending, v, Some NtWaiting, (wu_shared w)\<lparr>wt_notify_rx := ?n'\<rparr>))"
        using Some st None by (simp add: changed_loop.simps notified_poll_def poll_waiting_eq)
      moreover have "queue_ok ?n'" "futs_ok ?n' (wu_futs w)" "plain_notify ?n'" "calls_of ?n' = calls_of ?n"
        using ip by (auto simp: queue_ok_def futs_ok_def plain_notify_def calls_of_def)
      moreover have futs: "(wu_futs w)(i \<mapsto> NtWaiting) = wu_futs w"
        using Some st by (simp add: fun_upd_idem)
      moreover have ans: "changed_answer w i = Pending" using up by (simp add: changed_answer_def)
      moreover have "node_polled cx w i ((wu_shared w)\<lparr>wt_notify_rx := ?n'\<rparr>)"
        using None by (cases "nf_nodes ?n i") (simp add: node_polled_def set_nwaker_def)
      moreover have "watch_inv (w\<lparr>wu_shared := (wu_shared w)\<lparr>wt_notify_rx := ?n'\<rparr>, wu_futs := wu_futs w\<rparr>)"
      proof (rule watch_inv_notify [OF inv, where n' = ?n'])
        fix j st
        assume "wu_futs w j = Some st"
        then show "st = NtWaiting \<and> wu_rx w j \<noteq> None \<and>
            (nw_notified (nf_nodes ?n' j) = None \<longrightarrow> wu_seen w j = sends w \<and> wu_tx w)"
          using futs_waiting [OF inv, of j st] by (cases "j = i") auto
      qed (use calculation in simp_all)
      ultimately show ?thesis using after_changed_pending [OF rx ans] unfolding changed_ok_def
        by (intro exI [of _ v] exI [of _ "Some NtWaiting"] exI [of _ "(wu_shared w)\<lparr>wt_notify_rx := ?n'\<rparr>"]) simp
    next
      case nt: (Some k)
      then have ni: "i \<notin> set (nf_waiters ?n)" using ip(1) by (auto simp: queue_ok_def)
      have "changed_loop cx i v (wu_futs w i) (wu_shared w) = changed_loop cx i v None (fresh_node i (wu_shared w))"
        using Some st nt
        by (simp add: changed_loop.simps [of cx i v "Some _"] notified_poll_def poll_waiting_eq fresh_node_def)
      with changed_from_start [OF inv rx ni, of "fresh_node i (wu_shared w)"] show ?thesis
        by (auto simp: changed_ok_def)
    qed
  qed
qed

lemma plain_drop:
  "plain_notify n \<Longrightarrow> notified_drop i NtWaiting n = Inr (ws, n') \<Longrightarrow> plain_notify n' \<and> nf_nodes n' = nf_nodes n"
  by (auto simp: notified_drop_def plain_notify_def Let_def split: if_splits)

lemma cancel_keeps:
  assumes inv: "watch_inv w" and d: "changed_drop i (wu_futs w i) (wu_shared w) = Inr (ws, sh)"
  shows "watch_inv (w\<lparr>wu_shared := sh, wu_futs := (wu_futs w)(i := None)\<rparr>)"
proof (cases "wu_futs w i")
  case None
  then have "(wu_futs w)(i := None) = wu_futs w" "sh = wu_shared w" using d by (auto simp: changed_drop_def)
  then show ?thesis using inv by simp
next
  case (Some st)
  with inv have st: "st = NtWaiting" unfolding watch_inv_def by blast
  let ?n = "wt_notify_rx (wu_shared w)"
  obtain n where n: "notified_drop i NtWaiting ?n = Inr (ws, n)" "sh = (wu_shared w)\<lparr>wt_notify_rx := n\<rparr>"
    using d Some st by (auto simp: changed_drop_def and_then_eq_Inr)
  have ninv: "notify_inv \<lparr>nu_notify = ?n, nu_futs = wu_futs w\<rparr>" and pl: "plain_notify ?n"
    using inv by (simp_all add: watch_inv_def)
  from notify_drop_keeps [OF ninv, of i NtWaiting] Some st n(1)
  have "queue_ok n" "futs_ok n ((wu_futs w)(i := None))" "calls_of n = calls_of ?n"
    by (auto simp: notify_inv_def)
  moreover note plain_drop [OF pl n(1)]
  moreover have "\<And>j st. ((wu_futs w)(i := None)) j = Some st \<Longrightarrow> st = NtWaiting \<and> wu_rx w j \<noteq> None \<and>
      (nw_notified (nf_nodes ?n j) = None \<longrightarrow> wu_seen w j = sends w \<and> wu_tx w)"
    using futs_waiting [OF inv] by (auto split: if_splits)
  ultimately show ?thesis
    using n(2) by (intro watch_inv_notify [OF inv, where n' = n]) auto
qed

text \<open>Waking all waiting receivers.\<close>

lemma plain_wake:
  assumes inv: "watch_inv w" and tx: "wu_tx w"
  shows "\<exists>n. notify_waiters (wt_notify_rx (wu_shared w)) =
             Inr (nt_wakers (nf_nodes (wt_notify_rx (wu_shared w))) (rev (nf_waiters (wt_notify_rx (wu_shared w)))), n) \<and>
           queue_ok n \<and> futs_ok n (wu_futs w) \<and> plain_notify n \<and>
           unat (calls_of n) = unat (calls_of (wt_notify_rx (wu_shared w))) + 1 \<and>
           (\<forall>i st. wu_futs w i = Some st \<longrightarrow> nw_notified (nf_nodes n i) \<noteq> None)"
proof -
  let ?n = "wt_notify_rx (wu_shared w)" and ?u = "\<lparr>nu_notify = wt_notify_rx (wu_shared w), nu_futs = wu_futs w\<rparr>"
  have ninv: "notify_inv ?u" and pl: "plain_notify ?n" and len: "length (wu_hist w) \<le> 2 ^ 61"
    and calls: "unat (calls_of ?n) < length (wu_hist w)"
    using inv tx by (simp_all add: watch_inv_def)
  have "unat (calls_of ?n) = unat (nf_state ?n) div 4"
    by (simp add: calls_of_def NOTIFY_WAITERS_SHIFT_def unat_drop_bit)
  with calls len have room: "unat (nf_state ?n) + 4 < 2 ^ 64" by simp
  from notify_waiters_keeps [of ?u, OF ninv] room obtain n where
    n: "notify_waiters ?n = Inr (nt_wakers (nf_nodes ?n) (rev (nf_waiters ?n)), n)"
    "notify_inv (?u\<lparr>nu_notify := n\<rparr>)" "calls_of n = calls_of ?n + 1"
    "\<forall>i \<in> set (nf_waiters ?n). nw_notified (nf_nodes n i) = Some AllWaiters"
    "get_state (nf_state n) \<noteq> NNOTIFIED"
    "\<forall>i. i \<notin> set (nf_waiters ?n) \<longrightarrow> nf_nodes n i = nf_nodes ?n i"
    using pl by (auto simp: plain_notify_def)
  have "unat (calls_of ?n + 1) = unat (calls_of ?n) + 1"
    using calls len by (simp add: unat_word_ariths)
  moreover have "nw_notified (nf_nodes n i) \<noteq> Some OneWaiter" for i
    using n(4,6) pl by (cases "i \<in> set (nf_waiters ?n)") (auto simp: plain_notify_def)
  moreover have "nw_notified (nf_nodes n i) \<noteq> None" if "wu_futs w i = Some st" for i st
    using n(4,6) inv_parts(2) [OF inv] futs_waiting [OF inv that] that
    by (cases "i \<in> set (nf_waiters ?n)") (auto simp: futs_ok_def)
  ultimately show ?thesis using n by (auto simp: notify_inv_def plain_notify_def)
qed

lemma modify_keeps:
  assumes inv: "watch_inv w" and tx: "wu_tx w" and len: "length (wu_hist w) < 2 ^ 61"
  shows "\<exists>r sh. watch_send_if_modified f (wu_shared w) = (r, sh) \<and>
    r = (case fst (f (wt_value (wu_shared w))) of None \<Rightarrow> Inl ExplicitPanic | Some False \<Rightarrow> Inr (False, [])
         | Some True \<Rightarrow> Inr (True, nt_wakers (nf_nodes (wt_notify_rx (wu_shared w))) (rev (nf_waiters (wt_notify_rx (wu_shared w)))))) \<and>
    wt_value sh = snd (f (wt_value (wu_shared w))) \<and> wt_ref_count_rx sh = wt_ref_count_rx (wu_shared w) \<and>
    watch_inv (w\<lparr>wu_shared := sh, wu_hist := wt_value sh # (if fst (f (wt_value (wu_shared w))) = Some True
       then wu_hist w else tl (wu_hist w))\<rparr>)"
proof -
  let ?sh = "wu_shared w"
  obtain res x where f: "f (wt_value ?sh) = (res, x)" by fastforce
  have ne: "wu_hist w \<noteq> []" using inv by (simp add: watch_inv_def)
  show ?thesis
  proof (cases "res = Some True")
    case False
    then have "watch_send_if_modified f ?sh = ((case res of None \<Rightarrow> Inl ExplicitPanic | Some _ \<Rightarrow> Inr (False, [])), ?sh\<lparr>wt_value := x\<rparr>)"
      using f by (auto simp: watch_send_if_modified_def Let_def split: option.split bool.split)
    moreover have "watch_inv (w\<lparr>wu_shared := ?sh\<lparr>wt_value := x\<rparr>, wu_hist := x # tl (wu_hist w)\<rparr>)"
      using inv ne by (auto simp: watch_inv_def sends_def)
    ultimately show ?thesis using f False by (cases res) auto
  next
    case True
    from plain_wake [OF inv tx] obtain n where
      n: "notify_waiters (wt_notify_rx ?sh) = Inr (nt_wakers (nf_nodes (wt_notify_rx ?sh)) (rev (nf_waiters (wt_notify_rx ?sh))), n)"
      "queue_ok n" "futs_ok n (wu_futs w)" "plain_notify n" "unat (calls_of n) = unat (calls_of (wt_notify_rx ?sh)) + 1"
      "\<forall>i st. wu_futs w i = Some st \<longrightarrow> nw_notified (nf_nodes n i) \<noteq> None" by blast
    let ?sh' = "?sh\<lparr>wt_value := x, wt_state := increment_version (wt_state ?sh), wt_notify_rx := n\<rparr>"
    have run: "watch_send_if_modified f ?sh = (Inr (True, nt_wakers (nf_nodes (wt_notify_rx ?sh)) (rev (nf_waiters (wt_notify_rx ?sh)))), ?sh')"
      using f True n(1) by (simp add: watch_send_if_modified_def Let_def)
    have "length (wu_hist w) = sends w + 1" using ne by (cases "wu_hist w") (auto simp: sends_def)
    then have v: "snapshot_version (increment_version (wt_state ?sh)) = of_nat (2 * length (wu_hist w))"
      using inv by (simp add: watch_inv_def)
    have seen: "wu_seen w i \<le> length (wu_hist w)" if "wu_rx w i = Some v" for i v
      using rx_seen [OF inv that] by (auto simp: sends_def)
    have "watch_inv (w\<lparr>wu_shared := ?sh', wu_hist := x # wu_hist w\<rparr>)"
      using inv n tx v len seen unfolding watch_inv_def notify_inv_def
      by (auto simp: sends_def dest: spec)
    then show ?thesis using run f True by auto
  qed
qed

lemma watch_inv_rx:
  assumes inv: "watch_inv w" and i: "wu_futs w i = None"
    and sh: "wt_state sh = wt_state (wu_shared w)" "wt_value sh = wt_value (wu_shared w)"
      "wt_notify_rx sh = wt_notify_rx (wu_shared w)"
    and s: "s \<le> sends w" "v = of_nat (2 * s)"
  shows "watch_inv (w\<lparr>wu_shared := sh, wu_rx := (wu_rx w)(i \<mapsto> v), wu_seen := (wu_seen w)(i := s)\<rparr>)" (is "watch_inv ?w")
proof -
  have "st = NtWaiting \<and> wu_rx ?w j \<noteq> None \<and>
      (nw_notified (nf_nodes (wt_notify_rx (wu_shared ?w)) j) = None \<longrightarrow> wu_seen ?w j = sends ?w \<and> wu_tx ?w)"
    if "wu_futs ?w j = Some st" for j st
    using futs_waiting [OF inv, of j st] that i sh by (cases "j = i") (auto simp: sends_def)
  moreover have "x = of_nat (2 * wu_seen ?w j) \<and> wu_seen ?w j \<le> sends ?w" if "wu_rx ?w j = Some x" for j x
    using inv that s by (cases "j = i") (auto simp: watch_inv_def sends_def)
  ultimately show ?thesis using inv sh unfolding watch_inv_def by (simp add: sends_def)
qed

lemma watch_step_inv: "watch_step w w' \<Longrightarrow> watch_inv w \<Longrightarrow> watch_inv w'"
proof (induction rule: watch_step.induct)
  case (wt_polled w i v cx r v' fut sh)
  from changed_poll [OF wt_polled(3,1), of cx] wt_polled(2) show ?case
    by (auto simp: changed_ok_def after_changed_def simp del: watch_inv_wakers)
next
  case (wt_cancelled w i v ws sh)
  from cancel_keeps [OF wt_cancelled(3,2)] show ?case by simp
next
  case (wt_updated w i v x v')
  from wt_updated(3,4) have "v' = of_nat (2 * sends w)" by (simp add: watch_borrow_and_update_def watch_inv_def)
  from watch_inv_rx [OF wt_updated(4,2) refl refl refl order_refl this] show ?case by simp
next
  case (wt_cloned w j v i v' sh)
  have "wu_futs w i = None" using wt_cloned(2) futs_waiting [OF wt_cloned(4), of i] by (cases "wu_futs w i") auto
  moreover have "wu_seen w j \<le> sends w \<and> v' = of_nat (2 * wu_seen w j)"
    using wt_cloned by (auto simp: watch_inv_def watch_clone_def watch_from_shared_def)
  ultimately show ?case using wt_cloned(3) watch_inv_rx [OF wt_cloned(4)]
    by (auto simp: watch_clone_def watch_from_shared_def)
next
  case (wt_subscribed w i v' sh)
  have "wu_futs w i = None" using wt_subscribed(2) futs_waiting [OF wt_subscribed(4), of i] by (cases "wu_futs w i") auto
  moreover have "v' = of_nat (2 * sends w)"
    using wt_subscribed(3,4) by (auto simp: watch_inv_def watch_subscribe_def watch_from_shared_def)
  ultimately show ?case using wt_subscribed(3) watch_inv_rx [OF wt_subscribed(4)]
    by (auto simp: watch_subscribe_def watch_from_shared_def)
next
  case (wt_rx_dropped w i v ws sh)
  then have "wt_notify_rx sh = wt_notify_rx (wu_shared w)" "wt_state sh = wt_state (wu_shared w)"
    "wt_value sh = wt_value (wu_shared w)"
    by (auto simp: watch_receiver_drop_def Let_def and_then_eq_Inr split: if_splits)
  with wt_rx_dropped(2,4) show ?case by (auto simp: watch_inv_def sends_def)
next
  case (wt_sent w x rest ws sh)
  show ?case
  proof (cases "0 = watch_receiver_count (wu_shared w)")
    case True
    with wt_sent(3,4) show ?thesis by (auto simp: watch_send_def)
  next
    case False
    from modify_keeps [OF wt_sent(4,1,2), of "\<lambda>_. (Some True, x)"] wt_sent(3) False show ?thesis
      by (auto simp: watch_send_def watch_send_replace_def watch_send_modify_def)
  qed
next
  case (wt_modified w f r sh)
  from modify_keeps [OF wt_modified(4,1,2), of f] wt_modified(3) show ?case by auto
next
  case (wt_tx_dropped w ws sh)
  let ?sh = "wu_shared w"
  from plain_wake [OF wt_tx_dropped(3,1)] obtain n where
    n: "notify_waiters (wt_notify_rx ?sh) = Inr (nt_wakers (nf_nodes (wt_notify_rx ?sh)) (rev (nf_waiters (wt_notify_rx ?sh))), n)"
    "queue_ok n" "futs_ok n (wu_futs w)" "plain_notify n" "unat (calls_of n) = unat (calls_of (wt_notify_rx ?sh)) + 1"
    "\<forall>i st. wu_futs w i = Some st \<longrightarrow> nw_notified (nf_nodes n i) \<noteq> None" by blast
  then have "sh = ?sh\<lparr>wt_state := set_closed (wt_state ?sh), wt_notify_rx := n\<rparr>"
    using wt_tx_dropped(2) by (auto simp: watch_sender_drop_def Let_def)
  with wt_tx_dropped(1,3) n show ?case
    by (auto simp: watch_inv_def notify_inv_def sends_def)
qed

text \<open>What the drop of the sender wakes.\<close>

lemma sender_drop_wakes:
  assumes "watch_inv w" "wu_tx w"
  shows "\<exists>sh. watch_sender_drop (wu_shared w) =
      Inr (nt_wakers (nf_nodes (wt_notify_rx (wu_shared w))) (rev (nf_waiters (wt_notify_rx (wu_shared w)))), sh) \<and>
    (\<forall>i st. wu_futs w i = Some st \<longrightarrow> nw_notified (nf_nodes (wt_notify_rx sh) i) \<noteq> None)"
  using plain_wake [OF assms] by (auto simp: watch_sender_drop_def Let_def)

text \<open>The wakers: an operation that wakes anybody wakes every call that still waits for its wake-up.\<close>

lemma unwoken_Nil [simp]: "unwoken [] wk = wk"
  by (auto simp: unwoken_def fun_eq_iff split: option.split)

lemma waiting_waker:
  assumes inv: "watch_inv w" and wk: "wakers_ok w" and k: "wu_wakers w i = Some k"
  shows "wu_futs w i = Some NtWaiting" "nw_notified (nf_nodes (wt_notify_rx (wu_shared w)) i) = None"
    "i \<in> set (nf_waiters (wt_notify_rx (wu_shared w)))"
    "k \<in> set (nt_wakers (nf_nodes (wt_notify_rx (wu_shared w))) (rev (nf_waiters (wt_notify_rx (wu_shared w)))))"
proof -
  let ?n = "wt_notify_rx (wu_shared w)"
  from wk k have w: "wu_futs w i \<noteq> None" "nw_notified (nf_nodes ?n i) = None" "nw_waker (nf_nodes ?n i) = Some k"
    unfolding wakers_ok_def waker_held_def by (metis option.distinct(1))+
  then show f: "wu_futs w i = Some NtWaiting" using futs_waiting [OF inv, of i] by auto
  show "nw_notified (nf_nodes ?n i) = None" by (rule w(2))
  show q: "i \<in> set (nf_waiters ?n)" using inv_parts(2) [OF inv] f w(2) by (auto simp: futs_ok_def)
  show "k \<in> set (nt_wakers (nf_nodes ?n) (rev (nf_waiters ?n)))"
    using q w(3) by (auto simp: nt_wakers_def waker_list_def intro!: bexI [of _ i])
qed

lemma all_woken:
  assumes "watch_inv w" "wakers_ok w"
  shows "unwoken (nt_wakers (nf_nodes (wt_notify_rx (wu_shared w))) (rev (nf_waiters (wt_notify_rx (wu_shared w))))) (wu_wakers w)
    = (\<lambda>_. None)"
  using waiting_waker(4) [OF assms] by (auto simp: unwoken_def fun_eq_iff split: option.split)

lemma wakers_ok_woken:
  assumes "\<forall>i st. wu_futs w i = Some st \<longrightarrow> nw_notified (nf_nodes (wt_notify_rx (wu_shared w)) i) \<noteq> None"
    and "wu_wakers w = (\<lambda>_. None)"
    and "\<And>i. wu_futs w i \<noteq> None \<Longrightarrow> wu_seen w i < sends w \<or> \<not> wu_tx w"
  shows "wakers_ok w"
  using assms by (auto simp: wakers_ok_def waker_held_def)

lemma modify_wakers:
  assumes inv: "watch_inv w" and tx: "wu_tx w" and wk: "wakers_ok w"
    and run: "watch_send_if_modified f (wu_shared w) = (r, sh)"
  shows "wakers_ok (w\<lparr>wu_shared := sh, wu_hist := wt_value sh # (if fst (f (wt_value (wu_shared w))) = Some True
       then wu_hist w else tl (wu_hist w)), wu_wakers := unwoken (woken_by r) (wu_wakers w)\<rparr>)"
proof -
  let ?sh = "wu_shared w"
  obtain res x where f: "f (wt_value ?sh) = (res, x)" by fastforce
  have ne: "wu_hist w \<noteq> []" using inv by (simp add: watch_inv_def)
  show ?thesis
  proof (cases "res = Some True")
    case False
    then have "sh = ?sh\<lparr>wt_value := x\<rparr>" "woken_by r = []"
      using f run by (auto simp: watch_send_if_modified_def Let_def woken_by_def split: option.splits bool.splits)
    then show ?thesis using wk False f ne by (simp add: wakers_ok_def sends_def)
  next
    case True
    from plain_wake [OF inv tx] obtain n where
      n: "notify_waiters (wt_notify_rx ?sh) = Inr (nt_wakers (nf_nodes (wt_notify_rx ?sh)) (rev (nf_waiters (wt_notify_rx ?sh))), n)"
      "\<forall>i st. wu_futs w i = Some st \<longrightarrow> nw_notified (nf_nodes n i) \<noteq> None" by blast
    then have "wt_notify_rx sh = n"
      "woken_by r = nt_wakers (nf_nodes (wt_notify_rx ?sh)) (rev (nf_waiters (wt_notify_rx ?sh)))"
      using f True run by (auto simp: watch_send_if_modified_def Let_def woken_by_def)
    moreover have "wu_seen w i < length (wu_hist w)" if "wu_futs w i \<noteq> None" for i
    proof -
      have "wu_seen w i \<le> sends w" using that futs_waiting [OF inv, of i] rx_seen [OF inv, of i] by fastforce
      then show ?thesis using ne by (cases "wu_hist w") (auto simp: sends_def)
    qed
    ultimately show ?thesis using n(2) f True
      by (intro wakers_ok_woken) (simp_all add: all_woken [OF inv wk] sends_def)
  qed
qed

lemma cancel_wakers:
  assumes inv: "watch_inv w" and wk: "wakers_ok w" and d: "changed_drop i (wu_futs w i) (wu_shared w) = Inr (ws, sh)"
  shows "ws = [] \<and> wakers_ok (w\<lparr>wu_shared := sh, wu_futs := (wu_futs w)(i := None), wu_wakers := (wu_wakers w)(i := None)\<rparr>)"
proof -
  have pl: "plain_notify (wt_notify_rx (wu_shared w))" using inv by (simp add: watch_inv_def)
  have "ws = [] \<and> nf_nodes (wt_notify_rx sh) = nf_nodes (wt_notify_rx (wu_shared w))"
  proof (cases "wu_futs w i")
    case None
    with d show ?thesis by (simp add: changed_drop_def)
  next
    case (Some st)
    with inv have st: "st = NtWaiting" unfolding watch_inv_def by blast
    obtain n where n: "notified_drop i NtWaiting (wt_notify_rx (wu_shared w)) = Inr (ws, n)" "sh = (wu_shared w)\<lparr>wt_notify_rx := n\<rparr>"
      using d Some st by (auto simp: changed_drop_def and_then_eq_Inr)
    then show ?thesis using pl by (auto simp: notified_drop_def plain_notify_def Let_def split: if_splits)
  qed
  then show ?thesis using wk by (auto simp: wakers_ok_def waker_held_def [of None] sends_def)
qed

lemma watch_step_wakers: "watch_step w w' \<Longrightarrow> watch_inv w \<Longrightarrow> wakers_ok w \<Longrightarrow> wakers_ok w'"
proof (induction rule: watch_step.induct)
  case (wt_polled w i v cx r v' fut sh)
  from changed_poll [OF wt_polled(3,1), of cx] wt_polled(2) have "r = changed_answer w i"
    "fut = (if changed_answer w i = Pending then Some NtWaiting else None)" "node_polled cx w i sh"
    by (auto simp: changed_ok_def)
  with wakers_ok_polled [OF wt_polled(4), of cx i sh fut v'] show ?case by (simp add: after_changed_def)
next
  case (wt_cancelled w i v ws sh)
  from cancel_wakers [OF wt_cancelled(3,4,2)] show ?case by simp
next
  case (wt_updated w i v x v')
  then show ?case by (auto simp: wakers_ok_def sends_def)
next
  case (wt_cloned w j v i v' sh)
  have "wu_futs w i = None" using wt_cloned(2) futs_waiting [OF wt_cloned(4), of i] by (cases "wu_futs w i") auto
  with wt_cloned(3,5) show ?case by (auto simp: wakers_ok_def sends_def watch_clone_def watch_from_shared_def)
next
  case (wt_subscribed w i v' sh)
  have "wu_futs w i = None" using wt_subscribed(2) futs_waiting [OF wt_subscribed(4), of i] by (cases "wu_futs w i") auto
  with wt_subscribed(3,5) show ?case by (auto simp: wakers_ok_def sends_def watch_subscribe_def watch_from_shared_def)
next
  case (wt_rx_dropped w i v ws sh)
  then have "wt_notify_rx sh = wt_notify_rx (wu_shared w)"
    by (auto simp: watch_receiver_drop_def Let_def and_then_eq_Inr split: if_splits)
  with wt_rx_dropped(5) show ?case by (simp add: wakers_ok_def sends_def)
next
  case (wt_sent w x rest ws sh)
  show ?case
  proof (cases "0 = watch_receiver_count (wu_shared w)")
    case True
    with wt_sent(3,5) show ?thesis by (auto simp: watch_send_def)
  next
    case False
    with wt_sent(3) obtain b where b: "watch_send_if_modified (\<lambda>_. (Some True, x)) (wu_shared w) = (Inr (b, ws), sh)"
      and rest: "rest = None"
      by (auto simp: watch_send_def watch_send_replace_def watch_send_modify_def split: prod.splits sum.splits)
    have "wt_value sh = x" using b modify_keeps [OF wt_sent(4,1,2), of "\<lambda>_. (Some True, x)"] by auto
    with modify_wakers [OF wt_sent(4,1,5) b] rest show ?thesis by (simp add: woken_by_def)
  qed
next
  case (wt_modified w f r sh)
  from modify_wakers [OF wt_modified(4,1,5,3)] show ?case .
next
  case (wt_tx_dropped w ws sh)
  from sender_drop_wakes [OF wt_tx_dropped(3,1)] wt_tx_dropped(2)
  have "ws = nt_wakers (nf_nodes (wt_notify_rx (wu_shared w))) (rev (nf_waiters (wt_notify_rx (wu_shared w))))"
    "\<forall>i st. wu_futs w i = Some st \<longrightarrow> nw_notified (nf_nodes (wt_notify_rx sh) i) \<noteq> None" by auto
  then show ?case by (intro wakers_ok_woken) (simp_all add: all_woken [OF wt_tx_dropped(3,4)])
qed

inductive watch_reach :: "'a watch_use \<Rightarrow> bool" where
  "watch_channel x = (sh, v) \<Longrightarrow>
     watch_reach \<lparr>wu_shared = sh, wu_tx = True, wu_rx = [0 \<mapsto> v], wu_futs = (\<lambda>_. None), wu_hist = [x], wu_seen = (\<lambda>_. 0),
       wu_wakers = (\<lambda>_. None)\<rparr>"
| "watch_reach w \<Longrightarrow> watch_step w w' \<Longrightarrow> watch_reach w'"

lemma watch_reach_inv: "watch_reach w \<Longrightarrow> watch_inv w"
proof (induction rule: watch_reach.induct)
  case (1 x sh v)
  then show ?case
    by (auto simp: watch_channel_def version_initial_def watch_inv_def notify_inv_def queue_ok_def futs_ok_def
        plain_notify_def notify_new_def nwaiter_new_def get_zero calls_of_def sends_def)
next
  case (2 w w')
  then show ?case by (blast intro: watch_step_inv)
qed

lemma watch_reach_wakers: "watch_reach w \<Longrightarrow> wakers_ok w"
proof (induction rule: watch_reach.induct)
  case (1 x sh v)
  then show ?case by (simp add: wakers_ok_def waker_held_def)
next
  case (2 w w')
  then show ?case by (blast intro: watch_step_wakers watch_reach_inv)
qed

section \<open>What the channel promises\<close>

text \<open>
  A poll of \<open>changed\<close> always returns, without a panic: successfully exactly when the receiver has
  not seen the latest send (and it then has), with the error when it has and the sender is gone, pending
  otherwise; what \<open>borrow\<close> shows is always the last value sent.
\<close>

lemma watch_changed_answers:
  assumes "watch_reach w" "wu_rx w i = Some v"
  shows "\<exists>v' fut sh. changed_loop cx i v (wu_futs w i) (wu_shared w) =
      Some (Inr (if wu_seen w i < sends w then Ready True else if wu_tx w then Pending else Ready False, v', fut, sh)) \<and>
      watch_borrow sh = hd (wu_hist w) \<and> watch_borrow (wu_shared w) = hd (wu_hist w)"
proof -
  note inv = watch_reach_inv [OF assms(1)]
  have "wu_seen w i \<le> sends w" using rx_seen [OF inv assms(2)] by blast
  then have "changed_answer w i = (if wu_seen w i < sends w then Ready True else if wu_tx w then Pending else Ready False)"
    by (simp add: changed_answer_def)
  moreover have "wt_value (wu_shared w) = hd (wu_hist w)" using inv by (simp add: watch_inv_def)
  ultimately show ?thesis
    using changed_poll [OF inv assms(2), of cx] by (auto simp: changed_ok_def watch_borrow_def)
qed

text \<open>
  C22: No wake-up is lost: a receiver whose call of \<open>changed\<close> waits has been woken since its last poll, by the
  waker it was polled with, exactly if it has something to see (a newer value, or that the sender is gone). If
  it has not, it is in the queue of the notifier and every operation that gives it something to see wakes it:
  \<open>send\<close>, \<open>send_modify\<close> and the drop of the sender call the waker \<open>k\<close> of its last poll (and those of all other
  waiting calls, oldest first).
\<close>

theorem watch_no_lost_wakeup:
  assumes "watch_reach w" "wu_futs w i = Some st"
  shows "(wu_wakers w i = None \<longleftrightarrow> nw_notified (nf_nodes (wt_notify_rx (wu_shared w)) i) \<noteq> None) \<and>
    (wu_wakers w i = None \<longleftrightarrow> wu_seen w i < sends w \<or> \<not> wu_tx w) \<and>
    (\<forall>k. wu_wakers w i = Some k \<longrightarrow>
      wu_seen w i = sends w \<and> wu_tx w \<and> i \<in> set (nf_waiters (wt_notify_rx (wu_shared w))) \<and>
      (\<exists>ws. ws = nt_wakers (nf_nodes (wt_notify_rx (wu_shared w))) (rev (nf_waiters (wt_notify_rx (wu_shared w)))) \<and>
        k \<in> set ws \<and>
        (length (wu_hist w) < 2 ^ 61 \<longrightarrow>
          (\<exists>sh. watch_send_modify f (wu_shared w) = (Inr (True, ws), sh)) \<and>
          (watch_receiver_count (wu_shared w) \<noteq> 0 \<longrightarrow> (\<exists>sh. watch_send x (wu_shared w) = (Inr (None, ws), sh)))) \<and>
        (\<exists>sh. watch_sender_drop (wu_shared w) = Inr (ws, sh))))"
proof -
  note inv = watch_reach_inv [OF assms(1)] and wk = watch_reach_wakers [OF assms(1)]
  have "wu_wakers w i = None \<longleftrightarrow> nw_notified (nf_nodes (wt_notify_rx (wu_shared w)) i) \<noteq> None"
    using wk assms(2) unfolding wakers_ok_def waker_held_def by (metis option.distinct(1))
  moreover have "wu_wakers w i = None \<longrightarrow> wu_seen w i < sends w \<or> \<not> wu_tx w"
    using wk assms(2) unfolding wakers_ok_def by blast
  moreover have "wu_seen w i = sends w \<and> wu_tx w" if "wu_wakers w i = Some k" for k
    using futs_waiting [OF inv assms(2)] waiting_waker(2) [OF inv wk that] by blast
  moreover have "(\<exists>sh. watch_send_modify f (wu_shared w) = (Inr (True, nt_wakers (nf_nodes (wt_notify_rx (wu_shared w)))
        (rev (nf_waiters (wt_notify_rx (wu_shared w))))), sh)) \<and>
      (watch_receiver_count (wu_shared w) \<noteq> 0 \<longrightarrow> (\<exists>sh. watch_send x (wu_shared w) = (Inr (None, nt_wakers
        (nf_nodes (wt_notify_rx (wu_shared w))) (rev (nf_waiters (wt_notify_rx (wu_shared w))))), sh)))"
    if "length (wu_hist w) < 2 ^ 61" "wu_tx w"
    using modify_keeps [OF inv that(2,1), of "\<lambda>value. (Some True, f value)"]
      modify_keeps [OF inv that(2,1), of "\<lambda>_. (Some True, x)"]
    by (auto simp: watch_send_modify_def watch_send_replace_def watch_send_def)
  moreover note sender_drop_wakes [OF inv] waiting_waker(3,4) [OF inv wk]
  ultimately show ?thesis by (metis less_irrefl not_Some_eq)
qed

text \<open>A run: one receiver waits in \<open>changed\<close>.\<close>

definition watch_fresh :: "nat watch_use" where
  "watch_fresh = \<lparr>wu_shared = fst (watch_channel 5), wu_tx = True, wu_rx = [0 \<mapsto> 0], wu_futs = (\<lambda>_. None),
     wu_hist = [5], wu_seen = (\<lambda>_. 0), wu_wakers = (\<lambda>_. None)\<rparr>"

lemma watch_fresh_reach: "watch_reach watch_fresh"
  using watch_reach.intros(1) [of 5 "fst (watch_channel 5)" 0]
  by (simp add: watch_fresh_def watch_channel_def version_initial_def)

lemma watch_changed_answers_witness:
  "\<exists>v' fut sh. changed_loop 9 0 0 None (wu_shared watch_fresh) = Some (Inr (Pending, v', fut, sh)) \<and> watch_borrow sh = 5"
  using watch_changed_answers [OF watch_fresh_reach, of 0 0 9] by (auto simp: watch_fresh_def sends_def)

lemma watch_waiting_reach:
  "\<exists>w :: nat watch_use. watch_reach w \<and> wu_futs w 0 = Some NtWaiting \<and> sends w = 0 \<and>
     wu_wakers w 0 = Some 9 \<and> nw_notified (nf_nodes (wt_notify_rx (wu_shared w)) 0) = None"
proof -
  have "changed_loop 9 0 0 (wu_futs watch_fresh 0) (wu_shared watch_fresh) =
      Some (Inr (Pending, 0, Some NtWaiting, (wu_shared watch_fresh)\<lparr>wt_notify_rx := \<lparr>nf_state = set_state 0 NWAITING,
        nf_waiters = [0], nf_nodes = (\<lambda>_. nwaiter_new)(0 := set_nwaker (Some 9) nwaiter_new)\<rparr>\<rparr>))"
    using changed_start [OF watch_reach_inv [OF watch_fresh_reach], of 0 0 "wu_shared watch_fresh" 9]
    by (simp add: watch_fresh_def watch_channel_def fresh_node_def notify_new_def queue_ok_def get_zero sends_def)
  from watch_reach.intros(2) [OF watch_fresh_reach wt_polled [OF _ this]]
  show ?thesis
    by (intro exI conjI) (auto simp: watch_fresh_def sends_def set_nwaker_def nwaiter_new_def)
qed

theorem watch_no_lost_wakeup_witness:
  "\<exists>w :: nat watch_use. wu_futs w 0 = Some NtWaiting \<and> wu_wakers w 0 = Some 9 \<and> wu_seen w 0 = 0 \<and> wu_tx w \<and>
     (\<exists>ws sh. watch_sender_drop (wu_shared w) = Inr (ws, sh) \<and> 9 \<in> set ws)"
proof -
  from watch_waiting_reach obtain w :: "nat watch_use" where
    w: "watch_reach w" "wu_futs w 0 = Some NtWaiting" "sends w = 0" "wu_wakers w 0 = Some 9" by blast
  from watch_no_lost_wakeup [OF w(1,2)] w show ?thesis by (intro exI [of _ w]) (simp, blast)
qed

end
