(* ===== verification/Barrier.thy ===== *)
theory Barrier
  imports Watch
begin

text \<open>
  \<open>sync/barrier.rs\<close>: a barrier counts arrivals and publishes, on a watch channel, the number of the last
  generation that was complete. A call of \<open>wait\<close> that does not complete its generation clones the barrier's
  receiver (whose version is never advanced) and waits until a generation not below its own is published. The
  lock around the state is left out: it is not held across a wait.
\<close>

section \<open>The code\<close>

record barrier =
  ba_shared :: "usize watch"
  ba_arrived :: usize
  ba_generation :: usize
  ba_wait :: usize
  ba_n :: usize

datatype BarrierWaitResult = BarrierWaitResult bool

fun is_leader :: "BarrierWaitResult \<Rightarrow> bool" where
  "is_leader (BarrierWaitResult b) = b"

definition barrier_new :: "usize \<Rightarrow> barrier" where
  "barrier_new n =
     (case watch_channel 0 of (shared, wait) \<Rightarrow>
      \<lparr>ba_shared = shared, ba_arrived = 0, ba_generation = 1, ba_wait = wait, ba_n = (if n = 0 then 1 else n)\<rparr>)"

text \<open>The part under the lock: \<open>None\<close> for the leader, the generation to wait for otherwise.\<close>

definition barrier_arrive :: "barrier \<Rightarrow> (usize option \<times> barrier \<times> waker list) outcome" where
  "barrier_arrive b =
     (let generation = ba_generation b; b1 = b\<lparr>ba_arrived := ba_arrived b + 1\<rparr> in
      if ba_arrived b1 = ba_n b1
      then case watch_send (ba_generation b1) (ba_shared b1) of (r, shared) \<Rightarrow>
        and_then r (\<lambda>(rest, ws).
        and_then (ensure (rest = None) UnwrapNone) (\<lambda>_.
          Inr (None, b1\<lparr>ba_shared := shared, ba_arrived := 0, ba_generation := ba_generation b1 + 1\<rparr>, ws)))
      else Inr (Some generation, b1, []))"

text \<open>
  The future of \<open>wait\<close>, once it waits: the generation, the version of its receiver, and the future of
  \<open>changed\<close>, numbered \<open>i\<close>. The receiver is dropped when the call returns.
\<close>

type_synonym barrier_wait_fut = "usize \<times> usize \<times> notified_state option"

partial_function (option) wait_loop ::
    "waker \<Rightarrow> nat \<Rightarrow> barrier_wait_fut \<Rightarrow> barrier \<Rightarrow>
     (BarrierWaitResult poll \<times> barrier_wait_fut option \<times> barrier \<times> waker list) outcome option" where
  "wait_loop cx i fut b =
     (case fut of (generation, v, nst) \<Rightarrow>
      bind_oo (changed_loop cx i v nst (ba_shared b)) (\<lambda>(r, v', nst', shared).
        let b1 = b\<lparr>ba_shared := shared\<rparr> in
        case r of
          Pending \<Rightarrow> Some (Inr (Pending, Some (generation, v', nst'), b1, []))
        | Ready _ \<Rightarrow>
            if watch_borrow (ba_shared b1) \<ge> generation
            then bind_oo (Some (watch_receiver_drop (ba_shared b1))) (\<lambda>(ws, shared').
              Some (Inr (Ready (BarrierWaitResult False), None, b1\<lparr>ba_shared := shared'\<rparr>, ws)))
            else wait_loop cx i (generation, v', nst') b1))"

definition barrier_wait ::
    "waker \<Rightarrow> nat \<Rightarrow> barrier_wait_fut option \<Rightarrow> barrier \<Rightarrow>
     (BarrierWaitResult poll \<times> barrier_wait_fut option \<times> barrier \<times> waker list) outcome option" where
  "barrier_wait cx i fut b =
     (case fut of
        Some f \<Rightarrow> wait_loop cx i f b
      | None \<Rightarrow>
          bind_oo (Some (barrier_arrive b)) (\<lambda>(g, b1, ws).
            case g of
              None \<Rightarrow> Some (Inr (Ready (BarrierWaitResult True), None, b1, ws))
            | Some generation \<Rightarrow>
                (case watch_clone (ba_wait b1) (ba_shared b1) of (v, shared) \<Rightarrow>
                   wait_loop cx i (generation, v, None) (b1\<lparr>ba_shared := shared\<rparr>))))"

definition barrier_wait_drop :: "nat \<Rightarrow> barrier_wait_fut option \<Rightarrow> barrier \<Rightarrow> (barrier \<times> waker list) outcome" where
  "barrier_wait_drop i fut b =
     (case fut of
        None \<Rightarrow> Inr (b, [])
      | Some (generation, v, nst) \<Rightarrow>
          and_then (changed_drop i nst (ba_shared b)) (\<lambda>(ws, shared).
          and_then (watch_receiver_drop shared) (\<lambda>(ws', shared').
            Inr (b\<lparr>ba_shared := shared'\<rparr>, ws @ ws'))))"

section \<open>A barrier in use\<close>

text \<open>
  The calls of \<open>wait\<close> that wait, two counts: the calls that arrived and the leaders, and (as in a watch
  channel) the waker each waiting call was last polled with, until a call of \<open>wait\<close> wakes it. The number 0
  stands for the barrier's own receiver. Fewer than \<open>2 ^ 60\<close> generations pass.
\<close>

record barrier_use =
  bu_barrier :: barrier
  bu_waits :: "nat \<Rightarrow> barrier_wait_fut option"
  bu_begun :: nat
  bu_leaders :: nat
  bu_wakers :: "nat \<Rightarrow> waker option"

datatype barrier_op = BarrierWait waker nat | BarrierCancel nat

definition barrier_start :: "usize \<Rightarrow> barrier_use" where
  "barrier_start n = \<lparr>bu_barrier = barrier_new n, bu_waits = (\<lambda>_. None), bu_begun = 0, bu_leaders = 0, bu_wakers = (\<lambda>_. None)\<rparr>"

fun barrier_exec :: "barrier_op \<Rightarrow> barrier_use \<Rightarrow> (BarrierWaitResult poll \<times> waker list \<times> barrier_use) outcome option" where
  "barrier_exec (BarrierWait cx i) u =
     bind_oo (barrier_wait cx i (bu_waits u i) (bu_barrier u)) (\<lambda>(r, fut, b, ws).
       Some (Inr (r, ws, u\<lparr>bu_barrier := b, bu_waits := (bu_waits u)(i := fut),
         bu_begun := bu_begun u + (if bu_waits u i = None then 1 else 0),
         bu_leaders := bu_leaders u + (if r = Ready (BarrierWaitResult True) then 1 else 0),
         bu_wakers := unwoken ws ((bu_wakers u)(i := if r = Pending then Some cx else None))\<rparr>)))"
| "barrier_exec (BarrierCancel i) u =
     bind_oo (Some (barrier_wait_drop i (bu_waits u i) (bu_barrier u))) (\<lambda>(b, ws).
       Some (Inr (Pending, ws, u\<lparr>bu_barrier := b, bu_waits := (bu_waits u)(i := None),
         bu_wakers := unwoken ws ((bu_wakers u)(i := None))\<rparr>)))"

fun barrier_legal :: "barrier_op \<Rightarrow> barrier_use \<Rightarrow> bool" where
  "barrier_legal (BarrierWait cx i) u \<longleftrightarrow>
     i \<noteq> 0 \<and> unat (ba_generation (bu_barrier u)) < 2 ^ 60 \<and> card (dom (bu_waits u)) + 2 < 2 ^ 64"
| "barrier_legal (BarrierCancel i) u \<longleftrightarrow> True"

inductive barrier_reach :: "usize \<Rightarrow> barrier_use \<Rightarrow> bool" where
  barrier_begin: "barrier_reach n (barrier_start n)"
| barrier_next: "barrier_reach n u \<Longrightarrow> barrier_legal p u \<Longrightarrow> barrier_exec p u = Some (Inr (r, ws, v)) \<Longrightarrow> barrier_reach n v"

section \<open>The watch channel of a barrier\<close>

text \<open>The channel of the barrier is used as a watch channel is: \<open>w\<close> is its state of use.\<close>

definition bar_rx :: "barrier_use \<Rightarrow> nat \<Rightarrow> usize option" where
  "bar_rx u i = (if i = 0 then Some (ba_wait (bu_barrier u)) else map_option (\<lambda>(g, v, f). v) (bu_waits u i))"

definition bar_futs :: "barrier_use \<Rightarrow> nat \<Rightarrow> notified_state option" where
  "bar_futs u i = (case bu_waits u i of None \<Rightarrow> None | Some (g, v, f) \<Rightarrow> f)"

definition generations :: "usize \<Rightarrow> usize list" where
  "generations g = map of_nat (rev [0..<unat g])"

definition bar_channel :: "usize watch_use \<Rightarrow> barrier_use \<Rightarrow> bool" where
  "bar_channel w u \<longleftrightarrow> watch_inv w \<and> wu_tx w \<and> wu_shared w = ba_shared (bu_barrier u) \<and> wu_rx w = bar_rx u \<and>
     wu_futs w = bar_futs u \<and> wu_hist w = generations (ba_generation (bu_barrier u)) \<and>
     wakers_ok w \<and> wu_wakers w = bu_wakers u"

definition bar_counts :: "barrier_use \<Rightarrow> bool" where
  "bar_counts u \<longleftrightarrow> finite (dom (bu_waits u)) \<and> bu_waits u 0 = None \<and> card (dom (bu_waits u)) + 1 < 2 ^ 64 \<and>
     unat (wt_ref_count_rx (ba_shared (bu_barrier u))) = card (dom (bu_waits u)) + 1"

definition bar_state :: "usize \<Rightarrow> barrier_use \<Rightarrow> bool" where
  "bar_state n u \<longleftrightarrow> ba_n (bu_barrier u) = (if n = 0 then 1 else n) \<and> ba_arrived (bu_barrier u) < ba_n (bu_barrier u) \<and>
     0 < unat (ba_generation (bu_barrier u)) \<and> ba_wait (bu_barrier u) = 0 \<and>
     bu_leaders u = unat (ba_generation (bu_barrier u)) - 1 \<and>
     bu_begun u = bu_leaders u * unat (ba_n (bu_barrier u)) + unat (ba_arrived (bu_barrier u))"

definition bar_waits :: "barrier_use \<Rightarrow> bool" where
  "bar_waits u \<longleftrightarrow> (\<forall>i g v f. bu_waits u i = Some (g, v, f) \<longrightarrow>
     f = Some NtWaiting \<and> g \<le> ba_generation (bu_barrier u) \<and> unat v div 2 + 1 = unat g)"

definition bar_inv :: "usize \<Rightarrow> barrier_use \<Rightarrow> bool" where
  "bar_inv n u \<longleftrightarrow> (\<exists>w. bar_channel w u) \<and> bar_counts u \<and> bar_state n u \<and> bar_waits u"

definition changed_frame :: "usize watch \<Rightarrow> (bool poll \<times> usize \<times> notified_state option \<times> usize watch) outcome \<Rightarrow> bool" where
  "changed_frame w y = (case y of Inl _ \<Rightarrow> True | Inr (r, v', fut', w') \<Rightarrow>
     wt_ref_count_rx w' = wt_ref_count_rx w \<and> (r \<noteq> Pending \<longrightarrow> fut' = None))"

lemma changed_frame_notify [simp]: "changed_frame (w\<lparr>wt_notify_rx := n\<rparr>) y = changed_frame w y"
  "changed_frame w (Inr (r, v, fut, w)) \<longleftrightarrow> (r \<noteq> Pending \<longrightarrow> fut = None)" "changed_frame w (Inl e)"
  "changed_frame w (Inr (r, v, fut, w\<lparr>wt_notify_rx := n\<rparr>)) \<longleftrightarrow> (r \<noteq> Pending \<longrightarrow> fut = None)"
  by (auto simp: changed_frame_def split: sum.split)

lemma changed_loop_frame: "changed_loop cx i v fut w = Some y \<Longrightarrow> changed_frame w y"
proof (erule changed_loop.raw_induct [where P = "\<lambda>cx i v fut w y. changed_frame w y", rotated])
  fix loop cx i v fut y and w :: "usize watch"
  assume IH: "\<And>cx i v fut w y. loop cx i v fut w = Some y \<Longrightarrow> changed_frame w y"
    and run: "(case fut of
        None \<Rightarrow>
          let (nst, n1) = notify_notified i (wt_notify_rx w); w1 = w\<lparr>wt_notify_rx := n1\<rparr> in
          (case maybe_changed w1 v of
             (Some ret, v') \<Rightarrow> Some (Inr (Ready ret, v', None, w1))
           | (None, v') \<Rightarrow> loop cx i v' (Some nst) w1)
      | Some nst \<Rightarrow>
          bind_oo (notified_poll cx i nst (wt_notify_rx w)) (\<lambda>(r, nst', n').
            let w' = w\<lparr>wt_notify_rx := n'\<rparr> in
            case r of
              Pending \<Rightarrow> Some (Inr (Pending, v, Some nst', w'))
            | Ready _ \<Rightarrow> loop cx i v None w')) = Some y"
  show "changed_frame w y"
  proof (cases fut)
    case None
    with run show ?thesis
      by (auto simp: Let_def split: prod.splits option.splits dest!: IH)
  next
    case (Some nst)
    with run show ?thesis
      by (auto simp: Let_def bind_oo_def split: prod.splits option.splits sum.splits poll.splits dest!: IH)
  qed
qed

lemma generations_Cons: "0 < unat g \<Longrightarrow> generations g = of_nat (unat g - 1) # generations (g - 1)"
  by (cases "unat g") (auto simp: generations_def unat_minus_one word_unat_eq_iff)

lemma generations_Suc: "unat g < 2 ^ 60 \<Longrightarrow> generations (g + 1) = g # generations g"
  using unat_word_ariths(1) [of g 1] by (simp add: generations_def)

lemma generations_length [simp]: "length (generations g) = unat g"
  by (simp add: generations_def)


section \<open>What a call does\<close>

text \<open>The receiver \<open>i\<close> of a wait of generation \<open>g\<close>.\<close>

definition bar_waiter :: "usize watch_use \<Rightarrow> barrier \<Rightarrow> nat \<Rightarrow> barrier_wait_fut \<Rightarrow> bool" where
  "bar_waiter w b i f \<longleftrightarrow> (case f of (g, v, nst) \<Rightarrow>
     watch_inv w \<and> wu_tx w \<and> wu_shared w = ba_shared b \<and> wu_hist w = generations (ba_generation b) \<and>
     wu_rx w i = Some v \<and> wu_futs w i = nst \<and> g \<le> ba_generation b \<and> unat v div 2 < unat g \<and>
     1 < unat (wt_ref_count_rx (ba_shared b)) \<and> wakers_ok w)"

lemma bar_waiterD:
  assumes "bar_waiter w b i (g, v, nst)"
  shows "watch_inv w" "wu_tx w" "wu_shared w = ba_shared b" "wu_hist w = generations (ba_generation b)"
    "wu_rx w i = Some v" "wu_futs w i = nst" "g \<le> ba_generation b" "unat v div 2 < unat g"
    "1 < unat (wt_ref_count_rx (ba_shared b))" "wakers_ok w"
  using assms unfolding bar_waiter_def prod.case by blast+

lemma waiter_seen:
  assumes "bar_waiter w b i (g, v, nst)"
  shows "sends w = unat (ba_generation b) - 1" "wu_seen w i = unat v div 2" "wu_seen w i \<le> sends w"
    "unat g \<le> unat (ba_generation b)" "0 < unat g"
proof -
  note d = bar_waiterD [OF assms]
  show s: "sends w = unat (ba_generation b) - 1" by (simp add: sends_def d(4))
  from rx_seen [OF d(1, 5)] have v: "v = of_nat (2 * wu_seen w i)" "wu_seen w i \<le> sends w" by auto
  then show "wu_seen w i \<le> sends w" by simp
  have "length (wu_hist w) \<le> 2 ^ 61" using d(1) by (simp add: watch_inv_def)
  then have "2 * wu_seen w i < 2 ^ 64" using v(2) by (simp add: sends_def)
  then have "unat v = 2 * wu_seen w i" unfolding v(1) by (intro unat_of_nat_small) simp
  then show "wu_seen w i = unat v div 2" by simp
  show "unat g \<le> unat (ba_generation b)" using d(7) by (simp add: word_le_nat_alt)
  show "0 < unat g" using d(8) by simp
qed

definition same_world ::
    "usize watch_use \<Rightarrow> usize watch_use \<Rightarrow> nat \<Rightarrow> usize option \<Rightarrow> notified_state option \<Rightarrow> waker option \<Rightarrow> bool" where
  "same_world w w' i v f k \<longleftrightarrow> watch_inv w' \<and> wakers_ok w' \<and> wu_tx w' = wu_tx w \<and> wu_hist w' = wu_hist w \<and>
     wu_rx w' = (wu_rx w)(i := v) \<and> wu_futs w' = (wu_futs w)(i := f) \<and> wu_wakers w' = (wu_wakers w)(i := k)"

lemma poll_changed:
  assumes b: "bar_waiter w b i (g, v, nst)"
  shows "\<exists>v' w'. changed_loop cx i v nst (ba_shared b) = Some (Inr
       (if wu_seen w i = sends w then Pending else Ready True, v', if wu_seen w i = sends w then Some NtWaiting else None, wu_shared w')) \<and>
     same_world w w' i (Some v') (if wu_seen w i = sends w then Some NtWaiting else None)
       (if wu_seen w i = sends w then Some cx else None) \<and>
     wu_seen w' i = sends w \<and> wt_value (wu_shared w') = of_nat (unat (ba_generation b) - 1) \<and>
     wt_ref_count_rx (wu_shared w') = wt_ref_count_rx (ba_shared b)"
proof -
  note d = bar_waiterD [OF b]
  obtain v' f sh where c: "changed_loop cx i v nst (ba_shared b) = Some (Inr (changed_answer w i, v', f, sh))"
    "watch_inv (after_changed cx w i v' f sh)" "wt_value sh = wt_value (wu_shared w)"
    "f = (if changed_answer w i = Pending then Some NtWaiting else None)" "node_polled cx w i sh"
    using changed_poll [OF d(1, 5), of cx] d(3, 6) unfolding changed_ok_def by auto
  note wk = wakers_ok_polled [OF d(10) c(5, 4), of v']
  have ans: "changed_answer w i = (if wu_seen w i = sends w then Pending else Ready True)"
    using d(2) by (simp add: changed_answer_def)
  have frame: "wt_ref_count_rx sh = wt_ref_count_rx (ba_shared b)"
    using changed_loop_frame [OF c(1)] by (simp add: changed_frame_def)
  have f: "f = (if wu_seen w i = sends w then Some NtWaiting else None)"
    using ans c(4) by simp
  have "hd (wu_hist w) = of_nat (unat (ba_generation b) - 1)"
    using waiter_seen(4, 5) [OF b] generations_Cons [of "ba_generation b"] d(4) by simp
  moreover have "wt_value (wu_shared w) = hd (wu_hist w)" using d(1) by (simp add: watch_inv_def)
  ultimately have "wt_value sh = of_nat (unat (ba_generation b) - 1)" using c(3) by simp
  then show ?thesis using c(1, 2) wk ans frame f
    by (intro exI [of _ v'] exI [of _ "after_changed cx w i v' f sh"])
      (simp add: same_world_def after_changed_def del: watch_inv_wakers)
qed

lemma rx_drop_ok:
  assumes inv: "watch_inv w" "wakers_ok w" and rx: "wu_rx w i = Some v" "wu_futs w i = None" and cnt: "1 < unat (wt_ref_count_rx (wu_shared w))"
  shows "\<exists>w'. watch_receiver_drop (wu_shared w) = Inr ([], wu_shared w') \<and> same_world w w' i None None None \<and>
     unat (wt_ref_count_rx (wu_shared w')) = unat (wt_ref_count_rx (wu_shared w)) - 1"
proof -
  let ?sh = "(wu_shared w)\<lparr>wt_ref_count_rx := wt_ref_count_rx (wu_shared w) - 1\<rparr>"
  have "wt_ref_count_rx (wu_shared w) \<noteq> 1" "wt_ref_count_rx (wu_shared w) \<noteq> 0" using cnt by auto
  then have drop: "watch_receiver_drop (wu_shared w) = Inr ([], ?sh)"
    and n: "unat (wt_ref_count_rx (wu_shared w) - 1) = unat (wt_ref_count_rx (wu_shared w)) - 1"
    by (simp_all add: watch_receiver_drop_def Let_def unat_minus_one)
  have "wu_wakers w i = None" using waiting_waker(1) [OF inv] rx(2) by (cases "wu_wakers w i") auto
  then have "(wu_futs w)(i := None) = wu_futs w" "(wu_wakers w)(i := None) = wu_wakers w"
    using rx(2) by (simp_all add: fun_upd_idem)
  with watch_step_inv [OF wt_rx_dropped [OF rx drop] inv(1)] watch_step_wakers [OF wt_rx_dropped [OF rx drop] inv] drop n
  show ?thesis
    by (intro exI [of _ "w\<lparr>wu_shared := ?sh, wu_rx := (wu_rx w)(i := None)\<rparr>"]) (simp add: same_world_def)
qed

lemma wait_loop_pending:
  assumes b: "bar_waiter w b i (g, v, nst)" and s: "wu_seen w i = sends w"
  shows "g = ba_generation b \<and> (\<exists>v' w'. wait_loop cx i (g, v, nst) b =
       Some (Inr (Pending, Some (g, v', Some NtWaiting), b\<lparr>ba_shared := wu_shared w'\<rparr>, [])) \<and>
     same_world w w' i (Some v') (Some NtWaiting) (Some cx) \<and> unat v' div 2 + 1 = unat g \<and>
     wt_ref_count_rx (wu_shared w') = wt_ref_count_rx (ba_shared b))"
proof -
  note d = bar_waiterD [OF b] and e = waiter_seen [OF b]
  have g: "unat g = unat (ba_generation b)" using e s d(8) by linarith
  obtain v' w' where c: "changed_loop cx i v nst (ba_shared b) = Some (Inr (Pending, v', Some NtWaiting, wu_shared w'))"
    "same_world w w' i (Some v') (Some NtWaiting) (Some cx)" "wu_seen w' i = sends w"
    "wt_ref_count_rx (wu_shared w') = wt_ref_count_rx (ba_shared b)"
    using poll_changed [OF b, of cx] s by auto
  have "unat v' div 2 = sends w"
  proof -
    from rx_seen [of w' i v'] c(2, 3) have v: "v' = of_nat (2 * sends w)" by (simp add: same_world_def)
    have "length (wu_hist w) \<le> 2 ^ 61" using d(1) by (simp add: watch_inv_def)
    then have "2 * sends w < 2 ^ 64" by (simp add: sends_def)
    then have "unat v' = 2 * sends w" unfolding v by (intro unat_of_nat_small) simp
    then show ?thesis by simp
  qed
  moreover have "wait_loop cx i (g, v, nst) b = Some (Inr (Pending, Some (g, v', Some NtWaiting), b\<lparr>ba_shared := wu_shared w'\<rparr>, []))"
    using c(1) by (simp add: wait_loop.simps [of cx i "(g, v, nst)"] Let_def)
  moreover have "sends w + 1 = unat g" using g e by linarith
  ultimately show ?thesis using g c(2, 4)
    by (intro conjI exI [of _ v'] exI [of _ w']) (simp_all add: word_unat_eq_iff)
qed


lemma wait_loop_ok:
  assumes b: "bar_waiter w b i (g, v, nst)"
  shows "if g < ba_generation b
     then \<exists>w'. wait_loop cx i (g, v, nst) b = Some (Inr (Ready (BarrierWaitResult False), None, b\<lparr>ba_shared := wu_shared w'\<rparr>, [])) \<and>
       same_world w w' i None None None \<and> unat (wt_ref_count_rx (wu_shared w')) = unat (wt_ref_count_rx (ba_shared b)) - 1
     else \<exists>v' w'. wait_loop cx i (g, v, nst) b =
         Some (Inr (Pending, Some (g, v', Some NtWaiting), b\<lparr>ba_shared := wu_shared w'\<rparr>, [])) \<and>
       same_world w w' i (Some v') (Some NtWaiting) (Some cx) \<and> unat v' div 2 + 1 = unat g \<and>
       wt_ref_count_rx (wu_shared w') = wt_ref_count_rx (ba_shared b)"
proof (cases "wu_seen w i = sends w")
  case True
  from wait_loop_pending [OF b True, of cx] have "g = ba_generation b" by (rule conjunct1)
  then have "\<not> g < ba_generation b" by simp
  show ?thesis unfolding if_not_P [OF \<open>\<not> g < ba_generation b\<close>] by (rule conjunct2 [OF wait_loop_pending [OF b True]])
next
  case False
  note d = bar_waiterD [OF b] and e = waiter_seen [OF b]
  obtain v' w' where c: "changed_loop cx i v nst (ba_shared b) = Some (Inr (Ready True, v', None, wu_shared w'))"
    "same_world w w' i (Some v') None None" "wu_seen w' i = sends w"
    "wt_value (wu_shared w') = of_nat (unat (ba_generation b) - 1)"
    "wt_ref_count_rx (wu_shared w') = wt_ref_count_rx (ba_shared b)"
    using poll_changed [OF b, of cx] False by auto
  let ?b = "b\<lparr>ba_shared := wu_shared w'\<rparr>"
  have "unat (ba_generation b) < 2 ^ 64" using unsigned_less [of "ba_generation b"] by simp
  then have "unat (ba_generation b) - 1 < 2 ^ 64" by linarith
  then have val: "unat (watch_borrow (wu_shared w')) = unat (ba_generation b) - 1"
    unfolding watch_borrow_def c(4) by (intro unat_of_nat_small) simp
  have seen: "unat v' div 2 = sends w"
  proof -
    from rx_seen [of w' i v'] c(2, 3) have v: "v' = of_nat (2 * sends w)" by (simp add: same_world_def)
    have "length (wu_hist w) \<le> 2 ^ 61" using d(1) by (simp add: watch_inv_def)
    then have "2 * sends w < 2 ^ 64" by (simp add: sends_def)
    then have "unat v' = 2 * sends w" unfolding v by (intro unat_of_nat_small) simp
    then show ?thesis by simp
  qed
  show ?thesis
  proof (cases "g < ba_generation b")
    case True
    then have ge: "watch_borrow (wu_shared w') \<ge> g" using val by (simp add: word_le_nat_alt word_less_nat_alt)
    obtain w2 where w2: "watch_receiver_drop (wu_shared w') = Inr ([], wu_shared w2)" "same_world w' w2 i None None None"
      "unat (wt_ref_count_rx (wu_shared w2)) = unat (wt_ref_count_rx (wu_shared w')) - 1"
      using rx_drop_ok [of w' i v'] c(2, 5) d(9) by (auto simp: same_world_def)
    have "wait_loop cx i (g, v, nst) b = Some (Inr (Ready (BarrierWaitResult False), None, b\<lparr>ba_shared := wu_shared w2\<rparr>, []))"
      using c(1) ge w2(1) by (simp add: wait_loop.simps [of cx i "(g, v, nst)"] Let_def)
    moreover have "same_world w w2 i None None None" using c(2) w2(2) by (simp add: same_world_def)
    ultimately show ?thesis using True w2(3) c(5) by auto
  next
    case not_yet: False
    then have g: "g = ba_generation b" using d(7) by simp
    then have lt: "\<not> watch_borrow (wu_shared w') \<ge> g" using val e(5) by (simp add: word_le_nat_alt)
    have b': "bar_waiter w' ?b i (g, v', None)"
      using c(2, 5) d e(1, 5) g seen by (simp add: bar_waiter_def same_world_def)
    have "wu_seen w' i = sends w'" using c(2, 3) by (simp add: same_world_def sends_def)
    from wait_loop_pending [OF b' this, of cx] obtain v2 w2 where w2:
      "wait_loop cx i (g, v', None) ?b = Some (Inr (Pending, Some (g, v2, Some NtWaiting), b\<lparr>ba_shared := wu_shared w2\<rparr>, []))"
      "same_world w' w2 i (Some v2) (Some NtWaiting) (Some cx)" "unat v2 div 2 + 1 = unat g"
      "wt_ref_count_rx (wu_shared w2) = wt_ref_count_rx (wu_shared w')" by auto
    have "wait_loop cx i (g, v, nst) b = Some (Inr (Pending, Some (g, v2, Some NtWaiting), b\<lparr>ba_shared := wu_shared w2\<rparr>, []))"
      using c(1) lt w2(1) by (simp add: wait_loop.simps [of cx i "(g, v, nst)"] Let_def)
    moreover have "same_world w w2 i (Some v2) (Some NtWaiting) (Some cx)" using c(2) w2(2) by (simp add: same_world_def)
    ultimately show ?thesis using not_yet w2(3, 4) c(5) by auto
  qed
qed


text \<open>The call that completes its generation.\<close>

lemma arrive_last:
  assumes inv: "watch_inv w" "wu_tx w" "wu_shared w = ba_shared b" "wu_hist w = generations (ba_generation b)" "wakers_ok w"
    and cnt: "wt_ref_count_rx (ba_shared b) \<noteq> 0" and room: "unat (ba_generation b) < 2 ^ 60"
    and last: "ba_arrived b + 1 = ba_n b"
  shows "\<exists>w'. barrier_arrive b = Inr (None, b\<lparr>ba_arrived := 0, ba_shared := wu_shared w', ba_generation := ba_generation b + 1\<rparr>,
       nt_wakers (nf_nodes (wt_notify_rx (ba_shared b))) (rev (nf_waiters (wt_notify_rx (ba_shared b))))) \<and>
     watch_inv w' \<and> wu_tx w' \<and> wu_hist w' = generations (ba_generation b + 1) \<and> wu_rx w' = wu_rx w \<and> wu_futs w' = wu_futs w \<and>
     wt_ref_count_rx (wu_shared w') = wt_ref_count_rx (ba_shared b) \<and> wakers_ok w' \<and>
     wu_wakers w' = unwoken (nt_wakers (nf_nodes (wt_notify_rx (ba_shared b))) (rev (nf_waiters (wt_notify_rx (ba_shared b))))) (wu_wakers w)"
proof -
  let ?ws = "nt_wakers (nf_nodes (wt_notify_rx (ba_shared b))) (rev (nf_waiters (wt_notify_rx (ba_shared b))))"
  have len: "length (wu_hist w) < 2 ^ 61" using inv(4) room by simp
  from modify_keeps [OF inv(1, 2) len, of "\<lambda>_. (Some True, ba_generation b)"] inv(3)
  obtain sh where sh: "watch_send_if_modified (\<lambda>_. (Some True, ba_generation b)) (ba_shared b) =
      (Inr (True, nt_wakers (nf_nodes (wt_notify_rx (ba_shared b))) (rev (nf_waiters (wt_notify_rx (ba_shared b))))), sh)"
    "wt_value sh = ba_generation b" "wt_ref_count_rx sh = wt_ref_count_rx (ba_shared b)"
    "watch_inv (w\<lparr>wu_shared := sh, wu_hist := ba_generation b # wu_hist w\<rparr>)" by auto
  then have "watch_send (ba_generation b) (ba_shared b) =
      (Inr (None, nt_wakers (nf_nodes (wt_notify_rx (ba_shared b))) (rev (nf_waiters (wt_notify_rx (ba_shared b))))), sh)"
    using cnt by (simp add: watch_send_def watch_send_replace_def watch_send_modify_def watch_receiver_count_def)
  moreover have "wakers_ok (w\<lparr>wu_shared := sh, wu_hist := ba_generation b # wu_hist w, wu_wakers := unwoken ?ws (wu_wakers w)\<rparr>)"
    using modify_wakers [OF inv(1, 2, 5), unfolded inv(3), OF sh(1)] sh(2) by (simp add: woken_by_def)
  ultimately show ?thesis using sh inv(2, 4) last generations_Suc [OF room]
    by (intro exI [of _ "w\<lparr>wu_shared := sh, wu_hist := ba_generation b # wu_hist w, wu_wakers := unwoken ?ws (wu_wakers w)\<rparr>"])
      (simp add: barrier_arrive_def Let_def)
qed

lemma arrive_early: "ba_arrived b + 1 \<noteq> ba_n b \<Longrightarrow>
    barrier_arrive b = Inr (Some (ba_generation b), b\<lparr>ba_arrived := ba_arrived b + 1\<rparr>, [])"
  by (simp add: barrier_arrive_def Let_def)

section \<open>The invariant is kept\<close>

lemma bar_channelD:
  assumes "bar_channel w u"
  shows "watch_inv w" "wu_tx w" "wu_shared w = ba_shared (bu_barrier u)" "wu_rx w = bar_rx u" "wu_futs w = bar_futs u"
    "wu_hist w = generations (ba_generation (bu_barrier u))" "wakers_ok w" "wu_wakers w = bu_wakers u"
  using assms unfolding bar_channel_def by blast+

lemma bar_countsD:
  assumes "bar_counts u"
  shows "finite (dom (bu_waits u))" "bu_waits u 0 = None" "card (dom (bu_waits u)) + 1 < 2 ^ 64"
    "unat (wt_ref_count_rx (ba_shared (bu_barrier u))) = card (dom (bu_waits u)) + 1"
  using assms unfolding bar_counts_def by blast+

lemma bar_waiter_of:
  assumes c: "bar_channel w u" and n: "bar_counts u" and ws: "bar_waits u" and i: "bu_waits u i = Some (g, v, f)"
  shows "bar_waiter w (bu_barrier u) i (g, v, f)"
proof -
  have "i \<noteq> 0" using i bar_countsD(2) [OF n] by (metis option.distinct(1))
  moreover have "dom (bu_waits u) \<noteq> {}" using i by auto
  then have "0 < card (dom (bu_waits u))" using bar_countsD(1) [OF n] by (simp add: card_gt_0_iff)
  then have "1 < unat (wt_ref_count_rx (ba_shared (bu_barrier u)))" using bar_countsD(4) [OF n] by linarith
  moreover have "g \<le> ba_generation (bu_barrier u)" "unat v div 2 + 1 = unat g" using ws i unfolding bar_waits_def by blast+
  ultimately show ?thesis using bar_channelD [OF c] i by (simp add: bar_waiter_def bar_rx_def bar_futs_def)
qed

text \<open>A wait ends (\<open>None\<close>) or goes on waiting.\<close>

lemma ended_ok:
  assumes c: "bar_channel w u" and n: "bar_counts u" and ws: "bar_waits u" and i: "bu_waits u i \<noteq> None"
    and s: "same_world w w' i None None None" "unat (wt_ref_count_rx (wu_shared w')) = unat (wt_ref_count_rx (ba_shared (bu_barrier u))) - 1"
    and v: "bu_barrier v = (bu_barrier u)\<lparr>ba_shared := wu_shared w'\<rparr>" "bu_waits v = (bu_waits u)(i := None)"
    "bu_wakers v = (bu_wakers u)(i := None)"
  shows "bar_channel w' v \<and> bar_counts v \<and> bar_waits v"
proof (intro conjI)
  have i0: "i \<noteq> 0" using i bar_countsD(2) [OF n] by metis
  have "bar_rx v = (bar_rx u)(i := None)" "bar_futs v = (bar_futs u)(i := None)"
    using v i0 by (auto simp: bar_rx_def bar_futs_def fun_eq_iff)
  then show "bar_channel w' v" using bar_channelD [OF c] s(1) v(1, 3) by (simp add: bar_channel_def same_world_def)
  have "i \<in> dom (bu_waits u)" using i by auto
  then have "card (dom (bu_waits u) - {i}) = card (dom (bu_waits u)) - 1" "0 < card (dom (bu_waits u))"
    using bar_countsD(1) [OF n] by (auto simp: card_gt_0_iff)
  then show "bar_counts v" using bar_countsD [OF n] s(2) v by (simp add: bar_counts_def)
  show "bar_waits v" using ws v unfolding bar_waits_def by (simp add: fun_upd_def)
qed

lemma waiting_ok:
  assumes c: "bar_channel w u" and n: "finite (dom (bu_waits u))" "bu_waits u 0 = None" and ws: "bar_waits u" and i: "i \<noteq> 0"
    and s: "same_world w w' i (Some x) (Some NtWaiting) (Some cx)" "g \<le> ba_generation b" "unat x div 2 + 1 = unat g"
    and cnt: "card (insert i (dom (bu_waits u))) + 1 < 2 ^ 64"
      "unat (wt_ref_count_rx (wu_shared w')) = card (insert i (dom (bu_waits u))) + 1"
    and v: "bu_barrier v = b\<lparr>ba_shared := wu_shared w'\<rparr>" "bu_waits v = (bu_waits u)(i \<mapsto> (g, x, Some NtWaiting))"
      "bu_wakers v = (bu_wakers u)(i \<mapsto> cx)"
    and b: "ba_generation b = ba_generation (bu_barrier u)" "ba_wait b = ba_wait (bu_barrier u)"
  shows "bar_channel w' v \<and> bar_counts v \<and> bar_waits v"
proof (intro conjI)
  have "bar_rx v = (bar_rx u)(i \<mapsto> x)" "bar_futs v = (bar_futs u)(i \<mapsto> NtWaiting)"
    using v i b by (auto simp: bar_rx_def bar_futs_def fun_eq_iff)
  then show "bar_channel w' v" using bar_channelD [OF c] s(1) v(1, 3) b by (simp add: bar_channel_def same_world_def)
  show "bar_counts v" using n cnt i v by (simp add: bar_counts_def)
  show "bar_waits v" using ws v s(2, 3) b unfolding bar_waits_def by (simp add: fun_upd_def)
qed


definition wait_answer :: "barrier_use \<Rightarrow> nat \<Rightarrow> BarrierWaitResult poll" where
  "wait_answer u i =
     (case bu_waits u i of
        None \<Rightarrow> if ba_arrived (bu_barrier u) + 1 = ba_n (bu_barrier u) then Ready (BarrierWaitResult True) else Pending
      | Some (g, _, _) \<Rightarrow> if g < ba_generation (bu_barrier u) then Ready (BarrierWaitResult False) else Pending)"

definition waiting_wakers :: "barrier_use \<Rightarrow> waker list" where
  "waiting_wakers u = (let n = wt_notify_rx (ba_shared (bu_barrier u)) in nt_wakers (nf_nodes n) (rev (nf_waiters n)))"

lemma bar_stateD:
  assumes "bar_state n u"
  shows "ba_n (bu_barrier u) = (if n = 0 then 1 else n)" "ba_arrived (bu_barrier u) < ba_n (bu_barrier u)"
    "0 < unat (ba_generation (bu_barrier u))" "ba_wait (bu_barrier u) = 0"
    "bu_leaders u = unat (ba_generation (bu_barrier u)) - 1"
    "bu_begun u = bu_leaders u * unat (ba_n (bu_barrier u)) + unat (ba_arrived (bu_barrier u))"
  using assms unfolding bar_state_def by blast+

lemma bar_state_frame [simp]: "bar_state n (u\<lparr>bu_barrier := (bu_barrier u)\<lparr>ba_shared := s\<rparr>, bu_waits := x, bu_wakers := y\<rparr>) = bar_state n u"
  by (simp add: bar_state_def)

lemma unat_arrived:
  assumes "bar_state n u"
  shows "unat (ba_arrived (bu_barrier u) + 1) = unat (ba_arrived (bu_barrier u)) + 1"
proof -
  have "unat (ba_arrived (bu_barrier u)) < unat (ba_n (bu_barrier u))"
    using bar_stateD(2) [OF assms] by (simp add: word_less_nat_alt)
  moreover have "unat (ba_n (bu_barrier u)) < 2 ^ 64" using unsigned_less [of "ba_n (bu_barrier u)"] by simp
  ultimately show ?thesis by (simp add: unat_word_ariths)
qed

lemma later_poll_keeps:
  assumes inv: "bar_inv n u" and i: "bu_waits u i = Some (g, v, f)"
  shows "\<exists>u'. barrier_exec (BarrierWait cx i) u = Some (Inr (wait_answer u i, [], u')) \<and> bar_inv n u'"
proof -
  obtain w where c: "bar_channel w u" and n: "bar_counts u" and st: "bar_state n u" and ws: "bar_waits u"
    using inv unfolding bar_inv_def by blast
  note b = bar_waiter_of [OF c n ws i]
  show ?thesis
  proof (cases "g < ba_generation (bu_barrier u)")
    case True
    obtain w' where w': "wait_loop cx i (g, v, f) (bu_barrier u) =
        Some (Inr (Ready (BarrierWaitResult False), None, (bu_barrier u)\<lparr>ba_shared := wu_shared w'\<rparr>, []))"
      "same_world w w' i None None None"
      "unat (wt_ref_count_rx (wu_shared w')) = unat (wt_ref_count_rx (ba_shared (bu_barrier u))) - 1"
      using wait_loop_ok [OF b, of cx] unfolding if_P [OF True] by (elim exE conjE) (rule that)
    let ?u = "u\<lparr>bu_barrier := (bu_barrier u)\<lparr>ba_shared := wu_shared w'\<rparr>, bu_waits := (bu_waits u)(i := None),
      bu_wakers := (bu_wakers u)(i := None)\<rparr>"
    have "bar_channel w' ?u \<and> bar_counts ?u \<and> bar_waits ?u"
      by (rule ended_ok [OF c n ws _ w'(2, 3)]) (use i in simp_all)
    moreover have "bar_state n ?u" using st by simp
    ultimately have "bar_inv n ?u" unfolding bar_inv_def by blast
    then show ?thesis using w'(1) i True by (simp add: barrier_wait_def wait_answer_def)
  next
    case False
    obtain x w' where w': "wait_loop cx i (g, v, f) (bu_barrier u) =
        Some (Inr (Pending, Some (g, x, Some NtWaiting), (bu_barrier u)\<lparr>ba_shared := wu_shared w'\<rparr>, []))"
      "same_world w w' i (Some x) (Some NtWaiting) (Some cx)" "unat x div 2 + 1 = unat g"
      "wt_ref_count_rx (wu_shared w') = wt_ref_count_rx (ba_shared (bu_barrier u))"
      using wait_loop_ok [OF b, of cx] unfolding if_not_P [OF False] by (elim exE conjE) (rule that)
    let ?u = "u\<lparr>bu_barrier := (bu_barrier u)\<lparr>ba_shared := wu_shared w'\<rparr>, bu_waits := (bu_waits u)(i \<mapsto> (g, x, Some NtWaiting)),
      bu_wakers := (bu_wakers u)(i \<mapsto> cx)\<rparr>"
    note nd = bar_countsD [OF n]
    have i0: "i \<noteq> 0" "insert i (dom (bu_waits u)) = dom (bu_waits u)" using i nd(2) by (metis option.distinct(1), auto)
    have "bar_channel w' ?u \<and> bar_counts ?u \<and> bar_waits ?u"
      by (rule waiting_ok [OF c nd(1, 2) ws i0(1) w'(2) _ w'(3)]) (use i0(2) nd w'(4) bar_waiterD(7) [OF b] in simp_all)
    moreover have "bar_state n ?u" using st by simp
    ultimately have "bar_inv n ?u" unfolding bar_inv_def by blast
    then show ?thesis using w'(1) i False by (simp add: barrier_wait_def wait_answer_def)
  qed
qed

lemma leader_keeps:
  assumes inv: "bar_inv n u" and i: "bu_waits u i = None" and legal: "barrier_legal (BarrierWait cx i) u"
    and last: "ba_arrived (bu_barrier u) + 1 = ba_n (bu_barrier u)"
  shows "\<exists>u'. barrier_exec (BarrierWait cx i) u = Some (Inr (Ready (BarrierWaitResult True), waiting_wakers u, u')) \<and> bar_inv n u' \<and>
     bu_waits u' = bu_waits u \<and> ba_generation (bu_barrier u') = ba_generation (bu_barrier u) + 1 \<and> bu_wakers u' = (\<lambda>_. None)"
proof -
  obtain w where c: "bar_channel w u" and n: "bar_counts u" and st: "bar_state n u" and ws: "bar_waits u"
    using inv unfolding bar_inv_def by blast
  note d = bar_channelD [OF c] and sd = bar_stateD [OF st]
  let ?b = "bu_barrier u"
  have ref: "wt_ref_count_rx (ba_shared ?b) \<noteq> 0" using bar_countsD(4) [OF n] by auto
  have room: "unat (ba_generation ?b) < 2 ^ 60" using legal by simp
  obtain w' where w': "barrier_arrive ?b =
      Inr (None, ?b\<lparr>ba_arrived := 0, ba_shared := wu_shared w', ba_generation := ba_generation ?b + 1\<rparr>, waiting_wakers u)"
    "watch_inv w'" "wu_tx w'" "wu_hist w' = generations (ba_generation ?b + 1)" "wu_rx w' = wu_rx w" "wu_futs w' = wu_futs w"
    "wt_ref_count_rx (wu_shared w') = wt_ref_count_rx (ba_shared ?b)" "wakers_ok w'" "wu_wakers w' = unwoken (waiting_wakers u) (wu_wakers w)"
    using arrive_last [OF d(1-3, 6, 7) ref room last] by (elim exE conjE) (rule that, simp_all add: waiting_wakers_def Let_def)
  let ?u = "u\<lparr>bu_barrier := ?b\<lparr>ba_arrived := 0, ba_shared := wu_shared w', ba_generation := ba_generation ?b + 1\<rparr>,
    bu_waits := (bu_waits u)(i := None), bu_begun := bu_begun u + 1, bu_leaders := bu_leaders u + 1,
    bu_wakers := unwoken (waiting_wakers u) ((bu_wakers u)(i := None))\<rparr>"
  have none: "unwoken (waiting_wakers u) (bu_wakers u) = (\<lambda>_. None)"
    using all_woken [OF d(1, 7)] d(3, 8) by (simp add: waiting_wakers_def Let_def)
  have gen: "unat (ba_generation ?b + 1) = unat (ba_generation ?b) + 1" using room by (simp add: unat_word_ariths)
  have "wu_wakers w i = None" using waiting_waker(1) [OF d(1, 7), of i] d(5) i by (cases "wu_wakers w i") (auto simp: bar_futs_def)
  then have same: "(bu_waits u)(i := None) = bu_waits u" "(bu_wakers u)(i := None) = bu_wakers u"
    using i d(8) by (simp_all add: fun_upd_idem)
  have "bar_channel w' ?u"
    using w' d by (simp add: bar_channel_def bar_rx_def bar_futs_def fun_eq_iff same)
  moreover have "bar_counts ?u" using n w'(7) by (simp add: bar_counts_def same)
  moreover have "bar_state n ?u"
  proof -
    have "unat (ba_n ?b) = unat (ba_arrived ?b) + 1" using unat_arrived [OF st] last by simp
    then have "bu_begun u + 1 = (bu_leaders u + 1) * unat (ba_n ?b)" using sd(6) by simp
    then show ?thesis using sd gen by (simp add: bar_state_def word_gt_0)
  qed
  moreover have "bar_waits ?u"
    using ws gen unfolding bar_waits_def by (fastforce simp: same word_le_nat_alt)
  ultimately have "bar_inv n ?u" unfolding bar_inv_def by blast
  then show ?thesis using w'(1) i none by (simp add: barrier_wait_def same)
qed


lemma early_keeps:
  assumes inv: "bar_inv n u" and i: "bu_waits u i = None" and legal: "barrier_legal (BarrierWait cx i) u"
    and early: "ba_arrived (bu_barrier u) + 1 \<noteq> ba_n (bu_barrier u)"
  shows "\<exists>u'. barrier_exec (BarrierWait cx i) u = Some (Inr (Pending, [], u')) \<and> bar_inv n u' \<and>
     (\<exists>v sh. bu_waits u' = (bu_waits u)(i \<mapsto> (ba_generation (bu_barrier u), v, Some NtWaiting)) \<and>
       bu_barrier u' = (bu_barrier u)\<lparr>ba_arrived := ba_arrived (bu_barrier u) + 1, ba_shared := sh\<rparr>)"
proof -
  obtain w where c: "bar_channel w u" and n: "bar_counts u" and st: "bar_state n u" and ws: "bar_waits u"
    using inv unfolding bar_inv_def by blast
  note d = bar_channelD [OF c] and sd = bar_stateD [OF st] and nd = bar_countsD [OF n]
  have i0: "i \<noteq> 0" and room: "card (dom (bu_waits u)) + 2 < 2 ^ 64" using legal by simp_all
  let ?sh = "(ba_shared (bu_barrier u))\<lparr>wt_ref_count_rx := wt_ref_count_rx (ba_shared (bu_barrier u)) + 1\<rparr>"
  let ?b = "(bu_barrier u)\<lparr>ba_arrived := ba_arrived (bu_barrier u) + 1\<rparr>"
  let ?w = "w\<lparr>wu_shared := ?sh, wu_rx := (wu_rx w)(i \<mapsto> 0), wu_seen := (wu_seen w)(i := wu_seen w 0)\<rparr>"
  have clone: "watch_clone (ba_wait (bu_barrier u)) (ba_shared (bu_barrier u)) = (0, ?sh)"
    using sd(4) by (simp add: watch_clone_def watch_from_shared_def)
  have "watch_step w ?w"
    by (rule wt_cloned) (use d sd(4) i i0 clone in \<open>simp_all add: bar_rx_def\<close>)
  note step = this
  have "watch_inv ?w" by (rule watch_step_inv [OF step d(1)])
  moreover have "wakers_ok ?w" by (rule watch_step_wakers [OF step d(1, 7)])
  moreover have ref: "unat (wt_ref_count_rx (ba_shared (bu_barrier u)) + 1) = card (dom (bu_waits u)) + 2"
    using nd(4) room by (simp add: unat_word_ariths)
  moreover have "bar_futs u i = None" using i by (simp add: bar_futs_def)
  ultimately have "bar_waiter ?w (?b\<lparr>ba_shared := ?sh\<rparr>) i (ba_generation (bu_barrier u), 0, None)"
    using d sd(3) by (simp add: bar_waiter_def)
  from wait_loop_ok [OF this, of cx] obtain x w' where w':
    "wait_loop cx i (ba_generation (bu_barrier u), 0, None) (?b\<lparr>ba_shared := ?sh\<rparr>) =
      Some (Inr (Pending, Some (ba_generation (bu_barrier u), x, Some NtWaiting), ?b\<lparr>ba_shared := wu_shared w'\<rparr>, []))"
    "same_world ?w w' i (Some x) (Some NtWaiting) (Some cx)" "unat x div 2 + 1 = unat (ba_generation (bu_barrier u))"
    "wt_ref_count_rx (wu_shared w') = wt_ref_count_rx (ba_shared (bu_barrier u)) + 1"
    by auto
  have s: "same_world w w' i (Some x) (Some NtWaiting) (Some cx)" using w'(2) by (simp add: same_world_def)
  let ?u = "u\<lparr>bu_barrier := ?b\<lparr>ba_shared := wu_shared w'\<rparr>,
    bu_waits := (bu_waits u)(i \<mapsto> (ba_generation (bu_barrier u), x, Some NtWaiting)), bu_begun := bu_begun u + 1,
    bu_wakers := (bu_wakers u)(i \<mapsto> cx)\<rparr>"
  have card: "card (insert i (dom (bu_waits u))) = card (dom (bu_waits u)) + 1" using nd(1) i by (simp add: domIff)
  have "bar_channel w' ?u \<and> bar_counts ?u \<and> bar_waits ?u"
    by (rule waiting_ok [where b = ?b, OF c nd(1, 2) ws i0 s _ w'(3)]) (use card room ref w'(4) in simp_all)
  moreover have "bar_state n ?u"
  proof -
    have "unat (ba_arrived (bu_barrier u) + 1) < unat (ba_n (bu_barrier u))"
      using early sd(2) unat_arrived [OF st] by (auto simp: word_less_nat_alt word_unat_eq_iff)
    then show ?thesis using sd unat_arrived [OF st] by (auto simp: bar_state_def word_less_nat_alt)
  qed
  ultimately have "bar_inv n ?u" unfolding bar_inv_def by blast
  then show ?thesis using w'(1) i clone arrive_early [OF early] by (auto simp: barrier_wait_def)
qed

lemma cancel_barrier_keeps:
  assumes inv: "bar_inv n u"
  shows "\<exists>r ws u'. barrier_exec (BarrierCancel i) u = Some (Inr (r, ws, u')) \<and> bar_inv n u'"
proof (cases "bu_waits u i")
  case None
  have "bu_wakers u i = None"
  proof -
    obtain w where "bar_channel w u" using inv unfolding bar_inv_def by blast
    note d = bar_channelD [OF this]
    show ?thesis using waiting_waker(1) [OF d(1, 7), of i] d(5, 8) None by (cases "bu_wakers u i") (auto simp: bar_futs_def)
  qed
  with None have "u\<lparr>bu_barrier := bu_barrier u, bu_waits := (bu_waits u)(i := None), bu_wakers := (bu_wakers u)(i := None)\<rparr> = u"
    by (simp add: fun_upd_idem)
  with None inv show ?thesis by (simp add: barrier_wait_drop_def)
next
  case (Some fut)
  obtain g v f where fut: "fut = (g, v, f)" by (cases fut)
  obtain w where c: "bar_channel w u" and n: "bar_counts u" and st: "bar_state n u" and ws: "bar_waits u"
    using inv unfolding bar_inv_def by blast
  note b = bar_waiterD [OF bar_waiter_of [OF c n ws Some [unfolded fut]]]
  have f: "f = Some NtWaiting" using ws Some fut unfolding bar_waits_def by blast
  have nt: "notify_inv \<lparr>nu_notify = wt_notify_rx (wu_shared w), nu_futs = wu_futs w\<rparr>"
    using b(1) by (simp add: watch_inv_def)
  obtain wk m where m: "notified_drop i NtWaiting (wt_notify_rx (wu_shared w)) = Inr (wk, m)"
    using notify_drop_keeps [OF nt, of i NtWaiting] b(6) f by auto
  let ?sh = "(wu_shared w)\<lparr>wt_notify_rx := m\<rparr>"
  have drop: "changed_drop i (wu_futs w i) (wu_shared w) = Inr (wk, ?sh)"
    using m b(6) f by (simp add: changed_drop_def)
  let ?w = "w\<lparr>wu_shared := ?sh, wu_futs := (wu_futs w)(i := None), wu_wakers := (wu_wakers w)(i := None)\<rparr>"
  note wk = cancel_wakers [OF b(1, 10) drop]
  have "watch_inv ?w" using cancel_keeps [OF b(1) drop] by simp
  from rx_drop_ok [OF this, of i v] wk b(3, 5, 9) obtain w' where w': "watch_receiver_drop ?sh = Inr ([], wu_shared w')"
    "same_world ?w w' i None None None" "unat (wt_ref_count_rx (wu_shared w')) = unat (wt_ref_count_rx (ba_shared (bu_barrier u))) - 1"
    by auto
  have s: "same_world w w' i None None None" using w'(2) by (simp add: same_world_def)
  let ?u = "u\<lparr>bu_barrier := (bu_barrier u)\<lparr>ba_shared := wu_shared w'\<rparr>, bu_waits := (bu_waits u)(i := None),
    bu_wakers := (bu_wakers u)(i := None)\<rparr>"
  have "bar_channel w' ?u \<and> bar_counts ?u \<and> bar_waits ?u"
    by (rule ended_ok [OF c n ws _ s w'(3)]) (use Some in simp_all)
  then have "bar_inv n ?u" using st unfolding bar_inv_def by auto
  then show ?thesis using Some fut drop w'(1) wk b(3, 6) by (simp add: barrier_wait_drop_def)
qed

lemma barrier_start_inv: "bar_inv n (barrier_start n)"
proof -
  let ?w = "\<lparr>wu_shared = fst (watch_channel 0), wu_tx = True, wu_rx = [0 \<mapsto> 0], wu_futs = (\<lambda>_. None), wu_hist = [0 :: usize], wu_seen = (\<lambda>_. 0), wu_wakers = (\<lambda>_. None)\<rparr>"
  have "watch_reach ?w" by (rule watch_reach.intros(1)) (simp add: watch_channel_def version_initial_def)
  then have "watch_inv ?w" "wakers_ok ?w" by (rule watch_reach_inv, rule watch_reach_wakers)
  then have "bar_channel ?w (barrier_start n)"
    by (simp add: bar_channel_def barrier_start_def barrier_new_def watch_channel_def version_initial_def bar_rx_def bar_futs_def
        generations_def fun_eq_iff)
  moreover have "bar_counts (barrier_start n)" "bar_state n (barrier_start n)" "bar_waits (barrier_start n)"
    by (simp_all add: bar_counts_def bar_state_def bar_waits_def barrier_start_def barrier_new_def watch_channel_def version_initial_def word_gt_0)
  ultimately show ?thesis unfolding bar_inv_def by blast
qed

lemma barrier_exec_keeps:
  assumes inv: "bar_inv n u" and legal: "barrier_legal p u"
  shows "\<exists>r ws u'. barrier_exec p u = Some (Inr (r, ws, u')) \<and> bar_inv n u' \<and>
     (\<forall>cx i. p = BarrierWait cx i \<longrightarrow> r = wait_answer u i \<and> (r = Ready (BarrierWaitResult True) \<longrightarrow> ws = waiting_wakers u))"
proof (cases p)
  case (BarrierCancel i)
  with cancel_barrier_keeps [OF inv, of i] show ?thesis by auto
next
  case (BarrierWait cx i)
  show ?thesis
  proof (cases "bu_waits u i")
    case None
    with BarrierWait legal leader_keeps [OF inv None, of cx] early_keeps [OF inv None, of cx] show ?thesis
      by (cases "ba_arrived (bu_barrier u) + 1 = ba_n (bu_barrier u)") (force simp: wait_answer_def simp del: barrier_exec.simps)+
  next
    case (Some fut)
    obtain g v f where fut: "fut = (g, v, f)" by (cases fut)
    from later_poll_keeps [OF inv Some [unfolded fut], of cx] obtain u' where
      "barrier_exec p u = Some (Inr (wait_answer u i, [], u'))" "bar_inv n u'" unfolding BarrierWait by blast
    moreover have "wait_answer u i \<noteq> Ready (BarrierWaitResult True)" using Some fut by (simp add: wait_answer_def)
    ultimately show ?thesis using BarrierWait by auto
  qed
qed

lemma barrier_reach_inv: "barrier_reach n u \<Longrightarrow> bar_inv n u"
proof (induction rule: barrier_reach.induct)
  case (barrier_begin n)
  show ?case by (rule barrier_start_inv)
next
  case (barrier_next n u p r ws v)
  from barrier_exec_keeps [OF barrier_next.IH barrier_next.hyps(2)] barrier_next.hyps(3) show ?case by auto
qed

text \<open>What is known of a waiting call: its node, and its waker if it has not been woken.\<close>

lemma waiting_call:
  assumes c: "bar_channel w u" and n: "bar_counts u" and ws: "bar_waits u" and i: "bu_waits u i = Some (g, v, f)"
  shows "if g = ba_generation (bu_barrier u)
    then i \<in> set (nf_waiters (wt_notify_rx (ba_shared (bu_barrier u)))) \<and>
      (\<exists>k. bu_wakers u i = Some k \<and> k \<in> set (waiting_wakers u))
    else g < ba_generation (bu_barrier u) \<and> bu_wakers u i = None \<and>
      nw_notified (nf_nodes (wt_notify_rx (ba_shared (bu_barrier u))) i) \<noteq> None"
proof -
  note d = bar_channelD [OF c]
  note b = bar_waiter_of [OF c n ws i]
  have fut: "wu_futs w i = Some NtWaiting" and g: "unat v div 2 + 1 = unat g" "g \<le> ba_generation (bu_barrier u)"
    using ws i bar_waiterD(6) [OF b] unfolding bar_waits_def by blast+
  have seen: "wu_seen w i = sends w \<longleftrightarrow> g = ba_generation (bu_barrier u)"
    using waiter_seen(1, 2, 4, 5) [OF b] g by (auto simp: word_unat_eq_iff)
  have wk: "wu_wakers w i = None \<longleftrightarrow> wu_seen w i \<noteq> sends w"
  proof (cases "wu_wakers w i")
    case None
    then have "wu_seen w i < sends w" using d(2, 7) fut unfolding wakers_ok_def by blast
    with None show ?thesis by simp
  next
    case (Some k)
    from futs_waiting [OF d(1) fut] waiting_waker(2) [OF d(1, 7) Some] Some show ?thesis by simp
  qed
  show ?thesis
  proof (cases "g = ba_generation (bu_barrier u)")
    case True
    with seen wk obtain k where k: "wu_wakers w i = Some k" by auto
    with waiting_waker(3, 4) [OF d(1, 7) k] d(3, 8) True show ?thesis by (simp add: waiting_wakers_def Let_def)
  next
    case False
    with seen wk have "wu_wakers w i = None" by simp
    moreover from this have "nw_notified (nf_nodes (wt_notify_rx (wu_shared w)) i) \<noteq> None"
      using d(7) fut unfolding wakers_ok_def waker_held_def by (metis option.distinct(1))
    ultimately show ?thesis using False g(2) d(3, 8) by simp
  qed
qed

section \<open>What the barrier promises\<close>

text \<open>C35: A call of \<open>wait\<close> always returns, without a panic. The first poll makes its caller the leader exactly
  if it is the \<open>n\<close>-th to arrive in its generation; a later poll is ready, not as the leader, exactly if the
  generation of the call is over, and then at least as many calls arrived as that many full generations need.
  There is one leader for every \<open>n\<close> arrivals (a barrier for no task is one for a single task).\<close>

theorem barrier_opens_for_n:
  assumes "barrier_reach n u" "barrier_legal (BarrierWait cx i) u"
  shows "(\<exists>ws u'. barrier_exec (BarrierWait cx i) u = Some (Inr (wait_answer u i, ws, u')) \<and> barrier_reach n u') \<and>
     bu_leaders u = bu_begun u div max 1 (unat n) \<and>
     (wait_answer u i = Ready (BarrierWaitResult True) \<longleftrightarrow> bu_waits u i = None \<and> (bu_begun u + 1) mod max 1 (unat n) = 0) \<and>
     (\<forall>g v f. bu_waits u i = Some (g, v, f) \<longrightarrow>
       (wait_answer u i = Ready (BarrierWaitResult False) \<longleftrightarrow> unat g * max 1 (unat n) \<le> bu_begun u))"
proof -
  note inv = barrier_reach_inv [OF assms(1)]
  then have st: "bar_state n u" and ws: "bar_waits u" by (simp_all add: bar_inv_def)
  let ?m = "max 1 (unat n)" and ?a = "unat (ba_arrived (bu_barrier u))"
  have "0 < unat (ba_n (bu_barrier u))" using bar_stateD(2) [OF st] by (simp add: word_less_nat_alt)
  then have m: "unat (ba_n (bu_barrier u)) = ?m" using bar_stateD(1) [OF st] by (cases "n = 0") auto
  have a: "?a < ?m" using bar_stateD(2) [OF st] m by (simp add: word_less_nat_alt)
  have begun: "bu_begun u = bu_leaders u * ?m + ?a" using bar_stateD(6) [OF st] m by simp
  have leaders: "bu_leaders u = bu_begun u div ?m" using begun a by simp
  have last: "ba_arrived (bu_barrier u) + 1 = ba_n (bu_barrier u) \<longleftrightarrow> (bu_begun u + 1) mod ?m = 0"
  proof -
    have "ba_arrived (bu_barrier u) + 1 = ba_n (bu_barrier u) \<longleftrightarrow> ?a + 1 = ?m"
      using unat_arrived [OF st] m by (simp add: word_unat_eq_iff)
    also have "\<dots> \<longleftrightarrow> (?a + 1) mod ?m = 0"
    proof (cases "?a + 1 = ?m")
      case False
      then have "(?a + 1) mod ?m = ?a + 1" using a by (intro mod_less) linarith
      then show ?thesis using False by simp
    qed simp
    also have "(?a + 1) mod ?m = (bu_begun u + 1) mod ?m" using mod_mult_self3 [of "bu_leaders u" ?m "?a + 1"] begun by (simp add: ac_simps)
    finally show ?thesis .
  qed
  have over: "g < ba_generation (bu_barrier u) \<longleftrightarrow> unat g * ?m \<le> bu_begun u" for g
  proof -
    have "g < ba_generation (bu_barrier u) \<longleftrightarrow> unat g \<le> bu_leaders u"
      using bar_stateD(3, 5) [OF st] by (auto simp: word_less_nat_alt)
    also have "\<dots> \<longleftrightarrow> unat g * ?m \<le> bu_begun u" using leaders less_eq_div_iff_mult_less_eq [of ?m "unat g" "bu_begun u"] by simp
    finally show ?thesis .
  qed
  obtain ws u' where "barrier_exec (BarrierWait cx i) u = Some (Inr (wait_answer u i, ws, u'))"
    using barrier_exec_keeps [OF inv assms(2)] by auto
  with barrier_next [OF assms this] leaders last over show ?thesis
    by (auto simp: wait_answer_def split: option.splits)
qed

text \<open>C36: No waiting call is forgotten. A call that waits is of the current generation and in the queue of the
  channel, not woken since its last poll, or of an earlier one and has been woken; the call that completes the
  generation calls the waker of the last poll of every waiting call of its generation, oldest first, and then every
  waiting call is ready at its next poll.\<close>

theorem barrier_leader_wakes_all:
  assumes "barrier_reach n u" "barrier_legal (BarrierWait cx j) u" "bu_waits u j = None"
    and "ba_arrived (bu_barrier u) + 1 = ba_n (bu_barrier u)"
  shows "(\<exists>u'. barrier_exec (BarrierWait cx j) u = Some (Inr (Ready (BarrierWaitResult True), waiting_wakers u, u')) \<and>
       (\<forall>i. bu_wakers u' i = None) \<and>
       (\<forall>i g v f. bu_waits u' i = Some (g, v, f) \<longrightarrow> wait_answer u' i = Ready (BarrierWaitResult False))) \<and>
     (\<forall>i g v f. bu_waits u i = Some (g, v, f) \<longrightarrow>
       (if g = ba_generation (bu_barrier u)
        then i \<in> set (nf_waiters (wt_notify_rx (ba_shared (bu_barrier u)))) \<and>
          (\<exists>k. bu_wakers u i = Some k \<and> k \<in> set (waiting_wakers u))
        else g < ba_generation (bu_barrier u) \<and> bu_wakers u i = None \<and>
          nw_notified (nf_nodes (wt_notify_rx (ba_shared (bu_barrier u))) i) \<noteq> None))"
proof -
  note inv = barrier_reach_inv [OF assms(1)]
  then obtain w where c: "bar_channel w u" and n: "bar_counts u" and st: "bar_state n u" and ws: "bar_waits u"
    unfolding bar_inv_def by blast
  note d = bar_channelD [OF c]
  have waits: "if g = ba_generation (bu_barrier u)
      then i \<in> set (nf_waiters (wt_notify_rx (ba_shared (bu_barrier u)))) \<and>
        (\<exists>k. bu_wakers u i = Some k \<and> k \<in> set (waiting_wakers u))
      else g < ba_generation (bu_barrier u) \<and> bu_wakers u i = None \<and>
        nw_notified (nf_nodes (wt_notify_rx (ba_shared (bu_barrier u))) i) \<noteq> None"
    if i: "bu_waits u i = Some (g, v, f)" for i g v f
    by (rule waiting_call [OF c n ws i])
  obtain u' where u': "barrier_exec (BarrierWait cx j) u = Some (Inr (Ready (BarrierWaitResult True), waiting_wakers u, u'))" "bu_waits u' = bu_waits u"
    "ba_generation (bu_barrier u') = ba_generation (bu_barrier u) + 1" "bu_wakers u' = (\<lambda>_. None)"
    using leader_keeps [OF inv assms(3, 2, 4)] by blast
  have "unat (ba_generation (bu_barrier u) + 1) = unat (ba_generation (bu_barrier u)) + 1"
    using assms(2) by (simp add: unat_word_ariths)
  then have "wait_answer u' i = Ready (BarrierWaitResult False)" if "bu_waits u' i = Some (g, v, f)" for i g v f
    using ws that u'(2, 3) unfolding bar_waits_def by (fastforce simp: wait_answer_def word_less_nat_alt word_le_nat_alt)
  with u'(1, 4) waits show ?thesis by (intro conjI exI [of _ u'] allI impI) auto
qed


text \<open>Two tasks and a barrier for two.\<close>

theorem barrier_opens_for_n_witness:
  "(\<exists>ws u'. barrier_exec (BarrierWait 7 1) (barrier_start 2) = Some (Inr (Pending, ws, u')) \<and> barrier_reach 2 u')"
proof -
  have legal: "barrier_legal (BarrierWait 7 1) (barrier_start 2)" and ans: "wait_answer (barrier_start 2) 1 = Pending"
    by (simp_all add: barrier_start_def barrier_new_def watch_channel_def wait_answer_def)
  from barrier_opens_for_n [OF barrier_begin legal] show ?thesis unfolding ans by (rule conjunct1)
qed

lemma pending_waker:
  "barrier_exec (BarrierWait cx i) u = Some (Inr (Pending, [], v)) \<Longrightarrow> bu_wakers v i = Some cx"
  by (auto simp: bind_oo_def split: option.splits sum.splits prod.splits)

theorem barrier_leader_wakes_all_witness:
  "\<exists>u u'. barrier_reach 2 u \<and> bu_waits u 1 \<noteq> None \<and> bu_wakers u 1 = Some 7 \<and> 7 \<in> set (waiting_wakers u) \<and>
     barrier_exec (BarrierWait 8 2) u = Some (Inr (Ready (BarrierWaitResult True), waiting_wakers u, u')) \<and>
     wait_answer u' 1 = Ready (BarrierWaitResult False)"
proof -
  have start: "barrier_legal (BarrierWait 7 1) (barrier_start 2)" "bu_waits (barrier_start 2) = (\<lambda>_. None)"
    "ba_arrived (bu_barrier (barrier_start 2)) = 0" "ba_n (bu_barrier (barrier_start 2)) = 2"
    "ba_generation (bu_barrier (barrier_start 2)) = 1"
    by (simp_all add: barrier_start_def barrier_new_def watch_channel_def)
  obtain u v sh where u: "barrier_exec (BarrierWait 7 1) (barrier_start 2) = Some (Inr (Pending, [], u))"
    "bu_waits u = [1 \<mapsto> (1, v, Some NtWaiting)]"
    "bu_barrier u = (bu_barrier (barrier_start 2))\<lparr>ba_arrived := 1, ba_shared := sh\<rparr>"
    using early_keeps [OF barrier_start_inv _ start(1)] start by auto
  have r: "barrier_reach 2 u" by (rule barrier_next [OF barrier_begin start(1) u(1)])
  have now: "barrier_legal (BarrierWait 8 2) u" "bu_waits u 2 = None" "ba_arrived (bu_barrier u) + 1 = ba_n (bu_barrier u)"
    using u(2, 3) start by simp_all
  have k: "bu_wakers u 1 = Some 7" by (rule pending_waker [OF u(1)])
  have "7 \<in> set (waiting_wakers u)"
    using barrier_leader_wakes_all [OF r now, THEN conjunct2, rule_format, of 1 1 v "Some NtWaiting"] u(2, 3) start(5) k
    by simp
  from barrier_leader_wakes_all [OF r now] obtain u' where
    u': "barrier_exec (BarrierWait 8 2) u = Some (Inr (Ready (BarrierWaitResult True), waiting_wakers u, u'))"
    "\<forall>i g v f. bu_waits u' i = Some (g, v, f) \<longrightarrow> wait_answer u' i = Ready (BarrierWaitResult False)" by blast
  have "bu_waits u' = bu_waits u"
    using leader_keeps [OF barrier_reach_inv [OF r] now(2, 1, 3)] u'(1) by auto
  with u' u(2) r k \<open>7 \<in> set (waiting_wakers u)\<close> show ?thesis by auto
qed

end
