(* ===== verification/Broadcast.thy ===== *)
theory Broadcast
  imports Intrusive_List
begin

text \<open>
  \<open>sync/broadcast.rs\<close>: a ring of slots, each with the position it holds, how many receivers have not read it,
  and the value; the tail with the next position, the number of receivers and the list of waiting \<open>recv\<close>
  futures. A receiver is its next position, handed to its operations and returned. An operation runs as a
  whole, so the slot that \<open>recv_ref\<close> reads again under the lock of the tail is the one it read before. A
  waiter is a node numbered by its future.
\<close>

section \<open>State\<close>

record 'a bslot =
  sl_rem :: usize
  sl_pos :: u64
  sl_closed :: bool
  sl_val :: "'a option"

record bwaiter =
  bn_queued :: bool
  bn_waker :: "waker option"

record 'a bcast =
  bc_buffer :: "'a bslot list"
  bc_mask :: usize
  bc_pos :: u64
  bc_rx_cnt :: usize
  bc_closed :: bool
  bc_waiters :: "nat list"
  bc_num_tx :: usize
  bc_nodes :: "nat \<Rightarrow> bwaiter"

datatype bc_error = BcEmpty | BcClosed | BcLagged u64

definition MAX_RECEIVERS :: usize where "MAX_RECEIVERS = drop_bit 2 usize_max"

text \<open>\<open>usize::next_power_of_two\<close>: the least power of two that is not below.\<close>

function pow2_from :: "nat \<Rightarrow> nat \<Rightarrow> nat" where
  "pow2_from k n = (if n \<le> 2 ^ k then 2 ^ k else pow2_from (Suc k) n)"
  by auto
termination
  by (relation "measure (\<lambda>(k, n). n - 2 ^ k)") (auto intro!: diff_less_mono2)

declare pow2_from.simps [simp del]

definition next_power_of_two :: "usize \<Rightarrow> usize" where
  "next_power_of_two n = of_nat (pow2_from 0 (unat n))"

text \<open>\<open>channel\<close>: the shared state and the position of the first receiver.\<close>

definition bc_channel :: "usize \<Rightarrow> ('a bcast \<times> u64) outcome" where
  "bc_channel capacity =
     and_then (ensure (capacity > 0) AssertFailed) (\<lambda>_.
     and_then (ensure (capacity \<le> drop_bit 1 usize_max) AssertFailed) (\<lambda>_.
       let capacity = next_power_of_two capacity;
           buffer = map (\<lambda>i. \<lparr>sl_rem = 0, sl_pos = of_nat i - capacity, sl_closed = False, sl_val = None\<rparr>) [0..<unat capacity]
       in Inr (\<lparr>bc_buffer = buffer, bc_mask = capacity - 1, bc_pos = 0, bc_rx_cnt = 1, bc_closed = False, bc_waiters = [],
            bc_num_tx = 1, bc_nodes = (\<lambda>_. \<lparr>bn_queued = False, bn_waker = None\<rparr>)\<rparr>, 0)))"

section \<open>Senders\<close>

function bc_notify_loop :: "(nat \<Rightarrow> bwaiter) \<Rightarrow> nat list \<Rightarrow> waker list \<Rightarrow> ((nat \<Rightarrow> bwaiter) \<times> nat list \<times> waker list) outcome" where
  "bc_notify_loop nodes lst woken =
     (case wl_pop_back lst of
        (lst', None) \<Rightarrow> Inr (nodes, lst', woken)
      | (lst', Some i) \<Rightarrow>
          and_then (ensure (bn_queued (nodes i)) AssertFailed) (\<lambda>_.
            case bn_waker (nodes i) of
              None \<Rightarrow> Inl UnwrapNone
            | Some waker \<Rightarrow> bc_notify_loop (nodes(i := \<lparr>bn_queued = False, bn_waker = None\<rparr>)) lst' (woken @ [waker])))"
  by pat_completeness auto
termination
  by (relation "measure (\<lambda>(_, lst, _). length lst)") (auto simp: wl_pop_back_def split: if_splits)

definition bc_notify_rx :: "'a bcast \<Rightarrow> ('a bcast \<times> waker list) outcome" where
  "bc_notify_rx c =
     and_then (bc_notify_loop (bc_nodes c) (bc_waiters c) []) (\<lambda>(nodes, lst, ws).
       Inr (c\<lparr>bc_nodes := nodes, bc_waiters := lst\<rparr>, ws))"

definition bc_idx :: "u64 \<Rightarrow> 'a bcast \<Rightarrow> nat" where
  "bc_idx pos c = unat (pos AND bc_mask c)"

text \<open>\<open>send2\<close>: \<open>None\<close> closes the channel and leaves the value of the slot. \<open>Inl\<close> gives the value back.\<close>

definition bc_send2 :: "'a option \<Rightarrow> 'a bcast \<Rightarrow> (('a option + usize) \<times> 'a bcast \<times> waker list) outcome" where
  "bc_send2 value c =
     (if bc_rx_cnt c = 0 then Inr (Inl value, c, [])
      else
        let pos = bc_pos c; rem = bc_rx_cnt c; idx = bc_idx pos c;
            slot = (bc_buffer c ! idx)\<lparr>sl_pos := pos, sl_rem := rem\<rparr>;
            c1 = c\<lparr>bc_pos := bc_pos c + 1\<rparr>;
            c2 = (case value of
                None \<Rightarrow> c1\<lparr>bc_closed := True, bc_buffer := (bc_buffer c1)[idx := slot\<lparr>sl_closed := True\<rparr>]\<rparr>
              | Some v \<Rightarrow> c1\<lparr>bc_buffer := (bc_buffer c1)[idx := slot\<lparr>sl_val := Some v\<rparr>]\<rparr>)
        in and_then (bc_notify_rx c2) (\<lambda>(c3, ws). Inr (Inr rem, c3, ws)))"

definition bc_send :: "'a \<Rightarrow> 'a bcast \<Rightarrow> (('a + usize) \<times> 'a bcast \<times> waker list) outcome" where
  "bc_send value c =
     and_then (bc_send2 (Some value) c) (\<lambda>(r, c', ws).
       case r of
         Inr n \<Rightarrow> Inr (Inr n, c', ws)
       | Inl (Some v) \<Rightarrow> Inr (Inl v, c', ws)
       | Inl None \<Rightarrow> Inl UnwrapNone)"

definition bc_receiver_count :: "'a bcast \<Rightarrow> usize" where
  "bc_receiver_count c = bc_rx_cnt c"

definition new_receiver :: "'a bcast \<Rightarrow> (u64 \<times> 'a bcast) outcome" where
  "new_receiver c =
     (if bc_rx_cnt c = MAX_RECEIVERS then Inl ExplicitPanic
      else and_then (ensure (bc_rx_cnt c \<noteq> usize_max) ArithOverflow) (\<lambda>_.
        Inr (bc_pos c, c\<lparr>bc_rx_cnt := bc_rx_cnt c + 1\<rparr>)))"

definition bc_subscribe :: "'a bcast \<Rightarrow> (u64 \<times> 'a bcast) outcome" where
  "bc_subscribe c = new_receiver c"

definition bc_tx_clone :: "'a bcast \<Rightarrow> 'a bcast" where
  "bc_tx_clone c = c\<lparr>bc_num_tx := bc_num_tx c + 1\<rparr>"

definition bc_tx_drop :: "'a bcast \<Rightarrow> ('a bcast \<times> waker list) outcome" where
  "bc_tx_drop c =
     (let prev = bc_num_tx c; c1 = c\<lparr>bc_num_tx := prev - 1\<rparr> in
      if 1 = prev then and_then (bc_send2 None c1) (\<lambda>(_, c2, ws). Inr (c2, ws)) else Inr (c1, []))"

section \<open>Receivers\<close>

definition bc_len :: "u64 \<Rightarrow> 'a bcast \<Rightarrow> usize outcome" where
  "bc_len next c = (let next_send_pos = bc_pos c in
     and_then (ensure (next \<le> next_send_pos) ArithOverflow) (\<lambda>_. Inr (next_send_pos - next)))"

definition bc_is_empty :: "u64 \<Rightarrow> 'a bcast \<Rightarrow> bool outcome" where
  "bc_is_empty next c = and_then (bc_len next c) (\<lambda>n. Inr (n = 0))"

definition enqueue_waiter :: "nat \<Rightarrow> waker \<Rightarrow> 'a bcast \<Rightarrow> 'a bcast" where
  "enqueue_waiter i waker c =
     (let node = bc_nodes c i;
          node1 = (case bn_waker node of
              Some w \<Rightarrow> if w = waker then node else node\<lparr>bn_waker := Some waker\<rparr>
            | None \<Rightarrow> node\<lparr>bn_waker := Some waker\<rparr>)
      in if \<not> bn_queued node1
         then c\<lparr>bc_nodes := (bc_nodes c)(i := node1\<lparr>bn_queued := True\<rparr>), bc_waiters := i # bc_waiters c\<rparr>
         else c\<lparr>bc_nodes := (bc_nodes c)(i := node1)\<rparr>)"

text \<open>\<open>recv_ref\<close>: \<open>Inr\<close> is the guard of the slot with that index; then the new position of the receiver.\<close>

definition recv_ref :: "(nat \<times> waker) option \<Rightarrow> u64 \<Rightarrow> 'a bcast \<Rightarrow> (bc_error + nat) \<times> u64 \<times> 'a bcast" where
  "recv_ref waiter next c =
     (let idx = bc_idx next c; slot = bc_buffer c ! idx; len = of_nat (length (bc_buffer c)); next_pos = sl_pos slot + len in
      if sl_pos slot \<noteq> next then
        if waiter = None \<and> next_pos = next then (Inl BcEmpty, next, c)
        else if next_pos = next then
          (Inl BcEmpty, next, case waiter of Some (i, waker) \<Rightarrow> enqueue_waiter i waker c | None \<Rightarrow> c)
        else
          let adjust = if bc_closed c then 1 else 0; next' = bc_pos c - (len + adjust); missed = next' - next in
          if missed = 0 then (Inr idx, next + 1, c) else (Inl (BcLagged missed), next', c)
      else if sl_closed slot then (Inl BcClosed, next + 1, c)
      else (Inr idx, next + 1, c))"

definition clone_value :: "nat \<Rightarrow> 'a bcast \<Rightarrow> 'a option" where
  "clone_value idx c = sl_val (bc_buffer c ! idx)"

definition recv_guard_drop :: "nat \<Rightarrow> 'a bcast \<Rightarrow> 'a bcast" where
  "recv_guard_drop idx c =
     (let slot = bc_buffer c ! idx; prev = sl_rem slot; slot1 = slot\<lparr>sl_rem := prev - 1\<rparr> in
      c\<lparr>bc_buffer := (bc_buffer c)[idx := if 1 = prev then slot1\<lparr>sl_val := None\<rparr> else slot1]\<rparr>)"

definition guard_value :: "nat \<Rightarrow> 'a bcast \<Rightarrow> (bc_error + 'a) \<times> 'a bcast" where
  "guard_value idx c = (case clone_value idx c of Some v \<Rightarrow> Inr v | None \<Rightarrow> Inl BcClosed, recv_guard_drop idx c)"

definition bc_resubscribe :: "'a bcast \<Rightarrow> (u64 \<times> 'a bcast) outcome" where
  "bc_resubscribe c = new_receiver c"

definition bc_try_recv :: "u64 \<Rightarrow> 'a bcast \<Rightarrow> (bc_error + 'a) \<times> u64 \<times> 'a bcast" where
  "bc_try_recv next c =
     (case recv_ref None next c of
        (Inl e, next', c') \<Rightarrow> (Inl e, next', c')
      | (Inr idx, next', c') \<Rightarrow> (case guard_value idx c' of (r, c'') \<Rightarrow> (r, next', c'')))"

text \<open>\<open>recv().await\<close>: \<open>Recv::new\<close> makes the node \<open>i\<close>, \<open>poll\<close> uses it, dropping the future unlinks it.\<close>

definition recv_new :: "nat \<Rightarrow> 'a bcast \<Rightarrow> 'a bcast" where
  "recv_new i c = c\<lparr>bc_nodes := (bc_nodes c)(i := \<lparr>bn_queued = False, bn_waker = None\<rparr>)\<rparr>"

definition recv_poll :: "waker \<Rightarrow> nat \<Rightarrow> u64 \<Rightarrow> 'a bcast \<Rightarrow> (bc_error + 'a) poll \<times> u64 \<times> 'a bcast" where
  "recv_poll cx i next c =
     (case recv_ref (Some (i, cx)) next c of
        (Inl BcEmpty, next', c') \<Rightarrow> (Pending, next', c')
      | (Inl (BcLagged n), next', c') \<Rightarrow> (Ready (Inl (BcLagged n)), next', c')
      | (Inl BcClosed, next', c') \<Rightarrow> (Ready (Inl BcClosed), next', c')
      | (Inr idx, next', c') \<Rightarrow> (case guard_value idx c' of (r, c'') \<Rightarrow> (Ready r, next', c'')))"

definition recv_drop :: "nat \<Rightarrow> 'a bcast \<Rightarrow> 'a bcast" where
  "recv_drop i c =
     (if bn_queued (bc_nodes c i) then c\<lparr>bc_waiters := fst (wl_remove i (bc_waiters c))\<rparr> else c)"

partial_function (option) rx_drop_loop :: "u64 \<Rightarrow> u64 \<Rightarrow> 'a bcast \<Rightarrow> 'a bcast outcome option" where
  "rx_drop_loop until next c =
     (if next < until then
        case recv_ref None next c of
          (Inr idx, next', c') \<Rightarrow> rx_drop_loop until next' (recv_guard_drop idx c')
        | (Inl BcClosed, next', c') \<Rightarrow> Some (Inr c')
        | (Inl (BcLagged _), next', c') \<Rightarrow> rx_drop_loop until next' c'
        | (Inl BcEmpty, next', c') \<Rightarrow> Some (Inl ExplicitPanic)
      else Some (Inr c))"

definition bc_rx_drop :: "u64 \<Rightarrow> 'a bcast \<Rightarrow> 'a bcast outcome option" where
  "bc_rx_drop next c =
     (if bc_rx_cnt c = 0 then Some (Inl ArithOverflow)
      else let c1 = c\<lparr>bc_rx_cnt := bc_rx_cnt c - 1\<rparr>; until = bc_pos c1 in rx_drop_loop until next c1)"

section \<open>The channel as a log\<close>

text \<open>
  What the channel promises: a log of all values, of which the last \<open>lg_cap\<close> can be read, and a cursor for each
  receiver. A cursor one past the end of a closed log belongs to a receiver that was told about the end, or
  that subscribed after it.
\<close>

datatype 'a bcast_op =
    BcSend 'a | BcClone | BcSenderDrop | BcSubscribe nat | BcResubscribe nat nat
  | BcTryRecv nat | BcPoll waker nat | BcCancel nat | BcReceiverDrop nat

datatype 'a bcast_answer = BcDone | BcSent "'a + nat" | BcGot "bc_error + 'a" | BcWaits

record 'a log =
  lg_values :: "'a list"
  lg_closed :: bool
  lg_cap :: nat
  lg_senders :: nat
  lg_cursor :: "nat \<Rightarrow> nat option"

definition log_end :: "'a log \<Rightarrow> nat" where
  "log_end l = length (lg_values l) + (if lg_closed l then 1 else 0)"

definition log_recv :: "nat \<Rightarrow> nat \<Rightarrow> 'a log \<Rightarrow> (bc_error + 'a) \<times> 'a log" where
  "log_recv i n l =
     (if n + lg_cap l < length (lg_values l)
      then (Inl (BcLagged (of_nat (length (lg_values l) - lg_cap l - n))),
        l\<lparr>lg_cursor := (lg_cursor l)(i \<mapsto> length (lg_values l) - lg_cap l)\<rparr>)
      else if n < length (lg_values l) then (Inr (lg_values l ! n), l\<lparr>lg_cursor := (lg_cursor l)(i \<mapsto> n + 1)\<rparr>)
      else if n < log_end l then (Inl BcClosed, l\<lparr>lg_cursor := (lg_cursor l)(i \<mapsto> n + 1)\<rparr>)
      else (Inl BcEmpty, l))"

fun log_exec :: "'a bcast_op \<Rightarrow> 'a log \<Rightarrow> 'a bcast_answer \<times> 'a log" where
  "log_exec (BcSend x) l =
     (if dom (lg_cursor l) = {} then (BcSent (Inl x), l)
      else (BcSent (Inr (card (dom (lg_cursor l)))), l\<lparr>lg_values := lg_values l @ [x]\<rparr>))"
| "log_exec BcClone l = (BcDone, l\<lparr>lg_senders := lg_senders l + 1\<rparr>)"
| "log_exec BcSenderDrop l =
     (BcDone, l\<lparr>lg_senders := lg_senders l - 1, lg_closed := (lg_senders l = 1 \<and> dom (lg_cursor l) \<noteq> {} \<or> lg_closed l)\<rparr>)"
| "log_exec (BcSubscribe i) l = (BcDone, l\<lparr>lg_cursor := (lg_cursor l)(i \<mapsto> log_end l)\<rparr>)"
| "log_exec (BcResubscribe j i) l = (BcDone, l\<lparr>lg_cursor := (lg_cursor l)(i \<mapsto> log_end l)\<rparr>)"
| "log_exec (BcTryRecv i) l =
     (case lg_cursor l i of None \<Rightarrow> (BcDone, l) | Some n \<Rightarrow> (case log_recv i n l of (r, l') \<Rightarrow> (BcGot r, l')))"
| "log_exec (BcPoll cx i) l =
     (case lg_cursor l i of
        None \<Rightarrow> (BcDone, l)
      | Some n \<Rightarrow> (case log_recv i n l of (r, l') \<Rightarrow> (if r = Inl BcEmpty then BcWaits else BcGot r, l')))"
| "log_exec (BcCancel i) l = (BcDone, l)"
| "log_exec (BcReceiverDrop i) l = (BcDone, l\<lparr>lg_cursor := (lg_cursor l)(i := None)\<rparr>)"

section \<open>A channel in use\<close>

text \<open>
  The receivers with their positions, the receivers that have a \<open>recv\<close> future (which borrows the receiver, so
  each has at most one), and the wakers of those that were told to wait and not woken since. \<open>bw_hist\<close>: all
  values that were sent.
\<close>

record 'a bcast_use =
  bw_chan :: "'a bcast"
  bw_senders :: nat
  bw_rx :: "nat \<Rightarrow> u64 option"
  bw_futs :: "nat set"
  bw_hist :: "'a list"
  bw_waiting :: "nat \<Rightarrow> waker option"

definition bw_woke :: "waker list \<Rightarrow> (nat \<Rightarrow> waker option) \<Rightarrow> nat \<Rightarrow> waker option" where
  "bw_woke ws f = (\<lambda>i. case f i of None \<Rightarrow> None | Some k \<Rightarrow> if k \<in> set ws then None else Some k)"

definition bcast_start :: "usize \<Rightarrow> 'a bcast_use outcome" where
  "bcast_start capacity =
     and_then (bc_channel capacity) (\<lambda>(c, next).
       Inr \<lparr>bw_chan = c, bw_senders = 1, bw_rx = [0 \<mapsto> next], bw_futs = {}, bw_hist = [], bw_waiting = (\<lambda>_. None)\<rparr>)"

fun bcast_exec :: "'a bcast_op \<Rightarrow> 'a bcast_use \<Rightarrow> ('a bcast_answer \<times> 'a bcast_use) outcome option" where
  "bcast_exec (BcSend x) u =
     bind_oo (Some (bc_send x (bw_chan u))) (\<lambda>(r, c, ws).
       Some (Inr (case r of
           Inl v \<Rightarrow> (BcSent (Inl v), u\<lparr>bw_chan := c\<rparr>)
         | Inr n \<Rightarrow> (BcSent (Inr (unat n)),
             u\<lparr>bw_chan := c, bw_hist := bw_hist u @ [x], bw_waiting := bw_woke ws (bw_waiting u)\<rparr>))))"
| "bcast_exec BcClone u = Some (Inr (BcDone, u\<lparr>bw_chan := bc_tx_clone (bw_chan u), bw_senders := bw_senders u + 1\<rparr>))"
| "bcast_exec BcSenderDrop u =
     bind_oo (Some (bc_tx_drop (bw_chan u))) (\<lambda>(c, ws).
       Some (Inr (BcDone, u\<lparr>bw_chan := c, bw_senders := bw_senders u - 1, bw_waiting := bw_woke ws (bw_waiting u)\<rparr>)))"
| "bcast_exec (BcSubscribe i) u =
     bind_oo (Some (bc_subscribe (bw_chan u))) (\<lambda>(n, c).
       Some (Inr (BcDone, u\<lparr>bw_chan := c, bw_rx := (bw_rx u)(i \<mapsto> n)\<rparr>)))"
| "bcast_exec (BcResubscribe j i) u =
     bind_oo (Some (bc_resubscribe (bw_chan u))) (\<lambda>(n, c).
       Some (Inr (BcDone, u\<lparr>bw_chan := c, bw_rx := (bw_rx u)(i \<mapsto> n)\<rparr>)))"
| "bcast_exec (BcTryRecv i) u =
     (case bw_rx u i of
        None \<Rightarrow> Some (Inr (BcDone, u))
      | Some n \<Rightarrow> (case bc_try_recv n (bw_chan u) of (r, n', c) \<Rightarrow>
          Some (Inr (BcGot r, u\<lparr>bw_chan := c, bw_rx := (bw_rx u)(i \<mapsto> n')\<rparr>))))"
| "bcast_exec (BcPoll cx i) u =
     (case bw_rx u i of
        None \<Rightarrow> Some (Inr (BcDone, u))
      | Some n \<Rightarrow>
          (case recv_poll cx i n (if i \<in> bw_futs u then bw_chan u else recv_new i (bw_chan u)) of (r, n', c) \<Rightarrow>
             Some (Inr (case r of
                 Pending \<Rightarrow> (BcWaits, u\<lparr>bw_chan := c, bw_rx := (bw_rx u)(i \<mapsto> n'), bw_futs := insert i (bw_futs u),
                   bw_waiting := (bw_waiting u)(i \<mapsto> cx)\<rparr>)
               | Ready x \<Rightarrow> (BcGot x, u\<lparr>bw_chan := recv_drop i c, bw_rx := (bw_rx u)(i \<mapsto> n'), bw_futs := bw_futs u - {i},
                   bw_waiting := (bw_waiting u)(i := None)\<rparr>)))))"
| "bcast_exec (BcCancel i) u =
     Some (Inr (BcDone, if i \<in> bw_futs u
       then u\<lparr>bw_chan := recv_drop i (bw_chan u), bw_futs := bw_futs u - {i}, bw_waiting := (bw_waiting u)(i := None)\<rparr> else u))"
| "bcast_exec (BcReceiverDrop i) u =
     (case bw_rx u i of
        None \<Rightarrow> Some (Inr (BcDone, u))
      | Some n \<Rightarrow> bind_oo (bc_rx_drop n (bw_chan u)) (\<lambda>c.
          Some (Inr (BcDone, u\<lparr>bw_chan := c, bw_rx := (bw_rx u)(i := None)\<rparr>))))"

text \<open>A call needs its handle. The bounds: handles fit their counters, and fewer than \<open>2 ^ 62\<close> values are sent.\<close>

definition bc_free :: "nat \<Rightarrow> 'a bcast_use \<Rightarrow> bool" where
  "bc_free i u \<longleftrightarrow> bw_rx u i = None \<and> card (dom (bw_rx u)) < 2 ^ 62 - 1"

fun bcast_legal :: "'a bcast_op \<Rightarrow> 'a bcast_use \<Rightarrow> bool" where
  "bcast_legal (BcSend x) u \<longleftrightarrow> 0 < bw_senders u \<and> length (bw_hist u) < 2 ^ 62"
| "bcast_legal BcClone u \<longleftrightarrow> 0 < bw_senders u \<and> bw_senders u + 1 < 2 ^ 64"
| "bcast_legal BcSenderDrop u \<longleftrightarrow> 0 < bw_senders u"
| "bcast_legal (BcSubscribe i) u \<longleftrightarrow> 0 < bw_senders u \<and> bc_free i u"
| "bcast_legal (BcResubscribe j i) u \<longleftrightarrow> bw_rx u j \<noteq> None \<and> bc_free i u"
| "bcast_legal (BcTryRecv i) u \<longleftrightarrow> bw_rx u i \<noteq> None \<and> i \<notin> bw_futs u"
| "bcast_legal (BcPoll cx i) u \<longleftrightarrow> bw_rx u i \<noteq> None"
| "bcast_legal (BcCancel i) u \<longleftrightarrow> True"
| "bcast_legal (BcReceiverDrop i) u \<longleftrightarrow> bw_rx u i \<noteq> None \<and> i \<notin> bw_futs u"

inductive bcast_reach :: "usize \<Rightarrow> 'a bcast_use \<Rightarrow> bool" where
  bcast_begin: "bcast_start capacity = Inr u \<Longrightarrow> bcast_reach capacity u"
| bcast_next: "bcast_reach capacity u \<Longrightarrow> bcast_legal p u \<Longrightarrow> bcast_exec p u = Some (Inr (a, v)) \<Longrightarrow> bcast_reach capacity v"


section \<open>The ring\<close>

text \<open>
  \<open>cur\<close>: the positions of the receivers. \<open>need p\<close>: how many have not read the value at position \<open>p\<close>. The value
  is kept while one needs it, and its count is their number (except that closing the channel overwrites the
  count of the oldest value, which is still read).
\<close>

definition need :: "(nat \<Rightarrow> nat option) \<Rightarrow> nat \<Rightarrow> nat" where
  "need cur p = card {i. \<exists>n. cur i = Some n \<and> n \<le> p}"

definition ring_end :: "'a bcast \<Rightarrow> 'a list \<Rightarrow> nat" where
  "ring_end c xs = length xs + (if bc_closed c then 1 else 0)"

definition ring_size :: "'a bcast \<Rightarrow> bool" where
  "ring_size c \<longleftrightarrow> (\<exists>k \<le> 63. length (bc_buffer c) = 2 ^ k) \<and> bc_mask c = of_nat (length (bc_buffer c)) - 1"

definition ring_positions :: "'a bcast \<Rightarrow> 'a list \<Rightarrow> bool" where
  "ring_positions c xs \<longleftrightarrow> (let L = length (bc_buffer c); P = ring_end c xs in
     bc_pos c = of_nat P \<and> length xs \<le> 2 ^ 62 \<and>
     (\<forall>p < P. P \<le> p + L \<longrightarrow> sl_pos (bc_buffer c ! (p mod L)) = of_nat p \<and>
        sl_closed (bc_buffer c ! (p mod L)) = (bc_closed c \<and> p = length xs)) \<and>
     (\<forall>i < L. P \<le> i \<longrightarrow> sl_pos (bc_buffer c ! i) = of_nat i - of_nat L \<and> \<not> sl_closed (bc_buffer c ! i)))"

definition slot_ok :: "bool \<Rightarrow> nat \<Rightarrow> 'a \<Rightarrow> 'a bslot \<Rightarrow> bool" where
  "slot_ok exact n x s \<longleftrightarrow> n \<le> unat (sl_rem s) \<and> (0 < n \<longrightarrow> sl_val s = Some x) \<and>
     (exact \<longrightarrow> unat (sl_rem s) = n \<and> (n = 0 \<longrightarrow> sl_val s = None))"

definition ring_values :: "'a bcast \<Rightarrow> 'a list \<Rightarrow> (nat \<Rightarrow> nat option) \<Rightarrow> bool" where
  "ring_values c xs cur \<longleftrightarrow> (let L = length (bc_buffer c) in
     \<forall>p < length xs. length xs \<le> p + L \<longrightarrow>
       slot_ok (\<not> bc_closed c \<or> p + L \<noteq> length xs) (need cur p) (xs ! p) (bc_buffer c ! (p mod L)))"

definition ring :: "'a bcast \<Rightarrow> 'a list \<Rightarrow> (nat \<Rightarrow> nat option) \<Rightarrow> bool" where
  "ring c xs cur \<longleftrightarrow> ring_size c \<and> ring_positions c xs \<and> ring_values c xs cur \<and> finite (dom cur) \<and>
     (\<forall>i n. cur i = Some n \<longrightarrow> n \<le> ring_end c xs)"

lemma ringD:
  assumes "ring c xs cur"
  shows "ring_size c" "ring_positions c xs" "ring_values c xs cur" "finite (dom cur)" "cur i = Some n \<Longrightarrow> n \<le> ring_end c xs"
  using assms unfolding ring_def by blast+

lemma ring_sizeD:
  assumes "ring_size c"
  shows "0 < length (bc_buffer c)" "length (bc_buffer c) \<le> 2 ^ 63"
    "bc_idx w c = unat w mod length (bc_buffer c)"
proof -
  obtain k where k: "k \<le> 63" "length (bc_buffer c) = 2 ^ k" using assms unfolding ring_size_def by blast
  show "0 < length (bc_buffer c)" using k(2) by simp
  show "length (bc_buffer c) \<le> 2 ^ 63" using k power_increasing [of k 63 "2 :: nat"] by simp
  have "bc_mask c = mask k" using assms k(2) by (simp add: ring_size_def mask_eq_exp_minus_1)
  then have "w AND bc_mask c = take_bit k w" by (simp add: take_bit_eq_mask)
  then show "bc_idx w c = unat w mod length (bc_buffer c)"
    using take_bit_eq_mod [of k "unat w"] by (simp add: bc_idx_def k(2) unsigned_take_bit_eq)
qed

lemma ring_positionsD:
  assumes "ring_positions c xs"
  shows "bc_pos c = of_nat (ring_end c xs)" "length xs \<le> 2 ^ 62"
    "p < ring_end c xs \<Longrightarrow> ring_end c xs \<le> p + length (bc_buffer c) \<Longrightarrow>
       sl_pos (bc_buffer c ! (p mod length (bc_buffer c))) = of_nat p \<and>
       sl_closed (bc_buffer c ! (p mod length (bc_buffer c))) = (bc_closed c \<and> p = length xs)"
    "i < length (bc_buffer c) \<Longrightarrow> ring_end c xs \<le> i \<Longrightarrow>
       sl_pos (bc_buffer c ! i) = of_nat i - of_nat (length (bc_buffer c)) \<and> \<not> sl_closed (bc_buffer c ! i)"
  using assms unfolding ring_positions_def Let_def by blast+

lemma ring_end_bounds: "length xs \<le> ring_end c xs" "ring_end c xs \<le> length xs + 1"
  by (simp_all add: ring_end_def)

lemma pos_eq: "m < 2 ^ 64 \<Longrightarrow> n < 2 ^ 64 \<Longrightarrow> (of_nat m :: u64) = of_nat n \<longleftrightarrow> m = n"
proof -
  have "unat (of_nat k :: u64) = k" if "k < 2 ^ 64" for k by (rule unat_of_nat_small) (use that in simp)
  then show "m < 2 ^ 64 \<Longrightarrow> n < 2 ^ 64 \<Longrightarrow> (of_nat m :: u64) = of_nat n \<longleftrightarrow> m = n" by metis
qed

text \<open>Which position the slot of \<open>n\<close> holds.\<close>

lemma mod_window:
  fixes n P L :: nat
  assumes "n \<le> P" "L \<le> P" "0 < L"
  shows "\<exists>p < P. P \<le> p + L \<and> p mod L = n mod L \<and> (n < P \<longrightarrow> n \<le> p) \<and> (n = P \<longrightarrow> p + L = P)"
proof (cases "n = P")
  case True
  then show ?thesis using assms le_mod_geq [of L P] by (intro exI [of _ "P - L"]) auto
next
  case False
  then have lt: "n < P" using assms(1) by simp
  obtain j where "j * L \<le> P - 1 - n" "P - 1 - n < j * L + L"
    using div_times_less_eq_dividend [of "P - 1 - n" L] dividend_less_div_times [OF assms(3), of "P - 1 - n"] that [of "(P - 1 - n) div L"]
    by (simp add: add.commute)
  then show ?thesis using lt by (intro exI [of _ "n + j * L"]) auto
qed

lemma mod_inj:
  fixes n p L N :: nat
  assumes "p mod L = n mod L" "p < N" "n < N" "N \<le> p + L" "N \<le> n + L"
  shows "p = n"
proof -
  have eq: "a = b" if "a \<le> b" "b mod L = a mod L" "b - a < L" for a b :: nat
  proof -
    have "L dvd b - a" using that(1, 2) by (simp add: mod_eq_dvd_iff_nat)
    then have "b - a = 0" using that(3) by (meson dvd_imp_le not_le zero_less_iff_neq_zero)
    then show ?thesis using that(1) by simp
  qed
  show ?thesis
  proof (cases "p \<le> n")
    case True
    show ?thesis by (rule eq [OF True assms(1) [symmetric]]) (use True assms in linarith)
  next
    case False
    then have "n \<le> p" "p - n < L" using assms by linarith+
    with eq [OF _ assms(1)] show ?thesis by simp
  qed
qed

lemma slot_at:
  assumes size: "ring_size c" and pos: "ring_positions c xs" and n: "n \<le> ring_end c xs"
  shows "let s = bc_buffer c ! bc_idx (of_nat n) c; L = length (bc_buffer c); P = ring_end c xs in
     (if n < P \<and> P \<le> n + L then sl_pos s = of_nat n \<and> sl_closed s = (bc_closed c \<and> n = length xs)
      else sl_pos s \<noteq> of_nat n \<and> (sl_pos s + of_nat L = of_nat n \<longleftrightarrow> n = P))"
proof -
  let ?L = "length (bc_buffer c)" and ?P = "ring_end c xs"
  note sz = ring_sizeD [OF size] and pd = ring_positionsD [OF pos]
  have P: "?P \<le> 2 ^ 62 + 1" using pd(2) ring_end_bounds(2) [of c xs] by simp
  have n64: "n < 2 ^ 64" and "unat (of_nat n :: u64) = n" using n P by (simp_all add: unat_of_nat_small)
  then have idx: "bc_idx (of_nat n) c = n mod ?L" using sz(3) by simp
  show ?thesis
  proof (cases "n < ?P \<and> ?P \<le> n + ?L")
    case True
    then show ?thesis using pd(3) [of n] idx by (simp add: Let_def)
  next
    case out: False
    show ?thesis
    proof (cases "?L \<le> ?P")
      case True
      obtain p where p: "p < ?P" "?P \<le> p + ?L" "p mod ?L = n mod ?L" "n < ?P \<Longrightarrow> n \<le> p" "n = ?P \<Longrightarrow> p + ?L = ?P"
        using mod_window [OF n True sz(1)] by blast
      have "sl_pos (bc_buffer c ! (n mod ?L)) = of_nat p" using pd(3) [OF p(1, 2)] p(3) by simp
      moreover have "p \<noteq> n" using out p(1, 2) by auto
      then have "(of_nat p :: u64) \<noteq> of_nat n" using pos_eq [of p n] p(1) P n64 by simp
      moreover have "(of_nat p + of_nat ?L :: u64) = of_nat n \<longleftrightarrow> p + ?L = n"
        using pos_eq [of "p + ?L" n] p(1) P n64 sz(2) by simp
      moreover have "p + ?L = n \<longleftrightarrow> n = ?P" using p(1, 2, 4, 5) n sz(1) by (cases "n < ?P") auto
      ultimately show ?thesis using idx out by (simp add: Let_def)
    next
      case False
      then have "n = ?P" using out n by auto
      then have i: "n mod ?L = n" "n < ?L" using False by simp_all
      then have "sl_pos (bc_buffer c ! (n mod ?L)) = of_nat n - of_nat ?L" using pd(4) [of n] \<open>n = ?P\<close> by simp
      moreover have "(of_nat ?L :: u64) \<noteq> 0" using pos_eq [of ?L 0] sz(1, 2) by simp
      ultimately show ?thesis using idx out \<open>n = ?P\<close> by (simp add: Let_def)
    qed
  qed
qed

text \<open>\<open>recv_ref\<close> on the ring.\<close>

lemma recv_ref_waiter:
  "recv_ref (Some (i, cx)) next c =
     (case recv_ref None next c of (r, n', c') \<Rightarrow> (r, n', if r = Inl BcEmpty then enqueue_waiter i cx c' else c'))"
  by (simp add: recv_ref_def Let_def)

lemma recv_ref_eq:
  assumes "ring_size c" "ring_positions c xs" "n \<le> ring_end c xs"
  shows "recv_ref None (of_nat n) c = (let L = length (bc_buffer c) in
     if n + L < length xs then (Inl (BcLagged (of_nat (length xs - L - n))), of_nat (length xs - L), c)
     else if n < length xs then (Inr (n mod L), of_nat (n + 1), c)
     else if n < ring_end c xs then (Inl BcClosed, of_nat (n + 1), c)
     else (Inl BcEmpty, of_nat n, c))"
proof -
  let ?L = "length (bc_buffer c)" and ?P = "ring_end c xs" and ?s = "bc_buffer c ! bc_idx (of_nat n) c"
  note sz = ring_sizeD [OF assms(1)] and pd = ring_positionsD [OF assms(2)]
  have P: "?P \<le> 2 ^ 62 + 1" using pd(2) ring_end_bounds(2) [of c xs] by simp
  have "unat (of_nat n :: u64) = n" using assms(3) P by (simp add: unat_of_nat_small)
  then have idx: "bc_idx (of_nat n) c = n mod ?L" using sz(3) by simp
  note slot = slot_at [OF assms, unfolded Let_def]
  consider (hit) "n < ?P" "?P \<le> n + ?L" | (here) "n = ?P" | (behind) "n + ?L < ?P" using assms(3) by linarith
  then show ?thesis
  proof cases
    case hit
    then have s: "sl_pos ?s = of_nat n" "sl_closed ?s = (bc_closed c \<and> n = length xs)" using slot by simp_all
    have "n < length xs \<or> bc_closed c \<and> n = length xs" using hit(1) by (auto simp: ring_end_def split: if_splits)
    moreover have "\<not> n + ?L < length xs" using hit(2) ring_end_bounds(1) [of xs c] by linarith
    ultimately show ?thesis using s idx hit by (auto simp: recv_ref_def Let_def)
  next
    case here
    then have "sl_pos ?s \<noteq> of_nat n" "sl_pos ?s + of_nat ?L = of_nat n" using slot by simp_all
    then show ?thesis using here ring_end_bounds(1) [of xs c] by (simp add: recv_ref_def Let_def)
  next
    case behind
    then have s: "sl_pos ?s \<noteq> of_nat n" "sl_pos ?s + of_nat ?L \<noteq> of_nat n" using slot by simp_all
    let ?a = "if bc_closed c then 1 else 0 :: nat"
    have le: "?L + ?a \<le> ?P" "?P - (?L + ?a) = length xs - ?L" "n + ?L \<le> length xs"
      using behind by (auto simp: ring_end_def split: if_splits)
    have "bc_pos c - (of_nat ?L + (if bc_closed c then 1 else 0)) = of_nat ?P - of_nat (?L + ?a)"
      using pd(1) by simp
    also have "\<dots> = of_nat (length xs - ?L)" using le(1, 2) by (metis of_nat_diff)
    finally have next': "bc_pos c - (of_nat ?L + (if bc_closed c then 1 else 0)) = of_nat (length xs - ?L)" .
    have "(of_nat (length xs - ?L) :: u64) - of_nat n = of_nat (length xs - ?L - n)"
      using le(3) by (intro of_nat_diff [symmetric]) linarith
    moreover have "(of_nat (length xs - ?L - n) :: u64) = 0 \<longleftrightarrow> length xs - ?L - n = 0"
      using pos_eq [of "length xs - ?L - n" 0] pd(2) by simp
    moreover have "n < length xs" using le(3) sz(1) by linarith
    ultimately show ?thesis using s idx le(3) by (auto simp: recv_ref_def Let_def next' simp del: of_nat_diff)
  qed
qed


section \<open>Receiving keeps the ring\<close>

text \<open>What the ring is made of; the rest of the channel may change.\<close>

definition same_ring :: "'a bcast \<Rightarrow> 'a bcast \<Rightarrow> bool" where
  "same_ring c c' \<longleftrightarrow> bc_buffer c' = bc_buffer c \<and> bc_mask c' = bc_mask c \<and> bc_pos c' = bc_pos c \<and> bc_closed c' = bc_closed c"

lemma ring_same: "same_ring c c' \<Longrightarrow> ring c' xs cur = ring c xs cur"
  by (simp add: same_ring_def ring_def ring_size_def ring_positions_def ring_values_def ring_end_def)

definition rest_same :: "'a bcast \<Rightarrow> 'a bcast \<Rightarrow> bool" where
  "rest_same c c' \<longleftrightarrow> bc_waiters c' = bc_waiters c \<and> bc_nodes c' = bc_nodes c \<and> bc_rx_cnt c' = bc_rx_cnt c \<and>
     bc_num_tx c' = bc_num_tx c \<and> bc_pos c' = bc_pos c \<and> bc_closed c' = bc_closed c \<and> length (bc_buffer c') = length (bc_buffer c)"

lemma need_read:
  assumes fin: "finite (dom cur)" and n: "cur i = Some n"
  shows "need cur n = Suc (need (cur(i \<mapsto> n + 1)) n)" "p \<noteq> n \<Longrightarrow> need (cur(i \<mapsto> n + 1)) p = need cur p"
proof -
  let ?S = "{j. \<exists>m. cur j = Some m \<and> m \<le> n}"
  have "finite ?S" by (rule finite_subset [OF _ fin]) auto
  moreover have "i \<in> ?S" using n by simp
  moreover have "{j. \<exists>m. (cur(i \<mapsto> n + 1)) j = Some m \<and> m \<le> n} = ?S - {i}" by (auto split: if_splits)
  ultimately show "need cur n = Suc (need (cur(i \<mapsto> n + 1)) n)"
    unfolding need_def by (metis (no_types, lifting) card_Suc_Diff1)
  assume p: "p \<noteq> n"
  have "{j. \<exists>m. (cur(i \<mapsto> n + 1)) j = Some m \<and> m \<le> p} = {j. \<exists>m. cur j = Some m \<and> m \<le> p}"
    using n p by (auto split: if_splits)
  then show "need (cur(i \<mapsto> n + 1)) p = need cur p" by (simp add: need_def)
qed

lemma need_moved:
  assumes "cur i = Some n" "n \<le> m" "m \<le> p"
  shows "need (cur(i \<mapsto> m)) p = need cur p"
proof -
  have "{j. \<exists>k. (cur(i \<mapsto> m)) j = Some k \<and> k \<le> p} = {j. \<exists>k. cur j = Some k \<and> k \<le> p}"
    using assms by (auto split: if_splits)
  then show ?thesis by (simp add: need_def)
qed

lemma need_beyond:
  assumes "cur i = None \<or> (\<exists>n. cur i = Some n \<and> p < n)" "v = None \<or> (\<exists>m. v = Some m \<and> p < m)"
  shows "need (cur(i := v)) p = need cur p"
proof -
  have "{j. \<exists>k. (cur(i := v)) j = Some k \<and> k \<le> p} = {j. \<exists>k. cur j = Some k \<and> k \<le> p}"
    using assms by (auto split: if_splits)
  then show ?thesis by (simp add: need_def)
qed

lemma ring_cursor:
  assumes r: "ring c xs cur" and v: "\<And>m. v = Some m \<Longrightarrow> m \<le> ring_end c xs"
    and need: "\<And>p. p < length xs \<Longrightarrow> length xs \<le> p + length (bc_buffer c) \<Longrightarrow> need (cur(i := v)) p = need cur p"
  shows "ring c xs (cur(i := v))"
proof -
  have "finite (dom (cur(i := v)))" by (rule finite_subset [of _ "insert i (dom cur)"]) (use ringD(4) [OF r] in \<open>auto split: if_splits\<close>)
  moreover have "ring_values c xs (cur(i := v))"
    using ringD(3) [OF r] need by (simp add: ring_values_def Let_def)
  ultimately show ?thesis using r v unfolding ring_def by auto
qed

text \<open>Moving a cursor beyond all values, adding and removing such a cursor.\<close>

lemma ring_beyond:
  assumes r: "ring c xs cur" and i: "cur i = None \<or> (\<exists>n. cur i = Some n \<and> length xs \<le> n)"
    and v: "v = None \<or> (\<exists>m. v = Some m \<and> length xs \<le> m \<and> m \<le> ring_end c xs)"
  shows "ring c xs (cur(i := v))"
  by (rule ring_cursor [OF r]) (use i v in \<open>auto intro!: need_beyond\<close>)

lemma ring_lagged:
  assumes r: "ring c xs cur" and i: "cur i = Some n" and lag: "n + length (bc_buffer c) < length xs"
  shows "ring c xs (cur(i \<mapsto> length xs - length (bc_buffer c)))"
  by (rule ring_cursor [OF r]) (use i lag ring_end_bounds(1) [of xs c] in \<open>auto intro!: need_moved\<close>)

text \<open>The guard of position \<open>n\<close>.\<close>

lemma guard_value_ok:
  assumes r: "ring c xs cur" and i: "cur i = Some n" and n: "n < length xs" "length xs \<le> n + length (bc_buffer c)"
  shows "clone_value (n mod length (bc_buffer c)) c = Some (xs ! n)"
    "ring (recv_guard_drop (n mod length (bc_buffer c)) c) xs (cur(i \<mapsto> n + 1))"
    "rest_same c (recv_guard_drop (n mod length (bc_buffer c)) c)"
proof -
  let ?L = "length (bc_buffer c)" and ?cur = "cur(i \<mapsto> n + 1)"
  let ?j = "n mod ?L" and ?s = "bc_buffer c ! (n mod ?L)"
  let ?c = "recv_guard_drop ?j c"
  have L: "0 < ?L" by (rule ring_sizeD(1) [OF ringD(1) [OF r]])
  then have j: "?j < ?L" by simp
  note need = need_read [OF ringD(4) [OF r] i]
  have old: "slot_ok (\<not> bc_closed c \<or> n + ?L \<noteq> length xs) (need cur n) (xs ! n) ?s"
    using ringD(3) [OF r] n by (simp add: ring_values_def Let_def)
  then have val: "sl_val ?s = Some (xs ! n)" and rem: "1 \<le> unat (sl_rem ?s)" using need(1) by (simp_all add: slot_ok_def)
  show "clone_value ?j c = Some (xs ! n)" using val by (simp add: clone_value_def)
  have len: "length (bc_buffer ?c) = ?L" "bc_closed ?c = bc_closed c" "bc_pos ?c = bc_pos c" "bc_mask ?c = bc_mask c"
    by (simp_all add: recv_guard_drop_def Let_def)
  show "rest_same c ?c" by (simp add: recv_guard_drop_def Let_def rest_same_def)
  have other: "bc_buffer ?c ! k = bc_buffer c ! k" if "k \<noteq> ?j" for k using that by (simp add: recv_guard_drop_def Let_def)
  have fields: "sl_pos (bc_buffer ?c ! k) = sl_pos (bc_buffer c ! k)" "sl_closed (bc_buffer ?c ! k) = sl_closed (bc_buffer c ! k)" for k
    using j by (cases "k = ?j"; simp add: recv_guard_drop_def Let_def)+
  have "ring_positions ?c xs"
    using ringD(2) [OF r] by (simp add: ring_positions_def ring_end_def len fields)
  moreover have "ring_values ?c xs ?cur"
  proof -
    have "slot_ok (\<not> bc_closed ?c \<or> p + ?L \<noteq> length xs) (need ?cur p) (xs ! p) (bc_buffer ?c ! (p mod ?L))"
      if p: "p < length xs" "length xs \<le> p + ?L" for p
    proof (cases "p = n")
      case False
      have "p mod ?L \<noteq> ?j" using mod_inj [OF _ p(1) n(1) p(2) n(2)] False by blast
      then show ?thesis using other need(2) [OF False] ringD(3) [OF r] p by (simp add: ring_values_def Let_def len)
    next
      case True
      have one: "sl_rem ?s = 1 \<longleftrightarrow> unat (sl_rem ?s) = 1" by (simp add: word_unat_eq_iff)
      have minus: "unat (sl_rem ?s - 1) = unat (sl_rem ?s) - 1" using rem by (intro unat_minus_one) auto
      have new: "bc_buffer ?c ! ?j = (if 1 = sl_rem ?s then ?s\<lparr>sl_rem := sl_rem ?s - 1, sl_val := None\<rparr> else ?s\<lparr>sl_rem := sl_rem ?s - 1\<rparr>)"
        using j by (simp add: recv_guard_drop_def Let_def)
      show ?thesis using old need(1) rem minus one unfolding True new by (auto simp: slot_ok_def len)
    qed
    then show ?thesis by (simp add: ring_values_def Let_def len)
  qed
  moreover have "ring_size ?c" using ringD(1) [OF r] by (simp add: ring_size_def len)
  moreover have "finite (dom ?cur)" using ringD(4) [OF r] by simp
  moreover have "k \<le> ring_end ?c xs" if "?cur l = Some k" for l k
    using ringD(5) [OF r, of l k] that n(1) ring_end_bounds(1) [of xs c] by (auto simp: ring_end_def len split: if_splits)
  ultimately show "ring ?c xs ?cur" unfolding ring_def by blast
qed

text \<open>A receive is a receive from the log.\<close>

definition recv_at :: "'a bcast \<Rightarrow> 'a list \<Rightarrow> nat \<Rightarrow> (bc_error + 'a) \<times> nat" where
  "recv_at c xs n = (let L = length (bc_buffer c) in
     if n + L < length xs then (Inl (BcLagged (of_nat (length xs - L - n))), length xs - L)
     else if n < length xs then (Inr (xs ! n), n + 1)
     else if n < ring_end c xs then (Inl BcClosed, n + 1)
     else (Inl BcEmpty, n))"

lemma try_recv_ok:
  assumes r: "ring c xs cur" and i: "cur i = Some n"
  shows "\<exists>c'. bc_try_recv (of_nat n) c = (fst (recv_at c xs n), of_nat (snd (recv_at c xs n)), c') \<and>
     ring c' xs (cur(i \<mapsto> snd (recv_at c xs n))) \<and> rest_same c c' \<and> snd (recv_at c xs n) \<le> ring_end c xs \<and>
     (fst (recv_at c xs n) = Inl BcEmpty \<longleftrightarrow> n = ring_end c xs)"
proof -
  let ?L = "length (bc_buffer c)"
  note ref = recv_ref_eq [OF ringD(1, 2) [OF r] ringD(5) [OF r i]]
  have refl: "rest_same c c" by (simp add: rest_same_def)
  note P = ring_end_bounds(1) [of xs c] and le = ringD(5) [OF r i]
  consider (lag) "n + ?L < length xs" | (hit) "n < length xs" "length xs \<le> n + ?L" | (closed) "length xs \<le> n" "n < ring_end c xs"
    | (empty) "n = ring_end c xs" using le by linarith
  then show ?thesis
  proof cases
    case lag
    then show ?thesis using ref ring_lagged [OF r i lag] refl P
      by (intro exI [of _ c]) (simp add: bc_try_recv_def recv_at_def Let_def del: of_nat_diff)
  next
    case hit
    note g = guard_value_ok [OF r i hit]
    show ?thesis using ref g hit P
      by (intro exI [of _ "recv_guard_drop (n mod ?L) c"]) (simp add: bc_try_recv_def recv_at_def Let_def guard_value_def)
  next
    case closed
    have "ring c xs (cur(i \<mapsto> n + 1))" by (rule ring_beyond [OF r]) (use i closed in auto)
    with ref closed refl show ?thesis by (intro exI [of _ c]) (simp add: bc_try_recv_def recv_at_def Let_def)
  next
    case empty
    have "cur(i \<mapsto> n) = cur" using i by (simp add: fun_upd_idem)
    with ref empty refl r P show ?thesis by (intro exI [of _ c]) (simp add: bc_try_recv_def recv_at_def Let_def)
  qed
qed

lemma recv_poll_eq:
  "recv_poll cx i n c =
     (case bc_try_recv n c of (r, n', c') \<Rightarrow>
        if fst (recv_ref None n c) = Inl BcEmpty then (Pending, n', enqueue_waiter i cx c') else (Ready r, n', c'))"
  by (auto simp: recv_poll_def bc_try_recv_def recv_ref_waiter split: prod.split sum.split bc_error.split)


lemma recv_at_empty:
  assumes "ring c xs cur" "cur i = Some n"
  shows "fst (recv_ref None (of_nat n) c) = Inl BcEmpty \<longleftrightarrow> n = ring_end c xs"
  using recv_ref_eq [OF ringD(1, 2) [OF assms(1)] ringD(5) [OF assms]] ringD(5) [OF assms] ring_end_bounds(1) [of xs c]
  by (simp add: Let_def)

section \<open>Sending\<close>

lemma need_all:
  assumes "\<And>i n. cur i = Some n \<Longrightarrow> n \<le> p"
  shows "need cur p = card (dom cur)"
proof -
  have "{i. \<exists>n. cur i = Some n \<and> n \<le> p} = dom cur" using assms by auto
  then show ?thesis by (simp add: need_def)
qed

lemma ring_overwritten:
  assumes pos: "ring_positions c xs" and P: "ring_end c xs = length xs" and P': "ring_end c' xs' = length xs + 1"
    and c': "bc_pos c' = bc_pos c + 1" "length xs' \<le> 2 ^ 62"
      "bc_buffer c' = (bc_buffer c)[length xs mod length (bc_buffer c) := s]"
    and s: "sl_pos s = bc_pos c" "sl_closed s = (bc_closed c' \<and> length xs = length xs')"
    and L: "0 < length (bc_buffer c)" and open': "\<not> bc_closed c" "bc_closed c' \<Longrightarrow> length xs' = length xs"
  shows "ring_positions c' xs'"
proof -
  let ?L = "length (bc_buffer c)" and ?N = "length xs"
  note pd = ring_positionsD [OF pos]
  have j: "?N mod ?L < ?L" using L by simp
  have "sl_pos (bc_buffer c' ! (p mod ?L)) = of_nat p \<and> sl_closed (bc_buffer c' ! (p mod ?L)) = (bc_closed c' \<and> p = length xs')"
    if p: "p < ?N + 1" "?N + 1 \<le> p + ?L" for p
  proof (cases "p = ?N")
    case True
    then show ?thesis using c'(3) s pd(1) P j by simp
  next
    case False
    then have lt: "p < ?N" "?N \<le> p + ?L" using p by simp_all
    have "p mod ?L \<noteq> ?N mod ?L" using mod_inj [of p ?L ?N "?N + 1"] lt p L by auto
    then show ?thesis using c'(3) pd(3) [of p] P lt open' by auto
  qed
  moreover have "sl_pos (bc_buffer c' ! i) = of_nat i - of_nat ?L \<and> \<not> sl_closed (bc_buffer c' ! i)" if "i < ?L" "?N + 1 \<le> i" for i
  proof -
    have "?N mod ?L = ?N" using that by simp
    then show ?thesis using c'(3) pd(4) [of i] P that by simp
  qed
  moreover have "bc_pos c' = of_nat (?N + 1)" using c'(1) pd(1) P by (simp add: add.commute)
  ultimately show ?thesis using c' P' by (simp add: ring_positions_def Let_def)
qed

lemma ring_send:
  assumes r: "ring c xs cur" and open': "\<not> bc_closed c" and cnt: "unat (bc_rx_cnt c) = card (dom cur)" and room: "length xs < 2 ^ 62"
    and some: "0 < card (dom cur)"
  shows "ring (c\<lparr>bc_pos := bc_pos c + 1, bc_buffer := (bc_buffer c)[bc_idx (bc_pos c) c :=
      (bc_buffer c ! bc_idx (bc_pos c) c)\<lparr>sl_pos := bc_pos c, sl_rem := bc_rx_cnt c, sl_val := Some x\<rparr>]\<rparr>) (xs @ [x]) cur"
    (is "ring ?c _ _")
proof -
  let ?L = "length (bc_buffer c)" and ?N = "length xs"
  note pd = ring_positionsD [OF ringD(2) [OF r]] and sz = ring_sizeD [OF ringD(1) [OF r]]
  have P: "ring_end c xs = ?N" using open' by (simp add: ring_end_def)
  have N: "unat (of_nat ?N :: u64) = ?N" by (rule unat_of_nat_small) (use room in simp)
  have idx: "bc_idx (bc_pos c) c = ?N mod ?L" using sz(3) pd(1) P N by simp
  have j: "?N mod ?L < ?L" using sz(1) by simp
  have le: "n \<le> ?N" if "cur i = Some n" for i n using ringD(5) [OF r that] P by simp
  have flag: "\<not> sl_closed (bc_buffer c ! (?N mod ?L))"
  proof (cases "?L \<le> ?N")
    case True
    then have "(?N - ?L) mod ?L = ?N mod ?L" by (simp add: le_mod_geq)
    moreover have "?N - ?L < ?N" using True sz(1) by linarith
    ultimately show ?thesis using pd(3) [of "?N - ?L"] True P sz(1) open' by simp
  next
    case False
    then show ?thesis using pd(4) [of ?N] P by simp
  qed
  have "ring_positions ?c (xs @ [x])"
    by (rule ring_overwritten [OF ringD(2) [OF r] P,
          where s = "(bc_buffer c ! bc_idx (bc_pos c) c)\<lparr>sl_pos := bc_pos c, sl_rem := bc_rx_cnt c, sl_val := Some x\<rparr>"])
      (use idx flag open' room sz(1) in \<open>simp_all add: ring_end_def\<close>)
  moreover have "ring_values ?c (xs @ [x]) cur"
  proof -
    have "slot_ok True (need cur p) ((xs @ [x]) ! p) (bc_buffer ?c ! (p mod ?L))" if p: "p < ?N + 1" "?N + 1 \<le> p + ?L" for p
    proof (cases "p = ?N")
      case True
      then show ?thesis using need_all [of cur ?N] le cnt some j idx by (auto simp: slot_ok_def)
    next
      case False
      then have lt: "p < ?N" "?N \<le> p + ?L" "p + ?L \<noteq> ?N" using p by simp_all
      have "p mod ?L \<noteq> ?N mod ?L" using mod_inj [of p ?L ?N "?N + 1"] lt p sz(1) by auto
      then show ?thesis using ringD(3) [OF r] lt open' idx by (simp add: ring_values_def Let_def nth_append)
    qed
    then show ?thesis using open' by (simp add: ring_values_def Let_def)
  qed
  moreover have "ring_size ?c" using ringD(1) [OF r] by (simp add: ring_size_def)
  moreover have "n \<le> ring_end ?c (xs @ [x])" if "cur i = Some n" for i n using le [OF that] by (simp add: ring_end_def)
  ultimately show ?thesis using ringD(4) [OF r] unfolding ring_def by blast
qed

lemma ring_close:
  assumes r: "ring c xs cur" and open': "\<not> bc_closed c" and cnt: "unat (bc_rx_cnt c) = card (dom cur)"
  shows "ring (c\<lparr>bc_pos := bc_pos c + 1, bc_closed := True, bc_buffer := (bc_buffer c)[bc_idx (bc_pos c) c :=
      (bc_buffer c ! bc_idx (bc_pos c) c)\<lparr>sl_pos := bc_pos c, sl_rem := bc_rx_cnt c, sl_closed := True\<rparr>]\<rparr>) xs cur"
    (is "ring ?c _ _")
proof -
  let ?L = "length (bc_buffer c)" and ?N = "length xs"
  note pd = ring_positionsD [OF ringD(2) [OF r]] and sz = ring_sizeD [OF ringD(1) [OF r]]
  have P: "ring_end c xs = ?N" using open' by (simp add: ring_end_def)
  have N: "unat (of_nat ?N :: u64) = ?N" by (rule unat_of_nat_small) (use pd(2) in simp)
  have idx: "bc_idx (bc_pos c) c = ?N mod ?L" using sz(3) pd(1) P N by simp
  have j: "?N mod ?L < ?L" using sz(1) by simp
  have le: "n \<le> ?N" if "cur i = Some n" for i n using ringD(5) [OF r that] P by simp
  have "ring_positions ?c xs"
    by (rule ring_overwritten [OF ringD(2) [OF r] P,
          where s = "(bc_buffer c ! bc_idx (bc_pos c) c)\<lparr>sl_pos := bc_pos c, sl_rem := bc_rx_cnt c, sl_closed := True\<rparr>"])
      (use idx open' pd(2) sz(1) in \<open>simp_all add: ring_end_def\<close>)
  moreover have "ring_values ?c xs cur"
  proof -
    have "slot_ok (p + ?L \<noteq> ?N) (need cur p) (xs ! p) (bc_buffer ?c ! (p mod ?L))" if p: "p < ?N" "?N \<le> p + ?L" for p
    proof (cases "p + ?L = ?N")
      case True
      have same: "p mod ?L = ?N mod ?L" using mod_add_self2 [of p ?L] True by simp
      have "need cur p \<le> card (dom cur)"
        unfolding need_def by (rule card_mono [OF ringD(4) [OF r]]) auto
      moreover have "slot_ok True (need cur p) (xs ! p) (bc_buffer c ! (p mod ?L))"
        using ringD(3) [OF r] p open' by (simp add: ring_values_def Let_def)
      ultimately show ?thesis using idx cnt j True unfolding same by (simp add: slot_ok_def)
    next
      case False
      then have "p mod ?L \<noteq> ?N mod ?L" using mod_inj [of p ?L ?N "?N + 1"] p sz(1) by auto
      then show ?thesis using ringD(3) [OF r] p open' idx False by (simp add: ring_values_def Let_def)
    qed
    then show ?thesis by (simp add: ring_values_def Let_def)
  qed
  moreover have "ring_size ?c" using ringD(1) [OF r] by (simp add: ring_size_def)
  moreover have "n \<le> ring_end ?c xs" if "cur i = Some n" for i n using le [OF that] by (simp add: ring_end_def)
  ultimately show ?thesis using ringD(4) [OF r] unfolding ring_def by blast
qed

text \<open>Waking all waiters.\<close>

definition bn_wakers :: "(nat \<Rightarrow> bwaiter) \<Rightarrow> nat list \<Rightarrow> waker list" where
  "bn_wakers nodes lst = map (\<lambda>i. the (bn_waker (nodes i))) lst"

lemma notify_loop_ok:
  assumes "distinct lst" "\<forall>i \<in> set lst. bn_queued (nodes i) \<and> bn_waker (nodes i) \<noteq> None"
  shows "bc_notify_loop nodes lst ws = Inr (\<lambda>i. if i \<in> set lst then \<lparr>bn_queued = False, bn_waker = None\<rparr> else nodes i, [],
       ws @ bn_wakers nodes (rev lst))"
  using assms
proof (induction lst arbitrary: nodes ws rule: rev_induct)
  case Nil
  show ?case by (subst bc_notify_loop.simps) (simp add: wl_pop_back_def bn_wakers_def)
next
  case (snoc i lst)
  let ?n = "nodes(i := \<lparr>bn_queued = False, bn_waker = None\<rparr>)"
  obtain k where k: "bn_waker (nodes i) = Some k" "bn_queued (nodes i)" using snoc.prems(2) by auto
  have i: "i \<notin> set lst" using snoc.prems(1) by simp
  have "bc_notify_loop ?n lst (ws @ [k]) = Inr (\<lambda>j. if j \<in> set lst then \<lparr>bn_queued = False, bn_waker = None\<rparr> else ?n j, [],
       (ws @ [k]) @ bn_wakers ?n (rev lst))"
    by (rule snoc.IH) (use snoc.prems i in auto)
  moreover have "bn_wakers ?n (rev lst) = bn_wakers nodes (rev lst)" using i by (auto simp: bn_wakers_def)
  moreover have "bc_notify_loop nodes (lst @ [i]) ws = bc_notify_loop ?n lst (ws @ [k])"
    by (subst bc_notify_loop.simps) (simp add: wl_pop_back_def k)
  ultimately show ?case using k i by (auto simp: bn_wakers_def fun_eq_iff)
qed

section \<open>Dropping a receiver\<close>

lemma rx_drop_loop_ok:
  assumes "ring c xs cur" "cur i = Some n"
  shows "\<exists>c'. rx_drop_loop (of_nat (ring_end c xs)) (of_nat n) c = Some (Inr c') \<and> ring c' xs (cur(i := None)) \<and> rest_same c c'"
  using assms
proof (induction "ring_end c xs - n" arbitrary: n c cur rule: less_induct)
  case less
  let ?P = "ring_end c xs" and ?L = "length (bc_buffer c)"
  note r = less.prems(1) and i = less.prems(2)
  note ref = recv_ref_eq [OF ringD(1, 2) [OF r] ringD(5) [OF r i]]
  have L: "0 < ?L" by (rule ring_sizeD(1) [OF ringD(1) [OF r]])
  have P: "?P \<le> 2 ^ 62 + 1" using ring_positionsD(2) [OF ringD(2) [OF r]] ring_end_bounds(2) [of c xs] by simp
  have lt: "(of_nat n :: u64) < of_nat ?P \<longleftrightarrow> n < ?P"
    using ringD(5) [OF r i] P by (simp add: word_less_nat_alt unat_of_nat_small)
  note step = rx_drop_loop.simps [of "of_nat ?P" "of_nat n" c]
  have refl: "rest_same c c" by (simp add: rest_same_def)
  consider (lag) "n + ?L < length xs" | (hit) "n < length xs" "length xs \<le> n + ?L" | (closed) "length xs \<le> n" "n < ?P"
    | (empty) "n = ?P" using ringD(5) [OF r i] by linarith
  then show ?case
  proof cases
    case lag
    let ?m = "length xs - ?L"
    have r': "ring c xs (cur(i \<mapsto> ?m))" by (rule ring_lagged [OF r i lag])
    have "?P - ?m < ?P - n" using lag ring_end_bounds(1) [of xs c] by linarith
    from less.hyps [OF this r'] obtain c' where c': "rx_drop_loop (of_nat ?P) (of_nat ?m) c = Some (Inr c')"
      "ring c' xs (cur(i := None))" "rest_same c c'" by auto
    have "n < ?P" using lag ring_end_bounds(1) [of xs c] by linarith
    then show ?thesis using step ref lag lt c' by (simp add: Let_def del: of_nat_diff)
  next
    case hit
    let ?c = "recv_guard_drop (n mod ?L) c"
    note g = guard_value_ok [OF r i hit]
    have P': "ring_end ?c xs = ?P" "?P - (n + 1) < ?P - n" using g(3) hit ring_end_bounds(1) [of xs c] by (auto simp: ring_end_def rest_same_def)
    from less.hyps [OF _ g(2), of "n + 1"] P' obtain c' where c': "rx_drop_loop (of_nat ?P) (of_nat (n + 1)) ?c = Some (Inr c')"
      "ring c' xs (cur(i := None))" "rest_same ?c c'" by auto
    have "n < ?P" using hit ring_end_bounds(1) [of xs c] by linarith
    then show ?thesis using step ref hit lt c' g(3) by (intro exI [of _ c']) (simp add: Let_def rest_same_def)
  next
    case closed
    have "ring c xs (cur(i := None))" by (rule ring_beyond [OF r]) (use i closed in auto)
    then show ?thesis using step ref closed lt refl by (simp add: Let_def)
  next
    case empty
    have "ring c xs (cur(i := None))" by (rule ring_beyond [OF r]) (use i empty ring_end_bounds(1) [of xs c] in auto)
    then show ?thesis using step lt empty refl by simp
  qed
qed


section \<open>The invariant of a channel in use\<close>

definition cur_of :: "(nat \<Rightarrow> u64 option) \<Rightarrow> nat \<Rightarrow> nat option" where
  "cur_of rx = (\<lambda>i. map_option unat (rx i))"

definition bw_cur :: "'a bcast_use \<Rightarrow> nat \<Rightarrow> nat option" where
  "bw_cur u = cur_of (bw_rx u)"

definition log_of :: "'a bcast_use \<Rightarrow> 'a log" where
  "log_of u = \<lparr>lg_values = bw_hist u, lg_closed = bc_closed (bw_chan u), lg_cap = length (bc_buffer (bw_chan u)),
     lg_senders = bw_senders u, lg_cursor = bw_cur u\<rparr>"

text \<open>A future in the list of waiters belongs to a receiver that has read everything.\<close>

definition waits_ok :: "'a bcast \<Rightarrow> (nat \<Rightarrow> u64 option) \<Rightarrow> nat set \<Rightarrow> (nat \<Rightarrow> waker option) \<Rightarrow> bool" where
  "waits_ok c rx futs waiting \<longleftrightarrow> distinct (bc_waiters c) \<and>
     (\<forall>j \<in> set (bc_waiters c). j \<in> futs \<and> bn_queued (bc_nodes c j) \<and> bn_waker (bc_nodes c j) \<noteq> None \<and> rx j = Some (bc_pos c)) \<and>
     (\<forall>j \<in> futs. bn_queued (bc_nodes c j) \<longrightarrow> j \<in> set (bc_waiters c)) \<and> futs \<subseteq> dom rx \<and>
     (\<forall>j k. waiting j = Some k \<longrightarrow> j \<in> set (bc_waiters c) \<and> bn_waker (bc_nodes c j) = Some k)"

definition bw_inv :: "'a bcast_use \<Rightarrow> bool" where
  "bw_inv u \<longleftrightarrow> ring (bw_chan u) (bw_hist u) (bw_cur u) \<and>
     unat (bc_rx_cnt (bw_chan u)) = card (dom (bw_rx u)) \<and> card (dom (bw_rx u)) < 2 ^ 62 \<and>
     unat (bc_num_tx (bw_chan u)) = bw_senders u \<and> (bc_closed (bw_chan u) \<longrightarrow> bw_senders u = 0) \<and>
     waits_ok (bw_chan u) (bw_rx u) (bw_futs u) (bw_waiting u)"

lemma bw_invD:
  assumes "bw_inv u"
  shows "ring (bw_chan u) (bw_hist u) (bw_cur u)" "unat (bc_rx_cnt (bw_chan u)) = card (dom (bw_rx u))"
    "card (dom (bw_rx u)) < 2 ^ 62" "unat (bc_num_tx (bw_chan u)) = bw_senders u"
    "bc_closed (bw_chan u) \<Longrightarrow> bw_senders u = 0" "waits_ok (bw_chan u) (bw_rx u) (bw_futs u) (bw_waiting u)"
  using assms unfolding bw_inv_def by blast+

lemma waits_okD:
  assumes "waits_ok c rx futs waiting"
  shows "distinct (bc_waiters c)"
    "j \<in> set (bc_waiters c) \<Longrightarrow> j \<in> futs \<and> bn_queued (bc_nodes c j) \<and> bn_waker (bc_nodes c j) \<noteq> None \<and> rx j = Some (bc_pos c)"
    "j \<in> futs \<Longrightarrow> bn_queued (bc_nodes c j) \<Longrightarrow> j \<in> set (bc_waiters c)" "futs \<subseteq> dom rx"
    "waiting j = Some k \<Longrightarrow> j \<in> set (bc_waiters c) \<and> bn_waker (bc_nodes c j) = Some k"
  using assms unfolding waits_ok_def by blast+

lemma bw_cur_dom [simp]: "dom (bw_cur u) = dom (bw_rx u)"
  by (auto simp: bw_cur_def cur_of_def)

lemma bw_cur_fields [simp]:
  "bw_cur (u\<lparr>bw_chan := c\<rparr>) = bw_cur u" "bw_cur (u\<lparr>bw_senders := n\<rparr>) = bw_cur u" "bw_cur (u\<lparr>bw_hist := h\<rparr>) = bw_cur u"
  "bw_cur (u\<lparr>bw_futs := f\<rparr>) = bw_cur u" "bw_cur (u\<lparr>bw_waiting := w\<rparr>) = bw_cur u"
  "bw_cur (u\<lparr>bw_rx := rx\<rparr>) = cur_of rx" "cur_of (bw_rx u) = bw_cur u" "cur_of (rx(i := v)) = (cur_of rx)(i := map_option unat v)"
  by (auto simp: bw_cur_def cur_of_def fun_eq_iff)

lemma bw_cur_Some: "bw_cur u i = Some n \<Longrightarrow> bw_rx u i = Some (of_nat n)"
  by (auto simp: bw_cur_def cur_of_def simp del: bw_cur_fields)

lemma waits_okI:
  assumes "distinct (bc_waiters c)"
    "\<And>j. j \<in> set (bc_waiters c) \<Longrightarrow> j \<in> futs \<and> bn_queued (bc_nodes c j) \<and> bn_waker (bc_nodes c j) \<noteq> None \<and> rx j = Some (bc_pos c)"
    "\<And>j. j \<in> futs \<Longrightarrow> bn_queued (bc_nodes c j) \<Longrightarrow> j \<in> set (bc_waiters c)" "futs \<subseteq> dom rx"
    "\<And>j k. waiting j = Some k \<Longrightarrow> j \<in> set (bc_waiters c) \<and> bn_waker (bc_nodes c j) = Some k"
  shows "waits_ok c rx futs waiting"
  using assms unfolding waits_ok_def by blast

text \<open>A receiver without a future moves or goes.\<close>

lemma waits_rx:
  assumes w: "waits_ok c rx futs waiting" and i: "i \<notin> futs"
  shows "waits_ok c (rx(i := v)) futs waiting"
proof (rule waits_okI)
  show "futs \<subseteq> dom (rx(i := v))" using waits_okD(4) [OF w] i by auto
  fix j
  assume "j \<in> set (bc_waiters c)"
  then show "j \<in> futs \<and> bn_queued (bc_nodes c j) \<and> bn_waker (bc_nodes c j) \<noteq> None \<and> (rx(i := v)) j = Some (bc_pos c)"
    using waits_okD(2) [OF w, of j] i by (cases "j = i") simp_all
qed (use waits_okD [OF w] in blast)+

lemma waits_same:
  assumes w: "waits_ok c rx futs waiting" and c': "bc_waiters c' = bc_waiters c" "bc_nodes c' = bc_nodes c" "bc_pos c' = bc_pos c"
  shows "waits_ok c' rx futs waiting"
  unfolding waits_ok_def c' by (rule w [unfolded waits_ok_def])

text \<open>Waking everything.\<close>

lemma notify_rx_ok:
  assumes w: "waits_ok c rx futs waiting" and c': "bc_waiters c' = bc_waiters c" "bc_nodes c' = bc_nodes c"
  shows "\<exists>c'' ws. bc_notify_rx c' = Inr (c'', ws) \<and> same_ring c' c'' \<and> bc_rx_cnt c'' = bc_rx_cnt c' \<and> bc_num_tx c'' = bc_num_tx c' \<and>
     waits_ok c'' rx futs (bw_woke ws waiting) \<and> (\<forall>j k. waiting j = Some k \<longrightarrow> k \<in> set ws) \<and> bc_waiters c'' = []"
proof -
  note d = waits_okD [OF w]
  let ?N = "\<lambda>i. if i \<in> set (bc_waiters c) then \<lparr>bn_queued = False, bn_waker = None\<rparr> else bc_nodes c i"
  let ?ws = "bn_wakers (bc_nodes c) (rev (bc_waiters c))" and ?c = "c'\<lparr>bc_nodes := ?N, bc_waiters := []\<rparr>"
  have "bc_notify_loop (bc_nodes c') (bc_waiters c') [] = Inr (?N, [], [] @ ?ws)"
    unfolding c' by (rule notify_loop_ok [OF d(1)]) (use d(2) in auto)
  then have "bc_notify_rx c' = Inr (?c, ?ws)" by (simp add: bc_notify_rx_def)
  moreover have woken: "k \<in> set ?ws" if "waiting j = Some k" for j k
    using d(5) [OF that] by (force simp: bn_wakers_def)
  then have "bw_woke ?ws waiting = (\<lambda>_. None)" by (auto simp: bw_woke_def fun_eq_iff split: option.split)
  then have "waits_ok ?c rx futs (bw_woke ?ws waiting)" using d(3, 4) by (auto simp: waits_ok_def)
  ultimately show ?thesis using woken
    by (intro exI [of _ ?c] exI [of _ ?ws]) (simp add: same_ring_def)
qed

text \<open>An operation follows the log.\<close>

definition follows :: "'a bcast_op \<Rightarrow> 'a bcast_use \<Rightarrow> bool" where
  "follows p u \<longleftrightarrow> (\<exists>a v. bcast_exec p u = Some (Inr (a, v)) \<and> bw_inv v \<and> log_exec p (log_of u) = (a, log_of v))"

lemma followsI: "bcast_exec p u = Some (Inr (a, v)) \<Longrightarrow> bw_inv v \<Longrightarrow> log_exec p (log_of u) = (a, log_of v) \<Longrightarrow> follows p u"
  unfolding follows_def by blast

lemma cnt_zero: "bw_inv u \<Longrightarrow> bc_rx_cnt (bw_chan u) = 0 \<longleftrightarrow> dom (bw_rx u) = {}"
proof -
  assume inv: "bw_inv u"
  have "finite (dom (bw_rx u))" using ringD(4) [OF bw_invD(1) [OF inv]] by simp
  then show ?thesis using bw_invD(2) [OF inv] by (metis card_eq_0_iff unat_eq_0)
qed

lemma bc_send_follows:
  assumes inv: "bw_inv u" and legal: "bcast_legal (BcSend x) u"
  shows "follows (BcSend x) u"
proof (cases "dom (bw_rx u) = {}")
  case True
  then have "bc_rx_cnt (bw_chan u) = 0" using cnt_zero [OF inv] by simp
  then have "bcast_exec (BcSend x) u = Some (Inr (BcSent (Inl x), u))" by (simp add: bc_send_def bc_send2_def)
  then show ?thesis by (rule followsI [OF _ inv]) (simp add: log_of_def True)
next
  case False
  note d = bw_invD [OF inv]
  let ?c = "bw_chan u"
  have open': "\<not> bc_closed ?c" using d(5) legal by auto
  have fin: "finite (dom (bw_rx u))" using ringD(4) [OF d(1)] by simp
  let ?c2 = "?c\<lparr>bc_pos := bc_pos ?c + 1, bc_buffer := (bc_buffer ?c)[bc_idx (bc_pos ?c) ?c :=
      (bc_buffer ?c ! bc_idx (bc_pos ?c) ?c)\<lparr>sl_pos := bc_pos ?c, sl_rem := bc_rx_cnt ?c, sl_val := Some x\<rparr>]\<rparr>"
  have r: "ring ?c2 (bw_hist u @ [x]) (bw_cur u)"
    by (rule ring_send [OF d(1) open']) (use d(2) legal False fin in \<open>simp_all add: card_gt_0_iff\<close>)
  obtain c3 ws where c3: "bc_notify_rx ?c2 = Inr (c3, ws)" "same_ring ?c2 c3" "bc_rx_cnt c3 = bc_rx_cnt ?c" "bc_num_tx c3 = bc_num_tx ?c"
    "waits_ok c3 (bw_rx u) (bw_futs u) (bw_woke ws (bw_waiting u))"
    using notify_rx_ok [OF d(6), of ?c2] by auto
  let ?v = "u\<lparr>bw_chan := c3, bw_hist := bw_hist u @ [x], bw_waiting := bw_woke ws (bw_waiting u)\<rparr>"
  have "bc_rx_cnt ?c \<noteq> 0" using cnt_zero [OF inv] False by simp
  then have "bcast_exec (BcSend x) u = Some (Inr (BcSent (Inr (unat (bc_rx_cnt ?c))), ?v))"
    using c3(1) by (simp add: bc_send_def bc_send2_def Let_def)
  moreover have "bw_cur ?v = bw_cur u" by simp
  then have "bw_inv ?v"
    using r ring_same [OF c3(2)] d c3(3-5) c3(2) open' by (simp add: bw_inv_def same_ring_def)
  moreover have "log_exec (BcSend x) (log_of u) = (BcSent (Inr (unat (bc_rx_cnt ?c))), log_of ?v)"
    using False d(2) c3(2) \<open>bw_cur ?v = bw_cur u\<close> by (simp add: log_of_def same_ring_def)
  ultimately show ?thesis by (rule followsI)
qed

lemma clone_follows:
  assumes inv: "bw_inv u" and legal: "bcast_legal BcClone u"
  shows "follows BcClone u"
proof -
  let ?v = "u\<lparr>bw_chan := bc_tx_clone (bw_chan u), bw_senders := bw_senders u + 1\<rparr>"
  note d = bw_invD [OF inv]
  have "unat (bc_num_tx (bw_chan u) + 1) = bw_senders u + 1" using d(4) legal by (simp add: unat_word_ariths)
  moreover have "same_ring (bw_chan u) (bc_tx_clone (bw_chan u))" by (simp add: same_ring_def bc_tx_clone_def)
  moreover have cur: "bw_cur ?v = bw_cur u" by simp
  ultimately have "bw_inv ?v" using d legal ring_same waits_same [OF d(6), of "bc_tx_clone (bw_chan u)"]
    by (auto simp: bw_inv_def bc_tx_clone_def)
  then show ?thesis by (intro followsI [where v = ?v]) (simp_all add: log_of_def bc_tx_clone_def cur)
qed

lemma sender_drop_follows:
  assumes inv: "bw_inv u" and legal: "bcast_legal BcSenderDrop u"
  shows "follows BcSenderDrop u"
proof -
  note d = bw_invD [OF inv]
  let ?c = "bw_chan u"
  let ?c1 = "?c\<lparr>bc_num_tx := bc_num_tx ?c - 1\<rparr>"
  have pos: "bc_num_tx ?c \<noteq> 0" using d(4) legal by auto
  then have n: "unat (bc_num_tx ?c - 1) = bw_senders u - 1" using d(4) by (simp add: unat_minus_one)
  have one: "1 = bc_num_tx ?c \<longleftrightarrow> bw_senders u = 1" using d(4) by (auto simp: word_unat_eq_iff)
  have open': "\<not> bc_closed ?c" using d(5) legal by auto
  have r1: "ring ?c1 (bw_hist u) (bw_cur u)" using ring_same [of ?c ?c1] d(1) by (simp add: same_ring_def)
  show ?thesis
  proof (cases "bw_senders u = 1 \<and> dom (bw_rx u) \<noteq> {}")
    case True
    let ?c2 = "?c1\<lparr>bc_pos := bc_pos ?c1 + 1, bc_closed := True, bc_buffer := (bc_buffer ?c1)[bc_idx (bc_pos ?c1) ?c1 :=
      (bc_buffer ?c1 ! bc_idx (bc_pos ?c1) ?c1)\<lparr>sl_pos := bc_pos ?c1, sl_rem := bc_rx_cnt ?c1, sl_closed := True\<rparr>]\<rparr>"
    have r: "ring ?c2 (bw_hist u) (bw_cur u)"
      by (rule ring_close [OF r1]) (use open' d(2) in simp_all)
    obtain c3 ws where c3: "bc_notify_rx ?c2 = Inr (c3, ws)" "same_ring ?c2 c3" "bc_rx_cnt c3 = bc_rx_cnt ?c" "bc_num_tx c3 = bc_num_tx ?c1"
      "waits_ok c3 (bw_rx u) (bw_futs u) (bw_woke ws (bw_waiting u))"
      using notify_rx_ok [OF d(6), of ?c2] by auto
    let ?v = "u\<lparr>bw_chan := c3, bw_senders := bw_senders u - 1, bw_waiting := bw_woke ws (bw_waiting u)\<rparr>"
    have "bc_rx_cnt ?c \<noteq> 0" using cnt_zero [OF inv] True by simp
    then have "bcast_exec BcSenderDrop u = Some (Inr (BcDone, ?v))"
      using c3(1) one True by (simp add: bc_tx_drop_def bc_send2_def Let_def bc_idx_def)
    moreover have cur: "bw_cur ?v = bw_cur u" by simp
    then have "bw_inv ?v"
      using r ring_same [OF c3(2)] d c3(3-5) c3(2) n True by (simp add: bw_inv_def same_ring_def)
    moreover have "log_exec BcSenderDrop (log_of u) = (BcDone, log_of ?v)"
      using True c3(2) cur by (simp add: log_of_def same_ring_def)
    ultimately show ?thesis by (rule followsI)
  next
    case False
    let ?v = "u\<lparr>bw_chan := ?c1, bw_senders := bw_senders u - 1\<rparr>"
    have "bc_send2 None ?c1 = Inr (Inl None, ?c1, [])" if "bw_senders u = 1"
      using False that cnt_zero [OF inv] by (simp add: bc_send2_def)
    moreover have "bw_woke [] (bw_waiting u) = bw_waiting u" by (auto simp: bw_woke_def fun_eq_iff split: option.split)
    ultimately have "bcast_exec BcSenderDrop u = Some (Inr (BcDone, ?v))"
      using one by (auto simp: bc_tx_drop_def Let_def)
    moreover have cur: "bw_cur ?v = bw_cur u" by simp
    have "bw_inv ?v" using r1 d n open' cur waits_same [OF d(6), of ?c1] by (simp add: bw_inv_def)
    moreover have "log_exec BcSenderDrop (log_of u) = (BcDone, log_of ?v)"
      using False cur by (auto simp: log_of_def)
    ultimately show ?thesis by (intro followsI)
  qed
qed


text \<open>New receivers.\<close>

lemma new_receiver_ok:
  assumes inv: "bw_inv u" and free: "bc_free i u"
  shows "\<exists>c n. new_receiver (bw_chan u) = Inr (n, c) \<and> bw_inv (u\<lparr>bw_chan := c, bw_rx := (bw_rx u)(i \<mapsto> n)\<rparr>) \<and>
     log_of (u\<lparr>bw_chan := c, bw_rx := (bw_rx u)(i \<mapsto> n)\<rparr>) =
       (log_of u)\<lparr>lg_cursor := (lg_cursor (log_of u))(i \<mapsto> log_end (log_of u))\<rparr>"
proof -
  note d = bw_invD [OF inv]
  let ?c = "bw_chan u" and ?P = "ring_end (bw_chan u) (bw_hist u)"
  let ?c' = "?c\<lparr>bc_rx_cnt := bc_rx_cnt ?c + 1\<rparr>"
  let ?v = "u\<lparr>bw_chan := ?c', bw_rx := (bw_rx u)(i \<mapsto> bc_pos ?c)\<rparr>"
  have i: "bw_rx u i = None" and cnt: "card (dom (bw_rx u)) < 2 ^ 62 - 1" using free by (simp_all add: bc_free_def)
  have fin: "finite (dom (bw_rx u))" using ringD(4) [OF d(1)] by simp
  have "unat MAX_RECEIVERS = 2 ^ 62 - 1" by (simp add: MAX_RECEIVERS_def mask_eq_exp_minus_1)
  then have "bc_rx_cnt ?c \<noteq> MAX_RECEIVERS" using cnt d(2) by auto
  moreover have "unat usize_max = 2 ^ 64 - 1" by (simp add: unsigned_minus_1_eq_mask mask_eq_exp_minus_1)
  then have "bc_rx_cnt ?c \<noteq> usize_max" using cnt d(2) by auto
  ultimately have "new_receiver ?c = Inr (bc_pos ?c, ?c')" by (simp add: new_receiver_def)
  moreover have pos: "unat (bc_pos ?c) = ?P"
  proof -
    have "?P < 2 ^ 64" using ring_positionsD(2) [OF ringD(2) [OF d(1)]] ring_end_bounds(2) [of ?c "bw_hist u"] by simp
    then show ?thesis unfolding ring_positionsD(1) [OF ringD(2) [OF d(1)]] by (intro unat_of_nat_small) simp
  qed
  moreover have "bw_inv ?v"
  proof -
    have "ring ?c (bw_hist u) ((bw_cur u)(i \<mapsto> ?P))"
      by (rule ring_beyond [OF d(1)]) (use i ring_end_bounds(1) in \<open>auto simp: bw_cur_def cur_of_def simp del: bw_cur_fields\<close>)
    moreover have "same_ring ?c ?c'" by (simp add: same_ring_def)
    ultimately have "ring ?c' (bw_hist u) ((bw_cur u)(i \<mapsto> ?P))" using ring_same by blast
    moreover have "i \<notin> bw_futs u" using waits_okD(4) [OF d(6)] i by auto
    then have "waits_ok ?c' ((bw_rx u)(i \<mapsto> bc_pos ?c)) (bw_futs u) (bw_waiting u)"
      by (intro waits_rx waits_same [OF d(6)]) simp_all
    moreover have "card (insert i (dom (bw_rx u))) = card (dom (bw_rx u)) + 1" using fin i by (simp add: domIff)
    moreover have "unat (bc_rx_cnt ?c + 1) = card (dom (bw_rx u)) + 1" using d(2) cnt by (simp add: unat_word_ariths)
    ultimately show ?thesis using d(4, 5) cnt pos by (simp add: bw_inv_def)
  qed
  ultimately show ?thesis
    by (intro exI [of _ ?c'] exI [of _ "bc_pos ?c"]) (simp add: log_of_def log_end_def ring_end_def)
qed

lemma subscribe_follows:
  assumes inv: "bw_inv u"
  shows "bc_free i u \<Longrightarrow> follows (BcSubscribe i) u" "bc_free i u \<Longrightarrow> follows (BcResubscribe j i) u"
proof -
  assume free: "bc_free i u"
  obtain c n where c: "new_receiver (bw_chan u) = Inr (n, c)" "bw_inv (u\<lparr>bw_chan := c, bw_rx := (bw_rx u)(i \<mapsto> n)\<rparr>)"
    "log_of (u\<lparr>bw_chan := c, bw_rx := (bw_rx u)(i \<mapsto> n)\<rparr>) = (log_of u)\<lparr>lg_cursor := (lg_cursor (log_of u))(i \<mapsto> log_end (log_of u))\<rparr>"
    using new_receiver_ok [OF inv free] by blast
  then show "follows (BcSubscribe i) u" "follows (BcResubscribe j i) u"
    by (auto intro!: followsI [OF _ c(2)] simp: bc_subscribe_def bc_resubscribe_def c(3))
qed

text \<open>Receiving.\<close>

lemma log_recv_eq:
  assumes "bw_cur u i = Some n"
  shows "log_recv i n (log_of u) = (fst (recv_at (bw_chan u) (bw_hist u) n),
     (log_of u)\<lparr>lg_cursor := (bw_cur u)(i \<mapsto> snd (recv_at (bw_chan u) (bw_hist u) n))\<rparr>)"
proof -
  have "(bw_cur u)(i \<mapsto> n) = bw_cur u" using assms by (simp add: fun_upd_idem)
  then show ?thesis by (simp add: log_recv_def recv_at_def Let_def log_of_def log_end_def ring_end_def)
qed

lemma end_small: "ring c xs cur \<Longrightarrow> n \<le> ring_end c xs \<Longrightarrow> unat (of_nat n :: u64) = n"
proof -
  assume "ring c xs cur" "n \<le> ring_end c xs"
  then have "n < 2 ^ 64" using ring_positionsD(2) [OF ringD(2)] ring_end_bounds(2) [of c xs] by fastforce
  then show ?thesis by (intro unat_of_nat_small) simp
qed

text \<open>A receive of receiver \<open>i\<close>, on a channel \<open>c0\<close> that differs in its nodes only, with the future gone.\<close>

lemma received_inv:
  assumes inv: "bw_inv u" and i: "bw_cur u i = Some n"
    and c: "ring c (bw_hist u) ((bw_cur u)(i \<mapsto> m))" "m \<le> ring_end (bw_chan u) (bw_hist u)" "bc_rx_cnt c = bc_rx_cnt (bw_chan u)"
      "bc_num_tx c = bc_num_tx (bw_chan u)" "bc_closed c = bc_closed (bw_chan u)"
    and w: "waits_ok c ((bw_rx u)(i \<mapsto> of_nat m)) futs waiting"
  shows "bw_inv (u\<lparr>bw_chan := c, bw_rx := (bw_rx u)(i \<mapsto> of_nat m), bw_futs := futs, bw_waiting := waiting\<rparr>)"
proof -
  note d = bw_invD [OF inv]
  have "insert i (dom (bw_rx u)) = dom (bw_rx u)" using bw_cur_Some [OF i] by auto
  then show ?thesis using c w d end_small [OF d(1) c(2)]
    by (simp add: bw_inv_def)
qed

lemma try_recv_follows:
  assumes inv: "bw_inv u" and legal: "bcast_legal (BcTryRecv i) u"
  shows "follows (BcTryRecv i) u"
proof -
  note d = bw_invD [OF inv]
  have i0: "i \<notin> bw_futs u" using legal by simp
  obtain n where n: "bw_cur u i = Some n" using legal by (auto simp: bw_cur_def cur_of_def simp del: bw_cur_fields)
  let ?r = "recv_at (bw_chan u) (bw_hist u) n"
  obtain c where c: "bc_try_recv (of_nat n) (bw_chan u) = (fst ?r, of_nat (snd ?r), c)"
    "ring c (bw_hist u) ((bw_cur u)(i \<mapsto> snd ?r))" "rest_same (bw_chan u) c" "snd ?r \<le> ring_end (bw_chan u) (bw_hist u)"
    using try_recv_ok [OF d(1) n] by blast
  let ?v = "u\<lparr>bw_chan := c, bw_rx := (bw_rx u)(i \<mapsto> of_nat (snd ?r))\<rparr>"
  have "waits_ok c ((bw_rx u)(i \<mapsto> of_nat (snd ?r))) (bw_futs u) (bw_waiting u)"
    using c(3) by (intro waits_rx [OF _ i0] waits_same [OF d(6)]) (simp_all add: rest_same_def)
  from received_inv [OF inv n c(2, 4) _ _ _ this] c(3) have "bw_inv ?v" by (simp add: rest_same_def)
  moreover have "bcast_exec (BcTryRecv i) u = Some (Inr (BcGot (fst ?r), ?v))"
    using bw_cur_Some [OF n] c(1) by simp
  moreover have "log_exec (BcTryRecv i) (log_of u) = (BcGot (fst ?r), log_of ?v)"
    using log_recv_eq [OF n] n end_small [OF d(1) c(4)] c(3) by (simp add: log_of_def rest_same_def)
  ultimately show ?thesis by (intro followsI)
qed

lemma enqueue_fields [simp]:
  "bc_buffer (enqueue_waiter i cx c) = bc_buffer c" "bc_mask (enqueue_waiter i cx c) = bc_mask c"
  "bc_pos (enqueue_waiter i cx c) = bc_pos c" "bc_closed (enqueue_waiter i cx c) = bc_closed c"
  "bc_rx_cnt (enqueue_waiter i cx c) = bc_rx_cnt c" "bc_num_tx (enqueue_waiter i cx c) = bc_num_tx c"
  "bc_waiters (enqueue_waiter i cx c) = (if bn_queued (bc_nodes c i) then bc_waiters c else i # bc_waiters c)"
  "bc_nodes (enqueue_waiter i cx c) = (bc_nodes c)(i := \<lparr>bn_queued = True, bn_waker = Some cx\<rparr>)"
  by (auto simp: enqueue_waiter_def Let_def fun_eq_iff split: option.split)

lemma poll_waits_ok:
  assumes w: "waits_ok c rx futs waiting" and rx: "rx i = Some (bc_pos c)"
    and c': "bc_waiters c' = bc_waiters c" "bc_pos c' = bc_pos c" "bc_nodes c' = (if i \<in> futs then bc_nodes c else (bc_nodes c)(i := \<lparr>bn_queued = False, bn_waker = None\<rparr>))"
  shows "waits_ok (enqueue_waiter i cx c') rx (insert i futs) (waiting(i \<mapsto> cx))"
proof (rule waits_okI)
  note d = waits_okD [OF w]
  have q: "bn_queued (bc_nodes c' i) \<longleftrightarrow> i \<in> set (bc_waiters c)" using d(2, 3) [of i] c'(3) by auto
  then show "distinct (bc_waiters (enqueue_waiter i cx c'))" using d(1) c'(1) by simp
  show "insert i futs \<subseteq> dom rx" using d(4) rx by auto
  fix j
  show "j \<in> insert i futs \<and> bn_queued (bc_nodes (enqueue_waiter i cx c') j) \<and> bn_waker (bc_nodes (enqueue_waiter i cx c') j) \<noteq> None \<and>
      rx j = Some (bc_pos (enqueue_waiter i cx c'))" if "j \<in> set (bc_waiters (enqueue_waiter i cx c'))"
    using that d(2) [of j] rx c' by (cases "j = i") (auto split: if_splits)
  show "j \<in> set (bc_waiters (enqueue_waiter i cx c'))" if "j \<in> insert i futs" "bn_queued (bc_nodes (enqueue_waiter i cx c') j)"
    using that d(3) [of j] q c' by (cases "j = i") (auto split: if_splits)
  fix k
  show "j \<in> set (bc_waiters (enqueue_waiter i cx c')) \<and> bn_waker (bc_nodes (enqueue_waiter i cx c') j) = Some k"
    if "(waiting(i \<mapsto> cx)) j = Some k"
    using that d(5) [of j k] q c' by (cases "j = i") (auto split: if_splits)
qed

lemma waits_drop:
  assumes w: "waits_ok c rx futs waiting" and i: "i \<notin> set (bc_waiters c)"
    and c': "bc_waiters c' = bc_waiters c" "bc_pos c' = bc_pos c" "\<And>j. j \<noteq> i \<Longrightarrow> bc_nodes c' j = bc_nodes c j"
  shows "waits_ok c' rx (futs - {i}) (waiting(i := None))"
proof (rule waits_okI)
  note d = waits_okD [OF w]
  show "distinct (bc_waiters c')" "futs - {i} \<subseteq> dom rx" using d(1, 4) c'(1) by auto
  fix j
  show "j \<in> futs - {i} \<and> bn_queued (bc_nodes c' j) \<and> bn_waker (bc_nodes c' j) \<noteq> None \<and> rx j = Some (bc_pos c')"
    if "j \<in> set (bc_waiters c')" using that d(2) [of j] c' i by (cases "j = i") auto
  show "j \<in> set (bc_waiters c')" if "j \<in> futs - {i}" "bn_queued (bc_nodes c' j)" using that d(3) [of j] c' by auto
  fix k
  show "j \<in> set (bc_waiters c') \<and> bn_waker (bc_nodes c' j) = Some k" if "(waiting(i := None)) j = Some k"
    using that d(5) [of j k] c' by (cases "j = i") auto
qed

lemma poll_follows:
  assumes inv: "bw_inv u" and legal: "bcast_legal (BcPoll cx i) u"
  shows "follows (BcPoll cx i) u"
proof -
  note d = bw_invD [OF inv]
  obtain n where n: "bw_cur u i = Some n" using legal by (auto simp: bw_cur_def cur_of_def simp del: bw_cur_fields)
  let ?c = "if i \<in> bw_futs u then bw_chan u else recv_new i (bw_chan u)" and ?P = "ring_end (bw_chan u) (bw_hist u)"
  have same: "same_ring (bw_chan u) ?c" by (simp add: same_ring_def recv_new_def)
  have rest: "bc_waiters ?c = bc_waiters (bw_chan u)" "bc_pos ?c = bc_pos (bw_chan u)" "bc_rx_cnt ?c = bc_rx_cnt (bw_chan u)"
    "bc_num_tx ?c = bc_num_tx (bw_chan u)" "bc_closed ?c = bc_closed (bw_chan u)" "bc_buffer ?c = bc_buffer (bw_chan u)"
    "bc_nodes ?c = (if i \<in> bw_futs u then bc_nodes (bw_chan u) else (bc_nodes (bw_chan u))(i := \<lparr>bn_queued = False, bn_waker = None\<rparr>))"
    by (simp_all add: recv_new_def)
  have r: "ring ?c (bw_hist u) (bw_cur u)" using ring_same [OF same] d(1) by simp
  have end_eq: "ring_end ?c (bw_hist u) = ?P" and at: "recv_at ?c (bw_hist u) n = recv_at (bw_chan u) (bw_hist u) n"
    using rest by (simp_all add: ring_end_def recv_at_def)
  let ?r = "recv_at (bw_chan u) (bw_hist u) n"
  obtain c where c: "bc_try_recv (of_nat n) ?c = (fst ?r, of_nat (snd ?r), c)"
    "ring c (bw_hist u) ((bw_cur u)(i \<mapsto> snd ?r))" "rest_same ?c c" "snd ?r \<le> ?P" "fst ?r = Inl BcEmpty \<longleftrightarrow> n = ?P"
    using try_recv_ok [OF r n] unfolding end_eq at by blast
  have poll: "recv_poll cx i (of_nat n) ?c =
      (if n = ?P then (Pending, of_nat (snd ?r), enqueue_waiter i cx c) else (Ready (fst ?r), of_nat (snd ?r), c))"
    using recv_at_empty [OF r n] c(1) unfolding end_eq by (simp add: recv_poll_eq)
  have cf: "bc_rx_cnt c = bc_rx_cnt (bw_chan u)" "bc_num_tx c = bc_num_tx (bw_chan u)" "bc_closed c = bc_closed (bw_chan u)"
    "length (bc_buffer c) = length (bc_buffer (bw_chan u))" "bc_waiters c = bc_waiters (bw_chan u)" "bc_pos c = bc_pos (bw_chan u)"
    "bc_nodes c = bc_nodes ?c"
    using c(3) rest by (simp_all add: rest_same_def)
  have log: "log_recv i n (log_of u) = (fst ?r, (log_of u)\<lparr>lg_cursor := (bw_cur u)(i \<mapsto> snd ?r)\<rparr>)" by (rule log_recv_eq [OF n])
  have pos: "bc_pos (bw_chan u) = of_nat ?P" by (rule ring_positionsD(1) [OF ringD(2) [OF d(1)]])
  show ?thesis
  proof (cases "n = ?P")
    case True
    have m: "snd ?r = n" using True ring_end_bounds(1) [of "bw_hist u" "bw_chan u"] by (simp add: recv_at_def Let_def)
    let ?v = "u\<lparr>bw_chan := enqueue_waiter i cx c, bw_rx := (bw_rx u)(i \<mapsto> of_nat (snd ?r)), bw_futs := insert i (bw_futs u),
      bw_waiting := (bw_waiting u)(i \<mapsto> cx)\<rparr>"
    have rx: "(bw_rx u)(i \<mapsto> of_nat (snd ?r)) = bw_rx u" using bw_cur_Some [OF n] m by (simp add: fun_upd_idem)
    have "waits_ok (enqueue_waiter i cx c) ((bw_rx u)(i \<mapsto> of_nat (snd ?r))) (insert i (bw_futs u)) ((bw_waiting u)(i \<mapsto> cx))"
      unfolding rx by (rule poll_waits_ok [OF d(6)]) (use bw_cur_Some [OF n] True pos cf rest(7) in simp_all)
    moreover have "ring (enqueue_waiter i cx c) (bw_hist u) ((bw_cur u)(i \<mapsto> snd ?r))"
      using ring_same [of c "enqueue_waiter i cx c"] c(2) by (simp add: same_ring_def)
    ultimately have "bw_inv ?v" using c(4) cf by (intro received_inv [OF inv n]) simp_all
    moreover have "bcast_exec (BcPoll cx i) u = Some (Inr (BcWaits, ?v))"
      using bw_cur_Some [OF n] poll True by simp
    moreover have "log_exec (BcPoll cx i) (log_of u) = (BcWaits, log_of ?v)"
      using log n c(5) True cf end_small [OF d(1) c(4)] by (simp add: log_of_def)
    ultimately show ?thesis by (intro followsI)
  next
    case False
    have ni: "i \<notin> set (bc_waiters (bw_chan u))"
      using waits_okD(2) [OF d(6), of i] bw_cur_Some [OF n] pos False end_small [OF d(1), of n] end_small [OF d(1), of ?P] ringD(5) [OF d(1) n]
      by (metis order_refl option.inject)
    have "\<not> bn_queued (bc_nodes ?c i)"
      using waits_okD(3) [OF d(6), of i] ni rest(7) by auto
    then have drop: "recv_drop i c = c" using cf(7) by (simp add: recv_drop_def)
    let ?v = "u\<lparr>bw_chan := c, bw_rx := (bw_rx u)(i \<mapsto> of_nat (snd ?r)), bw_futs := bw_futs u - {i}, bw_waiting := (bw_waiting u)(i := None)\<rparr>"
    have "waits_ok c (bw_rx u) (bw_futs u - {i}) ((bw_waiting u)(i := None))"
      by (rule waits_drop [OF d(6) ni]) (use cf rest(7) in simp_all)
    then have "waits_ok c ((bw_rx u)(i \<mapsto> of_nat (snd ?r))) (bw_futs u - {i}) ((bw_waiting u)(i := None))"
      by (rule waits_rx) simp
    then have "bw_inv ?v" using c(2, 4) cf by (intro received_inv [OF inv n]) simp_all
    moreover have "bcast_exec (BcPoll cx i) u = Some (Inr (BcGot (fst ?r), ?v))"
      using bw_cur_Some [OF n] poll False drop by simp
    moreover have "log_exec (BcPoll cx i) (log_of u) = (BcGot (fst ?r), log_of ?v)"
      using log n c(5) False cf end_small [OF d(1) c(4)] by (simp add: log_of_def)
    ultimately show ?thesis by (intro followsI)
  qed
qed


text \<open>Dropping a future and dropping a receiver.\<close>

lemma cancel_follows:
  assumes inv: "bw_inv u"
  shows "follows (BcCancel i) u"
proof (cases "i \<in> bw_futs u")
  case False
  then show ?thesis using inv by (intro followsI [where v = u]) simp_all
next
  case True
  note d = bw_invD [OF inv]
  note wd = waits_okD [OF d(6)]
  let ?c = "recv_drop i (bw_chan u)"
  have ws: "bc_waiters ?c = remove1 i (bc_waiters (bw_chan u))"
    using wd(2) [of i] by (cases "i \<in> set (bc_waiters (bw_chan u))") (auto simp: recv_drop_def wl_remove_def remove1_idem)
  have same: "same_ring (bw_chan u) ?c" "bc_rx_cnt ?c = bc_rx_cnt (bw_chan u)" "bc_num_tx ?c = bc_num_tx (bw_chan u)"
    "bc_nodes ?c = bc_nodes (bw_chan u)" "bc_pos ?c = bc_pos (bw_chan u)" "bc_closed ?c = bc_closed (bw_chan u)"
    "bc_buffer ?c = bc_buffer (bw_chan u)"
    by (simp_all add: recv_drop_def same_ring_def)
  let ?v = "u\<lparr>bw_chan := ?c, bw_futs := bw_futs u - {i}, bw_waiting := (bw_waiting u)(i := None)\<rparr>"
  have "waits_ok ?c (bw_rx u) (bw_futs u - {i}) ((bw_waiting u)(i := None))"
  proof (rule waits_okI)
    show "distinct (bc_waiters ?c)" "bw_futs u - {i} \<subseteq> dom (bw_rx u)" using ws wd(1, 4) by auto
    fix j
    show "j \<in> bw_futs u - {i} \<and> bn_queued (bc_nodes ?c j) \<and> bn_waker (bc_nodes ?c j) \<noteq> None \<and> bw_rx u j = Some (bc_pos ?c)"
      if "j \<in> set (bc_waiters ?c)" using that ws wd(1) wd(2) [of j] same by auto
    show "j \<in> set (bc_waiters ?c)" if "j \<in> bw_futs u - {i}" "bn_queued (bc_nodes ?c j)" using that ws wd(1) wd(3) [of j] same by auto
    fix k
    show "j \<in> set (bc_waiters ?c) \<and> bn_waker (bc_nodes ?c j) = Some k" if "((bw_waiting u)(i := None)) j = Some k"
      using that ws wd(1) wd(5) [of j k] same by (auto split: if_splits)
  qed
  then have "bw_inv ?v" using d ring_same [OF same(1)] same by (simp add: bw_inv_def)
  moreover have "bcast_exec (BcCancel i) u = Some (Inr (BcDone, ?v))" using True by simp
  moreover have "log_exec (BcCancel i) (log_of u) = (BcDone, log_of ?v)" using same by (simp add: log_of_def)
  ultimately show ?thesis by (intro followsI)
qed

lemma receiver_drop_follows:
  assumes inv: "bw_inv u" and legal: "bcast_legal (BcReceiverDrop i) u"
  shows "follows (BcReceiverDrop i) u"
proof -
  note d = bw_invD [OF inv]
  have i0: "i \<notin> bw_futs u" using legal by simp
  obtain n where n: "bw_cur u i = Some n" using legal by (auto simp: bw_cur_def cur_of_def simp del: bw_cur_fields)
  let ?c1 = "(bw_chan u)\<lparr>bc_rx_cnt := bc_rx_cnt (bw_chan u) - 1\<rparr>"
  have same: "same_ring (bw_chan u) ?c1" by (simp add: same_ring_def)
  have r: "ring ?c1 (bw_hist u) (bw_cur u)" using ring_same [OF same] d(1) by simp
  have pos: "bc_pos (bw_chan u) = of_nat (ring_end ?c1 (bw_hist u))"
    using ring_positionsD(1) [OF ringD(2) [OF d(1)]] by (simp add: ring_end_def)
  obtain c where c: "rx_drop_loop (of_nat (ring_end ?c1 (bw_hist u))) (of_nat n) ?c1 = Some (Inr c)"
    "ring c (bw_hist u) ((bw_cur u)(i := None))" "rest_same ?c1 c"
    using rx_drop_loop_ok [OF r n] by blast
  have cf: "bc_rx_cnt c = bc_rx_cnt (bw_chan u) - 1" "bc_num_tx c = bc_num_tx (bw_chan u)" "bc_closed c = bc_closed (bw_chan u)"
    "length (bc_buffer c) = length (bc_buffer (bw_chan u))" "bc_waiters c = bc_waiters (bw_chan u)" "bc_pos c = bc_pos (bw_chan u)"
    "bc_nodes c = bc_nodes (bw_chan u)"
    using c(3) by (simp_all add: rest_same_def)
  let ?v = "u\<lparr>bw_chan := c, bw_rx := (bw_rx u)(i := None)\<rparr>"
  have fin: "finite (dom (bw_rx u))" using ringD(4) [OF d(1)] by simp
  moreover have "i \<in> dom (bw_rx u)" using bw_cur_Some [OF n] by auto
  ultimately have card: "card (dom (bw_rx u) - {i}) = card (dom (bw_rx u)) - 1" "0 < card (dom (bw_rx u))"
    by (auto simp: card_gt_0_iff)
  then have nz: "bc_rx_cnt (bw_chan u) \<noteq> 0" using d(2) by auto
  then have "unat (bc_rx_cnt c) = card (dom (bw_rx u) - {i})" using cf(1) d(2) card by (simp add: unat_minus_one)
  moreover have "waits_ok c ((bw_rx u)(i := None)) (bw_futs u) (bw_waiting u)"
    using cf by (intro waits_rx [OF _ i0] waits_same [OF d(6)]) simp_all
  ultimately have "bw_inv ?v" using d(3-5) c(2) cf card by (simp add: bw_inv_def)
  moreover have "bcast_exec (BcReceiverDrop i) u = Some (Inr (BcDone, ?v))"
    using bw_cur_Some [OF n] c(1) pos nz by (simp add: bc_rx_drop_def Let_def)
  moreover have "log_exec (BcReceiverDrop i) (log_of u) = (BcDone, log_of ?v)" using cf by (simp add: log_of_def)
  ultimately show ?thesis by (intro followsI)
qed

lemma bcast_follows:
  assumes "bw_inv u" "bcast_legal p u"
  shows "follows p u"
  using assms
  by (cases p) (auto intro: bc_send_follows clone_follows sender_drop_follows subscribe_follows try_recv_follows poll_follows
      cancel_follows receiver_drop_follows simp del: bcast_exec.simps log_exec.simps)

text \<open>The start.\<close>

lemma pow2_from_le: "n \<le> 2 ^ m \<Longrightarrow> k \<le> m \<Longrightarrow> \<exists>j \<le> m. pow2_from k n = 2 ^ j \<and> n \<le> 2 ^ j"
proof (induction k n rule: pow2_from.induct)
  case (1 k n)
  show ?case
  proof (cases "n \<le> 2 ^ k")
    case True
    then show ?thesis using 1(3) by (auto simp: pow2_from.simps [of k n])
  next
    case False
    then have "k \<noteq> m" using 1(2) by auto
    with 1 False show ?thesis by (simp add: pow2_from.simps [of k n])
  qed
qed

lemma bcast_start_inv:
  assumes "bcast_start capacity = Inr u"
  shows "bw_inv u" "log_of u = \<lparr>lg_values = [], lg_closed = False, lg_cap = pow2_from 0 (unat capacity), lg_senders = 1, lg_cursor = [0 \<mapsto> 0]\<rparr>"
proof -
  have cap: "unat capacity \<le> 2 ^ 63"
  proof -
    have "unat (drop_bit (Suc 0) usize_max) = 2 ^ 63 - 1" by (simp add: unsigned_minus_1_eq_mask mask_eq_exp_minus_1)
    moreover have "capacity \<le> drop_bit (Suc 0) usize_max"
      using assms by (auto simp: bcast_start_def bc_channel_def and_then_eq_Inr)
    ultimately show ?thesis by (simp add: word_le_nat_alt)
  qed
  then obtain j where j: "j \<le> 63" "pow2_from 0 (unat capacity) = 2 ^ j" using pow2_from_le [of "unat capacity" 63 0] by auto
  have "(2 :: nat) ^ j < 2 ^ 64" using j(1) by (intro power_strict_increasing) auto
  then have n: "unat (next_power_of_two capacity) = 2 ^ j" unfolding next_power_of_two_def j(2) by (intro unat_of_nat_small) simp
  let ?L = "next_power_of_two capacity"
  let ?c = "\<lparr>bc_buffer = map (\<lambda>i. \<lparr>sl_rem = 0, sl_pos = of_nat i - ?L, sl_closed = False, sl_val = None\<rparr>) [0..<unat ?L],
    bc_mask = ?L - 1, bc_pos = 0, bc_rx_cnt = 1, bc_closed = False, bc_waiters = [],
    bc_num_tx = 1, bc_nodes = (\<lambda>_. \<lparr>bn_queued = False, bn_waker = None\<rparr>)\<rparr>"
  have u: "u = \<lparr>bw_chan = ?c, bw_senders = 1, bw_rx = [0 \<mapsto> 0], bw_futs = {}, bw_hist = [], bw_waiting = (\<lambda>_. None)\<rparr>"
    using assms by (auto simp: bcast_start_def bc_channel_def and_then_eq_Inr Let_def)
  have cur: "bw_cur u = [0 \<mapsto> 0]" by (auto simp: u bw_cur_def cur_of_def fun_eq_iff simp del: bw_cur_fields)
  have "?L = 2 ^ j" by (simp add: next_power_of_two_def j(2))
  then have "ring_size ?c" using j(1) n by (auto simp: ring_size_def)
  moreover have "ring_positions ?c []" by (simp add: ring_positions_def ring_end_def)
  moreover have "ring_values ?c [] [0 \<mapsto> 0]" by (simp add: ring_values_def)
  ultimately have "ring ?c [] [0 \<mapsto> 0]" by (auto simp: ring_def split: if_splits)
  then show "bw_inv u" using cur by (simp add: bw_inv_def u waits_ok_def)
  show "log_of u = \<lparr>lg_values = [], lg_closed = False, lg_cap = pow2_from 0 (unat capacity), lg_senders = 1, lg_cursor = [0 \<mapsto> 0]\<rparr>"
    using cur by (simp add: log_of_def u n j(2))
qed

lemma bcast_reach_inv: "bcast_reach capacity u \<Longrightarrow> bw_inv u"
proof (induction rule: bcast_reach.induct)
  case (bcast_begin capacity u)
  then show ?case by (rule bcast_start_inv(1))
next
  case (bcast_next capacity u p a v)
  from bcast_follows [OF bcast_next.IH bcast_next.hyps(2)] bcast_next.hyps(3) show ?case
    by (auto simp: follows_def simp del: bcast_exec.simps log_exec.simps)
qed

section \<open>What the channel promises\<close>

text \<open>C14: The ring of slots is a log. Whatever was called before, every call on a broadcast channel that its
  handles allow returns without a panic, and answers as the log does: each receiver reads all values sent since
  it subscribed, in order, except those it lagged behind for by more than the capacity, about which it is told
  how many they were; after the last sender it reads what is left and is told that the channel is closed.\<close>

theorem broadcast_refines_log:
  assumes "bcast_reach capacity u" "bcast_legal p u"
  shows "\<exists>a v. bcast_exec p u = Some (Inr (a, v)) \<and> bcast_reach capacity v \<and> log_exec p (log_of u) = (a, log_of v)"
proof -
  obtain a v where v: "bcast_exec p u = Some (Inr (a, v))" "log_exec p (log_of u) = (a, log_of v)"
    using bcast_follows [OF bcast_reach_inv [OF assms(1)] assms(2)] unfolding follows_def by blast
  with bcast_next [OF assms v(1)] show ?thesis by blast
qed

text \<open>C15: A receiver that waits and was not woken has read everything, is in the list of waiters with its waker,
  and is woken by the next value and by the end of the last sender.\<close>

theorem broadcast_no_lost_wakeup:
  assumes "bcast_reach capacity u" "bw_waiting u i = Some k"
  shows "bw_rx u i = Some (bc_pos (bw_chan u)) \<and> i \<in> set (bc_waiters (bw_chan u)) \<and>
     (\<exists>n c ws. bc_send x (bw_chan u) = Inr (Inr n, c, ws) \<and> k \<in> set ws \<and> bc_waiters c = []) \<and>
     (bw_senders u = 1 \<longrightarrow> (\<exists>c ws. bc_tx_drop (bw_chan u) = Inr (c, ws) \<and> k \<in> set ws \<and> bc_closed c))"
proof -
  note inv = bcast_reach_inv [OF assms(1)]
  note d = bw_invD [OF inv]
  let ?c = "bw_chan u"
  have i: "i \<in> set (bc_waiters ?c)" using waits_okD(5) [OF d(6) assms(2)] by blast
  have "dom (bw_rx u) \<noteq> {}" using waits_okD(2) [OF d(6) i] by auto
  then have some: "bc_rx_cnt ?c \<noteq> 0" using cnt_zero [OF inv] by simp
  have wake: "\<exists>c'' ws. bc_notify_rx c' = Inr (c'', ws) \<and> k \<in> set ws \<and> bc_waiters c'' = [] \<and> bc_closed c'' = bc_closed c'"
    if "bc_waiters c' = bc_waiters ?c" "bc_nodes c' = bc_nodes ?c" for c'
  proof -
    from notify_rx_ok [OF d(6) that] obtain c'' ws where "bc_notify_rx c' = Inr (c'', ws)" "same_ring c' c''"
      "\<forall>j k. bw_waiting u j = Some k \<longrightarrow> k \<in> set ws" "bc_waiters c'' = []" by (elim exE conjE) (rule that)
    then show ?thesis using assms(2) by (auto simp: same_ring_def)
  qed
  have "\<exists>n c ws. bc_send x ?c = Inr (Inr n, c, ws) \<and> k \<in> set ws \<and> bc_waiters c = []"
    using wake [of "?c\<lparr>bc_pos := bc_pos ?c + 1, bc_buffer := (bc_buffer ?c)[bc_idx (bc_pos ?c) ?c :=
      (bc_buffer ?c ! bc_idx (bc_pos ?c) ?c)\<lparr>sl_pos := bc_pos ?c, sl_rem := bc_rx_cnt ?c, sl_val := Some x\<rparr>]\<rparr>"] some
    by (auto simp: bc_send_def bc_send2_def Let_def)
  moreover have "\<exists>c ws. bc_tx_drop ?c = Inr (c, ws) \<and> k \<in> set ws \<and> bc_closed c" if "bw_senders u = 1"
  proof -
    have "bc_num_tx ?c = 1" using d(4) that by (simp add: word_unat_eq_iff)
    moreover let ?c1 = "?c\<lparr>bc_num_tx := bc_num_tx ?c - 1\<rparr>"
    obtain c ws where "bc_send2 None ?c1 = Inr (Inr (bc_rx_cnt ?c), c, ws)" "k \<in> set ws" "bc_closed c"
      using wake [of "?c1\<lparr>bc_pos := bc_pos ?c1 + 1, bc_closed := True, bc_buffer := (bc_buffer ?c1)[bc_idx (bc_pos ?c1) ?c1 :=
        (bc_buffer ?c1 ! bc_idx (bc_pos ?c1) ?c1)\<lparr>sl_pos := bc_pos ?c1, sl_rem := bc_rx_cnt ?c1, sl_closed := True\<rparr>]\<rparr>"] some
      by (auto simp: bc_send2_def Let_def)
    ultimately show ?thesis by (auto simp: bc_tx_drop_def Let_def)
  qed
  ultimately show ?thesis using i waits_okD(2) [OF d(6) i] by blast
qed

text \<open>C37: The end of the channel is reported once. A receiver that was told about it and calls \<open>recv\<close> again, and
  one that subscribes after it, are told to wait, and stay in that place, although no sender is left that
  could wake them.\<close>

theorem broadcast_closed_receiver_waits:
  assumes "bcast_reach capacity u" "bc_closed (bw_chan u)"
  shows "bw_senders u = 0 \<and>
     (\<forall>n. bw_rx u i = Some n \<and> n + 1 = bc_pos (bw_chan u) \<longrightarrow>
       (\<exists>c. bc_try_recv n (bw_chan u) = (Inl BcClosed, bc_pos (bw_chan u), c))) \<and>
     (\<exists>c. bc_resubscribe (bw_chan u) = Inr (bc_pos (bw_chan u), c) \<or> bc_rx_cnt (bw_chan u) = MAX_RECEIVERS) \<and>
     (bw_rx u i = Some (bc_pos (bw_chan u)) \<longrightarrow>
       (\<exists>v. bcast_exec (BcPoll cx i) u = Some (Inr (BcWaits, v)) \<and> bw_senders v = 0 \<and> bw_rx v i = Some (bc_pos (bw_chan v))))"
proof -
  note inv = bcast_reach_inv [OF assms(1)]
  note d = bw_invD [OF inv]
  let ?c = "bw_chan u" and ?P = "ring_end (bw_chan u) (bw_hist u)"
  have P: "?P = length (bw_hist u) + 1" using assms(2) by (simp add: ring_end_def)
  have pos: "bc_pos ?c = of_nat ?P" by (rule ring_positionsD(1) [OF ringD(2) [OF d(1)]])
  have small: "unat (of_nat ?P :: u64) = ?P" by (rule end_small [OF d(1)]) simp
  have closed: "\<exists>c. bc_try_recv n ?c = (Inl BcClosed, bc_pos ?c, c)" if n: "bw_rx u i = Some n" "n + 1 = bc_pos ?c" for n
  proof -
    have "n = of_nat (length (bw_hist u))" using n(2) pos P by simp
    moreover have "bw_cur u i = Some (unat n)" using n(1) by (simp add: bw_cur_def cur_of_def del: bw_cur_fields)
    ultimately have cur: "bw_cur u i = Some (length (bw_hist u))" using end_small [OF d(1), of "length (bw_hist u)"] P by simp
    have "recv_at ?c (bw_hist u) (length (bw_hist u)) = (Inl BcClosed, ?P)"
      using P ring_sizeD(1) [OF ringD(1) [OF d(1)]] by (simp add: recv_at_def Let_def)
    with try_recv_ok [OF d(1) cur] \<open>n = of_nat (length (bw_hist u))\<close> pos show ?thesis by auto
  qed
  have waits: "\<exists>v. bcast_exec (BcPoll cx i) u = Some (Inr (BcWaits, v)) \<and> bw_senders v = 0 \<and> bw_rx v i = Some (bc_pos (bw_chan v))"
    if rx: "bw_rx u i = Some (bc_pos ?c)"
  proof -
    have "bw_cur u i = Some ?P" using rx pos small by (simp add: bw_cur_def cur_of_def del: bw_cur_fields)
    then have log: "lg_cursor (log_of u) i = Some ?P" "log_recv i ?P (log_of u) = (Inl BcEmpty, log_of u)"
      using P assms(2) by (simp_all add: log_of_def log_recv_def log_end_def)
    have "bcast_legal (BcPoll cx i) u" using rx by simp
    from bcast_follows [OF inv this] log obtain v where
      v: "bcast_exec (BcPoll cx i) u = Some (Inr (BcWaits, v))" "bw_inv v" "log_of u = log_of v"
      by (auto simp: follows_def simp del: bcast_exec.simps)
    then have "bw_senders v = 0" "bw_hist v = bw_hist u" "bc_closed (bw_chan v)" "bw_cur v i = Some ?P"
      using d(5) assms(2) log(1) by (simp_all add: log_of_def)
    moreover from this have "bc_pos (bw_chan v) = of_nat ?P"
      using ring_positionsD(1) [OF ringD(2) [OF bw_invD(1) [OF v(2)]]] P by (simp add: ring_end_def)
    ultimately show ?thesis using v(1) bw_cur_Some [of v i ?P] by simp
  qed
  have "\<exists>c. bc_resubscribe ?c = Inr (bc_pos ?c, c) \<or> bc_rx_cnt ?c = MAX_RECEIVERS"
  proof -
    have "unat usize_max = 2 ^ 64 - 1" by (simp add: unsigned_minus_1_eq_mask mask_eq_exp_minus_1)
    then have "bc_rx_cnt ?c \<noteq> usize_max" using d(2, 3) by auto
    then show ?thesis by (auto simp: bc_resubscribe_def new_receiver_def)
  qed
  with closed waits d(5) assms(2) show ?thesis by blast
qed


text \<open>Runs of a channel with two places.\<close>

lemma two_places:
  "\<exists>u :: nat bcast_use. bcast_reach 2 u \<and> bw_rx u 0 = Some 0 \<and> bw_senders u = 1 \<and> bw_hist u = [] \<and> bw_futs u = {} \<and>
     log_of u = \<lparr>lg_values = [], lg_closed = False, lg_cap = 2, lg_senders = 1, lg_cursor = [0 \<mapsto> 0]\<rparr>"
proof -
  have "(2 :: usize) \<le> drop_bit (Suc 0) usize_max"
    by (simp add: word_le_nat_alt unsigned_minus_1_eq_mask mask_eq_exp_minus_1)
  then obtain u :: "nat bcast_use" where u: "bcast_start 2 = Inr u" "bw_rx u 0 = Some 0" "bw_senders u = 1" "bw_hist u = []" "bw_futs u = {}"
    by (auto simp: bcast_start_def bc_channel_def Let_def)
  have "pow2_from 0 2 = 2" by (simp add: pow2_from.simps)
  then show ?thesis using bcast_begin [OF u(1)] bcast_start_inv(2) [OF u(1)] u(2-5) by auto
qed

lemma poll_waiting: "bcast_exec (BcPoll cx i) u = Some (Inr (BcWaits, v)) \<Longrightarrow> bw_waiting v i = Some cx"
  by (auto split: option.splits prod.splits poll.splits)

theorem broadcast_refines_log_witness:
  "\<exists>u v. bcast_reach 2 u \<and> bcast_exec (BcSend (5 :: nat)) u = Some (Inr (BcSent (Inr 1), v)) \<and> lg_values (log_of v) = [5]"
proof -
  obtain u :: "nat bcast_use" where u: "bcast_reach 2 u" "bw_senders u = 1" "bw_hist u = []"
    "log_of u = \<lparr>lg_values = [], lg_closed = False, lg_cap = 2, lg_senders = 1, lg_cursor = [0 \<mapsto> 0]\<rparr>"
    using two_places by blast
  then have "bcast_legal (BcSend 5) u" by simp
  from broadcast_refines_log [OF u(1) this] obtain a v where v: "bcast_exec (BcSend 5) u = Some (Inr (a, v))"
    "log_exec (BcSend 5) (log_of u) = (a, log_of v)" by blast
  have "a = fst (log_exec (BcSend 5) (log_of u))" "log_of v = snd (log_exec (BcSend 5) (log_of u))" using v(2) by simp_all
  then have "a = BcSent (Inr 1)" "lg_values (log_of v) = [5]" unfolding u(4) by simp_all
  with u(1) v(1) show ?thesis by blast
qed

theorem broadcast_no_lost_wakeup_witness:
  "\<exists>u n c ws. bcast_reach 2 u \<and> bw_waiting u 0 = Some 7 \<and> bc_send (5 :: nat) (bw_chan u) = Inr (Inr n, c, ws) \<and> 7 \<in> set ws"
proof -
  obtain u :: "nat bcast_use" where u: "bcast_reach 2 u" "bw_rx u 0 = Some 0"
    "log_of u = \<lparr>lg_values = [], lg_closed = False, lg_cap = 2, lg_senders = 1, lg_cursor = [0 \<mapsto> 0]\<rparr>"
    using two_places by blast
  then have legal: "bcast_legal (BcPoll 7 0) u" by simp
  from bcast_follows [OF bcast_reach_inv [OF u(1)] this] obtain a v where v: "bcast_exec (BcPoll 7 0) u = Some (Inr (a, v))"
    "log_exec (BcPoll 7 0) (log_of u) = (a, log_of v)" unfolding follows_def by blast
  from v(2) have "a = BcWaits" unfolding u(3) by (simp add: log_recv_def log_end_def)
  with v(1) have run: "bcast_exec (BcPoll 7 0) u = Some (Inr (BcWaits, v))" by simp
  have r: "bcast_reach 2 v" by (rule bcast_next [OF u(1) legal run])
  have w: "bw_waiting v 0 = Some 7" by (rule poll_waiting [OF run])
  from broadcast_no_lost_wakeup [OF r w, of 5] r w show ?thesis by blast
qed

theorem broadcast_closed_receiver_waits_witness:
  "\<exists>u v :: nat bcast_use. bcast_reach 2 u \<and> bc_closed (bw_chan u) \<and> bw_senders u = 0 \<and>
     bcast_exec (BcPoll 7 0) u = Some (Inr (BcWaits, v))"
proof -
  obtain u :: "nat bcast_use" where u: "bcast_reach 2 u" "bw_rx u 0 = Some 0" "bw_senders u = 1" "bw_futs u = {}"
    "log_of u = \<lparr>lg_values = [], lg_closed = False, lg_cap = 2, lg_senders = 1, lg_cursor = [0 \<mapsto> 0]\<rparr>"
    using two_places by blast
  then have legal: "bcast_legal BcSenderDrop u" by simp
  from bcast_follows [OF bcast_reach_inv [OF u(1)] this] obtain a v where v: "bcast_exec BcSenderDrop u = Some (Inr (a, v))"
    "log_exec BcSenderDrop (log_of u) = (a, log_of v)" unfolding follows_def by blast
  have rv: "bcast_reach 2 v" by (rule bcast_next [OF u(1) legal v(1)])
  have "bw_rx v = bw_rx u" "bw_futs v = bw_futs u" using v(1) by (auto simp: bind_oo_eq)
  then have legal2: "bcast_legal (BcTryRecv 0) v" using u(2, 4) by simp
  from v(2) have lv: "log_of v = \<lparr>lg_values = [], lg_closed = True, lg_cap = 2, lg_senders = 0, lg_cursor = [0 \<mapsto> 0]\<rparr>"
    unfolding u(5) by auto
  from bcast_follows [OF bcast_reach_inv [OF rv] legal2] obtain b w where w: "bcast_exec (BcTryRecv 0) v = Some (Inr (b, w))"
    "log_exec (BcTryRecv 0) (log_of v) = (b, log_of w)" unfolding follows_def by blast
  have rw: "bcast_reach 2 w" by (rule bcast_next [OF rv legal2 w(1)])
  from w(2) have lw: "log_of w = \<lparr>lg_values = [], lg_closed = True, lg_cap = 2, lg_senders = 0, lg_cursor = [0 \<mapsto> 1]\<rparr>"
    unfolding lv by (simp add: log_recv_def log_end_def)
  then have closed: "bc_closed (bw_chan w)" "bw_hist w = []" "bw_cur w 0 = Some 1" by (simp_all add: log_of_def)
  then have "bw_rx w 0 = Some (bc_pos (bw_chan w))"
    using bw_cur_Some [of w 0 1] ringD(2) [OF bw_invD(1) [OF bcast_reach_inv [OF rw]]]
    by (simp add: ring_positions_def ring_end_def Let_def)
  with broadcast_closed_receiver_waits [OF rw closed(1), of 0 7] rw closed(1) show ?thesis by blast
qed

end
