(* ===== verification/Task_Local.thy ===== *)
theory Task_Local
  imports Prelude
begin

text \<open>
  \<open>task/task_local.rs\<close>: a key is a thread-local \<open>RefCell\<close> with the value of the task that is polled now. A
  \<open>TaskLocalFuture\<close> keeps the value of its task while it is not polled and exchanges it with the cell around
  each poll. Closures and futures that use the key are a language of their own here, over which the
  functions of the key are composed; its meaning with the cell is compared with a lexically scoped one.
\<close>

section \<open>The cell\<close>

text \<open>\<open>RefCell<Option<T>>\<close>: the value and the number of shared borrows. \<open>replace\<close> borrows exclusively for its
  own time only.\<close>

record 'a tl_cell =
  tl_val :: "'a option"
  tl_borrows :: nat

definition cell_replace :: "'a option \<Rightarrow> 'a tl_cell \<Rightarrow> 'a option outcome \<times> 'a tl_cell" where
  "cell_replace v c = (if tl_borrows c \<noteq> 0 then (Inl ExplicitPanic, c) else (Inr (tl_val c), c\<lparr>tl_val := v\<rparr>))"

definition local_key :: "'a tl_cell" where
  "local_key = \<lparr>tl_val = None, tl_borrows = 0\<rparr>"

section \<open>Operations\<close>

text \<open>
  A closure is a function of the cell and of the rest of the world; a panic leaves both as they are at that
  moment, and the destructors of the frames that are left run.
\<close>

type_synonym ('a, 'w, 'r) tl_closure = "'a tl_cell \<times> 'w \<Rightarrow> 'r outcome \<times> 'a tl_cell \<times> 'w"

record ('a, 'f) task_local_future =
  tf_slot :: "'a option"
  tf_future :: 'f

datatype access_error = AccessError

text \<open>The destructor of the guard: \<open>Inl\<close> if \<open>replace\<close> panics; otherwise the new content of the slot.\<close>

definition tl_guard_drop :: "'a option \<Rightarrow> 'a tl_cell \<Rightarrow> 'a option outcome \<times> 'a tl_cell" where
  "tl_guard_drop prev c = cell_replace prev c"

definition with_task ::
    "('f \<Rightarrow> 'a tl_cell \<times> 'w \<Rightarrow> ('r outcome \<times> 'f) \<times> 'a tl_cell \<times> 'w) \<Rightarrow> ('a, 'f) task_local_future \<Rightarrow> 'a tl_cell \<times> 'w \<Rightarrow>
     ('r outcome \<times> ('a, 'f) task_local_future) \<times> 'a tl_cell \<times> 'w" where
  "with_task f t s =
     (let val = tf_slot t; t1 = t\<lparr>tf_slot := None\<rparr> in
      case cell_replace val (fst s) of
        (Inl e, c1) \<Rightarrow> ((Inl e, t1), c1, snd s)
      | (Inr prev, c1) \<Rightarrow>
          (case f (tf_future t1) (c1, snd s) of
             ((r, fut), c2, w) \<Rightarrow>
               (case tl_guard_drop prev c2 of
                  (Inl e, c3) \<Rightarrow> ((Inl (case r of Inl _ \<Rightarrow> ProcessAbort | Inr _ \<Rightarrow> e), t1\<lparr>tf_future := fut\<rparr>), c3, w)
                | (Inr v, c3) \<Rightarrow> ((r, \<lparr>tf_slot = v, tf_future = fut\<rparr>), c3, w))))"

definition tl_scope :: "'a \<Rightarrow> 'f \<Rightarrow> ('a, 'f) task_local_future" where
  "tl_scope value f = \<lparr>tf_slot = Some value, tf_future = f\<rparr>"

definition sync_scope :: "'a \<Rightarrow> ('a, 'w, 'r) tl_closure \<Rightarrow> ('a, 'w, 'r) tl_closure" where
  "sync_scope value f s =
     (case with_task (\<lambda>_ s. case f s of (r, s') \<Rightarrow> ((r, ()), s')) (tl_scope value ()) s of ((r, _), s') \<Rightarrow> (r, s'))"

text \<open>\<open>try_with\<close> holds a shared borrow while the closure runs.\<close>

definition tl_try_with :: "('a \<Rightarrow> ('a, 'w, 'r) tl_closure) \<Rightarrow> ('a, 'w, access_error + 'r) tl_closure" where
  "tl_try_with f s =
     (case tl_val (fst s) of
        Some val \<Rightarrow>
          (case f val ((fst s)\<lparr>tl_borrows := tl_borrows (fst s) + 1\<rparr>, snd s) of
             (r, c, w) \<Rightarrow> (case r of Inl e \<Rightarrow> Inl e | Inr x \<Rightarrow> Inr (Inr x), c\<lparr>tl_borrows := tl_borrows c - 1\<rparr>, w))
      | None \<Rightarrow> (Inr (Inl AccessError), s))"

definition tl_with :: "('a \<Rightarrow> ('a, 'w, 'r) tl_closure) \<Rightarrow> ('a, 'w, 'r) tl_closure" where
  "tl_with f s =
     (case tl_try_with f s of
        (Inr (Inr x), s') \<Rightarrow> (Inr x, s')
      | (Inr (Inl _), s') \<Rightarrow> (Inl UnwrapNone, s')
      | (Inl e, s') \<Rightarrow> (Inl e, s'))"

definition tl_get :: "('a, 'w, 'a) tl_closure" where
  "tl_get s = tl_with (\<lambda>v s. (Inr v, s)) s"

section \<open>Code that uses the key\<close>

text \<open>
  \<open>Read\<close> and \<open>Get\<close> report what they see, \<open>With\<close> runs code inside \<open>with\<close>, \<open>Try\<close> inside \<open>catch_unwind\<close>. A future
  is the list of what its polls run, or one in a scope of its own.
\<close>

datatype 'a tl_code =
    Skip | Fail | Read | Get | Seq "'a tl_code" "'a tl_code" | Try "'a tl_code"
  | SyncScope 'a "'a tl_code" | With "'a tl_code"

datatype 'a tl_event = Saw "'a option" | Caught panic

type_synonym 'a tl_trace = "'a tl_event list"

primrec run_code :: "'a tl_code \<Rightarrow> ('a, 'a tl_trace, unit) tl_closure" where
  "run_code Skip s = (Inr (), s)"
| "run_code Fail s = (Inl ExplicitPanic, s)"
| "run_code Read s =
     (case tl_try_with (\<lambda>v s. (Inr v, s)) s of
        (Inr r, c, w) \<Rightarrow> (Inr (), c, w @ [Saw (case r of Inr v \<Rightarrow> Some v | Inl _ \<Rightarrow> None)])
      | (Inl e, s') \<Rightarrow> (Inl e, s'))"
| "run_code Get s = (case tl_get s of (Inr v, c, w) \<Rightarrow> (Inr (), c, w @ [Saw (Some v)]) | (Inl e, s') \<Rightarrow> (Inl e, s'))"
| "run_code (Seq p q) s = (case run_code p s of (Inr _, s') \<Rightarrow> run_code q s' | (Inl e, s') \<Rightarrow> (Inl e, s'))"
| "run_code (Try p) s =
     (case run_code p s of
        (Inr _, s') \<Rightarrow> (Inr (), s')
      | (Inl e, c, w) \<Rightarrow> if e = ProcessAbort then (Inl e, c, w) else (Inr (), c, w @ [Caught e]))"
| "run_code (SyncScope v p) s = sync_scope v (run_code p) s"
| "run_code (With p) s = tl_with (\<lambda>_. run_code p) s"

datatype 'a tl_fut = Plain "'a tl_code list" | Scoped "'a option" "'a tl_fut"

text \<open>\<open>Future for TaskLocalFuture\<close>: a poll of the future inside, in \<open>with_task\<close>.\<close>

definition task_local_poll ::
    "('f \<Rightarrow> 'a tl_cell \<times> 'w \<Rightarrow> ('r outcome \<times> 'f) \<times> 'a tl_cell \<times> 'w) \<Rightarrow> ('a, 'f) task_local_future \<Rightarrow> 'a tl_cell \<times> 'w \<Rightarrow>
     ('r outcome \<times> ('a, 'f) task_local_future) \<times> 'a tl_cell \<times> 'w" where
  "task_local_poll poll t s = with_task poll t s"

primrec poll_fut :: "'a tl_fut \<Rightarrow> 'a tl_cell \<times> 'a tl_trace \<Rightarrow> (unit poll outcome \<times> 'a tl_fut) \<times> 'a tl_cell \<times> 'a tl_trace" where
  "poll_fut (Plain ps) s =
     (case ps of
        [] \<Rightarrow> ((Inr (Ready ()), Plain []), s)
      | p # ps' \<Rightarrow> (case run_code p s of (r, s') \<Rightarrow> ((case r of Inr _ \<Rightarrow> Inr Pending | Inl e \<Rightarrow> Inl e, Plain ps'), s')))"
| "poll_fut (Scoped slot f) s =
     (case task_local_poll (\<lambda>_. poll_fut f) \<lparr>tf_slot = slot, tf_future = f\<rparr> s of
        ((r, t), s') \<Rightarrow> ((r, Scoped (tf_slot t) (tf_future t)), s'))"

text \<open>A thread that polls the futures \<open>fs\<close> in the order \<open>sched\<close>, with the cell between the polls.\<close>

fun run_tasks :: "nat list \<Rightarrow> (nat \<Rightarrow> 'a tl_fut) \<Rightarrow> 'a tl_cell \<Rightarrow> (nat \<times> unit poll outcome \<times> 'a tl_trace) list \<times> 'a tl_cell" where
  "run_tasks [] fs c = ([], c)"
| "run_tasks (i # sched) fs c =
     (case poll_fut (fs i) (c, []) of
        ((r, f), c', tr) \<Rightarrow> (case run_tasks sched (fs(i := f)) c' of (es, c'') \<Rightarrow> ((i, r, tr) # es, c'')))"

section \<open>Lexical scope\<close>

text \<open>
  What the key promises: code sees the value of the innermost scope around it, given to it as an argument,
  with a flag that it stands inside \<open>with\<close>, where no scope can be entered. The panic, if any, and the trace.
\<close>

primrec lex_code :: "'a tl_code \<Rightarrow> 'a option \<Rightarrow> bool \<Rightarrow> unit outcome \<times> 'a tl_trace" where
  "lex_code Skip env b = (Inr (), [])"
| "lex_code Fail env b = (Inl ExplicitPanic, [])"
| "lex_code Read env b = (Inr (), [Saw env])"
| "lex_code Get env b = (case env of Some v \<Rightarrow> (Inr (), [Saw (Some v)]) | None \<Rightarrow> (Inl UnwrapNone, []))"
| "lex_code (Seq p q) env b =
     (case lex_code p env b of
        (Inr _, tr) \<Rightarrow> (case lex_code q env b of (r, tr') \<Rightarrow> (r, tr @ tr'))
      | (Inl e, tr) \<Rightarrow> (Inl e, tr))"
| "lex_code (Try p) env b = (case lex_code p env b of (Inr _, tr) \<Rightarrow> (Inr (), tr) | (Inl e, tr) \<Rightarrow> (Inr (), tr @ [Caught e]))"
| "lex_code (SyncScope v p) env b = (if b then (Inl ExplicitPanic, []) else lex_code p (Some v) False)"
| "lex_code (With p) env b = (case env of Some v \<Rightarrow> lex_code p env True | None \<Rightarrow> (Inl UnwrapNone, []))"

primrec lex_poll :: "'a tl_fut \<Rightarrow> 'a option \<Rightarrow> bool \<Rightarrow> unit poll outcome \<times> 'a tl_fut \<times> 'a tl_trace" where
  "lex_poll (Plain ps) env b =
     (case ps of
        [] \<Rightarrow> (Inr (Ready ()), Plain [], [])
      | p # ps' \<Rightarrow> (case lex_code p env b of (r, tr) \<Rightarrow> (case r of Inr _ \<Rightarrow> Inr Pending | Inl e \<Rightarrow> Inl e, Plain ps', tr)))"
| "lex_poll (Scoped slot f) env b =
     (if b then (Inl ExplicitPanic, Scoped None f, [])
      else case lex_poll f slot False of (r, f', tr) \<Rightarrow> (r, Scoped slot f', tr))"

fun lex_polls :: "nat \<Rightarrow> 'a tl_fut \<Rightarrow> (unit poll outcome \<times> 'a tl_trace) list" where
  "lex_polls 0 f = []"
| "lex_polls (Suc n) f = (case lex_poll f None False of (r, f', tr) \<Rightarrow> (r, tr) # lex_polls n f')"

section \<open>The cell implements lexical scope\<close>

text \<open>Code that leaves the cell as it found it, in a scope: the scope ends with the cell as it was.\<close>

lemma with_task_in_use:
  "tl_borrows c \<noteq> 0 \<Longrightarrow> with_task f t (c, w) = ((Inl ExplicitPanic, t\<lparr>tf_slot := None\<rparr>), c, w)"
  by (simp add: with_task_def cell_replace_def Let_def)

lemma with_task_restores:
  assumes "tl_borrows c = 0" "f (tf_future t) (c\<lparr>tl_val := tf_slot t\<rparr>, w) = ((r, fut), c\<lparr>tl_val := tf_slot t\<rparr>, w')"
  shows "with_task f t (c, w) = ((r, \<lparr>tf_slot = tf_slot t, tf_future = fut\<rparr>), c, w')"
  using assms by (simp add: with_task_def tl_guard_drop_def cell_replace_def Let_def)

lemma sync_scope_in_use: "tl_borrows c \<noteq> 0 \<Longrightarrow> sync_scope v f (c, w) = (Inl ExplicitPanic, c, w)"
  by (simp add: sync_scope_def with_task_in_use)

lemma sync_scope_restores:
  assumes "tl_borrows c = 0" "f (c\<lparr>tl_val := Some v\<rparr>, w) = (r, c\<lparr>tl_val := Some v\<rparr>, w')"
  shows "sync_scope v f (c, w) = (r, c, w')"
  using with_task_restores [where t = "tl_scope v ()" and f = "\<lambda>_ s. case f s of (r, s') \<Rightarrow> ((r, ()), s')", OF assms(1)] assms(2)
  by (simp add: sync_scope_def tl_scope_def)

lemma tl_with_restores:
  assumes "tl_val c = Some v" "f v (c\<lparr>tl_borrows := tl_borrows c + 1\<rparr>, w) = (r, c\<lparr>tl_borrows := tl_borrows c + 1\<rparr>, w')"
  shows "tl_with f (c, w) = (r, c, w')"
  using assms by (cases r) (auto simp: tl_with_def tl_try_with_def)

lemma tl_with_unset: "tl_val c = None \<Longrightarrow> tl_with f (c, w) = (Inl UnwrapNone, c, w)"
  by (simp add: tl_with_def tl_try_with_def)

lemma tl_get_eq: "tl_get (c, w) = (case tl_val c of Some v \<Rightarrow> (Inr v, c, w) | None \<Rightarrow> (Inl UnwrapNone, c, w))"
  by (auto simp: tl_get_def tl_with_unset intro: tl_with_restores split: option.split)

lemma lex_never_aborts: "fst (lex_code p env b) \<noteq> Inl ProcessAbort"
  by (induction p arbitrary: env b) (auto split: option.split prod.split sum.split, (metis fst_conv)+)

lemma run_code_lexical:
  "run_code p (c, w) = (case lex_code p (tl_val c) (tl_borrows c \<noteq> 0) of (r, tr) \<Rightarrow> (r, c, w @ tr))"
proof (induction p arbitrary: c w)
  case Read
  then show ?case by (cases "tl_val c") (simp_all add: tl_try_with_def)
next
  case Get
  then show ?case by (simp add: tl_get_eq split: option.split)
next
  case (Seq p q)
  then show ?case by (auto split: prod.splits sum.splits)
next
  case (Try p)
  then show ?case using lex_never_aborts [of p "tl_val c" "tl_borrows c \<noteq> 0"] by (auto split: prod.splits sum.splits)
next
  case (SyncScope v p)
  then show ?case
    by (cases "tl_borrows c = 0") (auto simp: sync_scope_in_use intro: sync_scope_restores split: prod.split)
next
  case (With p)
  then show ?case
    by (cases "tl_val c") (auto simp: tl_with_unset intro: tl_with_restores split: prod.split)
qed simp_all

lemma poll_fut_lexical:
  "poll_fut f (c, w) = (case lex_poll f (tl_val c) (tl_borrows c \<noteq> 0) of (r, f', tr) \<Rightarrow> ((r, f'), c, w @ tr))"
proof (induction f arbitrary: c w)
  case (Plain ps)
  then show ?case by (simp add: run_code_lexical split: list.split prod.split)
next
  case (Scoped slot f)
  show ?case
  proof (cases "tl_borrows c = 0")
    case True
    with Scoped [of "c\<lparr>tl_val := slot\<rparr>" w] show ?thesis
      by (auto simp: task_local_poll_def with_task_restores split: prod.splits)
  qed (simp add: task_local_poll_def with_task_in_use)
qed

text \<open>C17: Task-local values are lexically scoped and do not leak between tasks. Whatever the order in which a
  thread polls futures with their scopes, and whether the code inside panics or not, each poll answers and
  sees what it would without the others, the value of the innermost scope around it; the key is unset after it.\<close>

theorem task_locals_are_isolated:
  "map snd (filter (\<lambda>e. fst e = i) (fst (run_tasks sched fs local_key))) = lex_polls (count_list sched i) (fs i) \<and>
   snd (run_tasks sched fs local_key) = local_key"
proof (induction sched arbitrary: fs)
  case (Cons j sched)
  have "poll_fut (fs j) (local_key, []) = (case lex_poll (fs j) None False of (r, f', tr) \<Rightarrow> ((r, f'), local_key, tr))"
    by (simp add: poll_fut_lexical local_key_def)
  moreover obtain r f tr where "lex_poll (fs j) None False = (r, f, tr)" by (metis prod_cases3)
  moreover obtain es c where "run_tasks sched (fs(j := f)) local_key = (es, c)" by fastforce
  moreover from this have "map snd (filter (\<lambda>e. fst e = i) es) = lex_polls (count_list sched i) ((fs(j := f)) i)" "c = local_key"
    using Cons.IH [of "fs(j := f)"] by (simp_all del: fun_upd_apply)
  ultimately show ?case by (cases "i = j") auto
qed simp

text \<open>A future that is polled inside \<open>with\<close> loses its value: the slot is emptied before the cell refuses.\<close>

lemma polled_in_use_loses_value:
  "tl_borrows c \<noteq> 0 \<Longrightarrow> poll_fut (Scoped (Some v) f) (c, w) = ((Inl ExplicitPanic, Scoped None f), c, w)"
  by (simp add: task_local_poll_def with_task_in_use)

end
