(* ===== verification/Local_Set.thy ===== *)
theory Local_Set
  imports Intrusive_List
begin

text \<open>
  \<open>task/local.rs\<close>, \<open>LocalOwnedTasks\<close> of \<open>runtime/task/list.rs\<close>, the thread-local \<open>CURRENT\<close> of
  \<open>macros/scoped_tls.rs\<close>, and \<open>task/yield_now.rs\<close>: sets of tasks that are polled where the set is polled. Sets
  and tasks are numbers; \<open>lw_rest\<close> is the rest of the world. What a task does when it runs, and what dropping
  its handle or shutting it down does, are parameters. The waker of a set is used by one thread, where
  \<open>AtomicWaker\<close> is a cell (theory \<open>Atomic_Waker\<close>).
\<close>

section \<open>State\<close>

record local_owned =
  lo_list :: "nat list"
  lo_closed :: bool
  lo_id :: u64

record local_set =
  ls_tick :: "8 word"
  ls_owned :: local_owned
  ls_queue :: "nat list"
  ls_shared :: "nat list option"
  ls_waker :: "waker option"
  ls_unhandled :: bool

record 'w ls_world =
  lw_sets :: "nat \<Rightarrow> local_set"
  lw_current :: "nat option"
  lw_owner :: "nat \<Rightarrow> u64"
  lw_next_id :: u64
  lw_woken :: "waker list"
  lw_rest :: 'w

text \<open>Code on this world; a panic leaves it as it is then, after the destructors of the frames that are left.\<close>

type_synonym ('w, 'r) ls_code = "'w ls_world \<Rightarrow> 'r outcome \<times> 'w ls_world"

abbreviation ls_put :: "nat \<Rightarrow> local_set \<Rightarrow> 'w ls_world \<Rightarrow> 'w ls_world" where
  "ls_put k l s \<equiv> s\<lparr>lw_sets := (lw_sets s)(k := l)\<rparr>"

abbreviation wake_by :: "waker \<Rightarrow> 'w ls_world \<Rightarrow> 'w ls_world" where
  "wake_by w s \<equiv> s\<lparr>lw_woken := lw_woken s @ [w]\<rparr>"

definition MAX_TASKS_PER_TICK :: nat where "MAX_TASKS_PER_TICK = 61"

definition REMOTE_FIRST_INTERVAL :: "8 word" where "REMOTE_FIRST_INTERVAL = 31"

section \<open>The list of owned tasks\<close>

definition local_owned_new :: "u64 \<Rightarrow> local_owned" where
  "local_owned_new k = \<lparr>lo_list = [], lo_closed = False, lo_id = k\<rparr>"

definition lo_is_closed :: "local_owned \<Rightarrow> bool" where
  "lo_is_closed ow = lo_closed ow"

definition lo_is_empty :: "local_owned \<Rightarrow> bool" where
  "lo_is_empty ow \<longleftrightarrow> lo_list ow = []"

definition lo_assert_owner :: "u64 \<Rightarrow> local_owned \<Rightarrow> unit outcome" where
  "lo_assert_owner owner ow = ensure (owner = lo_id ow) AssertFailed"

definition lo_remove :: "u64 \<Rightarrow> nat \<Rightarrow> local_owned \<Rightarrow> (nat option \<times> local_owned) outcome" where
  "lo_remove owner i ow =
     (if owner = 0 then Inr (None, ow)
      else and_then (ensure (owner = lo_id ow) AssertFailed) (\<lambda>_.
        case wl_remove i (lo_list ow) of (xs, r) \<Rightarrow> Inr (r, ow\<lparr>lo_list := xs\<rparr>)))"

text \<open>\<open>bind\<close>: whether the task is in the list now, and the caller has it to schedule.\<close>

definition lo_bind :: "(nat \<Rightarrow> ('w, unit) ls_code) \<Rightarrow> (nat \<Rightarrow> ('w, unit) ls_code) \<Rightarrow> nat \<Rightarrow> nat \<Rightarrow> ('w, bool) ls_code" where
  "lo_bind lose shut k i s =
     (let ow = ls_owned (lw_sets s k); s1 = s\<lparr>lw_owner := (lw_owner s)(i := lo_id ow)\<rparr> in
      if lo_is_closed ow then
        (case lose i s1 of
           (Inl e, s2) \<Rightarrow> (Inl e, s2)
         | (Inr _, s2) \<Rightarrow> (case shut i s2 of (Inl e, s3) \<Rightarrow> (Inl e, s3) | (Inr _, s3) \<Rightarrow> (Inr False, s3)))
      else (Inr True, ls_put k ((lw_sets s1 k)\<lparr>ls_owned := ow\<lparr>lo_list := wl_push_front i (lo_list ow)\<rparr>\<rparr>) s1))"

partial_function (option) lo_shutdown_loop :: "(nat \<Rightarrow> ('w, unit) ls_code) \<Rightarrow> nat \<Rightarrow> 'w ls_world \<Rightarrow> (unit outcome \<times> 'w ls_world) option" where
  "lo_shutdown_loop shut k s =
     (let l = lw_sets s k in
      case wl_pop_back (lo_list (ls_owned l)) of
        (xs, None) \<Rightarrow> Some (Inr (), ls_put k (l\<lparr>ls_owned := (ls_owned l)\<lparr>lo_list := xs\<rparr>\<rparr>) s)
      | (xs, Some i) \<Rightarrow>
          (case shut i (ls_put k (l\<lparr>ls_owned := (ls_owned l)\<lparr>lo_list := xs\<rparr>\<rparr>) s) of
             (Inl e, s') \<Rightarrow> Some (Inl e, s')
           | (Inr _, s') \<Rightarrow> lo_shutdown_loop shut k s'))"

definition lo_close_and_shutdown_all :: "(nat \<Rightarrow> ('w, unit) ls_code) \<Rightarrow> nat \<Rightarrow> 'w ls_world \<Rightarrow> (unit outcome \<times> 'w ls_world) option" where
  "lo_close_and_shutdown_all shut k s =
     (let l = lw_sets s k in lo_shutdown_loop shut k (ls_put k (l\<lparr>ls_owned := (ls_owned l)\<lparr>lo_closed := True\<rparr>\<rparr>) s))"

section \<open>The current set\<close>

text \<open>\<open>ScopedKey::set\<close> resets the cell when the closure returns or panics; \<open>with\<close> reads it.\<close>

definition scoped_set :: "nat \<Rightarrow> ('w, 'r) ls_code \<Rightarrow> ('w, 'r) ls_code" where
  "scoped_set k f s = (let prev = lw_current s in case f (s\<lparr>lw_current := Some k\<rparr>) of (r, s') \<Rightarrow> (r, s'\<lparr>lw_current := prev\<rparr>))"

definition scoped_with :: "(nat option \<Rightarrow> ('w, 'r) ls_code) \<Rightarrow> ('w, 'r) ls_code" where
  "scoped_with f s = f (lw_current s) s"

definition set_with :: "nat \<Rightarrow> ('w, 'r) ls_code \<Rightarrow> ('w, 'r) ls_code" where
  "set_with k f s = scoped_set k f s"

section \<open>Scheduling\<close>

definition waker_register :: "waker \<Rightarrow> nat \<Rightarrow> 'w ls_world \<Rightarrow> 'w ls_world" where
  "waker_register cx k s = ls_put k ((lw_sets s k)\<lparr>ls_waker := Some cx\<rparr>) s"

definition waker_wake :: "nat \<Rightarrow> 'w ls_world \<Rightarrow> 'w ls_world" where
  "waker_wake k s =
     (case ls_waker (lw_sets s k) of None \<Rightarrow> s | Some w \<Rightarrow> wake_by w (ls_put k ((lw_sets s k)\<lparr>ls_waker := None\<rparr>) s))"

text \<open>\<open>Shared::schedule\<close>; without a queue, after the set is dropped, the handle is dropped.\<close>

definition local_schedule :: "(nat \<Rightarrow> ('w, unit) ls_code) \<Rightarrow> nat \<Rightarrow> nat \<Rightarrow> ('w, unit) ls_code" where
  "local_schedule lose k i = scoped_with (\<lambda>cx s.
     if cx = Some k then (Inr (), ls_put k ((lw_sets s k)\<lparr>ls_queue := ls_queue (lw_sets s k) @ [i]\<rparr>) s)
     else
       (case ls_shared (lw_sets s k) of
          Some q \<Rightarrow> (Inr (), waker_wake k (ls_put k ((lw_sets s k)\<lparr>ls_shared := Some (q @ [i])\<rparr>) s))
        | None \<Rightarrow> lose i s))"

definition local_release :: "nat \<Rightarrow> nat \<Rightarrow> ('w, nat option) ls_code" where
  "local_release k i = scoped_with (\<lambda>cx s.
     case cx of
       None \<Rightarrow> (Inl ExplicitPanic, s)
     | Some j \<Rightarrow>
         if j \<noteq> k then (Inl AssertFailed, s)
         else
           (case lo_remove (lw_owner s i) i (ls_owned (lw_sets s k)) of
              Inl e \<Rightarrow> (Inl e, s)
            | Inr (r, ow) \<Rightarrow> (Inr r, ls_put k ((lw_sets s k)\<lparr>ls_owned := ow\<rparr>) s)))"

section \<open>The set\<close>

definition local_set_new :: "u64 \<Rightarrow> local_set" where
  "local_set_new n = \<lparr>ls_tick = 0, ls_owned = local_owned_new n, ls_queue = [], ls_shared = Some [], ls_waker = None,
     ls_unhandled = False\<rparr>"

text \<open>\<open>Context::spawn\<close> takes an id for the task, and is \<open>unimplemented!\<close>.\<close>

definition task_id_next :: "'w ls_world \<Rightarrow> u64 \<times> 'w ls_world" where
  "task_id_next s = (lw_next_id s, s\<lparr>lw_next_id := lw_next_id s + 1\<rparr>)"

definition local_ctx_spawn :: "nat \<Rightarrow> ('w, nat) ls_code" where
  "local_ctx_spawn k s = (case task_id_next s of (tid, s') \<Rightarrow> (Inl Unimplemented, s'))"

definition local_spawn_named :: "nat \<Rightarrow> ('w, nat) ls_code" where
  "local_spawn_named k s =
     (case local_ctx_spawn k s of (Inl e, s') \<Rightarrow> (Inl e, s') | (Inr i, s') \<Rightarrow> (Inr i, waker_wake k s'))"

definition set_spawn_local :: "nat \<Rightarrow> ('w, nat) ls_code" where
  "set_spawn_local k s = local_spawn_named k s"

definition spawn_local :: "('w, nat) ls_code" where
  "spawn_local = scoped_with (\<lambda>cx s. case cx of None \<Rightarrow> (Inl ExplicitPanic, s) | Some k \<Rightarrow> local_ctx_spawn k s)"

definition shared_pop :: "nat \<Rightarrow> 'w ls_world \<Rightarrow> nat option \<times> 'w ls_world" where
  "shared_pop k s =
     (case ls_shared (lw_sets s k) of
        Some (i # q) \<Rightarrow> (Some i, ls_put k ((lw_sets s k)\<lparr>ls_shared := Some q\<rparr>) s)
      | _ \<Rightarrow> (None, s))"

definition local_pop :: "nat \<Rightarrow> 'w ls_world \<Rightarrow> nat option \<times> 'w ls_world" where
  "local_pop k s =
     (case ls_queue (lw_sets s k) of
        i # q \<Rightarrow> (Some i, ls_put k ((lw_sets s k)\<lparr>ls_queue := q\<rparr>) s)
      | [] \<Rightarrow> (None, s))"

definition local_next_task :: "nat \<Rightarrow> ('w, nat option) ls_code" where
  "local_next_task k s =
     (let tick = ls_tick (lw_sets s k);
          s1 = ls_put k ((lw_sets s k)\<lparr>ls_tick := tick + 1\<rparr>) s;
          (task, s2) =
            (if tick mod REMOTE_FIRST_INTERVAL = 0 then
               (case shared_pop k s1 of (Some i, s') \<Rightarrow> (Some i, s') | (None, s') \<Rightarrow> local_pop k s')
             else
               (case local_pop k s1 of (Some i, s') \<Rightarrow> (Some i, s') | (None, s') \<Rightarrow> shared_pop k s'))
      in case task of
           None \<Rightarrow> (Inr None, s2)
         | Some i \<Rightarrow> (case lo_assert_owner (lw_owner s2 i) (ls_owned (lw_sets s2 k)) of Inl e \<Rightarrow> (Inl e, s2) | Inr _ \<Rightarrow> (Inr (Some i), s2)))"

text \<open>The loop of \<open>tick\<close> with \<open>n\<close> rounds left: whether they were used up.\<close>

primrec tick_loop :: "(nat \<Rightarrow> ('w, unit) ls_code) \<Rightarrow> nat \<Rightarrow> nat \<Rightarrow> ('w, bool) ls_code" where
  "tick_loop run k 0 s = (Inr True, s)"
| "tick_loop run k (Suc n) s =
     (if ls_unhandled (lw_sets s k) then (Inl ExplicitPanic, s)
      else
        (case local_next_task k s of
           (Inl e, s') \<Rightarrow> (Inl e, s')
         | (Inr None, s') \<Rightarrow> (Inr False, s')
         | (Inr (Some i), s') \<Rightarrow> (case run i s' of (Inl e, s'') \<Rightarrow> (Inl e, s'') | (Inr _, s'') \<Rightarrow> tick_loop run k n s'')))"

definition local_tick :: "(nat \<Rightarrow> ('w, unit) ls_code) \<Rightarrow> nat \<Rightarrow> ('w, bool) ls_code" where
  "local_tick run k s = tick_loop run k MAX_TASKS_PER_TICK s"

definition local_set_poll :: "(nat \<Rightarrow> ('w, unit) ls_code) \<Rightarrow> nat \<Rightarrow> waker \<Rightarrow> ('w, unit poll) ls_code" where
  "local_set_poll run k cx s =
     (case set_with k (local_tick run k) (waker_register cx k s) of
        (Inl e, s') \<Rightarrow> (Inl e, s')
      | (Inr again, s') \<Rightarrow>
          if again then (Inr Pending, wake_by cx s')
          else if lo_is_empty (ls_owned (lw_sets s' k)) then (Inr (Ready ()), s')
          else (Inr Pending, s'))"

text \<open>\<open>RunUntil\<close>: \<open>fut\<close> is the poll of the future inside.\<close>

definition run_until_poll ::
    "(nat \<Rightarrow> ('w, unit) ls_code) \<Rightarrow> nat \<Rightarrow> (waker \<Rightarrow> ('w, 'r poll) ls_code) \<Rightarrow> waker \<Rightarrow> ('w, 'r poll) ls_code" where
  "run_until_poll run k fut cx s =
     set_with k (\<lambda>s.
       case fut cx (waker_register cx k s) of
         (Inl e, s') \<Rightarrow> (Inl e, s')
       | (Inr (Ready v), s') \<Rightarrow> (Inr (Ready v), s')
       | (Inr Pending, s') \<Rightarrow>
           (case local_tick run k s' of
              (Inl e, s'') \<Rightarrow> (Inl e, s'')
            | (Inr again, s'') \<Rightarrow> (Inr Pending, if again then wake_by cx s'' else s''))) s"

primrec drop_all :: "(nat \<Rightarrow> ('w, unit) ls_code) \<Rightarrow> nat list \<Rightarrow> ('w, unit) ls_code" where
  "drop_all lose [] s = (Inr (), s)"
| "drop_all lose (i # is) s = (case lose i s of (Inl e, s') \<Rightarrow> (Inl e, s') | (Inr _, s') \<Rightarrow> drop_all lose is s')"

definition local_set_drop ::
    "(nat \<Rightarrow> ('w, unit) ls_code) \<Rightarrow> (nat \<Rightarrow> ('w, unit) ls_code) \<Rightarrow> nat \<Rightarrow> 'w ls_world \<Rightarrow> (unit outcome \<times> 'w ls_world) option" where
  "local_set_drop lose shut k s =
     (case lo_close_and_shutdown_all shut k (s\<lparr>lw_current := Some k\<rparr>) of
        None \<Rightarrow> None
      | Some (Inl e, s1) \<Rightarrow> Some (Inl e, s1\<lparr>lw_current := lw_current s\<rparr>)
      | Some (Inr _, s1) \<Rightarrow> Some (
          let q = ls_queue (lw_sets s1 k) in
          case drop_all lose q (ls_put k ((lw_sets s1 k)\<lparr>ls_queue := []\<rparr>) s1) of
            (Inl e, s2) \<Rightarrow> (Inl e, s2\<lparr>lw_current := lw_current s\<rparr>)
          | (Inr _, s2) \<Rightarrow>
              (case ls_shared (lw_sets s2 k) of
                 None \<Rightarrow> (Inl UnwrapNone, s2\<lparr>lw_current := lw_current s\<rparr>)
               | Some r \<Rightarrow>
                   (case drop_all lose r (ls_put k ((lw_sets s2 k)\<lparr>ls_shared := None\<rparr>) s2) of
                      (Inl e, s3) \<Rightarrow> (Inl e, s3\<lparr>lw_current := lw_current s\<rparr>)
                    | (Inr _, s3) \<Rightarrow>
                        (if lo_is_empty (ls_owned (lw_sets s3 k)) then Inr () else Inl AssertFailed, s3\<lparr>lw_current := lw_current s\<rparr>)))))"

section \<open>Yielding\<close>

text \<open>\<open>yield_now\<close>: a future with the flag \<open>yielded\<close>, kept where \<open>get\<close> and \<open>put\<close> say.\<close>

definition yield_poll :: "('w \<Rightarrow> bool) \<Rightarrow> (bool \<Rightarrow> 'w \<Rightarrow> 'w) \<Rightarrow> waker \<Rightarrow> ('w, unit poll) ls_code" where
  "yield_poll yielded put cx s =
     (if yielded (lw_rest s) then (Inr (Ready ()), s)
      else (Inr Pending, wake_by cx (s\<lparr>lw_rest := put True (lw_rest s)\<rparr>)))"

text \<open>\<open>Unconstrained\<close> only polls what is inside.\<close>

definition unconstrained_poll :: "(waker \<Rightarrow> ('w, 'r poll) ls_code) \<Rightarrow> waker \<Rightarrow> ('w, 'r poll) ls_code" where
  "unconstrained_poll fut cx s = fut cx s"

section \<open>No wakeup of a set is lost\<close>

text \<open>What tasks and other code do to the sets while none of them is polled again inside.\<close>

inductive ls_step :: "'w ls_world \<Rightarrow> 'w ls_world \<Rightarrow> bool" where
  ls_schedules: "ls_step s (snd (local_schedule (\<lambda>_ s. (Inr (), s)) j i s))"
| ls_releases: "local_release j i s = (Inr r, s') \<Longrightarrow> ls_step s s'"
| ls_wakes: "ls_step s (wake_by w s)"
| ls_computes: "ls_step s (s\<lparr>lw_rest := x\<rparr>)"

definition runs_ok :: "(nat \<Rightarrow> ('w, unit) ls_code) \<Rightarrow> bool" where
  "runs_ok run \<longleftrightarrow> (\<forall>i s s'. run i s = (Inr (), s') \<longrightarrow> ls_step\<^sup>*\<^sup>* s s')"

definition nothing_queued :: "nat \<Rightarrow> 'w ls_world \<Rightarrow> bool" where
  "nothing_queued k s \<longleftrightarrow> ls_queue (lw_sets s k) = [] \<and> ls_shared (lw_sets s k) \<in> {None, Some []}"

text \<open>Since \<open>s\<close> the waker was woken, or it is still registered.\<close>

definition watched :: "nat \<Rightarrow> waker \<Rightarrow> 'w ls_world \<Rightarrow> 'w ls_world \<Rightarrow> bool" where
  "watched k cx s0 s \<longleftrightarrow> (\<exists>ws. lw_woken s = lw_woken s0 @ ws \<and> (cx \<in> set ws \<or> ls_waker (lw_sets s k) = Some cx))"

definition awaited :: "nat \<Rightarrow> waker \<Rightarrow> 'w ls_world \<Rightarrow> 'w ls_world \<Rightarrow> bool" where
  "awaited k cx s0 s \<longleftrightarrow>
     (\<exists>ws. lw_woken s = lw_woken s0 @ ws \<and> (cx \<in> set ws \<or> ls_waker (lw_sets s k) = Some cx \<and> nothing_queued k s))"

lemma awaited_iff: "awaited k cx s0 s \<longleftrightarrow> watched k cx s0 s \<and> ((\<exists>ws. lw_woken s = lw_woken s0 @ ws \<and> cx \<in> set ws) \<or> nothing_queued k s)"
  by (auto simp: awaited_def watched_def)

lemma ls_step_watched:
  assumes "ls_step s s'" "watched k cx s0 s"
  shows "watched k cx s0 s'" "lw_current s' = lw_current s"
  using assms
  by (cases rule: ls_step.cases; auto simp: watched_def local_schedule_def local_release_def scoped_with_def waker_wake_def
      split: option.splits sum.splits prod.splits if_splits)+

lemma ls_steps_watched:
  assumes "ls_step\<^sup>*\<^sup>* s s'" "watched k cx s0 s"
  shows "watched k cx s0 s' \<and> lw_current s' = lw_current s"
  using assms by (induction rule: rtranclp_induct) (auto dest: ls_step_watched)

lemma ls_step_awaited:
  assumes "ls_step s s'" "awaited k cx s0 s" "lw_current s \<noteq> Some k"
  shows "awaited k cx s0 s'"
  using assms
  by (cases rule: ls_step.cases; auto simp: awaited_def nothing_queued_def local_schedule_def local_release_def scoped_with_def waker_wake_def
      split: option.splits sum.splits prod.splits if_splits)+

lemma next_task_frame:
  assumes "local_next_task k s = (r, s')"
  shows "lw_woken s' = lw_woken s \<and> lw_current s' = lw_current s \<and> ls_waker (lw_sets s' k) = ls_waker (lw_sets s k) \<and>
    (r = Inr None \<longrightarrow> nothing_queued k s')"
  using assms
  by (auto simp: local_next_task_def Let_def shared_pop_def local_pop_def nothing_queued_def
      split: option.splits list.splits sum.splits if_splits)

lemma tick_loop_watched:
  assumes "runs_ok run" "tick_loop run k n s = (Inr again, s')" "watched k cx s0 s"
  shows "watched k cx s0 s' \<and> lw_current s' = lw_current s \<and> (\<not> again \<longrightarrow> nothing_queued k s')"
  using assms(2,3)
proof (induction n arbitrary: s)
  case (Suc n)
  obtain r s1 where nx: "local_next_task k s = (r, s1)" by fastforce
  note frame = next_task_frame [OF nx]
  then have w1: "watched k cx s0 s1" using Suc.prems(2) by (simp add: watched_def)
  show ?case
  proof (cases r)
    case (Inr t)
    show ?thesis
    proof (cases t)
      case (Some i)
      then obtain s2 where s2: "run i s1 = (Inr (), s2)" "tick_loop run k n s2 = (Inr again, s')"
        using Suc.prems(1) nx Inr by (auto split: if_splits sum.splits prod.splits)
      have "ls_step\<^sup>*\<^sup>* s1 s2" using assms(1) s2(1) unfolding runs_ok_def by blast
      from ls_steps_watched [OF this w1] Suc.IH [OF s2(2)] frame show ?thesis by simp
    qed (use Suc.prems(1) nx Inr w1 frame in \<open>auto split: if_splits\<close>)
  qed (use Suc.prems(1) nx in \<open>simp split: if_splits\<close>)
qed simp

lemma set_poll_awaited:
  assumes "runs_ok run" "local_set_poll run k cx s = (Inr Pending, s')"
  shows "awaited k cx s s' \<and> lw_current s' = lw_current s"
proof -
  let ?s = "(waker_register cx k s)\<lparr>lw_current := Some k\<rparr>"
  obtain r s1 where t: "local_tick run k ?s = (r, s1)" by fastforce
  obtain again where r: "r = Inr again"
    using assms(2) t by (cases r) (simp_all add: local_set_poll_def set_with_def scoped_set_def Let_def)
  have "watched k cx s ?s" by (simp add: watched_def waker_register_def)
  from tick_loop_watched [OF assms(1) t [unfolded r local_tick_def] this]
  show ?thesis using assms(2) t r
    by (auto simp: local_set_poll_def set_with_def scoped_set_def waker_register_def awaited_def watched_def nothing_queued_def
        split: if_splits)
qed

text \<open>Whoever polled a set that is not finished is woken when it has work again: after a poll with a waker, and whatever
  tasks and others do then, either the waker was woken since or no task is queued.\<close>

lemma local_set_loses_no_wakeup:
  assumes "runs_ok run" "local_set_poll run k cx s = (Inr Pending, s1)" "lw_current s \<noteq> Some k" "ls_step\<^sup>*\<^sup>* s1 s2"
  shows "\<exists>ws. lw_woken s2 = lw_woken s @ ws \<and> (cx \<in> set ws \<or> nothing_queued k s2)"
proof -
  have "awaited k cx s s1" "lw_current s1 \<noteq> Some k" using set_poll_awaited [OF assms(1,2)] assms(3) by simp_all
  with assms(4) have "awaited k cx s s2 \<and> lw_current s2 \<noteq> Some k"
  proof (induction rule: rtranclp_induct)
    case (step y z)
    then have y: "awaited k cx s y" "lw_current y \<noteq> Some k" by blast+
    then have "watched k cx s y" by (simp add: awaited_iff)
    from ls_step_watched(2) [OF step(2) this] ls_step_awaited [OF step(2) y] y(2) show ?case by simp
  qed simp
  then show ?thesis unfolding awaited_def by blast
qed

section \<open>No set has a task\<close>

definition vacant :: "local_set \<Rightarrow> bool" where
  "vacant l \<longleftrightarrow> lo_list (ls_owned l) = [] \<and> ls_queue l = [] \<and> ls_shared l = Some [] \<and> \<not> ls_unhandled l"

text \<open>The states in which the set \<open>k\<close> can be before it is dropped, also those in the middle of \<open>run_until\<close>, which
  registers its waker and polls its future.\<close>

inductive set_used :: "nat \<Rightarrow> 'w ls_world \<Rightarrow> bool" for k where
  set_made: "lw_sets s k = local_set_new n \<Longrightarrow> set_used k s"
| set_left_alone: "set_used k s \<Longrightarrow> lw_sets s' k = lw_sets s k \<Longrightarrow> set_used k s'"
| set_spawns: "set_used k s \<Longrightarrow> set_used k (snd (set_spawn_local k s))"
| set_spawns_inside: "set_used k s \<Longrightarrow> set_used k (snd (spawn_local s))"
| set_polled: "set_used k s \<Longrightarrow> set_used k (snd (local_set_poll run k cx s))"
| set_registers: "set_used k s \<Longrightarrow> set_used k (waker_register cx k s)"
| set_runs: "set_used k s \<Longrightarrow> set_used k (snd (fut cx (waker_register cx k (s\<lparr>lw_current := Some k\<rparr>)))) \<Longrightarrow>
    set_used k (snd (run_until_poll run k (fut :: waker \<Rightarrow> ('w, unit poll) ls_code) cx s))"

lemma vacant_tick:
  assumes "vacant (lw_sets s k)"
  shows "local_tick run k s = (Inr False, ls_put k ((lw_sets s k)\<lparr>ls_tick := ls_tick (lw_sets s k) + 1\<rparr>) s)"
  using assms
  by (auto simp: local_tick_def MAX_TASKS_PER_TICK_def numeral_eq_Suc vacant_def local_next_task_def shared_pop_def local_pop_def Let_def)

lemma vacant_poll:
  assumes "vacant (lw_sets s k)"
  shows "\<exists>s'. local_set_poll run k cx s = (Inr (Ready ()), s') \<and> vacant (lw_sets s' k) \<and> lw_woken s' = lw_woken s \<and>
    lw_rest s' = lw_rest s \<and> lw_current s' = lw_current s"
proof -
  let ?s = "(waker_register cx k s)\<lparr>lw_current := Some k\<rparr>"
  have "vacant (lw_sets ?s k)" using assms by (simp add: vacant_def waker_register_def)
  from vacant_tick [OF this, of run] assms show ?thesis
    by (simp add: local_set_poll_def set_with_def scoped_set_def waker_register_def vacant_def lo_is_empty_def Let_def)
qed

lemma vacant_run_until:
  assumes "fut cx (waker_register cx k (s\<lparr>lw_current := Some k\<rparr>)) = (r, s1)" "vacant (lw_sets s1 k)"
  shows "\<exists>s'. run_until_poll run k fut cx s = (r, s') \<and> vacant (lw_sets s' k) \<and> lw_woken s' = lw_woken s1 \<and>
    lw_rest s' = lw_rest s1 \<and> lw_current s' = lw_current s"
  using assms vacant_tick [OF assms(2), of run]
  by (auto simp: run_until_poll_def set_with_def scoped_set_def vacant_def Let_def split: sum.split poll.split)

lemma spawn_frame: "lw_sets (snd (set_spawn_local k s)) = lw_sets s" "lw_sets (snd (spawn_local s)) = lw_sets s"
  by (simp_all add: set_spawn_local_def local_spawn_named_def local_ctx_spawn_def task_id_next_def spawn_local_def scoped_with_def
      split: option.split)

lemma set_used_vacant: "set_used k s \<Longrightarrow> vacant (lw_sets s k)"
proof (induction rule: set_used.induct)
  case (set_made s n)
  then show ?case by (simp add: vacant_def local_set_new_def local_owned_new_def)
next
  case (set_polled s run cx)
  then show ?case using vacant_poll [of s k run cx] by auto
next
  case (set_runs s fut cx run)
  then show ?case
    using vacant_run_until [where fut = fut and cx = cx and k = k and s = s and run = run] by (metis prod.collapse snd_conv)
next
  case (set_registers s cx)
  then show ?case by (simp add: vacant_def waker_register_def)
qed (simp_all add: spawn_frame)

lemma vacant_drop:
  assumes "vacant (lw_sets s k)"
  shows "\<exists>s'. local_set_drop lose shut k s = Some (Inr (), s') \<and> lw_current s' = lw_current s \<and> ls_shared (lw_sets s' k) = None"
proof -
  let ?l = "(lw_sets s k)\<lparr>ls_owned := (ls_owned (lw_sets s k))\<lparr>lo_closed := True\<rparr>\<rparr>"
  let ?s = "ls_put k ?l (s\<lparr>lw_current := Some k\<rparr>)"
  from lo_shutdown_loop.simps [of shut k ?s] assms show ?thesis
    by (simp add: local_set_drop_def lo_close_and_shutdown_all_def vacant_def wl_pop_back_def lo_is_empty_def Let_def)
qed

text \<open>C39: A local set never has a task. However it was used, spawning on it, from outside or from inside, panics
  because it is not implemented; awaiting the set is over at once; \<open>run_until\<close> is its future polled with
  the set as the current one: it answers what the future answers, and nothing else runs or is woken;
  dropping the set returns, and only closes its queue.\<close>

theorem local_set_never_runs_a_task:
  assumes "set_used k s"
  shows "fst (set_spawn_local k s) = Inl Unimplemented \<and>
    (lw_current s = Some k \<longrightarrow> fst (spawn_local s) = Inl Unimplemented) \<and>
    (\<exists>s'. local_set_poll run k cx s = (Inr (Ready ()), s') \<and> lw_woken s' = lw_woken s \<and> lw_rest s' = lw_rest s \<and>
       lw_current s' = lw_current s) \<and>
    (\<forall>r s1. fut cx (waker_register cx k (s\<lparr>lw_current := Some k\<rparr>)) = (r, s1) \<and> set_used k s1 \<longrightarrow>
       (\<exists>s'. run_until_poll run k fut cx s = (r, s') \<and> lw_woken s' = lw_woken s1 \<and> lw_rest s' = lw_rest s1 \<and>
          lw_current s' = lw_current s)) \<and>
    (\<exists>s'. local_set_drop lose shut k s = Some (Inr (), s') \<and> lw_current s' = lw_current s \<and> ls_shared (lw_sets s' k) = None)"
proof (intro conjI allI impI)
  have v: "vacant (lw_sets s k)" by (rule set_used_vacant [OF assms])
  show "fst (set_spawn_local k s) = Inl Unimplemented"
    by (simp add: set_spawn_local_def local_spawn_named_def local_ctx_spawn_def task_id_next_def)
  show "fst (spawn_local s) = Inl Unimplemented" if "lw_current s = Some k"
    using that by (simp add: spawn_local_def scoped_with_def local_ctx_spawn_def task_id_next_def)
  show "\<exists>s'. local_set_poll run k cx s = (Inr (Ready ()), s') \<and> lw_woken s' = lw_woken s \<and> lw_rest s' = lw_rest s \<and>
      lw_current s' = lw_current s"
    using vacant_poll [OF v] by blast
  show "\<exists>s'. run_until_poll run k fut cx s = (r, s') \<and> lw_woken s' = lw_woken s1 \<and> lw_rest s' = lw_rest s1 \<and>
      lw_current s' = lw_current s"
    if "fut cx (waker_register cx k (s\<lparr>lw_current := Some k\<rparr>)) = (r, s1) \<and> set_used k s1" for r s1
    using that vacant_run_until [of fut cx k s r s1] set_used_vacant [of k s1] by blast
  show "\<exists>s'. local_set_drop lose shut k s = Some (Inr (), s') \<and> lw_current s' = lw_current s \<and> ls_shared (lw_sets s' k) = None"
    by (rule vacant_drop [OF v])
qed

text \<open>A yielding task in \<open>run_until\<close>: it is pending once and its waker is woken.\<close>

definition one_set :: "bool ls_world" where
  "one_set = \<lparr>lw_sets = (\<lambda>_. local_set_new 1), lw_current = None, lw_owner = (\<lambda>_. 0), lw_next_id = 1, lw_woken = [], lw_rest = False\<rparr>"

theorem local_set_never_runs_a_task_witness:
  "\<exists>s. run_until_poll (\<lambda>_ s. (Inr (), s)) 0 (yield_poll (\<lambda>y. y) (\<lambda>y _. y)) 7 one_set = (Inr Pending, s) \<and> lw_woken s = [7] \<and> lw_rest s"
proof -
  have u: "set_used 0 one_set" by (rule set_made [where n = 1]) (simp add: one_set_def)
  let ?s = "waker_register 7 0 (one_set\<lparr>lw_current := Some 0\<rparr>)"
  obtain s1 where y: "yield_poll (\<lambda>y. y) (\<lambda>y _. y) 7 ?s = (Inr Pending, s1)" "lw_sets s1 = lw_sets ?s" "lw_woken s1 = [7]" "lw_rest s1"
    by (simp add: yield_poll_def one_set_def waker_register_def)
  have "set_used 0 (waker_register 7 0 one_set)" by (rule set_registers [OF u])
  then have "set_used 0 s1" by (rule set_left_alone) (simp add: y(2) waker_register_def)
  with local_set_never_runs_a_task [OF u, where fut = "yield_poll (\<lambda>y. y) (\<lambda>y _. y)" and cx = 7 and run = "\<lambda>_ s. (Inr (), s)"] y show ?thesis by metis
qed

end
