(* ===== verification/Park_Thread.thy ===== *)
theory Park_Thread
  imports Prelude
begin

text \<open>
  \<open>park/thread.rs\<close>: a thread parks until another one unparks it. The state is a token; a mutex and a condition
  variable let the parker sleep. Each thread runs its call access by access; the steps of all threads
  interleave. A condition variable may wake its waiter for no reason, or because the time is up. There is one
  parker (\<open>park\<close> takes \<open>&mut self\<close>, the parker is thread-local) and any number of threads that unpark it.
\<close>

section \<open>Shared state\<close>

definition PK_EMPTY :: usize where "PK_EMPTY = 0"
definition PK_PARKED :: usize where "PK_PARKED = 1"
definition PK_NOTIFIED :: usize where "PK_NOTIFIED = 2"

lemmas pk_consts = PK_EMPTY_def PK_PARKED_def PK_NOTIFIED_def

datatype owner = Parker | Unparker nat

text \<open>\<open>pk_asleep\<close>: the parker is in the queue of the condition variable.\<close>

record pk_inner =
  pk_state :: usize
  pk_mutex :: "owner option"
  pk_asleep :: bool

definition park_thread_new :: pk_inner where
  "park_thread_new = \<lparr>pk_state = PK_EMPTY, pk_mutex = None, pk_asleep = False\<rparr>"

text \<open>\<open>compare_exchange\<close>, \<open>swap\<close>, \<open>lock\<close> and the two sides of the condition variable.\<close>

definition pk_cas :: "usize \<Rightarrow> usize \<Rightarrow> pk_inner \<Rightarrow> (usize + usize) \<times> pk_inner" where
  "pk_cas old new p = (if pk_state p = old then (Inr old, p\<lparr>pk_state := new\<rparr>) else (Inl (pk_state p), p))"

definition pk_swap :: "usize \<Rightarrow> pk_inner \<Rightarrow> usize \<times> pk_inner" where
  "pk_swap new p = (pk_state p, p\<lparr>pk_state := new\<rparr>)"

definition pk_lock :: "owner \<Rightarrow> pk_inner \<Rightarrow> pk_inner option" where
  "pk_lock o1 p = (if pk_mutex p = None then Some (p\<lparr>pk_mutex := Some o1\<rparr>) else None)"

abbreviation pk_unlock :: "pk_inner \<Rightarrow> pk_inner" where
  "pk_unlock p \<equiv> p\<lparr>pk_mutex := None\<rparr>"

definition condvar_notify_one :: "pk_inner \<Rightarrow> pk_inner" where
  "condvar_notify_one p = p\<lparr>pk_asleep := False\<rparr>"

definition pk_shutdown :: "pk_inner \<Rightarrow> pk_inner" where
  "pk_shutdown p = p\<lparr>pk_asleep := False\<rparr>"

section \<open>The calls, access by access\<close>

text \<open>
  What the parker does next: \<open>PTry\<close> is the first \<open>compare_exchange\<close>, \<open>PLock\<close> takes the mutex, \<open>PAnnounce\<close> the
  \<open>compare_exchange\<close> to \<open>PARKED\<close>, \<open>PTake\<close> the \<open>swap\<close> when that failed; \<open>PWait\<close> gives the mutex back and sleeps,
  \<open>PSleep\<close> is inside \<open>wait\<close>, \<open>PCheck\<close> looks at the state again. A return drops the guard of the mutex.
\<close>

datatype park_pc = PDone | PTry | PLock | PAnnounce | PTake | PWait | PSleep | PCheck | PPanic

text \<open>\<open>Inner::park\<close>. \<open>None\<close>: the thread is blocked here.\<close>

fun park_next :: "park_pc \<Rightarrow> pk_inner \<Rightarrow> (park_pc \<times> pk_inner) option" where
  "park_next PTry p = (case pk_cas PK_NOTIFIED PK_EMPTY p of (Inr _, p') \<Rightarrow> Some (PDone, p') | (Inl _, p') \<Rightarrow> Some (PLock, p'))"
| "park_next PLock p = (case pk_lock Parker p of None \<Rightarrow> None | Some p' \<Rightarrow> Some (PAnnounce, p'))"
| "park_next PAnnounce p =
     (case pk_cas PK_EMPTY PK_PARKED p of
        (Inr _, p') \<Rightarrow> Some (PWait, p')
      | (Inl actual, p') \<Rightarrow> if actual = PK_NOTIFIED then Some (PTake, p') else Some (PPanic, pk_unlock p'))"
| "park_next PTake p =
     (case pk_swap PK_EMPTY p of (old, p') \<Rightarrow> Some (if old = PK_NOTIFIED then PDone else PPanic, pk_unlock p'))"
| "park_next PWait p = Some (PSleep, p\<lparr>pk_mutex := None, pk_asleep := True\<rparr>)"
| "park_next PSleep p =
     (if pk_asleep p then None else case pk_lock Parker p of None \<Rightarrow> None | Some p' \<Rightarrow> Some (PCheck, p'))"
| "park_next PCheck p =
     (case pk_cas PK_NOTIFIED PK_EMPTY p of (Inr _, p') \<Rightarrow> Some (PDone, pk_unlock p') | (Inl _, p') \<Rightarrow> Some (PWait, p'))"
| "park_next _ p = None"

text \<open>\<open>Inner::park_timeout\<close>; \<open>now\<close> says that the duration is zero.\<close>

fun park_timeout_next :: "bool \<Rightarrow> park_pc \<Rightarrow> pk_inner \<Rightarrow> (park_pc \<times> pk_inner) option" where
  "park_timeout_next now PTry p =
     (case pk_cas PK_NOTIFIED PK_EMPTY p of
        (Inr _, p') \<Rightarrow> Some (PDone, p')
      | (Inl _, p') \<Rightarrow> Some (if now then PDone else PLock, p'))"
| "park_timeout_next now PLock p = (case pk_lock Parker p of None \<Rightarrow> None | Some p' \<Rightarrow> Some (PAnnounce, p'))"
| "park_timeout_next now PAnnounce p =
     (case pk_cas PK_EMPTY PK_PARKED p of
        (Inr _, p') \<Rightarrow> Some (PWait, p')
      | (Inl actual, p') \<Rightarrow> if actual = PK_NOTIFIED then Some (PTake, p') else Some (PPanic, pk_unlock p'))"
| "park_timeout_next now PTake p =
     (case pk_swap PK_EMPTY p of (old, p') \<Rightarrow> Some (if old = PK_NOTIFIED then PDone else PPanic, pk_unlock p'))"
| "park_timeout_next now PWait p = Some (PSleep, p\<lparr>pk_mutex := None, pk_asleep := True\<rparr>)"
| "park_timeout_next now PSleep p =
     (if pk_asleep p then None else case pk_lock Parker p of None \<Rightarrow> None | Some p' \<Rightarrow> Some (PCheck, p'))"
| "park_timeout_next now PCheck p =
     (case pk_swap PK_EMPTY p of
        (n, p') \<Rightarrow> Some (if n = PK_NOTIFIED \<or> n = PK_PARKED then PDone else PPanic, pk_unlock p'))"
| "park_timeout_next now _ p = None"

datatype unpark_pc = UDone | USwap | ULock | UUnlock | UNotify | UPanic

text \<open>\<open>Inner::unpark\<close>, called by thread \<open>i\<close>.\<close>

fun unpark_next :: "nat \<Rightarrow> unpark_pc \<Rightarrow> pk_inner \<Rightarrow> (unpark_pc \<times> pk_inner) option" where
  "unpark_next i USwap p =
     (case pk_swap PK_NOTIFIED p of
        (old, p') \<Rightarrow>
          Some (if old = PK_EMPTY then UDone else if old = PK_NOTIFIED then UDone else if old = PK_PARKED then ULock else UPanic, p'))"
| "unpark_next i ULock p = (case pk_lock (Unparker i) p of None \<Rightarrow> None | Some p' \<Rightarrow> Some (UUnlock, p'))"
| "unpark_next i UUnlock p = Some (UNotify, pk_unlock p)"
| "unpark_next i UNotify p = Some (UDone, condvar_notify_one p)"
| "unpark_next i _ p = None"

section \<open>\<open>block_on\<close>\<close>

text \<open>
  \<open>CachedParkThread::block_on\<close> and \<open>Enter::block_on_timeout\<close> poll and park in turn, with a waker that unparks. The
  world: the shared state, the parker with the call it is in, the threads that unpark; how often the state was
  set to \<open>NOTIFIED\<close> and how often \<open>park\<close> returned; whether a poll came after the last return, and whether a
  wakeup came since the last poll began.
\<close>

datatype park_call = Park | ParkTimeout bool

record park_world =
  pw_inner :: pk_inner
  pw_call :: park_call
  pw_pc :: park_pc
  pw_un :: "nat \<Rightarrow> unpark_pc"
  pw_wakes :: nat
  pw_returns :: nat
  pw_polled :: bool
  pw_woken :: bool

definition parker_next :: "park_world \<Rightarrow> (park_pc \<times> pk_inner) option" where
  "parker_next w = (case pw_call w of
     Park \<Rightarrow> park_next (pw_pc w) (pw_inner w) | ParkTimeout now \<Rightarrow> park_timeout_next now (pw_pc w) (pw_inner w))"

definition pw_start :: park_world where
  "pw_start = \<lparr>pw_inner = park_thread_new, pw_call = Park, pw_pc = PDone, pw_un = (\<lambda>_. UDone), pw_wakes = 0, pw_returns = 0,
     pw_polled = False, pw_woken = False\<rparr>"

inductive park_step :: "park_world \<Rightarrow> park_world \<Rightarrow> bool" where
  polls: "pw_pc w = PDone \<Longrightarrow> park_step w (w\<lparr>pw_polled := True, pw_woken := False\<rparr>)"
| parks: "pw_pc w = PDone \<Longrightarrow> pw_polled w \<Longrightarrow> park_step w (w\<lparr>pw_call := call, pw_pc := PTry, pw_polled := False\<rparr>)"
| parker_runs: "parker_next w = Some (pc, p) \<Longrightarrow>
     park_step w (w\<lparr>pw_pc := pc, pw_inner := p, pw_returns := pw_returns w + (if pc = PDone \<and> pw_call w = Park then 1 else 0)\<rparr>)"
| wakes: "pw_un w i = UDone \<Longrightarrow> park_step w (w\<lparr>pw_un := (pw_un w)(i := USwap)\<rparr>)"
| unparker_runs: "unpark_next i (pw_un w i) (pw_inner w) = Some (pc, p) \<Longrightarrow>
     park_step w (w\<lparr>pw_un := (pw_un w)(i := pc), pw_inner := p, pw_wakes := pw_wakes w + (if pw_un w i = USwap then 1 else 0),
       pw_woken := (pw_un w i = USwap \<or> pw_woken w)\<rparr>)"
| wakes_up: "park_step w (w\<lparr>pw_inner := (pw_inner w)\<lparr>pk_asleep := False\<rparr>\<rparr>)"
| shuts_down: "park_step w (w\<lparr>pw_inner := pk_shutdown (pw_inner w)\<rparr>)"

section \<open>The invariant\<close>

abbreviation announced :: "park_pc \<Rightarrow> bool" where
  "announced pc \<equiv> pc \<in> {PWait, PSleep, PCheck}"

text \<open>The mutex is held exactly by the thread that is between its \<open>lock\<close> and its release.\<close>

definition pk_locks :: "park_world \<Rightarrow> bool" where
  "pk_locks w \<longleftrightarrow>
     (pk_mutex (pw_inner w) = Some Parker \<longleftrightarrow> pw_pc w \<in> {PAnnounce, PTake, PWait, PCheck}) \<and>
     (\<forall>i. pk_mutex (pw_inner w) = Some (Unparker i) \<longleftrightarrow> pw_un w i = UUnlock)"

text \<open>The state says where the parker is; after \<open>PTake\<close> is reached only the parker takes the token.\<close>

definition pk_states :: "park_world \<Rightarrow> bool" where
  "pk_states w \<longleftrightarrow>
     (pk_state (pw_inner w) = PK_NOTIFIED \<or> pk_state (pw_inner w) = (if announced (pw_pc w) then PK_PARKED else PK_EMPTY)) \<and>
     (pw_pc w = PTake \<longrightarrow> pk_state (pw_inner w) = PK_NOTIFIED) \<and> pw_pc w \<noteq> PPanic \<and> (\<forall>i. pw_un w i \<noteq> UPanic)"

text \<open>A parker that sleeps, or is about to, although the token is there will be notified.\<close>

definition pk_notifier :: "park_world \<Rightarrow> bool" where
  "pk_notifier w \<longleftrightarrow>
     (pk_state (pw_inner w) = PK_NOTIFIED \<longrightarrow>
        (pw_pc w = PWait \<longrightarrow> (\<exists>i. pw_un w i = ULock)) \<and>
        (pw_pc w = PSleep \<and> pk_asleep (pw_inner w) \<longrightarrow> (\<exists>i. pw_un w i \<in> {ULock, UUnlock, UNotify})))"

text \<open>Each return of \<open>park\<close> takes a token that an unpark gave, and a wakeup after the poll leaves its token.\<close>

definition pk_tokens :: "park_world \<Rightarrow> bool" where
  "pk_tokens w \<longleftrightarrow>
     pw_returns w + (if pk_state (pw_inner w) = PK_NOTIFIED then 1 else 0) \<le> pw_wakes w \<and>
     (pw_polled w \<longrightarrow> pw_pc w = PDone) \<and>
     (pw_woken w \<and> (pw_pc w \<noteq> PDone \<or> pw_polled w) \<longrightarrow> pk_state (pw_inner w) = PK_NOTIFIED)"

definition pk_inv :: "park_world \<Rightarrow> bool" where
  "pk_inv w \<longleftrightarrow> pk_locks w \<and> pk_states w \<and> pk_notifier w \<and> pk_tokens w"


lemma pk_neq [simp]: "PK_EMPTY \<noteq> PK_PARKED" "PK_PARKED \<noteq> PK_EMPTY" "PK_EMPTY \<noteq> PK_NOTIFIED" "PK_NOTIFIED \<noteq> PK_EMPTY"
  "PK_PARKED \<noteq> PK_NOTIFIED" "PK_NOTIFIED \<noteq> PK_PARKED"
  by (simp_all add: pk_consts)

lemmas pk_ops = pk_cas_def pk_swap_def pk_lock_def condvar_notify_one_def pk_shutdown_def

lemmas pk_defs = pk_inv_def pk_locks_def pk_states_def pk_notifier_def pk_tokens_def

lemma parker_keeps:
  assumes "pk_inv w" "parker_next w = Some (pc, p)"
  shows "pk_inv (w\<lparr>pw_pc := pc, pw_inner := p, pw_returns := pw_returns w + (if pc = PDone \<and> pw_call w = Park then 1 else 0)\<rparr>)"
proof (cases "pw_call w")
  case Park
  with assms show ?thesis
    by (cases "pw_pc w") (auto simp: parker_next_def pk_defs pk_ops split: if_splits)
next
  case (ParkTimeout now)
  with assms show ?thesis
    by (cases "pw_pc w") (auto simp: parker_next_def pk_defs pk_ops split: if_splits)
qed

text \<open>What a thread that unparks does to the world, in its four steps.\<close>

lemma unpark_next_cases:
  assumes "unpark_next i (pw_un w i) p = Some (pc, p')"
  obtains (swap) "pw_un w i = USwap" "p' = p\<lparr>pk_state := PK_NOTIFIED\<rparr>"
      "pc = (if pk_state p \<in> {PK_EMPTY, PK_NOTIFIED} then UDone else if pk_state p = PK_PARKED then ULock else UPanic)"
  | (lock) "pw_un w i = ULock" "pk_mutex p = None" "p' = p\<lparr>pk_mutex := Some (Unparker i)\<rparr>" "pc = UUnlock"
  | (unlock) "pw_un w i = UUnlock" "p' = p\<lparr>pk_mutex := None\<rparr>" "pc = UNotify"
  | (notify) "pw_un w i = UNotify" "p' = p\<lparr>pk_asleep := False\<rparr>" "pc = UDone"
  using assms by (cases "pw_un w i") (auto simp: pk_ops split: if_splits)

lemma ex_other: "\<exists>j. P (f j) \<Longrightarrow> \<not> P (f i) \<Longrightarrow> \<exists>j. P ((f(i := x)) j)"
  by (metis fun_upd_other)

lemma unparker_keeps:
  assumes "pk_inv w" "unpark_next i (pw_un w i) (pw_inner w) = Some (pc, p)"
  shows "pk_inv (w\<lparr>pw_un := (pw_un w)(i := pc), pw_inner := p, pw_wakes := pw_wakes w + (if pw_un w i = USwap then 1 else 0),
       pw_woken := (pw_un w i = USwap \<or> pw_woken w)\<rparr>)"
    (is "pk_inv ?w")
  using assms(2)
proof (cases rule: unpark_next_cases)
  case swap
  let ?p = "pw_inner w"
  have st: "pk_state ?p = PK_NOTIFIED \<or> pk_state ?p = (if announced (pw_pc w) then PK_PARKED else PK_EMPTY)"
    using assms(1) by (simp add: pk_inv_def pk_states_def)
  have "pk_locks ?w" using assms(1) swap by (auto simp: pk_inv_def pk_locks_def)
  moreover have "pk_states ?w" using assms(1) swap st by (auto simp: pk_inv_def pk_states_def)
  moreover have "pk_notifier ?w"
  proof (cases "pk_state ?p = PK_NOTIFIED")
    case True
    then have "pw_pc w = PWait \<longrightarrow> (\<exists>i. pw_un w i = ULock)"
      "pw_pc w = PSleep \<and> pk_asleep ?p \<longrightarrow> (\<exists>i. pw_un w i \<in> {ULock, UUnlock, UNotify})" using assms(1) by (simp_all add: pk_inv_def pk_notifier_def)
    then show ?thesis
      using ex_other [where P = "\<lambda>x. x = ULock" and f = "pw_un w" and i = i and x = pc]
        ex_other [where P = "\<lambda>x. x \<in> {ULock, UUnlock, UNotify}" and f = "pw_un w" and i = i and x = pc] swap
      by (simp add: pk_notifier_def del: fun_upd_apply)
  next
    case False
    then have "announced (pw_pc w) \<Longrightarrow> pc = ULock" using st swap(3) by auto
    then show ?thesis by (auto simp: pk_notifier_def)
  qed
  moreover have "pk_tokens ?w" using assms(1) swap by (auto simp: pk_inv_def pk_tokens_def split: if_splits)
  ultimately show ?thesis by (simp add: pk_inv_def)
next
  case lock
  have "pk_locks ?w" using assms(1) lock by (auto simp: pk_inv_def pk_locks_def)
  moreover have "pk_states ?w" "pk_tokens ?w" using assms(1) lock by (simp_all add: pk_inv_def pk_states_def pk_tokens_def)
  moreover have "pw_pc w \<noteq> PWait" using assms(1) lock by (auto simp: pk_inv_def pk_locks_def)
  then have "pk_notifier ?w" using lock by (auto simp: pk_notifier_def)
  ultimately show ?thesis by (simp add: pk_inv_def)
next
  case unlock
  have locks: "\<forall>j. pk_mutex (pw_inner w) = Some (Unparker j) \<longleftrightarrow> pw_un w j = UUnlock" and
    parker: "pk_mutex (pw_inner w) = Some Parker \<longleftrightarrow> pw_pc w \<in> {PAnnounce, PTake, PWait, PCheck}"
    using assms(1) by (simp_all add: pk_inv_def pk_locks_def)
  then have m: "pk_mutex (pw_inner w) = Some (Unparker i)" using unlock(1) by blast
  have only: "((pw_un w)(i := pc)) j \<noteq> UUnlock" for j
    using locks [rule_format, of j] m unlock(3) by auto
  have "pw_pc w \<notin> {PAnnounce, PTake, PWait, PCheck}" using parker m by simp
  then have "pk_locks ?w" using only unlock(2) by (simp add: pk_locks_def)
  moreover have "pk_states ?w" "pk_tokens ?w" using assms(1) unlock by (simp_all add: pk_inv_def pk_states_def pk_tokens_def)
  moreover have "pw_pc w \<noteq> PWait" using assms(1) unlock by (auto simp: pk_inv_def pk_locks_def)
  then have "pk_notifier ?w" using unlock by (auto simp: pk_notifier_def)
  ultimately show ?thesis by (simp add: pk_inv_def)
next
  case notify
  have "pk_locks ?w" using assms(1) notify by (auto simp: pk_inv_def pk_locks_def)
  moreover have "pk_states ?w" "pk_tokens ?w" using assms(1) notify by (simp_all add: pk_inv_def pk_states_def pk_tokens_def)
  moreover have "pk_notifier ?w"
  proof -
    have "pk_state (pw_inner w) = PK_NOTIFIED \<Longrightarrow> pw_pc w = PWait \<Longrightarrow> \<exists>i. pw_un w i = ULock" using assms(1) by (simp add: pk_inv_def pk_notifier_def)
    then show ?thesis
      using ex_other [where P = "\<lambda>x. x = ULock" and f = "pw_un w" and i = i and x = pc] notify
      by (simp add: pk_notifier_def del: fun_upd_apply)
  qed
  ultimately show ?thesis by (simp add: pk_inv_def)
qed

lemma wakes_keeps:
  assumes "pk_inv w" "pw_un w i = UDone"
  shows "pk_inv (w\<lparr>pw_un := (pw_un w)(i := USwap)\<rparr>)"
proof -
  have "pk_notifier (w\<lparr>pw_un := (pw_un w)(i := USwap)\<rparr>)"
    using assms ex_other [where P = "\<lambda>x. x = ULock" and f = "pw_un w" and i = i and x = USwap]
        ex_other [where P = "\<lambda>x. x \<in> {ULock, UUnlock, UNotify}" and f = "pw_un w" and i = i and x = USwap]
    by (simp add: pk_inv_def pk_notifier_def del: fun_upd_apply)
  with assms show ?thesis by (simp add: pk_inv_def pk_locks_def pk_states_def pk_tokens_def)
qed

lemma park_step_inv: "park_step w w' \<Longrightarrow> pk_inv w \<Longrightarrow> pk_inv w'"
proof (induction rule: park_step.induct)
  case (parker_runs w pc p)
  then show ?case using parker_keeps by blast
next
  case (unparker_runs i w pc p)
  then show ?case using unparker_keeps by blast
next
  case (wakes w i)
  then show ?case using wakes_keeps by blast
qed (simp_all add: pk_defs pk_ops)

lemma pw_start_inv: "pk_inv pw_start"
  by (simp add: pk_defs pw_start_def park_thread_new_def)

lemma park_reach_inv: "park_step\<^sup>*\<^sup>* pw_start w \<Longrightarrow> pk_inv w"
  by (induction rule: rtranclp_induct) (auto intro: park_step_inv pw_start_inv)


section \<open>Parking\<close>

text \<open>While a token is there and the parker is in a call, some thread can go on: it is not stuck.\<close>

lemma mutex_moves:
  assumes "pk_locks w" "pk_mutex (pw_inner w) \<noteq> Some Parker"
  shows "pk_mutex (pw_inner w) = None \<or> (\<exists>i. pw_un w i = UUnlock)"
proof (cases "pk_mutex (pw_inner w)")
  case (Some x)
  then obtain i where "x = Unparker i" using assms(2) by (cases x) auto
  with Some assms(1) show ?thesis by (auto simp: pk_locks_def)
qed simp

lemma parker_not_stuck:
  assumes "pk_inv w" "pk_state (pw_inner w) = PK_NOTIFIED" "pw_pc w \<noteq> PDone"
  shows "parker_next w \<noteq> None \<or> (\<exists>i. pw_un w i \<noteq> UDone \<and> unpark_next i (pw_un w i) (pw_inner w) \<noteq> None)"
proof -
  have locks: "pk_locks w" and pan: "pw_pc w \<noteq> PPanic"
    and nt: "pw_pc w = PSleep \<Longrightarrow> pk_asleep (pw_inner w) \<Longrightarrow> \<exists>i. pw_un w i \<in> {ULock, UUnlock, UNotify}"
    using assms(1,2) by (simp_all add: pk_inv_def pk_states_def pk_notifier_def)
  have unlocks: "unpark_next i (pw_un w i) (pw_inner w) \<noteq> None" if "pw_un w i \<in> {UUnlock, UNotify}" for i
    using that by auto
  have locker: "unpark_next i (pw_un w i) (pw_inner w) \<noteq> None" if "pw_un w i = ULock" "pk_mutex (pw_inner w) = None" for i
    using that by (simp add: pk_ops)
  show ?thesis
  proof (cases "pw_pc w \<in> {PLock, PSleep}")
    case True
    then have free: "pk_mutex (pw_inner w) = None \<or> (\<exists>i. pw_un w i = UUnlock)"
      using mutex_moves [OF locks] locks by (auto simp: pk_locks_def)
    show ?thesis
    proof (cases "pk_mutex (pw_inner w) = None")
      case none: True
      show ?thesis
      proof (cases "pw_pc w = PSleep \<and> pk_asleep (pw_inner w)")
        case True
        then obtain i where "pw_un w i \<in> {ULock, UUnlock, UNotify}" using nt by blast
        then show ?thesis using locker [OF _ none, of i] unlocks [of i] by (intro disjI2 exI [of _ i]) auto
      next
        case False
        with \<open>pw_pc w \<in> {PLock, PSleep}\<close> none show ?thesis
          by (cases "pw_call w") (auto simp: parker_next_def pk_ops)
      qed
    next
      case False
      then obtain i where i: "pw_un w i = UUnlock" using free by auto
      then show ?thesis using unlocks [of i] by (intro disjI2 exI [of _ i]) simp
    qed
  next
    case False
    then have "parker_next w \<noteq> None" using pan assms(3)
      by (cases "pw_call w"; cases "pw_pc w") (auto simp: parker_next_def pk_ops)
    then show ?thesis by blast
  qed
qed

text \<open>C16: Parking loses no wakeup, in every interleaving of the accesses of the parker with those of any number of
  threads that unpark it, with spurious wakeups and timeouts. No call panics. A wakeup after the last poll leaves
  its token until the parker takes it; while the token is there a parker that sleeps is about to be notified,
  and some thread can go on. And \<open>park\<close> returns no more often than it was unparked.\<close>

theorem park_loses_no_wakeup:
  assumes "park_step\<^sup>*\<^sup>* pw_start w"
  shows "pw_pc w \<noteq> PPanic \<and> (\<forall>i. pw_un w i \<noteq> UPanic) \<and> pw_returns w \<le> pw_wakes w \<and>
    (pw_woken w \<and> pw_pc w \<noteq> PDone \<longrightarrow> pk_state (pw_inner w) = PK_NOTIFIED) \<and>
    (pk_state (pw_inner w) = PK_NOTIFIED \<and> pw_pc w \<noteq> PDone \<longrightarrow>
       (pw_pc w = PSleep \<and> pk_asleep (pw_inner w) \<longrightarrow> (\<exists>i. pw_un w i \<in> {ULock, UUnlock, UNotify})) \<and>
       (parker_next w \<noteq> None \<or> (\<exists>i. pw_un w i \<noteq> UDone \<and> unpark_next i (pw_un w i) (pw_inner w) \<noteq> None)))"
proof -
  note inv = park_reach_inv [OF assms]
  then have "pk_states w" "pk_notifier w" "pk_tokens w" by (simp_all add: pk_inv_def)
  then show ?thesis using parker_not_stuck [OF inv]
    by (auto simp: pk_states_def pk_notifier_def pk_tokens_def)
qed

text \<open>A poll, a wakeup during it, and the call of \<open>park\<close> after it.\<close>

lemma woken_before_park:
  "park_step\<^sup>*\<^sup>* pw_start (pw_start\<lparr>pw_inner := park_thread_new\<lparr>pk_state := PK_NOTIFIED\<rparr>, pw_pc := PTry, pw_wakes := 1, pw_woken := True\<rparr>)"
    (is "park_step\<^sup>*\<^sup>* _ ?w")
proof -
  let ?a = "pw_start\<lparr>pw_polled := True\<rparr>"
  let ?b = "?a\<lparr>pw_un := (\<lambda>_. UDone)(0 := USwap)\<rparr>"
  let ?c = "?a\<lparr>pw_inner := park_thread_new\<lparr>pk_state := PK_NOTIFIED\<rparr>, pw_wakes := 1, pw_woken := True\<rparr>"
  have a: "park_step pw_start ?a" using polls [of pw_start] by (simp add: pw_start_def)
  have b: "park_step ?a ?b" using wakes [of ?a 0] by (simp add: pw_start_def)
  have "unpark_next 0 (pw_un ?b 0) (pw_inner ?b) = Some (UDone, park_thread_new\<lparr>pk_state := PK_NOTIFIED\<rparr>)"
    by (simp add: pw_start_def park_thread_new_def pk_ops)
  moreover have "(\<lambda>_. UDone)(0 := UDone) = (\<lambda>_ :: nat. UDone)" by auto
  ultimately have c: "park_step ?b ?c" using unparker_runs [of 0 ?b UDone "park_thread_new\<lparr>pk_state := PK_NOTIFIED\<rparr>"]
    by (simp add: pw_start_def)
  have "park_step ?c ?w" using parks [of ?c Park] by (simp add: pw_start_def)
  with a b c show ?thesis by (meson converse_rtranclp_into_rtranclp rtranclp.rtrancl_refl)
qed

theorem park_loses_no_wakeup_witness:
  "\<exists>w. park_step\<^sup>*\<^sup>* pw_start w \<and> pw_pc w = PTry \<and> pk_state (pw_inner w) = PK_NOTIFIED"
  using park_loses_no_wakeup [OF woken_before_park] woken_before_park by (auto simp: pw_start_def)

end
