(* ===== verification/Executor.thy ===== *)
theory Executor
  imports Prelude
begin

text \<open>
  The first executor of the crate, \<open>runtime/executor.rs\<close> with \<open>runtime/task_queue.rs\<close> and \<open>runtime/reactor.rs\<close>: a
  queue of tasks, the channel through which wakers put tasks back, and the reactor that keeps the wakers of
  sources of input. Tasks are numbers; the waker of a task sends the task to the channel, so a waker is the
  number too. What a poll of a task does, and what the poller answers, are parameters.
\<close>

section \<open>The task queue\<close>

record task_queue =
  tq_channel :: "nat list"
  tq_tasks :: "nat list"

definition tq_new :: task_queue where
  "tq_new = \<lparr>tq_channel = [], tq_tasks = []\<rparr>"

definition tq_send :: "nat \<Rightarrow> task_queue \<Rightarrow> task_queue" where
  "tq_send i q = q\<lparr>tq_channel := tq_channel q @ [i]\<rparr>"

definition tq_pop :: "task_queue \<Rightarrow> nat option \<times> task_queue" where
  "tq_pop q = (case tq_tasks q of [] \<Rightarrow> (None, q) | i # is \<Rightarrow> (Some i, q\<lparr>tq_tasks := is\<rparr>))"

definition tq_push :: "nat \<Rightarrow> task_queue \<Rightarrow> task_queue" where
  "tq_push i q = q\<lparr>tq_tasks := tq_tasks q @ [i]\<rparr>"

definition tq_receive :: "task_queue \<Rightarrow> task_queue" where
  "tq_receive q = q\<lparr>tq_channel := [], tq_tasks := tq_tasks q @ tq_channel q\<rparr>"

definition tq_is_empty :: "task_queue \<Rightarrow> bool" where
  "tq_is_empty q \<longleftrightarrow> tq_tasks q = []"

section \<open>The reactor\<close>

text \<open>The poller is the one of the \<open>polling\<close> crate: its state and its operations are parameters.\<close>

record 'p reactor =
  rc_readable :: "nat \<Rightarrow> nat list option"
  rc_writable :: "nat \<Rightarrow> nat list option"
  rc_poller :: 'p

datatype interest = NoInterest nat | ReadInterest nat | WriteInterest nat | AllInterest nat

definition reactor_new :: "'p \<Rightarrow> 'p reactor" where
  "reactor_new p = \<lparr>rc_readable = (\<lambda>_. None), rc_writable = (\<lambda>_. None), rc_poller = p\<rparr>"

definition get_interest :: "nat \<Rightarrow> 'p reactor \<Rightarrow> interest" where
  "get_interest key r =
     (case (rc_readable r key, rc_writable r key) of
        (None, None) \<Rightarrow> NoInterest key
      | (Some _, None) \<Rightarrow> ReadInterest key
      | (None, Some _) \<Rightarrow> WriteInterest key
      | (Some _, Some _) \<Rightarrow> AllInterest key)"

definition entry_push :: "nat \<Rightarrow> nat \<Rightarrow> (nat \<Rightarrow> nat list option) \<Rightarrow> nat \<Rightarrow> nat list option" where
  "entry_push key waker m = m(key \<mapsto> (case m key of None \<Rightarrow> [] | Some ws \<Rightarrow> ws) @ [waker])"

definition with_poller :: "(interest \<Rightarrow> 'p \<Rightarrow> 'p outcome) \<Rightarrow> nat \<Rightarrow> 'p reactor \<Rightarrow> 'p reactor outcome" where
  "with_poller call key r = and_then (call (get_interest key r) (rc_poller r)) (\<lambda>p. Inr (r\<lparr>rc_poller := p\<rparr>))"

definition wake_on_readable :: "(interest \<Rightarrow> 'p \<Rightarrow> 'p outcome) \<Rightarrow> nat \<Rightarrow> nat \<Rightarrow> 'p reactor \<Rightarrow> 'p reactor outcome" where
  "wake_on_readable modify key waker r = with_poller modify key (r\<lparr>rc_readable := entry_push key waker (rc_readable r)\<rparr>)"

definition wake_on_writable :: "(interest \<Rightarrow> 'p \<Rightarrow> 'p outcome) \<Rightarrow> nat \<Rightarrow> nat \<Rightarrow> 'p reactor \<Rightarrow> 'p reactor outcome" where
  "wake_on_writable modify key waker r = with_poller modify key (r\<lparr>rc_writable := entry_push key waker (rc_writable r)\<rparr>)"

definition reactor_remove :: "(nat \<Rightarrow> 'p \<Rightarrow> 'p outcome) \<Rightarrow> nat \<Rightarrow> 'p reactor \<Rightarrow> 'p reactor outcome" where
  "reactor_remove delete key r =
     and_then (delete key (rc_poller r)) (\<lambda>p.
       Inr (r\<lparr>rc_poller := p, rc_readable := (rc_readable r)(key := None), rc_writable := (rc_writable r)(key := None)\<rparr>))"

definition reactor_add :: "(interest \<Rightarrow> 'p \<Rightarrow> 'p outcome) \<Rightarrow> nat \<Rightarrow> 'p reactor \<Rightarrow> 'p reactor outcome" where
  "reactor_add add key r = with_poller add key r"

definition remove_entry :: "nat \<Rightarrow> (nat \<Rightarrow> nat list option) \<Rightarrow> nat list \<times> (nat \<Rightarrow> nat list option)" where
  "remove_entry key m = (case m key of None \<Rightarrow> ([], m) | Some ws \<Rightarrow> (ws, m(key := None)))"

fun reactor_wakers :: "nat list \<Rightarrow> 'p reactor \<Rightarrow> nat list \<times> 'p reactor" where
  "reactor_wakers [] r = ([], r)"
| "reactor_wakers (key # evs) r =
     (let (readers, m) = remove_entry key (rc_readable r); (writers, n) = remove_entry key (rc_writable r);
          (ws, r') = reactor_wakers evs (r\<lparr>rc_readable := m, rc_writable := n\<rparr>)
      in (readers @ writers @ ws, r'))"

definition waiting_on_events :: "'p reactor \<Rightarrow> bool" where
  "waiting_on_events r \<longleftrightarrow> rc_readable r \<noteq> Map.empty \<or> rc_writable r \<noteq> Map.empty"

text \<open>\<open>Reactor::wait\<close>: the poller answers with an error or with the keys of the events.\<close>

definition reactor_wait :: "('p \<Rightarrow> ('e + nat list) \<times> 'p) \<Rightarrow> 'p reactor \<Rightarrow> ('e + nat list) \<times> 'p reactor" where
  "reactor_wait wait r = (case wait (rc_poller r) of (evs, p) \<Rightarrow> (evs, r\<lparr>rc_poller := p\<rparr>))"

section \<open>The executor\<close>

text \<open>The thread: the executor's queue, the reactor, and the futures of the tasks.\<close>

record ('p, 'f) executor =
  ex_queue :: task_queue
  ex_reactor :: "'p reactor"
  ex_futures :: 'f

type_synonym ('p, 'f) poll_task = "nat \<Rightarrow> ('p, 'f) executor \<Rightarrow> (bool \<times> ('p, 'f) executor) outcome"

definition executor_new :: "'p \<Rightarrow> 'f \<Rightarrow> ('p, 'f) executor" where
  "executor_new p f = \<lparr>ex_queue = tq_new, ex_reactor = reactor_new p, ex_futures = f\<rparr>"

definition exec_spawn :: "nat \<Rightarrow> ('p, 'f) executor \<Rightarrow> ('p, 'f) executor" where
  "exec_spawn i w = w\<lparr>ex_queue := tq_push i (ex_queue w)\<rparr>"

text \<open>The inner loop of \<open>run\<close>: poll until the queue of tasks is empty.\<close>

definition exec_poll_one :: "('p, 'f) poll_task \<Rightarrow> ('p, 'f) executor \<Rightarrow> ('p, 'f) executor outcome" where
  "exec_poll_one poll w =
     (case tq_pop (ex_queue w) of
        (None, q) \<Rightarrow> Inr (w\<lparr>ex_queue := q\<rparr>)
      | (Some i, q) \<Rightarrow> and_then (poll i (w\<lparr>ex_queue := q\<rparr>)) (\<lambda>(ready, w'). Inr w'))"

partial_function (option) exec_inner :: "('p, 'f) poll_task \<Rightarrow> ('p, 'f) executor \<Rightarrow> ('p, 'f) executor outcome option" where
  "exec_inner poll w =
     bind_oo (Some (exec_poll_one poll w)) (\<lambda>w'.
       if tq_is_empty (ex_queue w') then Some (Inr w') else exec_inner poll w')"

definition wait_for_io :: "('p \<Rightarrow> ('e + nat list) \<times> 'p) \<Rightarrow> ('p, 'f) executor \<Rightarrow> ('e + nat) \<times> ('p, 'f) executor" where
  "wait_for_io wait w =
     (case reactor_wait wait (ex_reactor w) of
        (Inl e, r) \<Rightarrow> (Inl e, w\<lparr>ex_reactor := r\<rparr>)
      | (Inr evs, r) \<Rightarrow>
          (case reactor_wakers evs r of
             (ws, r') \<Rightarrow> (Inr (length ws), w\<lparr>ex_reactor := r', ex_queue := fold tq_send ws (ex_queue w)\<rparr>)))"

partial_function (option) exec_run ::
    "('p, 'f) poll_task \<Rightarrow> ('p \<Rightarrow> ('e + nat list) \<times> 'p) \<Rightarrow> ('p, 'f) executor \<Rightarrow> (('e + unit) \<times> ('p, 'f) executor) outcome option" where
  "exec_run poll wait w =
     bind_oo (exec_inner poll w) (\<lambda>w1.
       if \<not> waiting_on_events (ex_reactor w1) then Some (Inr (Inr (), w1))
       else
         (case wait_for_io wait w1 of
            (Inl e, w2) \<Rightarrow> Some (Inr (Inl e, w2))
          | (Inr _, w2) \<Rightarrow> exec_run poll wait (w2\<lparr>ex_queue := tq_receive (ex_queue w2)\<rparr>)))"

definition exec_block_on ::
    "('p, 'f) poll_task \<Rightarrow> ('p \<Rightarrow> ('e + nat list) \<times> 'p) \<Rightarrow> nat \<Rightarrow> ('p, 'f) executor \<Rightarrow> (('e + unit) \<times> ('p, 'f) executor) outcome option" where
  "exec_block_on poll wait i w = exec_run poll wait (exec_spawn i w)"

section \<open>The reactor keeps every waker\<close>

definition wakers_at :: "nat \<Rightarrow> 'p reactor \<Rightarrow> nat list" where
  "wakers_at key r = (case rc_readable r key of None \<Rightarrow> [] | Some ws \<Rightarrow> ws) @ (case rc_writable r key of None \<Rightarrow> [] | Some ws \<Rightarrow> ws)"

lemma wake_on_readable_keeps:
  "wake_on_readable modify key waker r = Inr r' \<Longrightarrow> waker \<in> set (wakers_at key r') \<and> waiting_on_events r' \<and>
     (\<forall>k. k \<noteq> key \<longrightarrow> wakers_at k r' = wakers_at k r) \<and> set (wakers_at key r') = insert waker (set (wakers_at key r))"
  by (auto simp: wake_on_readable_def with_poller_def and_then_eq_Inr entry_push_def wakers_at_def waiting_on_events_def fun_eq_iff
      split: option.splits)

lemma reactor_wakers_spec:
  "reactor_wakers evs r = (ws, r') \<Longrightarrow>
     set ws = (\<Union>k \<in> set evs. set (wakers_at k r)) \<and> (\<forall>k. wakers_at k r' = (if k \<in> set evs then [] else wakers_at k r))"
proof (induction evs arbitrary: r ws)
  case (Cons key evs)
  let ?r = "r\<lparr>rc_readable := (rc_readable r)(key := None), rc_writable := (rc_writable r)(key := None)\<rparr>"
  have step: "remove_entry key m = (case m key of None \<Rightarrow> [] | Some ws \<Rightarrow> ws, m(key := None))" for m :: "nat \<Rightarrow> nat list option"
    by (auto simp: remove_entry_def fun_upd_idem_iff split: option.split)
  obtain ws1 where ws1: "reactor_wakers evs ?r = (ws1, r')" "ws = wakers_at key r @ ws1"
    using Cons.prems by (auto simp: step wakers_at_def Let_def split: prod.splits)
  have "wakers_at k ?r = (if k = key then [] else wakers_at k r)" for k by (simp add: wakers_at_def)
  with Cons.IH [OF ws1(1)] ws1(2) show ?case by (auto split: if_splits)
qed simp

section \<open>A task that is woken while it runs\<close>

text \<open>Tasks that yield once: the first poll wakes its own task and is pending, the second is ready.\<close>

definition yielding_task :: "('p, nat \<Rightarrow> nat) poll_task" where
  "yielding_task i w =
     (if ex_futures w i = 0
      then Inr (False, w\<lparr>ex_futures := (ex_futures w)(i := 1), ex_queue := tq_send i (ex_queue w)\<rparr>)
      else Inr (True, w\<lparr>ex_futures := (ex_futures w)(i := ex_futures w i + 1)\<rparr>))"

lemma spawn_all:
  "fold exec_spawn is w = w\<lparr>ex_queue := (ex_queue w)\<lparr>tq_tasks := tq_tasks (ex_queue w) @ is\<rparr>\<rparr>"
  by (induction "is" arbitrary: w) (simp_all add: exec_spawn_def tq_push_def)

lemma inner_yields:
  assumes "distinct (j # js)" "\<forall>k \<in> set (j # js). f k = 0"
  shows "exec_inner yielding_task \<lparr>ex_queue = \<lparr>tq_channel = ch, tq_tasks = j # js\<rparr>, ex_reactor = r, ex_futures = f\<rparr> =
    Some (Inr \<lparr>ex_queue = \<lparr>tq_channel = ch @ j # js, tq_tasks = []\<rparr>, ex_reactor = r,
      ex_futures = (\<lambda>k. if k \<in> set (j # js) then 1 else f k)\<rparr>)"
    (is "exec_inner _ ?w = _")
  using assms
proof (induction js arbitrary: j ch f)
  case Nil
  then show ?case
    by (subst exec_inner.simps)
       (simp add: exec_poll_one_def tq_pop_def yielding_task_def tq_send_def tq_is_empty_def fun_eq_iff)
next
  case (Cons k js)
  let ?a = "\<lparr>ex_queue = \<lparr>tq_channel = ch, tq_tasks = j # k # js\<rparr>, ex_reactor = r, ex_futures = f\<rparr>"
  let ?b = "\<lparr>ex_queue = \<lparr>tq_channel = ch @ [j], tq_tasks = k # js\<rparr>, ex_reactor = r, ex_futures = f(j := 1)\<rparr>"
  have "exec_poll_one yielding_task ?a = Inr ?b"
    using Cons.prems by (simp add: exec_poll_one_def tq_pop_def yielding_task_def tq_send_def)
  then have step: "exec_inner yielding_task ?a = exec_inner yielding_task ?b"
    by (subst exec_inner.simps) (simp add: tq_is_empty_def)
  have eq: "(\<lambda>x. if x \<in> set (k # js) then 1 else (f(j := 1)) x) = (\<lambda>x. if x \<in> set (j # k # js) then 1 else f x)"
    by (simp add: fun_eq_iff)
  have pre: "distinct (k # js)" "\<forall>x \<in> set (k # js). (f(j := 1)) x = 0" using Cons.prems by auto
  show ?case unfolding step Cons.IH [OF pre] eq by simp
qed

text \<open>C40: The executor forgets tasks that are woken while tasks run. Given any number of tasks that yield once, in any
  order, it polls each of them once; their wakeups are in the channel; and as nothing waits for input it returns
  \<open>Ok\<close> and leaves them there, none of the tasks finished.\<close>

theorem executor_forgets_woken_tasks:
  assumes "distinct (is @ [i])"
  shows "\<exists>w. exec_block_on yielding_task wait i (fold exec_spawn is (executor_new p (\<lambda>_. 0))) = Some (Inr (Inr (), w)) \<and>
    tq_channel (ex_queue w) = is @ [i] \<and> tq_tasks (ex_queue w) = [] \<and> (\<forall>j \<in> set (is @ [i]). ex_futures w j = 1)"
proof -
  let ?r = "reactor_new p"
  let ?w = "\<lparr>ex_queue = \<lparr>tq_channel = [], tq_tasks = is @ [i]\<rparr>, ex_reactor = ?r, ex_futures = (\<lambda>_. 0)\<rparr>"
  have w: "exec_spawn i (fold exec_spawn is (executor_new p (\<lambda>_. 0))) = ?w"
    by (simp add: spawn_all exec_spawn_def executor_new_def tq_new_def tq_push_def)
  obtain j js where js: "is @ [i] = j # js" by (cases "is") auto
  have inner: "exec_inner yielding_task ?w = Some (Inr \<lparr>ex_queue = \<lparr>tq_channel = is @ [i], tq_tasks = []\<rparr>, ex_reactor = ?r,
      ex_futures = (\<lambda>k. if k \<in> set (is @ [i]) then 1 else 0)\<rparr>)"
    using inner_yields [of j js "\<lambda>_. 0" "[]" ?r] assms unfolding js by simp
  have "exec_run yielding_task wait ?w = Some (Inr (Inr (), \<lparr>ex_queue = \<lparr>tq_channel = is @ [i], tq_tasks = []\<rparr>, ex_reactor = ?r,
      ex_futures = (\<lambda>k. if k \<in> set (is @ [i]) then 1 else 0)\<rparr>))"
    by (subst exec_run.simps) (simp only: inner bind_oo_simps, simp add: waiting_on_events_def reactor_new_def)
  then show ?thesis by (simp add: exec_block_on_def w)
qed

theorem executor_forgets_woken_tasks_witness:
  "\<exists>w. exec_block_on yielding_task (\<lambda>p. (Inr [], p)) 2 (fold exec_spawn [0, 1] (executor_new () (\<lambda>_. 0))) =
     Some (Inr (Inr () :: unit + unit, w)) \<and> tq_channel (ex_queue w) = [0, 1, 2]"
  using executor_forgets_woken_tasks [of "[0, 1]" 2 "\<lambda>p. (Inr [], p)" "()"] by fastforce

end
