(* ===== verification/Atomic_Program.thy ===== *)
theory Atomic_Program
  imports Prelude
begin

text \<open>
  Code on memory that another thread writes meanwhile, one access at a time. The operations of
  \<open>sync/oneshot.rs\<close>, \<open>sync/atomic_waker.rs\<close> and of the channel in \<open>sync/mpsc/\<close> are written in this
  form: a program is the tree of its accesses to the shared memory \<open>'s\<close>, each followed by the
  rest of the code, which depends on what the access saw. \<open>run_prog\<close> runs a program alone;
  \<open>interleave\<close> computes the results of all interleavings of two programs, \<open>race\<close> is the step
  relation it computes.
\<close>

section \<open>Programs\<close>

datatype ('s, 'r) prog =
    Return 'r
  | Fail panic
  | Access "'s \<Rightarrow> 's" "'s \<Rightarrow> ('s, 'r) prog"

text \<open>An access applies its update; the rest of the program gets the memory as it was before.\<close>

primrec bind_prog :: "('s, 'a) prog \<Rightarrow> ('a \<Rightarrow> ('s, 'b) prog) \<Rightarrow> ('s, 'b) prog" where
  "bind_prog (Return a) f = f a"
| "bind_prog (Fail e) f = Fail e"
| "bind_prog (Access u k) f = Access u (\<lambda>s. bind_prog (k s) f)"

primrec run_prog :: "('s, 'r) prog \<Rightarrow> 's \<Rightarrow> ('r \<times> 's) outcome" where
  "run_prog (Return r) s = Inr (r, s)"
| "run_prog (Fail e) s = Inl e"
| "run_prog (Access u k) s = run_prog (k s) (u s)"

definition read_mem :: "('s \<Rightarrow> 'a) \<Rightarrow> ('s, 'a) prog" where
  "read_mem g = Access (\<lambda>s. s) (\<lambda>s. Return (g s))"

definition write_mem :: "('s \<Rightarrow> 's) \<Rightarrow> ('s, unit) prog" where
  "write_mem u = Access u (\<lambda>_. Return ())"

text \<open>A read-modify-write that returns what it read.\<close>

definition fetch_mem :: "('s \<Rightarrow> 'a) \<Rightarrow> ('s \<Rightarrow> 's) \<Rightarrow> ('s, 'a) prog" where
  "fetch_mem g u = Access u (\<lambda>s. Return (g s))"

definition check_prog :: "bool \<Rightarrow> panic \<Rightarrow> ('s, unit) prog" where
  "check_prog b e = (if b then Return () else Fail e)"

lemma run_bind:
  "run_prog (bind_prog p f) s = and_then (run_prog p s) (\<lambda>(r, s'). run_prog (f r) s')"
  by (induction p arbitrary: s) auto

lemma bind_assoc: "bind_prog (bind_prog p f) g = bind_prog p (\<lambda>x. bind_prog (f x) g)"
  by (induction p) auto

lemma bind_Return [simp]: "bind_prog p Return = p"
  by (induction p) auto

lemmas prog_defs = read_mem_def write_mem_def fetch_mem_def check_prog_def

text \<open>A program on a part of the memory, run on the whole.\<close>

primrec lift_prog :: "('s \<Rightarrow> 't) \<Rightarrow> (('t \<Rightarrow> 't) \<Rightarrow> 's \<Rightarrow> 's) \<Rightarrow> ('t, 'r) prog \<Rightarrow> ('s, 'r) prog" where
  "lift_prog get upd (Return r) = Return r"
| "lift_prog get upd (Fail e) = Fail e"
| "lift_prog get upd (Access u k) = Access (upd u) (\<lambda>s. lift_prog get upd (k (get s)))"

lemma run_lift:
  assumes "\<And>u s. get (upd u s) = u (get s)" "\<And>u v s. upd u (upd v s) = upd (u \<circ> v) s"
    and "\<And>s. upd (\<lambda>t. t) s = s"
    and "\<And>u v s. u (get s) = v (get s) \<Longrightarrow> upd u s = upd v s"
  shows "run_prog (lift_prog get upd p) s =
     and_then (run_prog p (get s)) (\<lambda>(r, t). Inr (r, upd (\<lambda>_. t) s))"
proof (induction p arbitrary: s)
  case (Access u k)
  have "upd (\<lambda>_. t) (upd u s) = upd (\<lambda>_. t) s" for t
    by (simp add: assms(2) comp_def)
  then show ?case
    by (simp add: Access assms(1) split_beta)
qed (auto intro: assms(3, 4) [symmetric] simp: assms(3) assms(4) [of "\<lambda>_. get s" s "\<lambda>t. t" for s])

section \<open>Two programs at once\<close>

inductive race ::
    "('s, 'a) prog \<times> ('s, 'b) prog \<times> 's \<Rightarrow> ('s, 'a) prog \<times> ('s, 'b) prog \<times> 's \<Rightarrow> bool" where
  race_left: "race (Access u k, q, s) (k s, q, u s)"
| race_right: "race (p, Access u k, s) (p, k s, u s)"

inductive_cases race_cases: "race (p, q, s) x"

text \<open>How a race ends: with both answers, or with a panic of one of the two.\<close>

inductive ends :: "('s, 'a) prog \<Rightarrow> ('s, 'b) prog \<Rightarrow> 's \<Rightarrow> ('a \<times> 'b \<times> 's) outcome \<Rightarrow> bool" where
  ends_return: "race\<^sup>*\<^sup>* (p, q, s) (Return a, Return b, s') \<Longrightarrow> ends p q s (Inr (a, b, s'))"
| ends_left: "race\<^sup>*\<^sup>* (p, q, s) (Fail e, q', s') \<Longrightarrow> ends p q s (Inl e)"
| ends_right: "race\<^sup>*\<^sup>* (p, q, s) (p', Fail e, s') \<Longrightarrow> ends p q s (Inl e)"

text \<open>The same by computation. A panic ends the race at once.\<close>

primrec finish_right :: "('s, 'b) prog \<Rightarrow> 'a \<Rightarrow> 's \<Rightarrow> ('a \<times> 'b \<times> 's) outcome list" where
  "finish_right (Return b) a s = [Inr (a, b, s)]"
| "finish_right (Fail e) a s = [Inl e]"
| "finish_right (Access u k) a s = finish_right (k s) a (u s)"

primrec step_both ::
    "('s, 'b) prog \<Rightarrow> ('s \<Rightarrow> ('s, 'b) prog \<Rightarrow> 'c outcome list) \<Rightarrow> 's \<Rightarrow> 'c outcome list" where
  "step_both (Return b) left s = left s (Return b)"
| "step_both (Fail e) left s = [Inl e]"
| "step_both (Access u k) left s = left s (Access u k) @ step_both (k s) left (u s)"

primrec interleave :: "('s, 'a) prog \<Rightarrow> ('s, 'b) prog \<Rightarrow> 's \<Rightarrow> ('a \<times> 'b \<times> 's) outcome list" where
  "interleave (Return a) = (\<lambda>q s. finish_right q a s)"
| "interleave (Fail e) = (\<lambda>q s. [Inl e])"
| "interleave (Access u k) = (\<lambda>q s. step_both q (\<lambda>s q. interleave (k s) q (u s)) s)"

lemma finish_right_eq:
  "finish_right q a s = [and_then (run_prog q s) (\<lambda>(b, s'). Inr (a, b, s'))]"
  by (induction q arbitrary: s) auto

text \<open>
  A step of a race loses results only to a panic: the results of what is left are results of the
  whole, except that another panic may have come first.
\<close>

lemma race_interleave:
  assumes "race (p, q, s) (p', q', s')" "r \<in> set (interleave p' q' s')"
  shows "r \<in> set (interleave p q s) \<or> (\<exists>e e'. r = Inl e \<and> Inl e' \<in> set (interleave p q s))"
  using assms(1)
proof (cases rule: race.cases)
  case (race_left u k)
  with assms(2) show ?thesis by (cases q; cases "k s") auto
next
  case (race_right u k)
  with assms(2) show ?thesis by (cases p) auto
qed

lemma races_interleave:
  assumes "race\<^sup>*\<^sup>* x (p', q', s')" "r \<in> set (interleave p' q' s')"
  shows "x = (p, q, s) \<Longrightarrow> r \<in> set (interleave p q s) \<or> (\<exists>e e'. r = Inl e \<and> Inl e' \<in> set (interleave p q s))"
  using assms(1)
proof (induction arbitrary: p q s rule: converse_rtranclp_induct)
  case base
  with assms(2) show ?case by simp
next
  case (step y z)
  obtain p2 q2 s2 where z: "z = (p2, q2, s2)" by (cases z)
  from step.IH [OF z] race_interleave [OF step.hyps(1) [unfolded step.prems z]] show ?case
    by blast
qed

lemma ends_interleave:
  assumes "ends p q s r"
  shows "r \<in> set (interleave p q s) \<or> (\<exists>e e'. r = Inl e \<and> Inl e' \<in> set (interleave p q s))"
  using assms
proof cases
  case (ends_return a b s')
  then show ?thesis using races_interleave [OF ends_return(2) _ refl] by simp
next
  case (ends_left e q' s')
  then show ?thesis using races_interleave [OF ends_left(2) _ refl, of "Inl e"] by auto
next
  case (ends_right p' e s')
  have "\<exists>e'. Inl e' \<in> set (interleave p' (Fail e) s')" by (cases p') auto
  then show ?thesis using ends_right races_interleave [OF ends_right(2) _ refl] by blast
qed

text \<open>So a property of all computed results that no panic has is one of all races.\<close>

lemma all_races:
  assumes "ends p q s r" "\<And>r. r \<in> set (interleave p q s) \<Longrightarrow> \<exists>a b s'. r = Inr (a, b, s') \<and> Q a b s'"
  shows "\<exists>a b s'. r = Inr (a, b, s') \<and> Q a b s'"
  using ends_interleave [OF assms(1)] assms(2) by blast

text \<open>One after the other is a race too.\<close>

lemma race_run_left:
  "run_prog p s = Inr (a, s') \<Longrightarrow> race\<^sup>*\<^sup>* (p, q, s) (Return a, q, s')"
proof (induction p arbitrary: s)
  case (Access u k)
  have "race (Access u k, q, s) (k s, q, u s)" by (rule race_left)
  moreover have "race\<^sup>*\<^sup>* (k s, q, u s) (Return a, q, s')" using Access by simp
  ultimately show ?case by (rule converse_rtranclp_into_rtranclp)
qed auto

lemma race_run_right:
  "run_prog q s = Inr (b, s') \<Longrightarrow> race\<^sup>*\<^sup>* (p, q, s) (p, Return b, s')"
proof (induction q arbitrary: s)
  case (Access u k)
  have "race (p, Access u k, s) (p, k s, u s)" by (rule race_right)
  moreover have "race\<^sup>*\<^sup>* (p, k s, u s) (p, Return b, s')" using Access by simp
  ultimately show ?case by (rule converse_rtranclp_into_rtranclp)
qed auto

lemma ends_right_first:
  assumes "run_prog q s = Inr (b, s1)" "run_prog p s1 = Inr (a, s2)"
  shows "ends p q s (Inr (a, b, s2))"
  using race_run_right [OF assms(1), of p] race_run_left [OF assms(2), of "Return b"]
  by (intro ends_return) (rule rtranclp_trans)

lemma ends_left_first:
  assumes "run_prog p s = Inr (a, s1)" "run_prog q s1 = Inr (b, s2)"
  shows "ends p q s (Inr (a, b, s2))"
  using race_run_left [OF assms(1), of q] race_run_right [OF assms(2), of "Return a"]
  by (intro ends_return) (rule rtranclp_trans)

section \<open>Rely and guarantee\<close>

text \<open>
  \<open>safe R G Q p s\<close>: whatever the other thread does within \<open>R\<close>, every access of \<open>p\<close> from \<open>s\<close> on stays within
  \<open>G\<close>, \<open>p\<close> does not fail, and its answer satisfies \<open>Q\<close> then and as long as the other thread goes on.
\<close>

primrec safe ::
    "('s \<Rightarrow> 's \<Rightarrow> bool) \<Rightarrow> ('s \<Rightarrow> 's \<Rightarrow> bool) \<Rightarrow> ('r \<Rightarrow> 's \<Rightarrow> bool) \<Rightarrow> ('s, 'r) prog \<Rightarrow> 's \<Rightarrow> bool" where
  "safe R G Q (Return r) s \<longleftrightarrow> (\<forall>s'. R s s' \<longrightarrow> Q r s')"
| "safe R G Q (Fail e) s \<longleftrightarrow> False"
| "safe R G Q (Access u k) s \<longleftrightarrow> (\<forall>s'. R s s' \<longrightarrow> G s' (u s') \<and> safe R G Q (k s') (u s'))"

locale two_threads =
  fixes R1 R2 :: "'s \<Rightarrow> 's \<Rightarrow> bool"
  assumes refl1: "R1 s s" and trans1: "R1 s t \<Longrightarrow> R1 t w \<Longrightarrow> R1 s w"
    and refl2: "R2 s s" and trans2: "R2 s t \<Longrightarrow> R2 t w \<Longrightarrow> R2 s w"
begin

lemma safe_rely1: "safe R1 G Q p s \<Longrightarrow> R1 s s' \<Longrightarrow> safe R1 G Q p s'"
  by (cases p) (auto intro: trans1)

lemma safe_rely2: "safe R2 G Q p s \<Longrightarrow> R2 s s' \<Longrightarrow> safe R2 G Q p s'"
  by (cases p) (auto intro: trans2)

text \<open>A step of one thread keeps both safe, when each guarantees what the other relies on.\<close>

lemma race_safe:
  assumes "race (p, q, s) (p', q', s')" "safe R1 R2 Q1 p s" "safe R2 R1 Q2 q s"
  shows "safe R1 R2 Q1 p' s' \<and> safe R2 R1 Q2 q' s'"
  using assms(1)
proof (cases rule: race.cases)
  case (race_left u k)
  with assms(2) refl1 have "R2 s (u s)" "safe R1 R2 Q1 p' s'" by auto
  with race_left assms(3) show ?thesis by (auto intro: safe_rely2)
next
  case (race_right u k)
  with assms(3) refl2 have "R1 s (u s)" "safe R2 R1 Q2 q' s'" by auto
  with race_right assms(2) show ?thesis by (auto intro: safe_rely1)
qed

lemma races_safe:
  assumes "race\<^sup>*\<^sup>* x (p', q', s')"
  shows "x = (p, q, s) \<Longrightarrow> safe R1 R2 Q1 p s \<Longrightarrow> safe R2 R1 Q2 q s \<Longrightarrow> safe R1 R2 Q1 p' s' \<and> safe R2 R1 Q2 q' s'"
  using assms
proof (induction arbitrary: p q s rule: converse_rtranclp_induct)
  case base
  then show ?case by simp
next
  case (step y z)
  obtain p2 q2 s2 where z: "z = (p2, q2, s2)" by (cases z)
  show ?case
    using race_safe [OF step.hyps(1) [unfolded step.prems(1) z] step.prems(2, 3)] step.IH [OF z] by blast
qed

lemma parallel:
  assumes "ends p q s r" "safe R1 R2 Q1 p s" "safe R2 R1 Q2 q s"
  shows "\<exists>a b s'. r = Inr (a, b, s') \<and> Q1 a s' \<and> Q2 b s'"
  using assms(1)
proof cases
  case (ends_return a b s')
  then show ?thesis using races_safe [OF ends_return(2) refl assms(2, 3)] refl1 refl2 by auto
next
  case (ends_left e q' s')
  then show ?thesis using races_safe [OF ends_left(2) refl assms(2, 3)] by simp
next
  case (ends_right p' e s')
  then show ?thesis using races_safe [OF ends_right(2) refl assms(2, 3)] by simp
qed

end

lemma safe_bind:
  assumes "safe R G Q' p s" "\<And>r s'. Q' r s' \<Longrightarrow> safe R G Q (f r) s'" "\<And>s. R s s"
  shows "safe R G Q (bind_prog p f) s"
  using assms(1)
proof (induction p arbitrary: s)
  case (Return r)
  then show ?case using assms(2, 3) by auto
next
  case (Access u k)
  then show ?case by auto
qed simp

lemma safe_mono:
  assumes "safe R G Q' p s" "\<And>r s'. Q' r s' \<Longrightarrow> Q r s'"
  shows "safe R G Q p s"
  using assms(1) by (induction p arbitrary: s) (auto intro: assms(2))

text \<open>An access under an assertion that the other thread keeps.\<close>

definition stable :: "('s \<Rightarrow> 's \<Rightarrow> bool) \<Rightarrow> ('s \<Rightarrow> bool) \<Rightarrow> bool" where
  "stable R P \<longleftrightarrow> (\<forall>s s'. P s \<longrightarrow> R s s' \<longrightarrow> P s')"

lemma stableI: "(\<And>s s'. P s \<Longrightarrow> R s s' \<Longrightarrow> P s') \<Longrightarrow> stable R P"
  by (auto simp: stable_def)

lemma stableD: "stable R P \<Longrightarrow> P s \<Longrightarrow> R s s' \<Longrightarrow> P s'"
  by (auto simp: stable_def)

lemma stable_False [simp]: "stable R (\<lambda>s. False)"
  by (simp add: stable_def)

lemma safe_access:
  assumes "P s" "stable R P" "\<And>s. P s \<Longrightarrow> G s (u s)" "\<And>s. P s \<Longrightarrow> safe R G Q (k s) (u s)"
  shows "safe R G Q (Access u k) s"
  using assms by (auto dest: stableD)

lemma safe_return:
  assumes "P s" "stable R P" "\<And>s. P s \<Longrightarrow> Q r s"
  shows "safe R G Q (Return r) s"
  using assms by (auto dest: stableD)

lemma safe_answer: "Q r s \<Longrightarrow> stable R (Q r) \<Longrightarrow> safe R G Q (Return r) s"
  by (auto dest: stableD)

text \<open>What neither thread ends stays true.\<close>

lemma safe_frame:
  assumes "safe R G Q p s" "F s" "stable R F" "stable G F"
  shows "safe R G (\<lambda>r s. Q r s \<and> F s) p s"
  using assms(1, 2)
proof (induction p arbitrary: s)
  case (Access u k)
  then show ?case using assms(3, 4) by (auto dest: stableD)
qed (auto dest: stableD [OF assms(3)])

text \<open>Alone, a program is safe exactly for its own run.\<close>

lemma safe_alone: "safe (=) (\<lambda>_ _. True) Q p s \<longleftrightarrow> (\<exists>r s'. run_prog p s = Inr (r, s') \<and> Q r s')"
  by (induction p arbitrary: s) auto

end
