(* ===== verification/Oneshot.thy ===== *)
theory Oneshot
  imports Atomic_Program
begin

text \<open>
  \<open>sync/oneshot.rs\<close>: a channel for one value. The state word has a bit for each of "the receiver's
  waker is set", "the value was sent (or the sender dropped)", "closed" and "the sender's waker is
  set"; the other cells are plain memory that these bits guard. Every operation is the program of its
  accesses, so the two halves can run on two threads. The loop of \<open>set_complete\<close> over
  \<open>compare_exchange_weak\<close> is one access, which is what \<open>Atomic_Loop\<close> shows of such loops.
\<close>

section \<open>The shared state\<close>

text \<open>
  A waker cell is \<open>MaybeUninit\<close>: \<open>None\<close> is memory that was not written or whose waker was dropped.
  The last five fields are not in the code: the wakers woken so far, what the cell held when the
  value bit was set, and whether a thread was told by the other's bit to use its waker. No operation
  reads them.
\<close>

record 'a oneshot =
  os_state :: usize
  os_value :: "'a option"
  os_tx_task :: "waker option"
  os_rx_task :: "waker option"
  os_rx_woken :: "waker list"
  os_tx_woken :: "waker list"
  os_sent :: "'a option"
  os_rx_lent :: bool
  os_tx_lent :: bool

definition RX_TASK_SET :: usize where "RX_TASK_SET = 1"
definition VALUE_SENT :: usize where "VALUE_SENT = 2"
definition OS_CLOSED :: usize where "OS_CLOSED = 4"
definition TX_TASK_SET :: usize where "TX_TASK_SET = 8"

lemmas os_flags = RX_TASK_SET_def VALUE_SENT_def OS_CLOSED_def TX_TASK_SET_def

definition os_is_complete :: "usize \<Rightarrow> bool" where
  "os_is_complete st \<longleftrightarrow> st AND VALUE_SENT = VALUE_SENT"

definition os_is_closed :: "usize \<Rightarrow> bool" where
  "os_is_closed st \<longleftrightarrow> st AND OS_CLOSED = OS_CLOSED"

definition os_is_rx_task_set :: "usize \<Rightarrow> bool" where
  "os_is_rx_task_set st \<longleftrightarrow> st AND RX_TASK_SET = RX_TASK_SET"

definition os_is_tx_task_set :: "usize \<Rightarrow> bool" where
  "os_is_tx_task_set st \<longleftrightarrow> st AND TX_TASK_SET = TX_TASK_SET"

lemmas os_tests = os_is_complete_def os_is_closed_def os_is_rx_task_set_def os_is_tx_task_set_def

type_synonym ('a, 'r) os_prog = "('a oneshot, 'r) prog"

definition os_load :: "('a, usize) os_prog" where
  "os_load = read_mem os_state"

definition set_complete :: "('a, usize) os_prog" where
  "set_complete =
     fetch_mem os_state (\<lambda>s.
       if os_is_closed (os_state s) then s
       else s\<lparr>os_state := os_state s OR VALUE_SENT, os_sent := os_value s,
              os_rx_lent := os_is_rx_task_set (os_state s)\<rparr>)"

definition os_set_closed :: "('a, usize) os_prog" where
  "os_set_closed =
     fetch_mem os_state (\<lambda>s.
       s\<lparr>os_state := os_state s OR OS_CLOSED,
         os_tx_lent := os_is_tx_task_set (os_state s) \<and> \<not> os_is_complete (os_state s) \<or> os_tx_lent s\<rparr>)"

text \<open>These four return the state after the change.\<close>

definition set_rx_task :: "('a, usize) os_prog" where
  "set_rx_task =
     bind_prog (fetch_mem os_state (\<lambda>s. s\<lparr>os_state := os_state s OR RX_TASK_SET\<rparr>))
       (\<lambda>val. Return (val OR RX_TASK_SET))"

definition unset_rx_task :: "('a, usize) os_prog" where
  "unset_rx_task =
     bind_prog (fetch_mem os_state (\<lambda>s. s\<lparr>os_state := os_state s AND NOT RX_TASK_SET\<rparr>))
       (\<lambda>val. Return (val AND NOT RX_TASK_SET))"

definition set_tx_task :: "('a, usize) os_prog" where
  "set_tx_task =
     bind_prog (fetch_mem os_state (\<lambda>s. s\<lparr>os_state := os_state s OR TX_TASK_SET\<rparr>))
       (\<lambda>val. Return (val OR TX_TASK_SET))"

definition unset_tx_task :: "('a, usize) os_prog" where
  "unset_tx_task =
     bind_prog (fetch_mem os_state (\<lambda>s. s\<lparr>os_state := os_state s AND NOT TX_TASK_SET\<rparr>))
       (\<lambda>val. Return (val AND NOT TX_TASK_SET))"

text \<open>
  \<open>Task\<close>: reading or dropping a waker that is not there is undefined behaviour, here a failure.
\<close>

definition rx_with_task :: "('a, waker) os_prog" where
  "rx_with_task = Access (\<lambda>s. s) (\<lambda>s. case os_rx_task s of None \<Rightarrow> Fail Uninitialised | Some w \<Rightarrow> Return w)"

definition tx_with_task :: "('a, waker) os_prog" where
  "tx_with_task = Access (\<lambda>s. s) (\<lambda>s. case os_tx_task s of None \<Rightarrow> Fail Uninitialised | Some w \<Rightarrow> Return w)"

definition rx_drop_task :: "('a, unit) os_prog" where
  "rx_drop_task = Access (\<lambda>s. s\<lparr>os_rx_task := None\<rparr>)
     (\<lambda>s. case os_rx_task s of None \<Rightarrow> Fail Uninitialised | Some w \<Rightarrow> Return ())"

definition tx_drop_task :: "('a, unit) os_prog" where
  "tx_drop_task = Access (\<lambda>s. s\<lparr>os_tx_task := None\<rparr>)
     (\<lambda>s. case os_tx_task s of None \<Rightarrow> Fail Uninitialised | Some w \<Rightarrow> Return ())"

definition rx_set_task :: "waker \<Rightarrow> ('a, unit) os_prog" where
  "rx_set_task cx = write_mem (\<lambda>s. s\<lparr>os_rx_task := Some cx\<rparr>)"

definition tx_set_task :: "waker \<Rightarrow> ('a, unit) os_prog" where
  "tx_set_task cx = write_mem (\<lambda>s. s\<lparr>os_tx_task := Some cx\<rparr>)"

definition rx_will_wake :: "waker \<Rightarrow> ('a, bool) os_prog" where
  "rx_will_wake cx = bind_prog rx_with_task (\<lambda>w. Return (w = cx))"

definition tx_will_wake :: "waker \<Rightarrow> ('a, bool) os_prog" where
  "tx_will_wake cx = bind_prog tx_with_task (\<lambda>w. Return (w = cx))"

definition rx_wake :: "waker \<Rightarrow> ('a, unit) os_prog" where
  "rx_wake w = write_mem (\<lambda>s. s\<lparr>os_rx_woken := os_rx_woken s @ [w]\<rparr>)"

definition tx_wake :: "waker \<Rightarrow> ('a, unit) os_prog" where
  "tx_wake w = write_mem (\<lambda>s. s\<lparr>os_tx_woken := os_tx_woken s @ [w]\<rparr>)"

definition consume_value :: "('a, 'a option) os_prog" where
  "consume_value = fetch_mem os_value (\<lambda>s. s\<lparr>os_value := None\<rparr>)"

definition oneshot_channel :: "'a oneshot" where
  "oneshot_channel = \<lparr>os_state = 0, os_value = None, os_tx_task = None, os_rx_task = None,
     os_rx_woken = [], os_tx_woken = [], os_sent = None, os_rx_lent = False, os_tx_lent = False\<rparr>"

section \<open>The operations\<close>

text \<open>\<open>Inner::complete\<close>, \<open>Inner::close\<close> and \<open>Inner::poll_recv\<close>. \<open>Inl ()\<close> is \<open>Err(RecvError)\<close>.\<close>

definition os_complete :: "('a, bool) os_prog" where
  "os_complete =
     bind_prog set_complete (\<lambda>prev.
       if os_is_closed prev then Return False
       else if os_is_rx_task_set prev then
         bind_prog rx_with_task (\<lambda>w. bind_prog (rx_wake w) (\<lambda>_. Return True))
       else Return True)"

definition os_close :: "('a, unit) os_prog" where
  "os_close =
     bind_prog os_set_closed (\<lambda>prev.
       if os_is_tx_task_set prev \<and> \<not> os_is_complete prev then bind_prog tx_with_task tx_wake
       else Return ())"

definition recv_value :: "('a, (unit + 'a) poll) os_prog" where
  "recv_value =
     bind_prog consume_value (\<lambda>r. Return (Ready (case r of Some v \<Rightarrow> Inr v | None \<Rightarrow> Inl ())))"

text \<open>\<open>recv_register\<close> is the end of \<open>poll_recv\<close>, from the last test of the bit on.\<close>

definition recv_register :: "waker \<Rightarrow> usize \<Rightarrow> ('a, (unit + 'a) poll) os_prog" where
  "recv_register cx state =
     (if \<not> os_is_rx_task_set state then
        bind_prog (rx_set_task cx) (\<lambda>_.
        bind_prog set_rx_task (\<lambda>state.
          if os_is_complete state then recv_value else Return Pending))
      else Return Pending)"

definition poll_recv :: "waker \<Rightarrow> ('a, (unit + 'a) poll) os_prog" where
  "poll_recv cx =
     bind_prog os_load (\<lambda>state.
       if os_is_complete state then recv_value
       else if os_is_closed state then Return (Ready (Inl ()))
       else if os_is_rx_task_set state then
         bind_prog (rx_will_wake cx) (\<lambda>will_notify.
           if \<not> will_notify then
             bind_prog unset_rx_task (\<lambda>state.
               if os_is_complete state then bind_prog set_rx_task (\<lambda>_. recv_value)
               else bind_prog rx_drop_task (\<lambda>_. recv_register cx state))
           else recv_register cx state)
       else recv_register cx state)"

text \<open>\<open>Sender\<close>. \<open>Inl v\<close> is \<open>Err(v)\<close>.\<close>

definition oneshot_send :: "'a \<Rightarrow> ('a, 'a + unit) os_prog" where
  "oneshot_send t =
     bind_prog (write_mem (\<lambda>s. s\<lparr>os_value := Some t\<rparr>)) (\<lambda>_.
     bind_prog os_complete (\<lambda>ok.
       if \<not> ok then
         bind_prog consume_value (\<lambda>r. case r of None \<Rightarrow> Fail UnwrapNone | Some v \<Rightarrow> Return (Inl v))
       else Return (Inr ())))"

definition oneshot_is_closed :: "('a, bool) os_prog" where
  "oneshot_is_closed = bind_prog os_load (\<lambda>state. Return (os_is_closed state))"

text \<open>\<open>closed_register\<close> is the end of \<open>poll_closed\<close>, from the last test of the bit on.\<close>

definition closed_register :: "waker \<Rightarrow> usize \<Rightarrow> ('a, unit poll) os_prog" where
  "closed_register cx state =
     (if \<not> os_is_tx_task_set state then
        bind_prog (tx_set_task cx) (\<lambda>_.
        bind_prog set_tx_task (\<lambda>state.
          if os_is_closed state then Return (Ready ()) else Return Pending))
      else Return Pending)"

definition poll_closed :: "waker \<Rightarrow> ('a, unit poll) os_prog" where
  "poll_closed cx =
     bind_prog os_load (\<lambda>state.
       if os_is_closed state then Return (Ready ())
       else if os_is_tx_task_set state then
         bind_prog (tx_will_wake cx) (\<lambda>will_notify.
           if \<not> will_notify then
             bind_prog unset_tx_task (\<lambda>state.
               if os_is_closed state then bind_prog set_tx_task (\<lambda>_. Return (Ready ()))
               else bind_prog tx_drop_task (\<lambda>_. closed_register cx state))
           else closed_register cx state)
       else closed_register cx state)"

definition oneshot_sender_drop :: "('a, unit) os_prog" where
  "oneshot_sender_drop = bind_prog os_complete (\<lambda>_. Return ())"

text \<open>
  \<open>Receiver\<close>. The first argument says whether its \<open>inner\<close> is still there, the answer whether it is
  afterwards. In \<open>try_recv\<close> the value is \<open>Inl True\<close> for \<open>Empty\<close> and \<open>Inl False\<close> for \<open>Closed\<close>.
\<close>

definition receiver_close :: "bool \<Rightarrow> ('a, unit) os_prog" where
  "receiver_close inner = (if inner then os_close else Return ())"

definition oneshot_try_recv :: "bool \<Rightarrow> ('a, (bool + 'a) \<times> bool) os_prog" where
  "oneshot_try_recv inner =
     (if inner then
        bind_prog os_load (\<lambda>state.
          if os_is_complete state then
            bind_prog consume_value (\<lambda>r. Return (case r of Some v \<Rightarrow> Inr v | None \<Rightarrow> Inl False, False))
          else if os_is_closed state then Return (Inl False, False)
          else Return (Inl True, True))
      else Return (Inl False, False))"

definition receiver_poll :: "bool \<Rightarrow> waker \<Rightarrow> ('a, (unit + 'a) poll \<times> bool) os_prog" where
  "receiver_poll inner cx =
     (if inner then
        bind_prog (poll_recv cx) (\<lambda>r. case r of
          Pending \<Rightarrow> Return (Pending, True)
        | Ready (Inl e) \<Rightarrow> Return (Ready (Inl e), True)
        | Ready (Inr v) \<Rightarrow> Return (Ready (Inr v), False))
      else Fail ExplicitPanic)"

definition receiver_drop :: "bool \<Rightarrow> ('a, unit) os_prog" where
  "receiver_drop inner = (if inner then os_close else Return ())"

text \<open>\<open>Drop\<close> of \<open>Inner\<close>, when both halves are gone.\<close>

definition inner_drop :: "('a, unit) os_prog" where
  "inner_drop =
     bind_prog os_load (\<lambda>state.
     bind_prog (if os_is_rx_task_set state then rx_drop_task else Return ()) (\<lambda>_.
       if os_is_tx_task_set state then tx_drop_task else Return ()))"

section \<open>The bits\<close>

lemma os_flag_push:
  "RX_TASK_SET = push_bit 0 1" "VALUE_SENT = push_bit 1 1" "OS_CLOSED = push_bit 2 1" "TX_TASK_SET = push_bit 3 1"
  by (simp_all add: os_flags push_bit_eq_mult)

lemma os_test_bit:
  "os_is_rx_task_set st \<longleftrightarrow> bit st 0" "os_is_complete st \<longleftrightarrow> bit st 1"
  "os_is_closed st \<longleftrightarrow> bit st 2" "os_is_tx_task_set st \<longleftrightarrow> bit st 3"
  unfolding os_tests os_flag_push by (subst flag_test_bit; simp)+

lemma os_test_or [simp]:
  "os_is_rx_task_set (st OR RX_TASK_SET)" "os_is_rx_task_set (st OR VALUE_SENT) = os_is_rx_task_set st"
  "os_is_rx_task_set (st OR OS_CLOSED) = os_is_rx_task_set st" "os_is_rx_task_set (st OR TX_TASK_SET) = os_is_rx_task_set st"
  "os_is_complete (st OR RX_TASK_SET) = os_is_complete st" "os_is_complete (st OR VALUE_SENT)"
  "os_is_complete (st OR OS_CLOSED) = os_is_complete st" "os_is_complete (st OR TX_TASK_SET) = os_is_complete st"
  "os_is_closed (st OR RX_TASK_SET) = os_is_closed st" "os_is_closed (st OR VALUE_SENT) = os_is_closed st"
  "os_is_closed (st OR OS_CLOSED)" "os_is_closed (st OR TX_TASK_SET) = os_is_closed st"
  "os_is_tx_task_set (st OR RX_TASK_SET) = os_is_tx_task_set st" "os_is_tx_task_set (st OR VALUE_SENT) = os_is_tx_task_set st"
  "os_is_tx_task_set (st OR OS_CLOSED) = os_is_tx_task_set st" "os_is_tx_task_set (st OR TX_TASK_SET)"
  unfolding os_test_bit os_flag_push by (subst flag_set_bit; simp)+

lemma os_test_unset [simp]:
  "\<not> os_is_rx_task_set (st AND NOT RX_TASK_SET)" "os_is_rx_task_set (st AND NOT TX_TASK_SET) = os_is_rx_task_set st"
  "os_is_complete (st AND NOT RX_TASK_SET) = os_is_complete st" "os_is_complete (st AND NOT TX_TASK_SET) = os_is_complete st"
  "os_is_closed (st AND NOT RX_TASK_SET) = os_is_closed st" "os_is_closed (st AND NOT TX_TASK_SET) = os_is_closed st"
  "os_is_tx_task_set (st AND NOT RX_TASK_SET) = os_is_tx_task_set st" "\<not> os_is_tx_task_set (st AND NOT TX_TASK_SET)"
  unfolding os_test_bit os_flag_push by (subst flag_clear_bit; simp)+

section \<open>What the two halves rely on\<close>

text \<open>
  The memory is well-formed at every moment: a set bit means a waker is there, a lent waker stays
  until the end, and the cell of a complete channel holds the sent value or was emptied.
\<close>

definition os_inv :: "'a oneshot \<Rightarrow> bool" where
  "os_inv s \<longleftrightarrow>
     (os_is_rx_task_set (os_state s) \<longrightarrow> os_rx_task s \<noteq> None) \<and>
     (os_is_tx_task_set (os_state s) \<longrightarrow> os_tx_task s \<noteq> None) \<and>
     (os_rx_lent s \<longrightarrow> os_is_complete (os_state s) \<and> os_rx_task s \<noteq> None) \<and>
     (os_tx_lent s \<longrightarrow> os_is_closed (os_state s) \<and> os_tx_task s \<noteq> None)"

text \<open>What the sender does, as the receiver sees it.\<close>

definition tx_moves :: "'a oneshot \<Rightarrow> 'a oneshot \<Rightarrow> bool" where
  "tx_moves s s' \<longleftrightarrow>
     (os_inv s \<longrightarrow> os_inv s') \<and>
     os_is_rx_task_set (os_state s') = os_is_rx_task_set (os_state s) \<and> os_rx_task s' = os_rx_task s \<and>
     os_is_closed (os_state s') = os_is_closed (os_state s) \<and>
     (os_is_complete (os_state s) \<longrightarrow>
        os_is_complete (os_state s') \<and> os_value s' = os_value s \<and> os_sent s' = os_sent s \<and> os_rx_lent s' = os_rx_lent s) \<and>
     (\<not> os_is_complete (os_state s) \<and> os_is_complete (os_state s') \<longrightarrow>
        \<not> os_is_closed (os_state s) \<and> os_value s' = os_sent s' \<and> os_rx_lent s' = os_is_rx_task_set (os_state s)) \<and>
     os_tx_lent s' = os_tx_lent s \<and> (os_tx_lent s \<longrightarrow> os_tx_task s' = os_tx_task s) \<and>
     os_tx_woken s' = os_tx_woken s"

text \<open>What the receiver does, as the sender sees it.\<close>

definition rx_moves :: "'a oneshot \<Rightarrow> 'a oneshot \<Rightarrow> bool" where
  "rx_moves s s' \<longleftrightarrow>
     (os_inv s \<longrightarrow> os_inv s') \<and>
     os_is_tx_task_set (os_state s') = os_is_tx_task_set (os_state s) \<and> os_tx_task s' = os_tx_task s \<and>
     os_is_complete (os_state s') = os_is_complete (os_state s) \<and> os_sent s' = os_sent s \<and>
     (\<not> os_is_complete (os_state s) \<longrightarrow> os_value s' = os_value s) \<and>
     (os_is_closed (os_state s) \<longrightarrow> os_is_closed (os_state s')) \<and>
     (os_tx_lent s \<longrightarrow> os_tx_lent s') \<and>
     (os_tx_lent s' \<longrightarrow> os_tx_lent s \<or> os_is_tx_task_set (os_state s)) \<and>
     (\<not> os_is_closed (os_state s) \<and> os_is_closed (os_state s') \<and> \<not> os_is_complete (os_state s) \<and>
        os_is_tx_task_set (os_state s) \<longrightarrow> os_tx_lent s') \<and>
     os_rx_lent s' = os_rx_lent s \<and> (os_rx_lent s \<longrightarrow> os_rx_task s' = os_rx_task s) \<and>
     os_rx_woken s' = os_rx_woken s"

lemma tx_moves_refl [simp]: "tx_moves s s"
  by (simp add: tx_moves_def)

lemma rx_moves_refl [simp]: "rx_moves s s"
  by (auto simp: rx_moves_def)

lemma tx_moves_trans: "tx_moves s t \<Longrightarrow> tx_moves t w \<Longrightarrow> tx_moves s w"
  unfolding tx_moves_def by (elim conjE, intro conjI) (simp; fail | metis)+

lemma rx_moves_trans: "rx_moves s t \<Longrightarrow> rx_moves t w \<Longrightarrow> rx_moves s w"
  unfolding rx_moves_def by (elim conjE, intro conjI) (simp; fail | blast | metis)+

interpretation os: two_threads rx_moves tx_moves
  by unfold_locales (auto intro: tx_moves_trans rx_moves_trans)

abbreviation tx_safe :: "('r \<Rightarrow> 'a oneshot \<Rightarrow> bool) \<Rightarrow> ('a, 'r) os_prog \<Rightarrow> 'a oneshot \<Rightarrow> bool" where
  "tx_safe \<equiv> safe rx_moves tx_moves"

abbreviation rx_safe :: "('r \<Rightarrow> 'a oneshot \<Rightarrow> bool) \<Rightarrow> ('a, 'r) os_prog \<Rightarrow> 'a oneshot \<Rightarrow> bool" where
  "rx_safe \<equiv> safe tx_moves rx_moves"

lemma rx_moves_closed: "os_is_closed (os_state s) \<Longrightarrow> rx_moves s s' \<Longrightarrow> os_is_closed (os_state s')"
  by (simp add: rx_moves_def)

section \<open>The sender\<close>

text \<open>
  Between its operations the sender has not completed the channel, owns its waker cell and the value
  cell (which holds \<open>v\<close>), and no
  receiver's waker was lent to it.
\<close>

definition tx_idle :: "'a option \<Rightarrow> 'a oneshot \<Rightarrow> bool" where
  "tx_idle v s \<longleftrightarrow> os_inv s \<and> os_value s = v \<and> \<not> os_is_complete (os_state s) \<and> \<not> os_rx_lent s \<and>
     (os_is_tx_task_set (os_state s) \<longleftrightarrow> os_tx_task s \<noteq> None)"

lemma tx_idle_stable: "stable rx_moves (tx_idle v)"
  by (rule stableI) (simp add: tx_idle_def rx_moves_def)

text \<open>A sender that waits in \<open>closed\<close> with \<open>cx\<close>: its waker is there, and lent once the channel is closed.\<close>

definition tx_waits :: "waker \<Rightarrow> 'a oneshot \<Rightarrow> bool" where
  "tx_waits cx s \<longleftrightarrow> os_tx_task s = Some cx \<and> os_is_tx_task_set (os_state s) \<and>
     (os_is_closed (os_state s) \<longrightarrow> os_tx_lent s)"

definition closed_answer :: "'a option \<Rightarrow> waker \<Rightarrow> unit poll \<Rightarrow> 'a oneshot \<Rightarrow> bool" where
  "closed_answer v cx r s \<longleftrightarrow> tx_idle v s \<and>
     (case r of Pending \<Rightarrow> tx_waits cx s | Ready _ \<Rightarrow> os_is_closed (os_state s))"

lemma closed_answer_stable: "stable rx_moves (closed_answer v cx r)"
  by (rule stableI, cases r) (auto simp: closed_answer_def tx_waits_def tx_idle_def rx_moves_def)

text \<open>The stages of a poll of \<open>closed\<close>.\<close>

definition tx_unset :: "'a option \<Rightarrow> 'a oneshot \<Rightarrow> bool" where
  "tx_unset v s \<longleftrightarrow> os_inv s \<and> os_value s = v \<and> \<not> os_is_complete (os_state s) \<and> \<not> os_rx_lent s \<and> \<not> os_is_tx_task_set (os_state s)"

lemma tx_stages_stable:
  "stable rx_moves (\<lambda>s. tx_unset v s \<and> \<not> os_tx_lent s \<and> os_tx_task s = c)"
  "stable rx_moves (\<lambda>s. tx_unset v s \<and> os_is_closed (os_state s) \<and> os_tx_task s = c)"
  "stable rx_moves (\<lambda>s. tx_idle v s \<and> os_tx_task s = c)"
  "stable rx_moves (\<lambda>s. tx_idle v s \<and> os_is_closed (os_state s))"
  by (rule stableI; simp add: tx_unset_def tx_idle_def rx_moves_def)+

lemma closed_register_safe:
  assumes "tx_unset v s" "\<not> os_tx_lent s" "os_tx_task s = None" "\<not> os_is_tx_task_set state"
  shows "tx_safe (closed_answer v cx) (closed_register cx state) s"
  unfolding closed_register_def tx_set_task_def set_tx_task_def prog_defs bind_prog.simps if_P [OF assms(4)]
proof (rule safe_access [OF _ tx_stages_stable(1) [where c = None]])
  fix s :: "'a oneshot"
  assume s: "tx_unset v s \<and> \<not> os_tx_lent s \<and> os_tx_task s = None"
  then show "tx_moves s (s\<lparr>os_tx_task := Some cx\<rparr>)"
    by (auto simp: tx_moves_def os_inv_def)
  show "tx_safe (closed_answer v cx)
     (Access (\<lambda>s. s\<lparr>os_state := os_state s OR TX_TASK_SET\<rparr>)
       (\<lambda>s. if os_is_closed (os_state s OR TX_TASK_SET) then Return (Ready ()) else Return Pending))
     (s\<lparr>os_tx_task := Some cx\<rparr>)"
  proof (rule safe_access [OF _ tx_stages_stable(1) [where c = "Some cx"]])
    show "tx_unset v (s\<lparr>os_tx_task := Some cx\<rparr>) \<and> \<not> os_tx_lent (s\<lparr>os_tx_task := Some cx\<rparr>) \<and>
        os_tx_task (s\<lparr>os_tx_task := Some cx\<rparr>) = Some cx"
      using s by (auto simp: tx_unset_def os_inv_def)
  next
    fix s :: "'a oneshot"
    assume s: "tx_unset v s \<and> \<not> os_tx_lent s \<and> os_tx_task s = Some cx"
    then show "tx_moves s (s\<lparr>os_state := os_state s OR TX_TASK_SET\<rparr>)"
      by (auto simp: tx_moves_def os_inv_def)
    have "closed_answer v cx (if os_is_closed (os_state s) then Ready () else Pending)
        (s\<lparr>os_state := os_state s OR TX_TASK_SET\<rparr>)"
      using s by (auto simp: closed_answer_def tx_idle_def tx_unset_def tx_waits_def os_inv_def)
    then show "tx_safe (closed_answer v cx)
       (if os_is_closed (os_state s OR TX_TASK_SET) then Return (Ready ()) else Return Pending)
       (s\<lparr>os_state := os_state s OR TX_TASK_SET\<rparr>)"
      by (auto dest: stableD [OF closed_answer_stable])
  qed
qed (use assms in auto)

lemma closed_undo_safe:
  assumes "tx_unset v s" "os_is_closed (os_state s)" "os_tx_task s = Some c"
  shows "tx_safe (closed_answer v cx) (bind_prog set_tx_task (\<lambda>_. Return (Ready ()))) s"
  unfolding set_tx_task_def prog_defs bind_prog.simps
proof (rule safe_access [OF _ tx_stages_stable(2) [where c = "Some c"]])
  fix s :: "'a oneshot"
  assume s: "tx_unset v s \<and> os_is_closed (os_state s) \<and> os_tx_task s = Some c"
  then show "tx_moves s (s\<lparr>os_state := os_state s OR TX_TASK_SET\<rparr>)"
    by (auto simp: tx_moves_def os_inv_def)
  from s have "closed_answer v cx (Ready ()) (s\<lparr>os_state := os_state s OR TX_TASK_SET\<rparr>)"
    by (auto simp: closed_answer_def tx_idle_def tx_unset_def os_inv_def)
  then show "tx_safe (closed_answer v cx) (Return (Ready ())) (s\<lparr>os_state := os_state s OR TX_TASK_SET\<rparr>)"
    by (auto dest: stableD [OF closed_answer_stable])
qed (use assms in auto)

lemma closed_replace_safe:
  assumes "tx_unset v s" "\<not> os_tx_lent s" "os_tx_task s = Some c" "\<not> os_is_tx_task_set state"
  shows "tx_safe (closed_answer v cx) (bind_prog tx_drop_task (\<lambda>_. closed_register cx state)) s"
  unfolding tx_drop_task_def bind_prog.simps
proof (rule safe_access [OF _ tx_stages_stable(1) [where c = "Some c"]])
  fix s :: "'a oneshot"
  assume s: "tx_unset v s \<and> \<not> os_tx_lent s \<and> os_tx_task s = Some c"
  then show "tx_moves s (s\<lparr>os_tx_task := None\<rparr>)"
    by (auto simp: tx_moves_def os_inv_def tx_unset_def)
  from s assms(4) show "tx_safe (closed_answer v cx)
     (bind_prog (case os_tx_task s of None \<Rightarrow> Fail Uninitialised | Some w \<Rightarrow> Return ()) (\<lambda>_. closed_register cx state))
     (s\<lparr>os_tx_task := None\<rparr>)"
    by (auto intro!: closed_register_safe simp: tx_unset_def os_inv_def)
qed (use assms in auto)

lemma tx_waits_stable: "stable rx_moves (\<lambda>s. tx_idle v s \<and> tx_waits cx s)"
  by (rule stableI) (auto simp: tx_waits_def tx_idle_def rx_moves_def)

lemma closed_change_safe:
  assumes "tx_idle v s" "tx_waits c s"
  shows "tx_safe (closed_answer v cx)
     (bind_prog unset_tx_task (\<lambda>state.
        if os_is_closed state then bind_prog set_tx_task (\<lambda>_. Return (Ready ()))
        else bind_prog tx_drop_task (\<lambda>_. closed_register cx state))) s"
  unfolding unset_tx_task_def prog_defs bind_prog.simps
proof (rule safe_access [OF _ tx_waits_stable [where cx = c]])
  fix s :: "'a oneshot"
  let ?s = "s\<lparr>os_state := os_state s AND NOT TX_TASK_SET\<rparr>"
  assume s: "tx_idle v s \<and> tx_waits c s"
  then show "tx_moves s ?s"
    by (auto simp: tx_moves_def os_inv_def)
  have st: "tx_unset v ?s" "os_tx_task ?s = Some c" "\<not> os_is_closed (os_state s) \<longrightarrow> \<not> os_tx_lent ?s"
    using s by (auto simp: tx_unset_def tx_idle_def tx_waits_def os_inv_def)
  show "tx_safe (closed_answer v cx)
     (if os_is_closed (os_state s AND NOT TX_TASK_SET) then bind_prog set_tx_task (\<lambda>_. Return (Ready ()))
      else bind_prog tx_drop_task (\<lambda>_. closed_register cx (os_state s AND NOT TX_TASK_SET))) ?s"
    using closed_undo_safe [OF st(1) _ st(2)] closed_replace_safe [OF st(1) _ st(2)] st(3) by simp
qed (use assms in auto)

lemma poll_closed_safe:
  assumes "tx_idle v s"
  shows "tx_safe (closed_answer v cx) (poll_closed cx) s"
  unfolding poll_closed_def os_load_def read_mem_def bind_prog.simps
proof (rule safe_access [OF assms tx_idle_stable])
  fix s :: "'a oneshot"
  assume s: "tx_idle v s"
  show "tx_moves s s" by simp
  consider (closed) "os_is_closed (os_state s)"
    | (unset) "\<not> os_is_closed (os_state s)" "\<not> os_is_tx_task_set (os_state s)"
    | (set) c where "\<not> os_is_closed (os_state s)" "os_is_tx_task_set (os_state s)" "tx_waits c s"
    using s by (auto simp: tx_idle_def tx_waits_def)
  then show "tx_safe (closed_answer v cx)
     (if os_is_closed (os_state s) then Return (Ready ())
      else if os_is_tx_task_set (os_state s) then
        bind_prog (tx_will_wake cx) (\<lambda>will_notify.
          if \<not> will_notify then
            bind_prog unset_tx_task (\<lambda>state.
              if os_is_closed state then bind_prog set_tx_task (\<lambda>_. Return (Ready ()))
              else bind_prog tx_drop_task (\<lambda>_. closed_register cx state))
          else closed_register cx (os_state s))
      else closed_register cx (os_state s)) s"
  proof cases
    case closed
    then have "closed_answer v cx (Ready ()) s" using s by (simp add: closed_answer_def)
    with closed show ?thesis by (auto dest: stableD [OF closed_answer_stable])
  next
    case unset
    with s show ?thesis
      by (auto intro!: closed_register_safe simp: tx_idle_def tx_unset_def os_inv_def)
  next
    case (set c)
    have "tx_safe (closed_answer v cx)
       (bind_prog (tx_will_wake cx) (\<lambda>will_notify.
          if \<not> will_notify then
            bind_prog unset_tx_task (\<lambda>state.
              if os_is_closed state then bind_prog set_tx_task (\<lambda>_. Return (Ready ()))
              else bind_prog tx_drop_task (\<lambda>_. closed_register cx state))
          else closed_register cx (os_state s))) s"
      unfolding tx_will_wake_def tx_with_task_def bind_prog.simps
    proof (rule safe_access [OF _ tx_waits_stable [where cx = c]])
      fix s' :: "'a oneshot"
      assume s': "tx_idle v s' \<and> tx_waits c s'"
      show "tx_moves s' s'" by simp
      have "closed_answer v cx Pending s'" if "c = cx"
        using s' that by (simp add: closed_answer_def)
      then have "tx_safe (closed_answer v cx) (Return Pending) s'" if "c = cx"
        using that by (auto dest: stableD [OF closed_answer_stable])
      with s' set(2) closed_change_safe [of v s' c cx] show "tx_safe (closed_answer v cx)
         (bind_prog (bind_prog (case os_tx_task s' of None \<Rightarrow> Fail Uninitialised | Some w \<Rightarrow> Return w) (\<lambda>w. Return (w = cx)))
           (\<lambda>will_notify.
              if \<not> will_notify then
                bind_prog unset_tx_task (\<lambda>state.
                  if os_is_closed state then bind_prog set_tx_task (\<lambda>_. Return (Ready ()))
                  else bind_prog tx_drop_task (\<lambda>_. closed_register cx state))
              else closed_register cx (os_state s))) s'"
        by (auto simp: tx_waits_def closed_register_def)
    qed (use s set in auto)
    with set show ?thesis by simp
  qed
qed

text \<open>
  Completing the channel ends the sender's use of the memory. The answer says whether the channel was
  open; the waker lent by the receiver has been woken.
\<close>

definition tx_done :: "bool \<Rightarrow> 'a option \<Rightarrow> 'a oneshot \<Rightarrow> bool" where
  "tx_done ok v s \<longleftrightarrow> os_inv s \<and> (os_is_tx_task_set (os_state s) \<longleftrightarrow> os_tx_task s \<noteq> None) \<and>
     (if ok then os_is_complete (os_state s) \<and> os_sent s = v
      else \<not> os_is_complete (os_state s) \<and> os_is_closed (os_state s) \<and> \<not> os_rx_lent s) \<and>
     (os_rx_lent s \<longrightarrow> (\<exists>w. os_rx_task s = Some w \<and> w \<in> set (os_rx_woken s)))"

lemma tx_done_stable: "stable rx_moves (tx_done ok v)"
  by (rule stableI) (auto simp: tx_done_def rx_moves_def)

definition tx_lending :: "'a option \<Rightarrow> waker \<Rightarrow> 'a oneshot \<Rightarrow> bool" where
  "tx_lending v w s \<longleftrightarrow> os_inv s \<and> (os_is_tx_task_set (os_state s) \<longleftrightarrow> os_tx_task s \<noteq> None) \<and>
     os_is_complete (os_state s) \<and> os_sent s = v \<and> os_rx_lent s \<and> os_rx_task s = Some w"

lemma tx_lending_stable:
  "stable rx_moves (tx_lending v w)" "stable rx_moves (\<lambda>s. tx_idle v s)"
  "stable rx_moves (\<lambda>s. tx_done False v' s \<and> os_value s = v)"
  by (rule stableI; simp add: tx_lending_def tx_idle_def tx_done_def rx_moves_def)+

lemma complete_wake_safe:
  assumes "tx_lending v w s"
  shows "tx_safe (\<lambda>ok s. ok \<and> tx_done True v s) (bind_prog rx_with_task (\<lambda>w. bind_prog (rx_wake w) (\<lambda>_. Return True))) s"
  unfolding rx_with_task_def rx_wake_def write_mem_def bind_prog.simps
proof (rule safe_access [OF assms tx_lending_stable(1)])
  fix s :: "'a oneshot"
  assume s: "tx_lending v w s"
  show "tx_moves s s" by simp
  have "tx_safe (\<lambda>ok s. ok \<and> tx_done True v s)
     (Access (\<lambda>s. s\<lparr>os_rx_woken := os_rx_woken s @ [w]\<rparr>) (\<lambda>_. Return True)) s"
  proof (rule safe_access [OF s tx_lending_stable(1)])
    fix s :: "'a oneshot"
    assume s: "tx_lending v w s"
    then show "tx_moves s (s\<lparr>os_rx_woken := os_rx_woken s @ [w]\<rparr>)"
      by (auto simp: tx_moves_def os_inv_def)
    from s have "tx_done True v (s\<lparr>os_rx_woken := os_rx_woken s @ [w]\<rparr>)"
      by (auto simp: tx_done_def tx_lending_def os_inv_def)
    then show "tx_safe (\<lambda>ok s. ok \<and> tx_done True v s) (Return True) (s\<lparr>os_rx_woken := os_rx_woken s @ [w]\<rparr>)"
      by (auto dest: stableD [OF tx_done_stable])
  qed
  with s show "tx_safe (\<lambda>ok s. ok \<and> tx_done True v s)
     (bind_prog (case os_rx_task s of None \<Rightarrow> Fail Uninitialised | Some w \<Rightarrow> Return w)
       (\<lambda>w. Access (\<lambda>s. s\<lparr>os_rx_woken := os_rx_woken s @ [w]\<rparr>) (\<lambda>s. Return True))) s"
    by (simp add: tx_lending_def)
qed

lemma os_complete_safe:
  assumes "tx_idle v s"
  shows "tx_safe (\<lambda>ok s. tx_done ok v s \<and> (\<not> ok \<longrightarrow> os_value s = v)) os_complete s"
  unfolding os_complete_def set_complete_def fetch_mem_def bind_prog.simps
proof (rule safe_access [OF _ tx_lending_stable(2)])
  fix s :: "'a oneshot"
  let ?s = "if os_is_closed (os_state s) then s
    else s\<lparr>os_state := os_state s OR VALUE_SENT, os_sent := os_value s, os_rx_lent := os_is_rx_task_set (os_state s)\<rparr>"
  assume s: "tx_idle v s"
  then show "tx_moves s ?s"
    by (auto simp: tx_moves_def os_inv_def tx_idle_def)
  consider (closed) "os_is_closed (os_state s)"
    | (waiting) w where "\<not> os_is_closed (os_state s)" "os_is_rx_task_set (os_state s)" "tx_lending v w ?s"
    | (free) "\<not> os_is_closed (os_state s)" "\<not> os_is_rx_task_set (os_state s)" "tx_done True v ?s"
    using s by (auto simp: tx_idle_def tx_lending_def tx_done_def os_inv_def)
  then show "tx_safe (\<lambda>ok s. tx_done ok v s \<and> (\<not> ok \<longrightarrow> os_value s = v))
     (if os_is_closed (os_state s) then Return False
      else if os_is_rx_task_set (os_state s) then bind_prog rx_with_task (\<lambda>w. bind_prog (rx_wake w) (\<lambda>_. Return True))
      else Return True) ?s"
  proof cases
    case closed
    then have "tx_done False v s \<and> os_value s = v"
      using s by (auto simp: tx_idle_def tx_done_def)
    then have "tx_safe (\<lambda>ok s. tx_done ok v s \<and> (\<not> ok \<longrightarrow> os_value s = v)) (Return False) s"
      by (rule safe_return [OF _ tx_lending_stable(3)]) simp
    with closed show ?thesis by simp
  next
    case waiting
    then show ?thesis by (auto intro: safe_mono [OF complete_wake_safe])
  next
    case free
    then show ?thesis by (auto dest: stableD [OF tx_done_stable])
  qed
qed (use assms in auto)

text \<open>What \<open>send\<close> and the drop of the sender answer.\<close>

definition send_answer :: "'a \<Rightarrow> 'a + unit \<Rightarrow> 'a oneshot \<Rightarrow> bool" where
  "send_answer t r s \<longleftrightarrow> (case r of Inl v \<Rightarrow> v = t \<and> tx_done False None s | Inr _ \<Rightarrow> tx_done True (Some t) s)"

lemma send_answer_stable: "stable rx_moves (send_answer t r)"
  using tx_done_stable by (cases r) (auto simp: send_answer_def stable_def)

lemma oneshot_send_safe:
  assumes "tx_idle v s"
  shows "tx_safe (send_answer t) (oneshot_send t) s"
  unfolding oneshot_send_def write_mem_def bind_prog.simps
proof (rule safe_access [OF assms tx_idle_stable])
  fix s :: "'a oneshot"
  assume s: "tx_idle v s"
  then show "tx_moves s (s\<lparr>os_value := Some t\<rparr>)"
    by (auto simp: tx_moves_def os_inv_def tx_idle_def)
  have "tx_idle (Some t) (s\<lparr>os_value := Some t\<rparr>)"
    using s by (auto simp: tx_idle_def os_inv_def)
  then have "tx_safe (send_answer t)
     (bind_prog os_complete (\<lambda>ok.
        if \<not> ok then bind_prog consume_value (\<lambda>r. case r of None \<Rightarrow> Fail UnwrapNone | Some v \<Rightarrow> Return (Inl v))
        else Return (Inr ()))) (s\<lparr>os_value := Some t\<rparr>)"
  proof (rule safe_bind [OF os_complete_safe])
    fix ok and s' :: "'a oneshot"
    assume s': "tx_done ok (Some t) s' \<and> (\<not> ok \<longrightarrow> os_value s' = Some t)"
    have "tx_safe (send_answer t) (bind_prog consume_value
        (\<lambda>r. case r of None \<Rightarrow> Fail UnwrapNone | Some v \<Rightarrow> Return (Inl v))) s'" if "\<not> ok"
      unfolding consume_value_def fetch_mem_def bind_prog.simps
    proof (rule safe_access [OF _ tx_lending_stable(3) [where v = "Some t"]])
      show "tx_done False (Some t) s' \<and> os_value s' = Some t" using s' that by simp
    next
      fix s :: "'a oneshot"
      assume s: "tx_done False (Some t) s \<and> os_value s = Some t"
      then show "tx_moves s (s\<lparr>os_value := None\<rparr>)"
        by (auto simp: tx_moves_def os_inv_def tx_done_def)
      from s have "send_answer t (Inl t) (s\<lparr>os_value := None\<rparr>)"
        by (auto simp: send_answer_def tx_done_def os_inv_def)
      with s show "tx_safe (send_answer t) (case os_value s of None \<Rightarrow> Fail UnwrapNone | Some v \<Rightarrow> Return (Inl v))
         (s\<lparr>os_value := None\<rparr>)"
        by (auto dest: stableD [OF send_answer_stable])
    qed
    moreover have "tx_safe (send_answer t) (Return (Inr ())) s'" if ok
      using s' that by (auto simp: send_answer_def dest: stableD [OF tx_done_stable])
    ultimately show "tx_safe (send_answer t)
       (if \<not> ok then bind_prog consume_value (\<lambda>r. case r of None \<Rightarrow> Fail UnwrapNone | Some v \<Rightarrow> Return (Inl v))
        else Return (Inr ())) s'"
      by simp
  qed simp
  then show "tx_safe (send_answer t)
     (bind_prog os_complete (\<lambda>ok.
        if \<not> ok then bind_prog consume_value (\<lambda>r. case r of None \<Rightarrow> Fail UnwrapNone | Some v \<Rightarrow> Return (Inl v))
        else Return (Inr ()))) (s\<lparr>os_value := Some t\<rparr>)" .
qed

section \<open>The receiver\<close>

text \<open>
  Between its operations the receiver owns its waker cell, has woken the sender if it was lent the
  sender's waker, and a complete channel holds the sent value unless it was received (\<open>got\<close>).
\<close>

definition rx_base :: "'a option \<Rightarrow> 'a oneshot \<Rightarrow> bool" where
  "rx_base got s \<longleftrightarrow> os_inv s \<and>
     (os_tx_lent s \<longrightarrow> (\<exists>w. os_tx_task s = Some w \<and> w \<in> set (os_tx_woken s))) \<and>
     (os_is_complete (os_state s) \<longrightarrow> os_value s = (if got = None then os_sent s else None)) \<and>
     (got \<noteq> None \<longrightarrow> os_is_complete (os_state s) \<and> os_sent s = got)"

definition rx_idle :: "'a option \<Rightarrow> 'a oneshot \<Rightarrow> bool" where
  "rx_idle got s \<longleftrightarrow> rx_base got s \<and> (os_is_rx_task_set (os_state s) \<longleftrightarrow> os_rx_task s \<noteq> None)"

definition rx_waits :: "waker \<Rightarrow> 'a oneshot \<Rightarrow> bool" where
  "rx_waits cx s \<longleftrightarrow> os_rx_task s = Some cx \<and> os_is_rx_task_set (os_state s) \<and>
     (os_is_complete (os_state s) \<longrightarrow> os_rx_lent s)"

text \<open>No value comes any more: the sender was dropped, or the channel closed before it sent.\<close>

definition no_value :: "'a oneshot \<Rightarrow> bool" where
  "no_value s \<longleftrightarrow> (os_is_complete (os_state s) \<and> os_sent s = None) \<or>
     (os_is_closed (os_state s) \<and> \<not> os_is_complete (os_state s))"

lemma rx_base_stable: "stable tx_moves (rx_base got)"
  by (rule stableI) (auto simp: rx_base_def tx_moves_def)

lemma rx_stableI:
  assumes "\<And>s s'. rx_base got s \<Longrightarrow> A s \<Longrightarrow> tx_moves s s' \<Longrightarrow>
      (os_rx_lent s' \<Longrightarrow> os_is_complete (os_state s')) \<Longrightarrow> A s'"
  shows "stable tx_moves (\<lambda>s. rx_base got s \<and> A s)"
proof (rule stableI)
  fix s s' :: "'a oneshot"
  assume s: "rx_base got s \<and> A s" and move: "tx_moves s s'"
  with rx_base_stable have base: "rx_base got s'" by (blast dest: stableD)
  then have "os_rx_lent s' \<longrightarrow> os_is_complete (os_state s')"
    by (simp add: rx_base_def os_inv_def)
  with assms s move base show "rx_base got s' \<and> A s'" by blast
qed

lemma rx_stages_stable:
  "stable tx_moves (\<lambda>s. rx_idle got s)"
  "stable tx_moves (\<lambda>s. rx_idle got s \<and> rx_waits cx s)"
  "stable tx_moves (\<lambda>s. rx_idle got s \<and> no_value s)"
  "stable tx_moves (\<lambda>s. rx_idle got s \<and> os_is_complete (os_state s))"
  "stable tx_moves (\<lambda>s. rx_base got s \<and> \<not> os_is_rx_task_set (os_state s) \<and> \<not> os_rx_lent s \<and> os_rx_task s = c)"
  "stable tx_moves (\<lambda>s. rx_base got s \<and> \<not> os_is_rx_task_set (os_state s) \<and> os_is_complete (os_state s) \<and> os_rx_task s = c)"
  unfolding rx_idle_def rx_waits_def no_value_def conj_assoc
  by (rule rx_stableI; auto simp: tx_moves_def)+

definition recv_answer :: "waker \<Rightarrow> (unit + 'a) poll \<Rightarrow> 'a oneshot \<Rightarrow> bool" where
  "recv_answer cx r s \<longleftrightarrow>
     (case r of Pending \<Rightarrow> rx_idle None s \<and> rx_waits cx s
      | Ready (Inl _) \<Rightarrow> rx_idle None s \<and> no_value s
      | Ready (Inr v) \<Rightarrow> rx_idle (Some v) s)"

lemma recv_answer_stable: "stable tx_moves (recv_answer cx r)"
proof (cases r)
  case Pending
  then show ?thesis using rx_stages_stable(2) by (simp add: recv_answer_def [abs_def])
next
  case (Ready x)
  then show ?thesis using rx_stages_stable(1, 3) by (cases x) (simp_all add: recv_answer_def [abs_def])
qed

lemma consume_value_safe:
  assumes "rx_idle None s" "os_is_complete (os_state s)"
  shows "rx_safe (\<lambda>r s. case r of None \<Rightarrow> rx_idle None s \<and> no_value s | Some v \<Rightarrow> rx_idle (Some v) s) consume_value s"
  unfolding consume_value_def fetch_mem_def
proof (rule safe_access [OF _ rx_stages_stable(4) [where got = None]])
  fix s :: "'a oneshot"
  assume s: "rx_idle None s \<and> os_is_complete (os_state s)"
  then show "rx_moves s (s\<lparr>os_value := None\<rparr>)"
    by (auto simp: rx_moves_def os_inv_def)
  show "rx_safe (\<lambda>r s. case r of None \<Rightarrow> rx_idle None s \<and> no_value s | Some v \<Rightarrow> rx_idle (Some v) s)
     (Return (os_value s)) (s\<lparr>os_value := None\<rparr>)"
  proof (cases "os_value s")
    case None
    with s have "rx_idle None (s\<lparr>os_value := None\<rparr>) \<and> no_value (s\<lparr>os_value := None\<rparr>)"
      by (auto simp: rx_idle_def rx_base_def no_value_def os_inv_def)
    with None show ?thesis by (intro safe_return [OF _ rx_stages_stable(3)]) simp_all
  next
    case (Some v)
    with s have "rx_idle (Some v) (s\<lparr>os_value := None\<rparr>)"
      by (auto simp: rx_idle_def rx_base_def os_inv_def)
    with Some show ?thesis by (intro safe_return [OF _ rx_stages_stable(1)]) simp_all
  qed
qed (use assms in auto)

lemma recv_value_safe:
  assumes "rx_idle None s" "os_is_complete (os_state s)"
  shows "rx_safe (recv_answer cx) recv_value s"
  unfolding recv_value_def
proof (rule safe_bind [OF consume_value_safe [OF assms]])
  fix r and s' :: "'a oneshot"
  assume "case r of None \<Rightarrow> rx_idle None s' \<and> no_value s' | Some v \<Rightarrow> rx_idle (Some v) s'"
  then have "recv_answer cx (Ready (case r of Some v \<Rightarrow> Inr v | None \<Rightarrow> Inl ())) s'"
    by (auto simp: recv_answer_def split: option.splits)
  then show "rx_safe (recv_answer cx) (Return (Ready (case r of Some v \<Rightarrow> Inr v | None \<Rightarrow> Inl ()))) s'"
    by (rule safe_return [OF _ recv_answer_stable])
qed simp

lemma recv_register_safe:
  assumes "rx_base None s" "\<not> os_is_rx_task_set (os_state s)" "\<not> os_rx_lent s" "os_rx_task s = None"
    and "\<not> os_is_rx_task_set state"
  shows "rx_safe (recv_answer cx) (recv_register cx state) s"
  unfolding recv_register_def rx_set_task_def set_rx_task_def prog_defs bind_prog.simps if_P [OF assms(5)]
proof (rule safe_access [OF _ rx_stages_stable(5) [where got = None and c = None]])
  fix s :: "'a oneshot"
  assume s: "rx_base None s \<and> \<not> os_is_rx_task_set (os_state s) \<and> \<not> os_rx_lent s \<and> os_rx_task s = None"
  then show "rx_moves s (s\<lparr>os_rx_task := Some cx\<rparr>)"
    by (auto simp: rx_moves_def os_inv_def)
  show "rx_safe (recv_answer cx)
     (Access (\<lambda>s. s\<lparr>os_state := os_state s OR RX_TASK_SET\<rparr>)
       (\<lambda>s. if os_is_complete (os_state s OR RX_TASK_SET) then recv_value else Return Pending))
     (s\<lparr>os_rx_task := Some cx\<rparr>)"
  proof (rule safe_access [OF _ rx_stages_stable(5) [where got = None and c = "Some cx"]])
    show "rx_base None (s\<lparr>os_rx_task := Some cx\<rparr>) \<and> \<not> os_is_rx_task_set (os_state (s\<lparr>os_rx_task := Some cx\<rparr>)) \<and>
        \<not> os_rx_lent (s\<lparr>os_rx_task := Some cx\<rparr>) \<and> os_rx_task (s\<lparr>os_rx_task := Some cx\<rparr>) = Some cx"
      using s by (auto simp: rx_base_def os_inv_def)
  next
    fix s :: "'a oneshot"
    let ?s = "s\<lparr>os_state := os_state s OR RX_TASK_SET\<rparr>"
    assume s: "rx_base None s \<and> \<not> os_is_rx_task_set (os_state s) \<and> \<not> os_rx_lent s \<and> os_rx_task s = Some cx"
    then show "rx_moves s ?s"
      by (auto simp: rx_moves_def os_inv_def)
    have idle: "rx_idle None ?s"
      using s by (auto simp: rx_idle_def rx_base_def os_inv_def)
    have "recv_answer cx Pending ?s" if "\<not> os_is_complete (os_state s)"
      using s idle that by (auto simp: recv_answer_def rx_waits_def)
    then have "rx_safe (recv_answer cx) (Return Pending) ?s" if "\<not> os_is_complete (os_state s)"
      using that by (intro safe_return [OF _ recv_answer_stable])
    with recv_value_safe [OF idle] show "rx_safe (recv_answer cx)
       (if os_is_complete (os_state s OR RX_TASK_SET) then recv_value else Return Pending) ?s"
      by simp
  qed
qed (use assms in auto)

lemma recv_undo_safe:
  assumes "rx_base None s" "\<not> os_is_rx_task_set (os_state s)" "os_is_complete (os_state s)" "os_rx_task s = Some c"
  shows "rx_safe (recv_answer cx) (bind_prog set_rx_task (\<lambda>_. recv_value)) s"
  unfolding set_rx_task_def prog_defs bind_prog.simps
proof (rule safe_access [OF _ rx_stages_stable(6) [where got = None and c = "Some c"]])
  fix s :: "'a oneshot"
  let ?s = "s\<lparr>os_state := os_state s OR RX_TASK_SET\<rparr>"
  assume s: "rx_base None s \<and> \<not> os_is_rx_task_set (os_state s) \<and> os_is_complete (os_state s) \<and> os_rx_task s = Some c"
  then show "rx_moves s ?s"
    by (auto simp: rx_moves_def os_inv_def)
  from s show "rx_safe (recv_answer cx) recv_value ?s"
    by (intro recv_value_safe) (auto simp: rx_idle_def rx_base_def os_inv_def)
qed (use assms in auto)

lemma recv_replace_safe:
  assumes "rx_base None s" "\<not> os_is_rx_task_set (os_state s)" "\<not> os_rx_lent s" "os_rx_task s = Some c"
    and "\<not> os_is_rx_task_set state"
  shows "rx_safe (recv_answer cx) (bind_prog rx_drop_task (\<lambda>_. recv_register cx state)) s"
  unfolding rx_drop_task_def bind_prog.simps
proof (rule safe_access [OF _ rx_stages_stable(5) [where got = None and c = "Some c"]])
  fix s :: "'a oneshot"
  assume s: "rx_base None s \<and> \<not> os_is_rx_task_set (os_state s) \<and> \<not> os_rx_lent s \<and> os_rx_task s = Some c"
  then show "rx_moves s (s\<lparr>os_rx_task := None\<rparr>)"
    by (auto simp: rx_moves_def os_inv_def)
  from s have "rx_safe (recv_answer cx) (recv_register cx state) (s\<lparr>os_rx_task := None\<rparr>)"
    using assms(5) by (intro recv_register_safe) (auto simp: rx_base_def os_inv_def)
  with s show "rx_safe (recv_answer cx)
     (bind_prog (case os_rx_task s of None \<Rightarrow> Fail Uninitialised | Some w \<Rightarrow> Return ()) (\<lambda>_. recv_register cx state))
     (s\<lparr>os_rx_task := None\<rparr>)"
    by simp
qed (use assms in auto)

lemma recv_change_safe:
  assumes "rx_idle None s" "rx_waits c s"
  shows "rx_safe (recv_answer cx)
     (bind_prog unset_rx_task (\<lambda>state.
        if os_is_complete state then bind_prog set_rx_task (\<lambda>_. recv_value)
        else bind_prog rx_drop_task (\<lambda>_. recv_register cx state))) s"
  unfolding unset_rx_task_def prog_defs bind_prog.simps
proof (rule safe_access [OF _ rx_stages_stable(2) [where got = None and cx = c]])
  fix s :: "'a oneshot"
  let ?s = "s\<lparr>os_state := os_state s AND NOT RX_TASK_SET\<rparr>"
  assume s: "rx_idle None s \<and> rx_waits c s"
  then show "rx_moves s ?s"
    by (auto simp: rx_moves_def os_inv_def)
  have st: "rx_base None ?s" "\<not> os_is_rx_task_set (os_state ?s)" "os_rx_task ?s = Some c"
    "\<not> os_is_complete (os_state s) \<longrightarrow> \<not> os_rx_lent ?s"
    using s by (auto simp: rx_idle_def rx_base_def rx_waits_def os_inv_def)
  show "rx_safe (recv_answer cx)
     (if os_is_complete (os_state s AND NOT RX_TASK_SET) then bind_prog set_rx_task (\<lambda>_. recv_value)
      else bind_prog rx_drop_task (\<lambda>_. recv_register cx (os_state s AND NOT RX_TASK_SET))) ?s"
    using recv_undo_safe [OF st(1, 2) _ st(3)] recv_replace_safe [OF st(1, 2) _ st(3)] st(4) by simp
qed (use assms in auto)

lemma poll_recv_safe:
  assumes "rx_idle None s"
  shows "rx_safe (recv_answer cx) (poll_recv cx) s"
  unfolding poll_recv_def os_load_def read_mem_def bind_prog.simps
proof (rule safe_access [OF assms rx_stages_stable(1)])
  fix s :: "'a oneshot"
  assume s: "rx_idle None s"
  show "rx_moves s s" by simp
  let ?change = "bind_prog (rx_will_wake cx) (\<lambda>will_notify.
          if \<not> will_notify then
            bind_prog unset_rx_task (\<lambda>state.
              if os_is_complete state then bind_prog set_rx_task (\<lambda>_. recv_value)
              else bind_prog rx_drop_task (\<lambda>_. recv_register cx state))
          else recv_register cx (os_state s))"
  consider (complete) "os_is_complete (os_state s)"
    | (closed) "\<not> os_is_complete (os_state s)" "os_is_closed (os_state s)"
    | (unset) "\<not> os_is_complete (os_state s)" "\<not> os_is_closed (os_state s)" "\<not> os_is_rx_task_set (os_state s)"
    | (set) c where "\<not> os_is_complete (os_state s)" "\<not> os_is_closed (os_state s)" "os_is_rx_task_set (os_state s)"
        "rx_waits c s"
    using s by (auto simp: rx_idle_def rx_waits_def)
  then show "rx_safe (recv_answer cx)
     (if os_is_complete (os_state s) then recv_value
      else if os_is_closed (os_state s) then Return (Ready (Inl ()))
      else if os_is_rx_task_set (os_state s) then ?change
      else recv_register cx (os_state s)) s"
  proof cases
    case complete
    with recv_value_safe [OF s] show ?thesis by simp
  next
    case closed
    then have "recv_answer cx (Ready (Inl ())) s" using s by (simp add: recv_answer_def no_value_def)
    then have "rx_safe (recv_answer cx) (Return (Ready (Inl ()))) s"
      by (rule safe_return [OF _ recv_answer_stable])
    with closed show ?thesis by simp
  next
    case unset
    with s show ?thesis
      by (auto intro!: recv_register_safe simp: rx_idle_def rx_base_def os_inv_def)
  next
    case (set c)
    have "rx_safe (recv_answer cx) ?change s"
      unfolding rx_will_wake_def rx_with_task_def bind_prog.simps
    proof (rule safe_access [OF _ rx_stages_stable(2) [where got = None and cx = c]])
      fix s' :: "'a oneshot"
      assume s': "rx_idle None s' \<and> rx_waits c s'"
      show "rx_moves s' s'" by simp
      have "recv_answer cx Pending s'" if "c = cx"
        using s' that by (simp add: recv_answer_def)
      then have "rx_safe (recv_answer cx) (Return Pending) s'" if "c = cx"
        using that by (intro safe_return [OF _ recv_answer_stable])
      with s' set(3) recv_change_safe show "rx_safe (recv_answer cx)
         (bind_prog (bind_prog (case os_rx_task s' of None \<Rightarrow> Fail Uninitialised | Some w \<Rightarrow> Return w) (\<lambda>w. Return (w = cx)))
           (\<lambda>will_notify.
              if \<not> will_notify then
                bind_prog unset_rx_task (\<lambda>state.
                  if os_is_complete state then bind_prog set_rx_task (\<lambda>_. recv_value)
                  else bind_prog rx_drop_task (\<lambda>_. recv_register cx state))
              else recv_register cx (os_state s))) s'"
        by (auto simp: rx_waits_def recv_register_def)
    qed (use s set in auto)
    with set show ?thesis by simp
  qed
qed

text \<open>\<open>close\<close> and \<open>try_recv\<close>.\<close>

definition rx_closing :: "'a option \<Rightarrow> waker \<Rightarrow> 'a oneshot \<Rightarrow> bool" where
  "rx_closing got w s \<longleftrightarrow> os_inv s \<and> os_is_closed (os_state s) \<and> os_tx_lent s \<and> os_tx_task s = Some w \<and>
     (os_is_rx_task_set (os_state s) \<longleftrightarrow> os_rx_task s \<noteq> None) \<and>
     (os_is_complete (os_state s) \<longrightarrow> os_value s = (if got = None then os_sent s else None)) \<and>
     (got \<noteq> None \<longrightarrow> os_is_complete (os_state s) \<and> os_sent s = got)"

lemma rx_closing_stable: "stable tx_moves (rx_closing got w)"
  by (rule stableI) (auto simp: rx_closing_def tx_moves_def)

lemma rx_closed_stable: "stable tx_moves (\<lambda>s. rx_idle got s \<and> os_is_closed (os_state s))"
  unfolding rx_idle_def conj_assoc by (rule rx_stableI; auto simp: tx_moves_def)

lemma close_wake_safe:
  assumes "rx_closing got w s"
  shows "rx_safe (\<lambda>_ s. rx_idle got s \<and> os_is_closed (os_state s)) (bind_prog tx_with_task tx_wake) s"
  unfolding tx_with_task_def bind_prog.simps
proof (rule safe_access [OF assms rx_closing_stable])
  fix s :: "'a oneshot"
  assume s: "rx_closing got w s"
  show "rx_moves s s" by simp
  have "rx_safe (\<lambda>_ s. rx_idle got s \<and> os_is_closed (os_state s)) (tx_wake w) s"
    unfolding tx_wake_def write_mem_def
  proof (rule safe_access [OF s rx_closing_stable])
    fix s :: "'a oneshot"
    let ?s = "s\<lparr>os_tx_woken := os_tx_woken s @ [w]\<rparr>"
    assume s: "rx_closing got w s"
    then show "rx_moves s ?s"
      by (auto simp: rx_moves_def os_inv_def)
    from s have "rx_idle got ?s \<and> os_is_closed (os_state ?s)"
      by (auto simp: rx_closing_def rx_idle_def rx_base_def os_inv_def)
    then show "rx_safe (\<lambda>_ s. rx_idle got s \<and> os_is_closed (os_state s)) (Return ()) ?s"
      by (rule safe_return [OF _ rx_closed_stable])
  qed
  with s show "rx_safe (\<lambda>_ s. rx_idle got s \<and> os_is_closed (os_state s))
     (bind_prog (case os_tx_task s of None \<Rightarrow> Fail Uninitialised | Some w \<Rightarrow> Return w) tx_wake) s"
    by (simp add: rx_closing_def)
qed

lemma os_close_safe:
  assumes "rx_idle got s"
  shows "rx_safe (\<lambda>_ s. rx_idle got s \<and> os_is_closed (os_state s)) os_close s"
  unfolding os_close_def os_set_closed_def fetch_mem_def bind_prog.simps
proof (rule safe_access [OF assms rx_stages_stable(1)])
  fix s :: "'a oneshot"
  let ?s = "s\<lparr>os_state := os_state s OR OS_CLOSED,
    os_tx_lent := os_is_tx_task_set (os_state s) \<and> \<not> os_is_complete (os_state s) \<or> os_tx_lent s\<rparr>"
  assume s: "rx_idle got s"
  then show "rx_moves s ?s"
    by (auto simp: rx_moves_def os_inv_def rx_idle_def rx_base_def)
  have closing: "rx_closing got w ?s"
    if "os_is_tx_task_set (os_state s)" "\<not> os_is_complete (os_state s)" "os_tx_task s = Some w" for w
    using s that by (simp add: rx_closing_def rx_idle_def rx_base_def os_inv_def)
  have idle: "rx_idle got ?s \<and> os_is_closed (os_state ?s)"
    if "(os_is_tx_task_set (os_state s) \<and> \<not> os_is_complete (os_state s)) = False"
    unfolding that using s by (simp add: rx_idle_def rx_base_def os_inv_def)
  have "os_is_tx_task_set (os_state s) \<longrightarrow> os_tx_task s \<noteq> None"
    using s by (simp add: rx_idle_def rx_base_def os_inv_def)
  with closing idle consider
      (waiting) w where "os_is_tx_task_set (os_state s)" "\<not> os_is_complete (os_state s)" "rx_closing got w ?s"
    | (free) "\<not> (os_is_tx_task_set (os_state s) \<and> \<not> os_is_complete (os_state s))"
        "rx_idle got ?s \<and> os_is_closed (os_state ?s)"
    by blast
  then show "rx_safe (\<lambda>_ s. rx_idle got s \<and> os_is_closed (os_state s))
     (if os_is_tx_task_set (os_state s) \<and> \<not> os_is_complete (os_state s) then bind_prog tx_with_task tx_wake
      else Return ()) ?s"
  proof cases
    case waiting
    then show ?thesis using close_wake_safe by simp
  next
    case free
    from free(2) have "rx_safe (\<lambda>_ s. rx_idle got s \<and> os_is_closed (os_state s)) (Return ()) ?s"
      by (rule safe_return [OF _ rx_closed_stable])
    then show ?thesis unfolding if_not_P [OF free(1)] .
  qed
qed

definition try_recv_answer :: "(bool + 'a) \<times> bool \<Rightarrow> 'a oneshot \<Rightarrow> bool" where
  "try_recv_answer r s \<longleftrightarrow>
     (case r of (Inr v, inner) \<Rightarrow> rx_idle (Some v) s \<and> \<not> inner
      | (Inl waiting, inner) \<Rightarrow> rx_idle None s \<and> inner = waiting \<and> (\<not> waiting \<longrightarrow> no_value s))"

lemma try_recv_answer_stable: "stable tx_moves (try_recv_answer r)"
proof (cases r)
  case (Pair x inner)
  show ?thesis
  proof (cases x)
    case (Inl waiting)
    with Pair show ?thesis
      using rx_stages_stable(1, 3) [of None] by (cases waiting; cases inner) (simp_all add: try_recv_answer_def [abs_def])
  next
    case (Inr v)
    with Pair show ?thesis
      using rx_stages_stable(1) [of "Some v"] by (cases inner) (simp_all add: try_recv_answer_def [abs_def])
  qed
qed

lemma try_recv_safe:
  assumes "rx_idle None s"
  shows "rx_safe try_recv_answer (oneshot_try_recv True) s"
  unfolding oneshot_try_recv_def if_P [OF TrueI] os_load_def read_mem_def bind_prog.simps
proof (rule safe_access [OF assms rx_stages_stable(1)])
  fix s :: "'a oneshot"
  assume s: "rx_idle None s"
  show "rx_moves s s" by simp
  have "rx_safe try_recv_answer
     (bind_prog consume_value (\<lambda>r. Return (case r of Some v \<Rightarrow> Inr v | None \<Rightarrow> Inl False, False))) s"
    if "os_is_complete (os_state s)"
  proof (rule safe_bind [OF consume_value_safe [OF s that]])
    fix r and s' :: "'a oneshot"
    assume "case r of None \<Rightarrow> rx_idle None s' \<and> no_value s' | Some v \<Rightarrow> rx_idle (Some v) s'"
    then have "try_recv_answer (case r of Some v \<Rightarrow> Inr v | None \<Rightarrow> Inl False, False) s'"
      by (auto simp: try_recv_answer_def split: option.splits)
    then show "rx_safe try_recv_answer (Return (case r of Some v \<Rightarrow> Inr v | None \<Rightarrow> Inl False, False)) s'"
      by (rule safe_return [OF _ try_recv_answer_stable])
  qed simp
  moreover have "rx_safe try_recv_answer (Return (Inl False, False)) s"
    if "\<not> os_is_complete (os_state s)" "os_is_closed (os_state s)"
    by (rule safe_answer [OF _ try_recv_answer_stable]) (use s that in \<open>simp add: try_recv_answer_def no_value_def\<close>)
  moreover have "rx_safe try_recv_answer (Return (Inl True, True)) s"
    by (rule safe_answer [OF _ try_recv_answer_stable]) (use s in \<open>simp add: try_recv_answer_def\<close>)
  ultimately show "rx_safe try_recv_answer
     (if os_is_complete (os_state s) then
        bind_prog consume_value (\<lambda>r. Return (case r of Some v \<Rightarrow> Inr v | None \<Rightarrow> Inl False, False))
      else if os_is_closed (os_state s) then Return (Inl False, False)
      else Return (Inl True, True)) s"
    by simp
qed

section \<open>Two threads\<close>

text \<open>
  A sender task polls \<open>closed\<close> any number of times and then sends, drops its half or keeps it. A receiver
  task runs any operations in any order; it does not poll again once it has its value, and nothing is
  run on a dropped half. The answers are collected in order.
\<close>

datatype 'a tx_end = SendValue 'a | DropSender | KeepSender

datatype 'a tx_result = Sent "'a + unit" | Dropped | Kept

primrec tx_client :: "waker list \<Rightarrow> 'a tx_end \<Rightarrow> ('a, unit poll list \<times> 'a tx_result) os_prog" where
  "tx_client [] fin =
     (case fin of
        SendValue v \<Rightarrow> bind_prog (oneshot_send v) (\<lambda>r. Return ([], Sent r))
      | DropSender \<Rightarrow> bind_prog oneshot_sender_drop (\<lambda>_. Return ([], Dropped))
      | KeepSender \<Rightarrow> Return ([], Kept))"
| "tx_client (w # ws) fin =
     bind_prog (poll_closed w) (\<lambda>r. bind_prog (tx_client ws fin) (\<lambda>(rs, e). Return (r # rs, e)))"

datatype rx_op = RxPoll waker | RxTryRecv | RxClose | RxDrop

datatype 'a rx_answer = Polled waker "(unit + 'a) poll" | Tried "bool + 'a" | RxClosed | RxDropped

fun rx_run :: "rx_op \<Rightarrow> ('a, 'a rx_answer \<times> bool) os_prog" where
  "rx_run (RxPoll w) = bind_prog (receiver_poll True w) (\<lambda>(r, inner). Return (Polled w r, inner))"
| "rx_run RxTryRecv = bind_prog (oneshot_try_recv True) (\<lambda>(r, inner). Return (Tried r, inner))"
| "rx_run RxClose = bind_prog (receiver_close True) (\<lambda>_. Return (RxClosed, True))"
| "rx_run RxDrop = bind_prog (receiver_drop True) (\<lambda>_. Return (RxDropped, False))"

primrec rx_client :: "rx_op list \<Rightarrow> ('a, 'a rx_answer list) os_prog" where
  "rx_client [] = Return []"
| "rx_client (p # ops) =
     bind_prog (rx_run p) (\<lambda>(a, inner).
       if inner then bind_prog (rx_client ops) (\<lambda>as. Return (a # as)) else Return [a])"

text \<open>The values among the answers, and the waker of a receiver that waits at the end.\<close>

fun received_by :: "'a rx_answer \<Rightarrow> 'a list" where
  "received_by (Polled w (Ready (Inr v))) = [v]"
| "received_by (Tried (Inr v)) = [v]"
| "received_by _ = []"

definition received :: "'a rx_answer list \<Rightarrow> 'a list" where
  "received as = concat (map received_by as)"

fun waiting_with :: "'a rx_answer list \<Rightarrow> waker option" where
  "waiting_with [Polled w Pending] = Some w"
| "waiting_with [a] = None"
| "waiting_with [] = None"
| "waiting_with (a # b # as) = waiting_with (b # as)"

fun told_no_value :: "'a rx_answer \<Rightarrow> bool" where
  "told_no_value (Polled w (Ready (Inl _))) = True"
| "told_no_value (Tried (Inl False)) = True"
| "told_no_value _ = False"

text \<open>
  What the sender's task leaves behind: the end of the channel, or what \<open>K\<close> says of a sender that is
  kept.
\<close>

fun tx_ended :: "'a tx_end \<Rightarrow> ('a oneshot \<Rightarrow> bool) \<Rightarrow> 'a tx_result \<Rightarrow> 'a oneshot \<Rightarrow> bool" where
  "tx_ended fin K (Sent a) s = (\<exists>v. fin = SendValue v \<and> send_answer v a s)"
| "tx_ended fin K Dropped s = (fin = DropSender \<and> (\<exists>ok. tx_done ok None s))"
| "tx_ended fin K Kept s = (fin = KeepSender \<and> K s)"

lemma tx_ended_stable:
  assumes "stable rx_moves K"
  shows "stable rx_moves (tx_ended fin K r)"
proof (rule stableI)
  fix s s' :: "'a oneshot"
  assume s: "tx_ended fin K r s" and move: "rx_moves s s'"
  show "tx_ended fin K r s'"
  proof (cases r)
    case (Sent a)
    with s show ?thesis using stableD [OF send_answer_stable _ move] by auto
  next
    case Dropped
    with s show ?thesis using stableD [OF tx_done_stable _ move] by auto
  next
    case Kept
    with s show ?thesis using stableD [OF assms _ move] by auto
  qed
qed

lemma sender_drop_safe:
  assumes "tx_idle v s"
  shows "tx_safe (\<lambda>_ s. \<exists>ok. tx_done ok v s) oneshot_sender_drop s"
  unfolding oneshot_sender_drop_def
proof (rule safe_bind [OF os_complete_safe [OF assms]])
  fix ok and s' :: "'a oneshot"
  assume "tx_done ok v s' \<and> (\<not> ok \<longrightarrow> os_value s' = v)"
  then show "tx_safe (\<lambda>_ s. \<exists>ok. tx_done ok v s) (Return ()) s'"
    by (intro safe_return [OF _ tx_done_stable [of ok v]]) auto
qed simp

lemma tx_finish_safe:
  assumes "tx_idle None s" "K s" "stable rx_moves K"
  shows "tx_safe (\<lambda>q s. fst q = [] \<and> tx_ended fin K (snd q) s) (tx_client [] fin) s"
proof -
  define Q :: "unit poll list \<times> 'a tx_result \<Rightarrow> 'a oneshot \<Rightarrow> bool"
    where "Q = (\<lambda>q s. fst q = [] \<and> tx_ended fin K (snd q) s)"
  have "stable rx_moves (Q q)" for q
    using tx_ended_stable [OF assms(3), of fin "snd q"] by (auto simp: Q_def stable_def)
  then have answer: "tx_safe Q (Return q) s" if "Q q s" for q s
    using that by (intro safe_answer)
  show ?thesis
  proof (cases fin)
    case (SendValue v)
    have "tx_safe Q (bind_prog (oneshot_send v) (\<lambda>r. Return ([], Sent r))) s"
      by (rule safe_bind [OF oneshot_send_safe [OF assms(1)]], rule answer) (simp_all add: Q_def SendValue)
    with SendValue show ?thesis by (simp add: Q_def)
  next
    case DropSender
    have "tx_safe Q (bind_prog oneshot_sender_drop (\<lambda>_. Return ([], Dropped))) s"
      by (rule safe_bind [OF sender_drop_safe [OF assms(1)]], rule answer) (simp_all add: Q_def DropSender)
    with DropSender show ?thesis by (simp add: Q_def)
  next
    case KeepSender
    have "tx_safe Q (Return ([], Kept)) s"
      by (rule answer) (simp add: Q_def KeepSender assms(2))
    with KeepSender show ?thesis by (simp add: Q_def)
  qed
qed

definition tx_left ::
    "waker list \<Rightarrow> 'a tx_end \<Rightarrow> ('a oneshot \<Rightarrow> bool) \<Rightarrow> unit poll list \<times> 'a tx_result \<Rightarrow> 'a oneshot \<Rightarrow> bool" where
  "tx_left ws fin K q s \<longleftrightarrow> length (fst q) = length ws \<and>
     tx_ended fin (if ws = [] then K else closed_answer None (last ws) (last (fst q))) (snd q) s"

lemma tx_client_safe:
  assumes "tx_idle None s" "K s" "stable rx_moves K"
  shows "tx_safe (tx_left ws fin K) (tx_client ws fin) s"
  using assms
proof (induction ws arbitrary: s K)
  case Nil
  then show ?case
    by (intro safe_mono [OF tx_finish_safe]) (auto simp: tx_left_def)
next
  case (Cons w ws)
  show ?case
    unfolding tx_client.simps
  proof (rule safe_bind [OF poll_closed_safe [OF Cons.prems(1)]])
    fix r and s1 :: "'a oneshot"
    assume r: "closed_answer None w r s1"
    then have "tx_idle None s1" by (simp add: closed_answer_def)
    from Cons.IH [OF this r closed_answer_stable]
    show "tx_safe (tx_left (w # ws) fin K)
       (bind_prog (tx_client ws fin) (\<lambda>(rs, e). Return (r # rs, e))) s1"
    proof (rule safe_bind)
      fix q and s2 :: "'a oneshot"
      assume q: "tx_left ws fin (closed_answer None w r) q s2"
      have "tx_left (w # ws) fin K (r # fst q, snd q) = tx_left ws fin (closed_answer None w r) q"
        by (auto simp: tx_left_def fun_eq_iff)
      moreover have "stable rx_moves (tx_left ws fin (closed_answer None w r) q)"
        using tx_ended_stable [OF closed_answer_stable] unfolding tx_left_def stable_def by (cases "ws = []") (simp, blast)+
      ultimately have "tx_safe (tx_left (w # ws) fin K) (Return (r # fst q, snd q)) s2"
        using q by (intro safe_answer) simp_all
      then show "tx_safe (tx_left (w # ws) fin K) (case q of (rs, e) \<Rightarrow> Return (r # rs, e)) s2"
        by (simp add: split_beta)
    qed simp
  qed simp
qed

text \<open>What the receiver's task leaves behind.\<close>

definition got_of :: "'a list \<Rightarrow> 'a oneshot \<Rightarrow> bool" where
  "got_of vs s = (case vs of [] \<Rightarrow> rx_idle None s | v # vs' \<Rightarrow> vs' = [] \<and> rx_idle (Some v) s)"

lemma got_of_simps [simp]:
  "got_of [] = rx_idle None" "got_of [v] = rx_idle (Some v)" "got_of (v # w # vs) s = False"
  by (simp_all add: got_of_def fun_eq_iff)

definition rx_left :: "'a rx_answer list \<Rightarrow> 'a oneshot \<Rightarrow> bool" where
  "rx_left as s \<longleftrightarrow> got_of (received as) s \<and>
     (\<forall>w. waiting_with as = Some w \<longrightarrow> rx_waits w s) \<and>
     (list_ex told_no_value as \<longrightarrow> no_value s)"

lemma got_of_stable: "stable tx_moves (got_of vs)"
  using rx_stages_stable(1) by (cases vs) (auto simp: stable_def got_of_def)

lemma got_of_idle: "got_of vs s \<Longrightarrow> \<exists>got. rx_idle got s"
  by (cases vs) (auto simp: got_of_def)

lemma no_value_stable: "stable tx_moves no_value" "stable rx_moves no_value"
  by (rule stableI; auto simp: no_value_def tx_moves_def rx_moves_def)+

lemma rx_left_stable: "stable tx_moves (rx_left as)"
proof (rule stableI)
  fix s s' :: "'a oneshot"
  assume s: "rx_left as s" and move: "tx_moves s s'"
  have "rx_waits w s'" if "rx_waits w s" for w
  proof -
    obtain got where "rx_idle got s" using s got_of_idle [of "received as" s] unfolding rx_left_def by blast
    with that move show ?thesis using stableD [OF rx_stages_stable(2) [of got w]] by blast
  qed
  with s show "rx_left as s'"
    using stableD [OF got_of_stable _ move] stableD [OF no_value_stable(1) _ move] by (auto simp: rx_left_def)
qed

lemma rx_run_safe:
  assumes "rx_idle None s"
  shows "rx_safe (\<lambda>(a, inner) s. rx_left [a] s \<and> (inner \<longrightarrow> received_by a = [])) (rx_run p) s"
proof -
  define Q where "Q = (\<lambda>(a, inner) (s :: 'a oneshot). rx_left [a] s \<and> (inner \<longrightarrow> received_by a = []))"
  have "stable tx_moves (Q q)" for q
    using rx_left_stable [of "[fst q]"] by (auto simp: Q_def stable_def split_beta)
  then have answer: "rx_safe Q (Return q) s" if "Q q s" for q s
    using that by (intro safe_answer)
  note Q = Q_def rx_left_def received_def
  have close: "rx_safe Q (bind_prog os_close (\<lambda>_. Return (a, inner))) s" if "a = RxClosed \<or> a = RxDropped" for a inner
    by (rule safe_bind [OF os_close_safe [OF assms]], rule answer) (use that in \<open>auto simp: Q\<close>)
  have "rx_safe Q (rx_run p) s"
  proof (cases p)
    case (RxPoll w)
    have "rx_safe Q (bind_prog (poll_recv w) (\<lambda>r. case r of
          Pending \<Rightarrow> Return (Polled w Pending, True)
        | Ready (Inl e) \<Rightarrow> Return (Polled w (Ready (Inl e)), True)
        | Ready (Inr v) \<Rightarrow> Return (Polled w (Ready (Inr v)), False))) s"
    proof (rule safe_bind [OF poll_recv_safe [OF assms]])
      fix r and s' :: "'a oneshot"
      assume r: "recv_answer w r s'"
      show "rx_safe Q (case r of
          Pending \<Rightarrow> Return (Polled w Pending, True)
        | Ready (Inl e) \<Rightarrow> Return (Polled w (Ready (Inl e)), True)
        | Ready (Inr v) \<Rightarrow> Return (Polled w (Ready (Inr v)), False)) s'"
      proof (cases r)
        case Pending
        with r have "Q (Polled w Pending, True) s'" by (simp add: Q recv_answer_def)
        with Pending show ?thesis by (simp only: poll.case) (rule answer)
      next
        case (Ready x)
        show ?thesis
        proof (cases x)
          case (Inl e)
          with r Ready have "Q (Polled w r, True) s'" by (simp add: Q recv_answer_def)
          with Ready Inl show ?thesis by (simp only: poll.case sum.case) (rule answer)
        next
          case (Inr v)
          with r Ready have "Q (Polled w r, False) s'" by (simp add: Q recv_answer_def)
          with Ready Inr show ?thesis by (simp only: poll.case sum.case) (rule answer)
        qed
      qed
    qed simp
    moreover have "(rx_run p :: ('a, 'a rx_answer \<times> bool) os_prog) = bind_prog (poll_recv w) (\<lambda>r. case r of
          Pending \<Rightarrow> Return (Polled w Pending, True)
        | Ready (Inl e) \<Rightarrow> Return (Polled w (Ready (Inl e)), True)
        | Ready (Inr v) \<Rightarrow> Return (Polled w (Ready (Inr v)), False))"
      unfolding RxPoll rx_run.simps receiver_poll_def if_P [OF TrueI] bind_assoc
      by (rule arg_cong [of _ _ "bind_prog (poll_recv w)"]) (auto simp: fun_eq_iff split: poll.split sum.split)
    ultimately show ?thesis by simp
  next
    case RxTryRecv
    show ?thesis
      unfolding RxTryRecv rx_run.simps
    proof (rule safe_bind [OF try_recv_safe [OF assms]])
      fix q and s' :: "'a oneshot"
      assume q: "try_recv_answer q s'"
      obtain r inner where qr: "q = (r, inner)" by (cases q)
      have "Q (Tried r, inner) s'"
      proof (cases r)
        case (Inl waiting)
        with q qr show ?thesis by (cases waiting) (auto simp: Q try_recv_answer_def)
      next
        case (Inr v)
        with q qr show ?thesis by (auto simp: Q try_recv_answer_def)
      qed
      then show "rx_safe Q (case q of (r, inner) \<Rightarrow> Return (Tried r, inner)) s'"
        unfolding qr prod.case by (rule answer)
    qed simp
  next
    case RxClose
    with close [of RxClosed True] show ?thesis by (simp add: receiver_close_def)
  next
    case RxDrop
    with close [of RxDropped False] show ?thesis by (simp add: receiver_drop_def)
  qed
  then show ?thesis by (simp add: Q_def)
qed

lemma rx_left_Nil [simp]: "rx_left [] s \<longleftrightarrow> rx_idle None s"
  by (simp add: rx_left_def received_def)

lemma rx_client_safe:
  assumes "rx_idle None s"
  shows "rx_safe (\<lambda>as s. rx_left as s \<and> (ops \<noteq> [] \<longrightarrow> as \<noteq> [])) (rx_client ops) s"
  using assms
proof (induction ops arbitrary: s)
  case Nil
  then have "rx_safe rx_left (Return []) s" by (intro safe_answer [OF _ rx_left_stable]) simp
  then show ?case by simp
next
  case (Cons p ops)
  let ?Q = "\<lambda>as s. rx_left as s \<and> (p # ops \<noteq> [] \<longrightarrow> as \<noteq> [])"
  have answer: "rx_safe ?Q (Return as) s" if "rx_left as s" "as \<noteq> []" for as and s :: "'a oneshot"
    using that rx_left_stable [of as] by (auto simp: stable_def)
  show ?case
    unfolding rx_client.simps
  proof (rule safe_bind [OF rx_run_safe [OF Cons.prems]])
    fix q :: "'a rx_answer \<times> bool" and s1 :: "'a oneshot"
    obtain a inner where qa: "q = (a, inner)" by (cases q)
    assume "(case q of (a, inner) \<Rightarrow> \<lambda>s. rx_left [a] s \<and> (inner \<longrightarrow> received_by a = [])) s1"
    with qa have q: "rx_left [a] s1" "inner \<Longrightarrow> received_by a = []" by simp_all
    have "rx_safe ?Q (bind_prog (rx_client ops) (\<lambda>as. Return (a # as))) s1" if inner
    proof (cases "ops = []")
      case True
      with answer [OF q(1)] show ?thesis by simp
    next
      case False
      let ?F = "\<lambda>s. told_no_value a \<longrightarrow> no_value s"
      have a: "rx_idle None s1" "?F s1"
        using q that by (auto simp: rx_left_def received_def)
      have F: "stable tx_moves ?F" "stable rx_moves ?F"
        using no_value_stable by (auto simp: stable_def)
      show ?thesis
      proof (rule safe_bind [OF safe_frame [OF Cons.IH [OF a(1)] a(2) F]])
        fix as and s2 :: "'a oneshot"
        assume as: "(rx_left as s2 \<and> (ops \<noteq> [] \<longrightarrow> as \<noteq> [])) \<and> ?F s2"
        then obtain b bs where "as = b # bs" using False by (cases as) auto
        with as q(2) [OF that] have "rx_left (a # as) s2"
          by (simp add: rx_left_def received_def)
        then show "rx_safe ?Q (Return (a # as)) s2" by (rule answer) simp
      qed simp
    qed
    moreover have "rx_safe ?Q (Return [a]) s1"
      using q(1) by (rule answer) simp
    ultimately show "rx_safe ?Q (case q of (a, inner) \<Rightarrow>
        if inner then bind_prog (rx_client ops) (\<lambda>as. Return (a # as)) else Return [a]) s1"
      by (simp only: qa prod.case split: if_split) blast
  qed simp
qed

section \<open>The channel\<close>

lemma oneshot_channel_idle: "tx_idle None oneshot_channel" "rx_idle None oneshot_channel"
  by (simp_all add: tx_idle_def rx_idle_def rx_base_def os_inv_def oneshot_channel_def os_tests os_flags)

lemma oneshot_race:
  assumes "ends (tx_client ws fin) (rx_client ops) oneshot_channel r"
  shows "\<exists>q as s. r = Inr (q, as, s) \<and> tx_left ws fin (tx_idle None) q s \<and> rx_left as s"
  using os.parallel [OF assms tx_client_safe [OF oneshot_channel_idle(1) oneshot_channel_idle(1) tx_idle_stable]
      rx_client_safe [OF oneshot_channel_idle(2)]] by blast

lemma tx_ended_cases:
  assumes "tx_ended fin K e s"
  obtains (sent) v where "fin = SendValue v" "e = Sent (Inr ())" "tx_done True (Some v) s"
    | (refused) v where "fin = SendValue v" "e = Sent (Inl v)" "tx_done False None s"
    | (closed) "fin = DropSender" "e = Dropped" "tx_done False None s"
    | (dropped) "fin = DropSender" "e = Dropped" "tx_done True None s"
    | (kept) "fin = KeepSender" "e = Kept" "K s"
proof (cases e)
  case (Sent a)
  with assms sent refused show thesis by (cases a) (auto simp: send_answer_def)
next
  case Dropped
  with assms closed dropped show thesis by (metis (full_types) tx_ended.simps(2))
next
  case Kept
  with assms kept show thesis by simp
qed

lemma tx_left_ended:
  assumes "tx_left ws fin K (ts, e) s"
  shows "tx_ended fin (if ws = [] then K else closed_answer None (last ws) (last ts)) e s"
  using assms unfolding tx_left_def fst_conv snd_conv by (rule conjunct2)

lemma got_of_received: "got_of vs s \<Longrightarrow> vs = [] \<and> rx_idle None s \<or> (\<exists>v. vs = [v] \<and> rx_idle (Some v) s)"
  by (cases vs) (auto simp: got_of_def)

text \<open>
  C4: However the two tasks interleave, neither panics or touches a waker cell that is not initialised;
  at most one value is received, and it is the one whose \<open>send\<close> succeeded; a value that was sent and not
  received is still in the channel, and its receiver was never told that no value would come; a refused
  value comes back to the sender and is not received.
\<close>

theorem oneshot_delivers_once:
  assumes "ends (tx_client ws fin) (rx_client ops) oneshot_channel r"
  shows "\<exists>ts e as s. r = Inr ((ts, e), as, s) \<and>
    (received as = [] \<or> (\<exists>v. received as = [v] \<and> fin = SendValue v \<and> e = Sent (Inr ()))) \<and>
    (e = Sent (Inr ()) \<and> received as = [] \<longrightarrow>
       (\<exists>v. fin = SendValue v \<and> os_value s = Some v) \<and> \<not> list_ex told_no_value as) \<and>
    (\<forall>v. e = Sent (Inl v) \<longrightarrow> fin = SendValue v \<and> received as = [] \<and> os_is_closed (os_state s))"
proof -
  from oneshot_race [OF assms] obtain ts e as s where r: "r = Inr ((ts, e), as, s)"
    and tx: "tx_left ws fin (tx_idle None) (ts, e) s" and rx: "rx_left as s" by force
  let ?K = "if ws = [] then tx_idle None else closed_answer None (last ws) (last ts)"
  have ended: "tx_ended fin ?K e s" using tx by (rule tx_left_ended)
  have K: "?K s \<Longrightarrow> \<not> os_is_complete (os_state s)"
    by (auto simp: closed_answer_def tx_idle_def split: if_splits)
  have "got_of (received as) s" and told: "list_ex told_no_value as \<Longrightarrow> no_value s"
    using rx by (auto simp: rx_left_def)
  from got_of_received [OF this(1)]
  consider (none) "received as = []" "os_is_complete (os_state s) \<Longrightarrow> os_value s = os_sent s"
    | (got) v where "received as = [v]" "os_is_complete (os_state s)" "os_sent s = Some v"
    by (auto simp: rx_idle_def rx_base_def)
  note rx_cases = this
  from ended show ?thesis
  proof (cases rule: tx_ended_cases)
    case (sent v)
    then have "os_is_complete (os_state s)" "os_sent s = Some v" by (auto simp: tx_done_def)
    with r sent told show ?thesis
      by (cases rule: rx_cases) (auto simp: no_value_def)
  next
    case (refused v)
    then have "\<not> os_is_complete (os_state s)" "os_is_closed (os_state s)" by (auto simp: tx_done_def)
    with r refused show ?thesis by (cases rule: rx_cases) auto
  next
    case closed
    then have "\<not> os_is_complete (os_state s)" by (auto simp: tx_done_def)
    with r closed show ?thesis by (cases rule: rx_cases) auto
  next
    case dropped
    then have "os_sent s = None" by (auto simp: tx_done_def)
    with r dropped show ?thesis by (cases rule: rx_cases) auto
  next
    case kept
    with r K show ?thesis by (cases rule: rx_cases) auto
  qed
qed

text \<open>
  C5: A task that waits is woken when what it waits for happens: a receiver whose last poll was pending,
  once the sender sent or was dropped, and a sender that waits in \<open>closed\<close>, once the channel is closed.
\<close>

theorem oneshot_loses_no_wakeup:
  assumes "ends (tx_client ws fin) (rx_client ops) oneshot_channel r"
  shows "\<exists>ts e as s. r = Inr ((ts, e), as, s) \<and>
    (\<forall>w. waiting_with as = Some w \<and> os_is_complete (os_state s) \<longrightarrow> w \<in> set (os_rx_woken s)) \<and>
    (e = Kept \<and> ws \<noteq> [] \<and> last ts = Pending \<and> os_is_closed (os_state s) \<longrightarrow> last ws \<in> set (os_tx_woken s))"
proof -
  from oneshot_race [OF assms] obtain ts e as s where r: "r = Inr ((ts, e), as, s)"
    and tx: "tx_left ws fin (tx_idle None) (ts, e) s" and rx: "rx_left as s" by force
  let ?K = "if ws = [] then tx_idle None else closed_answer None (last ws) (last ts)"
  have ended: "tx_ended fin ?K e s" using tx by (rule tx_left_ended)
  obtain got where idle: "rx_idle got s" using rx got_of_idle [of "received as" s] unfolding rx_left_def by blast
  have "w \<in> set (os_rx_woken s)" if "waiting_with as = Some w" "os_is_complete (os_state s)" for w
  proof -
    have w: "os_rx_lent s" "os_rx_task s = Some w"
      using rx that by (auto simp: rx_left_def rx_waits_def)
    from ended show ?thesis
      by (cases rule: tx_ended_cases)
        (use that w in \<open>auto simp: tx_done_def tx_idle_def closed_answer_def split: if_splits\<close>)
  qed
  moreover have "last ws \<in> set (os_tx_woken s)"
    if "e = Kept" "ws \<noteq> []" "last ts = Pending" "os_is_closed (os_state s)"
    using ended that idle by (auto simp: closed_answer_def tx_waits_def rx_idle_def rx_base_def)
  ultimately show ?thesis using r by blast
qed

text \<open>
  When both tasks are done, dropping what they shared drops each waker that is still in its cell,
  and no cell that holds none: nothing is leaked and nothing is dropped twice.
\<close>

lemma oneshot_drops_its_wakers:
  assumes "ends (tx_client ws fin) (rx_client ops) oneshot_channel r"
  shows "\<exists>q as s s'. r = Inr (q, as, s) \<and> run_prog inner_drop s = Inr ((), s') \<and>
    os_rx_task s' = None \<and> os_tx_task s' = None"
proof -
  from oneshot_race [OF assms] obtain ts e as s where r: "r = Inr ((ts, e), as, s)"
    and tx: "tx_left ws fin (tx_idle None) (ts, e) s" and rx: "rx_left as s" by force
  have ended: "tx_ended fin (if ws = [] then tx_idle None else closed_answer None (last ws) (last ts)) e s"
    using tx by (rule tx_left_ended)
  obtain got where "rx_idle got s" using rx got_of_idle [of "received as" s] unfolding rx_left_def by blast
  then have "os_is_rx_task_set (os_state s) \<longleftrightarrow> os_rx_task s \<noteq> None" by (simp add: rx_idle_def)
  moreover from ended have "os_is_tx_task_set (os_state s) \<longleftrightarrow> os_tx_task s \<noteq> None"
    by (cases rule: tx_ended_cases) (auto simp: tx_done_def tx_idle_def closed_answer_def split: if_splits)
  ultimately have "\<exists>s'. run_prog inner_drop s = Inr ((), s') \<and> os_rx_task s' = None \<and> os_tx_task s' = None"
    by (auto simp: inner_drop_def os_load_def rx_drop_task_def tx_drop_task_def prog_defs run_bind)
  with r show ?thesis by blast
qed

section \<open>Runs of the channel\<close>

text \<open>The value is sent before the receiver polls.\<close>

lemma send_first:
  "run_prog (tx_client [] (SendValue (7::nat))) oneshot_channel = Inr (([], Sent (Inr ())), \<lparr>os_state = 2, os_value = Some 7, os_tx_task = None, os_rx_task = None,
     os_rx_woken = [], os_tx_woken = [], os_sent = Some 7, os_rx_lent = False, os_tx_lent = False\<rparr>)"
  by code_simp

lemma poll_second:
  "run_prog (rx_client [RxPoll 3]) \<lparr>os_state = 2, os_value = Some 7, os_tx_task = None, os_rx_task = None,
     os_rx_woken = [], os_tx_woken = [], os_sent = Some 7, os_rx_lent = False, os_tx_lent = False\<rparr> = Inr ([Polled 3 (Ready (Inr (7::nat)))], \<lparr>os_state = 2, os_value = None, os_tx_task = None, os_rx_task = None,
     os_rx_woken = [], os_tx_woken = [], os_sent = Some 7, os_rx_lent = False, os_tx_lent = False\<rparr>)"
  by code_simp

text \<open>The receiver polls first and waits.\<close>

lemma poll_first:
  "run_prog (rx_client [RxPoll 3]) oneshot_channel = Inr ([Polled 3 (Pending :: (unit + nat) poll)], \<lparr>os_state = 1, os_value = None, os_tx_task = None, os_rx_task = Some 3,
     os_rx_woken = [], os_tx_woken = [], os_sent = None, os_rx_lent = False, os_tx_lent = False\<rparr>)"
  by code_simp

lemma send_second:
  "run_prog (tx_client [] (SendValue (7::nat))) \<lparr>os_state = 1, os_value = None, os_tx_task = None, os_rx_task = Some 3,
     os_rx_woken = [], os_tx_woken = [], os_sent = None, os_rx_lent = False, os_tx_lent = False\<rparr> = Inr (([], Sent (Inr ())), \<lparr>os_state = 3, os_value = Some 7, os_tx_task = None, os_rx_task = Some 3,
     os_rx_woken = [3], os_tx_woken = [], os_sent = Some 7, os_rx_lent = True, os_tx_lent = False\<rparr>)"
  by code_simp

lemmas send_then_poll = ends_left_first [OF send_first poll_second]

lemmas poll_then_send = ends_right_first [OF poll_first send_second]

theorem oneshot_delivers_once_witness:
  "\<exists>r. ends (tx_client [] (SendValue (7::nat))) (rx_client [RxPoll 3]) oneshot_channel r \<and>
     (\<exists>ts e as s. r = Inr ((ts, e), as, s) \<and> received as = [7] \<and> e = Sent (Inr ()))"
  using oneshot_delivers_once [OF send_then_poll] send_then_poll by (auto simp: received_def)

theorem oneshot_loses_no_wakeup_witness:
  "\<exists>r. ends (tx_client [] (SendValue (7::nat))) (rx_client [RxPoll 3]) oneshot_channel r \<and>
     (\<exists>q as s. r = Inr (q, as, s) \<and> waiting_with as = Some 3 \<and> 3 \<in> set (os_rx_woken s))"
  using oneshot_loses_no_wakeup [OF poll_then_send] poll_then_send by (auto simp: os_tests os_flags)

lemma oneshot_drops_its_wakers_witness:
  "\<exists>r. ends (tx_client [] (SendValue (7::nat))) (rx_client [RxPoll 3]) oneshot_channel r \<and>
     (\<exists>q as s s'. r = Inr (q, as, s) \<and> os_rx_task s = Some 3 \<and> run_prog inner_drop s = Inr ((), s') \<and> os_rx_task s' = None)"
  using oneshot_drops_its_wakers [OF poll_then_send] poll_then_send by auto

end
