(* ===== verification/Atomic_Waker.thy ===== *)
theory Atomic_Waker
  imports Atomic_Program
begin

text \<open>
  \<open>sync/atomic_waker.rs\<close>: the cell of one waker that one thread registers while others wake. The state
  says who holds the cell; a side that finds it held leaves its work to the holder.
\<close>

section \<open>The cell\<close>

text \<open>\<open>aw_woken\<close> is not in the code: the wakers woken so far.\<close>

record atomic_waker =
  aw_state :: usize
  aw_waker :: "waker option"
  aw_woken :: "waker list"

definition AW_WAITING :: usize where "AW_WAITING = 0"
definition AW_REGISTERING :: usize where "AW_REGISTERING = 1"
definition AW_WAKING :: usize where "AW_WAKING = 2"

lemmas aw_states = AW_WAITING_def AW_REGISTERING_def AW_WAKING_def

definition atomic_waker_new :: atomic_waker where
  "atomic_waker_new = \<lparr>aw_state = AW_WAITING, aw_waker = None, aw_woken = []\<rparr>"

type_synonym 'r aw_prog = "(atomic_waker, 'r) prog"

text \<open>\<open>compare_exchange\<close> with \<open>unwrap_or_else(|x| x)\<close>: the value found.\<close>

definition aw_cas :: "usize \<Rightarrow> usize \<Rightarrow> usize aw_prog" where
  "aw_cas old new = fetch_mem aw_state (\<lambda>s. if aw_state s = old then s\<lparr>aw_state := new\<rparr> else s)"

definition aw_take :: "waker option aw_prog" where
  "aw_take = fetch_mem aw_waker (\<lambda>s. s\<lparr>aw_waker := None\<rparr>)"

definition aw_wake :: "waker option \<Rightarrow> unit aw_prog" where
  "aw_wake w = (case w of None \<Rightarrow> Return () | Some w \<Rightarrow> write_mem (\<lambda>s. s\<lparr>aw_woken := aw_woken s @ [w]\<rparr>))"

section \<open>The operations\<close>

text \<open>
  \<open>do_register\<close>. The waker is cloned by code of the user: \<open>clone_ok\<close> says that this does not panic. A panic
  of it goes on (\<open>resume_unwind\<close>) after the cell was given back.
\<close>

definition do_register :: "bool \<Rightarrow> waker \<Rightarrow> unit aw_prog" where
  "do_register clone_ok waker =
     bind_prog (aw_cas AW_WAITING AW_REGISTERING) (\<lambda>state.
       if state = AW_WAITING then
         bind_prog
           (if clone_ok then
              bind_prog aw_take (\<lambda>old. bind_prog (write_mem (\<lambda>s. s\<lparr>aw_waker := Some waker\<rparr>)) (\<lambda>_. Return old))
            else Return None) (\<lambda>old_waker.
         bind_prog (aw_cas AW_REGISTERING AW_WAITING) (\<lambda>actual.
         bind_prog
           (if actual = AW_REGISTERING then Return ()
            else
              bind_prog (check_prog (actual = AW_REGISTERING OR AW_WAKING) AssertFailed) (\<lambda>_.
              bind_prog aw_take (\<lambda>waker.
              bind_prog (write_mem (\<lambda>s. s\<lparr>aw_state := AW_WAITING\<rparr>)) (\<lambda>_.
              bind_prog (aw_wake (if \<not> clone_ok then waker else old_waker)) (\<lambda>_.
              aw_wake (if \<not> clone_ok then None else waker))))))
           (\<lambda>_. if \<not> clone_ok then Fail ExplicitPanic else Return ())))
       else if state = AW_WAKING then aw_wake (Some waker)
       else check_prog (state = AW_REGISTERING \<or> state = AW_REGISTERING OR AW_WAKING) AssertFailed)"

definition register_by_ref :: "bool \<Rightarrow> waker \<Rightarrow> unit aw_prog" where
  "register_by_ref clone_ok waker = do_register clone_ok waker"

definition aw_take_waker :: "waker option aw_prog" where
  "aw_take_waker =
     bind_prog (fetch_mem aw_state (\<lambda>s. s\<lparr>aw_state := aw_state s OR AW_WAKING\<rparr>)) (\<lambda>state.
       if state = AW_WAITING then
         bind_prog aw_take (\<lambda>waker.
         bind_prog (write_mem (\<lambda>s. s\<lparr>aw_state := aw_state s AND NOT AW_WAKING\<rparr>)) (\<lambda>_. Return waker))
       else
         bind_prog (check_prog (state = AW_REGISTERING \<or> state = AW_REGISTERING OR AW_WAKING \<or> state = AW_WAKING)
           AssertFailed) (\<lambda>_. Return None))"

definition atomic_wake :: "unit aw_prog" where
  "atomic_wake = bind_prog aw_take_waker aw_wake"

section \<open>Waiting for an event\<close>

text \<open>
  How the cell is used: the consumer registers and then looks at the event, the producer makes the event
  happen and then wakes (\<open>fst\<close> of the memory is the event).
\<close>

definition aw_lift :: "'r aw_prog \<Rightarrow> (bool \<times> atomic_waker, 'r) prog" where
  "aw_lift = lift_prog snd (\<lambda>u. apsnd u)"

definition consumer :: "waker \<Rightarrow> (bool \<times> atomic_waker, bool) prog" where
  "consumer w = bind_prog (aw_lift (register_by_ref True w)) (\<lambda>_. read_mem fst)"

definition producer :: "(bool \<times> atomic_waker, unit) prog" where
  "producer = bind_prog (write_mem (apfst (\<lambda>_. True))) (\<lambda>_. aw_lift atomic_wake)"

lemmas aw_run = aw_lift_def consumer_def producer_def register_by_ref_def do_register_def atomic_wake_def
  aw_take_waker_def aw_cas_def aw_take_def aw_wake_def prog_defs aw_states

definition not_lost :: "waker \<Rightarrow> (bool \<times> unit \<times> (bool \<times> atomic_waker)) outcome \<Rightarrow> bool" where
  "not_lost w r =
     (case r of Inl _ \<Rightarrow> False
      | Inr (seen, _, _, s) \<Rightarrow> (seen \<or> w \<in> set (aw_woken s)) \<and> aw_state s = AW_WAITING)"

lemma interleavings_not_lost:
  "\<forall>r\<in>set (interleave (consumer w) producer (False, \<lparr>aw_state = AW_WAITING, aw_waker = c, aw_woken = []\<rparr>)).
     not_lost w r"
  by (cases c; simp add: aw_run not_lost_def)

text \<open>
  C9: When a consumer registers its waker and then looks at the event while a producer makes the event happen
  and then wakes, then in every interleaving of their accesses the consumer sees the event or its waker
  is woken; no check of the cell fails, and the cell is free again for the next round.
\<close>

theorem atomic_waker_loses_no_wakeup:
  assumes "ends (consumer w) producer (False, \<lparr>aw_state = AW_WAITING, aw_waker = c, aw_woken = []\<rparr>) r"
  shows "\<exists>seen s. r = Inr (seen, (), s) \<and> (seen \<or> w \<in> set (aw_woken (snd s))) \<and> aw_state (snd s) = AW_WAITING"
proof -
  have "\<exists>seen u s. r = Inr (seen, u, s) \<and> (seen \<or> w \<in> set (aw_woken (snd s))) \<and> aw_state (snd s) = AW_WAITING"
  proof (rule all_races [OF assms])
    fix r
    assume "r \<in> set (interleave (consumer w) producer (False, \<lparr>aw_state = AW_WAITING, aw_waker = c, aw_woken = []\<rparr>))"
    with interleavings_not_lost have "not_lost w r" by blast
    then show "\<exists>seen u s. r = Inr (seen, u, s) \<and> (seen \<or> w \<in> set (aw_woken (snd s))) \<and> aw_state (snd s) = AW_WAITING"
      by (auto simp: not_lost_def split: sum.splits)
  qed
  then show ?thesis by simp
qed

lemma register_first:
  "run_prog (consumer 3) (False, \<lparr>aw_state = 0, aw_waker = Some 1, aw_woken = []\<rparr>) =
     Inr (False, False, \<lparr>aw_state = 0, aw_waker = Some 3, aw_woken = []\<rparr>)"
  by code_simp

lemma wake_second:
  "run_prog producer (False, \<lparr>aw_state = 0, aw_waker = Some 3, aw_woken = []\<rparr>) =
     Inr ((), True, \<lparr>aw_state = 0, aw_waker = None, aw_woken = [3]\<rparr>)"
  by code_simp

theorem atomic_waker_loses_no_wakeup_witness:
  "\<exists>r. ends (consumer 3) producer (False, \<lparr>aw_state = AW_WAITING, aw_waker = Some 1, aw_woken = []\<rparr>) r \<and>
     (\<exists>s. r = Inr (False, (), s) \<and> 3 \<in> set (aw_woken (snd s)))"
proof -
  have "ends (consumer 3) producer (False, \<lparr>aw_state = AW_WAITING, aw_waker = Some 1, aw_woken = []\<rparr>)
      (Inr (False, (), True, \<lparr>aw_state = 0, aw_waker = None, aw_woken = [3]\<rparr>))"
    using ends_left_first [OF register_first wake_second] by (simp only: AW_WAITING_def)
  from this atomic_waker_loses_no_wakeup [OF this] show ?thesis by force
qed

end
