(* ===== verification/Sim_Time.thy ===== *)
theory Sim_Time
  imports Prelude
begin

text \<open>
  \<open>time/duration.rs\<close> and \<open>time/mod.rs\<close>: durations and points of simulated time. Both wrap the standard
  library's \<open>Duration\<close>, a count of nanoseconds below \<open>2 ^ 64\<close> seconds; here it is that count. The conversions
  from and to floating point are left out.
\<close>

section \<open>Durations\<close>

type_synonym duration = nat

definition NANOS_PER_SEC :: nat where "NANOS_PER_SEC = 1000000000"

definition dur_MAX :: duration where "dur_MAX = (2 ^ 64 - 1) * NANOS_PER_SEC + (NANOS_PER_SEC - 1)"

definition dur_ZERO :: duration where "dur_ZERO = 0"

definition dur_new :: "u64 \<Rightarrow> u32 \<Rightarrow> duration outcome" where
  "dur_new secs nanos =
     (let d = unat secs * NANOS_PER_SEC + unat nanos in if d \<le> dur_MAX then Inr d else Inl ArithOverflow)"

definition dur_from_secs :: "u64 \<Rightarrow> duration" where
  "dur_from_secs secs = unat secs * NANOS_PER_SEC"

definition dur_from_millis :: "u64 \<Rightarrow> duration" where
  "dur_from_millis millis = unat millis * 1000000"

definition dur_from_micros :: "u64 \<Rightarrow> duration" where
  "dur_from_micros micros = unat micros * 1000"

definition dur_from_nanos :: "u64 \<Rightarrow> duration" where
  "dur_from_nanos nanos = unat nanos"

definition dur_checked_add :: "duration \<Rightarrow> duration \<Rightarrow> duration option" where
  "dur_checked_add d e = (if d + e \<le> dur_MAX then Some (d + e) else None)"

definition dur_saturating_add :: "duration \<Rightarrow> duration \<Rightarrow> duration" where
  "dur_saturating_add d e = (case dur_checked_add d e of Some r \<Rightarrow> r | None \<Rightarrow> dur_MAX)"

definition dur_checked_sub :: "duration \<Rightarrow> duration \<Rightarrow> duration option" where
  "dur_checked_sub d e = (if e \<le> d then Some (d - e) else None)"

definition dur_saturating_sub :: "duration \<Rightarrow> duration \<Rightarrow> duration" where
  "dur_saturating_sub d e = (case dur_checked_sub d e of Some r \<Rightarrow> r | None \<Rightarrow> dur_ZERO)"

definition dur_checked_mul :: "duration \<Rightarrow> u32 \<Rightarrow> duration option" where
  "dur_checked_mul d k = (if d * unat k \<le> dur_MAX then Some (d * unat k) else None)"

definition dur_saturating_mul :: "duration \<Rightarrow> u32 \<Rightarrow> duration" where
  "dur_saturating_mul d k = (case dur_checked_mul d k of Some r \<Rightarrow> r | None \<Rightarrow> dur_MAX)"

definition dur_checked_div :: "duration \<Rightarrow> u32 \<Rightarrow> duration option" where
  "dur_checked_div d k = (if k = 0 then None else Some (d div unat k))"

text \<open>The operators panic where the checked operations have no result.\<close>

definition or_panic :: "panic \<Rightarrow> 'a option \<Rightarrow> 'a outcome" where
  "or_panic e r = (case r of Some x \<Rightarrow> Inr x | None \<Rightarrow> Inl e)"

definition dur_add :: "duration \<Rightarrow> duration \<Rightarrow> duration outcome" where
  "dur_add d e = or_panic ArithOverflow (dur_checked_add d e)"

definition dur_sub :: "duration \<Rightarrow> duration \<Rightarrow> duration outcome" where
  "dur_sub d e = or_panic ArithOverflow (dur_checked_sub d e)"

definition dur_mul :: "duration \<Rightarrow> u32 \<Rightarrow> duration outcome" where
  "dur_mul d k = or_panic ArithOverflow (dur_checked_mul d k)"

definition dur_div :: "duration \<Rightarrow> u32 \<Rightarrow> duration outcome" where
  "dur_div d k = or_panic ArithOverflow (dur_checked_div d k)"

section \<open>Points of time\<close>

type_synonym simtime = duration

definition sim_ZERO :: simtime where "sim_ZERO = dur_ZERO"
definition sim_MIN :: simtime where "sim_MIN = dur_ZERO"
definition sim_MAX :: simtime where "sim_MAX = dur_MAX"

definition sim_checked_duration_since :: "simtime \<Rightarrow> simtime \<Rightarrow> duration option" where
  "sim_checked_duration_since t earlier = dur_checked_sub t earlier"

definition sim_duration_since :: "simtime \<Rightarrow> simtime \<Rightarrow> duration outcome" where
  "sim_duration_since t earlier = or_panic UnwrapNone (sim_checked_duration_since t earlier)"

definition sim_saturating_duration_since :: "simtime \<Rightarrow> simtime \<Rightarrow> duration" where
  "sim_saturating_duration_since t earlier =
     (case sim_checked_duration_since t earlier of Some d \<Rightarrow> d | None \<Rightarrow> dur_ZERO)"

definition sim_duration_diff :: "simtime \<Rightarrow> simtime \<Rightarrow> duration outcome" where
  "sim_duration_diff t u = (if t > u then sim_duration_since t u else sim_duration_since u t)"

definition sim_eq_approx :: "simtime \<Rightarrow> simtime \<Rightarrow> bool outcome" where
  "sim_eq_approx t u = and_then (sim_duration_diff t u) (\<lambda>dur. Inr (dur < dur_from_nanos 10))"

definition sim_checked_add :: "simtime \<Rightarrow> duration \<Rightarrow> simtime option" where
  "sim_checked_add t d = dur_checked_add t d"

definition sim_checked_sub :: "simtime \<Rightarrow> duration \<Rightarrow> simtime option" where
  "sim_checked_sub t d = dur_checked_sub t d"

definition sim_add :: "simtime \<Rightarrow> duration \<Rightarrow> simtime outcome" where
  "sim_add t d = or_panic ExplicitPanic (sim_checked_add t d)"

definition sim_sub :: "simtime \<Rightarrow> duration \<Rightarrow> simtime outcome" where
  "sim_sub t d = or_panic ExplicitPanic (sim_checked_sub t d)"

definition sim_diff :: "simtime \<Rightarrow> simtime \<Rightarrow> duration outcome" where
  "sim_diff t u = sim_duration_since t u"

definition sim_elapsed :: "simtime \<Rightarrow> simtime \<Rightarrow> duration outcome" where
  "sim_elapsed now t = sim_diff now t"

section \<open>Arithmetic\<close>

lemma or_panic_simps [simp]: "or_panic e (Some x) = Inr x" "or_panic e None = Inl e"
  by (simp_all add: or_panic_def)

lemmas sim_simps = sim_add_def sim_sub_def sim_diff_def sim_duration_since_def sim_checked_duration_since_def
  sim_checked_add_def sim_checked_sub_def dur_checked_add_def dur_checked_sub_def

lemma sim_add_eq: "sim_add t d = (if t + d \<le> dur_MAX then Inr (t + d) else Inl ExplicitPanic)"
  by (simp add: sim_simps)

lemma sim_sub_eq: "sim_sub t d = (if d \<le> t then Inr (t - d) else Inl ExplicitPanic)"
  by (simp add: sim_simps)

lemma sim_diff_eq: "sim_diff t u = (if u \<le> t then Inr (t - u) else Inl UnwrapNone)"
  by (simp add: sim_simps)

lemma dur_consts_le: "dur_from_secs s \<le> dur_MAX" "dur_from_millis m \<le> dur_MAX" "dur_from_nanos n \<le> dur_MAX"
proof -
  have b: "unat x \<le> 2 ^ 64 - 1" for x :: u64
  proof -
    have "unat x < 2 ^ LENGTH(64)" by (rule unsigned_less)
    then show ?thesis by simp
  qed
  show "dur_from_secs s \<le> dur_MAX" "dur_from_millis m \<le> dur_MAX" "dur_from_nanos n \<le> dur_MAX"
    using b [of s] b [of m] b [of n]
    by (simp_all add: dur_from_secs_def dur_from_millis_def dur_from_nanos_def dur_MAX_def NANOS_PER_SEC_def)
qed

text \<open>C38:
  Adding a duration to a point of time either panics, exactly when the sum leaves the range, or is undone
  by subtracting the duration and by taking the difference to the start; the saturating operations
  agree with it and stay in the range; differences do not depend on the order.
\<close>

theorem simtime_arithmetic_roundtrip:
  assumes "t \<le> dur_MAX" "d \<le> dur_MAX"
  shows "(sim_add t d = Inl ExplicitPanic \<longleftrightarrow> t + d > dur_MAX) \<and>
    (\<forall>u. sim_add t d = Inr u \<longrightarrow>
       u \<le> dur_MAX \<and> sim_sub u d = Inr t \<and> sim_diff u t = Inr d \<and> sim_duration_diff t u = Inr d \<and>
       sim_duration_diff u t = Inr d \<and> dur_saturating_add t d = u) \<and>
    dur_saturating_add t d \<le> dur_MAX \<and> dur_saturating_sub (dur_saturating_add t d) d \<le> t"
  using assms
  by (auto simp: sim_simps sim_duration_diff_def dur_saturating_add_def dur_saturating_sub_def dur_ZERO_def)

theorem simtime_arithmetic_roundtrip_witness:
  "sim_add 5 7 = Inr 12 \<and> sim_sub 12 7 = Inr 5 \<and> sim_diff 12 5 = Inr 7"
  using simtime_arithmetic_roundtrip [of 5 7] by (simp add: sim_add_eq dur_MAX_def NANOS_PER_SEC_def)

end
