(* ===== verification/Time_Driver.thy ===== *)
theory Time_Driver
  imports Sim_Time "HOL-Library.Multiset"
begin

text \<open>
  \<open>time/driver/\<close>: the heap of sleepers, \<open>Sleep\<close>, \<open>Interval\<close> and \<open>Timeout\<close>, and the runtime's access to its
  driver (\<open>with_time\<close> in \<open>runtime/spawner.rs\<close>, \<open>take_timestep\<close> and \<open>next_wakeup\<close> in \<open>runtime/mod.rs\<close>). The
  state is the simulated clock, the driver in the thread's context, the drivers the runtimes keep while
  they do not run, and the counter of sleep ids.
\<close>

section \<open>The driver\<close>

record sleep_entry =
  e_deadline :: simtime
  e_waker :: waker
  e_id :: usize

record time_driver =
  td_sleeps :: "sleep_entry list"
  td_emitted :: "simtime option"

record sim =
  sim_now :: simtime
  sim_driver :: "time_driver option"
  sim_own :: "nat \<Rightarrow> time_driver option"
  sim_sleep_id :: usize

definition time_driver_new :: time_driver where
  "time_driver_new = \<lparr>td_sleeps = [], td_emitted = None\<rparr>"

text \<open>
  \<open>Entry\<close> is ordered by the deadline, the earliest on top. Which of several entries with the same deadline
  is on top is not specified; here it is the oldest, and no property depends on it.
\<close>

fun heap_peek :: "sleep_entry list \<Rightarrow> sleep_entry option" where
  "heap_peek [] = None"
| "heap_peek (e # es) =
     (case heap_peek es of None \<Rightarrow> Some e | Some m \<Rightarrow> if e_deadline e \<le> e_deadline m then Some e else Some m)"

definition swap_context :: "time_driver \<Rightarrow> sim \<Rightarrow> time_driver option \<times> sim" where
  "swap_context d s = (sim_driver s, s\<lparr>sim_driver := Some d\<rparr>)"

definition is_context_set :: "sim \<Rightarrow> bool" where
  "is_context_set s \<longleftrightarrow> sim_driver s \<noteq> None"

definition unset_context :: "sim \<Rightarrow> (time_driver \<times> sim) outcome" where
  "unset_context s = (case sim_driver s of None \<Rightarrow> Inl UnwrapNone | Some d \<Rightarrow> Inr (d, s\<lparr>sim_driver := None\<rparr>))"

definition with_current :: "(time_driver \<Rightarrow> ('r \<times> time_driver) outcome) \<Rightarrow> sim \<Rightarrow> ('r \<times> sim) outcome" where
  "with_current f s =
     (case sim_driver s of
        None \<Rightarrow> Inl UnwrapNone
      | Some d \<Rightarrow> and_then (f d) (\<lambda>(r, d'). Inr (r, s\<lparr>sim_driver := Some d'\<rparr>)))"

definition wake_sleeper :: "simtime \<Rightarrow> simtime \<Rightarrow> usize \<Rightarrow> waker \<Rightarrow> time_driver \<Rightarrow> (unit \<times> time_driver) outcome" where
  "wake_sleeper now deadline sid cx d =
     and_then (ensure (deadline \<ge> now) AssertFailed) (\<lambda>_.
       if list_ex (\<lambda>e. e_id e = sid) (td_sleeps d) then Inr ((), d)
       else Inr ((), d\<lparr>td_sleeps := td_sleeps d @ [\<lparr>e_deadline = deadline, e_waker = cx, e_id = sid\<rparr>]\<rparr>))"

fun reset_entry :: "usize \<Rightarrow> simtime \<Rightarrow> sleep_entry list \<Rightarrow> sleep_entry list" where
  "reset_entry sid deadline [] = []"
| "reset_entry sid deadline (e # es) =
     (if e_id e = sid then e\<lparr>e_deadline := deadline\<rparr> # es else e # reset_entry sid deadline es)"

definition reset_sleeper :: "usize \<Rightarrow> simtime \<Rightarrow> time_driver \<Rightarrow> (unit \<times> time_driver) outcome" where
  "reset_sleeper sid new_deadline d = Inr ((), d\<lparr>td_sleeps := reset_entry sid new_deadline (td_sleeps d)\<rparr>)"

definition td_next_wakeup :: "time_driver \<Rightarrow> simtime option \<times> time_driver" where
  "td_next_wakeup d =
     (let c = map_option e_deadline (heap_peek (td_sleeps d)) in
      case c of
        None \<Rightarrow> (None, d)
      | Some t \<Rightarrow> if td_emitted d = Some t then (None, d) else (c, d\<lparr>td_emitted := c\<rparr>))"

function take_loop :: "simtime \<Rightarrow> sleep_entry list \<Rightarrow> waker list \<times> sleep_entry list" where
  "take_loop now es =
     (case heap_peek es of
        None \<Rightarrow> ([], es)
      | Some e \<Rightarrow>
          if e_deadline e = now then
            (case take_loop now (remove1 e es) of (ws, rest) \<Rightarrow> (e_waker e # ws, rest))
          else ([], es))"
  by pat_completeness auto

lemma heap_peek_in: "heap_peek es = Some e \<Longrightarrow> e \<in> set es"
  by (induction es arbitrary: e) (auto split: option.splits if_splits)

lemma heap_peek_None [simp]: "heap_peek es = None \<longleftrightarrow> es = []"
  by (cases es) (auto split: option.splits)

termination take_loop
  by (relation "measure (\<lambda>(now, es). length es)")
    (auto dest!: heap_peek_in simp: length_remove1, metis Suc_pred diff_less length_pos_if_in_set lessI less_imp_diff_less zero_less_one)

declare take_loop.simps [simp del]

definition take_timestep :: "simtime \<Rightarrow> time_driver \<Rightarrow> waker list \<times> time_driver" where
  "take_timestep now d = (case take_loop now (td_sleeps d) of (ws, rest) \<Rightarrow> (ws, d\<lparr>td_sleeps := rest\<rparr>))"

section \<open>Sleep\<close>

record sleep_fut =
  sl_deadline :: simtime
  sl_id :: usize

definition sleep_new_timeout :: "simtime \<Rightarrow> sim \<Rightarrow> sleep_fut \<times> sim" where
  "sleep_new_timeout deadline s =
     (\<lparr>sl_deadline = deadline, sl_id = sim_sleep_id s\<rparr>, s\<lparr>sim_sleep_id := sim_sleep_id s + 1\<rparr>)"

definition sleep_far_future :: "sim \<Rightarrow> sleep_fut \<times> sim" where
  "sleep_far_future s = sleep_new_timeout sim_MAX s"

definition sleep_until :: "simtime \<Rightarrow> sim \<Rightarrow> sleep_fut \<times> sim" where
  "sleep_until deadline s = sleep_new_timeout deadline s"

definition sleep :: "duration \<Rightarrow> sim \<Rightarrow> sleep_fut \<times> sim" where
  "sleep dur s =
     (case sim_checked_add (sim_now s) dur of
        Some deadline \<Rightarrow> sleep_new_timeout deadline s
      | None \<Rightarrow> sleep_far_future s)"

definition sleep_is_elapsed :: "sleep_fut \<Rightarrow> sim \<Rightarrow> bool" where
  "sleep_is_elapsed f s \<longleftrightarrow> sl_deadline f \<le> sim_now s"

definition sleep_reset :: "simtime \<Rightarrow> sleep_fut \<Rightarrow> sim \<Rightarrow> (sleep_fut \<times> sim) outcome" where
  "sleep_reset deadline f s =
     and_then (with_current (reset_sleeper (sl_id f) deadline) s) (\<lambda>(_, s'). Inr (f\<lparr>sl_deadline := deadline\<rparr>, s'))"

definition sleep_poll :: "waker \<Rightarrow> sleep_fut \<Rightarrow> sim \<Rightarrow> (unit poll \<times> sim) outcome" where
  "sleep_poll cx f s =
     (if sl_deadline f > sim_now s then
        and_then (with_current (wake_sleeper (sim_now s) (sl_deadline f) (sl_id f) cx) s) (\<lambda>(_, s'). Inr (Pending, s'))
      else Inr (Ready (), s))"

section \<open>Timeout\<close>

text \<open>The future \<open>'f\<close> that is timed is any code with a poll function.\<close>

record 'f timeout =
  to_value :: 'f
  to_delay :: sleep_fut

definition timeout_new :: "duration \<Rightarrow> 'f \<Rightarrow> sim \<Rightarrow> 'f timeout \<times> sim" where
  "timeout_new dur fut s =
     (case (case sim_checked_add (sim_now s) dur of
              Some deadline \<Rightarrow> sleep_new_timeout deadline s
            | None \<Rightarrow> sleep_far_future s) of
        (delay, s') \<Rightarrow> (\<lparr>to_value = fut, to_delay = delay\<rparr>, s'))"

definition timeout_at :: "simtime \<Rightarrow> 'f \<Rightarrow> sim \<Rightarrow> 'f timeout \<times> sim" where
  "timeout_at deadline fut s = (case sleep_until deadline s of (delay, s') \<Rightarrow> (\<lparr>to_value = fut, to_delay = delay\<rparr>, s'))"

text \<open>\<open>Inl ()\<close> is \<open>Err(Elapsed)\<close>.\<close>

definition timeout_poll ::
    "(waker \<Rightarrow> 'f \<Rightarrow> sim \<Rightarrow> ('a poll \<times> 'f \<times> sim) outcome) \<Rightarrow> waker \<Rightarrow> 'f timeout \<Rightarrow> sim \<Rightarrow>
     ((unit + 'a) poll \<times> 'f timeout \<times> sim) outcome" where
  "timeout_poll poll_value cx t s =
     and_then (poll_value cx (to_value t) s) (\<lambda>(r, v, s1).
       let t1 = t\<lparr>to_value := v\<rparr> in
       case r of
         Ready x \<Rightarrow> Inr (Ready (Inr x), t1, s1)
       | Pending \<Rightarrow>
           and_then (sleep_poll cx (to_delay t1) s1) (\<lambda>(d, s2).
             Inr (case d of Ready _ \<Rightarrow> Ready (Inl ()) | Pending \<Rightarrow> Pending, t1, s2)))"

section \<open>Interval\<close>

datatype MissedTickBehavior = Burst | Delay | Skip

record interval =
  iv_delay :: sleep_fut
  iv_period :: duration
  iv_behavior :: MissedTickBehavior

definition next_timeout :: "MissedTickBehavior \<Rightarrow> simtime \<Rightarrow> simtime \<Rightarrow> duration \<Rightarrow> simtime outcome" where
  "next_timeout behavior timeout now period =
     (case behavior of
        Burst \<Rightarrow> sim_add timeout period
      | Delay \<Rightarrow> sim_add now period
      | Skip \<Rightarrow>
          and_then (sim_add now period) (\<lambda>t.
          and_then (sim_diff now timeout) (\<lambda>late.
          and_then (ensure (period \<noteq> 0) ArithOverflow) (\<lambda>_.
          and_then (ensure (late mod period < 2 ^ 64) ExplicitPanic) (\<lambda>_.
            sim_sub t (dur_from_nanos (of_nat (late mod period))))))))"

definition internal_interval_at :: "simtime \<Rightarrow> duration \<Rightarrow> sim \<Rightarrow> interval \<times> sim" where
  "internal_interval_at start period s =
     (case sleep_until start s of (delay, s') \<Rightarrow> (\<lparr>iv_delay = delay, iv_period = period, iv_behavior = Burst\<rparr>, s'))"

definition interval_at :: "simtime \<Rightarrow> duration \<Rightarrow> sim \<Rightarrow> (interval \<times> sim) outcome" where
  "interval_at start period s =
     and_then (ensure (period > 0) AssertFailed) (\<lambda>_. Inr (internal_interval_at start period s))"

definition interval_new :: "duration \<Rightarrow> sim \<Rightarrow> (interval \<times> sim) outcome" where
  "interval_new period s =
     and_then (ensure (period > 0) AssertFailed) (\<lambda>_. Inr (internal_interval_at (sim_now s) period s))"

definition poll_tick :: "waker \<Rightarrow> interval \<Rightarrow> sim \<Rightarrow> (simtime poll \<times> interval \<times> sim) outcome" where
  "poll_tick cx i s =
     and_then (sleep_poll cx (iv_delay i) s) (\<lambda>(r, s1).
       case r of
         Pending \<Rightarrow> Inr (Pending, i, s1)
       | Ready _ \<Rightarrow>
           let timeout = sl_deadline (iv_delay i); now = sim_now s1 in
           and_then (sim_add timeout (dur_from_millis 5)) (\<lambda>late.
           and_then
             (if now > late then next_timeout (iv_behavior i) timeout now (iv_period i)
              else sim_add timeout (iv_period i)) (\<lambda>nxt.
           and_then (sleep_reset nxt (iv_delay i) s1) (\<lambda>(delay, s2).
             Inr (Ready timeout, i\<lparr>iv_delay := delay\<rparr>, s2)))))"

definition interval_reset :: "interval \<Rightarrow> sim \<Rightarrow> (interval \<times> sim) outcome" where
  "interval_reset i s =
     and_then (sim_add (sim_now s) (iv_period i)) (\<lambda>t.
     and_then (sleep_reset t (iv_delay i) s) (\<lambda>(delay, s'). Inr (i\<lparr>iv_delay := delay\<rparr>, s')))"

definition set_missed_tick_behavior :: "MissedTickBehavior \<Rightarrow> interval \<Rightarrow> interval" where
  "set_missed_tick_behavior b i = i\<lparr>iv_behavior := b\<rparr>"

section \<open>The runtime's driver\<close>

text \<open>
  \<open>with_time\<close> of runtime \<open>r\<close>: its driver is in the context while \<open>f\<close> runs. A runtime entered again while
  it runs reuses the driver in the context, which is its own only when no other runtime runs in between.
\<close>

definition with_time :: "nat \<Rightarrow> (sim \<Rightarrow> ('r \<times> sim) outcome) \<Rightarrow> sim \<Rightarrow> ('r \<times> sim) outcome" where
  "with_time r f s =
     (case sim_own s r of
        Some out_driver \<Rightarrow>
          (case swap_context out_driver (s\<lparr>sim_own := (sim_own s)(r := None)\<rparr>) of
             (other, s1) \<Rightarrow>
               and_then (f s1) (\<lambda>(ret, s2).
                 case other of
                   Some o' \<Rightarrow>
                     (case swap_context o' s2 of
                        (Some ours, s3) \<Rightarrow> Inr (ret, s3\<lparr>sim_own := (sim_own s3)(r := Some ours)\<rparr>)
                      | (None, s3) \<Rightarrow> Inl UnwrapNone)
                 | None \<Rightarrow>
                     and_then (unset_context s2) (\<lambda>(ours, s3).
                       Inr (ret, s3\<lparr>sim_own := (sim_own s3)(r := Some ours)\<rparr>))))
      | None \<Rightarrow> if is_context_set s then f s else Inl ExplicitPanic)"

text \<open>\<open>take_timestep\<close> wakes what it took, in order.\<close>

definition rt_take_timestep :: "nat \<Rightarrow> sim \<Rightarrow> (waker list \<times> sim) outcome" where
  "rt_take_timestep r = with_time r (\<lambda>s. with_current (\<lambda>d. Inr (take_timestep (sim_now s) d)) s)"

definition rt_next_wakeup :: "nat \<Rightarrow> sim \<Rightarrow> (simtime option \<times> sim) outcome" where
  "rt_next_wakeup r = with_time r (\<lambda>s. with_current (\<lambda>d. Inr (td_next_wakeup d)) s)"

definition set_now :: "simtime \<Rightarrow> sim \<Rightarrow> sim" where
  "set_now t s = s\<lparr>sim_now := t\<rparr>"

section \<open>Waking sleepers\<close>

lemma heap_peek_min: "heap_peek es = Some e \<Longrightarrow> x \<in> set es \<Longrightarrow> e_deadline e \<le> e_deadline x"
proof (induction es arbitrary: e)
  case (Cons y es)
  then show ?case
    by (cases "heap_peek es") (fastforce split: if_splits)+
qed simp

text \<open>With no deadline in the past, a timestep takes exactly the sleepers that are due.\<close>

lemma take_loop_due:
  assumes "\<forall>e\<in>set es. now \<le> e_deadline e" "take_loop now es = (ws, rest)"
  shows "rest = filter (\<lambda>e. e_deadline e \<noteq> now) es \<and>
    mset ws = image_mset e_waker (mset (filter (\<lambda>e. e_deadline e = now) es))"
  using assms
proof (induction now es arbitrary: ws rest rule: take_loop.induct)
  case (1 now es)
  show ?case
  proof (cases "heap_peek es")
    case None
    then show ?thesis using "1.prems" by (auto simp: take_loop.simps [of now "[]"])
  next
    case (Some e)
    show ?thesis
    proof (cases "e_deadline e = now")
      case False
      have "now < e_deadline x" if "x \<in> set es" for x
        using heap_peek_min [OF Some that] heap_peek_in [OF Some] "1.prems"(1) False by force
      then have "filter (\<lambda>e. e_deadline e \<noteq> now) es = es" "filter (\<lambda>e. e_deadline e = now) es = []"
        by (auto intro!: filter_True simp: filter_empty_conv)
      with Some False "1.prems" show ?thesis by (simp add: take_loop.simps [of now es])
    next
      case True
      obtain ws' rest' where rec: "take_loop now (remove1 e es) = (ws', rest')" by force
      then have out: "ws = e_waker e # ws'" "rest = rest'"
        using "1.prems"(2) Some True by (auto simp: take_loop.simps [of now es])
      have sub: "\<forall>x\<in>set (remove1 e es). now \<le> e_deadline x"
        using "1.prems"(1) set_remove1_subset [of e es] by blast
      note IH = "1.IH" [OF Some True sub rec]
      have "filter (\<lambda>x. e_deadline x \<noteq> now) (remove1 e es) = filter (\<lambda>x. e_deadline x \<noteq> now) es"
        using True by (induction es) auto
      moreover have "mset (filter (\<lambda>x. e_deadline x = now) es) =
          add_mset e (mset (filter (\<lambda>x. e_deadline x = now) (remove1 e es)))"
        using heap_peek_in [OF Some] True by (induction es) auto
      note due = this
      have ws: "mset ws = add_mset (e_waker e) (mset ws')" by (simp add: out)
      have ws': "mset ws' = image_mset e_waker (mset (filter (\<lambda>e. e_deadline e = now) (remove1 e es)))"
        using IH by (rule conjunct2)
      have "mset ws = image_mset e_waker (mset (filter (\<lambda>e. e_deadline e = now) es))"
        by (simp only: ws ws' due image_mset_add_mset)
      with IH out calculation show ?thesis by simp
    qed
  qed
qed

lemma take_loop_blocked:
  assumes "e \<in> set es" "e_deadline e < now"
  shows "take_loop now es = ([], es)"
proof (cases "heap_peek es")
  case None
  then show ?thesis using assms(1) by simp
next
  case (Some m)
  with heap_peek_min [OF Some assms(1)] assms(2) have "e_deadline m \<noteq> now" by simp
  with Some show ?thesis by (simp add: take_loop.simps [of now es])
qed

text \<open>
  The driver as the polls of sleeps, resets, reports and timesteps change it, on a clock that does not jump
  over a deadline: the caller sets it to the reported wakeups or to earlier points.
\<close>

inductive timeline :: "simtime \<Rightarrow> time_driver \<Rightarrow> bool" where
  tl_start: "timeline now time_driver_new"
| tl_poll: "timeline now d \<Longrightarrow> wake_sleeper now deadline sid cx d = Inr ((), d') \<Longrightarrow> timeline now d'"
| tl_reset: "timeline now d \<Longrightarrow> now \<le> t \<Longrightarrow> reset_sleeper sid t d = Inr ((), d') \<Longrightarrow> timeline now d'"
| tl_report: "timeline now d \<Longrightarrow> td_next_wakeup d = (r, d') \<Longrightarrow> timeline now d'"
| tl_take: "timeline now d \<Longrightarrow> take_timestep now d = (ws, d') \<Longrightarrow> timeline now d'"
| tl_advance: "timeline now d \<Longrightarrow> now \<le> t \<Longrightarrow> \<forall>e\<in>set (td_sleeps d). t \<le> e_deadline e \<Longrightarrow> timeline t d"

definition td_inv :: "simtime \<Rightarrow> time_driver \<Rightarrow> bool" where
  "td_inv now d \<longleftrightarrow> (\<forall>e\<in>set (td_sleeps d). now \<le> e_deadline e) \<and> distinct (map e_id (td_sleeps d))"

lemma reset_entry_ids [simp]: "map e_id (reset_entry sid t es) = map e_id es"
  by (induction es) auto

lemma reset_entry_deadlines:
  "\<forall>e\<in>set es. now \<le> e_deadline e \<Longrightarrow> now \<le> t \<Longrightarrow> \<forall>e\<in>set (reset_entry sid t es). now \<le> e_deadline e"
  by (induction es) auto

lemma td_next_wakeup_sleeps: "td_next_wakeup d = (r, d') \<Longrightarrow> td_sleeps d' = td_sleeps d"
  by (auto simp: td_next_wakeup_def Let_def split: option.splits if_splits)

lemma distinct_map_filter_ids: "distinct (map f xs) \<Longrightarrow> distinct (map f (filter P xs))"
  by (induction xs) auto

lemma timeline_inv: "timeline now d \<Longrightarrow> td_inv now d"
proof (induction rule: timeline.induct)
  case (tl_start now)
  then show ?case by (simp add: td_inv_def time_driver_new_def)
next
  case (tl_poll now d deadline sid cx d')
  then show ?case
    by (auto simp: td_inv_def wake_sleeper_def and_then_ensure list_ex_iff split: if_splits)
next
  case (tl_reset now d t sid d')
  then show ?case
    using reset_entry_deadlines by (auto simp: td_inv_def reset_sleeper_def)
next
  case (tl_report now d r d')
  then show ?case by (simp add: td_inv_def td_next_wakeup_sleeps)
next
  case (tl_take now d ws d')
  obtain rest where loop: "take_loop now (td_sleeps d) = (ws, rest)" and d': "td_sleeps d' = rest"
    using tl_take.hyps(2) by (auto simp: take_timestep_def split: prod.splits)
  have "rest = filter (\<lambda>e. e_deadline e \<noteq> now) (td_sleeps d)"
    using take_loop_due [OF _ loop] tl_take.IH by (simp add: td_inv_def)
  with d' tl_take.IH show ?case by (auto simp: td_inv_def intro: distinct_map_filter_ids)
next
  case (tl_advance now d t)
  then show ?case by (simp add: td_inv_def)
qed

text \<open>The runtime's access to its driver.\<close>

lemma with_time_own:
  assumes "sim_own s r = Some d" "f d = Inr (x, d')"
  shows "with_time r (with_current f) s = Inr (x, s\<lparr>sim_own := (sim_own s)(r := Some d')\<rparr>)"
  using assms
  by (cases s) (auto simp: with_time_def swap_context_def unset_context_def with_current_def split: option.splits)

lemma rt_take_timestep_own:
  assumes "sim_own s r = Some d"
  shows "rt_take_timestep r s = (case take_timestep (sim_now s) d of (ws, d') \<Rightarrow>
     Inr (ws, s\<lparr>sim_own := (sim_own s)(r := Some d')\<rparr>))"
proof -
  have "with_time r (\<lambda>s. with_current (\<lambda>d. Inr (take_timestep (sim_now s) d)) s) s =
      with_time r (with_current (\<lambda>d. Inr (take_timestep (sim_now s) d))) s"
    using assms by (simp add: with_time_def swap_context_def with_current_def)
  also have "\<dots> = (case take_timestep (sim_now s) d of (ws, d') \<Rightarrow> Inr (ws, s\<lparr>sim_own := (sim_own s)(r := Some d')\<rparr>))"
    by (cases "take_timestep (sim_now s) d") (simp add: with_time_own [where d = d, OF assms])
  finally show ?thesis by (simp add: rt_take_timestep_def)
qed

text \<open>
  C31: On a clock that never jumps over a deadline, a timestep of a runtime wakes exactly the sleepers that
  are due now, once each, and leaves exactly the others, which are all due later; it does not panic
  and leaves the rest of the runtime's state alone.
\<close>

theorem timestep_wakes_due_sleepers:
  assumes "timeline (sim_now s) d" "sim_own s r = Some d"
  shows "\<exists>ws d'. rt_take_timestep r s = Inr (ws, s\<lparr>sim_own := (sim_own s)(r := Some d')\<rparr>) \<and>
    mset ws = image_mset e_waker (mset (filter (\<lambda>e. e_deadline e = sim_now s) (td_sleeps d))) \<and>
    td_sleeps d' = filter (\<lambda>e. e_deadline e \<noteq> sim_now s) (td_sleeps d) \<and>
    (\<forall>e\<in>set (td_sleeps d'). sim_now s < e_deadline e)"
proof -
  have inv: "\<forall>e\<in>set (td_sleeps d). sim_now s \<le> e_deadline e"
    using timeline_inv [OF assms(1)] by (simp add: td_inv_def)
  obtain ws rest where loop: "take_loop (sim_now s) (td_sleeps d) = (ws, rest)" by force
  have take: "take_timestep (sim_now s) d = (ws, d\<lparr>td_sleeps := rest\<rparr>)"
    by (simp add: take_timestep_def loop)
  from take_loop_due [OF inv loop] inv show ?thesis
    by (intro exI [of _ ws] exI [of _ "d\<lparr>td_sleeps := rest\<rparr>"])
      (auto simp: rt_take_timestep_own [OF assms(2)] take order_le_less)
qed

text \<open>
  C32: Once the clock is past a deadline in the heap, no timestep at any later time wakes anyone, neither the
  missed sleeper nor any other sleeper of the runtime.
\<close>

theorem missed_deadline_blocks_all_sleepers:
  assumes "sim_own s r = Some d" "e \<in> set (td_sleeps d)" "e_deadline e < sim_now s"
  shows "\<forall>t\<ge>sim_now s. rt_take_timestep r (set_now t s) = Inr ([], set_now t s)"
proof (intro allI impI)
  fix t
  assume "t \<ge> sim_now s"
  then have loop: "take_loop t (td_sleeps d) = ([], td_sleeps d)"
    using assms(2, 3) by (intro take_loop_blocked [of e]) simp_all
  have "sim_own (set_now t s) r = Some d" using assms(1) by (simp add: set_now_def)
  from rt_take_timestep_own [OF this] show "rt_take_timestep r (set_now t s) = Inr ([], set_now t s)"
    using assms(1) by (cases s) (auto simp: take_timestep_def set_now_def loop fun_upd_idem)
qed

text \<open>
  A pending sleep keeps the waker of its first poll: polled again with another waker it stays registered
  with the first, and the timestep at its deadline wakes the first and not the second.
\<close>

lemma sleep_keeps_first_waker:
  assumes "sim_driver s = Some time_driver_new" "sim_now s < sl_deadline f" "cx2 \<noteq> cx1"
  shows "\<exists>s1 d. sleep_poll cx1 f s = Inr (Pending, s1) \<and> sleep_poll cx2 f s1 = Inr (Pending, s1) \<and>
    sim_driver s1 = Some d \<and> fst (take_timestep (sl_deadline f) d) = [cx1]"
  using assms
  by (auto simp: sleep_poll_def with_current_def wake_sleeper_def time_driver_new_def take_timestep_def
      take_loop.simps)

text \<open>
  The report of the next wakeup is the earliest deadline; nothing is reported only if nobody sleeps or
  if the last report was that deadline.
\<close>

lemma next_wakeup_is_earliest:
  "case td_next_wakeup d of (r, d') \<Rightarrow> td_sleeps d' = td_sleeps d \<and>
     (case r of
        Some t \<Rightarrow> (\<exists>e\<in>set (td_sleeps d). e_deadline e = t) \<and> (\<forall>e\<in>set (td_sleeps d). t \<le> e_deadline e) \<and> td_emitted d' = Some t
      | None \<Rightarrow> td_sleeps d = [] \<or>
          (\<exists>e\<in>set (td_sleeps d). td_emitted d = Some (e_deadline e) \<and> (\<forall>x\<in>set (td_sleeps d). e_deadline e \<le> e_deadline x)))"
  using heap_peek_in [of "td_sleeps d"] heap_peek_min [of "td_sleeps d"]
  by (auto simp: td_next_wakeup_def Let_def split: option.splits prod.splits)

section \<open>Intervals\<close>

lemma sleep_poll_Ready: "sleep_poll cx f s = Inr (Ready u, s') \<longleftrightarrow> s' = s \<and> sl_deadline f \<le> sim_now s"
  by (auto simp: sleep_poll_def and_then_eq_Inr with_current_def split: option.splits if_splits)

lemma sleep_reset_deadline: "sleep_reset t f s = Inr (f', s') \<Longrightarrow> sl_deadline f' = t \<and> sl_id f' = sl_id f"
  by (auto simp: sleep_reset_def and_then_eq_Inr)

lemma skip_timeout:
  assumes "timeout \<le> now" "0 < period" "next_timeout Skip timeout now period = Inr u"
  shows "u = timeout + ((now - timeout) div period + 1) * period"
proof -
  define late where "late = (now - timeout) mod period"
  have u: "u = now + period - unat (of_nat late :: u64)" "late < 2 ^ 64" "unat (of_nat late :: u64) \<le> now + period"
    using assms(3)
    by (auto simp: next_timeout_def and_then_eq_Inr and_then_ensure sim_add_eq sim_sub_eq sim_diff_eq
        dur_from_nanos_def late_def split: if_splits)
  have "unat (of_nat late :: u64) = late"
    using u(2) by (intro unat_of_nat_small) simp
  with u(1) have "u = now + period - late" by simp
  moreover have "now = timeout + ((now - timeout) div period) * period + late"
    using assms(1) by (simp add: late_def add.assoc)
  ultimately show ?thesis by (simp add: add_mult_distrib)
qed

text \<open>
  A tick reports the time it was scheduled for, which is not later than now. The next one follows after
  one period; more than 5 ms late, with \<open>Delay\<close> one period from now, and with \<open>Skip\<close> at the first point
  of the original grid after now, so that at most one period passes and no phase is lost.
\<close>

lemma interval_tick_schedule:
  assumes "poll_tick cx i s = Inr (Ready t, i', s')" "0 < iv_period i"
  shows "t = sl_deadline (iv_delay i) \<and> t \<le> sim_now s \<and> iv_period i' = iv_period i \<and>
    (let u = sl_deadline (iv_delay i'); p = iv_period i in
     if sim_now s \<le> t + 5000000 \<or> iv_behavior i = Burst then u = t + p
     else if iv_behavior i = Delay then u = sim_now s + p
     else (\<exists>k. u = t + k * p) \<and> sim_now s < u \<and> u \<le> sim_now s + p)"
proof -
  obtain r s1 where poll: "sleep_poll cx (iv_delay i) s = Inr (r, s1)"
    using assms(1) by (auto simp: poll_tick_def and_then_eq_Inr)
  then have "r = Ready ()" using assms(1) by (cases r) (auto simp: poll_tick_def)
  with poll have poll: "sleep_poll cx (iv_delay i) s = Inr (Ready (), s)" "sl_deadline (iv_delay i) \<le> sim_now s"
    by (simp_all add: sleep_poll_Ready)
  obtain late nxt delay where
    ready: "sl_deadline (iv_delay i) \<le> sim_now s" and t: "t = sl_deadline (iv_delay i)"
    and late: "sim_add t (dur_from_millis 5) = Inr late"
    and nxt: "(if sim_now s > late then next_timeout (iv_behavior i) t (sim_now s) (iv_period i)
        else sim_add t (iv_period i)) = Inr nxt"
    and reset: "sleep_reset nxt (iv_delay i) s = Inr (delay, s')" and i': "i' = i\<lparr>iv_delay := delay\<rparr>"
    using assms(1) poll by (auto simp: poll_tick_def and_then_eq_Inr Let_def)
  have late_eq: "late = t + 5000000"
    using late by (auto simp: sim_add_eq dur_from_millis_def split: if_splits)
  have u: "sl_deadline (iv_delay i') = nxt"
    using sleep_reset_deadline [OF reset] i' by simp
  consider (near) "sim_now s \<le> late \<or> iv_behavior i = Burst"
    | (delay) "\<not> sim_now s \<le> late" "iv_behavior i = Delay"
    | (skip) "\<not> sim_now s \<le> late" "iv_behavior i = Skip"
    by (cases "iv_behavior i") auto
  then show ?thesis
  proof cases
    case near
    with nxt have "nxt = t + iv_period i"
      by (auto simp: next_timeout_def sim_add_eq split: if_splits)
    with near t ready u i' late_eq show ?thesis by (auto simp: Let_def)
  next
    case delay
    with nxt have "nxt = sim_now s + iv_period i"
      by (auto simp: next_timeout_def sim_add_eq split: if_splits)
    with delay t ready u i' late_eq show ?thesis by (auto simp: Let_def)
  next
    case skip
    define q where "q = (sim_now s - t) div iv_period i * iv_period i"
    have "nxt = t + ((sim_now s - t) div iv_period i + 1) * iv_period i"
      using skip nxt ready t assms(2) by (intro skip_timeout) simp_all
    then have grid: "\<exists>k. nxt = t + k * iv_period i" and nxt: "nxt = t + q + iv_period i"
      by (blast, simp add: q_def algebra_simps)
    have "q \<le> sim_now s - t" "sim_now s - t < q + iv_period i"
      using assms(2) by (simp_all add: q_def dividend_less_div_times add.commute)
    with ready t nxt have "sim_now s < nxt" "nxt \<le> sim_now s + iv_period i" by linarith+
    with grid skip t ready u i' late_eq show ?thesis by (simp add: Let_def)
  qed
qed

section \<open>Concrete runs\<close>

abbreviation waiting_driver :: time_driver where
  "waiting_driver \<equiv> \<lparr>td_sleeps = [\<lparr>e_deadline = 10, e_waker = 3, e_id = 0\<rparr>], td_emitted = None\<rparr>"

abbreviation sim_at :: "simtime \<Rightarrow> time_driver option \<Rightarrow> time_driver option \<Rightarrow> sim" where
  "sim_at now current own \<equiv> \<lparr>sim_now = now, sim_driver = current, sim_own = (\<lambda>r. if r = 0 then own else None), sim_sleep_id = 1\<rparr>"

lemma waiting_timeline: "timeline 10 waiting_driver"
proof -
  have "timeline 0 waiting_driver"
    using tl_poll [OF tl_start, of 0 10 0 3 waiting_driver] by (simp add: wake_sleeper_def time_driver_new_def)
  then show ?thesis by (rule tl_advance) simp_all
qed

theorem timestep_wakes_due_sleepers_witness:
  "timeline 10 waiting_driver \<and> (\<exists>s. rt_take_timestep 0 (sim_at 10 None (Some waiting_driver)) = Inr ([3], s))"
  using waiting_timeline timestep_wakes_due_sleepers [of "sim_at 10 None (Some waiting_driver)" waiting_driver 0] by auto

theorem missed_deadline_blocks_all_sleepers_witness:
  "rt_take_timestep 0 (set_now 20 (sim_at 11 None (Some waiting_driver))) =
     Inr ([], set_now 20 (sim_at 11 None (Some waiting_driver)))"
  using missed_deadline_blocks_all_sleepers
    [of "sim_at 11 None (Some waiting_driver)" 0 waiting_driver "\<lparr>e_deadline = 10, e_waker = 3, e_id = 0\<rparr>"] by simp

lemma sleep_keeps_first_waker_witness:
  "\<exists>s1 d. sleep_poll 4 \<lparr>sl_deadline = 10, sl_id = 0\<rparr> s1 = Inr (Pending, s1) \<and>
     sim_driver s1 = Some d \<and> fst (take_timestep 10 d) = [3]"
  using sleep_keeps_first_waker [of "sim_at 0 (Some time_driver_new) None" "\<lparr>sl_deadline = 10, sl_id = 0\<rparr>" 4 3] by auto

lemma next_wakeup_is_earliest_witness:
  "td_next_wakeup waiting_driver = (Some 10, waiting_driver\<lparr>td_emitted := Some 10\<rparr>) \<and>
   td_next_wakeup (waiting_driver\<lparr>td_emitted := Some 10\<rparr>) = (None, waiting_driver\<lparr>td_emitted := Some 10\<rparr>)"
  using next_wakeup_is_earliest [of waiting_driver] next_wakeup_is_earliest [of "waiting_driver\<lparr>td_emitted := Some 10\<rparr>"]
  by (simp add: td_next_wakeup_def Let_def)

text \<open>A tick due at 0, seen 27 ms later, with a period of 10 ms: the next one is due at 30 ms.\<close>

abbreviation skipping :: "simtime \<Rightarrow> interval" where
  "skipping t \<equiv> \<lparr>iv_delay = \<lparr>sl_deadline = t, sl_id = 5\<rparr>, iv_period = 10000000, iv_behavior = Skip\<rparr>"

lemma late_tick:
  "poll_tick 3 (skipping 0) (sim_at 27000000 (Some time_driver_new) None) =
     Inr (Ready 0, skipping 30000000, sim_at 27000000 (Some time_driver_new) None)"
  by (simp add: poll_tick_def sleep_poll_def next_timeout_def sim_add_eq sim_sub_eq sim_diff_eq dur_MAX_def
      NANOS_PER_SEC_def dur_from_millis_def dur_from_nanos_def sleep_reset_def with_current_def
      reset_sleeper_def time_driver_new_def Let_def)

lemma interval_tick_schedule_witness:
  "(30000000 :: nat) > 27000000 \<and> (\<exists>k. sl_deadline (iv_delay (skipping 30000000)) = 0 + k * 10000000)"
  using interval_tick_schedule [OF late_tick] by (simp add: Let_def)

end
