(* ===== verification/Mpsc_List.thy ===== *)
theory Mpsc_List
  imports Prelude
begin

text \<open>
  \<open>sync/mpsc/block.rs\<close> and \<open>sync/mpsc/list.rs\<close>: the queue of a channel, a linked list of blocks of 32 slots.
  Senders claim a slot by counting \<open>tail_position\<close> up and later find its block and write it; the
  receiver reads slots in order and hands blocks it is done with back to the end of the list. The
  blocks live on a heap of addresses; a fresh address is never one that was used before.
\<close>

section \<open>Blocks\<close>

text \<open>A slot that was not written holds no value (\<open>MaybeUninit\<close>).\<close>

record 'a block =
  b_start_index :: usize
  b_next :: "nat option"
  b_ready_slots :: usize
  b_observed_tail_position :: usize
  b_values :: "nat \<Rightarrow> 'a option"

definition BLOCK_CAP :: usize where "BLOCK_CAP = 32"
definition BLOCK_MASK :: usize where "BLOCK_MASK = NOT (BLOCK_CAP - 1)"
definition SLOT_MASK :: usize where "SLOT_MASK = BLOCK_CAP - 1"
definition RELEASED :: usize where "RELEASED = push_bit 32 1"
definition TX_CLOSED :: usize where "TX_CLOSED = push_bit 1 RELEASED"
definition READY_MASK :: usize where "READY_MASK = RELEASED - 1"

definition start_index :: "usize \<Rightarrow> usize" where
  "start_index slot_index = BLOCK_MASK AND slot_index"

definition slot_offset :: "usize \<Rightarrow> usize" where
  "slot_offset slot_index = SLOT_MASK AND slot_index"

definition block_new :: "usize \<Rightarrow> 'a block" where
  "block_new start = \<lparr>b_start_index = start, b_next = None, b_ready_slots = 0, b_observed_tail_position = 0,
     b_values = (\<lambda>_. None)\<rparr>"

definition is_at_index :: "usize \<Rightarrow> 'a block \<Rightarrow> bool" where
  "is_at_index index b \<longleftrightarrow> b_start_index b = index"

definition block_distance :: "usize \<Rightarrow> 'a block \<Rightarrow> usize" where
  "block_distance other_index b = (other_index - b_start_index b) div BLOCK_CAP"

definition is_slot_ready :: "usize \<Rightarrow> nat \<Rightarrow> bool" where
  "is_slot_ready bits slot \<longleftrightarrow> push_bit slot 1 = push_bit slot 1 AND bits"

definition is_tx_closed :: "usize \<Rightarrow> bool" where
  "is_tx_closed bits \<longleftrightarrow> TX_CLOSED = bits AND TX_CLOSED"

text \<open>\<open>Read\<close>; no result at all is \<open>None\<close>. Reading a slot that is marked ready but was not written fails.\<close>

datatype 'a read = ReadValue 'a | ReadClosed

definition block_read :: "usize \<Rightarrow> 'a block \<Rightarrow> 'a read option outcome" where
  "block_read slot_index b =
     (let offset = unat (slot_offset slot_index); ready_bits = b_ready_slots b in
      if \<not> is_slot_ready ready_bits offset then
        (if is_tx_closed ready_bits then Inr (Some ReadClosed) else Inr None)
      else (case b_values b offset of None \<Rightarrow> Inl Uninitialised | Some v \<Rightarrow> Inr (Some (ReadValue v))))"

definition set_ready :: "nat \<Rightarrow> 'a block \<Rightarrow> 'a block" where
  "set_ready slot b = b\<lparr>b_ready_slots := b_ready_slots b OR push_bit slot 1\<rparr>"

definition block_write :: "usize \<Rightarrow> 'a \<Rightarrow> 'a block \<Rightarrow> 'a block" where
  "block_write slot_index v b =
     (let offset = unat (slot_offset slot_index) in
      set_ready offset (b\<lparr>b_values := (b_values b)(offset := Some v)\<rparr>))"

definition tx_close :: "'a block \<Rightarrow> 'a block" where
  "tx_close b = b\<lparr>b_ready_slots := b_ready_slots b OR TX_CLOSED\<rparr>"

definition block_reclaim :: "'a block \<Rightarrow> 'a block" where
  "block_reclaim b = b\<lparr>b_start_index := 0, b_next := None, b_ready_slots := 0\<rparr>"

definition tx_release :: "usize \<Rightarrow> 'a block \<Rightarrow> 'a block" where
  "tx_release tail_position b =
     b\<lparr>b_observed_tail_position := tail_position, b_ready_slots := b_ready_slots b OR RELEASED\<rparr>"

definition is_final :: "'a block \<Rightarrow> bool" where
  "is_final b \<longleftrightarrow> b_ready_slots b AND READY_MASK = READY_MASK"

definition observed_tail_position :: "'a block \<Rightarrow> usize option" where
  "observed_tail_position b =
     (if 0 = RELEASED AND b_ready_slots b then None else Some (b_observed_tail_position b))"

section \<open>The list\<close>

text \<open>The halves \<open>Tx\<close> and \<open>Rx\<close> and the heap of the blocks they share.\<close>

record 'a mlist =
  ml_heap :: "nat \<Rightarrow> 'a block option"
  ml_fresh :: nat
  ml_block_tail :: nat
  ml_tail_position :: usize
  ml_head :: nat
  ml_index :: usize
  ml_free_head :: nat

definition mlist_channel :: "'a mlist" where
  "mlist_channel = \<lparr>ml_heap = [0 \<mapsto> block_new 0], ml_fresh = 1, ml_block_tail = 0, ml_tail_position = 0,
     ml_head = 0, ml_index = 0, ml_free_head = 0\<rparr>"

definition deref :: "nat \<Rightarrow> 'a mlist \<Rightarrow> 'a block outcome" where
  "deref a m = (case ml_heap m a of None \<Rightarrow> Inl Uninitialised | Some b \<Rightarrow> Inr b)"

definition put_block :: "nat \<Rightarrow> 'a block \<Rightarrow> 'a mlist \<Rightarrow> 'a mlist" where
  "put_block a b m = m\<lparr>ml_heap := (ml_heap m)(a \<mapsto> b)\<rparr>"

definition load_next :: "nat \<Rightarrow> 'a mlist \<Rightarrow> nat option outcome" where
  "load_next a m =
     and_then (deref a m) (\<lambda>b.
       case b_next b of
         None \<Rightarrow> Inr None
       | Some n \<Rightarrow>
           and_then (deref n m) (\<lambda>nb.
           and_then (ensure (b_start_index nb = b_start_index b + BLOCK_CAP) AssertFailed) (\<lambda>_. Inr (Some n))))"

text \<open>\<open>try_push\<close> of the block at \<open>new\<close> behind the one at \<open>a\<close>: \<open>Some n\<close> is \<open>Err(n)\<close>.\<close>

definition try_push :: "nat \<Rightarrow> nat \<Rightarrow> 'a mlist \<Rightarrow> (nat option \<times> 'a mlist) outcome" where
  "try_push a new m =
     and_then (deref a m) (\<lambda>b.
     and_then (deref new m) (\<lambda>nb.
       let m1 = put_block new (nb\<lparr>b_start_index := b_start_index b + BLOCK_CAP\<rparr>) m in
       and_then (deref a m1) (\<lambda>b1.
         case b_next b1 of
           None \<Rightarrow> Inr (None, put_block a (b1\<lparr>b_next := Some new\<rparr>) m1)
         | Some n \<Rightarrow> Inr (Some n, m1))))"

text \<open>\<open>grow\<close>: the new block goes behind \<open>a\<close>, or to the end of the list when another one is already there.\<close>

partial_function (option) grow_loop :: "nat \<Rightarrow> nat \<Rightarrow> nat \<Rightarrow> 'a mlist \<Rightarrow> (nat \<times> 'a mlist) outcome option" where
  "grow_loop next cur new m =
     bind_oo (Some (try_push cur new m)) (\<lambda>(actual, m').
       case actual of
         None \<Rightarrow> Some (Inr (next, m'))
       | Some cur' \<Rightarrow> grow_loop next cur' new m')"

definition block_grow :: "nat \<Rightarrow> 'a mlist \<Rightarrow> (nat \<times> 'a mlist) outcome option" where
  "block_grow a m =
     bind_oo (Some (deref a m)) (\<lambda>b.
     bind_oo (Some (ensure (unat (b_start_index b) + unat BLOCK_CAP < 2 ^ 64) ArithOverflow)) (\<lambda>_.
       let new = ml_fresh m;
           m1 = put_block new (block_new (b_start_index b + BLOCK_CAP)) (m\<lparr>ml_fresh := new + 1\<rparr>) in
       case b_next b of
         None \<Rightarrow> Some (Inr (new, put_block a (b\<lparr>b_next := Some new\<rparr>) m1))
       | Some next \<Rightarrow> grow_loop next next new m1))"

section \<open>The sending half\<close>

partial_function (option) find_loop ::
    "usize \<Rightarrow> bool \<Rightarrow> nat \<Rightarrow> 'a mlist \<Rightarrow> (nat \<times> 'a mlist) outcome option" where
  "find_loop start try_updating_tail block_ptr m =
     bind_oo (Some (deref block_ptr m)) (\<lambda>block.
       if is_at_index start block then Some (Inr (block_ptr, m))
       else
         bind_oo (Some (load_next block_ptr m)) (\<lambda>nxt.
         bind_oo (case nxt of Some n \<Rightarrow> Some (Inr (n, m)) | None \<Rightarrow> block_grow block_ptr m) (\<lambda>(next_block, m1).
         bind_oo (Some (deref block_ptr m1)) (\<lambda>block.
           let update = try_updating_tail \<and> is_final block;
               swapped = update \<and> ml_block_tail m1 = block_ptr;
               m2 = (if swapped
                     then put_block block_ptr (tx_release (ml_tail_position m1) block) (m1\<lparr>ml_block_tail := next_block\<rparr>)
                     else m1) in
           find_loop start swapped next_block m2))))"

definition find_block :: "usize \<Rightarrow> 'a mlist \<Rightarrow> (nat \<times> 'a mlist) outcome option" where
  "find_block slot_index m =
     bind_oo (Some (deref (ml_block_tail m) m)) (\<lambda>block.
       find_loop (start_index slot_index)
         (block_distance (start_index slot_index) block > slot_offset slot_index) (ml_block_tail m) m)"

text \<open>
  \<open>push\<close> in its two steps: a slot is claimed, and later written, when other senders may have claimed and
  written theirs.
\<close>

definition claim_slot :: "'a mlist \<Rightarrow> usize \<times> 'a mlist" where
  "claim_slot m = (ml_tail_position m, m\<lparr>ml_tail_position := ml_tail_position m + 1\<rparr>)"

definition write_slot :: "usize \<Rightarrow> 'a \<Rightarrow> 'a mlist \<Rightarrow> (unit \<times> 'a mlist) outcome option" where
  "write_slot slot_index v m =
     bind_oo (find_block slot_index m) (\<lambda>(a, m1).
     bind_oo (Some (deref a m1)) (\<lambda>b. Some (Inr ((), put_block a (block_write slot_index v b) m1))))"

definition mlist_push :: "'a \<Rightarrow> 'a mlist \<Rightarrow> (unit \<times> 'a mlist) outcome option" where
  "mlist_push v m = (case claim_slot m of (slot_index, m1) \<Rightarrow> write_slot slot_index v m1)"

definition mlist_close :: "'a mlist \<Rightarrow> (unit \<times> 'a mlist) outcome option" where
  "mlist_close m =
     (case claim_slot m of (slot_index, m1) \<Rightarrow>
        bind_oo (find_block slot_index m1) (\<lambda>(a, m2).
        bind_oo (Some (deref a m2)) (\<lambda>b. Some (Inr ((), put_block a (tx_close b) m2)))))"

text \<open>\<open>reclaim_block\<close> tries three places to put the block and frees it otherwise.\<close>

primrec reclaim_tries :: "nat \<Rightarrow> nat \<Rightarrow> nat \<Rightarrow> 'a mlist \<Rightarrow> (bool \<times> 'a mlist) outcome" where
  "reclaim_tries 0 cur block m = Inr (False, m)"
| "reclaim_tries (Suc k) cur block m =
     and_then (try_push cur block m) (\<lambda>(r, m'). case r of None \<Rightarrow> Inr (True, m') | Some next \<Rightarrow> reclaim_tries k next block m')"

definition reclaim_block :: "nat \<Rightarrow> 'a mlist \<Rightarrow> 'a mlist outcome" where
  "reclaim_block a m =
     and_then (deref a m) (\<lambda>b.
     and_then (reclaim_tries 3 (ml_block_tail m) a (put_block a (block_reclaim b) m)) (\<lambda>(reused, m').
       Inr (if reused then m' else m'\<lparr>ml_heap := (ml_heap m')(a := None)\<rparr>)))"

section \<open>The receiving half\<close>

partial_function (option) try_advancing_head :: "'a mlist \<Rightarrow> (bool \<times> 'a mlist) outcome option" where
  "try_advancing_head m =
     bind_oo (Some (deref (ml_head m) m)) (\<lambda>block.
       if is_at_index (start_index (ml_index m)) block then Some (Inr (True, m))
       else
         bind_oo (Some (load_next (ml_head m) m)) (\<lambda>nxt.
           case nxt of
             None \<Rightarrow> Some (Inr (False, m))
           | Some next_block \<Rightarrow> try_advancing_head (m\<lparr>ml_head := next_block\<rparr>)))"

partial_function (option) reclaim_blocks :: "'a mlist \<Rightarrow> 'a mlist outcome option" where
  "reclaim_blocks m =
     (if ml_free_head m = ml_head m then Some (Inr m)
      else
        let block = ml_free_head m in
        bind_oo (Some (deref block m)) (\<lambda>b.
          case observed_tail_position b of
            None \<Rightarrow> Some (Inr m)
          | Some required_index \<Rightarrow>
              if required_index > ml_index m then Some (Inr m)
              else
                bind_oo (Some (load_next block m)) (\<lambda>nxt.
                  case nxt of
                    None \<Rightarrow> Some (Inl UnwrapNone)
                  | Some next_block \<Rightarrow>
                      bind_oo (Some (reclaim_block block (m\<lparr>ml_free_head := next_block\<rparr>))) reclaim_blocks)))"

definition mlist_pop :: "'a mlist \<Rightarrow> ('a read option \<times> 'a mlist) outcome option" where
  "mlist_pop m =
     bind_oo (try_advancing_head m) (\<lambda>(ok, m1).
       if \<not> ok then Some (Inr (None, m1))
       else
         bind_oo (reclaim_blocks m1) (\<lambda>m2.
         bind_oo (Some (deref (ml_head m2) m2)) (\<lambda>block.
         bind_oo (Some (block_read (ml_index m2) block)) (\<lambda>ret.
           Some (Inr (ret, case ret of Some (ReadValue _) \<Rightarrow> m2\<lparr>ml_index := ml_index m2 + 1\<rparr> | _ \<Rightarrow> m2))))))"

datatype 'a try_pop = PopOk 'a | PopEmpty | PopClosed | PopBusy

definition mlist_try_pop :: "'a mlist \<Rightarrow> ('a try_pop \<times> 'a mlist) outcome option" where
  "mlist_try_pop m =
     (let tail_position = ml_tail_position m in
      bind_oo (mlist_pop m) (\<lambda>(result, m').
        Some (Inr (case result of
            Some (ReadValue t) \<Rightarrow> PopOk t
          | Some ReadClosed \<Rightarrow> PopClosed
          | None \<Rightarrow> if tail_position = ml_index m' then PopEmpty else PopBusy, m'))))"

partial_function (option) free_loop :: "nat option \<Rightarrow> 'a mlist \<Rightarrow> 'a mlist outcome option" where
  "free_loop cur m =
     (case cur of
        None \<Rightarrow> Some (Inr m)
      | Some block \<Rightarrow>
          bind_oo (Some (load_next block m)) (\<lambda>nxt. free_loop nxt (m\<lparr>ml_heap := (ml_heap m)(block := None)\<rparr>)))"

definition free_blocks :: "'a mlist \<Rightarrow> 'a mlist outcome option" where
  "free_blocks m = free_loop (Some (ml_free_head m)) m"

section \<open>Positions and bits\<close>

lemma slot_mask_eq: "SLOT_MASK = mask 5" "BLOCK_MASK = NOT (mask 5)"
  by (simp_all add: SLOT_MASK_def BLOCK_MASK_def BLOCK_CAP_def mask_eq_exp_minus_1)

lemma unat_slot_offset: "unat (slot_offset s) = unat s mod 32"
proof -
  have "slot_offset s = take_bit 5 s"
    by (simp add: slot_offset_def slot_mask_eq and.commute take_bit_eq_mask)
  then have "unat (slot_offset s) = take_bit 5 (unat s)" by (simp only: unsigned_take_bit_eq)
  then show ?thesis by (simp add: take_bit_eq_mod)
qed

lemma and_not_plus_and: "(s AND NOT m) + (s AND m) = (s :: usize)"
proof -
  have "(s AND NOT m) + (s AND m) = (s AND NOT m) OR (s AND m)"
    by (rule disjunctive_add) (auto simp: bit_simps)
  also have "\<dots> = s" by (intro bit_word_eqI) (auto simp: bit_simps)
  finally show ?thesis .
qed

lemma start_index_eq: "start_index s = s - slot_offset s"
  using and_not_plus_and [of s "mask 5"]
  by (simp add: start_index_def slot_offset_def slot_mask_eq and.commute eq_diff_eq)

lemma unat_start_index: "unat (start_index s) = 32 * (unat s div 32)"
proof -
  have "slot_offset s \<le> s" by (simp add: word_le_nat_alt unat_slot_offset)
  then have "unat (start_index s) = unat s - unat s mod 32"
    by (simp add: start_index_eq unat_sub unat_slot_offset)
  then show ?thesis by (simp add: minus_mod_eq_mult_div)
qed

lemma is_slot_ready_bit: "j < 64 \<Longrightarrow> is_slot_ready bits j \<longleftrightarrow> bit bits j"
  using flag_test_bit [of j bits] by (auto simp: is_slot_ready_def and.commute)

lemma TX_CLOSED_push: "TX_CLOSED = push_bit 33 1"
  by (simp add: TX_CLOSED_def RELEASED_def)

lemma is_tx_closed_bit: "is_tx_closed bits \<longleftrightarrow> bit bits 33"
  unfolding is_tx_closed_def TX_CLOSED_push using flag_test_bit [of 33 bits] by auto

lemma push_and: "push_bit k 1 AND x = (if bit x k then push_bit k 1 else 0)" for x :: usize
  by (intro bit_word_eqI) (auto simp: bit_simps)

lemma released_bit: "0 = RELEASED AND bits \<longleftrightarrow> \<not> bit bits 32"
proof -
  have "RELEASED \<noteq> 0" by (simp add: RELEASED_def push_bit_eq_mult)
  then show ?thesis unfolding RELEASED_def push_and by auto
qed

lemma and_mask_bits: "k \<le> 64 \<Longrightarrow> x AND mask k = mask k \<longleftrightarrow> (\<forall>j<k. bit x j)" for x :: usize
  by (auto simp: bit_eq_iff bit_simps) (metis less_le_trans)

lemma is_final_bits: "is_final b \<longleftrightarrow> (\<forall>j<32. bit (b_ready_slots b) j)"
proof -
  have "READY_MASK = mask 32" by (simp add: READY_MASK_def RELEASED_def mask_eq_exp_minus_1 push_bit_eq_mult)
  then show ?thesis using and_mask_bits [of 32 "b_ready_slots b"] by (simp only: is_final_def)
qed

lemma bit_or_push: "j < 64 \<Longrightarrow> bit ((x :: usize) OR push_bit k 1) j \<longleftrightarrow> j = k \<or> bit x j"
  by (auto simp: bit_simps)

lemma bit_or_RELEASED: "j < 64 \<Longrightarrow> bit (x OR RELEASED) j \<longleftrightarrow> j = 32 \<or> bit x j"
  unfolding RELEASED_def by (rule bit_or_push)

lemma bit_or_TX_CLOSED: "j < 64 \<Longrightarrow> bit (x OR TX_CLOSED) j \<longleftrightarrow> j = 33 \<or> bit x j"
  unfolding TX_CLOSED_push by (rule bit_or_push)

text \<open>Adding the capacity stays in range far from the end of the machine's numbers.\<close>

lemma unat_BLOCK_CAP [simp]: "unat BLOCK_CAP = 32"
  by (simp add: BLOCK_CAP_def)

lemma unat_add_cap: "unat (s :: usize) + 32 < 2 ^ 64 \<Longrightarrow> unat (s + BLOCK_CAP) = unat s + 32"
  by (simp add: unat_word_ariths)

section \<open>What a list represents\<close>

text \<open>
  \<open>slots n\<close> is the value written to position \<open>n\<close>, \<open>closed\<close> the position taken by \<open>close\<close>. A list holds them
  in the blocks at the addresses \<open>bs\<close>, the first of which starts at position \<open>32 * b0\<close>; \<open>h\<close> and \<open>t\<close> are the
  places of the receiver's and the senders' block in \<open>bs\<close>. Nothing else is on the heap.
\<close>

definition block_ok :: "nat \<Rightarrow> nat option \<Rightarrow> (nat \<Rightarrow> 'a option) \<Rightarrow> nat option \<Rightarrow> bool \<Rightarrow> 'a block \<Rightarrow> bool" where
  "block_ok k nxt slots closed before b \<longleftrightarrow>
     unat (b_start_index b) = 32 * k \<and> b_next b = nxt \<and>
     (\<forall>j<32. bit (b_ready_slots b) j \<longleftrightarrow> slots (32 * k + j) \<noteq> None) \<and>
     (\<forall>j<32. slots (32 * k + j) \<noteq> None \<longrightarrow> b_values b j = slots (32 * k + j)) \<and>
     (bit (b_ready_slots b) 32 \<longrightarrow> before) \<and>
     (bit (b_ready_slots b) 33 \<longleftrightarrow> (\<exists>c. closed = Some c \<and> c div 32 = k)) \<and>
     (before \<longrightarrow> (\<forall>j<32. slots (32 * k + j) \<noteq> None))"

definition next_in :: "nat list \<Rightarrow> nat \<Rightarrow> nat option" where
  "next_in bs i = (if Suc i < length bs then Some (bs ! Suc i) else None)"

definition chain_ok :: "nat list \<Rightarrow> nat \<Rightarrow> nat \<Rightarrow> (nat \<Rightarrow> 'a option) \<Rightarrow> nat option \<Rightarrow> 'a mlist \<Rightarrow> bool" where
  "chain_ok bs b0 t slots closed m \<longleftrightarrow>
     distinct bs \<and> t < length bs \<and> ml_block_tail m = bs ! t \<and>
     (\<forall>a\<in>set bs. a < ml_fresh m) \<and> (\<forall>a. ml_heap m a \<noteq> None \<longrightarrow> a \<in> set bs) \<and>
     (\<forall>i<length bs. \<exists>b. ml_heap m (bs ! i) = Some b \<and> block_ok (b0 + i) (next_in bs i) slots closed (i < t) b) \<and>
     b0 + length bs \<le> unat (ml_tail_position m) div 32 + 4 \<and> b0 + t \<le> unat (ml_tail_position m) div 32 \<and>
     unat (ml_tail_position m) + 256 \<le> 2 ^ 64"

definition slots_ok :: "nat list \<Rightarrow> nat \<Rightarrow> (nat \<Rightarrow> 'a option) \<Rightarrow> nat option \<Rightarrow> 'a mlist \<Rightarrow> bool" where
  "slots_ok bs b0 slots closed m \<longleftrightarrow>
     (\<forall>n. slots n \<noteq> None \<longrightarrow> n < unat (ml_tail_position m) \<and> n < 32 * (b0 + length bs)) \<and>
     (\<forall>n<unat (ml_index m). slots n \<noteq> None) \<and> unat (ml_index m) \<le> unat (ml_tail_position m) \<and>
     (\<forall>c. closed = Some c \<longrightarrow> c < unat (ml_tail_position m) \<and> c < 32 * (b0 + length bs) \<and> slots c = None)"

definition mrep :: "nat list \<Rightarrow> nat \<Rightarrow> nat \<Rightarrow> nat \<Rightarrow> (nat \<Rightarrow> 'a option) \<Rightarrow> nat option \<Rightarrow> 'a mlist \<Rightarrow> bool" where
  "mrep bs b0 h t slots closed m \<longleftrightarrow>
     chain_ok bs b0 t slots closed m \<and> slots_ok bs b0 slots closed m \<and>
     h < length bs \<and> ml_head m = bs ! h \<and> ml_free_head m = bs ! 0 \<and> b0 + h \<le> unat (ml_index m) div 32"

lemma chain_block:
  assumes "chain_ok bs b0 t slots closed m" "i < length bs"
  obtains b where "ml_heap m (bs ! i) = Some b" "block_ok (b0 + i) (next_in bs i) slots closed (i < t) b"
  using assms unfolding chain_ok_def by blast

lemma deref_block:
  assumes "chain_ok bs b0 t slots closed m" "i < length bs"
  obtains b where "deref (bs ! i) m = Inr b" "ml_heap m (bs ! i) = Some b"
    "block_ok (b0 + i) (next_in bs i) slots closed (i < t) b"
  by (rule chain_block [OF assms]) (simp add: deref_def)

lemma range_arith: "x \<le> q + 4 \<Longrightarrow> 32 * q \<le> t \<Longrightarrow> t + 256 \<le> A \<Longrightarrow> 32 * x + 32 < (A :: nat)"
  by linarith

lemma chain_range:
  assumes "chain_ok bs b0 t slots closed m" "i < length bs"
  shows "32 * (b0 + i) + 32 < 2 ^ 64" "32 * (b0 + length bs) + 32 < 2 ^ 64"
proof -
  have "b0 + length bs \<le> unat (ml_tail_position m) div 32 + 4" "unat (ml_tail_position m) + 256 \<le> 2 ^ 64"
    using assms(1) by (simp_all add: chain_ok_def)
  then show len: "32 * (b0 + length bs) + 32 < 2 ^ 64" by (rule range_arith [OF _ times_div_less_eq_dividend])
  have "32 * (b0 + i) + 32 \<le> 32 * (b0 + length bs) + 32" using assms(2) by simp
  with len show "32 * (b0 + i) + 32 < 2 ^ 64" by (rule le_less_trans [rotated])
qed

lemma load_next_chain:
  assumes "chain_ok bs b0 t slots closed m" "i < length bs"
  shows "load_next (bs ! i) m = Inr (next_in bs i)"
proof -
  obtain b where b: "deref (bs ! i) m = Inr b" "block_ok (b0 + i) (next_in bs i) slots closed (i < t) b"
    using deref_block [OF assms] by metis
  show ?thesis
  proof (cases "Suc i < length bs")
    case False
    with b show ?thesis by (simp add: load_next_def next_in_def block_ok_def)
  next
    case True
    obtain nb where nb: "deref (bs ! Suc i) m = Inr nb"
      "block_ok (b0 + Suc i) (next_in bs (Suc i)) slots closed (Suc i < t) nb"
      using deref_block [OF assms(1) True] by metis
    have "unat (b_start_index b + BLOCK_CAP) = unat (b_start_index nb)"
      using b(2) nb(2) chain_range [OF assms] by (subst unat_add_cap) (simp_all add: block_ok_def)
    then have "b_start_index nb = b_start_index b + BLOCK_CAP" by (simp add: word_unat_eq_iff)
    with b nb True show ?thesis by (simp add: load_next_def next_in_def block_ok_def)
  qed
qed

lemma at_index_chain:
  assumes "block_ok (b0 + i) nxt slots closed before b"
  shows "is_at_index (start_index s) b \<longleftrightarrow> unat s div 32 = b0 + i"
  using assms by (auto simp: is_at_index_def block_ok_def word_unat_eq_iff unat_start_index)

lemma mlist_channel_rep: "mrep [0] 0 0 0 (\<lambda>_. None) None mlist_channel"
  by (auto simp: mrep_def chain_ok_def slots_ok_def block_ok_def mlist_channel_def block_new_def next_in_def)

text \<open>Growing the list at its end, and moving the senders' block on.\<close>

lemma block_ok_append:
  assumes "block_ok k (next_in bs i) slots closed before b" "Suc i < length bs"
  shows "block_ok k (next_in (bs @ [a]) i) slots closed before b"
  using assms by (simp add: block_ok_def next_in_def nth_append)

lemma chain_grow:
  assumes ok: "chain_ok bs b0 t slots closed m" and i: "Suc i = length bs"
    and room: "b0 + length bs < unat (ml_tail_position m) div 32 + 4"
    and fresh: "\<And>j. slots (32 * (b0 + length bs) + j) = None" "\<forall>c. closed = Some c \<longrightarrow> c div 32 \<noteq> b0 + length bs"
  shows "\<exists>m'. block_grow (bs ! i) m = Some (Inr (ml_fresh m, m')) \<and> chain_ok (bs @ [ml_fresh m]) b0 t slots closed m' \<and>
    ml_tail_position m' = ml_tail_position m \<and> ml_index m' = ml_index m \<and> ml_head m' = ml_head m \<and>
    ml_free_head m' = ml_free_head m"
proof -
  let ?new = "ml_fresh m"
  have "i < length bs" using i by simp
  note in_range = chain_range [OF ok this]
  obtain b where b: "deref (bs ! i) m = Inr b" "ml_heap m (bs ! i) = Some b"
    "block_ok (b0 + i) (next_in bs i) slots closed (i < t) b"
    using deref_block [OF ok \<open>i < length bs\<close>] by metis
  have nxt: "b_next b = None" and start: "unat (b_start_index b) = 32 * (b0 + i)"
    using b(3) i by (simp_all add: block_ok_def next_in_def)
  have start': "unat (b_start_index b + BLOCK_CAP) = 32 * (b0 + length bs)"
    using in_range(1) start i by (subst unat_add_cap) simp_all
  define m' where "m' = put_block (bs ! i) (b\<lparr>b_next := Some ?new\<rparr>)
    (put_block ?new (block_new (b_start_index b + BLOCK_CAP)) (m\<lparr>ml_fresh := ?new + 1\<rparr>))"
  have grow: "block_grow (bs ! i) m = Some (Inr (?new, m'))"
    using b(1) nxt start in_range(1) by (simp add: block_grow_def m'_def Let_def)
  have new: "?new \<notin> set bs" using ok unfolding chain_ok_def by blast
  have dist: "distinct bs" using ok by (simp add: chain_ok_def)
  have heap: "ml_heap m' a = (if a = bs ! i then Some (b\<lparr>b_next := Some ?new\<rparr>)
      else if a = ?new then Some (block_new (b_start_index b + BLOCK_CAP)) else ml_heap m a)" for a
    by (simp add: m'_def put_block_def)
  have blocks: "\<exists>b. ml_heap m' ((bs @ [?new]) ! j) = Some b \<and>
      block_ok (b0 + j) (next_in (bs @ [?new]) j) slots closed (j < t) b" if j: "j < length (bs @ [?new])" for j
  proof -
    consider (last) "j = length bs" | (tail) "j = i" | (inner) "Suc j < length bs" using j i by fastforce
    then show ?thesis
    proof cases
      case last
      have "t < length bs" using ok by (simp add: chain_ok_def)
      moreover have "?new \<noteq> bs ! i" using new \<open>i < length bs\<close> nth_mem by fastforce
      ultimately show ?thesis
        using last fresh start' by (simp add: heap nth_append next_in_def block_ok_def block_new_def)
    next
      case tail
      then show ?thesis using b(3) i by (simp add: heap nth_append next_in_def block_ok_def)
    next
      case inner
      obtain c where c: "ml_heap m (bs ! j) = Some c" "block_ok (b0 + j) (next_in bs j) slots closed (j < t) c"
        by (rule chain_block [OF ok, of j]) (use inner in simp_all)
      have "bs ! j \<noteq> bs ! i" "bs ! j \<noteq> ?new"
        using dist inner i by (simp add: nth_eq_iff_index_eq) (metis new nth_mem Suc_lessD inner)
      with c block_ok_append [OF c(2) inner] inner show ?thesis by (simp add: heap nth_append)
    qed
  qed
  have fields: "ml_fresh m' = ?new + 1" "ml_tail_position m' = ml_tail_position m" "ml_index m' = ml_index m"
    "ml_head m' = ml_head m" "ml_free_head m' = ml_free_head m" "ml_block_tail m' = ml_block_tail m"
    by (simp_all add: m'_def put_block_def)
  have dom: "a \<in> set (bs @ [?new])" if "ml_heap m' a \<noteq> None" for a
    using that ok i nth_mem [of i bs] by (auto simp: heap chain_ok_def split: if_splits)
  have "chain_ok (bs @ [?new]) b0 t slots closed m'"
    unfolding chain_ok_def
  proof (intro conjI)
    show "\<forall>a\<in>set (bs @ [?new]). a < ml_fresh m'"
      using ok by (auto simp: fields chain_ok_def)
    show "\<forall>j<length (bs @ [?new]). \<exists>b. ml_heap m' ((bs @ [?new]) ! j) = Some b \<and>
      block_ok (b0 + j) (next_in (bs @ [?new]) j) slots closed (j < t) b" using blocks by blast
    show "\<forall>a. ml_heap m' a \<noteq> None \<longrightarrow> a \<in> set (bs @ [?new])" using dom by blast
  qed (use ok room dist new in \<open>simp_all add: fields chain_ok_def nth_append\<close>)
  with grow fields show ?thesis by blast
qed

lemma block_ok_bits:
  assumes "block_ok k nxt slots closed before b"
  shows "is_final b \<longleftrightarrow> (\<forall>j<32. slots (32 * k + j) \<noteq> None)"
  using assms by (simp add: is_final_bits block_ok_def)

lemma chain_swap:
  assumes ok: "chain_ok bs b0 t slots closed m" and i: "Suc i < length bs" "t = i"
    and b: "ml_heap m (bs ! i) = Some b" "is_final b"
    and pos: "b0 + Suc i \<le> unat (ml_tail_position m) div 32"
  shows "chain_ok bs b0 (Suc t) slots closed
     (put_block (bs ! i) (tx_release (ml_tail_position m) b) (m\<lparr>ml_block_tail := bs ! Suc i\<rparr>))" (is "chain_ok _ _ _ _ _ ?m")
proof -
  have dist: "distinct bs" using ok by (simp add: chain_ok_def)
  have bok: "block_ok (b0 + i) (next_in bs i) slots closed False b"
  proof -
    obtain b' where "ml_heap m (bs ! i) = Some b'" "block_ok (b0 + i) (next_in bs i) slots closed (i < t) b'"
      by (rule chain_block [OF ok Suc_lessD [OF i(1)]])
    with i(2) b(1) show ?thesis by simp
  qed
  have heap: "ml_heap ?m a = (if a = bs ! i then Some (tx_release (ml_tail_position m) b) else ml_heap m a)" for a
    by (simp add: put_block_def)
  have new: "block_ok (b0 + i) (next_in bs i) slots closed True (tx_release (ml_tail_position m) b)"
    using bok block_ok_bits [OF bok] b(2)
    by (auto simp: block_ok_def tx_release_def bit_or_RELEASED)
  have "\<exists>c. ml_heap ?m (bs ! j) = Some c \<and> block_ok (b0 + j) (next_in bs j) slots closed (j < Suc t) c" if j: "j < length bs" for j
  proof (cases "j = i")
    case True
    with new i show ?thesis by (simp add: heap)
  next
    case False
    obtain c where c: "ml_heap m (bs ! j) = Some c" "block_ok (b0 + j) (next_in bs j) slots closed (j < t) c"
      by (rule chain_block [OF ok j])
    have "bs ! j \<noteq> bs ! i" using False dist j i by (simp add: nth_eq_iff_index_eq)
    with c False i show ?thesis by (simp add: heap less_Suc_eq)
  qed
  moreover have "a \<in> set bs" if "ml_heap ?m a \<noteq> None" for a
  proof (cases "a = bs ! i")
    case True
    then show ?thesis using i(1) by simp
  next
    case False
    with that have "ml_heap m a \<noteq> None" by (simp add: heap)
    with ok show ?thesis unfolding chain_ok_def by blast
  qed
  moreover have "ml_block_tail ?m = bs ! Suc i" "ml_fresh ?m = ml_fresh m" "ml_tail_position ?m = ml_tail_position m"
    by (simp_all add: put_block_def)
  ultimately show ?thesis
    using ok i pos unfolding chain_ok_def by (elim conjE, intro conjI) (simp; fail | blast)+
qed

text \<open>
  The search: from a block at or before the one that holds position \<open>n\<close> it ends at that block, growing the
  list on the way and moving the senders' block only over blocks that are full. \<open>same_rx\<close>: what a sender
  leaves alone.
\<close>

definition same_rx :: "'a mlist \<Rightarrow> 'a mlist \<Rightarrow> bool" where
  "same_rx m m' \<longleftrightarrow> ml_tail_position m' = ml_tail_position m \<and> ml_index m' = ml_index m \<and>
     ml_head m' = ml_head m \<and> ml_free_head m' = ml_free_head m"

lemma same_rx_refl [simp]: "same_rx m m"
  by (simp add: same_rx_def)

lemma same_rx_trans: "same_rx m m' \<Longrightarrow> same_rx m' m'' \<Longrightarrow> same_rx m m''"
  by (simp add: same_rx_def)

lemma slots_none_beyond:
  assumes "slots_ok bs b0 slots closed m"
  shows "slots (32 * (b0 + length bs) + j) = None" "\<forall>c. closed = Some c \<longrightarrow> c div 32 \<noteq> b0 + length bs"
proof -
  show "slots (32 * (b0 + length bs) + j) = None"
    using assms unfolding slots_ok_def by (metis not_add_less1)
  have "c < 32 * (b0 + length bs)" if "closed = Some c" for c
    using assms that by (simp add: slots_ok_def)
  then show "\<forall>c. closed = Some c \<longrightarrow> c div 32 \<noteq> b0 + length bs"
    by (metis less_mult_imp_div_less less_irrefl mult.commute)
qed

lemma find_next:
  assumes ok: "chain_ok bs b0 t slots closed m" "slots_ok bs b0 slots closed m" and i: "i < length bs"
    and pos: "b0 + Suc i \<le> unat (ml_tail_position m) div 32"
  shows "\<exists>bs1 m1. bind_oo (Some (load_next (bs ! i) m))
      (\<lambda>nxt. case nxt of Some n \<Rightarrow> Some (Inr (n, m)) | None \<Rightarrow> block_grow (bs ! i) m) =
        Some (Inr ((bs @ bs1) ! Suc i, m1)) \<and> Suc i < length (bs @ bs1) \<and>
      chain_ok (bs @ bs1) b0 t slots closed m1 \<and> same_rx m m1"
proof (cases "Suc i < length bs")
  case True
  then show ?thesis
    using ok load_next_chain [OF ok(1) i]
    by (intro exI [of _ "[]"] exI [of _ m]) (simp add: next_in_def)
next
  case False
  then have last: "Suc i = length bs" using i by simp
  have "b0 + length bs < unat (ml_tail_position m) div 32 + 4" using pos last by linarith
  from chain_grow [OF ok(1) last this slots_none_beyond [OF ok(2)]]
  obtain m1 where "block_grow (bs ! i) m = Some (Inr (ml_fresh m, m1))"
    "chain_ok (bs @ [ml_fresh m]) b0 t slots closed m1" "same_rx m m1"
    unfolding same_rx_def by blast
  then show ?thesis
    using last load_next_chain [OF ok(1) i]
    by (intro exI [of _ "[ml_fresh m]"] exI [of _ m1]) (simp add: next_in_def nth_append)
qed

lemma find_loop_finds:
  assumes "chain_ok bs b0 t slots closed m" "slots_ok bs b0 slots closed m" "i < length bs" "b0 + i \<le> unat s div 32"
    and "unat s < unat (ml_tail_position m)"
  shows "\<exists>bs' t' m'. find_loop (start_index s) upd (bs ! i) m = Some (Inr ((bs @ bs') ! (unat s div 32 - b0), m')) \<and>
     unat s div 32 < b0 + length (bs @ bs') \<and> chain_ok (bs @ bs') b0 t' slots closed m' \<and> same_rx m m'"
  using assms
proof (induction "unat s div 32 - b0 - i" arbitrary: i upd bs t m)
  case 0
  then have k: "unat s div 32 = b0 + i" by simp
  obtain b where "deref (bs ! i) m = Inr b" "block_ok (b0 + i) (next_in bs i) slots closed (i < t) b"
    using deref_block [OF 0(2, 4)] by metis
  then have "find_loop (start_index s) upd (bs ! i) m = Some (Inr (bs ! i, m))"
    using k by (simp add: find_loop.simps [of _ _ _ m] at_index_chain)
  with 0 k show ?case by (intro exI [of _ "[]"] exI [of _ t] exI [of _ m]) simp
next
  case (Suc d)
  then have k: "b0 + i < unat s div 32" by linarith
  obtain b where b: "deref (bs ! i) m = Inr b" "ml_heap m (bs ! i) = Some b"
    "block_ok (b0 + i) (next_in bs i) slots closed (i < t) b"
    using deref_block [OF Suc.prems(1, 3)] by metis
  have at: "\<not> is_at_index (start_index s) b" using at_index_chain [OF b(3), of s] k by simp
  have "unat s div 32 \<le> unat (ml_tail_position m) div 32"
    using Suc.prems(5) by (intro div_le_mono) simp
  with k have pos: "b0 + Suc i \<le> unat (ml_tail_position m) div 32" by linarith
  obtain bs1 m1 where nxt: "bind_oo (Some (load_next (bs ! i) m))
      (\<lambda>nxt. case nxt of Some n \<Rightarrow> Some (Inr (n, m)) | None \<Rightarrow> block_grow (bs ! i) m) =
        Some (Inr ((bs @ bs1) ! Suc i, m1))"
    and ok1: "Suc i < length (bs @ bs1)" "chain_ok (bs @ bs1) b0 t slots closed m1" "same_rx m m1"
    using find_next [OF Suc.prems(1-3) pos] by blast
  define cs where "cs = bs @ bs1"
  have ci: "cs ! i = bs ! i" using Suc.prems(3) by (simp add: cs_def nth_append)
  have "i < length cs" using Suc.prems(3) by (simp add: cs_def)
  then obtain b1 where b1: "deref (bs ! i) m1 = Inr b1" "ml_heap m1 (bs ! i) = Some b1"
    using deref_block [OF ok1(2) [folded cs_def], of i] ci by metis
  define swapped where "swapped = ((upd \<and> is_final b1) \<and> ml_block_tail m1 = bs ! i)"
  define m2 where "m2 = (if swapped then put_block (bs ! i) (tx_release (ml_tail_position m1) b1)
      (m1\<lparr>ml_block_tail := cs ! Suc i\<rparr>) else m1)"
  have step: "find_loop (start_index s) upd (bs ! i) m = find_loop (start_index s) swapped (cs ! Suc i) m2"
  proof -
    have "bind_oo (Some (load_next (bs ! i) m)) (\<lambda>nxt. bind_oo (case nxt of Some n \<Rightarrow> Some (Inr (n, m)) | None \<Rightarrow> block_grow (bs ! i) m) f) =
        bind_oo (Some (Inr (cs ! Suc i, m1))) f" for f :: "nat \<times> 'a mlist \<Rightarrow> (nat \<times> 'a mlist) outcome option"
      using nxt by (cases "load_next (bs ! i) m") (auto simp: cs_def)
    then show ?thesis
      using b(1) at b1(1) by (simp add: find_loop.simps [of _ upd _ m] Let_def swapped_def m2_def)
  qed
  have tail1: "ml_tail_position m1 = ml_tail_position m" using ok1(3) by (simp add: same_rx_def)
  obtain t2 where ok2: "chain_ok cs b0 t2 slots closed m2"
  proof (cases swapped)
    case False
    with ok1(2) that show ?thesis by (simp add: m2_def cs_def)
  next
    case True
    have "distinct cs" "t < length cs" "ml_block_tail m1 = cs ! t"
      using ok1(2) by (simp_all add: chain_ok_def cs_def)
    moreover have "cs ! t = cs ! i" using True ci calculation(3) by (simp add: swapped_def)
    ultimately have "t = i" using \<open>i < length cs\<close> nth_eq_iff_index_eq by blast
    from chain_swap [OF ok1(2) [folded cs_def] _ this] ok1(1) b1(2) True pos tail1 ci that show ?thesis
      by (simp add: m2_def swapped_def cs_def)
  qed
  have same2: "same_rx m m2"
    using ok1(3) by (simp add: m2_def same_rx_def put_block_def)
  have slots2: "slots_ok cs b0 slots closed m2"
    using Suc.prems(2) same2 by (auto simp: slots_ok_def same_rx_def cs_def intro: less_le_trans)
  have "d = unat s div 32 - b0 - Suc i" using Suc.hyps(2) by simp
  moreover have "Suc i < length cs" "b0 + Suc i \<le> unat s div 32" "unat s < unat (ml_tail_position m2)"
    using ok1(1) k Suc.prems(5) same2 by (simp_all add: cs_def same_rx_def)
  ultimately obtain bs' t' m' where
    "find_loop (start_index s) swapped (cs ! Suc i) m2 = Some (Inr ((cs @ bs') ! (unat s div 32 - b0), m'))"
    "unat s div 32 < b0 + length (cs @ bs')" "chain_ok (cs @ bs') b0 t' slots closed m'" "same_rx m2 m'"
    using Suc.hyps(1) [OF _ ok2 slots2] by blast
  with step same2 show ?case
    by (intro exI [of _ "bs1 @ bs'"] exI [of _ t'] exI [of _ m']) (auto simp: cs_def intro: same_rx_trans)
qed

text \<open>Rewriting one block, claiming a position, and the block a sender finds.\<close>

lemma chain_put:
  assumes ok: "chain_ok bs b0 t slots closed m" and i: "i < length bs"
    and b: "block_ok (b0 + i) (next_in bs i) slots' closed' (i < t) b"
    and rest: "\<And>k j. k \<noteq> b0 + i \<Longrightarrow> j < 32 \<Longrightarrow> slots' (32 * k + j) = slots (32 * k + j)"
      "\<And>k. k \<noteq> b0 + i \<Longrightarrow> (\<exists>c. closed' = Some c \<and> c div 32 = k) \<longleftrightarrow> (\<exists>c. closed = Some c \<and> c div 32 = k)"
  shows "chain_ok bs b0 t slots' closed' (put_block (bs ! i) b m)"
proof -
  have "\<exists>c. ml_heap (put_block (bs ! i) b m) (bs ! j) = Some c \<and>
      block_ok (b0 + j) (next_in bs j) slots' closed' (j < t) c" if j: "j < length bs" for j
  proof (cases "j = i")
    case True
    with b show ?thesis by (simp add: put_block_def)
  next
    case False
    obtain c where c: "ml_heap m (bs ! j) = Some c" "block_ok (b0 + j) (next_in bs j) slots closed (j < t) c"
      by (rule chain_block [OF ok j])
    have "bs ! j \<noteq> bs ! i" using False ok j i by (simp add: chain_ok_def nth_eq_iff_index_eq)
    with c False show ?thesis
      using rest(1) [of "b0 + j"] rest(2) [of "b0 + j"] by (simp add: put_block_def block_ok_def)
  qed
  moreover have "a \<in> set bs" if "ml_heap (put_block (bs ! i) b m) a \<noteq> None" for a
    using that ok i by (cases "a = bs ! i") (auto simp: put_block_def chain_ok_def)
  ultimately show ?thesis
    using ok unfolding chain_ok_def by (elim conjE, intro conjI) (simp add: put_block_def; fail | blast)+
qed

lemma put_block_fields [simp]:
  "ml_tail_position (put_block a b m) = ml_tail_position m" "ml_index (put_block a b m) = ml_index m"
  "ml_head (put_block a b m) = ml_head m" "ml_free_head (put_block a b m) = ml_free_head m"
  "ml_block_tail (put_block a b m) = ml_block_tail m" "ml_fresh (put_block a b m) = ml_fresh m"
  by (simp_all add: put_block_def)

lemma claim_unat:
  "unat (ml_tail_position m) + 257 \<le> 2 ^ 64 \<Longrightarrow> unat (ml_tail_position m + 1) = unat (ml_tail_position m) + 1"
  by (simp add: unat_word_ariths)

lemma claim_rep:
  assumes "mrep bs b0 h t slots closed m" "unat (ml_tail_position m) + 257 \<le> 2 ^ 64"
  shows "mrep bs b0 h t slots closed (m\<lparr>ml_tail_position := ml_tail_position m + 1\<rparr>)"
proof -
  note u = claim_unat [OF assms(2)]
  have "unat (ml_tail_position m) div 32 \<le> (unat (ml_tail_position m) + 1) div 32" by (rule div_le_mono) simp
  then show ?thesis
    using assms unfolding mrep_def chain_ok_def slots_ok_def by (auto simp: u)
qed

lemma block_of_unwritten:
  assumes rep: "mrep bs b0 h t slots closed m" and n: "slots n = None"
  shows "b0 + t \<le> n div 32"
proof (rule ccontr)
  assume "\<not> b0 + t \<le> n div 32"
  then have less: "n div 32 < b0 + t" by simp
  have ok: "chain_ok bs b0 t slots closed m" and so: "slots_ok bs b0 slots closed m"
    and b0: "b0 + h \<le> unat (ml_index m) div 32" using rep by (simp_all add: mrep_def)
  have "\<not> n < unat (ml_index m)" using so n by (auto simp: slots_ok_def)
  then have "unat (ml_index m) div 32 \<le> n div 32" by (intro div_le_mono) simp
  with b0 have "b0 \<le> n div 32" by simp
  define i where "i = n div 32 - b0"
  have i: "i < t" "b0 + i = n div 32" using less \<open>b0 \<le> n div 32\<close> by (simp_all add: i_def)
  have "i < length bs" using ok i by (simp add: chain_ok_def)
  with ok obtain b where "block_ok (b0 + i) (next_in bs i) slots closed (i < t) b" by (rule chain_block)
  with i have "\<forall>j<32. slots (32 * (n div 32) + j) \<noteq> None" by (simp add: block_ok_def)
  moreover have "n mod 32 < 32" by simp
  ultimately have "slots (32 * (n div 32) + n mod 32) \<noteq> None" by blast
  with n show False by simp
qed

lemma find_block_finds:
  assumes rep: "mrep bs b0 h t slots closed m" and s: "slots (unat s) = None" "unat s < unat (ml_tail_position m)"
  shows "\<exists>bs' t' m' i b. find_block s m = Some (Inr ((bs @ bs') ! i, m')) \<and> i < length (bs @ bs') \<and>
     b0 + i = unat s div 32 \<and> mrep (bs @ bs') b0 h t' slots closed m' \<and> same_rx m m' \<and>
     deref ((bs @ bs') ! i) m' = Inr b \<and> block_ok (b0 + i) (next_in (bs @ bs') i) slots closed (i < t') b"
proof -
  have ok: "chain_ok bs b0 t slots closed m" and so: "slots_ok bs b0 slots closed m" and t: "t < length bs"
    and tail: "ml_block_tail m = bs ! t" using rep by (simp_all add: mrep_def chain_ok_def)
  note pos = block_of_unwritten [OF rep s(1)]
  obtain b where "deref (bs ! t) m = Inr b" using deref_block [OF ok t] by metis
  moreover obtain bs' t' m' where f:
    "find_loop (start_index s) (block_distance (start_index s) b > slot_offset s) (bs ! t) m =
       Some (Inr ((bs @ bs') ! (unat s div 32 - b0), m'))"
    "unat s div 32 < b0 + length (bs @ bs')" "chain_ok (bs @ bs') b0 t' slots closed m'" "same_rx m m'"
    using find_loop_finds [OF ok so t pos s(2)] by blast
  ultimately have find: "find_block s m = Some (Inr ((bs @ bs') ! (unat s div 32 - b0), m'))"
    by (simp add: find_block_def tail)
  have i: "unat s div 32 - b0 < length (bs @ bs')" "b0 + (unat s div 32 - b0) = unat s div 32"
    using f(2) pos by simp_all
  have "mrep (bs @ bs') b0 h t' slots closed m'"
    using rep f(3, 4) by (auto simp: mrep_def slots_ok_def same_rx_def nth_append intro: less_le_trans)
  moreover obtain b' where "deref ((bs @ bs') ! (unat s div 32 - b0)) m' = Inr b'"
    "block_ok (b0 + (unat s div 32 - b0)) (next_in (bs @ bs') (unat s div 32 - b0)) slots closed (unat s div 32 - b0 < t') b'"
    using deref_block [OF f(3) i(1)] by metis
  ultimately show ?thesis using find i f(4) by blast
qed


text \<open>A sender writes the position it claimed; \<open>close\<close> takes one and marks its block.\<close>

lemma block_ok_write:
  assumes b: "block_ok k nxt slots closed before b" and k: "unat s div 32 = k" and "slots (unat s) = None"
  shows "block_ok k nxt (slots(unat s := Some v)) closed before (block_write s v b)"
proof -
  have n: "unat s = 32 * k + unat s mod 32" using k by auto
  have eq: "32 * k + j = unat s \<longleftrightarrow> j = unat s mod 32" for j using n by linarith
  have "unat s mod 32 < 64" by (rule less_trans [of _ 32]) simp_all
  then have bit: "bit (b_ready_slots (block_write s v b)) j \<longleftrightarrow> j = unat s mod 32 \<or> bit (b_ready_slots b) j" if "j < 64" for j
    using bit_or_push [OF that] by (simp add: block_write_def set_ready_def unat_slot_offset Let_def)
  have "unat s mod 32 < 32" by simp
  then have "unat s mod 32 \<noteq> 32" "unat s mod 32 \<noteq> 33" by linarith+
  then have bit': "bit (b_ready_slots (block_write s v b)) 32 = bit (b_ready_slots b) 32"
    "bit (b_ready_slots (block_write s v b)) 33 = bit (b_ready_slots b) 33" by (simp_all add: bit)
  have vals: "b_values (block_write s v b) = (b_values b)(unat s mod 32 := Some v)"
    "b_start_index (block_write s v b) = b_start_index b" "b_next (block_write s v b) = b_next b"
    by (simp_all add: block_write_def set_ready_def unat_slot_offset Let_def)
  show ?thesis
    using b unfolding block_ok_def by (simp add: bit bit' vals eq)
qed

lemma write_slot_rep:
  assumes rep: "mrep bs b0 h t slots closed m" and s: "slots (unat s) = None" "unat s < unat (ml_tail_position m)"
    and c: "closed \<noteq> Some (unat s)"
  shows "\<exists>bs' t' m'. write_slot s v m = Some (Inr ((), m')) \<and>
     mrep bs' b0 h t' (slots(unat s := Some v)) closed m' \<and> same_rx m m'"
proof -
  obtain bs' t' m' i b where f: "find_block s m = Some (Inr ((bs @ bs') ! i, m'))" "i < length (bs @ bs')"
    "b0 + i = unat s div 32" "mrep (bs @ bs') b0 h t' slots closed m'" "same_rx m m'"
    "deref ((bs @ bs') ! i) m' = Inr b" "block_ok (b0 + i) (next_in (bs @ bs') i) slots closed (i < t') b"
    using find_block_finds [OF rep s] by blast
  let ?cs = "bs @ bs'" and ?slots = "slots(unat s := Some v)"
  let ?m = "put_block (?cs ! i) (block_write s v b) m'"
  have ok: "chain_ok ?cs b0 t' slots closed m'" using f(4) by (simp add: mrep_def)
  have "chain_ok ?cs b0 t' ?slots closed ?m"
  proof (rule chain_put [OF ok f(2) block_ok_write [OF f(7) f(3) [symmetric] s(1)]])
    fix k j :: nat
    assume "k \<noteq> b0 + i" "j < 32"
    then have "32 * k + j \<noteq> unat s" unfolding f(3) by (metis div_mult_self4 div_less add_0_right zero_neq_numeral)
    then show "?slots (32 * k + j) = slots (32 * k + j)" by simp
  qed simp
  moreover have "unat s < 32 * (b0 + length ?cs)"
  proof -
    have "unat s div 32 < b0 + length ?cs" using f(2, 3) by linarith
    then show ?thesis by (simp add: div_less_iff_less_mult mult.commute)
  qed
  then have "slots_ok ?cs b0 ?slots closed ?m"
    using f(4, 5) s(2) c by (auto simp: mrep_def slots_ok_def same_rx_def)
  ultimately have "mrep ?cs b0 h t' ?slots closed ?m" using f(4) by (simp add: mrep_def)
  moreover have "write_slot s v m = Some (Inr ((), ?m))" using f(1, 6) by (simp add: write_slot_def)
  moreover have "same_rx m ?m" using f(5) by (simp add: same_rx_def)
  ultimately show ?thesis by blast
qed

lemma block_ok_close:
  assumes "block_ok k nxt slots None before b" "c div 32 = k"
  shows "block_ok k nxt slots (Some c) before (tx_close b)"
  using assms by (auto simp: block_ok_def tx_close_def bit_or_TX_CLOSED)

lemma close_rep:
  assumes rep: "mrep bs b0 h t slots None m" and room: "unat (ml_tail_position m) + 257 \<le> 2 ^ 64"
  shows "\<exists>bs' t' m'. mlist_close m = Some (Inr ((), m')) \<and>
     mrep bs' b0 h t' slots (Some (unat (ml_tail_position m))) m' \<and>
     same_rx (m\<lparr>ml_tail_position := ml_tail_position m + 1\<rparr>) m'"
proof -
  let ?s = "ml_tail_position m" and ?m1 = "m\<lparr>ml_tail_position := ml_tail_position m + 1\<rparr>"
  have none: "slots (unat ?s) = None"
    using rep unfolding mrep_def slots_ok_def by (metis less_irrefl)
  have "unat ?s < unat (ml_tail_position ?m1)" using claim_unat [OF room] by simp
  from find_block_finds [OF claim_rep [OF rep room] none this]
  obtain bs' t' m' i b where f: "find_block ?s ?m1 = Some (Inr ((bs @ bs') ! i, m'))" "i < length (bs @ bs')"
    "b0 + i = unat ?s div 32" "mrep (bs @ bs') b0 h t' slots None m'" "same_rx ?m1 m'"
    "deref ((bs @ bs') ! i) m' = Inr b" "block_ok (b0 + i) (next_in (bs @ bs') i) slots None (i < t') b"
    by blast
  let ?cs = "bs @ bs'"
  let ?m = "put_block (?cs ! i) (tx_close b) m'"
  have ok: "chain_ok ?cs b0 t' slots None m'" using f(4) by (simp add: mrep_def)
  have "chain_ok ?cs b0 t' slots (Some (unat ?s)) ?m"
    by (rule chain_put [OF ok f(2) block_ok_close [OF f(7) f(3) [symmetric]]]) (use f(3) in auto)
  moreover have "unat ?s < 32 * (b0 + length ?cs)"
  proof -
    have "unat ?s div 32 < b0 + length ?cs" using f(2, 3) by linarith
    then show ?thesis by (simp add: div_less_iff_less_mult mult.commute)
  qed
  then have "slots_ok ?cs b0 slots (Some (unat ?s)) ?m"
    using f(4, 5) none claim_unat [OF room] by (auto simp: mrep_def slots_ok_def same_rx_def)
  ultimately have "mrep ?cs b0 h t' slots (Some (unat ?s)) ?m" using f(4) by (simp add: mrep_def)
  moreover have "mlist_close m = Some (Inr ((), ?m))" using f(1, 6) by (simp add: mlist_close_def claim_slot_def)
  moreover have "same_rx ?m1 ?m" using f(5) by (simp add: same_rx_def)
  ultimately show ?thesis by blast
qed


text \<open>The receiver moves to the block of its position; the blocks behind it go back to the senders.\<close>

lemma advancing_head_rep:
  assumes "mrep bs b0 h t slots closed m"
  shows "\<exists>h' ok. try_advancing_head m = Some (Inr (ok, m\<lparr>ml_head := bs ! h'\<rparr>)) \<and>
     mrep bs b0 h' t slots closed (m\<lparr>ml_head := bs ! h'\<rparr>) \<and>
     (if ok then b0 + h' = unat (ml_index m) div 32 else b0 + length bs \<le> unat (ml_index m) div 32)"
  using assms
proof (induction "length bs - h" arbitrary: h m)
  case 0
  then show ?case by (simp add: mrep_def)
next
  case (Suc d)
  have ok: "chain_ok bs b0 t slots closed m" and h: "h < length bs" and head: "ml_head m = bs ! h"
    and pos: "b0 + h \<le> unat (ml_index m) div 32" using Suc.prems by (simp_all add: mrep_def)
  have same: "m\<lparr>ml_head := bs ! h\<rparr> = m" using head by simp
  obtain b where b: "deref (bs ! h) m = Inr b" "block_ok (b0 + h) (next_in bs h) slots closed (h < t) b"
    using deref_block [OF ok h] by metis
  note at = at_index_chain [OF b(2), of "ml_index m"]
  show ?case
  proof (cases "unat (ml_index m) div 32 = b0 + h")
    case True
    then have "try_advancing_head m = Some (Inr (True, m))"
      using b(1) at by (simp add: try_advancing_head.simps [of m] head)
    with True Suc.prems same show ?thesis by (intro exI [of _ h] exI [of _ True]) simp
  next
    case False
    show ?thesis
    proof (cases "Suc h < length bs")
      case end_of_list: False
      then have "try_advancing_head m = Some (Inr (False, m))"
        using b(1) at False load_next_chain [OF ok h]
        by (simp add: try_advancing_head.simps [of m] head next_in_def)
      with Suc.prems same False pos h end_of_list show ?thesis
        by (intro exI [of _ h] exI [of _ False]) simp
    next
      case True
      let ?m = "m\<lparr>ml_head := bs ! Suc h\<rparr>"
      have "mrep bs b0 (Suc h) t slots closed ?m"
        using Suc.prems False pos True by (simp add: mrep_def chain_ok_def slots_ok_def)
      moreover have "d = length bs - Suc h" using Suc.hyps(2) by simp
      ultimately obtain h' a where "try_advancing_head ?m = Some (Inr (a, ?m\<lparr>ml_head := bs ! h'\<rparr>))"
        "mrep bs b0 h' t slots closed (?m\<lparr>ml_head := bs ! h'\<rparr>)"
        "if a then b0 + h' = unat (ml_index ?m) div 32 else b0 + length bs \<le> unat (ml_index ?m) div 32"
        using Suc.hyps(1) by blast
      moreover have "try_advancing_head m = try_advancing_head ?m"
        using b(1) at False load_next_chain [OF ok h] True
        by (simp add: try_advancing_head.simps [of m] head next_in_def)
      ultimately show ?thesis by (intro exI [of _ h'] exI [of _ a]) (simp split: if_splits)
    qed
  qed
qed

text \<open>The heap without the block at \<open>a\<close>, which is on its way back.\<close>

definition without :: "nat \<Rightarrow> 'a mlist \<Rightarrow> 'a mlist" where
  "without a m = m\<lparr>ml_heap := (ml_heap m)(a := None)\<rparr>"

lemma without_fields [simp]:
  "ml_tail_position (without a m) = ml_tail_position m" "ml_index (without a m) = ml_index m"
  "ml_head (without a m) = ml_head m" "ml_free_head (without a m) = ml_free_head m"
  "ml_block_tail (without a m) = ml_block_tail m" "ml_fresh (without a m) = ml_fresh m"
  by (simp_all add: without_def)

definition blank :: "'a block \<Rightarrow> bool" where
  "blank b \<longleftrightarrow> b_ready_slots b = 0 \<and> b_next b = None"

lemma blank_reclaim: "blank (block_reclaim b)"
  by (simp add: blank_def block_reclaim_def)

lemma next_in_Cons: "next_in (a # bs) (Suc j) = next_in bs j"
  by (simp add: next_in_def)

lemma chain_append_old:
  assumes ok: "chain_ok bs b0 t slots closed (without a m)" and a: "a \<notin> set bs" "a < ml_fresh m" and i: "Suc i = length bs"
    and room: "b0 + length bs < unat (ml_tail_position m) div 32 + 4"
    and none: "\<And>j. slots (32 * (b0 + length bs) + j) = None" "\<forall>c. closed = Some c \<longrightarrow> c div 32 \<noteq> b0 + length bs"
    and b: "ml_heap m (bs ! i) = Some b" "block_ok (b0 + i) (next_in bs i) slots closed (i < t) b"
    and nb: "blank nb" "unat (b_start_index nb) = 32 * (b0 + length bs)"
  shows "chain_ok (bs @ [a]) b0 t slots closed (put_block (bs ! i) (b\<lparr>b_next := Some a\<rparr>) (put_block a nb m))"
    (is "chain_ok _ _ _ _ _ ?m")
proof -
  have il: "i < length bs" using i by simp
  have ai: "a \<noteq> bs ! i" using a(1) il nth_mem by fastforce
  have "t < length bs" using ok by (simp add: chain_ok_def)
  have "\<exists>c. ml_heap ?m ((bs @ [a]) ! j) = Some c \<and> block_ok (b0 + j) (next_in (bs @ [a]) j) slots closed (j < t) c"
    if j: "j < length (bs @ [a])" for j
  proof -
    consider (last) "j = length bs" | (tail) "j = i" | (inner) "Suc j < length bs" using j i by fastforce
    then show ?thesis
    proof cases
      case last
      then show ?thesis
        using nb none ai \<open>t < length bs\<close> by (simp add: put_block_def nth_append next_in_def block_ok_def blank_def)
    next
      case tail
      then show ?thesis using b i il by (simp add: put_block_def nth_append next_in_def block_ok_def)
    next
      case inner
      obtain c where c: "ml_heap (without a m) (bs ! j) = Some c" "block_ok (b0 + j) (next_in bs j) slots closed (j < t) c"
        by (rule chain_block [OF ok, of j]) (use inner in simp_all)
      have "bs ! j \<noteq> bs ! i" using ok inner i by (simp add: chain_ok_def nth_eq_iff_index_eq)
      moreover have "bs ! j \<noteq> a" using a(1) inner nth_mem [of j bs] by auto
      ultimately show ?thesis
        using c(1) block_ok_append [OF c(2) inner] inner by (simp add: put_block_def without_def nth_append)
    qed
  qed
  moreover have "x \<in> set (bs @ [a])" if "ml_heap ?m x \<noteq> None" for x
    using that ok il by (cases "x = a"; cases "x = bs ! i") (auto simp: put_block_def without_def chain_ok_def)
  moreover have "\<forall>x\<in>set (bs @ [a]). x < ml_fresh ?m" using ok a(2) by (auto simp: chain_ok_def)
  moreover have "distinct (bs @ [a])" "t < length (bs @ [a])" "ml_block_tail ?m = (bs @ [a]) ! t"
    using ok a(1) by (auto simp: chain_ok_def nth_append)
  ultimately show ?thesis
    using ok room unfolding chain_ok_def by (elim conjE, intro conjI) (simp; fail | blast)+
qed

lemma try_push_old:
  assumes ok: "chain_ok bs b0 t slots closed (without a m)" "slots_ok bs b0 slots closed m"
    and a: "a \<notin> set bs" "a < ml_fresh m" "ml_heap m a = Some ab" "blank ab" and i: "i < length bs"
    and room: "Suc i = length bs \<longrightarrow> b0 + length bs < unat (ml_tail_position m) div 32 + 4"
  shows "(Suc i < length bs \<and> (\<exists>m' ab'. try_push (bs ! i) a m = Inr (Some (bs ! Suc i), m') \<and> same_rx m m' \<and>
           without a m' = without a m \<and> ml_heap m' a = Some ab' \<and> blank ab')) \<or>
     (\<exists>m'. try_push (bs ! i) a m = Inr (None, m') \<and> same_rx m m' \<and> chain_ok (bs @ [a]) b0 t slots closed m')"
proof -
  obtain b where b: "ml_heap (without a m) (bs ! i) = Some b" "block_ok (b0 + i) (next_in bs i) slots closed (i < t) b"
    by (rule chain_block [OF ok(1) i])
  have ai: "a \<noteq> bs ! i" using a(1) i nth_mem by fastforce
  then have heap: "ml_heap m (bs ! i) = Some b" using b(1) by (simp add: without_def)
  let ?nb = "ab\<lparr>b_start_index := b_start_index b + BLOCK_CAP\<rparr>"
  have nb: "blank ?nb" using a(4) by (simp add: blank_def)
  have push: "try_push (bs ! i) a m = Inr (case b_next b of
       None \<Rightarrow> (None, put_block (bs ! i) (b\<lparr>b_next := Some a\<rparr>) (put_block a ?nb m))
     | Some n \<Rightarrow> (Some n, put_block a ?nb m))"
    using heap a(3) ai by (simp add: try_push_def deref_def put_block_def Let_def split: option.split)
  show ?thesis
  proof (cases "Suc i < length bs")
    case True
    then have "b_next b = Some (bs ! Suc i)" using b(2) by (simp add: block_ok_def next_in_def)
    with push nb True show ?thesis
      by (intro disjI1 conjI exI [of _ "put_block a ?nb m"] exI [of _ ?nb])
        (auto simp: same_rx_def without_def put_block_def)
  next
    case False
    then have last: "Suc i = length bs" using i by simp
    then have "b_next b = None" using b(2) by (simp add: block_ok_def next_in_def)
    moreover have "unat (b_start_index ?nb) = 32 * (b0 + length bs)"
      using b(2) chain_range [OF ok(1) i] last by (simp add: block_ok_def unat_add_cap)
    ultimately show ?thesis
      using push chain_append_old [OF ok(1) a(1, 2) last _ slots_none_beyond [OF ok(2)] heap b(2) nb] room last
      by (auto simp: same_rx_def)
  qed
qed


lemma reclaim_tries_rep:
  assumes "chain_ok bs b0 t slots closed (without a m)" "slots_ok bs b0 slots closed m"
    and "a \<notin> set bs" "a < ml_fresh m" "ml_heap m a = Some ab" "blank ab" and "i < length bs"
    and "length bs \<le> i + k \<longrightarrow> b0 + length bs < unat (ml_tail_position m) div 32 + 4"
  shows "\<exists>r m'. reclaim_tries k (bs ! i) a m = Inr (r, m') \<and> same_rx m m' \<and>
     (if r then chain_ok (bs @ [a]) b0 t slots closed m' else chain_ok bs b0 t slots closed (without a m'))"
  using assms
proof (induction k arbitrary: i m ab)
  case 0
  then show ?case by auto
next
  case (Suc k)
  have room: "Suc i = length bs \<longrightarrow> b0 + length bs < unat (ml_tail_position m) div 32 + 4"
    using Suc.prems(8) by simp
  from try_push_old [OF Suc.prems(1-7) room] show ?case
  proof (elim disjE conjE exE)
    fix m' ab'
    assume i: "Suc i < length bs" and push: "try_push (bs ! i) a m = Inr (Some (bs ! Suc i), m')" and same: "same_rx m m'"
      and rest: "without a m' = without a m" "ml_heap m' a = Some ab'" "blank ab'"
    have tail: "ml_tail_position m' = ml_tail_position m" and so: "slots_ok bs b0 slots closed m'"
      using same Suc.prems(2) by (simp_all add: same_rx_def slots_ok_def)
    have "ml_fresh m' = ml_fresh m" using arg_cong [OF rest(1), of ml_fresh] by simp
    then have "\<exists>r m''. reclaim_tries k (bs ! Suc i) a m' = Inr (r, m'') \<and> same_rx m' m'' \<and>
       (if r then chain_ok (bs @ [a]) b0 t slots closed m'' else chain_ok bs b0 t slots closed (without a m''))"
      using Suc.prems rest so tail i by (intro Suc.IH [where ab = ab']) simp_all
    then show ?thesis using push same_rx_trans [OF same] by fastforce
  next
    fix m'
    assume "try_push (bs ! i) a m = Inr (None, m')" "same_rx m m'" "chain_ok (bs @ [a]) b0 t slots closed m'"
    then show ?thesis by (intro exI [of _ True] exI [of _ m']) simp
  qed
qed

lemma chain_tl:
  assumes ok: "chain_ok (a # bs) b0 (Suc t) slots closed m"
    and m': "ml_heap m' = (ml_heap m)(a \<mapsto> b)" "ml_tail_position m' = ml_tail_position m"
      "ml_block_tail m' = ml_block_tail m" "ml_fresh m' = ml_fresh m"
  shows "chain_ok bs (Suc b0) t slots closed (without a m')"
proof -
  have a: "a \<notin> set bs" using ok by (simp add: chain_ok_def)
  have "\<exists>c. ml_heap (without a m') (bs ! j) = Some c \<and> block_ok (Suc b0 + j) (next_in bs j) slots closed (j < t) c"
    if j: "j < length bs" for j
  proof -
    obtain c where c: "ml_heap m ((a # bs) ! Suc j) = Some c"
      "block_ok (b0 + Suc j) (next_in (a # bs) (Suc j)) slots closed (Suc j < Suc t) c"
      by (rule chain_block [OF ok, of "Suc j"]) (use j in simp_all)
    moreover have "bs ! j \<noteq> a" using a j nth_mem by fastforce
    ultimately show ?thesis using m' by (simp add: without_def next_in_Cons)
  qed
  moreover have "x \<in> set bs" if "ml_heap (without a m') x \<noteq> None" for x
    using that ok by (cases "x = a") (auto simp: m' without_def chain_ok_def)
  ultimately show ?thesis
    using ok unfolding chain_ok_def by (elim conjE, intro conjI) (simp add: m'; fail | blast | simp add: m')+
qed

lemma reclaim_block_rep:
  assumes ok: "chain_ok (a # bs) b0 (Suc t) slots closed m" and so: "slots_ok (a # bs) b0 slots closed m"
  shows "\<exists>bs' m'. reclaim_block a m = Inr m' \<and> same_rx m m' \<and> chain_ok (bs @ bs') (Suc b0) t slots closed m' \<and>
     slots_ok (bs @ bs') (Suc b0) slots closed m'"
proof -
  obtain b where b: "deref a m = Inr b" using deref_block [OF ok, of 0] by auto
  let ?m = "put_block a (block_reclaim b) m"
  have a: "a \<notin> set bs" "a < ml_fresh m" "Suc t < length (a # bs)" and tail: "ml_block_tail m = bs ! t"
    and pos: "b0 + Suc t \<le> unat (ml_tail_position m) div 32" using ok by (simp_all add: chain_ok_def)
  have ok': "chain_ok bs (Suc b0) t slots closed (without a ?m)"
    by (rule chain_tl [OF ok]) (simp_all add: put_block_def)
  have so': "slots_ok bs (Suc b0) slots closed ?m" using so by (simp add: slots_ok_def)
  have "\<exists>r m'. reclaim_tries 3 (bs ! t) a ?m = Inr (r, m') \<and> same_rx ?m m' \<and>
     (if r then chain_ok (bs @ [a]) (Suc b0) t slots closed m' else chain_ok bs (Suc b0) t slots closed (without a m'))"
    by (rule reclaim_tries_rep [OF ok' so', where ab = "block_reclaim b"])
      (use a pos in \<open>simp_all add: put_block_def blank_reclaim\<close>)
  then obtain r m' where r: "reclaim_tries 3 (bs ! t) a ?m = Inr (r, m')" "same_rx ?m m'"
    "if r then chain_ok (bs @ [a]) (Suc b0) t slots closed m' else chain_ok bs (Suc b0) t slots closed (without a m')"
    by blast
  have rec: "reclaim_block a m = Inr (if r then m' else without a m')"
    using b r(1) by (simp add: reclaim_block_def tail without_def)
  have same: "same_rx m m'" using r(2) by (simp add: same_rx_def)
  show ?thesis
  proof (cases r)
    case True
    have "slots_ok (bs @ [a]) (Suc b0) slots closed m'"
      using so same by (auto simp: slots_ok_def same_rx_def intro: less_le_trans)
    with True rec r(3) same show ?thesis by (intro exI [of _ "[a]"] exI [of _ m']) simp
  next
    case False
    have "slots_ok bs (Suc b0) slots closed (without a m')" using so same by (simp add: slots_ok_def same_rx_def)
    with False rec r(3) same show ?thesis
      by (intro exI [of _ "[]"] exI [of _ "without a m'"]) (simp add: same_rx_def)
  qed
qed

lemma reclaim_blocks_rep:
  assumes "mrep bs b0 h t slots closed m"
  shows "\<exists>bs' b' h' t' m'. reclaim_blocks m = Some (Inr m') \<and> mrep bs' b' h' t' slots closed m' \<and>
     b' + h' = b0 + h \<and> ml_tail_position m' = ml_tail_position m \<and> ml_index m' = ml_index m \<and> ml_head m' = ml_head m"
  using assms
proof (induction h arbitrary: bs b0 t m)
  case 0
  then have "reclaim_blocks m = Some (Inr m)" by (simp add: reclaim_blocks.simps [of m] mrep_def)
  with 0 show ?case by blast
next
  case (Suc h)
  have ok: "chain_ok bs b0 t slots closed m" and so: "slots_ok bs b0 slots closed m" and h: "Suc h < length bs"
    and head: "ml_head m = bs ! Suc h" "ml_free_head m = bs ! 0" and pos: "b0 + Suc h \<le> unat (ml_index m) div 32"
    using Suc.prems by (simp_all add: mrep_def)
  obtain a cs where bs: "bs = a # cs" using h by (cases bs) auto
  obtain b where b: "deref a m = Inr b" "block_ok b0 (next_in bs 0) slots closed (0 < t) b"
    using deref_block [OF ok, of 0] by (auto simp: bs)
  have "a \<noteq> cs ! h" using ok h nth_mem by (fastforce simp: bs chain_ok_def)
  then have diff: "ml_free_head m \<noteq> ml_head m" using head by (simp add: bs)
  have nxt: "load_next a m = Inr (Some (cs ! 0))"
    using load_next_chain [OF ok, of 0] h by (cases cs) (simp_all add: bs next_in_def)
  show ?case
  proof (cases "bit (b_ready_slots b) 32 \<and> b_observed_tail_position b \<le> ml_index m")
    case False
    then have "reclaim_blocks m = Some (Inr m)"
      using diff b(1) by (auto simp: reclaim_blocks.simps [of m] head bs Let_def observed_tail_position_def released_bit
          not_le split: option.split)
    with Suc.prems show ?thesis by blast
  next
    case True
    then obtain t1 where t: "t = Suc t1" using b(2) by (cases t) (auto simp: block_ok_def)
    let ?m = "m\<lparr>ml_free_head := cs ! 0\<rparr>"
    have ok1: "chain_ok (a # cs) b0 (Suc t1) slots closed ?m" using ok by (simp add: bs t chain_ok_def)
    have so1: "slots_ok (a # cs) b0 slots closed ?m" using so by (simp add: bs slots_ok_def)
    obtain bs' m' where r: "reclaim_block a ?m = Inr m'" "same_rx ?m m'"
      "chain_ok (cs @ bs') (Suc b0) t1 slots closed m'" "slots_ok (cs @ bs') (Suc b0) slots closed m'"
      using reclaim_block_rep [OF ok1 so1] by blast
    have "cs \<noteq> []" using h by (auto simp: bs)
    then have "mrep (cs @ bs') (Suc b0) h t1 slots closed m'"
      using r h head pos by (simp add: mrep_def same_rx_def bs nth_append)
    moreover have "\<not> ml_index m < b_observed_tail_position b" using True leD by blast
    then have "reclaim_blocks m = reclaim_blocks m'"
      using True diff b(1) nxt r(1)
      by (simp add: reclaim_blocks.simps [of m] head bs Let_def observed_tail_position_def released_bit)
    ultimately show ?thesis
      using Suc.IH [of "cs @ bs'" "Suc b0" t1 m'] r(2) by (simp add: same_rx_def)
  qed
qed


text \<open>\<open>pop\<close> answers by the slot at the receiver's position and by where the list was closed.\<close>

definition abstract_read :: "nat \<Rightarrow> (nat \<Rightarrow> 'a option) \<Rightarrow> nat option \<Rightarrow> 'a read option" where
  "abstract_read i slots closed =
     (case slots i of
        Some v \<Rightarrow> Some (ReadValue v)
      | None \<Rightarrow> (case closed of Some c \<Rightarrow> if c div 32 = i div 32 then Some ReadClosed else None | None \<Rightarrow> None))"

lemma block_read_rep:
  assumes b: "block_ok k nxt slots closed before b" and k: "k = unat i div 32"
  shows "block_read i b = Inr (abstract_read (unat i) slots closed)"
proof -
  have mod: "unat i mod 32 < 32" by simp
  then have "unat i mod 32 < 64" by linarith
  have pos: "32 * k + unat i mod 32 = unat i" by (simp add: k)
  from b mod pos have "bit (b_ready_slots b) (unat i mod 32) \<longleftrightarrow> slots (unat i) \<noteq> None"
    "slots (unat i) \<noteq> None \<Longrightarrow> b_values b (unat i mod 32) = slots (unat i)"
    "bit (b_ready_slots b) 33 \<longleftrightarrow> (\<exists>c. closed = Some c \<and> c div 32 = k)"
    unfolding block_ok_def by (elim conjE; metis)+
  then show ?thesis
    using is_slot_ready_bit [OF \<open>unat i mod 32 < 64\<close>, of "b_ready_slots b"] k
    by (auto simp: block_read_def unat_slot_offset Let_def is_tx_closed_bit abstract_read_def split: option.splits)
qed

lemma pop_rep:
  assumes rep: "mrep bs b0 h t slots closed m"
  shows "\<exists>bs' b0' h' t' m'. mlist_pop m = Some (Inr (abstract_read (unat (ml_index m)) slots closed, m')) \<and>
     mrep bs' b0' h' t' slots closed m' \<and> ml_tail_position m' = ml_tail_position m \<and>
     ml_index m' = (case slots (unat (ml_index m)) of Some v \<Rightarrow> ml_index m + 1 | None \<Rightarrow> ml_index m)"
proof -
  obtain h1 ok where adv: "try_advancing_head m = Some (Inr (ok, m\<lparr>ml_head := bs ! h1\<rparr>))"
    and rep1: "mrep bs b0 h1 t slots closed (m\<lparr>ml_head := bs ! h1\<rparr>)"
    and ok: "if ok then b0 + h1 = unat (ml_index m) div 32 else b0 + length bs \<le> unat (ml_index m) div 32"
    using advancing_head_rep [OF rep] by blast
  have so: "slots_ok bs b0 slots closed m" using rep by (simp add: mrep_def)
  show ?thesis
  proof (cases ok)
    case False
    then have beyond: "32 * (b0 + length bs) \<le> unat (ml_index m)" using ok by (simp add: less_eq_div_iff_mult_less_eq mult.commute)
    have "slots (unat (ml_index m)) = None" using so beyond unfolding slots_ok_def by (metis not_le)
    moreover have "closed = None"
    proof (rule ccontr)
      assume "closed \<noteq> None"
      then obtain c where "closed = Some c" by blast
      then have c: "c < 32 * (b0 + length bs)" "slots c = None" using so by (simp_all add: slots_ok_def)
      have "slots c \<noteq> None" using so less_le_trans [OF c(1) beyond] unfolding slots_ok_def by blast
      with c show False by simp
    qed
    ultimately show ?thesis
      using adv rep1 False by (simp add: mlist_pop_def abstract_read_def) (metis mlist.simps)
  next
    case True
    obtain cs b' h' t' m2 where rec: "reclaim_blocks (m\<lparr>ml_head := bs ! h1\<rparr>) = Some (Inr m2)"
      "mrep cs b' h' t' slots closed m2" "b' + h' = b0 + h1" "ml_tail_position m2 = ml_tail_position m"
      "ml_index m2 = ml_index m"
      using reclaim_blocks_rep [OF rep1] by auto
    have k: "b' + h' = unat (ml_index m2) div 32" using True ok rec(3, 5) by simp
    have chain: "chain_ok cs b' t' slots closed m2" and h': "h' < length cs" "ml_head m2 = cs ! h'"
      using rec(2) by (simp_all add: mrep_def)
    obtain b where b: "deref (cs ! h') m2 = Inr b" "block_ok (b' + h') (next_in cs h') slots closed (h' < t') b"
      using deref_block [OF chain h'(1)] by metis
    let ?r = "abstract_read (unat (ml_index m)) slots closed"
    define m3 where "m3 = (case ?r of Some (ReadValue _) \<Rightarrow> m2\<lparr>ml_index := ml_index m2 + 1\<rparr> | _ \<Rightarrow> m2)"
    have pop: "mlist_pop m = Some (Inr (?r, m3))"
      using adv True rec(1, 5) b(1) h'(2) block_read_rep [OF b(2) k] by (simp add: mlist_pop_def m3_def)
    show ?thesis
    proof (cases "slots (unat (ml_index m))")
      case None
      then have "m3 = m2" by (auto simp: m3_def abstract_read_def split: option.splits)
      with None pop rec show ?thesis by auto
    next
      case (Some v)
      then have m3: "m3 = m2\<lparr>ml_index := ml_index m2 + 1\<rparr>" by (simp add: m3_def abstract_read_def)
      have "unat (ml_index m) < unat (ml_tail_position m)" using so Some by (auto simp: slots_ok_def)
      moreover have "unat (ml_tail_position m) + 256 \<le> 2 ^ 64" using rep by (simp add: mrep_def chain_ok_def)
      ultimately have succ: "unat (ml_index m + 1) = unat (ml_index m) + 1" by (simp add: unat_word_ariths)
      have "unat (ml_index m) div 32 \<le> (unat (ml_index m) + 1) div 32" by (rule div_le_mono) simp
      with rec Some \<open>unat (ml_index m) < unat (ml_tail_position m)\<close> have "mrep cs b' h' t' slots closed m3"
        by (auto simp: m3 mrep_def chain_ok_def slots_ok_def succ less_Suc_eq)
      with Some pop rec(4, 5) m3 show ?thesis by auto
    qed
  qed
qed


text \<open>When the list goes, every block that is still on the heap is freed.\<close>

definition linked :: "nat list \<Rightarrow> nat \<Rightarrow> 'a mlist \<Rightarrow> bool" where
  "linked bs k m \<longleftrightarrow> distinct bs \<and> (\<forall>a. ml_heap m a \<noteq> None \<longrightarrow> a \<in> set bs) \<and> 32 * (k + length bs) + 32 < 2 ^ 64 \<and>
     (\<forall>i<length bs. \<exists>b. ml_heap m (bs ! i) = Some b \<and> unat (b_start_index b) = 32 * (k + i) \<and> b_next b = next_in bs i)"

lemma linked_block:
  assumes "linked bs k m" "i < length bs"
  obtains b where "ml_heap m (bs ! i) = Some b" "unat (b_start_index b) = 32 * (k + i)" "b_next b = next_in bs i"
  using assms unfolding linked_def by blast

lemma linked_load_next:
  assumes l: "linked (a # bs) k m"
  shows "load_next a m = Inr (if bs = [] then None else Some (bs ! 0))"
proof -
  obtain b where b: "ml_heap m a = Some b" "unat (b_start_index b) = 32 * k" "b_next b = next_in (a # bs) 0"
    by (rule linked_block [OF l, of 0]) simp_all
  show ?thesis
  proof (cases "bs = []")
    case True
    with b show ?thesis by (simp add: load_next_def deref_def next_in_def)
  next
    case False
    obtain nb where nb: "ml_heap m (bs ! 0) = Some nb" "unat (b_start_index nb) = 32 * k + 32"
      by (rule linked_block [OF l, of 1]) (use False in simp_all)
    have "32 * k + 32 < 2 ^ 64" using l by (simp add: linked_def)
    then have "unat (b_start_index b + BLOCK_CAP) = unat (b_start_index nb)"
      using b(2) nb(2) by (subst unat_add_cap) simp_all
    then have "b_start_index nb = b_start_index b + BLOCK_CAP" by (simp add: word_unat_eq_iff)
    with b nb False show ?thesis by (simp add: load_next_def deref_def next_in_def)
  qed
qed

lemma linked_tl:
  assumes l: "linked (a # bs) k m"
  shows "linked bs (Suc k) (without a m)"
proof -
  have "\<exists>b. ml_heap (without a m) (bs ! i) = Some b \<and> unat (b_start_index b) = 32 * (Suc k + i) \<and> b_next b = next_in bs i"
    if i: "i < length bs" for i
  proof -
    have "a \<notin> set bs" using l by (simp add: linked_def)
    then have "bs ! i \<noteq> a" using i nth_mem by fastforce
    moreover obtain b where "ml_heap m (bs ! i) = Some b" "unat (b_start_index b) = 32 * (Suc k + i)" "b_next b = next_in bs i"
      by (rule linked_block [OF l, of "Suc i"]) (use i in \<open>simp_all add: next_in_Cons\<close>)
    ultimately show ?thesis by (simp add: without_def)
  qed
  moreover have "\<forall>x. ml_heap (without a m) x \<noteq> None \<longrightarrow> x \<in> set bs"
  proof (intro allI impI)
    fix x assume x: "ml_heap (without a m) x \<noteq> None"
    have "\<forall>x. ml_heap m x \<noteq> None \<longrightarrow> x \<in> set (a # bs)" using l unfolding linked_def by blast
    with x show "x \<in> set bs" by (cases "x = a") (auto simp: without_def)
  qed
  moreover have "distinct bs" "32 * (Suc k + length bs) + 32 < 2 ^ 64" using l by (simp_all add: linked_def)
  ultimately show ?thesis unfolding linked_def by blast
qed

lemma free_loop_frees:
  "linked bs k m \<Longrightarrow> \<exists>m'. free_loop (if bs = [] then None else Some (bs ! 0)) m = Some (Inr m') \<and> (\<forall>a. ml_heap m' a = None)"
proof (induction bs arbitrary: k m)
  case Nil
  then show ?case by (auto simp: free_loop.simps [of None] linked_def)
next
  case (Cons a bs)
  show ?case
    using Cons.IH [OF linked_tl [OF Cons.prems]] linked_load_next [OF Cons.prems]
    by (simp add: free_loop.simps [of "Some a"] without_def)
qed

lemma chain_linked:
  assumes ok: "chain_ok bs b0 t slots closed m"
  shows "linked bs b0 m"
  unfolding linked_def
proof (intro conjI allI impI)
  show "distinct bs" using ok by (simp add: chain_ok_def)
  show "a \<in> set bs" if "ml_heap m a \<noteq> None" for a using ok that by (simp add: chain_ok_def)
  have "0 < length bs" using ok by (auto simp: chain_ok_def)
  then show "32 * (b0 + length bs) + 32 < 2 ^ 64" by (rule chain_range(2) [OF ok])
  fix i assume i: "i < length bs"
  obtain b where "ml_heap m (bs ! i) = Some b" "block_ok (b0 + i) (next_in bs i) slots closed (i < t) b"
    by (rule chain_block [OF ok i])
  then show "\<exists>b. ml_heap m (bs ! i) = Some b \<and> unat (b_start_index b) = 32 * (b0 + i) \<and> b_next b = next_in bs i"
    by (simp add: block_ok_def)
qed

lemma free_blocks_rep:
  assumes "mrep bs b0 h t slots closed m"
  shows "\<exists>m'. free_blocks m = Some (Inr m') \<and> (\<forall>a. ml_heap m' a = None)"
proof -
  have h: "h < length bs" and head: "ml_free_head m = bs ! 0" and "linked bs b0 m"
    using assms chain_linked by (auto simp: mrep_def)
  from free_loop_frees [OF this(3)] h head show ?thesis by (cases bs) (simp_all add: free_blocks_def)
qed

section \<open>The list against a queue of slots\<close>

text \<open>
  The abstract queue has no blocks: positions are counted, a slot is empty or holds its value. The steps of
  the senders come in any order; a sender writes a position it has claimed, once.
\<close>

record 'a slot_queue =
  sq_slots :: "nat \<Rightarrow> 'a option"
  sq_closed :: "nat option"
  sq_tail :: nat
  sq_head :: nat

datatype 'a list_op = OpClaim | OpWrite usize 'a | OpClose | OpPop
datatype 'a list_answer = AnsPosition usize | AnsDone | AnsRead "'a read option"

definition slot_queue_new :: "'a slot_queue" where
  "slot_queue_new = \<lparr>sq_slots = (\<lambda>_. None), sq_closed = None, sq_tail = 0, sq_head = 0\<rparr>"

fun list_op_step :: "'a list_op \<Rightarrow> 'a mlist \<Rightarrow> ('a list_answer \<times> 'a mlist) outcome option" where
  "list_op_step OpClaim m = (case claim_slot m of (i, m') \<Rightarrow> Some (Inr (AnsPosition i, m')))"
| "list_op_step (OpWrite i v) m = bind_oo (write_slot i v m) (\<lambda>(_, m'). Some (Inr (AnsDone, m')))"
| "list_op_step OpClose m = bind_oo (mlist_close m) (\<lambda>(_, m'). Some (Inr (AnsDone, m')))"
| "list_op_step OpPop m = bind_oo (mlist_pop m) (\<lambda>(r, m'). Some (Inr (AnsRead r, m')))"

fun slot_op_step :: "'a list_op \<Rightarrow> 'a slot_queue \<Rightarrow> 'a list_answer \<times> 'a slot_queue" where
  "slot_op_step OpClaim q = (AnsPosition (of_nat (sq_tail q)), q\<lparr>sq_tail := sq_tail q + 1\<rparr>)"
| "slot_op_step (OpWrite i v) q = (AnsDone, q\<lparr>sq_slots := (sq_slots q)(unat i := Some v)\<rparr>)"
| "slot_op_step OpClose q = (AnsDone, q\<lparr>sq_closed := Some (sq_tail q), sq_tail := sq_tail q + 1\<rparr>)"
| "slot_op_step OpPop q =
     (AnsRead (abstract_read (sq_head q) (sq_slots q) (sq_closed q)),
      case sq_slots q (sq_head q) of Some _ \<Rightarrow> q\<lparr>sq_head := sq_head q + 1\<rparr> | None \<Rightarrow> q)"

fun legal_op :: "'a list_op \<Rightarrow> 'a slot_queue \<Rightarrow> bool" where
  "legal_op OpClaim q \<longleftrightarrow> sq_tail q + 257 \<le> 2 ^ 64"
| "legal_op (OpWrite i v) q \<longleftrightarrow> unat i < sq_tail q \<and> sq_slots q (unat i) = None \<and> sq_closed q \<noteq> Some (unat i)"
| "legal_op OpClose q \<longleftrightarrow> sq_tail q + 257 \<le> 2 ^ 64 \<and> sq_closed q = None"
| "legal_op OpPop q \<longleftrightarrow> True"

primrec run_list_ops :: "'a list_op list \<Rightarrow> 'a mlist \<Rightarrow> ('a list_answer list \<times> 'a mlist) outcome option" where
  "run_list_ops [] m = Some (Inr ([], m))"
| "run_list_ops (p # ps) m =
     bind_oo (list_op_step p m) (\<lambda>(a, m'). bind_oo (run_list_ops ps m') (\<lambda>(as, m''). Some (Inr (a # as, m''))))"

primrec run_slot_ops :: "'a list_op list \<Rightarrow> 'a slot_queue \<Rightarrow> 'a list_answer list \<times> 'a slot_queue" where
  "run_slot_ops [] q = ([], q)"
| "run_slot_ops (p # ps) q =
     (case slot_op_step p q of (a, q') \<Rightarrow> case run_slot_ops ps q' of (as, q'') \<Rightarrow> (a # as, q''))"

primrec legal_ops :: "'a list_op list \<Rightarrow> 'a slot_queue \<Rightarrow> bool" where
  "legal_ops [] q \<longleftrightarrow> True"
| "legal_ops (p # ps) q \<longleftrightarrow> legal_op p q \<and> legal_ops ps (snd (slot_op_step p q))"

definition represents :: "'a slot_queue \<Rightarrow> 'a mlist \<Rightarrow> bool" where
  "represents q m \<longleftrightarrow> (\<exists>bs b0 h t. mrep bs b0 h t (sq_slots q) (sq_closed q) m) \<and>
     sq_tail q = unat (ml_tail_position m) \<and> sq_head q = unat (ml_index m)"

lemma represents_new: "represents slot_queue_new mlist_channel"
  using mlist_channel_rep by (fastforce simp: represents_def slot_queue_new_def mlist_channel_def)

lemma list_op_refines:
  assumes rep: "represents q m" and legal: "legal_op p q"
  shows "\<exists>m'. list_op_step p m = Some (Inr (fst (slot_op_step p q), m')) \<and> represents (snd (slot_op_step p q)) m'"
proof -
  obtain bs b0 h t where m: "mrep bs b0 h t (sq_slots q) (sq_closed q) m"
    and pos: "sq_tail q = unat (ml_tail_position m)" "sq_head q = unat (ml_index m)"
    using rep unfolding represents_def by blast
  show ?thesis
  proof (cases p)
    case OpClaim
    with legal pos have "unat (ml_tail_position m) + 257 \<le> 2 ^ 64" by simp
    from claim_rep [OF m this] claim_unat [OF this] OpClaim pos show ?thesis
      by (auto simp: claim_slot_def represents_def)
  next
    case (OpWrite i v)
    with legal pos obtain bs' t' m' where "write_slot i v m = Some (Inr ((), m'))"
      "mrep bs' b0 h t' ((sq_slots q)(unat i := Some v)) (sq_closed q) m'" "same_rx m m'"
      using write_slot_rep [OF m, of i v] by auto
    with OpWrite pos show ?thesis by (auto simp: represents_def same_rx_def)
  next
    case OpClose
    with legal pos have room: "unat (ml_tail_position m) + 257 \<le> 2 ^ 64" and none: "sq_closed q = None" by simp_all
    obtain bs' t' m' where "mlist_close m = Some (Inr ((), m'))"
      "mrep bs' b0 h t' (sq_slots q) (Some (unat (ml_tail_position m))) m'"
      "same_rx (m\<lparr>ml_tail_position := ml_tail_position m + 1\<rparr>) m'"
      using close_rep [OF m [unfolded none] room] by blast
    with OpClose pos claim_unat [OF room] show ?thesis by (auto simp: represents_def same_rx_def)
  next
    case OpPop
    obtain bs' b0' h' t' m' where pop: "mlist_pop m = Some (Inr (abstract_read (unat (ml_index m)) (sq_slots q) (sq_closed q), m'))"
      "mrep bs' b0' h' t' (sq_slots q) (sq_closed q) m'" "ml_tail_position m' = ml_tail_position m"
      "ml_index m' = (case sq_slots q (unat (ml_index m)) of Some v \<Rightarrow> ml_index m + 1 | None \<Rightarrow> ml_index m)"
      using pop_rep [OF m] by blast
    have "unat (ml_index m) + 1 < 2 ^ 64"
    proof -
      have "unat (ml_index m) \<le> unat (ml_tail_position m)" "unat (ml_tail_position m) + 256 \<le> 2 ^ 64"
        using m by (simp_all add: mrep_def chain_ok_def slots_ok_def)
      then show ?thesis by linarith
    qed
    then have "unat (ml_index m + 1) = unat (ml_index m) + 1" by (simp add: unat_word_ariths)
    with OpPop pop pos show ?thesis by (fastforce simp: represents_def split: option.splits)
  qed
qed

lemma run_list_ops_refines:
  "represents q m \<Longrightarrow> legal_ops ps q \<Longrightarrow>
   \<exists>m'. run_list_ops ps m = Some (Inr (fst (run_slot_ops ps q), m')) \<and> represents (snd (run_slot_ops ps q)) m'"
proof (induction ps arbitrary: q m)
  case Nil
  then show ?case by simp
next
  case (Cons p ps)
  obtain m1 where step: "list_op_step p m = Some (Inr (fst (slot_op_step p q), m1))"
    "represents (snd (slot_op_step p q)) m1" using list_op_refines Cons.prems by (metis legal_ops.simps(2))
  have "legal_ops ps (snd (slot_op_step p q))" using Cons.prems(2) by simp
  from Cons.IH [OF step(2) this] step(1) show ?case by (auto split: prod.splits)
qed


text \<open>C33: The block list refines the queue of slots: in any order of claims, writes, a close and pops, in
  which senders write positions they have claimed, every operation returns and none panics, positions are
  handed out in order, and each pop answers as the slot at the receiver's position does, however the blocks
  are grown, moved over and reused.\<close>

theorem mpsc_list_refines_slot_queue:
  assumes "legal_ops ps slot_queue_new"
  shows "\<exists>m. run_list_ops ps mlist_channel = Some (Inr (fst (run_slot_ops ps slot_queue_new), m)) \<and>
     unat (ml_index m) = sq_head (snd (run_slot_ops ps slot_queue_new)) \<and>
     unat (ml_tail_position m) = sq_tail (snd (run_slot_ops ps slot_queue_new))"
  using run_list_ops_refines [OF represents_new assms] by (auto simp: represents_def)

theorem mpsc_list_refines_slot_queue_witness:
  "\<exists>m. run_list_ops [OpClaim, OpClaim, OpWrite 1 True, OpPop, OpWrite 0 False, OpPop, OpPop, OpClose, OpPop] mlist_channel =
     Some (Inr ([AnsPosition 0, AnsPosition 1, AnsDone, AnsRead None, AnsDone, AnsRead (Some (ReadValue False)),
       AnsRead (Some (ReadValue True)), AnsDone, AnsRead (Some ReadClosed)], m))"
  using mpsc_list_refines_slot_queue
    [of "[OpClaim, OpClaim, OpWrite 1 True, OpPop, OpWrite 0 False, OpPop, OpPop, OpClose, OpPop]"]
  by (auto simp: slot_queue_new_def abstract_read_def)

text \<open>No block is lost or freed twice: after any such run, dropping the list frees exactly the blocks that
  are still on the heap, those taken back from the receiver included, and leaves it empty.\<close>

lemma mpsc_list_frees_every_block:
  assumes "legal_ops ps slot_queue_new"
  shows "\<exists>answers m m'. run_list_ops ps mlist_channel = Some (Inr (answers, m)) \<and> free_blocks m = Some (Inr m') \<and>
     (\<forall>a. ml_heap m' a = None)"
proof -
  obtain m where "run_list_ops ps mlist_channel = Some (Inr (fst (run_slot_ops ps slot_queue_new), m))"
    and rep: "represents (snd (run_slot_ops ps slot_queue_new)) m"
    using run_list_ops_refines [OF represents_new assms] by blast
  moreover obtain m' where "free_blocks m = Some (Inr m')" "\<forall>a. ml_heap m' a = None"
    using rep free_blocks_rep unfolding represents_def by blast
  ultimately show ?thesis by blast
qed

lemma mpsc_list_frees_every_block_witness:
  "\<exists>answers m m'. run_list_ops [OpClaim, OpWrite 0 True, OpPop, OpClose] mlist_channel = Some (Inr (answers, m)) \<and>
     free_blocks m = Some (Inr m') \<and> (\<forall>a. ml_heap m' a = None)"
  by (rule mpsc_list_frees_every_block) (simp add: slot_queue_new_def)

section \<open>The list as a queue\<close>

text \<open>
  What a channel relies on: \<open>rep s xs k\<close> says that the values \<open>xs\<close> are in the queue, in this order, and that
  there is room for the numbers of \<open>k\<close> more pushes.
\<close>

datatype 'a fifo_op = Push 'a | Pop

primrec fifo_step :: "'a fifo_op \<Rightarrow> 'a list \<Rightarrow> 'a option \<times> 'a list" where
  "fifo_step (Push v) xs = (None, xs @ [v])"
| "fifo_step Pop xs = (case xs of [] \<Rightarrow> (None, []) | x # xs' \<Rightarrow> (Some x, xs'))"

primrec run_fifo :: "'a fifo_op list \<Rightarrow> 'a list \<Rightarrow> 'a option list" where
  "run_fifo [] xs = []"
| "run_fifo (p # ps) xs = (case fifo_step p xs of (a, xs') \<Rightarrow> a # run_fifo ps xs')"

primrec run_queue ::
    "('a \<Rightarrow> 's \<Rightarrow> (unit \<times> 's) outcome option) \<Rightarrow> ('s \<Rightarrow> ('a read option \<times> 's) outcome option) \<Rightarrow>
     'a fifo_op list \<Rightarrow> 's \<Rightarrow> ('a option list \<times> 's) outcome option" where
  "run_queue push pop [] s = Some (Inr ([], s))"
| "run_queue push pop (p # ps) s =
     bind_oo (case p of
         Push v \<Rightarrow> bind_oo (push v s) (\<lambda>(_, s'). Some (Inr (None, s')))
       | Pop \<Rightarrow> bind_oo (pop s) (\<lambda>(r, s'). Some (Inr (case r of Some (ReadValue v) \<Rightarrow> Some v | _ \<Rightarrow> None, s'))))
       (\<lambda>(a, s'). bind_oo (run_queue push pop ps s') (\<lambda>(as, s''). Some (Inr (a # as, s''))))"

locale fifo_queue =
  fixes rep :: "'s \<Rightarrow> 'a list \<Rightarrow> nat \<Rightarrow> bool"
    and push :: "'a \<Rightarrow> 's \<Rightarrow> (unit \<times> 's) outcome option"
    and pop :: "'s \<Rightarrow> ('a read option \<times> 's) outcome option"
  assumes push_back: "rep s xs (Suc k) \<Longrightarrow> \<exists>s'. push v s = Some (Inr ((), s')) \<and> rep s' (xs @ [v]) k"
    and pop_front: "rep s (x # xs) k \<Longrightarrow> \<exists>s'. pop s = Some (Inr (Some (ReadValue x), s')) \<and> rep s' xs k"
    and pop_none: "rep s [] k \<Longrightarrow> \<exists>s'. pop s = Some (Inr (None, s')) \<and> rep s' [] k"
    and fewer: "rep s xs (Suc k) \<Longrightarrow> rep s xs k"
begin

lemma pop_cases:
  assumes "rep s xs k"
  shows "\<exists>s'. pop s = Some (Inr (case xs of [] \<Rightarrow> None | x # _ \<Rightarrow> Some (ReadValue x), s')) \<and> rep s' (tl xs) k"
  using assms pop_front pop_none by (cases xs) auto

lemma run_fifo_queue: "rep s xs (length ps) \<Longrightarrow> \<exists>s'. run_queue push pop ps s = Some (Inr (run_fifo ps xs, s'))"
proof (induction ps arbitrary: s xs)
  case Nil
  then show ?case by simp
next
  case (Cons p ps)
  then have r: "rep s xs (Suc (length ps))" by simp
  show ?case
  proof (cases p)
    case (Push v)
    obtain s1 where "push v s = Some (Inr ((), s1))" "rep s1 (xs @ [v]) (length ps)" using push_back [OF r] by blast
    with Cons.IH [of s1 "xs @ [v]"] Push show ?thesis by auto
  next
    case Pop
    obtain s1 where "pop s = Some (Inr (case xs of [] \<Rightarrow> None | x # _ \<Rightarrow> Some (ReadValue x), s1))"
      "rep s1 (tl xs) (length ps)" using pop_cases [OF fewer [OF r]] by blast
    with Cons.IH [of s1 "tl xs"] Pop show ?thesis by (cases xs) auto
  qed
qed

end

text \<open>
  The state of a queue that is used as one: no position is claimed and not written. \<open>cl\<close> says whether it was
  closed; the position of \<open>close\<close> then comes after the last value.
\<close>

definition queue_state :: "'a mlist \<Rightarrow> 'a list \<Rightarrow> nat \<Rightarrow> bool \<Rightarrow> bool" where
  "queue_state m xs k cl \<longleftrightarrow>
     (\<exists>q. represents q m \<and> sq_closed q = (if cl then Some (sq_head q + length xs) else None) \<and>
        sq_tail q = sq_head q + length xs + (if cl then 1 else 0) \<and>
        (\<forall>i<length xs. sq_slots q (sq_head q + i) = Some (xs ! i)) \<and> sq_slots q (sq_head q + length xs) = None \<and>
        sq_tail q + k + 256 \<le> 2 ^ 64)"

definition queue_rep :: "'a mlist \<Rightarrow> 'a list \<Rightarrow> nat \<Rightarrow> bool" where
  "queue_rep m xs k \<longleftrightarrow> queue_state m xs k False"

lemma represents_beyond: "represents q m \<Longrightarrow> sq_tail q \<le> n \<Longrightarrow> sq_slots q n = None"
  unfolding represents_def mrep_def slots_ok_def by (metis leD)

lemma queue_rep_new: "k + 256 \<le> 2 ^ 64 \<Longrightarrow> queue_rep mlist_channel [] k"
  unfolding queue_rep_def queue_state_def
  using represents_new by (intro exI [of _ slot_queue_new]) (simp add: slot_queue_new_def)

lemma queue_push:
  assumes "queue_state m xs (Suc k) False"
  shows "\<exists>m'. mlist_push v m = Some (Inr ((), m')) \<and> queue_state m' (xs @ [v]) k False"
proof -
  obtain q where q: "represents q m" "sq_closed q = None" "sq_tail q = sq_head q + length xs"
    "\<forall>i<length xs. sq_slots q (sq_head q + i) = Some (xs ! i)" "sq_tail q + Suc k + 256 \<le> 2 ^ 64"
    using assms by (auto simp: queue_state_def)
  let ?i = "ml_tail_position m" and ?m1 = "m\<lparr>ml_tail_position := ml_tail_position m + 1\<rparr>"
  let ?q1 = "q\<lparr>sq_tail := sq_tail q + 1\<rparr>"
  have i: "unat ?i = sq_tail q" using q(1) by (simp add: represents_def)
  have "represents ?q1 ?m1"
    using list_op_refines [OF q(1), of OpClaim] q(5) by (auto simp: claim_slot_def)
  moreover have "legal_op (OpWrite ?i v) ?q1"
    using q(2) represents_beyond [OF q(1)] by (simp add: i)
  ultimately obtain m' where m': "list_op_step (OpWrite ?i v) ?m1 = Some (Inr (AnsDone, m'))"
    "represents (snd (slot_op_step (OpWrite ?i v) ?q1)) m'"
    using list_op_refines [of ?q1 ?m1 "OpWrite ?i v"] by auto
  then have "mlist_push v m = Some (Inr ((), m'))"
    by (auto simp: mlist_push_def claim_slot_def bind_oo_def split: option.splits sum.splits)
  moreover have "queue_state m' (xs @ [v]) k False"
    unfolding queue_state_def
  proof (intro exI conjI)
    show "represents (snd (slot_op_step (OpWrite ?i v) ?q1)) m'" by (rule m'(2))
  qed (use q represents_beyond [OF q(1), of "sq_tail q + 1"] in \<open>auto simp: i nth_append less_Suc_eq\<close>)
  ultimately show ?thesis by blast
qed

lemma queue_close:
  assumes "queue_state m xs (Suc k) False"
  shows "\<exists>m'. mlist_close m = Some (Inr ((), m')) \<and> queue_state m' xs k True"
proof -
  obtain q where q: "represents q m" "sq_closed q = None" "sq_tail q = sq_head q + length xs"
    "\<forall>i<length xs. sq_slots q (sq_head q + i) = Some (xs ! i)" "sq_slots q (sq_head q + length xs) = None"
    "sq_tail q + Suc k + 256 \<le> 2 ^ 64"
    using assms by (auto simp: queue_state_def)
  obtain m' where m': "list_op_step OpClose m = Some (Inr (AnsDone, m'))" "represents (snd (slot_op_step OpClose q)) m'"
    using list_op_refines [OF q(1), of OpClose] q(2, 6) by auto
  then have "mlist_close m = Some (Inr ((), m'))"
    by (auto simp: bind_oo_def split: option.splits sum.splits)
  moreover have "queue_state m' xs k True"
    unfolding queue_state_def
    by (intro exI [of _ "snd (slot_op_step OpClose q)"] conjI m'(2)) (use q in auto)
  ultimately show ?thesis by blast
qed

lemma queue_pop:
  assumes "queue_state m xs k cl"
  shows "\<exists>m'. mlist_pop m = Some (Inr (case xs of [] \<Rightarrow> if cl then Some ReadClosed else None | x # _ \<Rightarrow> Some (ReadValue x), m')) \<and>
     queue_state m' (tl xs) k cl \<and> ml_tail_position m' = ml_tail_position m"
proof -
  obtain q where q: "represents q m" "sq_closed q = (if cl then Some (sq_head q + length xs) else None)"
    "sq_tail q = sq_head q + length xs + (if cl then 1 else 0)" "\<forall>i<length xs. sq_slots q (sq_head q + i) = Some (xs ! i)"
    "sq_slots q (sq_head q + length xs) = None" "sq_tail q + k + 256 \<le> 2 ^ 64"
    using assms unfolding queue_state_def by blast
  obtain m' where m': "list_op_step OpPop m = Some (Inr (fst (slot_op_step OpPop q), m'))" "represents (snd (slot_op_step OpPop q)) m'"
    using list_op_refines [OF q(1), of OpPop] by auto
  have front: "sq_slots q (sq_head q) = (case xs of [] \<Rightarrow> None | x # _ \<Rightarrow> Some x)"
    using q(4, 5) by (cases xs) fastforce+
  then have "mlist_pop m = Some (Inr (case xs of [] \<Rightarrow> if cl then Some ReadClosed else None | x # _ \<Rightarrow> Some (ReadValue x), m'))"
    using m'(1) q(2) by (cases xs) (auto simp: bind_oo_def abstract_read_def split: option.splits sum.splits if_splits)
  moreover have "queue_state m' (tl xs) k cl"
    unfolding queue_state_def
    by (intro exI [of _ "snd (slot_op_step OpPop q)"] conjI m'(2)) (use q front in \<open>cases xs; fastforce simp: nth_tl\<close>)+
  moreover have "unat (ml_tail_position m') = unat (ml_tail_position m)"
    using q(1) m'(2) by (auto simp: represents_def split: option.splits)
  then have "ml_tail_position m' = ml_tail_position m" by (simp add: word_unat_eq_iff)
  ultimately show ?thesis by blast
qed

interpretation mlist_queue: fifo_queue queue_rep mlist_push mlist_pop
proof unfold_locales
  fix m :: "'a mlist" and xs k and v x :: 'a
  show "queue_rep m xs (Suc k) \<Longrightarrow> \<exists>s'. mlist_push v m = Some (Inr ((), s')) \<and> queue_rep s' (xs @ [v]) k" unfolding queue_rep_def by (rule queue_push)
  show "queue_rep m (x # xs) k \<Longrightarrow> \<exists>s'. mlist_pop m = Some (Inr (Some (ReadValue x), s')) \<and> queue_rep s' xs k"
    unfolding queue_rep_def using queue_pop [of m "x # xs" k False] by auto
  show "queue_rep m [] k \<Longrightarrow> \<exists>s'. mlist_pop m = Some (Inr (None, s')) \<and> queue_rep s' [] k"
    unfolding queue_rep_def using queue_pop [of m "[]" k False] by auto
  show "queue_rep m xs (Suc k) \<Longrightarrow> queue_rep m xs k" by (fastforce simp: queue_rep_def queue_state_def)
qed

text \<open>Pushing and popping the block list is the same as appending to a list and taking its first element:
  for any program of pushes and pops the answers are equal, one by one; values come out in the order in which
  they went in, each once, and a pop finds nothing only when nothing is there.\<close>

lemma mpsc_list_equals_fifo:
  assumes "length ps + 256 \<le> 2 ^ 64"
  shows "\<exists>m. run_queue mlist_push mlist_pop ps mlist_channel = Some (Inr (run_fifo ps [], m))"
  by (rule mlist_queue.run_fifo_queue [OF queue_rep_new [OF assms]])

lemma mpsc_list_equals_fifo_witness:
  "\<exists>m. run_queue mlist_push mlist_pop [Push True, Pop, Pop, Push False, Push True, Pop] mlist_channel =
     Some (Inr ([None, Some True, None, None, None, Some False], m))"
  using mpsc_list_equals_fifo [of "[Push True, Pop, Pop, Push False, Push True, Pop]"] by simp

end
