(* ===== verification/Mpsc_Chan.thy ===== *)
theory Mpsc_Chan
  imports Mpsc_List Notify Atomic_Waker
begin

text \<open>
  \<open>sync/mpsc/chan.rs\<close>: a channel is the block list, a semaphore that counts what may be sent, the receiver's
  waker and the number of senders. The semaphore is a parameter: the trait \<open>Semaphore\<close> is a record of its
  functions, which the bounded and the unbounded channel instantiate. An operation runs as a whole; the
  wakers it wakes are returned in the order of the calls.
\<close>

section \<open>The channel\<close>

record 's sem_ops =
  so_is_idle :: "'s \<Rightarrow> bool"
  so_add_permit :: "'s \<Rightarrow> ('s \<times> waker list) outcome option"
  so_close :: "'s \<Rightarrow> 's \<times> waker list"
  so_is_closed :: "'s \<Rightarrow> bool"

record ('a, 's) chan =
  ch_notify_rx_closed :: notify
  ch_list :: "'a mlist"
  ch_semaphore :: 's
  ch_rx_waker :: atomic_waker
  ch_tx_count :: usize
  ch_rx_closed :: bool

definition chan_channel :: "'s \<Rightarrow> ('a, 's) chan" where
  "chan_channel semaphore = \<lparr>ch_notify_rx_closed = notify_new, ch_list = mlist_channel, ch_semaphore = semaphore,
     ch_rx_waker = atomic_waker_new, ch_tx_count = 1, ch_rx_closed = False\<rparr>"

text \<open>The cell of the receiver's waker, used by a whole operation; what it wakes is returned.\<close>

definition run_cell :: "'r aw_prog \<Rightarrow> atomic_waker \<Rightarrow> ('r \<times> waker list \<times> atomic_waker) outcome" where
  "run_cell p a =
     and_then (run_prog p (a\<lparr>aw_woken := []\<rparr>)) (\<lambda>(r, a'). Inr (r, aw_woken a', a'\<lparr>aw_woken := []\<rparr>))"

definition wake_rx :: "('a, 's) chan \<Rightarrow> (('a, 's) chan \<times> waker list) outcome" where
  "wake_rx c =
     and_then (run_cell atomic_wake (ch_rx_waker c)) (\<lambda>(_, ws, a). Inr (c\<lparr>ch_rx_waker := a\<rparr>, ws))"

section \<open>Senders\<close>

definition chan_send :: "'a \<Rightarrow> ('a, 's) chan \<Rightarrow> (('a, 's) chan \<times> waker list) outcome option" where
  "chan_send v c =
     bind_oo (mlist_push v (ch_list c)) (\<lambda>(_, l). Some (wake_rx (c\<lparr>ch_list := l\<rparr>)))"

definition chan_is_closed :: "'s sem_ops \<Rightarrow> ('a, 's) chan \<Rightarrow> bool" where
  "chan_is_closed so c \<longleftrightarrow> so_is_closed so (ch_semaphore c)"

text \<open>
  \<open>closed().await\<close>: the first poll asks for the notification and then looks whether the semaphore is closed;
  the future of the notification, numbered \<open>i\<close>, is dropped when the call returns.
\<close>

definition closed_await ::
    "waker \<Rightarrow> nat \<Rightarrow> notified_state \<Rightarrow> ('a, 's) chan \<Rightarrow>
     (unit poll \<times> notified_state option \<times> ('a, 's) chan \<times> waker list) outcome option" where
  "closed_await cx i st c =
     bind_oo (notified_poll cx i st (ch_notify_rx_closed c)) (\<lambda>(r, st', n).
       case r of
         Pending \<Rightarrow> Some (Inr (Pending, Some st', c\<lparr>ch_notify_rx_closed := n\<rparr>, []))
       | Ready _ \<Rightarrow>
           bind_oo (Some (notified_drop i st' n)) (\<lambda>(ws, n').
             Some (Inr (Ready (), None, c\<lparr>ch_notify_rx_closed := n'\<rparr>, ws))))"

definition chan_closed ::
    "'s sem_ops \<Rightarrow> waker \<Rightarrow> nat \<Rightarrow> notified_state option \<Rightarrow> ('a, 's) chan \<Rightarrow>
     (unit poll \<times> notified_state option \<times> ('a, 's) chan \<times> waker list) outcome option" where
  "chan_closed so cx i fut c =
     (case fut of
        Some st \<Rightarrow> closed_await cx i st c
      | None \<Rightarrow>
          (case notify_notified i (ch_notify_rx_closed c) of (st, n) \<Rightarrow>
             let c1 = c\<lparr>ch_notify_rx_closed := n\<rparr> in
             if so_is_closed so (ch_semaphore c1)
             then bind_oo (Some (notified_drop i st n)) (\<lambda>(ws, n').
                    Some (Inr (Ready (), None, c1\<lparr>ch_notify_rx_closed := n'\<rparr>, ws)))
             else closed_await cx i st c1))"

definition chan_tx_clone :: "('a, 's) chan \<Rightarrow> ('a, 's) chan" where
  "chan_tx_clone c = c\<lparr>ch_tx_count := ch_tx_count c + 1\<rparr>"

definition chan_tx_drop :: "('a, 's) chan \<Rightarrow> (('a, 's) chan \<times> waker list) outcome option" where
  "chan_tx_drop c =
     (let prev = ch_tx_count c; c1 = c\<lparr>ch_tx_count := prev - 1\<rparr> in
      if prev \<noteq> 1 then Some (Inr (c1, []))
      else bind_oo (mlist_close (ch_list c1)) (\<lambda>(_, l). Some (wake_rx (c1\<lparr>ch_list := l\<rparr>))))"

section \<open>The receiver\<close>

text \<open>The early return of \<open>close\<close> only leaves the closure around the fields: the rest is done each time.\<close>

definition chan_close :: "'s sem_ops \<Rightarrow> ('a, 's) chan \<Rightarrow> (('a, 's) chan \<times> waker list) outcome" where
  "chan_close so c =
     (let c1 = c\<lparr>ch_rx_closed := True\<rparr> in
      case so_close so (ch_semaphore c1) of (s, ws) \<Rightarrow>
        and_then (notify_waiters (ch_notify_rx_closed c1)) (\<lambda>(ws2, n).
          Inr (c1\<lparr>ch_semaphore := s, ch_notify_rx_closed := n\<rparr>, ws @ ws2)))"

text \<open>The macro \<open>try_recv!\<close> of \<open>recv\<close>: \<open>Some\<close> answers, \<open>None\<close> falls through.\<close>

definition recv_once ::
    "'s sem_ops \<Rightarrow> ('a, 's) chan \<Rightarrow> ('a option option \<times> ('a, 's) chan \<times> waker list) outcome option" where
  "recv_once so c =
     bind_oo (mlist_pop (ch_list c)) (\<lambda>(r, l).
       let c1 = c\<lparr>ch_list := l\<rparr> in
       case r of
         Some (ReadValue v) \<Rightarrow>
           bind_oo (so_add_permit so (ch_semaphore c1)) (\<lambda>(s, ws).
             Some (Inr (Some (Some v), c1\<lparr>ch_semaphore := s\<rparr>, ws)))
       | Some ReadClosed \<Rightarrow>
           bind_oo (Some (ensure (so_is_idle so (ch_semaphore c1)) AssertFailed)) (\<lambda>_.
             Some (Inr (Some None, c1, [])))
       | None \<Rightarrow> Some (Inr (None, c1, [])))"

definition chan_recv ::
    "'s sem_ops \<Rightarrow> waker \<Rightarrow> ('a, 's) chan \<Rightarrow> ('a option poll \<times> ('a, 's) chan \<times> waker list) outcome option" where
  "chan_recv so cx c =
     bind_oo (recv_once so c) (\<lambda>(r, c1, ws1).
       case r of
         Some v \<Rightarrow> Some (Inr (Ready v, c1, ws1))
       | None \<Rightarrow>
           bind_oo (Some (run_cell (register_by_ref True cx) (ch_rx_waker c1))) (\<lambda>(_, ws2, a).
           bind_oo (recv_once so (c1\<lparr>ch_rx_waker := a\<rparr>)) (\<lambda>(r, c2, ws3).
             let ws = ws1 @ ws2 @ ws3 in
             case r of
               Some v \<Rightarrow> Some (Inr (Ready v, c2, ws))
             | None \<Rightarrow>
                 Some (Inr (if ch_rx_closed c2 \<and> so_is_idle so (ch_semaphore c2) then Ready None else Pending,
                   c2, ws)))))"

datatype TryRecvError = RecvEmpty | RecvDisconnected

text \<open>A sender that claimed a slot and has not written it makes \<open>try_recv\<close> reach \<open>todo!()\<close>.\<close>

definition chan_try_recv ::
    "'s sem_ops \<Rightarrow> ('a, 's) chan \<Rightarrow> ((TryRecvError + 'a) \<times> ('a, 's) chan \<times> waker list) outcome option" where
  "chan_try_recv so c =
     bind_oo (mlist_try_pop (ch_list c)) (\<lambda>(r, l).
       let c1 = c\<lparr>ch_list := l\<rparr> in
       case r of
         PopOk v \<Rightarrow>
           bind_oo (so_add_permit so (ch_semaphore c1)) (\<lambda>(s, ws). Some (Inr (Inr v, c1\<lparr>ch_semaphore := s\<rparr>, ws)))
       | PopClosed \<Rightarrow> Some (Inr (Inl RecvDisconnected, c1, []))
       | PopEmpty \<Rightarrow> Some (Inr (Inl RecvEmpty, c1, []))
       | PopBusy \<Rightarrow> bind_oo (Some (wake_rx c1)) (\<lambda>_. Some (Inl Unimplemented)))"

partial_function (option) rx_drain ::
    "'s sem_ops \<Rightarrow> ('a, 's) chan \<Rightarrow> waker list \<Rightarrow> (('a, 's) chan \<times> waker list) outcome option" where
  "rx_drain so c woken =
     bind_oo (mlist_pop (ch_list c)) (\<lambda>(r, l).
       case r of
         Some (ReadValue v) \<Rightarrow>
           bind_oo (so_add_permit so (ch_semaphore c)) (\<lambda>(s, ws).
             rx_drain so (c\<lparr>ch_list := l, ch_semaphore := s\<rparr>) (woken @ ws))
       | _ \<Rightarrow> Some (Inr (c\<lparr>ch_list := l\<rparr>, woken)))"

definition chan_rx_drop :: "'s sem_ops \<Rightarrow> ('a, 's) chan \<Rightarrow> (('a, 's) chan \<times> waker list) outcome option" where
  "chan_rx_drop so c = bind_oo (Some (chan_close so c)) (\<lambda>(c1, ws). rx_drain so c1 ws)"

section \<open>The end of the channel\<close>

partial_function (option) drain_list :: "'a mlist \<Rightarrow> 'a mlist outcome option" where
  "drain_list l =
     bind_oo (mlist_pop l) (\<lambda>(r, l'). case r of Some (ReadValue v) \<Rightarrow> drain_list l' | _ \<Rightarrow> Some (Inr l'))"

definition chan_drop :: "('a, 's) chan \<Rightarrow> ('a, 's) chan outcome option" where
  "chan_drop c =
     bind_oo (drain_list (ch_list c)) (\<lambda>l. bind_oo (free_blocks l) (\<lambda>l'. Some (Inr (c\<lparr>ch_list := l'\<rparr>))))"


section \<open>What the operations do\<close>

text \<open>Between operations nobody holds the cell: it has a waker or none.\<close>

definition idle_cell :: "waker option \<Rightarrow> atomic_waker" where
  "idle_cell w = \<lparr>aw_state = AW_WAITING, aw_waker = w, aw_woken = []\<rparr>"

lemma run_cell_register: "run_cell (register_by_ref True cx) (idle_cell w) = Inr ((), [], idle_cell (Some cx))"
  by (cases w; simp add: run_cell_def idle_cell_def aw_run)

lemma run_cell_wake: "run_cell atomic_wake (idle_cell w) = Inr ((), waker_list w, idle_cell None)"
  by (cases w; simp add: run_cell_def idle_cell_def aw_run waker_list_def)

lemma wake_rx_eq:
  "ch_rx_waker c = idle_cell w \<Longrightarrow> wake_rx c = Inr (c\<lparr>ch_rx_waker := idle_cell None\<rparr>, waker_list w)"
  by (simp add: wake_rx_def run_cell_wake)

text \<open>
  The state of a channel between operations: the values \<open>xs\<close> are in it, \<open>k\<close> more positions are left, \<open>cl\<close> says
  whether the last sender is gone, and \<open>w\<close> is the waker of the receiver. \<open>same_but_queue\<close>: what most
  operations leave alone.
\<close>

definition chan_ok :: "('a, 's) chan \<Rightarrow> 'a list \<Rightarrow> nat \<Rightarrow> bool \<Rightarrow> waker option \<Rightarrow> bool" where
  "chan_ok c xs k cl w \<longleftrightarrow> queue_state (ch_list c) xs k cl \<and> ch_rx_waker c = idle_cell w"

definition same_but_queue :: "('a, 's) chan \<Rightarrow> ('a, 's) chan \<Rightarrow> bool" where
  "same_but_queue c c' \<longleftrightarrow> ch_notify_rx_closed c' = ch_notify_rx_closed c \<and> ch_rx_closed c' = ch_rx_closed c"

lemma chan_channel_ok: "k + 256 \<le> 2 ^ 64 \<Longrightarrow> chan_ok (chan_channel s) [] k False None"
  using queue_rep_new by (auto simp: chan_ok_def chan_channel_def queue_rep_def idle_cell_def atomic_waker_new_def)

lemma queue_state_fewer: "queue_state m xs (Suc k) cl \<Longrightarrow> queue_state m xs k cl"
  by (fastforce simp: queue_state_def)

lemma chan_send_ok:
  assumes "chan_ok c xs (Suc k) False w"
  shows "\<exists>c'. chan_send v c = Some (Inr (c', waker_list w)) \<and> chan_ok c' (xs @ [v]) k False None \<and>
     same_but_queue c c' \<and> ch_semaphore c' = ch_semaphore c \<and> ch_tx_count c' = ch_tx_count c"
proof -
  obtain l where l: "mlist_push v (ch_list c) = Some (Inr ((), l))" "queue_state l (xs @ [v]) k False"
    using queue_push [of "ch_list c" xs k v] assms by (auto simp: chan_ok_def)
  let ?c = "c\<lparr>ch_list := l, ch_rx_waker := idle_cell None\<rparr>"
  have "wake_rx (c\<lparr>ch_list := l\<rparr>) = Inr (?c, waker_list w)"
    using assms by (simp add: wake_rx_eq [of _ w] chan_ok_def)
  then have "chan_send v c = Some (Inr (?c, waker_list w))" using l(1) by (simp add: chan_send_def)
  with l(2) show ?thesis by (intro exI [of _ ?c]) (simp add: chan_ok_def same_but_queue_def)
qed

lemma chan_tx_drop_ok:
  assumes "chan_ok c xs (Suc k) False w" "ch_tx_count c \<noteq> 0"
  shows "\<exists>c'. chan_tx_drop c = Some (Inr (c', if ch_tx_count c = 1 then waker_list w else [])) \<and>
     chan_ok c' xs k (ch_tx_count c = 1) (if ch_tx_count c = 1 then None else w) \<and>
     same_but_queue c c' \<and> ch_semaphore c' = ch_semaphore c \<and> ch_tx_count c' = ch_tx_count c - 1"
proof (cases "ch_tx_count c = 1")
  case True
  obtain l where l: "mlist_close (ch_list c) = Some (Inr ((), l))" "queue_state l xs k True"
    using queue_close [of "ch_list c" xs k] assms by (auto simp: chan_ok_def)
  let ?c = "c\<lparr>ch_list := l, ch_rx_waker := idle_cell None, ch_tx_count := ch_tx_count c - 1\<rparr>"
  have "wake_rx (c\<lparr>ch_tx_count := ch_tx_count c - 1, ch_list := l\<rparr>) = Inr (?c, waker_list w)"
    using assms by (simp add: wake_rx_eq [of _ w] chan_ok_def)
  then have "chan_tx_drop c = Some (Inr (?c, waker_list w))" using l(1) True by (simp add: chan_tx_drop_def Let_def)
  with l(2) True show ?thesis by (intro exI [of _ ?c]) (simp add: chan_ok_def same_but_queue_def)
next
  case False
  have "queue_state (ch_list c) xs k False" using assms(1) by (auto simp: chan_ok_def intro: queue_state_fewer)
  with assms False show ?thesis
    by (intro exI [of _ "c\<lparr>ch_tx_count := ch_tx_count c - 1\<rparr>"])
      (simp add: chan_tx_drop_def chan_ok_def same_but_queue_def Let_def)
qed

lemma queue_try_pop:
  assumes "queue_state m xs k cl"
  shows "\<exists>m'. mlist_try_pop m = Some (Inr (case xs of [] \<Rightarrow> if cl then PopClosed else PopEmpty | x # _ \<Rightarrow> PopOk x, m')) \<and>
     queue_state m' (tl xs) k cl"
proof -
  obtain m' where m': "mlist_pop m = Some (Inr (case xs of [] \<Rightarrow> if cl then Some ReadClosed else None | x # _ \<Rightarrow> Some (ReadValue x), m'))"
    "queue_state m' (tl xs) k cl" "ml_tail_position m' = ml_tail_position m"
    using queue_pop [OF assms] by blast
  have "ml_tail_position m = ml_index m'" if "xs = []" "\<not> cl"
    using m'(2, 3) that by (auto simp: queue_state_def represents_def word_unat_eq_iff)
  with m' show ?thesis by (cases xs) (auto simp: mlist_try_pop_def Let_def)
qed

section \<open>What the channel asks of its semaphore\<close>

text \<open>
  \<open>owed s n\<close>: the account of the permits with \<open>n\<close> of them taken by values in the channel. Taking a value out
  gives one back, which must succeed, and closing does not touch the account.
\<close>

locale chan_semaphore =
  fixes so :: "'s sem_ops" and owed :: "'s \<Rightarrow> nat \<Rightarrow> bool"
  assumes add_owed: "owed s (Suc n) \<Longrightarrow> \<exists>s' ws. so_add_permit so s = Some (Inr (s', ws)) \<and> owed s' n \<and>
       so_is_closed so s' = so_is_closed so s"
    and close_owed: "owed s n \<Longrightarrow> owed (fst (so_close so s)) n \<and> so_is_closed so (fst (so_close so s))"
begin

lemma recv_value:
  assumes c: "chan_ok c (x # xs) k cl w" and s: "so_add_permit so (ch_semaphore c) = Some (Inr (s', ws))"
  shows "\<exists>c'. chan_recv so cx c = Some (Inr (Ready (Some x), c', ws)) \<and> chan_ok c' xs k cl w \<and>
     same_but_queue c c' \<and> ch_semaphore c' = s' \<and> ch_tx_count c' = ch_tx_count c"
proof -
  obtain l where "mlist_pop (ch_list c) = Some (Inr (Some (ReadValue x), l))" "queue_state l xs k cl"
    using c queue_pop [of "ch_list c" "x # xs" k cl] by (auto simp: chan_ok_def)
  with c s show ?thesis by (auto simp: chan_recv_def recv_once_def chan_ok_def same_but_queue_def Let_def)
qed

lemma recv_disconnected:
  assumes c: "chan_ok c [] k True w" and idle: "so_is_idle so (ch_semaphore c)"
  shows "\<exists>c'. chan_recv so cx c = Some (Inr (Ready None, c', [])) \<and> chan_ok c' [] k True w \<and>
     same_but_queue c c' \<and> ch_semaphore c' = ch_semaphore c \<and> ch_tx_count c' = ch_tx_count c"
proof -
  obtain l where "mlist_pop (ch_list c) = Some (Inr (Some ReadClosed, l))" "queue_state l [] k True"
    using c queue_pop [of "ch_list c" "[]" k True] by (auto simp: chan_ok_def)
  with c idle show ?thesis by (auto simp: chan_recv_def recv_once_def chan_ok_def same_but_queue_def Let_def)
qed

lemma recv_panics:
  assumes c: "chan_ok c [] k True w" and idle: "\<not> so_is_idle so (ch_semaphore c)"
  shows "chan_recv so cx c = Some (Inl AssertFailed)"
proof -
  obtain l where "mlist_pop (ch_list c) = Some (Inr (Some ReadClosed, l))"
    using c queue_pop [of "ch_list c" "[]" k True] by (auto simp: chan_ok_def)
  with idle show ?thesis by (simp add: chan_recv_def recv_once_def Let_def)
qed

lemma recv_waits:
  assumes c: "chan_ok c [] k False w"
  shows "\<exists>c'. chan_recv so cx c =
       Some (Inr (if ch_rx_closed c \<and> so_is_idle so (ch_semaphore c) then Ready None else Pending, c', [])) \<and>
     chan_ok c' [] k False (Some cx) \<and> same_but_queue c c' \<and> ch_semaphore c' = ch_semaphore c \<and>
     ch_tx_count c' = ch_tx_count c"
proof -
  obtain l where l: "mlist_pop (ch_list c) = Some (Inr (None, l))" "queue_state l [] k False"
    using c queue_pop [of "ch_list c" "[]" k False] by (auto simp: chan_ok_def)
  obtain l' where l': "mlist_pop l = Some (Inr (None, l'))" "queue_state l' [] k False"
    using queue_pop [OF l(2)] by auto
  from c l(1) l' show ?thesis
    by (auto simp: chan_recv_def recv_once_def chan_ok_def same_but_queue_def Let_def run_cell_register)
qed

lemma try_recv_answers:
  assumes c: "chan_ok c xs k cl w" and owed: "owed (ch_semaphore c) (length xs)"
  shows "\<exists>c' ws. chan_try_recv so c = Some (Inr (case xs of [] \<Rightarrow> Inl (if cl then RecvDisconnected else RecvEmpty) | x # _ \<Rightarrow> Inr x, c', ws)) \<and>
     chan_ok c' (tl xs) k cl w \<and> same_but_queue c c' \<and> ch_tx_count c' = ch_tx_count c \<and>
     (case xs of [] \<Rightarrow> ch_semaphore c' = ch_semaphore c \<and> ws = []
      | _ # _ \<Rightarrow> so_add_permit so (ch_semaphore c) = Some (Inr (ch_semaphore c', ws)))"
proof -
  obtain l where l: "mlist_try_pop (ch_list c) = Some (Inr (case xs of [] \<Rightarrow> if cl then PopClosed else PopEmpty | x # _ \<Rightarrow> PopOk x, l))"
    "queue_state l (tl xs) k cl" using c queue_try_pop unfolding chan_ok_def by blast
  show ?thesis
  proof (cases xs)
    case Nil
    with l c show ?thesis by (cases cl) (auto simp: chan_try_recv_def chan_ok_def same_but_queue_def Let_def)
  next
    case (Cons x ys)
    with owed obtain s' ws where "so_add_permit so (ch_semaphore c) = Some (Inr (s', ws))" using add_owed by fastforce
    with Cons l c show ?thesis by (auto simp: chan_try_recv_def chan_ok_def same_but_queue_def Let_def)
  qed
qed

lemma rx_drain_empties:
  assumes "chan_ok c xs k cl w" "owed (ch_semaphore c) (length xs)"
  shows "\<exists>c' ws. rx_drain so c woken = Some (Inr (c', woken @ ws)) \<and> chan_ok c' [] k cl w \<and> same_but_queue c c' \<and>
     ch_tx_count c' = ch_tx_count c \<and> owed (ch_semaphore c') 0 \<and>
     so_is_closed so (ch_semaphore c') = so_is_closed so (ch_semaphore c)"
  using assms
proof (induction xs arbitrary: c woken)
  case Nil
  obtain l where "mlist_pop (ch_list c) = Some (Inr (if cl then Some ReadClosed else None, l))" "queue_state l [] k cl"
    using Nil(1) queue_pop [of "ch_list c" "[]" k cl] by (auto simp: chan_ok_def)
  with Nil show ?case
    by (cases cl) (auto simp: rx_drain.simps [of _ c] chan_ok_def same_but_queue_def)
next
  case (Cons x xs)
  obtain l where l: "mlist_pop (ch_list c) = Some (Inr (Some (ReadValue x), l))" "queue_state l xs k cl"
    using Cons.prems(1) queue_pop [of "ch_list c" "x # xs" k cl] by (auto simp: chan_ok_def)
  obtain s' ws where s: "so_add_permit so (ch_semaphore c) = Some (Inr (s', ws))" "owed s' (length xs)"
    "so_is_closed so s' = so_is_closed so (ch_semaphore c)"
    using Cons.prems(2) add_owed by fastforce
  let ?c = "c\<lparr>ch_list := l, ch_semaphore := s'\<rparr>"
  have "chan_ok ?c xs k cl w" using Cons.prems(1) l(2) by (simp add: chan_ok_def)
  from Cons.IH [OF this, of "woken @ ws"] s l(1) show ?case
    by (fastforce simp: rx_drain.simps [of _ c] same_but_queue_def)
qed

end

section \<open>Freeing what is left\<close>

lemma drain_list_ok:
  "queue_state l xs k cl \<Longrightarrow> \<exists>l'. drain_list l = Some (Inr l') \<and> queue_state l' [] k cl"
proof (induction xs arbitrary: l)
  case Nil
  from queue_pop [OF this] show ?case by (cases cl) (auto simp: drain_list.simps [of l])
next
  case (Cons x xs)
  obtain l' where "mlist_pop l = Some (Inr (Some (ReadValue x), l'))" "queue_state l' xs k cl"
    using queue_pop [OF Cons.prems] by auto
  with Cons.IH [of l'] show ?case by (simp add: drain_list.simps [of l])
qed

lemma chan_drop_frees:
  assumes "chan_ok c xs k cl w"
  shows "\<exists>c'. chan_drop c = Some (Inr c') \<and> (\<forall>a. ml_heap (ch_list c') a = None)"
proof -
  obtain l where l: "drain_list (ch_list c) = Some (Inr l)" "queue_state l [] k cl"
    using drain_list_ok assms unfolding chan_ok_def by blast
  obtain bs b0 h t slots closed where "mrep bs b0 h t slots closed l"
    using l(2) unfolding queue_state_def represents_def by blast
  then obtain l' where "free_blocks l = Some (Inr l')" "\<forall>a. ml_heap l' a = None" using free_blocks_rep by blast
  with l(1) show ?thesis by (simp add: chan_drop_def)
qed


section \<open>A channel in use\<close>

text \<open>
  The world around a channel: the handles that exist, the futures of \<open>closed\<close>, and what was observed: the
  values sent, those taken out by the receiver (or dropped with it), and the waker of a receiver that was told
  to wait and has not been woken or acted since.
\<close>

record ('a, 's) chan_use =
  cu_chan :: "('a, 's) chan"
  cu_rx :: bool
  cu_senders :: nat
  cu_closers :: "nat \<Rightarrow> notified_state option"
  cu_sent :: "'a list"
  cu_taken :: "'a list"
  cu_waiting :: "waker option"

definition use_new :: "'s \<Rightarrow> ('a, 's) chan_use" where
  "use_new s = \<lparr>cu_chan = chan_channel s, cu_rx = True, cu_senders = 1, cu_closers = (\<lambda>_. None), cu_sent = [],
     cu_taken = [], cu_waiting = None\<rparr>"

definition woke :: "waker list \<Rightarrow> waker option \<Rightarrow> waker option" where
  "woke ws w = (case w of None \<Rightarrow> None | Some k \<Rightarrow> if k \<in> set ws then None else Some k)"

lemma woke_simps [simp]: "woke [] w = w" "woke ws None = None" "woke (waker_list w) w = None"
  by (auto simp: woke_def waker_list_def split: option.split)

lemma woke_Some: "woke ws w = Some k \<Longrightarrow> w = Some k"
  by (auto simp: woke_def split: option.splits if_splits)

definition use_send :: "'a \<Rightarrow> ('a, 's, 'z) chan_use_scheme \<Rightarrow> ('a, 's, 'z) chan_use_scheme outcome option" where
  "use_send v u =
     bind_oo (chan_send v (cu_chan u)) (\<lambda>(c, ws).
       Some (Inr (u\<lparr>cu_chan := c, cu_sent := cu_sent u @ [v], cu_waiting := woke ws (cu_waiting u)\<rparr>)))"

definition use_tx_drop :: "('a, 's, 'z) chan_use_scheme \<Rightarrow> ('a, 's, 'z) chan_use_scheme outcome option" where
  "use_tx_drop u =
     bind_oo (chan_tx_drop (cu_chan u)) (\<lambda>(c, ws).
       Some (Inr (u\<lparr>cu_chan := c, cu_waiting := woke ws (cu_waiting u)\<rparr>)))"

definition use_clone :: "('a, 's, 'z) chan_use_scheme \<Rightarrow> ('a, 's, 'z) chan_use_scheme" where
  "use_clone u = u\<lparr>cu_chan := chan_tx_clone (cu_chan u), cu_senders := cu_senders u + 1\<rparr>"

definition use_recv ::
    "'s sem_ops \<Rightarrow> waker \<Rightarrow> ('a, 's, 'z) chan_use_scheme \<Rightarrow>
     ('a option poll \<times> ('a, 's, 'z) chan_use_scheme) outcome option" where
  "use_recv so cx u =
     bind_oo (chan_recv so cx (cu_chan u)) (\<lambda>(r, c, ws).
       Some (Inr (r, case r of
           Pending \<Rightarrow> u\<lparr>cu_chan := c, cu_waiting := Some cx\<rparr>
         | Ready None \<Rightarrow> u\<lparr>cu_chan := c, cu_waiting := None\<rparr>
         | Ready (Some v) \<Rightarrow> u\<lparr>cu_chan := c, cu_taken := cu_taken u @ [v], cu_waiting := None\<rparr>)))"

definition use_try_recv ::
    "'s sem_ops \<Rightarrow> ('a, 's, 'z) chan_use_scheme \<Rightarrow>
     ((TryRecvError + 'a) \<times> ('a, 's, 'z) chan_use_scheme) outcome option" where
  "use_try_recv so u =
     bind_oo (chan_try_recv so (cu_chan u)) (\<lambda>(r, c, ws).
       Some (Inr (r, case r of
           Inl e \<Rightarrow> u\<lparr>cu_chan := c, cu_waiting := None\<rparr>
         | Inr v \<Rightarrow> u\<lparr>cu_chan := c, cu_taken := cu_taken u @ [v], cu_waiting := None\<rparr>)))"

definition use_close ::
    "'s sem_ops \<Rightarrow> ('a, 's, 'z) chan_use_scheme \<Rightarrow> ('a, 's, 'z) chan_use_scheme outcome option" where
  "use_close so u =
     bind_oo (Some (chan_close so (cu_chan u))) (\<lambda>(c, ws). Some (Inr (u\<lparr>cu_chan := c, cu_waiting := None\<rparr>)))"

definition use_rx_drop ::
    "'s sem_ops \<Rightarrow> ('a, 's, 'z) chan_use_scheme \<Rightarrow> ('a, 's, 'z) chan_use_scheme outcome option" where
  "use_rx_drop so u =
     bind_oo (chan_rx_drop so (cu_chan u)) (\<lambda>(c, ws).
       Some (Inr (u\<lparr>cu_chan := c, cu_rx := False, cu_taken := cu_sent u, cu_waiting := None\<rparr>)))"

definition use_closed ::
    "'s sem_ops \<Rightarrow> waker \<Rightarrow> nat \<Rightarrow> ('a, 's, 'z) chan_use_scheme \<Rightarrow>
     (unit poll \<times> ('a, 's, 'z) chan_use_scheme) outcome option" where
  "use_closed so cx i u =
     bind_oo (chan_closed so cx i (cu_closers u i) (cu_chan u)) (\<lambda>(r, st, c, ws).
       Some (Inr (r, u\<lparr>cu_chan := c, cu_closers := (cu_closers u)(i := st)\<rparr>)))"

definition use_closed_drop ::
    "nat \<Rightarrow> ('a, 's, 'z) chan_use_scheme \<Rightarrow> ('a, 's, 'z) chan_use_scheme outcome option" where
  "use_closed_drop i u =
     (case cu_closers u i of
        None \<Rightarrow> Some (Inr u)
      | Some st \<Rightarrow>
          bind_oo (Some (notified_drop i st (ch_notify_rx_closed (cu_chan u)))) (\<lambda>(ws, n).
            Some (Inr (u\<lparr>cu_chan := (cu_chan u)\<lparr>ch_notify_rx_closed := n\<rparr>, cu_closers := (cu_closers u)(i := None)\<rparr>))))"

text \<open>
  What holds between the operations: \<open>n\<close> sending handles exist, the values \<open>xs\<close> are in the channel, and a
  waiting receiver has its waker in the cell, nothing to receive, and a sender that can send.
\<close>

definition positions_left :: "'a list \<Rightarrow> nat \<Rightarrow> nat" where
  "positions_left sent n = 2 ^ 64 - 256 - length sent - (if n = 0 then 1 else 0)"

definition use_ok :: "nat \<Rightarrow> 'a list \<Rightarrow> waker option \<Rightarrow> ('a, 's, 'z) chan_use_scheme \<Rightarrow> bool" where
  "use_ok n xs w u \<longleftrightarrow>
     cu_sent u = cu_taken u @ xs \<and> length (cu_sent u) + 257 \<le> 2 ^ 64 \<and>
     chan_ok (cu_chan u) xs (positions_left (cu_sent u) n) (n = 0) w \<and> unat (ch_tx_count (cu_chan u)) = n \<and>
     notify_inv \<lparr>nu_notify = ch_notify_rx_closed (cu_chan u), nu_futs = cu_closers u\<rparr> \<and>
     (\<forall>x. cu_waiting u = Some x \<longrightarrow> w = Some x \<and> xs = [] \<and> 0 < n)"

lemma use_okD:
  assumes "use_ok n xs w u"
  shows "cu_sent u = cu_taken u @ xs" "length (cu_sent u) + 257 \<le> 2 ^ 64"
    "chan_ok (cu_chan u) xs (positions_left (cu_sent u) n) (n = 0) w" "unat (ch_tx_count (cu_chan u)) = n"
    "notify_inv \<lparr>nu_notify = ch_notify_rx_closed (cu_chan u), nu_futs = cu_closers u\<rparr>"
    "cu_waiting u = Some x \<Longrightarrow> w = Some x \<and> xs = [] \<and> 0 < n"
  using assms unfolding use_ok_def by blast+

lemma use_new_ok: "use_ok 1 [] None (use_new s)"
  using chan_channel_ok [of "2 ^ 64 - 256" s]
  by (simp add: use_ok_def use_new_def positions_left_def chan_channel_def notify_reach_inv [OF notify_reach.intros(1)])

lemma use_send_ok:
  assumes u: "use_ok n xs w u" and n: "0 < n" and room: "length (cu_sent u) + 258 \<le> 2 ^ 64"
  shows "\<exists>c. use_send v u = Some (Inr (u\<lparr>cu_chan := c, cu_sent := cu_sent u @ [v], cu_waiting := None\<rparr>)) \<and>
     use_ok n (xs @ [v]) None (u\<lparr>cu_chan := c, cu_sent := cu_sent u @ [v], cu_waiting := None\<rparr>) \<and>
     ch_semaphore c = ch_semaphore (cu_chan u) \<and> same_but_queue (cu_chan u) c \<and>
     chan_send v (cu_chan u) = Some (Inr (c, waker_list w))"
proof -
  have k: "positions_left (cu_sent u) n = Suc (positions_left (cu_sent u @ [v]) n)"
    using n room by (simp add: positions_left_def)
  have "chan_ok (cu_chan u) xs (Suc (positions_left (cu_sent u @ [v]) n)) False w"
    using use_okD(3) [OF u] n k by simp
  from chan_send_ok [OF this, of v] obtain c where c: "chan_send v (cu_chan u) = Some (Inr (c, waker_list w))"
    "chan_ok c (xs @ [v]) (positions_left (cu_sent u @ [v]) n) False None" "same_but_queue (cu_chan u) c"
    "ch_semaphore c = ch_semaphore (cu_chan u)" "ch_tx_count c = ch_tx_count (cu_chan u)" by blast
  have "woke (waker_list w) (cu_waiting u) = None"
    using u by (cases "cu_waiting u") (auto simp: use_ok_def woke_def waker_list_def)
  with c u n room show ?thesis
    by (intro exI [of _ c]) (simp add: use_send_def use_ok_def same_but_queue_def)
qed

lemma use_tx_drop_ok:
  assumes u: "use_ok n xs w u" and n: "0 < n"
  shows "\<exists>c. use_tx_drop u = Some (Inr (u\<lparr>cu_chan := c, cu_waiting := (if n = 1 then None else cu_waiting u)\<rparr>)) \<and>
     use_ok (n - 1) xs (if n = 1 then None else w) (u\<lparr>cu_chan := c, cu_waiting := (if n = 1 then None else cu_waiting u)\<rparr>) \<and>
     ch_semaphore c = ch_semaphore (cu_chan u) \<and> same_but_queue (cu_chan u) c \<and>
     chan_tx_drop (cu_chan u) = Some (Inr (c, if n = 1 then waker_list w else []))"
proof -
  have cnt: "unat (ch_tx_count (cu_chan u)) = n" and len: "length (cu_sent u) + 257 \<le> 2 ^ 64"
    by (rule use_okD(4) [OF u], rule use_okD(2) [OF u])
  have one: "ch_tx_count (cu_chan u) = 1 \<longleftrightarrow> n = 1" using cnt by (auto simp: word_unat_eq_iff)
  have pos: "ch_tx_count (cu_chan u) \<noteq> 0" using cnt n by auto
  then have cnt': "unat (ch_tx_count (cu_chan u) - 1) = n - 1" using cnt by (simp add: unat_minus_one)
  have k: "positions_left (cu_sent u) n = Suc (2 ^ 64 - 257 - length (cu_sent u))"
    using n len by (simp add: positions_left_def)
  let ?k = "2 ^ 64 - 257 - length (cu_sent u)"
  have c0: "chan_ok (cu_chan u) xs (Suc ?k) False w" using use_okD(3) [OF u] n k by simp
  show ?thesis
  proof (cases "n = 1")
    case True
    from chan_tx_drop_ok [OF c0 pos] obtain c where c: "chan_tx_drop (cu_chan u) = Some (Inr (c, waker_list w))"
      "chan_ok c xs ?k True None" "same_but_queue (cu_chan u) c" "ch_semaphore c = ch_semaphore (cu_chan u)"
      "ch_tx_count c = ch_tx_count (cu_chan u) - 1" using one True by auto
    have "woke (waker_list w) (cu_waiting u) = None"
      using u by (cases "cu_waiting u") (auto simp: use_ok_def woke_def waker_list_def)
    moreover have "positions_left (cu_sent u) 0 = ?k" by (simp add: positions_left_def)
    ultimately show ?thesis
      using c use_okD [OF u] cnt' True by (intro exI [of _ c]) (simp add: use_tx_drop_def use_ok_def same_but_queue_def)
  next
    case False
    let ?c = "(cu_chan u)\<lparr>ch_tx_count := ch_tx_count (cu_chan u) - 1\<rparr>"
    have drop: "chan_tx_drop (cu_chan u) = Some (Inr (?c, []))" using one False by (simp add: chan_tx_drop_def Let_def)
    have "positions_left (cu_sent u) (n - 1) = positions_left (cu_sent u) n"
      using n False by (simp add: positions_left_def)
    then have "use_ok (n - 1) xs w (u\<lparr>cu_chan := ?c, cu_waiting := cu_waiting u\<rparr>)"
      using u n False cnt' by (auto simp: use_ok_def chan_ok_def)
    with drop False show ?thesis by (intro exI [of _ ?c]) (simp add: use_tx_drop_def same_but_queue_def)
  qed
qed

lemma use_clone_ok:
  assumes u: "use_ok n xs w u" and n: "0 < n" "n + 1 < 2 ^ 64"
  shows "use_ok (n + 1) xs w (use_clone u)"
proof -
  have "unat (ch_tx_count (cu_chan u) + 1) = n + 1" using u n by (simp add: use_ok_def unat_word_ariths)
  moreover have "positions_left (cu_sent u) (n + 1) = positions_left (cu_sent u) n" using n by (simp add: positions_left_def)
  ultimately show ?thesis using u n by (auto simp: use_ok_def use_clone_def chan_tx_clone_def chan_ok_def)
qed


text \<open>Waiting for the receiver to go: only the notifier changes.\<close>

lemma closed_await_ok:
  assumes inv: "notify_inv \<lparr>nu_notify = ch_notify_rx_closed c, nu_futs = futs\<rparr>" and st: "futs i = Some st"
  shows "\<exists>r m st' ws. closed_await cx i st c = Some (Inr (r, st', c\<lparr>ch_notify_rx_closed := m\<rparr>, ws)) \<and>
     notify_inv \<lparr>nu_notify = m, nu_futs = futs(i := st')\<rparr>"
proof -
  let ?w = "\<lparr>nu_notify = ch_notify_rx_closed c, nu_futs = futs\<rparr>"
  obtain r st1 m where p: "poll_notified (Some cx) i st (ch_notify_rx_closed c) = Some (Inr (r, st1, m))"
    "notify_inv \<lparr>nu_notify = m, nu_futs = futs(i \<mapsto> st1)\<rparr>"
    using notify_poll_keeps [OF inv, of i st "Some cx"] st by auto
  show ?thesis
  proof (cases r)
    case Pending
    with p show ?thesis
      by (intro exI [of _ Pending] exI [of _ m] exI [of _ "Some st1"] exI [of _ "[]"])
        (simp add: closed_await_def notified_poll_def)
  next
    case (Ready a)
    obtain ws m' where "notified_drop i st1 m = Inr (ws, m')" "notify_inv \<lparr>nu_notify = m', nu_futs = futs(i := None)\<rparr>"
      using notify_drop_keeps [OF p(2), of i st1] by auto
    with p Ready show ?thesis
      by (intro exI [of _ "Ready ()"] exI [of _ m'] exI [of _ None] exI [of _ ws])
        (simp add: closed_await_def notified_poll_def)
  qed
qed

lemma chan_closed_ok:
  assumes inv: "notify_inv \<lparr>nu_notify = ch_notify_rx_closed c, nu_futs = futs\<rparr>"
  shows "\<exists>r m st' ws. chan_closed so cx i (futs i) c = Some (Inr (r, st', c\<lparr>ch_notify_rx_closed := m\<rparr>, ws)) \<and>
     notify_inv \<lparr>nu_notify = m, nu_futs = futs(i := st')\<rparr>"
proof (cases "futs i")
  case (Some st)
  with closed_await_ok [OF inv Some] show ?thesis by (simp add: chan_closed_def)
next
  case None
  obtain st n where new: "notify_notified i (ch_notify_rx_closed c) = (st, n)" by fastforce
  let ?c = "c\<lparr>ch_notify_rx_closed := n\<rparr>"
  have inv1: "notify_inv \<lparr>nu_notify = n, nu_futs = futs(i \<mapsto> st)\<rparr>"
    using notify_step_inv [OF nt_created [of _ i st n] inv] None new by simp
  show ?thesis
  proof (cases "so_is_closed so (ch_semaphore c)")
    case True
    obtain ws m' where "notified_drop i st n = Inr (ws, m')" "notify_inv \<lparr>nu_notify = m', nu_futs = futs(i := None)\<rparr>"
      using notify_drop_keeps [OF inv1, of i st] by auto
    with None new True show ?thesis
      by (intro exI [of _ "Ready ()"] exI [of _ m'] exI [of _ None] exI [of _ ws]) (simp add: chan_closed_def Let_def)
  next
    case False
    have "\<exists>r m st' ws. closed_await cx i st ?c = Some (Inr (r, st', ?c\<lparr>ch_notify_rx_closed := m\<rparr>, ws)) \<and>
       notify_inv \<lparr>nu_notify = m, nu_futs = (futs(i \<mapsto> st))(i := st')\<rparr>"
      by (rule closed_await_ok) (use inv1 in simp_all)
    then obtain r m st' ws where "closed_await cx i st ?c = Some (Inr (r, st', c\<lparr>ch_notify_rx_closed := m\<rparr>, ws))"
      "notify_inv \<lparr>nu_notify = m, nu_futs = futs(i := st')\<rparr>" by auto
    with None new False show ?thesis
      by (intro exI [of _ r] exI [of _ m] exI [of _ st'] exI [of _ ws]) (simp add: chan_closed_def Let_def)
  qed
qed

lemma use_notify_ok:
  assumes u: "use_ok n xs w u" and inv: "notify_inv \<lparr>nu_notify = m, nu_futs = futs\<rparr>"
  shows "use_ok n xs w (u\<lparr>cu_chan := (cu_chan u)\<lparr>ch_notify_rx_closed := m\<rparr>, cu_closers := futs\<rparr>)"
  using use_okD [OF u] inv by (simp add: use_ok_def chan_ok_def)

lemma use_closed_ok:
  assumes u: "use_ok n xs w u"
  shows "\<exists>r m st. use_closed so cx i u =
       Some (Inr (r, u\<lparr>cu_chan := (cu_chan u)\<lparr>ch_notify_rx_closed := m\<rparr>, cu_closers := (cu_closers u)(i := st)\<rparr>)) \<and>
     use_ok n xs w (u\<lparr>cu_chan := (cu_chan u)\<lparr>ch_notify_rx_closed := m\<rparr>, cu_closers := (cu_closers u)(i := st)\<rparr>)"
proof -
  obtain r m st ws where "chan_closed so cx i (cu_closers u i) (cu_chan u) = Some (Inr (r, st, (cu_chan u)\<lparr>ch_notify_rx_closed := m\<rparr>, ws))"
    "notify_inv \<lparr>nu_notify = m, nu_futs = (cu_closers u)(i := st)\<rparr>"
    using chan_closed_ok [OF use_okD(5) [OF u]] by blast
  with use_notify_ok [OF u] show ?thesis by (intro exI [of _ r] exI [of _ m] exI [of _ st]) (simp add: use_closed_def)
qed

lemma use_closed_drop_ok:
  assumes u: "use_ok n xs w u"
  shows "\<exists>m. use_closed_drop i u =
       Some (Inr (u\<lparr>cu_chan := (cu_chan u)\<lparr>ch_notify_rx_closed := m\<rparr>, cu_closers := (cu_closers u)(i := None)\<rparr>)) \<and>
     use_ok n xs w (u\<lparr>cu_chan := (cu_chan u)\<lparr>ch_notify_rx_closed := m\<rparr>, cu_closers := (cu_closers u)(i := None)\<rparr>)"
proof (cases "cu_closers u i")
  case None
  then have "u\<lparr>cu_chan := (cu_chan u)\<lparr>ch_notify_rx_closed := ch_notify_rx_closed (cu_chan u)\<rparr>, cu_closers := (cu_closers u)(i := None)\<rparr> = u"
    by (simp add: fun_upd_idem)
  with None u show ?thesis by (intro exI [of _ "ch_notify_rx_closed (cu_chan u)"]) (simp add: use_closed_drop_def)
next
  case (Some st)
  obtain ws m where "notified_drop i st (ch_notify_rx_closed (cu_chan u)) = Inr (ws, m)"
    "notify_inv \<lparr>nu_notify = m, nu_futs = (cu_closers u)(i := None)\<rparr>"
    using notify_drop_keeps [OF use_okD(5) [OF u], of i st] Some by auto
  with use_notify_ok [OF u] Some show ?thesis by (intro exI [of _ m]) (simp add: use_closed_drop_def)
qed

text \<open>The receiver's side.\<close>

context chan_semaphore
begin

lemma use_recv_ok:
  assumes u: "use_ok n xs w u" and owed: "owed (ch_semaphore (cu_chan u)) (length xs)"
    and idle: "xs = [] \<and> n = 0 \<longrightarrow> so_is_idle so (ch_semaphore (cu_chan u))"
  shows "\<exists>r c w'. use_recv so cx u = Some (Inr (r, u\<lparr>cu_chan := c,
         cu_taken := cu_taken u @ (case r of Ready (Some v) \<Rightarrow> [v] | _ \<Rightarrow> []), cu_waiting := (if r = Pending then Some cx else None)\<rparr>)) \<and>
     r = (case xs of x # _ \<Rightarrow> Ready (Some x)
          | [] \<Rightarrow> if n = 0 \<or> ch_rx_closed (cu_chan u) \<and> so_is_idle so (ch_semaphore (cu_chan u)) then Ready None else Pending) \<and>
     use_ok n (tl xs) w' (u\<lparr>cu_chan := c,
         cu_taken := cu_taken u @ (case r of Ready (Some v) \<Rightarrow> [v] | _ \<Rightarrow> []), cu_waiting := (if r = Pending then Some cx else None)\<rparr>) \<and>
     same_but_queue (cu_chan u) c \<and> owed (ch_semaphore c) (length (tl xs)) \<and>
     so_is_closed so (ch_semaphore c) = so_is_closed so (ch_semaphore (cu_chan u)) \<and>
     (xs = [] \<longrightarrow> ch_semaphore c = ch_semaphore (cu_chan u))"
proof -
  note f = use_okD [OF u]
  show ?thesis
  proof (cases xs)
    case (Cons x ys)
    obtain s' ws where s: "so_add_permit so (ch_semaphore (cu_chan u)) = Some (Inr (s', ws))"
      "owed s' (length ys)" "so_is_closed so s' = so_is_closed so (ch_semaphore (cu_chan u))"
      using add_owed [of "ch_semaphore (cu_chan u)" "length ys"] owed Cons by auto
    have ok: "chan_ok (cu_chan u) (x # ys) (positions_left (cu_sent u) n) (n = 0) w" using f(3) Cons by simp
    from recv_value [OF ok s(1), of cx] obtain c where c:
      "chan_recv so cx (cu_chan u) = Some (Inr (Ready (Some x), c, ws))"
      "chan_ok c ys (positions_left (cu_sent u) n) (n = 0) w" "same_but_queue (cu_chan u) c" "ch_semaphore c = s'"
      "ch_tx_count c = ch_tx_count (cu_chan u)" by blast
    show ?thesis
      using c s f Cons
      by (intro exI [of _ "Ready (Some x)"] exI [of _ c] exI [of _ w])
        (simp add: use_recv_def use_ok_def same_but_queue_def)
  next
    case Nil
    show ?thesis
    proof (cases "n = 0")
      case True
      have ok: "chan_ok (cu_chan u) [] (positions_left (cu_sent u) 0) True w" using f(3) Nil True by simp
      have "so_is_idle so (ch_semaphore (cu_chan u))" using idle Nil True by blast
      from recv_disconnected [OF ok this, of cx] obtain c where c:
        "chan_recv so cx (cu_chan u) = Some (Inr (Ready None, c, []))"
        "chan_ok c [] (positions_left (cu_sent u) 0) True w" "same_but_queue (cu_chan u) c"
        "ch_semaphore c = ch_semaphore (cu_chan u)" "ch_tx_count c = ch_tx_count (cu_chan u)" by blast
      show ?thesis
        using c f Nil True owed
        by (intro exI [of _ "Ready None"] exI [of _ c] exI [of _ w])
          (simp add: use_recv_def use_ok_def same_but_queue_def)
    next
      case False
      let ?r = "if ch_rx_closed (cu_chan u) \<and> so_is_idle so (ch_semaphore (cu_chan u)) then Ready None else Pending :: 'a option poll"
      have ok: "chan_ok (cu_chan u) [] (positions_left (cu_sent u) n) False w" using f(3) Nil False by simp
      from recv_waits [OF ok, of cx] obtain c where c:
        "chan_recv so cx (cu_chan u) = Some (Inr (?r, c, []))"
        "chan_ok c [] (positions_left (cu_sent u) n) False (Some cx)" "same_but_queue (cu_chan u) c"
        "ch_semaphore c = ch_semaphore (cu_chan u)" "ch_tx_count c = ch_tx_count (cu_chan u)" by blast
      show ?thesis
        using c f Nil False owed
        by (intro exI [of _ ?r] exI [of _ c] exI [of _ "Some cx"])
          (simp add: use_recv_def use_ok_def same_but_queue_def)
    qed
  qed
qed

end


lemma chan_close_ok:
  assumes inv: "notify_inv \<lparr>nu_notify = ch_notify_rx_closed c, nu_futs = futs\<rparr>"
    and room: "unat (nf_state (ch_notify_rx_closed c)) + 4 < 2 ^ 64"
  shows "\<exists>m. chan_close so c = Inr (c\<lparr>ch_rx_closed := True, ch_semaphore := fst (so_close so (ch_semaphore c)),
         ch_notify_rx_closed := m\<rparr>,
       snd (so_close so (ch_semaphore c)) @
       nt_wakers (nf_nodes (ch_notify_rx_closed c)) (rev (nf_waiters (ch_notify_rx_closed c)))) \<and>
     notify_inv \<lparr>nu_notify = m, nu_futs = futs\<rparr>"
proof -
  obtain m where "notify_waiters (ch_notify_rx_closed c) =
      Inr (nt_wakers (nf_nodes (ch_notify_rx_closed c)) (rev (nf_waiters (ch_notify_rx_closed c))), m)"
    "notify_inv \<lparr>nu_notify = m, nu_futs = futs\<rparr>"
    using notify_waiters_keeps [OF inv] room by auto
  then show ?thesis by (auto simp: chan_close_def split: prod.split)
qed

context chan_semaphore
begin

lemma use_try_recv_ok:
  assumes u: "use_ok n xs w u" and owed: "owed (ch_semaphore (cu_chan u)) (length xs)"
  shows "\<exists>r c. use_try_recv so u = Some (Inr (r, u\<lparr>cu_chan := c,
         cu_taken := cu_taken u @ (case xs of x # _ \<Rightarrow> [x] | [] \<Rightarrow> []), cu_waiting := None\<rparr>)) \<and>
     r = (case xs of x # _ \<Rightarrow> Inr x | [] \<Rightarrow> Inl (if n = 0 then RecvDisconnected else RecvEmpty)) \<and>
     use_ok n (tl xs) w (u\<lparr>cu_chan := c,
         cu_taken := cu_taken u @ (case xs of x # _ \<Rightarrow> [x] | [] \<Rightarrow> []), cu_waiting := None\<rparr>) \<and>
     same_but_queue (cu_chan u) c \<and> owed (ch_semaphore c) (length (tl xs)) \<and>
     so_is_closed so (ch_semaphore c) = so_is_closed so (ch_semaphore (cu_chan u)) \<and>
     (xs = [] \<longrightarrow> ch_semaphore c = ch_semaphore (cu_chan u))"
proof -
  note f = use_okD [OF u]
  obtain c ws where c: "chan_try_recv so (cu_chan u) = Some (Inr (case xs of [] \<Rightarrow> Inl (if n = 0 then RecvDisconnected else RecvEmpty)
        | x # _ \<Rightarrow> Inr x, c, ws))"
    "chan_ok c (tl xs) (positions_left (cu_sent u) n) (n = 0) w" "same_but_queue (cu_chan u) c"
    "ch_tx_count c = ch_tx_count (cu_chan u)"
    "case xs of [] \<Rightarrow> ch_semaphore c = ch_semaphore (cu_chan u) \<and> ws = []
      | _ # _ \<Rightarrow> so_add_permit so (ch_semaphore (cu_chan u)) = Some (Inr (ch_semaphore c, ws))"
    using try_recv_answers [OF f(3) owed] by blast
  show ?thesis
  proof (cases xs)
    case Nil
    with c f owed show ?thesis
      by (intro exI [of _ "Inl (if n = 0 then RecvDisconnected else RecvEmpty)"] exI [of _ c])
        (simp add: use_try_recv_def use_ok_def same_but_queue_def)
  next
    case (Cons x ys)
    obtain s' ws' where "so_add_permit so (ch_semaphore (cu_chan u)) = Some (Inr (s', ws'))" "owed s' (length ys)"
      "so_is_closed so s' = so_is_closed so (ch_semaphore (cu_chan u))"
      using add_owed [of "ch_semaphore (cu_chan u)" "length ys"] owed Cons by auto
    with c f Cons show ?thesis
      by (intro exI [of _ "Inr x"] exI [of _ c])
        (simp add: use_try_recv_def use_ok_def same_but_queue_def)
  qed
qed

lemma use_close_ok:
  assumes u: "use_ok n xs w u" and room: "unat (nf_state (ch_notify_rx_closed (cu_chan u))) + 4 < 2 ^ 64"
  shows "\<exists>c. use_close so u = Some (Inr (u\<lparr>cu_chan := c, cu_waiting := None\<rparr>)) \<and>
     use_ok n xs w (u\<lparr>cu_chan := c, cu_waiting := None\<rparr>) \<and> ch_rx_closed c \<and>
     ch_semaphore c = fst (so_close so (ch_semaphore (cu_chan u)))"
proof -
  note f = use_okD [OF u]
  obtain c ws where c: "chan_close so (cu_chan u) = Inr (c, ws)" "ch_rx_closed c"
    "ch_semaphore c = fst (so_close so (ch_semaphore (cu_chan u)))" "ch_list c = ch_list (cu_chan u)"
    "ch_rx_waker c = ch_rx_waker (cu_chan u)" "ch_tx_count c = ch_tx_count (cu_chan u)"
    "notify_inv \<lparr>nu_notify = ch_notify_rx_closed c, nu_futs = cu_closers u\<rparr>"
    using chan_close_ok [OF f(5) room, of so] by fastforce
  with f show ?thesis by (intro exI [of _ c]) (simp add: use_close_def use_ok_def chan_ok_def)
qed

lemma use_rx_drop_ok:
  assumes u: "use_ok n xs w u" and owed: "owed (ch_semaphore (cu_chan u)) (length xs)"
    and room: "unat (nf_state (ch_notify_rx_closed (cu_chan u))) + 4 < 2 ^ 64"
  shows "\<exists>c. use_rx_drop so u = Some (Inr (u\<lparr>cu_chan := c, cu_rx := False, cu_taken := cu_sent u, cu_waiting := None\<rparr>)) \<and>
     use_ok n [] w (u\<lparr>cu_chan := c, cu_rx := False, cu_taken := cu_sent u, cu_waiting := None\<rparr>) \<and> ch_rx_closed c \<and>
     owed (ch_semaphore c) 0 \<and> so_is_closed so (ch_semaphore c)"
proof -
  note f = use_okD [OF u]
  obtain c1 ws1 where c1: "chan_close so (cu_chan u) = Inr (c1, ws1)" "ch_rx_closed c1"
    "ch_semaphore c1 = fst (so_close so (ch_semaphore (cu_chan u)))" "ch_list c1 = ch_list (cu_chan u)"
    "ch_rx_waker c1 = ch_rx_waker (cu_chan u)" "ch_tx_count c1 = ch_tx_count (cu_chan u)"
    "notify_inv \<lparr>nu_notify = ch_notify_rx_closed c1, nu_futs = cu_closers u\<rparr>"
    using chan_close_ok [OF f(5) room, of so] by fastforce
  have ok1: "chan_ok c1 xs (positions_left (cu_sent u) n) (n = 0) w" using f(3) c1 by (simp add: chan_ok_def)
  have owed1: "owed (ch_semaphore c1) (length xs)" "so_is_closed so (ch_semaphore c1)"
    using close_owed [OF owed] c1(3) by simp_all
  from rx_drain_empties [OF ok1 owed1(1), of ws1] obtain c ws where c: "rx_drain so c1 ws1 = Some (Inr (c, ws1 @ ws))"
    "chan_ok c [] (positions_left (cu_sent u) n) (n = 0) w" "same_but_queue c1 c" "ch_tx_count c = ch_tx_count c1"
    "owed (ch_semaphore c) 0" "so_is_closed so (ch_semaphore c) = so_is_closed so (ch_semaphore c1)" by blast
  have "use_rx_drop so u = Some (Inr (u\<lparr>cu_chan := c, cu_rx := False, cu_taken := cu_sent u, cu_waiting := None\<rparr>))"
    using c(1) c1(1) by (simp add: use_rx_drop_def chan_rx_drop_def)
  moreover have "use_ok n [] w (u\<lparr>cu_chan := c, cu_rx := False, cu_taken := cu_sent u, cu_waiting := None\<rparr>)"
    using f(1, 2, 4) c c1 by (simp add: use_ok_def same_but_queue_def)
  moreover have "ch_rx_closed c" using c(3) c1(2) by (simp add: same_but_queue_def)
  ultimately show ?thesis using c(5, 6) owed1(2) by blast
qed

end

text \<open>Taking from a channel that was never used.\<close>

lemma pop_new: "mlist_pop (mlist_channel :: 'a mlist) = Some (Inr (None, mlist_channel))"
proof -
  let ?m = "mlist_channel :: 'a mlist"
  have head: "ml_head ?m = 0" "ml_index ?m = 0" "ml_free_head ?m = 0" "deref 0 ?m = Inr (block_new 0)"
    by (simp_all add: mlist_channel_def deref_def)
  have "try_advancing_head ?m = Some (Inr (True, ?m))"
    by (subst try_advancing_head.simps) (simp add: head is_at_index_def start_index_def block_new_def)
  moreover have "reclaim_blocks ?m = Some (Inr ?m)"
    by (subst reclaim_blocks.simps) (simp add: head)
  moreover have "block_read 0 (block_new 0 :: 'a block) = Inr None"
    by (simp add: block_read_def is_slot_ready_def is_tx_closed_def TX_CLOSED_def RELEASED_def block_new_def slot_offset_def)
  ultimately show ?thesis by (simp add: mlist_pop_def head)
qed

end
