(* ===== verification/Mpsc_Bounded.thy ===== *)
theory Mpsc_Bounded
  imports Mpsc_Chan Batch_Semaphore
begin

text \<open>
  \<open>sync/mpsc/bounded.rs\<close>: a channel whose semaphore has one permit per free place. A sender waits for a
  permit and gives it away with the value it sends; receiving a value gives the permit back. A permit can
  also be taken first (\<open>Permit\<close>, \<open>OwnedPermit\<close>) and used or dropped later. An \<open>async fn\<close> is polled with the
  acquire future it holds, which is numbered.
\<close>

section \<open>The semaphore of a bounded channel\<close>

type_synonym bsem = "sem \<times> usize"
type_synonym 'a bchan = "('a, bsem) chan"

definition bounded_sem :: "bsem sem_ops" where
  "bounded_sem = \<lparr>
     so_is_idle = (\<lambda>(s, bound). available_permits s = bound),
     so_add_permit = (\<lambda>(s, bound). bind_oo (release 1 s) (\<lambda>(s', ws). Some (Inr ((s', bound), ws)))),
     so_close = (\<lambda>(s, bound). case sem_close s of (s', ws) \<Rightarrow> ((s', bound), ws)),
     so_is_closed = (\<lambda>(s, bound). sem_is_closed s)\<rparr>"

definition bounded_channel :: "usize \<Rightarrow> 'a bchan outcome" where
  "bounded_channel buffer =
     and_then (ensure (buffer > 0) AssertFailed) (\<lambda>_.
     and_then (sem_new buffer) (\<lambda>s. Inr (chan_channel (s, buffer))))"

definition chan_sem :: "'a bchan \<Rightarrow> sem" where
  "chan_sem c = fst (ch_semaphore c)"

definition with_sem :: "sem \<Rightarrow> 'a bchan \<Rightarrow> 'a bchan" where
  "with_sem s c = c\<lparr>ch_semaphore := (s, snd (ch_semaphore c))\<rparr>"

definition capacity :: "'a bchan \<Rightarrow> usize" where
  "capacity c = available_permits (chan_sem c)"

section \<open>Senders\<close>

text \<open>\<open>reserve_inner\<close>, and with it \<open>reserve\<close>: ready with a permit (\<open>True\<close>) or with an error.\<close>

definition reserve_inner ::
    "waker \<Rightarrow> nat \<Rightarrow> acquire option \<Rightarrow> 'a bchan \<Rightarrow> (bool poll \<times> acquire \<times> 'a bchan \<times> waker list) outcome option" where
  "reserve_inner cx i fut c =
     bind_oo (acquire_async cx i 1 fut (chan_sem c)) (\<lambda>(r, a, s, ws). Some (Inr (r, a, with_sem s c, ws)))"

definition permit_send :: "'a \<Rightarrow> 'a bchan \<Rightarrow> ('a bchan \<times> waker list) outcome option" where
  "permit_send v c = chan_send v c"

text \<open>\<open>send\<close>: \<open>Inl v\<close> is \<open>Err(SendError(v))\<close>.\<close>

definition bounded_send ::
    "waker \<Rightarrow> nat \<Rightarrow> acquire option \<Rightarrow> 'a \<Rightarrow> 'a bchan \<Rightarrow>
     (('a + unit) poll \<times> acquire \<times> 'a bchan \<times> waker list) outcome option" where
  "bounded_send cx i fut v c =
     bind_oo (reserve_inner cx i fut c) (\<lambda>(r, a, c1, ws).
       case r of
         Pending \<Rightarrow> Some (Inr (Pending, a, c1, ws))
       | Ready True \<Rightarrow> bind_oo (permit_send v c1) (\<lambda>(c2, ws2). Some (Inr (Ready (Inr ()), a, c2, ws @ ws2)))
       | Ready False \<Rightarrow> Some (Inr (Ready (Inl v), a, c1, ws)))"

datatype 'a TrySendError = TrySendFull 'a | TrySendClosed 'a

definition try_permit :: "'b \<Rightarrow> 'a bchan \<Rightarrow> (('b TrySendError + unit) \<times> 'a bchan) outcome" where
  "try_permit x c =
     and_then (try_acquire 1 (chan_sem c)) (\<lambda>(r, s).
       Inr (case r of
           Inr _ \<Rightarrow> Inr ()
         | Inl AcqClosed \<Rightarrow> Inl (TrySendClosed x)
         | Inl AcqNoPermits \<Rightarrow> Inl (TrySendFull x), with_sem s c))"

definition try_reserve :: "'a bchan \<Rightarrow> ((unit TrySendError + unit) \<times> 'a bchan) outcome" where
  "try_reserve c = try_permit () c"

definition try_send :: "'a \<Rightarrow> 'a bchan \<Rightarrow> (('a TrySendError + unit) \<times> 'a bchan \<times> waker list) outcome option" where
  "try_send message c =
     bind_oo (Some (try_permit message c)) (\<lambda>(r, c1).
       case r of
         Inl e \<Rightarrow> Some (Inr (Inl e, c1, []))
       | Inr _ \<Rightarrow> bind_oo (chan_send message c1) (\<lambda>(c2, ws). Some (Inr (Inr (), c2, ws))))"

text \<open>
  \<open>reserve_owned\<close> takes the sender: it goes into the permit, and is dropped with an error. (\<open>try_reserve_owned\<close>
  hands the sender back instead.)
\<close>

definition reserve_owned ::
    "waker \<Rightarrow> nat \<Rightarrow> acquire option \<Rightarrow> 'a bchan \<Rightarrow> (bool poll \<times> acquire \<times> 'a bchan \<times> waker list) outcome option" where
  "reserve_owned cx i fut c =
     bind_oo (reserve_inner cx i fut c) (\<lambda>(r, a, c1, ws).
       if r = Ready False then bind_oo (chan_tx_drop c1) (\<lambda>(c2, ws2). Some (Inr (r, a, c2, ws @ ws2)))
       else Some (Inr (r, a, c1, ws)))"

definition try_reserve_owned :: "'a bchan \<Rightarrow> ((unit TrySendError + unit) \<times> 'a bchan) outcome" where
  "try_reserve_owned c = try_permit () c"

definition bounded_send_timeout :: "'b outcome" where
  "bounded_send_timeout = Inl Unimplemented"

section \<open>Permits\<close>

definition chan_permit_drop :: "'a bchan \<Rightarrow> ('a bchan \<times> waker list) outcome option" where
  "chan_permit_drop c =
     bind_oo (so_add_permit bounded_sem (ch_semaphore c)) (\<lambda>(s, ws).
       let c1 = c\<lparr>ch_semaphore := s\<rparr> in
       if so_is_closed bounded_sem s \<and> so_is_idle bounded_sem s
       then bind_oo (Some (wake_rx c1)) (\<lambda>(c2, ws2). Some (Inr (c2, ws @ ws2)))
       else Some (Inr (c1, ws)))"

text \<open>
  An \<open>OwnedPermit\<close> holds its sender until it is moved out; using one that was moved out is not reachable.
  \<open>send\<close> and \<open>release\<close> give the sender back, dropping the permit drops it.
\<close>

definition owned_permit_send :: "bool \<Rightarrow> 'a \<Rightarrow> 'a bchan \<Rightarrow> ('a bchan \<times> waker list) outcome option" where
  "owned_permit_send has_chan v c = (if has_chan then chan_send v c else Some (Inl Unreachable))"

definition owned_permit_release :: "bool \<Rightarrow> 'a bchan \<Rightarrow> ('a bchan \<times> waker list) outcome option" where
  "owned_permit_release has_chan c =
     (if has_chan
      then bind_oo (so_add_permit bounded_sem (ch_semaphore c)) (\<lambda>(s, ws). Some (Inr (c\<lparr>ch_semaphore := s\<rparr>, ws)))
      else Some (Inl Unreachable))"

definition owned_permit_drop :: "bool \<Rightarrow> 'a bchan \<Rightarrow> ('a bchan \<times> waker list) outcome option" where
  "owned_permit_drop has_chan c =
     (if has_chan
      then bind_oo (chan_permit_drop c) (\<lambda>(c1, ws). bind_oo (chan_tx_drop c1) (\<lambda>(c2, ws2). Some (Inr (c2, ws @ ws2))))
      else Some (Inr (c, [])))"

section \<open>The receiver\<close>

definition bounded_recv ::
    "waker \<Rightarrow> 'a bchan \<Rightarrow> ('a option poll \<times> 'a bchan \<times> waker list) outcome option" where
  "bounded_recv cx c = chan_recv bounded_sem cx c"

definition bounded_try_recv :: "'a bchan \<Rightarrow> ((TryRecvError + 'a) \<times> 'a bchan \<times> waker list) outcome option" where
  "bounded_try_recv c = chan_try_recv bounded_sem c"

definition bounded_close :: "'a bchan \<Rightarrow> ('a bchan \<times> waker list) outcome" where
  "bounded_close c = chan_close bounded_sem c"

definition bounded_is_closed :: "'a bchan \<Rightarrow> bool" where
  "bounded_is_closed c \<longleftrightarrow> chan_is_closed bounded_sem c"


section \<open>A bounded channel in use\<close>

text \<open>
  To the world of a channel come the acquire futures (those in \<open>bu_owning\<close> own their sender), the permits
  that borrow a sender and those that own one. \<open>bu_silent\<close> is set when a permit came back that made a closed
  channel idle without a look at the receiver, who was waiting.
\<close>

record 'a bounded_use = "('a, bsem) chan_use" +
  bu_buffer :: usize
  bu_futs :: "nat \<Rightarrow> acquire option"
  bu_owning :: "nat set"
  bu_permits :: nat
  bu_owned :: nat
  bu_silent :: bool

datatype 'a bounded_op =
    BReserve waker nat | BSend waker nat 'a | BReserveOwned waker nat | BCancel nat
  | BTryReserve | BTrySend 'a | BTryReserveOwned
  | BPermitSend 'a | BPermitDrop | BOwnedSend 'a | BOwnedRelease | BOwnedDrop
  | BClone | BSenderDrop | BRecv waker | BTryRecv | BClose | BRxDrop | BClosed waker nat | BClosedDrop nat
  | BSendTimeout 'a

definition bounded_new :: "usize \<Rightarrow> 'a bounded_use outcome" where
  "bounded_new buffer =
     and_then (bounded_channel buffer) (\<lambda>c.
       Inr (chan_use.extend ((use_new (ch_semaphore c))\<lparr>cu_chan := c\<rparr>)
         \<lparr>bu_buffer = buffer, bu_futs = (\<lambda>_. None), bu_owning = {}, bu_permits = 0, bu_owned = 0, bu_silent = False\<rparr>))"

definition b_put :: "'a bchan \<Rightarrow> waker list \<Rightarrow> 'a bounded_use \<Rightarrow> 'a bounded_use" where
  "b_put c ws u = u\<lparr>cu_chan := c, cu_waiting := woke ws (cu_waiting u)\<rparr>"

definition b_idle :: "'a bounded_use \<Rightarrow> bool" where
  "b_idle u \<longleftrightarrow> so_is_idle bounded_sem (ch_semaphore (cu_chan u))"

definition b_look :: "'a bounded_use \<Rightarrow> 'a bounded_use" where
  "b_look u = u\<lparr>bu_silent := (bu_silent u \<or> cu_waiting u \<noteq> None \<and> ch_rx_closed (cu_chan u) \<and> b_idle u)\<rparr>"

definition b_forget :: "nat \<Rightarrow> 'a bounded_use \<Rightarrow> 'a bounded_use" where
  "b_forget i u = u\<lparr>bu_futs := (bu_futs u)(i := None)\<rparr>"

fun bounded_exec :: "'a bounded_op \<Rightarrow> 'a bounded_use \<Rightarrow> 'a bounded_use outcome option" where
  "bounded_exec (BReserve cx i) u =
     bind_oo (reserve_inner cx i (bu_futs u i) (cu_chan u)) (\<lambda>(r, a, c, ws).
       let v = b_put c ws u in
       Some (Inr (case r of
           Pending \<Rightarrow> v\<lparr>bu_futs := (bu_futs v)(i \<mapsto> a)\<rparr>
         | Ready True \<Rightarrow> (b_forget i v)\<lparr>bu_permits := bu_permits v + 1\<rparr>
         | Ready False \<Rightarrow> b_look (b_forget i v))))"
| "bounded_exec (BSend cx i x) u =
     bind_oo (bounded_send cx i (bu_futs u i) x (cu_chan u)) (\<lambda>(r, a, c, ws).
       let v = b_put c ws u in
       Some (Inr (case r of
           Pending \<Rightarrow> v\<lparr>bu_futs := (bu_futs v)(i \<mapsto> a)\<rparr>
         | Ready (Inr _) \<Rightarrow> (b_forget i v)\<lparr>cu_sent := cu_sent v @ [x]\<rparr>
         | Ready (Inl _) \<Rightarrow> b_look (b_forget i v))))"
| "bounded_exec (BReserveOwned cx i) u =
     bind_oo (reserve_owned cx i (bu_futs u i) (cu_chan u)) (\<lambda>(r, a, c, ws).
       let v = b_put c ws (if bu_futs u i = None
                 then u\<lparr>cu_senders := cu_senders u - 1, bu_owning := insert i (bu_owning u)\<rparr> else u) in
       Some (Inr (case r of
           Pending \<Rightarrow> v\<lparr>bu_futs := (bu_futs v)(i \<mapsto> a)\<rparr>
         | Ready True \<Rightarrow> (b_forget i v)\<lparr>bu_owning := bu_owning v - {i}, bu_owned := bu_owned v + 1\<rparr>
         | Ready False \<Rightarrow> b_look ((b_forget i v)\<lparr>bu_owning := bu_owning v - {i}\<rparr>))))"
| "bounded_exec (BCancel i) u =
     (case bu_futs u i of
        None \<Rightarrow> Some (Inr u)
      | Some a \<Rightarrow>
          bind_oo (acquire_drop a (chan_sem (cu_chan u))) (\<lambda>(s, ws).
            let v = b_look (b_forget i (b_put (with_sem s (cu_chan u)) ws u)) in
            if i \<in> bu_owning u then use_tx_drop (v\<lparr>bu_owning := bu_owning v - {i}\<rparr>) else Some (Inr v)))"
| "bounded_exec BTryReserve u =
     bind_oo (Some (try_reserve (cu_chan u))) (\<lambda>(r, c).
       let v = b_put c [] u in
       Some (Inr (case r of Inr _ \<Rightarrow> v\<lparr>bu_permits := bu_permits v + 1\<rparr> | Inl _ \<Rightarrow> v)))"
| "bounded_exec (BTrySend x) u =
     bind_oo (try_send x (cu_chan u)) (\<lambda>(r, c, ws).
       let v = b_put c ws u in
       Some (Inr (case r of Inr _ \<Rightarrow> v\<lparr>cu_sent := cu_sent v @ [x]\<rparr> | Inl _ \<Rightarrow> v)))"
| "bounded_exec BTryReserveOwned u =
     bind_oo (Some (try_reserve_owned (cu_chan u))) (\<lambda>(r, c).
       let v = b_put c [] u in
       Some (Inr (case r of Inr _ \<Rightarrow> v\<lparr>cu_senders := cu_senders v - 1, bu_owned := bu_owned v + 1\<rparr> | Inl _ \<Rightarrow> v)))"
| "bounded_exec (BPermitSend x) u =
     bind_oo (permit_send x (cu_chan u)) (\<lambda>(c, ws).
       Some (Inr ((b_put c ws u)\<lparr>bu_permits := bu_permits u - 1, cu_sent := cu_sent u @ [x]\<rparr>)))"
| "bounded_exec BPermitDrop u =
     bind_oo (chan_permit_drop (cu_chan u)) (\<lambda>(c, ws). Some (Inr ((b_put c ws u)\<lparr>bu_permits := bu_permits u - 1\<rparr>)))"
| "bounded_exec (BOwnedSend x) u =
     bind_oo (owned_permit_send True x (cu_chan u)) (\<lambda>(c, ws).
       Some (Inr ((b_put c ws u)\<lparr>bu_owned := bu_owned u - 1, cu_senders := cu_senders u + 1, cu_sent := cu_sent u @ [x]\<rparr>)))"
| "bounded_exec BOwnedRelease u =
     bind_oo (owned_permit_release True (cu_chan u)) (\<lambda>(c, ws).
       Some (Inr (b_look ((b_put c ws u)\<lparr>bu_owned := bu_owned u - 1, cu_senders := cu_senders u + 1\<rparr>))))"
| "bounded_exec BOwnedDrop u =
     bind_oo (owned_permit_drop True (cu_chan u)) (\<lambda>(c, ws).
       Some (Inr ((b_put c ws u)\<lparr>bu_owned := bu_owned u - 1\<rparr>)))"
| "bounded_exec BClone u = Some (Inr (use_clone u))"
| "bounded_exec BSenderDrop u = use_tx_drop (u\<lparr>cu_senders := cu_senders u - 1\<rparr>)"
| "bounded_exec (BRecv cx) u =
     bind_oo (use_recv bounded_sem cx u) (\<lambda>(_, v). Some (Inr (v\<lparr>bu_silent := False\<rparr>)))"
| "bounded_exec BTryRecv u = bind_oo (use_try_recv bounded_sem u) (\<lambda>(_, v). Some (Inr v))"
| "bounded_exec BClose u = use_close bounded_sem u"
| "bounded_exec BRxDrop u = use_rx_drop bounded_sem u"
| "bounded_exec (BClosed cx i) u = bind_oo (use_closed bounded_sem cx i u) (\<lambda>(_, v). Some (Inr v))"
| "bounded_exec (BClosedDrop i) u = use_closed_drop i u"
| "bounded_exec (BSendTimeout x) u = bind_oo (Some bounded_send_timeout) (\<lambda>_ :: unit. Some (Inr u))"

text \<open>
  Which calls a program can make: what borrows a sender ends before the sender goes, and a call needs the
  handle it is made on. The bounds: fewer than \<open>2 ^ 64 - 257\<close> values are ever sent, handles and calls of
  \<open>close\<close> fit their counters.
\<close>

definition b_handles :: "'a bounded_use \<Rightarrow> nat" where
  "b_handles u = cu_senders u + bu_owned u + card (bu_owning u)"

definition b_borrowed :: "'a bounded_use \<Rightarrow> bool" where
  "b_borrowed u \<longleftrightarrow> 0 < bu_permits u \<or> cu_closers u \<noteq> (\<lambda>_. None) \<or> \<not> dom (bu_futs u) \<subseteq> bu_owning u"

definition may_move :: "'a bounded_use \<Rightarrow> bool" where
  "may_move u \<longleftrightarrow> 2 \<le> cu_senders u \<or> cu_senders u = 1 \<and> \<not> b_borrowed u"

definition b_room :: "'a bounded_use \<Rightarrow> bool" where
  "b_room u \<longleftrightarrow> length (cu_sent u) + 258 \<le> 2 ^ 64"

definition close_room :: "'a bounded_use \<Rightarrow> bool" where
  "close_room u \<longleftrightarrow> unat (nf_state (ch_notify_rx_closed (cu_chan u))) + 4 < 2 ^ 64"

fun bounded_legal :: "'a bounded_op \<Rightarrow> 'a bounded_use \<Rightarrow> bool" where
  "bounded_legal (BReserve cx i) u \<longleftrightarrow> 0 < cu_senders u \<and> i \<notin> bu_owning u"
| "bounded_legal (BSend cx i x) u \<longleftrightarrow> 0 < cu_senders u \<and> i \<notin> bu_owning u \<and> b_room u"
| "bounded_legal (BReserveOwned cx i) u \<longleftrightarrow> (if bu_futs u i = None then may_move u else i \<in> bu_owning u)"
| "bounded_legal (BCancel i) u \<longleftrightarrow> True"
| "bounded_legal BTryReserve u \<longleftrightarrow> 0 < cu_senders u"
| "bounded_legal (BTrySend x) u \<longleftrightarrow> 0 < cu_senders u \<and> b_room u"
| "bounded_legal BTryReserveOwned u \<longleftrightarrow> may_move u"
| "bounded_legal (BPermitSend x) u \<longleftrightarrow> 0 < bu_permits u \<and> b_room u"
| "bounded_legal BPermitDrop u \<longleftrightarrow> 0 < bu_permits u"
| "bounded_legal (BOwnedSend x) u \<longleftrightarrow> 0 < bu_owned u \<and> b_room u"
| "bounded_legal BOwnedRelease u \<longleftrightarrow> 0 < bu_owned u"
| "bounded_legal BOwnedDrop u \<longleftrightarrow> 0 < bu_owned u"
| "bounded_legal BClone u \<longleftrightarrow> 0 < cu_senders u \<and> b_handles u + 1 < 2 ^ 64"
| "bounded_legal BSenderDrop u \<longleftrightarrow> may_move u"
| "bounded_legal (BRecv cx) u \<longleftrightarrow> cu_rx u"
| "bounded_legal BTryRecv u \<longleftrightarrow> cu_rx u"
| "bounded_legal BClose u \<longleftrightarrow> cu_rx u \<and> close_room u"
| "bounded_legal BRxDrop u \<longleftrightarrow> cu_rx u \<and> close_room u"
| "bounded_legal (BClosed cx i) u \<longleftrightarrow> 0 < cu_senders u"
| "bounded_legal (BClosedDrop i) u \<longleftrightarrow> True"
| "bounded_legal (BSendTimeout x) u \<longleftrightarrow> 0 < cu_senders u"

text \<open>The one operation that is not written yet.\<close>

fun unwritten :: "'a bounded_op \<Rightarrow> bool" where
  "unwritten (BSendTimeout x) \<longleftrightarrow> True"
| "unwritten p \<longleftrightarrow> False"

primrec bounded_run :: "'a bounded_op list \<Rightarrow> 'a bounded_use \<Rightarrow> 'a bounded_use outcome option" where
  "bounded_run [] u = Some (Inr u)"
| "bounded_run (p # ps) u = bind_oo (bounded_exec p u) (bounded_run ps)"

inductive bounded_reach :: "usize \<Rightarrow> 'a bounded_use \<Rightarrow> bool" where
  bounded_start: "bounded_new buffer = Inr u \<Longrightarrow> bounded_reach buffer u"
| bounded_next: "bounded_reach buffer u \<Longrightarrow> bounded_legal p u \<Longrightarrow> bounded_exec p u = Some (Inr v) \<Longrightarrow> bounded_reach buffer v"


section \<open>The invariant\<close>

text \<open>
  The account of the permits: those free, those assigned to waiting futures, those held by permits, and one for
  each of the \<open>k\<close> values in the channel add up to the buffer.
\<close>

definition bounded_owed :: "usize \<Rightarrow> (nat \<Rightarrow> acquire option) \<Rightarrow> nat \<Rightarrow> bsem \<Rightarrow> nat \<Rightarrow> bool" where
  "bounded_owed bnd futs others sb k \<longleftrightarrow> snd sb = bnd \<and>
     pool_inv \<lparr>p_sem = fst sb, p_futs = futs, p_held = others + k, p_total = unat bnd\<rparr>"

lemma bounded_owedD:
  "bounded_owed bnd futs others sb k \<Longrightarrow>
     pool_inv \<lparr>p_sem = fst sb, p_futs = futs, p_held = others + k, p_total = unat bnd\<rparr>"
  by (simp add: bounded_owed_def)

lemma bounded_sem_simps [simp]:
  "so_is_closed bounded_sem sb = sem_is_closed (fst sb)"
  "so_is_idle bounded_sem sb \<longleftrightarrow> available_permits (fst sb) = snd sb"
  "fst (so_close bounded_sem sb) = (fst (sem_close (fst sb)), snd sb)"
  "so_add_permit bounded_sem sb = bind_oo (release 1 (fst sb)) (\<lambda>(s', ws). Some (Inr ((s', snd sb), ws)))"
  by (cases sb; simp add: bounded_sem_def split: prod.split)+

lemma bounded_release:
  assumes "bounded_owed bnd futs others sb (Suc k)"
  shows "\<exists>s ws. release 1 (fst sb) = Some (Inr (s, ws)) \<and> bounded_owed bnd futs others (s, snd sb) k \<and>
     sem_is_closed s = sem_is_closed (fst sb)"
  using release_keeps [OF bounded_owedD [OF assms], of 1] assms by (auto simp: bounded_owed_def)

interpretation bsem: chan_semaphore bounded_sem "bounded_owed bnd futs others" for bnd futs others
proof unfold_locales
  fix s :: bsem and n
  assume "bounded_owed bnd futs others s (Suc n)"
  from bounded_release [OF this] show "\<exists>s' ws. so_add_permit bounded_sem s = Some (Inr (s', ws)) \<and> bounded_owed bnd futs others s' n \<and>
      so_is_closed bounded_sem s' = so_is_closed bounded_sem s" by fastforce
next
  fix s :: bsem and n
  assume owed: "bounded_owed bnd futs others s n"
  obtain s' ws where cl: "sem_close (fst s) = (s', ws)" by fastforce
  with close_keeps(1,2) [OF bounded_owedD [OF owed], of s' ws] owed
  show "bounded_owed bnd futs others (fst (so_close bounded_sem s)) n \<and> so_is_closed bounded_sem (fst (so_close bounded_sem s))"
    by (simp add: bounded_owed_def)
qed

definition b_held :: "'a bounded_use \<Rightarrow> nat" where
  "b_held u = bu_permits u + bu_owned u"

definition b_rest :: "nat \<Rightarrow> 'a bounded_use \<Rightarrow> bool" where
  "b_rest k u \<longleftrightarrow>
     bounded_owed (bu_buffer u) (bu_futs u) (b_held u) (ch_semaphore (cu_chan u)) k \<and>
     ch_rx_closed (cu_chan u) = sem_is_closed (chan_sem (cu_chan u)) \<and>
     (\<forall>i a. bu_futs u i = Some a \<longrightarrow> a_num a = 1) \<and> bu_owning u \<subseteq> dom (bu_futs u) \<and>
     (b_borrowed u \<longrightarrow> 0 < cu_senders u)"

definition b_noticed :: "'a bounded_use \<Rightarrow> bool" where
  "b_noticed u \<longleftrightarrow> (cu_waiting u \<noteq> None \<and> ch_rx_closed (cu_chan u) \<and> b_idle u \<longrightarrow> bu_silent u)"

definition b_ok :: "'a list \<Rightarrow> waker option \<Rightarrow> 'a bounded_use \<Rightarrow> bool" where
  "b_ok xs w u \<longleftrightarrow> use_ok (b_handles u) xs w u \<and> b_rest (length xs) u \<and> b_noticed u"

definition b_inv :: "'a bounded_use \<Rightarrow> bool" where
  "b_inv u \<longleftrightarrow> (\<exists>xs w. b_ok xs w u)"

lemma use_ok_fields [simp]:
  "use_ok n xs w (u\<lparr>bu_futs := f\<rparr>) = use_ok n xs w u" "use_ok n xs w (u\<lparr>bu_owning := own\<rparr>) = use_ok n xs w u"
  "use_ok n xs w (u\<lparr>bu_permits := p\<rparr>) = use_ok n xs w u" "use_ok n xs w (u\<lparr>bu_owned := o'\<rparr>) = use_ok n xs w u"
  "use_ok n xs w (u\<lparr>bu_silent := b\<rparr>) = use_ok n xs w u" "use_ok n xs w (u\<lparr>cu_senders := k\<rparr>) = use_ok n xs w u"
  by (simp_all add: use_ok_def)

lemma use_ok_sem:
  assumes "use_ok n xs w u"
  shows "use_ok n xs w (b_put ((cu_chan u)\<lparr>ch_semaphore := s\<rparr>) ws u)"
  using use_okD [OF assms] woke_Some by (auto simp: use_ok_def b_put_def chan_ok_def)

lemma b_put_fields [simp]:
  "cu_chan (b_put c ws u) = c" "cu_waiting (b_put c ws u) = woke ws (cu_waiting u)" "bu_futs (b_put c ws u) = bu_futs u"
  "bu_owning (b_put c ws u) = bu_owning u" "bu_permits (b_put c ws u) = bu_permits u" "bu_owned (b_put c ws u) = bu_owned u"
  "bu_silent (b_put c ws u) = bu_silent u" "cu_senders (b_put c ws u) = cu_senders u" "cu_closers (b_put c ws u) = cu_closers u"
  "cu_sent (b_put c ws u) = cu_sent u" "cu_taken (b_put c ws u) = cu_taken u" "cu_rx (b_put c ws u) = cu_rx u"
  "bu_buffer (b_put c ws u) = bu_buffer u"
  by (simp_all add: b_put_def)

lemma b_look_simps [simp]:
  "use_ok n xs w (b_look u) = use_ok n xs w u" "b_rest k (b_look u) = b_rest k u" "b_handles (b_look u) = b_handles u"
  "b_noticed (b_look u)"
  by (simp_all add: b_look_def b_rest_def b_held_def b_borrowed_def b_handles_def b_noticed_def b_idle_def)

lemma b_look_fields [simp]:
  "cu_chan (b_look u) = cu_chan u" "bu_futs (b_look u) = bu_futs u" "bu_owning (b_look u) = bu_owning u"
  "bu_permits (b_look u) = bu_permits u" "bu_owned (b_look u) = bu_owned u" "cu_senders (b_look u) = cu_senders u"
  "cu_closers (b_look u) = cu_closers u" "cu_sent (b_look u) = cu_sent u" "cu_taken (b_look u) = cu_taken u"
  "cu_rx (b_look u) = cu_rx u" "cu_waiting (b_look u) = cu_waiting u"
  "bu_buffer (b_look u) = bu_buffer u"
  by (simp_all add: b_look_def)

lemma open_noticed: "b_rest k u \<Longrightarrow> \<not> sem_is_closed (chan_sem (cu_chan u)) \<Longrightarrow> b_noticed u"
  by (simp add: b_rest_def b_noticed_def)

lemma pool_ops_inv: "pool_op\<^sup>*\<^sup>* p q \<Longrightarrow> pool_inv p \<Longrightarrow> pool_inv q"
  by (induction rule: rtranclp_induct) (auto intro: pool_op_inv)

lemma with_sem_simps [simp]:
  "chan_sem (with_sem s c) = s" "snd (ch_semaphore (with_sem s c)) = snd (ch_semaphore c)"
  "fst (ch_semaphore (with_sem s c)) = s" "ch_rx_closed (with_sem s c) = ch_rx_closed c"
  "ch_notify_rx_closed (with_sem s c) = ch_notify_rx_closed c"
  by (simp_all add: with_sem_def chan_sem_def)

lemma use_ok_with_sem:
  "use_ok n xs w u \<Longrightarrow> use_ok n xs w (b_put (with_sem s (cu_chan u)) ws u)"
  unfolding with_sem_def by (rule use_ok_sem)

text \<open>A poll of \<open>reserve\<close>.\<close>

lemma reserve_inner_ok:
  assumes rest: "b_rest k u"
  shows "\<exists>r a s ws. reserve_inner cx i (bu_futs u i) (cu_chan u) = Some (Inr (r, a, with_sem s (cu_chan u), ws)) \<and>
     a_num a = 1 \<and> (r = Ready False) = sem_is_closed (chan_sem (cu_chan u)) \<and>
     sem_is_closed s = sem_is_closed (chan_sem (cu_chan u)) \<and>
     bounded_owed (bu_buffer u) (case r of Pending \<Rightarrow> (bu_futs u)(i \<mapsto> a) | Ready _ \<Rightarrow> (bu_futs u)(i := None))
       (b_held u + (if r = Ready True then 1 else 0)) (s, snd (ch_semaphore (cu_chan u))) k"
proof -
  let ?p = "\<lparr>p_sem = fst (ch_semaphore (cu_chan u)), p_futs = bu_futs u, p_held = b_held u + k,
     p_total = unat (bu_buffer u)\<rparr>"
  have inv: "pool_inv ?p" and num: "\<forall>a. bu_futs u i = Some a \<longrightarrow> a_num a = 1"
    using rest by (auto simp: b_rest_def bounded_owed_def)
  have one: "(1 :: usize) < MAX_PERMIT" by (simp add: less_MAX_PERMIT)
  from async_ops [OF inv one, of i cx] num obtain r a s ws where
    r: "acquire_async cx i 1 (bu_futs u i) (chan_sem (cu_chan u)) = Some (Inr (r, a, s, ws))" "a_num a = 1"
    "pool_op\<^sup>*\<^sup>* ?p (after_async ?p i 1 r a s)" "(r = Ready False) = sem_is_closed (chan_sem (cu_chan u))"
    "sem_is_closed s = sem_is_closed (chan_sem (cu_chan u))" by (auto simp: chan_sem_def)
  have "pool_inv (after_async ?p i 1 r a s)" by (rule pool_ops_inv [OF r(3) inv])
  then have "bounded_owed (bu_buffer u) (case r of Pending \<Rightarrow> (bu_futs u)(i \<mapsto> a) | Ready _ \<Rightarrow> (bu_futs u)(i := None))
       (b_held u + (if r = Ready True then 1 else 0)) (s, snd (ch_semaphore (cu_chan u))) k"
    using rest by (cases r rule: poll_bool_cases) (simp_all add: after_async_def bounded_owed_def b_rest_def ac_simps)
  with r show ?thesis by (auto simp: reserve_inner_def)
qed

lemma b_handles_fields [simp]:
  "b_handles (b_put c ws u) = b_handles u" "b_handles (u\<lparr>bu_futs := f\<rparr>) = b_handles u"
  "b_handles (b_forget i u) = b_handles u" "b_handles (u\<lparr>bu_permits := p\<rparr>) = b_handles u"
  by (simp_all add: b_handles_def b_put_def b_forget_def)

lemma b_forget_fields [simp]:
  "cu_chan (b_forget i u) = cu_chan u" "bu_futs (b_forget i u) = (bu_futs u)(i := None)" "bu_owning (b_forget i u) = bu_owning u"
  "bu_permits (b_forget i u) = bu_permits u" "bu_owned (b_forget i u) = bu_owned u" "cu_senders (b_forget i u) = cu_senders u"
  "cu_closers (b_forget i u) = cu_closers u" "cu_waiting (b_forget i u) = cu_waiting u" "cu_sent (b_forget i u) = cu_sent u"
  "cu_taken (b_forget i u) = cu_taken u" "bu_silent (b_forget i u) = bu_silent u"
  "use_ok n xs w (b_forget i u) = use_ok n xs w u" "bu_buffer (b_forget i u) = bu_buffer u"
  by (simp_all add: b_forget_def)

lemma reserve_keeps:
  assumes ok: "b_ok xs w u" and legal: "0 < cu_senders u" "i \<notin> bu_owning u"
  shows "\<exists>v. bounded_exec (BReserve cx i) u = Some (Inr v) \<and> b_ok xs w v"
proof -
  have use: "use_ok (b_handles u) xs w u" and rest: "b_rest (length xs) u" using ok by (simp_all add: b_ok_def)
  from reserve_inner_ok [OF rest, of cx i] obtain r a s ws where
    r: "reserve_inner cx i (bu_futs u i) (cu_chan u) = Some (Inr (r, a, with_sem s (cu_chan u), ws))" "a_num a = 1"
      "(r = Ready False) = sem_is_closed (chan_sem (cu_chan u))" "sem_is_closed s = sem_is_closed (chan_sem (cu_chan u))"
    and owed: "bounded_owed (bu_buffer u) (case r of Pending \<Rightarrow> (bu_futs u)(i \<mapsto> a) | Ready _ \<Rightarrow> (bu_futs u)(i := None))
       (b_held u + (if r = Ready True then 1 else 0)) (s, snd (ch_semaphore (cu_chan u))) (length xs)" by blast
  define v0 where "v0 = b_put (with_sem s (cu_chan u)) ws u"
  define v where "v = (case r of
           Pending \<Rightarrow> v0\<lparr>bu_futs := (bu_futs v0)(i \<mapsto> a)\<rparr>
         | Ready True \<Rightarrow> (b_forget i v0)\<lparr>bu_permits := bu_permits v0 + 1\<rparr>
         | Ready False \<Rightarrow> b_look (b_forget i v0))"
  have run: "bounded_exec (BReserve cx i) u = Some (Inr v)"
    using r(1) by (cases r rule: poll_bool_cases) (simp_all add: v_def v0_def Let_def)
  have use': "use_ok (b_handles v) xs w v"
    using use_ok_with_sem [OF use, of s ws] by (cases r rule: poll_bool_cases) (simp_all add: v_def v0_def)
  have rest': "b_rest (length xs) v"
    using owed rest r legal
    by (cases r rule: poll_bool_cases) (auto simp: v_def v0_def b_rest_def b_held_def with_sem_def chan_sem_def)
  have "b_noticed v"
  proof (cases "r = Ready False")
    case True
    then show ?thesis by (simp add: v_def)
  next
    case False
    then have "\<not> sem_is_closed (chan_sem (cu_chan v))"
      using r by (cases r rule: poll_bool_cases) (simp_all add: v_def v0_def)
    then show ?thesis by (rule open_noticed [OF rest'])
  qed
  with run use' rest' show ?thesis by (simp add: b_ok_def)
qed


text \<open>The building blocks of the other operations.\<close>

lemma woke_append: "woke (as @ bs) w = woke bs (woke as w)"
  by (auto simp: woke_def split: option.split)

lemma b_put_append: "b_put c (as @ bs) u = b_put c bs (b_put c' as u)"
  by (simp add: b_put_def woke_append)

lemma b_put_same [simp]: "b_put (cu_chan u) [] u = u"
  by (simp add: b_put_def)

lemma waiting_woken: "use_ok n xs w u \<Longrightarrow> woke (waker_list w) (cu_waiting u) = None"
  using use_okD(6) by (cases "cu_waiting u") (fastforce simp: woke_def waker_list_def)+

lemma b_send_ok:
  assumes use: "use_ok n xs w u" and n: "0 < n" and room: "b_room u"
  shows "\<exists>c. chan_send x (cu_chan u) = Some (Inr (c, waker_list w)) \<and> ch_semaphore c = ch_semaphore (cu_chan u) \<and>
     ch_rx_closed c = ch_rx_closed (cu_chan u) \<and>
     use_ok n (xs @ [x]) None ((b_put c (waker_list w) u)\<lparr>cu_sent := cu_sent u @ [x]\<rparr>)"
proof -
  obtain c where
    c: "use_ok n (xs @ [x]) None (u\<lparr>cu_chan := c, cu_sent := cu_sent u @ [x], cu_waiting := None\<rparr>)"
    "ch_semaphore c = ch_semaphore (cu_chan u)" "same_but_queue (cu_chan u) c"
    "chan_send x (cu_chan u) = Some (Inr (c, waker_list w))"
    using use_send_ok [OF use n room [unfolded b_room_def], of x] by (elim exE conjE) (rule that)
  have "(b_put c (waker_list w) u)\<lparr>cu_sent := cu_sent u @ [x]\<rparr> =
      u\<lparr>cu_chan := c, cu_sent := cu_sent u @ [x], cu_waiting := None\<rparr>"
    using waiting_woken [OF use] by (simp add: b_put_def)
  with c show ?thesis by (intro exI [of _ c]) (simp add: same_but_queue_def)
qed

lemma b_tx_drop_ok:
  assumes use: "use_ok n xs w u" and n: "0 < n"
  shows "\<exists>c ws w'. chan_tx_drop (cu_chan u) = Some (Inr (c, ws)) \<and> ch_semaphore c = ch_semaphore (cu_chan u) \<and>
     ch_rx_closed c = ch_rx_closed (cu_chan u) \<and> use_ok (n - 1) xs w' (b_put c ws u) \<and>
     use_tx_drop u = Some (Inr (b_put c ws u))"
proof -
  obtain c where
    c: "use_tx_drop u = Some (Inr (u\<lparr>cu_chan := c, cu_waiting := (if n = 1 then None else cu_waiting u)\<rparr>))"
    "use_ok (n - 1) xs (if n = 1 then None else w) (u\<lparr>cu_chan := c, cu_waiting := (if n = 1 then None else cu_waiting u)\<rparr>)"
    "ch_semaphore c = ch_semaphore (cu_chan u)" "same_but_queue (cu_chan u) c"
    "chan_tx_drop (cu_chan u) = Some (Inr (c, if n = 1 then waker_list w else []))"
    using use_tx_drop_ok [OF use n] by (elim exE conjE) (rule that)
  have "b_put c (if n = 1 then waker_list w else []) u = u\<lparr>cu_chan := c, cu_waiting := (if n = 1 then None else cu_waiting u)\<rparr>"
    using waiting_woken [OF use] by (simp add: b_put_def)
  with c show ?thesis
    by (intro exI [of _ c] exI [of _ "if n = 1 then waker_list w else []"] exI [of _ "if n = 1 then None else w"])
      (simp only: same_but_queue_def simp_thms)
qed

lemma b_wake_ok:
  assumes use: "use_ok n xs w u"
  shows "\<exists>c. wake_rx (cu_chan u) = Inr (c, waker_list w) \<and> ch_semaphore c = ch_semaphore (cu_chan u) \<and>
     ch_rx_closed c = ch_rx_closed (cu_chan u) \<and> use_ok n xs None (b_put c (waker_list w) u)"
proof -
  let ?c = "(cu_chan u)\<lparr>ch_rx_waker := idle_cell None\<rparr>"
  have "wake_rx (cu_chan u) = Inr (?c, waker_list w)"
    by (rule wake_rx_eq) (use use_okD(3) [OF use] in \<open>simp add: chan_ok_def\<close>)
  moreover have "use_ok n xs None (b_put ?c (waker_list w) u)"
    using use_okD [OF use] waiting_woken [OF use] by (simp add: use_ok_def b_put_def chan_ok_def)
  ultimately show ?thesis by (intro exI [of _ ?c]) simp
qed

text \<open>A permit that comes back.\<close>

lemma b_add_permit:
  assumes "bounded_owed bnd futs (Suc h) sb k"
  shows "\<exists>s ws. so_add_permit bounded_sem sb = Some (Inr ((s, snd sb), ws)) \<and> bounded_owed bnd futs h (s, snd sb) k \<and>
     sem_is_closed s = sem_is_closed (fst sb)"
proof -
  have "bounded_owed bnd futs h sb (Suc k)" using assms by (simp add: bounded_owed_def)
  from bounded_release [OF this] show ?thesis by auto
qed

lemma permit_drop_ok:
  assumes use: "use_ok n xs w u" and owed: "bounded_owed (bu_buffer u) (bu_futs u) (Suc h) (ch_semaphore (cu_chan u)) k"
  shows "\<exists>c ws w'. chan_permit_drop (cu_chan u) = Some (Inr (c, ws)) \<and> use_ok n xs w' (b_put c ws u) \<and>
     bounded_owed (bu_buffer u) (bu_futs u) h (ch_semaphore c) k \<and> ch_rx_closed c = ch_rx_closed (cu_chan u) \<and>
     sem_is_closed (chan_sem c) = sem_is_closed (chan_sem (cu_chan u)) \<and>
     (sem_is_closed (chan_sem c) \<and> so_is_idle bounded_sem (ch_semaphore c) \<longrightarrow> cu_waiting (b_put c ws u) = None)"
proof -
  from b_add_permit [OF owed] obtain s ws where
    s: "so_add_permit bounded_sem (ch_semaphore (cu_chan u)) = Some (Inr ((s, snd (ch_semaphore (cu_chan u))), ws))"
    "bounded_owed (bu_buffer u) (bu_futs u) h (s, snd (ch_semaphore (cu_chan u))) k" "sem_is_closed s = sem_is_closed (fst (ch_semaphore (cu_chan u)))"
    by blast
  let ?s = "(s, snd (ch_semaphore (cu_chan u)))"
  let ?c1 = "(cu_chan u)\<lparr>ch_semaphore := ?s\<rparr>"
  have use1: "use_ok n xs w (b_put ?c1 ws u)" by (rule use_ok_sem [OF use])
  show ?thesis
  proof (cases "sem_is_closed s \<and> so_is_idle bounded_sem ?s")
    case False
    then have "chan_permit_drop (cu_chan u) = Some (Inr (?c1, ws))" using s(1) by (auto simp: chan_permit_drop_def Let_def)
    with use1 s False show ?thesis
      by (intro exI [of _ ?c1] exI [of _ ws] exI [of _ w]) (auto simp: chan_sem_def)
  next
    case True
    obtain c where c: "wake_rx ?c1 = Inr (c, waker_list w)" "ch_semaphore c = ?s" "ch_rx_closed c = ch_rx_closed (cu_chan u)"
      "use_ok n xs None (b_put c (waker_list w) (b_put ?c1 ws u))" using b_wake_ok [OF use1] by auto
    have "chan_permit_drop (cu_chan u) = Some (Inr (c, ws @ waker_list w))"
      using s(1) True c(1) by (simp add: chan_permit_drop_def Let_def)
    moreover have "cu_waiting (b_put c (ws @ waker_list w) u) = None"
      using waiting_woken [OF use1] by (simp add: woke_append)
    moreover have "use_ok n xs None (b_put c (ws @ waker_list w) u)" using c(4) by (simp add: b_put_append [of c ws _ u ?c1])
    ultimately show ?thesis using c(2, 3) s(2, 3)
      by (intro exI [of _ c] exI [of _ "ws @ waker_list w"] exI [of _ None]) (simp add: chan_sem_def)
  qed
qed

lemma try_permit_ok:
  assumes rest: "b_rest k u"
  shows "\<exists>r s. try_permit x (cu_chan u) = Inr (r, with_sem s (cu_chan u)) \<and>
     sem_is_closed s = sem_is_closed (chan_sem (cu_chan u)) \<and>
     (case r of Inl _ \<Rightarrow> s = chan_sem (cu_chan u)
      | Inr _ \<Rightarrow> bounded_owed (bu_buffer u) (bu_futs u) (Suc (b_held u)) (s, snd (ch_semaphore (cu_chan u))) k \<and> \<not> sem_is_closed s)"
proof -
  let ?p = "\<lparr>p_sem = fst (ch_semaphore (cu_chan u)), p_futs = bu_futs u, p_held = b_held u + k,
     p_total = unat (bu_buffer u)\<rparr>"
  have inv: "pool_inv ?p" and bufeq: "snd (ch_semaphore (cu_chan u)) = bu_buffer u"
    using rest by (simp_all add: b_rest_def bounded_owed_def)
  have one: "(1 :: usize) < MAX_PERMIT" by (simp add: less_MAX_PERMIT)
  from try_keeps [OF inv one] obtain r s where
    r: "try_acquire 1 (chan_sem (cu_chan u)) = Inr (r, s)"
      "case r of Inl e \<Rightarrow> s = p_sem ?p | Inr _ \<Rightarrow> pool_inv (?p\<lparr>p_sem := s, p_held := p_held ?p + unat (1 :: usize)\<rparr>)"
      "sem_is_closed s = sem_is_closed (chan_sem (cu_chan u))" by (auto simp: chan_sem_def)
  have "\<not> sem_is_closed s" if "r = Inr ()"
  proof
    assume "sem_is_closed s"
    then have "sem_is_closed (chan_sem (cu_chan u))" using r(3) by simp
    then have "run_action (try_acquire_action (push_bit PERMIT_SHIFT 1)) (s_state (chan_sem (cu_chan u))) =
        Inr (Inl AcqClosed, s_state (chan_sem (cu_chan u)))" by (subst run_try_acquire) simp_all
    with r(1) that one show False by (simp add: try_acquire_def)
  qed
  moreover have "try_permit x (cu_chan u) = Inr (case r of Inr _ \<Rightarrow> Inr () | Inl AcqClosed \<Rightarrow> Inl (TrySendClosed x)
      | Inl AcqNoPermits \<Rightarrow> Inl (TrySendFull x), with_sem s (cu_chan u))"
    using r(1) by (simp add: try_permit_def)
  ultimately show ?thesis
    using r(2, 3) bufeq
    by (intro exI [of _ "case r of Inr _ \<Rightarrow> Inr () | Inl AcqClosed \<Rightarrow> Inl (TrySendClosed x)
          | Inl AcqNoPermits \<Rightarrow> Inl (TrySendFull x)"] exI [of _ s])
      (auto simp: chan_sem_def bounded_owed_def ac_simps split: sum.split TryAcquireError.split)
qed


section \<open>Every operation keeps the invariant\<close>

lemma b_okD:
  assumes "b_ok xs w u"
  shows "use_ok (b_handles u) xs w u" "b_rest (length xs) u" "b_noticed u"
    "bounded_owed (bu_buffer u) (bu_futs u) (b_held u) (ch_semaphore (cu_chan u)) (length xs)"
    "ch_rx_closed (cu_chan u) = sem_is_closed (chan_sem (cu_chan u))"
    "bu_futs u i = Some a \<Longrightarrow> a_num a = 1" "bu_owning u \<subseteq> dom (bu_futs u)" "b_borrowed u \<Longrightarrow> 0 < cu_senders u"
    "finite (bu_owning u)"
proof -
  show use: "use_ok (b_handles u) xs w u" and rest: "b_rest (length xs) u" and "b_noticed u"
    using assms by (simp_all add: b_ok_def)
  show owed: "bounded_owed (bu_buffer u) (bu_futs u) (b_held u) (ch_semaphore (cu_chan u)) (length xs)"
    and "ch_rx_closed (cu_chan u) = sem_is_closed (chan_sem (cu_chan u))" and sub: "bu_owning u \<subseteq> dom (bu_futs u)"
    and "bu_futs u i = Some a \<Longrightarrow> a_num a = 1" "b_borrowed u \<Longrightarrow> 0 < cu_senders u"
    using rest by (auto simp: b_rest_def)
  have "finite (dom (bu_futs u))" using pool_facts(7) [OF bounded_owedD [OF owed]] by simp
  then show "finite (bu_owning u)" using sub by (rule rev_finite_subset)
qed

lemma try_reserve_keeps:
  assumes ok: "b_ok xs w u" and legal: "0 < cu_senders u"
  shows "\<exists>v. bounded_exec BTryReserve u = Some (Inr v) \<and> b_ok xs w v"
proof -
  note d = b_okD [OF ok]
  from try_permit_ok [OF d(2), of "()"] obtain r s where
    r: "try_permit () (cu_chan u) = Inr (r, with_sem s (cu_chan u))" "sem_is_closed s = sem_is_closed (chan_sem (cu_chan u))"
      "case r of Inl _ \<Rightarrow> s = chan_sem (cu_chan u)
       | Inr _ \<Rightarrow> bounded_owed (bu_buffer u) (bu_futs u) (Suc (b_held u)) (s, snd (ch_semaphore (cu_chan u))) (length xs) \<and> \<not> sem_is_closed s"
    by blast
  let ?v = "b_put (with_sem s (cu_chan u)) [] u"
  have use: "use_ok (b_handles u) xs w ?v" by (rule use_ok_with_sem [OF d(1)])
  show ?thesis
  proof (cases r)
    case (Inl e)
    then have "with_sem s (cu_chan u) = cu_chan u" using r(3) by (simp add: with_sem_def chan_sem_def)
    then show ?thesis using ok r(1) Inl by (simp add: try_reserve_def Let_def)
  next
    case (Inr x)
    have "b_rest (length xs) (?v\<lparr>bu_permits := bu_permits ?v + 1\<rparr>)"
      using d(2) r legal Inr by (simp add: b_rest_def b_held_def b_borrowed_def with_sem_def chan_sem_def)
    moreover have "b_noticed (?v\<lparr>bu_permits := bu_permits ?v + 1\<rparr>)" by (rule open_noticed [OF calculation]) (use r Inr in simp)
    ultimately show ?thesis using r(1) use Inr by (simp add: try_reserve_def b_ok_def Let_def)
  qed
qed

lemma try_reserve_owned_keeps:
  assumes ok: "b_ok xs w u" and legal: "may_move u"
  shows "\<exists>v. bounded_exec BTryReserveOwned u = Some (Inr v) \<and> b_ok xs w v"
proof -
  note d = b_okD [OF ok]
  from try_permit_ok [OF d(2), of "()"] obtain r s where
    r: "try_permit () (cu_chan u) = Inr (r, with_sem s (cu_chan u))" "sem_is_closed s = sem_is_closed (chan_sem (cu_chan u))"
      "case r of Inl _ \<Rightarrow> s = chan_sem (cu_chan u)
       | Inr _ \<Rightarrow> bounded_owed (bu_buffer u) (bu_futs u) (Suc (b_held u)) (s, snd (ch_semaphore (cu_chan u))) (length xs) \<and> \<not> sem_is_closed s"
    by blast
  let ?v = "b_put (with_sem s (cu_chan u)) [] u"
  have use: "use_ok (b_handles u) xs w ?v" by (rule use_ok_with_sem [OF d(1)])
  show ?thesis
  proof (cases r)
    case (Inl e)
    then have "with_sem s (cu_chan u) = cu_chan u" using r(3) by (simp add: with_sem_def chan_sem_def)
    then show ?thesis using ok r(1) Inl by (simp add: try_reserve_owned_def Let_def)
  next
    case (Inr x)
    let ?w = "?v\<lparr>cu_senders := cu_senders ?v - 1, bu_owned := bu_owned ?v + 1\<rparr>"
    have pos: "0 < cu_senders u" using legal by (auto simp: may_move_def)
    have "b_rest (length xs) ?w"
      using d(2) r legal Inr by (auto simp: b_rest_def b_held_def b_borrowed_def with_sem_def chan_sem_def may_move_def)
    moreover have "b_noticed ?w" by (rule open_noticed [OF calculation]) (use r Inr in simp)
    moreover have "b_handles ?w = b_handles u" using pos by (simp add: b_handles_def)
    ultimately show ?thesis using r(1) use Inr by (simp add: try_reserve_owned_def b_ok_def Let_def)
  qed
qed

text \<open>A sender exists when there is a permit that borrows it.\<close>

lemma b_handles_pos: "b_ok xs w u \<Longrightarrow> 0 < cu_senders u \<or> 0 < bu_owned u \<or> b_borrowed u \<Longrightarrow> 0 < b_handles u"
  using b_okD(8) by (fastforce simp: b_handles_def)

lemma woken_noticed: "cu_waiting u = None \<Longrightarrow> b_noticed u"
  by (simp add: b_noticed_def)

lemma permit_send_keeps:
  assumes ok: "b_ok xs w u" and legal: "0 < bu_permits u" "b_room u"
  shows "\<exists>v. bounded_exec (BPermitSend x) u = Some (Inr v) \<and> b_ok (xs @ [x]) None v"
proof -
  note d = b_okD [OF ok]
  have "0 < b_handles u" by (rule b_handles_pos [OF ok]) (use legal in \<open>simp add: b_borrowed_def\<close>)
  from b_send_ok [OF d(1) this legal(2), of x] obtain c where
    c: "chan_send x (cu_chan u) = Some (Inr (c, waker_list w))" "ch_semaphore c = ch_semaphore (cu_chan u)"
      "ch_rx_closed c = ch_rx_closed (cu_chan u)"
      "use_ok (b_handles u) (xs @ [x]) None ((b_put c (waker_list w) u)\<lparr>cu_sent := cu_sent u @ [x]\<rparr>)" by blast
  let ?v = "(b_put c (waker_list w) u)\<lparr>bu_permits := bu_permits u - 1, cu_sent := cu_sent u @ [x]\<rparr>"
  have v: "?v = ((b_put c (waker_list w) u)\<lparr>cu_sent := cu_sent u @ [x]\<rparr>)\<lparr>bu_permits := bu_permits u - 1\<rparr>" by simp
  have use: "use_ok (b_handles ?v) (xs @ [x]) None ?v"
    unfolding v using c(4) by (simp add: b_handles_def)
  have "b_rest (length (xs @ [x])) ?v"
    using d(2) c legal by (auto simp: b_rest_def b_held_def b_borrowed_def chan_sem_def bounded_owed_def)
  moreover have "b_noticed ?v" by (rule woken_noticed) (simp add: waiting_woken [OF d(1)])
  ultimately show ?thesis using use c(1) by (simp add: b_ok_def permit_send_def)
qed

lemma owned_send_keeps:
  assumes ok: "b_ok xs w u" and legal: "0 < bu_owned u" "b_room u"
  shows "\<exists>v. bounded_exec (BOwnedSend x) u = Some (Inr v) \<and> b_ok (xs @ [x]) None v"
proof -
  note d = b_okD [OF ok]
  have "0 < b_handles u" by (rule b_handles_pos [OF ok]) (use legal in simp)
  from b_send_ok [OF d(1) this legal(2), of x] obtain c where
    c: "chan_send x (cu_chan u) = Some (Inr (c, waker_list w))" "ch_semaphore c = ch_semaphore (cu_chan u)"
      "ch_rx_closed c = ch_rx_closed (cu_chan u)"
      "use_ok (b_handles u) (xs @ [x]) None ((b_put c (waker_list w) u)\<lparr>cu_sent := cu_sent u @ [x]\<rparr>)" by blast
  let ?v = "(b_put c (waker_list w) u)\<lparr>bu_owned := bu_owned u - 1, cu_senders := cu_senders u + 1, cu_sent := cu_sent u @ [x]\<rparr>"
  have v: "?v = ((b_put c (waker_list w) u)\<lparr>cu_sent := cu_sent u @ [x]\<rparr>)\<lparr>bu_owned := bu_owned u - 1\<rparr>\<lparr>cu_senders := cu_senders u + 1\<rparr>" by simp
  have "b_handles ?v = b_handles u" using legal by (simp add: b_handles_def)
  then have use: "use_ok (b_handles ?v) (xs @ [x]) None ?v"
    unfolding v using c(4) by simp
  have "b_rest (length (xs @ [x])) ?v"
    using d(2) c legal by (auto simp: b_rest_def b_held_def b_borrowed_def chan_sem_def bounded_owed_def)
  moreover have "b_noticed ?v" by (rule woken_noticed) (simp add: waiting_woken [OF d(1)])
  ultimately show ?thesis using use c(1) by (simp add: b_ok_def owned_permit_send_def)
qed

lemma permit_drop_keeps:
  assumes ok: "b_ok xs w u" and legal: "0 < bu_permits u"
  shows "\<exists>v w'. bounded_exec BPermitDrop u = Some (Inr v) \<and> b_ok xs w' v"
proof -
  note d = b_okD [OF ok]
  obtain h where h: "b_held u = Suc h" using legal by (cases "b_held u") (auto simp: b_held_def)
  from permit_drop_ok [OF d(1) d(4) [unfolded h]] obtain c ws w' where
    c: "chan_permit_drop (cu_chan u) = Some (Inr (c, ws))" "use_ok (b_handles u) xs w' (b_put c ws u)"
      "bounded_owed (bu_buffer u) (bu_futs u) h (ch_semaphore c) (length xs)" "ch_rx_closed c = ch_rx_closed (cu_chan u)"
      "sem_is_closed (chan_sem c) = sem_is_closed (chan_sem (cu_chan u))"
      "sem_is_closed (chan_sem c) \<and> so_is_idle bounded_sem (ch_semaphore c) \<longrightarrow> cu_waiting (b_put c ws u) = None"
    by (elim exE conjE) (rule that)
  let ?v = "(b_put c ws u)\<lparr>bu_permits := bu_permits u - 1\<rparr>"
  have "b_held ?v = h" using h legal by (simp add: b_held_def)
  then have "b_rest (length xs) ?v"
    using d(2) c(3-5) legal by (auto simp: b_rest_def b_borrowed_def)
  moreover have "b_noticed ?v" using c(4-6) d(5) by (auto simp: b_noticed_def b_idle_def)
  ultimately show ?thesis using c(1, 2) by (auto simp: b_ok_def)
qed


text \<open>A sender that goes: the world has already lost the handle.\<close>

lemma sender_gone_rest:
  assumes use: "use_ok (Suc (b_handles u)) xs w u" and rest: "b_rest (length xs) u"
  shows "\<exists>c ws w'. chan_tx_drop (cu_chan u) = Some (Inr (c, ws)) \<and> use_tx_drop u = Some (Inr (b_put c ws u)) \<and>
     ch_semaphore c = ch_semaphore (cu_chan u) \<and> ch_rx_closed c = ch_rx_closed (cu_chan u) \<and>
     use_ok (b_handles u) xs w' (b_put c ws u) \<and> b_rest (length xs) (b_put c ws u)"
proof -
  have pos: "0 < Suc (b_handles u)" by simp
  obtain c ws w' where c: "chan_tx_drop (cu_chan u) = Some (Inr (c, ws))" "ch_semaphore c = ch_semaphore (cu_chan u)"
     "ch_rx_closed c = ch_rx_closed (cu_chan u)" "use_ok (Suc (b_handles u) - 1) xs w' (b_put c ws u)"
     "use_tx_drop u = Some (Inr (b_put c ws u))"
    using b_tx_drop_ok [OF use pos] by (elim exE conjE) (rule that)
  have "b_rest (length xs) (b_put c ws u)"
    using rest c(2, 3) by (simp add: b_rest_def b_held_def b_borrowed_def chan_sem_def)
  with c show ?thesis by (intro exI [of _ c] exI [of _ ws] exI [of _ w']) simp
qed

lemma sender_gone:
  assumes use: "use_ok (Suc (b_handles u)) xs w u" and rest: "b_rest (length xs) u" and noticed: "b_noticed u"
  shows "\<exists>c ws w'. chan_tx_drop (cu_chan u) = Some (Inr (c, ws)) \<and> use_tx_drop u = Some (Inr (b_put c ws u)) \<and>
     b_ok xs w' (b_put c ws u)"
proof -
  obtain c ws w' where c: "chan_tx_drop (cu_chan u) = Some (Inr (c, ws))" "use_tx_drop u = Some (Inr (b_put c ws u))"
     "ch_semaphore c = ch_semaphore (cu_chan u)" "ch_rx_closed c = ch_rx_closed (cu_chan u)"
     "use_ok (b_handles u) xs w' (b_put c ws u)" "b_rest (length xs) (b_put c ws u)"
    using sender_gone_rest [OF use rest] by (elim exE conjE) (rule that)
  have "b_noticed (b_put c ws u)"
    using noticed c(3, 4) woke_Some [of ws "cu_waiting u"]
    by (cases "woke ws (cu_waiting u)") (auto simp: b_noticed_def b_idle_def)
  with c show ?thesis by (auto simp: b_ok_def)
qed

lemma sender_drop_keeps:
  assumes ok: "b_ok xs w u" and legal: "may_move u"
  shows "\<exists>v w'. bounded_exec BSenderDrop u = Some (Inr v) \<and> b_ok xs w' v"
proof -
  note d = b_okD [OF ok]
  let ?u = "u\<lparr>cu_senders := cu_senders u - 1\<rparr>"
  have pos: "0 < cu_senders u" using legal by (auto simp: may_move_def)
  then have n: "Suc (b_handles ?u) = b_handles u" by (simp add: b_handles_def)
  have use: "use_ok (Suc (b_handles ?u)) xs w ?u" using d(1) by (simp only: n use_ok_fields)
  have rest: "b_rest (length xs) ?u"
    using d(2) legal by (auto simp: b_rest_def b_held_def b_borrowed_def may_move_def)
  have noticed: "b_noticed ?u" using d(3) by (simp add: b_noticed_def b_idle_def)
  from sender_gone [OF use rest noticed] show ?thesis by auto
qed

lemma owned_release_keeps:
  assumes ok: "b_ok xs w u" and legal: "0 < bu_owned u"
  shows "\<exists>v. bounded_exec BOwnedRelease u = Some (Inr v) \<and> b_ok xs w v"
proof -
  note d = b_okD [OF ok]
  obtain h where h: "b_held u = Suc h" using legal by (cases "b_held u") (auto simp: b_held_def)
  obtain s ws where s: "so_add_permit bounded_sem (ch_semaphore (cu_chan u)) = Some (Inr ((s, snd (ch_semaphore (cu_chan u))), ws))"
    "bounded_owed (bu_buffer u) (bu_futs u) h (s, snd (ch_semaphore (cu_chan u))) (length xs)" "sem_is_closed s = sem_is_closed (fst (ch_semaphore (cu_chan u)))"
    using b_add_permit [OF d(4) [unfolded h]] by (elim exE conjE) (rule that)
  let ?c = "(cu_chan u)\<lparr>ch_semaphore := (s, snd (ch_semaphore (cu_chan u)))\<rparr>"
  let ?v = "(b_put ?c ws u)\<lparr>bu_owned := bu_owned u - 1, cu_senders := cu_senders u + 1\<rparr>"
  have run: "bounded_exec BOwnedRelease u = Some (Inr (b_look ?v))"
    using s(1) by (simp add: owned_permit_release_def)
  have "use_ok (b_handles u) xs w (b_put ?c ws u)" by (rule use_ok_sem [OF d(1)])
  moreover have "b_handles ?v = b_handles u" using legal by (simp add: b_handles_def)
  ultimately have use: "use_ok (b_handles ?v) xs w ?v" by simp
  have "b_held ?v = h" using h legal by (simp add: b_held_def)
  then have "b_rest (length xs) ?v"
    using d(2) s(2, 3) by (auto simp: b_rest_def b_borrowed_def chan_sem_def)
  with run use show ?thesis by (simp add: b_ok_def)
qed

lemma owned_drop_keeps:
  assumes ok: "b_ok xs w u" and legal: "0 < bu_owned u"
  shows "\<exists>v w'. bounded_exec BOwnedDrop u = Some (Inr v) \<and> b_ok xs w' v"
proof -
  note d = b_okD [OF ok]
  obtain h where h: "b_held u = Suc h" using legal by (cases "b_held u") (auto simp: b_held_def)
  from permit_drop_ok [OF d(1) d(4) [unfolded h]] obtain c ws w' where
    c: "chan_permit_drop (cu_chan u) = Some (Inr (c, ws))" "use_ok (b_handles u) xs w' (b_put c ws u)"
      "bounded_owed (bu_buffer u) (bu_futs u) h (ch_semaphore c) (length xs)" "ch_rx_closed c = ch_rx_closed (cu_chan u)"
      "sem_is_closed (chan_sem c) = sem_is_closed (chan_sem (cu_chan u))"
      "sem_is_closed (chan_sem c) \<and> so_is_idle bounded_sem (ch_semaphore c) \<longrightarrow> cu_waiting (b_put c ws u) = None"
    by (elim exE conjE) (rule that)
  let ?v = "(b_put c ws u)\<lparr>bu_owned := bu_owned u - 1\<rparr>"
  have n: "Suc (b_handles ?v) = b_handles u" using legal by (simp add: b_handles_def)
  have use: "use_ok (Suc (b_handles ?v)) xs w' ?v" using c(2) by (simp only: n use_ok_fields)
  have "b_held ?v = h" using h legal by (simp add: b_held_def)
  then have rest: "b_rest (length xs) ?v"
    using d(2) c(3-5) legal by (auto simp: b_rest_def b_borrowed_def)
  have noticed: "b_noticed ?v" using c(4-6) d(5) by (auto simp: b_noticed_def b_idle_def)
  obtain c2 ws2 w2 where c2: "chan_tx_drop (cu_chan ?v) = Some (Inr (c2, ws2))" "b_ok xs w2 (b_put c2 ws2 ?v)"
    using sender_gone [OF use rest noticed] by blast
  have "b_put c2 ws2 ?v = (b_put c2 (ws @ ws2) u)\<lparr>bu_owned := bu_owned u - 1\<rparr>"
    by (simp add: b_put_def woke_append)
  then show ?thesis using c(1) c2 by (auto simp: owned_permit_drop_def)
qed

lemma b_cancel_keeps:
  assumes ok: "b_ok xs w u"
  shows "\<exists>v w'. bounded_exec (BCancel i) u = Some (Inr v) \<and> b_ok xs w' v"
proof (cases "bu_futs u i")
  case None
  with ok show ?thesis by auto
next
  case (Some a)
  note d = b_okD [OF ok]
  obtain s ws where s: "acquire_drop a (chan_sem (cu_chan u)) = Some (Inr (s, ws))"
    "bounded_owed (bu_buffer u) ((bu_futs u)(i := None)) (b_held u) (s, snd (ch_semaphore (cu_chan u))) (length xs)"
    "sem_is_closed s = sem_is_closed (chan_sem (cu_chan u))"
    using drop_keeps [OF bounded_owedD [OF d(4)], of i a] Some d(4) by (auto simp: bounded_owed_def chan_sem_def)
  let ?v = "b_look (b_forget i (b_put (with_sem s (cu_chan u)) ws u))"
  have use: "use_ok (b_handles u) xs w ?v" using use_ok_with_sem [OF d(1)] by simp
  show ?thesis
  proof (cases "i \<in> bu_owning u")
    case False
    have "b_rest (length xs) ?v"
      using d(2) s(2, 3) False by (auto simp: b_rest_def b_held_def b_borrowed_def with_sem_def chan_sem_def)
    with use s(1) Some False show ?thesis by (auto simp: b_ok_def Let_def)
  next
    case True
    let ?w = "?v\<lparr>bu_owning := bu_owning ?v - {i}\<rparr>"
    have "card (bu_owning u - {i}) = card (bu_owning u) - 1" using True d(9) by simp
    moreover have "0 < card (bu_owning u)" using True d(9) card_gt_0_iff by blast
    ultimately have n: "Suc (b_handles ?w) = b_handles u" by (simp add: b_handles_def)
    have use': "use_ok (Suc (b_handles ?w)) xs w ?w" using use by (simp only: n use_ok_fields)
    have rest: "b_rest (length xs) ?w"
      using d(2) s(2, 3) by (auto simp: b_rest_def b_held_def b_borrowed_def with_sem_def chan_sem_def)
    have "b_noticed ?v" by simp
    then have noticed: "b_noticed ?w" by (simp add: b_noticed_def b_idle_def)
    from sender_gone [OF use' rest noticed] show ?thesis using s(1) Some True by (auto simp: Let_def)
  qed
qed


text \<open>Sending with a permit that was just taken: the semaphore and the futures have changed, the value follows.\<close>

lemma send_follows:
  assumes use: "use_ok (b_handles u) xs w u" and n: "0 < b_handles u" and room: "b_room u"
    and owed: "bounded_owed (bu_buffer u) (bu_futs u) (Suc (b_held u)) (ch_semaphore (cu_chan u)) (length xs)"
    and rest: "ch_rx_closed (cu_chan u) = sem_is_closed (chan_sem (cu_chan u))" "\<forall>i a. bu_futs u i = Some a \<longrightarrow> a_num a = 1"
      "bu_owning u \<subseteq> dom (bu_futs u)" "b_borrowed u \<longrightarrow> 0 < cu_senders u"
  shows "\<exists>c. chan_send x (cu_chan u) = Some (Inr (c, waker_list w)) \<and>
     b_ok (xs @ [x]) None ((b_put c (waker_list w) u)\<lparr>cu_sent := cu_sent u @ [x]\<rparr>)"
proof -
  obtain c where c: "chan_send x (cu_chan u) = Some (Inr (c, waker_list w))" "ch_semaphore c = ch_semaphore (cu_chan u)"
    "ch_rx_closed c = ch_rx_closed (cu_chan u)"
    "use_ok (b_handles u) (xs @ [x]) None ((b_put c (waker_list w) u)\<lparr>cu_sent := cu_sent u @ [x]\<rparr>)"
    using b_send_ok [OF use n room, of x] by (elim exE conjE) (rule that)
  let ?v = "(b_put c (waker_list w) u)\<lparr>cu_sent := cu_sent u @ [x]\<rparr>"
  have "b_rest (length (xs @ [x])) ?v"
    using c(2, 3) owed rest by (simp add: b_rest_def b_held_def b_borrowed_def chan_sem_def bounded_owed_def)
  moreover have "b_noticed ?v" by (rule woken_noticed) (simp add: waiting_woken [OF use])
  moreover have "b_handles ?v = b_handles u" by (simp add: b_handles_def)
  ultimately show ?thesis using c(1, 4) by (intro exI [of _ c]) (simp add: b_ok_def)
qed

lemma try_send_keeps:
  assumes ok: "b_ok xs w u" and legal: "0 < cu_senders u" "b_room u"
  shows "\<exists>v xs' w'. bounded_exec (BTrySend x) u = Some (Inr v) \<and> b_ok xs' w' v"
proof -
  note d = b_okD [OF ok]
  from try_permit_ok [OF d(2), of x] obtain r s where
    r: "try_permit x (cu_chan u) = Inr (r, with_sem s (cu_chan u))" "sem_is_closed s = sem_is_closed (chan_sem (cu_chan u))"
      "case r of Inl _ \<Rightarrow> s = chan_sem (cu_chan u)
       | Inr _ \<Rightarrow> bounded_owed (bu_buffer u) (bu_futs u) (Suc (b_held u)) (s, snd (ch_semaphore (cu_chan u))) (length xs) \<and> \<not> sem_is_closed s"
    by blast
  show ?thesis
  proof (cases r)
    case (Inl e)
    then have "with_sem s (cu_chan u) = cu_chan u" using r(3) by (simp add: with_sem_def chan_sem_def)
    then have "bounded_exec (BTrySend x) u = Some (Inr u)" using r(1) Inl by (simp add: try_send_def Let_def)
    with ok show ?thesis by blast
  next
    case (Inr y)
    let ?u = "b_put (with_sem s (cu_chan u)) [] u"
    have use: "use_ok (b_handles ?u) xs w ?u" using use_ok_with_sem [OF d(1)] by simp
    have n: "0 < b_handles ?u" using legal by (simp add: b_handles_def)
    have "b_held ?u = b_held u" "bu_futs ?u = bu_futs u" by (simp_all add: b_held_def)
    then have "\<exists>c. chan_send x (cu_chan ?u) = Some (Inr (c, waker_list w)) \<and>
       b_ok (xs @ [x]) None ((b_put c (waker_list w) ?u)\<lparr>cu_sent := cu_sent ?u @ [x]\<rparr>)"
      using r Inr d(2) legal
      by (intro send_follows [OF use n]) (auto simp: b_room_def b_rest_def b_borrowed_def with_sem_def chan_sem_def)
    then obtain c where c: "chan_send x (with_sem s (cu_chan u)) = Some (Inr (c, waker_list w))"
      "b_ok (xs @ [x]) None ((b_put c (waker_list w) ?u)\<lparr>cu_sent := cu_sent ?u @ [x]\<rparr>)" by auto
    have eq: "(b_put c (waker_list w) ?u)\<lparr>cu_sent := cu_sent ?u @ [x]\<rparr> = (b_put c (waker_list w) u)\<lparr>cu_sent := cu_sent u @ [x]\<rparr>"
      by (simp add: b_put_def)
    have "bounded_exec (BTrySend x) u = Some (Inr ((b_put c (waker_list w) ?u)\<lparr>cu_sent := cu_sent ?u @ [x]\<rparr>))"
      unfolding eq using r(1) Inr c(1) by (simp add: try_send_def Let_def)
    with c(2) show ?thesis by blast
  qed
qed

lemma send_keeps:
  assumes ok: "b_ok xs w u" and legal: "0 < cu_senders u" "i \<notin> bu_owning u" "b_room u"
  shows "\<exists>v xs' w'. bounded_exec (BSend cx i x) u = Some (Inr v) \<and> b_ok xs' w' v"
proof -
  note d = b_okD [OF ok]
  from reserve_inner_ok [OF d(2), of cx i] obtain r a s ws where
    r: "reserve_inner cx i (bu_futs u i) (cu_chan u) = Some (Inr (r, a, with_sem s (cu_chan u), ws))" "a_num a = 1"
      "(r = Ready False) = sem_is_closed (chan_sem (cu_chan u))" "sem_is_closed s = sem_is_closed (chan_sem (cu_chan u))"
    and owed: "bounded_owed (bu_buffer u) (case r of Pending \<Rightarrow> (bu_futs u)(i \<mapsto> a) | Ready _ \<Rightarrow> (bu_futs u)(i := None))
       (b_held u + (if r = Ready True then 1 else 0)) (s, snd (ch_semaphore (cu_chan u))) (length xs)" by blast
  show ?thesis
  proof (cases "r = Ready True")
    case False
    have "bounded_exec (BSend cx i x) u = bounded_exec (BReserve cx i) u"
      using r(1) False by (cases r rule: poll_bool_cases) (simp_all add: bounded_send_def Let_def)
    then show ?thesis using reserve_keeps [OF ok legal(1, 2), of cx] by auto
  next
    case True
    let ?u = "b_forget i (b_put (with_sem s (cu_chan u)) ws u)"
    have use: "use_ok (b_handles ?u) xs w ?u" using use_ok_with_sem [OF d(1)] by simp
    have n: "0 < b_handles ?u" using legal by (simp add: b_handles_def)
    have "b_held ?u = b_held u" by (simp add: b_held_def)
    then have "\<exists>c. chan_send x (cu_chan ?u) = Some (Inr (c, waker_list w)) \<and>
       b_ok (xs @ [x]) None ((b_put c (waker_list w) ?u)\<lparr>cu_sent := cu_sent ?u @ [x]\<rparr>)"
      using r True d(2) legal owed
      by (intro send_follows [OF use n]) (auto simp: b_room_def b_rest_def b_borrowed_def with_sem_def chan_sem_def)
    then obtain c where c: "chan_send x (with_sem s (cu_chan u)) = Some (Inr (c, waker_list w))"
      "b_ok (xs @ [x]) None ((b_put c (waker_list w) ?u)\<lparr>cu_sent := cu_sent ?u @ [x]\<rparr>)" by auto
    have eq: "(b_put c (waker_list w) ?u)\<lparr>cu_sent := cu_sent ?u @ [x]\<rparr> =
        (b_forget i (b_put c (ws @ waker_list w) u))\<lparr>cu_sent := cu_sent u @ [x]\<rparr>"
      by (simp add: b_put_def b_forget_def woke_append)
    have "bounded_exec (BSend cx i x) u = Some (Inr ((b_put c (waker_list w) ?u)\<lparr>cu_sent := cu_sent ?u @ [x]\<rparr>))"
      unfolding eq using r(1) True c(1) by (simp add: bounded_send_def permit_send_def Let_def)
    with c(2) show ?thesis by blast
  qed
qed

lemma reserve_owned_keeps:
  assumes ok: "b_ok xs w u" and legal: "if bu_futs u i = None then may_move u else i \<in> bu_owning u"
  shows "\<exists>v w'. bounded_exec (BReserveOwned cx i) u = Some (Inr v) \<and> b_ok xs w' v"
proof -
  note d = b_okD [OF ok]
  from reserve_inner_ok [OF d(2), of cx i] obtain r a s ws where
    r: "reserve_inner cx i (bu_futs u i) (cu_chan u) = Some (Inr (r, a, with_sem s (cu_chan u), ws))" "a_num a = 1"
      "(r = Ready False) = sem_is_closed (chan_sem (cu_chan u))" "sem_is_closed s = sem_is_closed (chan_sem (cu_chan u))"
    and owed: "bounded_owed (bu_buffer u) (case r of Pending \<Rightarrow> (bu_futs u)(i \<mapsto> a) | Ready _ \<Rightarrow> (bu_futs u)(i := None))
       (b_held u + (if r = Ready True then 1 else 0)) (s, snd (ch_semaphore (cu_chan u))) (length xs)" by blast
  define u1 where "u1 = (if bu_futs u i = None
     then u\<lparr>cu_senders := cu_senders u - 1, bu_owning := insert i (bu_owning u)\<rparr> else u)"
  have own: "i \<in> bu_owning u1" "bu_owning u1 - {i} \<subseteq> dom (bu_futs u)" "finite (bu_owning u1)"
    using legal d(7, 9) by (auto simp: u1_def split: if_splits)
  have n1: "b_handles u1 = b_handles u"
  proof (cases "bu_futs u i")
    case None
    then have "i \<notin> bu_owning u" "0 < cu_senders u" using d(7) legal by (auto simp: may_move_def)
    with None d(9) show ?thesis by (simp add: u1_def b_handles_def)
  qed (simp add: u1_def)
  have card1: "card (bu_owning u1) = Suc (card (bu_owning u1 - {i}))"
    using own(1, 3) by (metis card_Suc_Diff1)
  have same: "cu_chan u1 = cu_chan u" "bu_futs u1 = bu_futs u" "bu_permits u1 = bu_permits u" "bu_owned u1 = bu_owned u"
    "cu_closers u1 = cu_closers u" "cu_waiting u1 = cu_waiting u" "bu_silent u1 = bu_silent u"
    "bu_buffer u1 = bu_buffer u" by (simp_all add: u1_def)
  have bor: "0 < bu_permits u \<longrightarrow> 0 < cu_senders u1" "cu_closers u \<noteq> (\<lambda>_. None) \<longrightarrow> 0 < cu_senders u1"
    "\<forall>x y. bu_futs u x = Some y \<longrightarrow> x \<in> bu_owning u1 \<or> 0 < cu_senders u1"
  proof -
    have pos: "0 < cu_senders u1" if "b_borrowed u"
      using legal d(8) [OF that] that by (auto simp: u1_def may_move_def split: if_splits)
    then show "0 < bu_permits u \<longrightarrow> 0 < cu_senders u1" "cu_closers u \<noteq> (\<lambda>_. None) \<longrightarrow> 0 < cu_senders u1"
      by (simp_all add: b_borrowed_def)
    have "dom (bu_futs u) \<subseteq> bu_owning u1" if "\<not> b_borrowed u"
      using that by (auto simp: b_borrowed_def u1_def split: if_splits)
    with pos show "\<forall>x y. bu_futs u x = Some y \<longrightarrow> x \<in> bu_owning u1 \<or> 0 < cu_senders u1" by (cases "b_borrowed u") auto
  qed
  have use1: "use_ok (b_handles u1) xs w u1" using d(1) unfolding n1 by (simp add: u1_def)
  let ?v = "b_put (with_sem s (cu_chan u)) ws u1"
  have use: "use_ok (b_handles u1) xs w ?v" using use_ok_with_sem [OF use1] by (simp add: same)
  have held: "b_held u1 = b_held u" by (simp add: b_held_def same)
  have num: "\<forall>i a. bu_futs u i = Some a \<longrightarrow> a_num a = 1" using d(2) by (simp add: b_rest_def)
  have closed: "ch_rx_closed (cu_chan u) = sem_is_closed s" using d(5) r(4) by simp
  show ?thesis
  proof (cases r rule: poll_bool_cases)
    case 1
    let ?w = "?v\<lparr>bu_futs := (bu_futs ?v)(i \<mapsto> a)\<rparr>"
    have rest: "b_rest (length xs) ?w"
      using owed 1 r(2) own held num closed bor
      by (auto simp: b_rest_def b_held_def b_borrowed_def with_sem_def chan_sem_def same)
    moreover have "b_noticed ?w" by (rule open_noticed [OF rest]) (use r 1 in simp)
    moreover have "bounded_exec (BReserveOwned cx i) u = Some (Inr ?w)"
      using r(1) 1 by (simp add: reserve_owned_def u1_def Let_def)
    ultimately show ?thesis using use by (auto simp: b_ok_def)
  next
    case 2
    let ?w = "(b_forget i ?v)\<lparr>bu_owning := bu_owning ?v - {i}, bu_owned := bu_owned ?v + 1\<rparr>"
    have rest: "b_rest (length xs) ?w"
      using owed 2 own held num closed bor
      by (auto simp: b_rest_def b_held_def b_borrowed_def with_sem_def chan_sem_def same)
    moreover have "b_noticed ?w" by (rule open_noticed [OF rest]) (use r 2 in simp)
    moreover have "b_handles ?w = b_handles u1" using card1 by (simp add: b_handles_def)
    moreover have "bounded_exec (BReserveOwned cx i) u = Some (Inr ?w)"
      using r(1) 2 by (simp add: reserve_owned_def u1_def Let_def)
    ultimately show ?thesis using use by (auto simp: b_ok_def)
  next
    case 3
    let ?w = "(b_forget i ?v)\<lparr>bu_owning := bu_owning ?v - {i}\<rparr>"
    have rest: "b_rest (length xs) ?w"
      using owed 3 own held num closed bor
      by (auto simp: b_rest_def b_held_def b_borrowed_def with_sem_def chan_sem_def same)
    have n: "Suc (b_handles ?w) = b_handles u1" using card1 by (simp add: b_handles_def)
    have use': "use_ok (Suc (b_handles ?w)) xs w ?w" unfolding n using use by simp
    obtain c ws2 w' where c: "chan_tx_drop (cu_chan ?w) = Some (Inr (c, ws2))"
      "use_ok (b_handles ?w) xs w' (b_put c ws2 ?w)" "b_rest (length xs) (b_put c ws2 ?w)"
      using sender_gone_rest [OF use' rest] by (elim exE conjE) (rule that)
    have "b_put c ws2 ?w = (b_forget i (b_put c (ws @ ws2) u1))\<lparr>bu_owning := bu_owning u1 - {i}\<rparr>"
      by (simp add: b_put_def b_forget_def woke_append)
    then have "bounded_exec (BReserveOwned cx i) u = Some (Inr (b_look (b_put c ws2 ?w)))"
      using r(1) 3 c(1) by (simp add: reserve_owned_def u1_def Let_def)
    moreover have "b_ok xs w' (b_look (b_put c ws2 ?w))" using c(2, 3) by (simp add: b_ok_def)
    ultimately show ?thesis by blast
  qed
qed

text \<open>Clones, the receiver, and the futures of \<open>closed\<close>.\<close>

lemma clone_keeps:
  assumes ok: "b_ok xs w u" and legal: "0 < cu_senders u" "b_handles u + 1 < 2 ^ 64"
  shows "\<exists>v. bounded_exec BClone u = Some (Inr v) \<and> b_ok xs w v"
proof -
  note d = b_okD [OF ok]
  have n: "0 < b_handles u" using legal by (simp add: b_handles_def)
  have h: "b_handles (use_clone u) = b_handles u + 1" by (simp add: b_handles_def use_clone_def)
  have "use_ok (b_handles (use_clone u)) xs w (use_clone u)"
    unfolding h by (rule use_clone_ok [OF d(1) n legal(2)])
  moreover have "b_rest (length xs) (use_clone u)" "b_noticed (use_clone u)"
    using d(2, 3) by (simp_all add: b_rest_def b_noticed_def b_held_def b_borrowed_def b_idle_def use_clone_def chan_tx_clone_def chan_sem_def)
  ultimately show ?thesis by (simp add: b_ok_def)
qed

text \<open>When all senders are gone so are the permits and futures, and an empty channel is idle.\<close>

lemma b_idle_iff:
  assumes "bounded_owed bnd futs h sb k"
  shows "so_is_idle bounded_sem sb \<longleftrightarrow> assigned \<lparr>p_sem = fst sb, p_futs = futs, p_held = h + k, p_total = unat bnd\<rparr> + h + k = 0"
proof -
  let ?p = "\<lparr>p_sem = fst sb, p_futs = futs, p_held = h + k, p_total = unat bnd\<rparr>"
  have "avail (fst sb) + assigned ?p + (h + k) = unat (snd sb)"
    using pool_facts(4) [OF bounded_owedD [OF assms]] assms by (simp add: bounded_owed_def)
  moreover have "so_is_idle bounded_sem sb \<longleftrightarrow> avail (fst sb) = unat (snd sb)"
    by (simp add: avail_def word_unat_eq_iff)
  ultimately show ?thesis by linarith
qed

lemma gone_idle:
  assumes ok: "b_ok [] w u" and n: "b_handles u = 0"
  shows "b_idle u"
proof -
  note d = b_okD [OF ok]
  have "bu_owning u = {}" "cu_senders u = 0" "bu_owned u = 0" using n d(9) by (simp_all add: b_handles_def)
  moreover have "\<not> b_borrowed u" using d(8) calculation(2) by auto
  ultimately have "b_held u = 0" "bu_futs u = (\<lambda>_. None)" by (auto simp: b_held_def b_borrowed_def)
  with b_idle_iff [OF d(4)] show ?thesis by (simp add: b_idle_def assigned_def)
qed

lemma recv_keeps:
  assumes ok: "b_ok xs w u"
  shows "\<exists>v xs' w'. bounded_exec (BRecv cx) u = Some (Inr v) \<and> b_ok xs' w' v"
proof -
  note d = b_okD [OF ok]
  have idle: "xs = [] \<and> b_handles u = 0 \<longrightarrow> so_is_idle bounded_sem (ch_semaphore (cu_chan u))"
    using gone_idle [of w u] ok by (auto simp: b_idle_def)
  obtain r c w' where c: "use_recv bounded_sem cx u = Some (Inr (r, u\<lparr>cu_chan := c,
         cu_taken := cu_taken u @ (case r of Ready (Some v) \<Rightarrow> [v] | _ \<Rightarrow> []), cu_waiting := (if r = Pending then Some cx else None)\<rparr>))"
    "r = (case xs of x # _ \<Rightarrow> Ready (Some x)
          | [] \<Rightarrow> if b_handles u = 0 \<or> ch_rx_closed (cu_chan u) \<and> so_is_idle bounded_sem (ch_semaphore (cu_chan u)) then Ready None else Pending)"
    "use_ok (b_handles u) (tl xs) w' (u\<lparr>cu_chan := c,
         cu_taken := cu_taken u @ (case r of Ready (Some v) \<Rightarrow> [v] | _ \<Rightarrow> []), cu_waiting := (if r = Pending then Some cx else None)\<rparr>)"
    "same_but_queue (cu_chan u) c" "bounded_owed (bu_buffer u) (bu_futs u) (b_held u) (ch_semaphore c) (length (tl xs))"
    "so_is_closed bounded_sem (ch_semaphore c) = so_is_closed bounded_sem (ch_semaphore (cu_chan u))"
    "xs = [] \<longrightarrow> ch_semaphore c = ch_semaphore (cu_chan u)"
    using bsem.use_recv_ok [OF d(1, 4) idle, of cx] by (elim exE conjE) (rule that)
  let ?v = "u\<lparr>cu_chan := c,
         cu_taken := cu_taken u @ (case r of Ready (Some v) \<Rightarrow> [v] | _ \<Rightarrow> []), cu_waiting := (if r = Pending then Some cx else None)\<rparr>\<lparr>bu_silent := False\<rparr>"
  have use: "use_ok (b_handles ?v) (tl xs) w' ?v" using c(3) by (simp add: b_handles_def)
  have rest: "b_rest (length (tl xs)) ?v"
    using d(2) c(4-6) by (simp add: b_rest_def b_held_def b_borrowed_def same_but_queue_def chan_sem_def)
  have "b_noticed ?v"
    using c(2, 4, 7) by (auto simp: b_noticed_def b_idle_def same_but_queue_def split: list.splits if_splits)
  with use rest have "b_ok (tl xs) w' ?v" unfolding b_ok_def by blast
  moreover have "bounded_exec (BRecv cx) u = Some (Inr ?v)" using c(1) by simp
  ultimately show ?thesis by blast
qed

lemma try_recv_keeps:
  assumes ok: "b_ok xs w u"
  shows "\<exists>v xs' w'. bounded_exec BTryRecv u = Some (Inr v) \<and> b_ok xs' w' v"
proof -
  note d = b_okD [OF ok]
  let ?t = "case xs of x # _ \<Rightarrow> [x] | [] \<Rightarrow> []"
  obtain r c where c: "use_try_recv bounded_sem u = Some (Inr (r, u\<lparr>cu_chan := c, cu_taken := cu_taken u @ ?t, cu_waiting := None\<rparr>))"
    "use_ok (b_handles u) (tl xs) w (u\<lparr>cu_chan := c, cu_taken := cu_taken u @ ?t, cu_waiting := None\<rparr>)"
    "same_but_queue (cu_chan u) c" "bounded_owed (bu_buffer u) (bu_futs u) (b_held u) (ch_semaphore c) (length (tl xs))"
    "so_is_closed bounded_sem (ch_semaphore c) = so_is_closed bounded_sem (ch_semaphore (cu_chan u))"
    using bsem.use_try_recv_ok [OF d(1, 4)] by (elim exE conjE) (rule that)
  let ?v = "u\<lparr>cu_chan := c, cu_taken := cu_taken u @ ?t, cu_waiting := None\<rparr>"
  have "use_ok (b_handles ?v) (tl xs) w ?v" using c(2) by (simp add: b_handles_def)
  moreover have "b_rest (length (tl xs)) ?v"
    using d(2) c(3-5) by (simp add: b_rest_def b_held_def b_borrowed_def same_but_queue_def chan_sem_def)
  moreover have "b_noticed ?v" by (simp add: b_noticed_def)
  ultimately show ?thesis using c(1) by (auto simp: b_ok_def)
qed

lemma close_keeps_ok:
  assumes ok: "b_ok xs w u" and room: "close_room u"
  shows "\<exists>v. bounded_exec BClose u = Some (Inr v) \<and> b_ok xs w v"
proof -
  note d = b_okD [OF ok]
  obtain c where c: "use_close bounded_sem u = Some (Inr (u\<lparr>cu_chan := c, cu_waiting := None\<rparr>))"
    "use_ok (b_handles u) xs w (u\<lparr>cu_chan := c, cu_waiting := None\<rparr>)" "ch_rx_closed c"
    "ch_semaphore c = fst (so_close bounded_sem (ch_semaphore (cu_chan u)))"
    using bsem.use_close_ok [OF d(1) room [unfolded close_room_def]] by (elim exE conjE) (rule that)
  let ?v = "u\<lparr>cu_chan := c, cu_waiting := None\<rparr>"
  have "use_ok (b_handles ?v) xs w ?v" using c(2) by (simp add: b_handles_def)
  moreover have "bounded_owed (bu_buffer u) (bu_futs u) (b_held u) (ch_semaphore c) (length xs)" "sem_is_closed (chan_sem c)"
    using bsem.close_owed [OF d(4)] c(4) by (simp_all add: chan_sem_def)
  then have "b_rest (length xs) ?v"
    using d(2) c(3) by (simp add: b_rest_def b_held_def b_borrowed_def)
  moreover have "b_noticed ?v" by (simp add: b_noticed_def)
  ultimately show ?thesis using c(1) by (simp add: b_ok_def)
qed

lemma rx_drop_keeps:
  assumes ok: "b_ok xs w u" and room: "close_room u"
  shows "\<exists>v. bounded_exec BRxDrop u = Some (Inr v) \<and> b_ok [] w v"
proof -
  note d = b_okD [OF ok]
  obtain c where c: "use_rx_drop bounded_sem u = Some (Inr (u\<lparr>cu_chan := c, cu_rx := False, cu_taken := cu_sent u, cu_waiting := None\<rparr>))"
    "use_ok (b_handles u) [] w (u\<lparr>cu_chan := c, cu_rx := False, cu_taken := cu_sent u, cu_waiting := None\<rparr>)" "ch_rx_closed c"
    "bounded_owed (bu_buffer u) (bu_futs u) (b_held u) (ch_semaphore c) 0" "so_is_closed bounded_sem (ch_semaphore c)"
    using bsem.use_rx_drop_ok [OF d(1, 4) room [unfolded close_room_def]] by (elim exE conjE) (rule that)
  let ?v = "u\<lparr>cu_chan := c, cu_rx := False, cu_taken := cu_sent u, cu_waiting := None\<rparr>"
  have "use_ok (b_handles ?v) [] w ?v" using c(2) by (simp add: b_handles_def)
  moreover have "b_rest (length []) ?v"
    using d(2) c(3-5) by (simp add: b_rest_def b_held_def b_borrowed_def chan_sem_def)
  moreover have "b_noticed ?v" by (simp add: b_noticed_def)
  ultimately show ?thesis using c(1) by (simp add: b_ok_def)
qed

lemma closed_keeps:
  assumes ok: "b_ok xs w u" and legal: "0 < cu_senders u"
  shows "\<exists>v. bounded_exec (BClosed cx i) u = Some (Inr v) \<and> b_ok xs w v"
proof -
  note d = b_okD [OF ok]
  obtain r m st where c: "use_closed bounded_sem cx i u =
      Some (Inr (r, u\<lparr>cu_chan := (cu_chan u)\<lparr>ch_notify_rx_closed := m\<rparr>, cu_closers := (cu_closers u)(i := st)\<rparr>))"
    "use_ok (b_handles u) xs w (u\<lparr>cu_chan := (cu_chan u)\<lparr>ch_notify_rx_closed := m\<rparr>, cu_closers := (cu_closers u)(i := st)\<rparr>)"
    using use_closed_ok [OF d(1), of bounded_sem cx i] by (elim exE conjE) (rule that)
  let ?v = "u\<lparr>cu_chan := (cu_chan u)\<lparr>ch_notify_rx_closed := m\<rparr>, cu_closers := (cu_closers u)(i := st)\<rparr>"
  have "use_ok (b_handles ?v) xs w ?v" using c(2) by (simp add: b_handles_def)
  moreover have "b_rest (length xs) ?v" "b_noticed ?v"
    using d(2, 3) legal by (simp_all add: b_rest_def b_held_def b_noticed_def b_idle_def chan_sem_def)
  ultimately show ?thesis using c(1) by (simp add: b_ok_def)
qed

lemma closed_drop_keeps:
  assumes ok: "b_ok xs w u"
  shows "\<exists>v. bounded_exec (BClosedDrop i) u = Some (Inr v) \<and> b_ok xs w v"
proof -
  note d = b_okD [OF ok]
  obtain m where c: "use_closed_drop i u =
      Some (Inr (u\<lparr>cu_chan := (cu_chan u)\<lparr>ch_notify_rx_closed := m\<rparr>, cu_closers := (cu_closers u)(i := None)\<rparr>))"
    "use_ok (b_handles u) xs w (u\<lparr>cu_chan := (cu_chan u)\<lparr>ch_notify_rx_closed := m\<rparr>, cu_closers := (cu_closers u)(i := None)\<rparr>)"
    using use_closed_drop_ok [OF d(1), of i] by (elim exE conjE) (rule that)
  let ?v = "u\<lparr>cu_chan := (cu_chan u)\<lparr>ch_notify_rx_closed := m\<rparr>, cu_closers := (cu_closers u)(i := None)\<rparr>"
  have "b_borrowed ?v \<longrightarrow> b_borrowed u" by (auto simp: b_borrowed_def)
  then have "b_rest (length xs) ?v" "b_noticed ?v"
    using d(2, 3) by (auto simp: b_rest_def b_held_def b_noticed_def b_idle_def chan_sem_def)
  moreover have "use_ok (b_handles ?v) xs w ?v" using c(2) by (simp add: b_handles_def)
  ultimately show ?thesis using c(1) by (simp add: b_ok_def)
qed

lemma unwritten_panics: "unwritten p \<Longrightarrow> bounded_exec p u = Some (Inl Unimplemented)"
  by (cases p) (simp_all add: bounded_send_timeout_def)

lemma bounded_exec_keeps:
  assumes "b_inv u" "bounded_legal p u" "\<not> unwritten p"
  shows "\<exists>v. bounded_exec p u = Some (Inr v) \<and> b_inv v"
proof -
  obtain xs w where ok: "b_ok xs w u" using assms(1) by (auto simp: b_inv_def)
  show ?thesis
  proof (cases p)
    case (BReserve cx i) with reserve_keeps [OF ok, of i cx] assms(2) show ?thesis
      by (auto simp: b_inv_def simp del: bounded_exec.simps)
  next
    case (BSend cx i x) with send_keeps [OF ok, of i cx x] assms(2) show ?thesis
      by (auto simp: b_inv_def simp del: bounded_exec.simps)
  next
    case (BReserveOwned cx i) with reserve_owned_keeps [OF ok, of i cx] assms(2) show ?thesis
      by (auto simp: b_inv_def simp del: bounded_exec.simps)
  next
    case (BCancel i) with b_cancel_keeps [OF ok, of i] show ?thesis
      by (auto simp: b_inv_def simp del: bounded_exec.simps)
  next
    case BTryReserve with try_reserve_keeps [OF ok] assms(2) show ?thesis
      by (auto simp: b_inv_def simp del: bounded_exec.simps)
  next
    case (BTrySend x) with try_send_keeps [OF ok, of x] assms(2) show ?thesis
      by (auto simp: b_inv_def simp del: bounded_exec.simps)
  next
    case BTryReserveOwned with try_reserve_owned_keeps [OF ok] assms(2) show ?thesis
      by (auto simp: b_inv_def simp del: bounded_exec.simps)
  next
    case (BPermitSend x) with permit_send_keeps [OF ok, of x] assms(2) show ?thesis
      by (auto simp: b_inv_def simp del: bounded_exec.simps)
  next
    case BPermitDrop with permit_drop_keeps [OF ok] assms(2) show ?thesis
      by (auto simp: b_inv_def simp del: bounded_exec.simps)
  next
    case (BOwnedSend x) with owned_send_keeps [OF ok, of x] assms(2) show ?thesis
      by (auto simp: b_inv_def simp del: bounded_exec.simps)
  next
    case BOwnedRelease with owned_release_keeps [OF ok] assms(2) show ?thesis
      by (auto simp: b_inv_def simp del: bounded_exec.simps)
  next
    case BOwnedDrop with owned_drop_keeps [OF ok] assms(2) show ?thesis
      by (auto simp: b_inv_def simp del: bounded_exec.simps)
  next
    case BClone with clone_keeps [OF ok] assms(2) show ?thesis
      by (auto simp: b_inv_def simp del: bounded_exec.simps)
  next
    case BSenderDrop with sender_drop_keeps [OF ok] assms(2) show ?thesis
      by (auto simp: b_inv_def simp del: bounded_exec.simps)
  next
    case (BRecv cx) with recv_keeps [OF ok, of cx] show ?thesis
      by (auto simp: b_inv_def simp del: bounded_exec.simps)
  next
    case BTryRecv with try_recv_keeps [OF ok] show ?thesis
      by (auto simp: b_inv_def simp del: bounded_exec.simps)
  next
    case BClose with close_keeps_ok [OF ok] assms(2) show ?thesis
      by (auto simp: b_inv_def simp del: bounded_exec.simps)
  next
    case BRxDrop with rx_drop_keeps [OF ok] assms(2) show ?thesis
      by (auto simp: b_inv_def simp del: bounded_exec.simps)
  next
    case (BClosed cx i) with closed_keeps [OF ok, of cx i] assms(2) show ?thesis
      by (auto simp: b_inv_def simp del: bounded_exec.simps)
  next
    case (BClosedDrop i) with closed_drop_keeps [OF ok, of i] show ?thesis
      by (auto simp: b_inv_def simp del: bounded_exec.simps)
  next
    case (BSendTimeout x) with assms(3) show ?thesis by simp
  qed
qed


section \<open>What a bounded channel promises\<close>

lemma bounded_new_inv:
  assumes "bounded_new buffer = Inr u"
  shows "b_ok [] None u" "bu_buffer u = buffer" "0 < buffer"
proof -
  from assms obtain s where s: "0 < buffer" "sem_new buffer = Inr s"
    and u: "u = chan_use.extend ((use_new (s, buffer))\<lparr>cu_chan := chan_channel (s, buffer)\<rparr>)
         \<lparr>bu_buffer = buffer, bu_futs = (\<lambda>_. None), bu_owning = {}, bu_permits = 0, bu_owned = 0, bu_silent = False\<rparr>"
    by (auto simp: bounded_new_def bounded_channel_def and_then_eq_Inr chan_channel_def)
  show "bu_buffer u = buffer" "0 < buffer" using s by (simp_all add: u chan_use.defs)
  have h: "b_handles u = 1" by (simp add: u chan_use.defs b_handles_def use_new_def)
  have "use_ok 1 [] None (use_new (s, buffer) :: ('a, bsem) chan_use)" by (rule use_new_ok)
  then have use: "use_ok (b_handles u) [] None u"
    unfolding h by (simp add: use_ok_def u chan_use.defs use_new_def)
  have "b_rest 0 u" using new_pool_inv [OF s(2)] sem_new_Inr [OF s(2)]
    by (simp add: b_rest_def bounded_owed_def b_held_def b_borrowed_def u chan_use.defs use_new_def chan_channel_def chan_sem_def)
  moreover have "b_noticed u" by (simp add: b_noticed_def u chan_use.defs use_new_def)
  ultimately show "b_ok [] None u" using use by (simp add: b_ok_def)
qed

lemma bounded_exec_buffer: "bounded_exec p u = Some (Inr v) \<Longrightarrow> bu_buffer v = bu_buffer u"
  by (cases p)
    (auto simp: bind_oo_eq Let_def b_put_def b_look_def b_forget_def use_clone_def use_tx_drop_def use_recv_def
      use_try_recv_def use_close_def use_rx_drop_def use_closed_def use_closed_drop_def
      split: poll.split bool.split sum.split option.split option.split_asm if_split_asm)

lemma bounded_reach_inv: "bounded_reach buffer u \<Longrightarrow> b_inv u \<and> bu_buffer u = buffer"
proof (induction rule: bounded_reach.induct)
  case (bounded_start buffer u)
  then show ?case using bounded_new_inv by (auto simp: b_inv_def)
next
  case (bounded_next buffer u p v)
  have "\<not> unwritten p" using unwritten_panics [of p u] bounded_next.hyps by auto
  with bounded_next show ?case using bounded_exec_keeps [of u p] bounded_exec_buffer [of p u v] by auto
qed

text \<open>C10: In every state of a bounded channel the values in it are those that were sent and not yet taken out,
  in the order in which they were sent, and the free places, those assigned to waiting senders, the permits and
  the values in the channel add up to the buffer: it never holds more values than its buffer.\<close>

theorem bounded_channel_is_a_bounded_fifo:
  assumes "bounded_reach buffer u"
  shows "\<exists>xs k cl. cu_sent u = cu_taken u @ xs \<and> queue_state (ch_list (cu_chan u)) xs k cl \<and>
     unat (capacity (cu_chan u)) + assigned \<lparr>p_sem = chan_sem (cu_chan u), p_futs = bu_futs u,
         p_held = bu_permits u + bu_owned u + length xs, p_total = unat buffer\<rparr> +
       bu_permits u + bu_owned u + length xs = unat buffer"
proof -
  obtain xs w where ok: "b_ok xs w u" and buf: "bu_buffer u = buffer"
    using bounded_reach_inv [OF assms] by (auto simp: b_inv_def)
  note d = b_okD [OF ok]
  have "cu_sent u = cu_taken u @ xs" "queue_state (ch_list (cu_chan u)) xs (positions_left (cu_sent u) (b_handles u)) (b_handles u = 0)"
    using use_okD(1, 3) [OF d(1)] by (simp_all add: chan_ok_def)
  moreover have "avail (chan_sem (cu_chan u)) = unat (capacity (cu_chan u))"
    by (simp add: capacity_def avail_def)
  ultimately show ?thesis
    using pool_facts(4) [OF bounded_owedD [OF d(4)]] buf
    by (intro exI [of _ xs] exI [of _ "positions_left (cu_sent u) (b_handles u)"] exI [of _ "b_handles u = 0"])
      (simp add: b_held_def chan_sem_def ac_simps)
qed

text \<open>C11: On a bounded channel exactly one operation that its handles allow panics, and none hangs, whatever was
  called before: \<open>send_timeout\<close>, whose body is \<open>todo!()\<close>, always panics; a poll of \<open>send\<close>, \<open>reserve\<close>,
  \<open>reserve_owned\<close>, \<open>recv\<close> or \<open>closed\<close> or the drop of such a future, \<open>try_send\<close>, \<open>try_reserve\<close>,
  \<open>try_reserve_owned\<close>, \<open>try_recv\<close>, the use or the drop of a permit, \<open>clone\<close>, \<open>close\<close> and the drop of a handle
  return, and lead to a reachable state. In particular the assertion of \<open>recv\<close>, that the semaphore of a closed channel
  is idle, holds whenever it is reached. The bounds, part of \<open>bounded_legal\<close>: fewer than \<open>2 ^ 64 - 257\<close> values were
  sent (\<open>b_room\<close>), the calls of \<open>close\<close> fit the counter of the notifier (\<open>close_room\<close>), and the handles fit
  theirs. Operations run one after the other (so no slot is claimed and not yet written, on which \<open>try_recv\<close> would
  panic); \<open>blocking_send\<close> and \<open>blocking_recv\<close>, which park their thread until \<open>send\<close> or \<open>recv\<close> is ready, are not
  among them.\<close>

theorem bounded_channel_never_panics:
  assumes "bounded_reach buffer u" "bounded_legal p u"
  shows "if unwritten p then bounded_exec p u = Some (Inl Unimplemented)
     else \<exists>v. bounded_exec p u = Some (Inr v) \<and> bounded_reach buffer v"
proof (cases "unwritten p")
  case False
  then obtain v where "bounded_exec p u = Some (Inr v)"
    using bounded_exec_keeps bounded_reach_inv [OF assms(1)] assms(2) by blast
  with bounded_next [OF assms] False show ?thesis by auto
qed (simp add: unwritten_panics)

text \<open>C12: A receiver that was told to wait and has not been woken has nothing to receive, at least one sender
  is left, and its waker is in place: the next value that is sent, and the last sender that goes, wake it.
  When the channel was closed it also had something outstanding, unless a permit came back silently.\<close>

theorem bounded_receiver_is_woken:
  assumes "bounded_reach buffer u" "cu_waiting u = Some k"
  shows "cu_sent u = cu_taken u \<and> ch_tx_count (cu_chan u) \<noteq> 0 \<and>
     (b_room u \<longrightarrow> (\<exists>c. chan_send x (cu_chan u) = Some (Inr (c, [k])))) \<and>
     (ch_tx_count (cu_chan u) = 1 \<longrightarrow> (\<exists>c. chan_tx_drop (cu_chan u) = Some (Inr (c, [k])))) \<and>
     (ch_rx_closed (cu_chan u) \<and> \<not> bu_silent u \<longrightarrow> \<not> b_idle u)"
proof -
  obtain xs w where ok: "b_ok xs w u" using bounded_reach_inv [OF assms(1)] by (auto simp: b_inv_def)
  note d = b_okD [OF ok]
  note f = use_okD [OF d(1)]
  have w: "w = Some k" "xs = []" "0 < b_handles u" using f(6) [OF assms(2)] by simp_all
  have "ch_tx_count (cu_chan u) \<noteq> 0" using f(4) w(3) by auto
  moreover have "\<exists>c. chan_send x (cu_chan u) = Some (Inr (c, [k]))" if "b_room u"
    using b_send_ok [OF d(1) w(3) that, of x] w(1) by (auto simp: waker_list_def)
  moreover have "\<exists>c. chan_tx_drop (cu_chan u) = Some (Inr (c, [k]))" if "ch_tx_count (cu_chan u) = 1"
  proof -
    have "b_handles u = 1" using f(4) that by simp
    with use_tx_drop_ok [OF d(1) w(3)] w(1) show ?thesis by (auto simp: waker_list_def)
  qed
  moreover have "ch_rx_closed (cu_chan u) \<and> \<not> bu_silent u \<longrightarrow> \<not> b_idle u"
    using d(3) assms(2) by (auto simp: b_noticed_def)
  ultimately show ?thesis using f(1) w(2) by simp
qed

section \<open>Permits that come back silently\<close>

text \<open>A closed semaphore has no waiters, so giving permits back to it wakes nobody.\<close>

lemma add_permits_no_waiters:
  assumes "s_list s = []" "add_permits_locked n s = Some (Inr (s', ws))"
  shows "ws = []"
proof -
  have "add_inner (s_nodes s) [] n [] = (s_nodes s, [], n, True, [])" by (simp add: add_inner.simps)
  with assms show ?thesis
    by (auto simp: add_permits_locked_def add_permits_loop.simps [of s n] add_permits_loop_zero Let_def word_gt_0 split: if_splits)
qed

lemma drop_no_waiters:
  assumes "s_list s = []" "acquire_drop a s = Some (Inr (s', ws))"
  shows "ws = []"
  using assms by (auto simp: acquire_drop_def wl_remove_def Let_def dest: add_permits_no_waiters [rotated] split: if_splits)

lemma closed_no_waiters:
  assumes "b_rest k u" "ch_rx_closed (cu_chan u)"
  shows "s_list (chan_sem (cu_chan u)) = []" "sem_is_closed (chan_sem (cu_chan u))"
proof -
  have inv: "pool_inv \<lparr>p_sem = fst (ch_semaphore (cu_chan u)), p_futs = bu_futs u, p_held = b_held u + k,
     p_total = unat (bu_buffer u)\<rparr>" and cl: "sem_is_closed (chan_sem (cu_chan u))"
    using assms by (simp_all add: b_rest_def bounded_owed_def)
  then show "s_list (chan_sem (cu_chan u)) = []" using pool_facts(1, 2) [OF inv] by (simp add: chan_sem_def)
  show "sem_is_closed (chan_sem (cu_chan u))" by (rule cl)
qed

lemma release_is_silent:
  assumes rest: "b_rest k u" and closed: "ch_rx_closed (cu_chan u)" and run: "bounded_exec BOwnedRelease u = Some (Inr v)"
  shows "cu_waiting v = cu_waiting u" "ch_rx_closed (cu_chan v) = ch_rx_closed (cu_chan u)"
proof -
  obtain s ws where r: "release 1 (chan_sem (cu_chan u)) = Some (Inr (s, ws))" "cu_waiting v = woke ws (cu_waiting u)"
    "ch_rx_closed (cu_chan v) = ch_rx_closed (cu_chan u)"
    using run by (auto simp: owned_permit_release_def bind_oo_eq chan_sem_def)
  with add_permits_no_waiters [OF closed_no_waiters(1) [OF rest closed], of 1 s ws]
  show "cu_waiting v = cu_waiting u" by (simp add: release_def)
  show "ch_rx_closed (cu_chan v) = ch_rx_closed (cu_chan u)" by (rule r(3))
qed

lemma failed_reserve_is_silent:
  assumes rest: "b_rest k u" and closed: "ch_rx_closed (cu_chan u)" and i: "bu_futs u i = Some a"
    and run: "bounded_exec (BReserve cx i) u = Some (Inr v)"
  shows "cu_waiting v = cu_waiting u" "ch_rx_closed (cu_chan v) = ch_rx_closed (cu_chan u)"
proof -
  let ?s = "chan_sem (cu_chan u)"
  have inv: "pool_inv \<lparr>p_sem = ?s, p_futs = bu_futs u, p_held = b_held u + k, p_total = unat (bu_buffer u)\<rparr>"
    using rest by (simp add: b_rest_def bounded_owed_def chan_sem_def)
  note cl = closed_no_waiters [OF rest closed]
  have poll: "acquire_poll cx a ?s = Some (Inr (Ready False, a, ?s, []))"
    using poll_closed [OF _ inv, of i a cx] cl(2) i by simp
  obtain s ws where drop: "acquire_drop a ?s = Some (Inr (s, ws))"
    using drop_keeps [OF inv, of i a] i by auto
  have "ws = []" by (rule drop_no_waiters [OF cl(1) drop])
  with poll drop have "reserve_inner cx i (bu_futs u i) (cu_chan u) = Some (Inr (Ready False, a, with_sem s (cu_chan u), []))"
    by (simp add: reserve_inner_def acquire_async_def i)
  with run show "cu_waiting v = cu_waiting u" "ch_rx_closed (cu_chan v) = ch_rx_closed (cu_chan u)"
    by (auto simp: Let_def)
qed

text \<open>C34: Two ways of giving a permit back forget a receiver that waits on a closed channel: releasing an
  \<open>OwnedPermit\<close>, and a \<open>reserve\<close> that had been assigned a permit and now fails. Neither wakes the
  receiver, even if the channel is idle from then on and \<open>recv\<close> would answer that it is at its end.\<close>

theorem silent_permit_loses_wakeup:
  assumes "bounded_reach buffer u" "bounded_legal p u" "cu_waiting u = Some k" "ch_rx_closed (cu_chan u)"
    and "p = BOwnedRelease \<or> (\<exists>i a cx. p = BReserve cx i \<and> bu_futs u i = Some a)"
  shows "\<exists>v. bounded_exec p u = Some (Inr v) \<and> cu_waiting v = Some k \<and>
     (b_idle v \<longrightarrow> (\<exists>c. bounded_recv k (cu_chan v) = Some (Inr (Ready None, c, []))))"
proof -
  obtain xs w where ok: "b_ok xs w u" using bounded_reach_inv [OF assms(1)] by (auto simp: b_inv_def)
  note rest = b_okD(2) [OF ok]
  have "b_inv u" "\<not> unwritten p" using ok assms(5) by (auto simp: b_inv_def)
  then obtain v where run: "bounded_exec p u = Some (Inr v)" and "b_inv v"
    using bounded_exec_keeps assms(2) by blast
  then obtain ys w' where v: "b_ok ys w' v" by (auto simp: b_inv_def)
  have same: "cu_waiting v = cu_waiting u" "ch_rx_closed (cu_chan v) = ch_rx_closed (cu_chan u)"
    using assms(5) release_is_silent [OF rest assms(4), of v] failed_reserve_is_silent [OF rest assms(4), of _ _ _ v] run
    by (auto simp del: bounded_exec.simps)
  then have wait: "cu_waiting v = Some k" using assms(3) by simp
  note f = use_okD [OF b_okD(1) [OF v]]
  have "ys = []" "0 < b_handles v" using f(6) [OF wait] by simp_all
  moreover have "ch_rx_closed (cu_chan v)" using same(2) assms(4) by simp
  ultimately have "\<exists>c. bounded_recv k (cu_chan v) = Some (Inr (Ready None, c, []))" if "b_idle v"
    using bsem.recv_waits [of "cu_chan v" "positions_left (cu_sent v) (b_handles v)" w' k] f(3) that
    by (auto simp: bounded_recv_def b_idle_def)
  with run wait show ?thesis by blast
qed

text \<open>The run of the first case, on a channel with one place.\<close>

definition idle_sem :: "usize \<Rightarrow> bool \<Rightarrow> sem" where
  "idle_sem st cl = \<lparr>s_state = st, s_list = [], s_list_closed = cl, s_nodes = (\<lambda>_. waiter_new 0)\<rparr>"

definition b_world ::
    "usize \<Rightarrow> sem \<Rightarrow> waker option \<Rightarrow> usize \<Rightarrow> bool \<Rightarrow> nat \<Rightarrow> nat \<Rightarrow> nat bounded_use" where
  "b_world nst s w n cl senders owned = \<lparr>
     cu_chan = \<lparr>ch_notify_rx_closed = notify_new\<lparr>nf_state := nst\<rparr>, ch_list = mlist_channel, ch_semaphore = (s, 1),
       ch_rx_waker = idle_cell w, ch_tx_count = n, ch_rx_closed = cl\<rparr>,
     cu_rx = True, cu_senders = senders, cu_closers = (\<lambda>_. None), cu_sent = [], cu_taken = [], cu_waiting = w,
     bu_buffer = 1, bu_futs = (\<lambda>_. None), bu_owning = {}, bu_permits = 0, bu_owned = owned, bu_silent = False\<rparr>"

lemma world_new: "bounded_new 1 = Inr (b_world 0 (idle_sem 2 False) None 1 False 1 0)"
  by (simp add: bounded_new_def bounded_channel_def sem_new_def less_MAX_PERMIT chan_use.defs use_new_def b_world_def
      chan_channel_def idle_sem_def PERMIT_SHIFT_def notify_new_def atomic_waker_new_def idle_cell_def)

lemma world_clone:
  "bounded_exec BClone (b_world 0 (idle_sem 2 False) None 1 False 1 0) = Some (Inr (b_world 0 (idle_sem 2 False) None 2 False 2 0))"
  by (simp add: use_clone_def chan_tx_clone_def b_world_def)

lemma world_reserve:
  "bounded_exec BTryReserveOwned (b_world 0 (idle_sem 2 False) None 2 False 2 0) = Some (Inr (b_world 0 (idle_sem 0 False) None 2 False 1 1))"
  by (simp add: try_reserve_owned_def try_permit_def try_acquire_def less_MAX_PERMIT run_action_eq try_acquire_action_def SEM_CLOSED_def
      PERMIT_SHIFT_def chan_sem_def with_sem_def b_put_def b_world_def idle_sem_def Let_def)

lemma close_idle_sem: "sem_close (idle_sem 0 False) = (idle_sem 1 True, [])"
proof -
  have "close_loop n [] ws = (n, ws)" for n ws by (subst close_loop.simps) (simp add: wl_pop_back_def)
  then show ?thesis by (simp add: sem_close_def idle_sem_def SEM_CLOSED_def)
qed

lemma notify_waiters_new: "notify_waiters (notify_new\<lparr>nf_state := 0\<rparr>) = Inr ([], notify_new\<lparr>nf_state := 4\<rparr>)"
proof -
  have "atomic_inc_num_notify_waiters_calls 0 = 4"
    by (simp add: atomic_inc_num_notify_waiters_calls_def NOTIFY_WAITERS_SHIFT_def push_bit_eq_mult)
  then show ?thesis by (simp add: notify_waiters_def get_zero Let_def)
qed

lemma world_close:
  "bounded_exec BClose (b_world 0 (idle_sem 0 False) None 2 False 1 1) = Some (Inr (b_world 4 (idle_sem 1 True) None 2 True 1 1))"
  by (simp add: use_close_def chan_close_def bounded_sem_def close_idle_sem notify_waiters_new b_world_def Let_def)

lemma world_recv:
  "bounded_exec (BRecv 7) (b_world 4 (idle_sem 1 True) None 2 True 1 1) = Some (Inr (b_world 4 (idle_sem 1 True) (Some 7) 2 True 1 1))"
  by (simp add: use_recv_def chan_recv_def recv_once_def b_world_def pop_new run_cell_register Let_def available_permits_def PERMIT_SHIFT_def idle_sem_def)

lemma world_reach: "bounded_reach 1 (b_world 4 (idle_sem 1 True) (Some 7) 2 True 1 1)"
proof -
  have "bounded_reach 1 (b_world 0 (idle_sem 2 False) None 1 False 1 0)" by (rule bounded_start [OF world_new])
  from bounded_next [OF this _ world_clone] have "bounded_reach 1 (b_world 0 (idle_sem 2 False) None 2 False 2 0)"
    by (simp add: b_world_def b_handles_def)
  from bounded_next [OF this _ world_reserve] have "bounded_reach 1 (b_world 0 (idle_sem 0 False) None 2 False 1 1)"
    by (simp add: b_world_def may_move_def)
  from bounded_next [OF this _ world_close] have "bounded_reach 1 (b_world 4 (idle_sem 1 True) None 2 True 1 1)"
    by (simp add: b_world_def close_room_def notify_new_def)
  from bounded_next [OF this _ world_recv] show ?thesis by (simp add: b_world_def)
qed

lemma world_idle:
  "bounded_exec BOwnedRelease (b_world 4 (idle_sem 1 True) (Some 7) 2 True 1 1) = Some (Inr v) \<Longrightarrow> b_idle v"
  by (auto simp: owned_permit_release_def b_world_def idle_sem_def release_def add_permits_locked_def add_permits_loop.simps
      add_inner.simps less_MAX_PERMIT PERMIT_SHIFT_def b_look_def b_put_def b_idle_def available_permits_def Let_def)

theorem silent_permit_loses_wakeup_witness:
  "\<exists>u v c. bounded_reach 1 u \<and> cu_waiting u = Some 7 \<and> bounded_exec BOwnedRelease u = Some (Inr v) \<and> cu_waiting v = Some 7 \<and>
     bounded_recv 7 (cu_chan v) = Some (Inr (Ready None :: nat option poll, c, []))"
proof -
  let ?u = "b_world 4 (idle_sem 1 True) (Some 7) 2 True 1 1"
  have "\<exists>v. bounded_exec BOwnedRelease ?u = Some (Inr v) \<and> cu_waiting v = Some 7 \<and>
     (b_idle v \<longrightarrow> (\<exists>c. bounded_recv 7 (cu_chan v) = Some (Inr (Ready None, c, []))))"
    by (rule silent_permit_loses_wakeup [OF world_reach]) (simp_all add: b_world_def)
  with world_idle world_reach show ?thesis by (fastforce simp: b_world_def)
qed

theorem bounded_channel_is_a_bounded_fifo_witness:
  "\<exists>u :: nat bounded_use. bounded_reach 1 u \<and> bu_owned u = 1 \<and>
     (\<exists>xs k cl. cu_sent u = cu_taken u @ xs \<and> queue_state (ch_list (cu_chan u)) xs k cl \<and>
       unat (capacity (cu_chan u)) + assigned \<lparr>p_sem = chan_sem (cu_chan u), p_futs = bu_futs u,
         p_held = bu_permits u + bu_owned u + length xs, p_total = unat (1 :: usize)\<rparr> +
       bu_permits u + bu_owned u + length xs = unat (1 :: usize))"
  by (intro exI [of _ "b_world 4 (idle_sem 1 True) (Some 7) 2 True 1 1"] conjI world_reach
      bounded_channel_is_a_bounded_fifo [OF world_reach]) (simp add: b_world_def)

theorem bounded_channel_never_panics_witness:
  "\<exists>u v :: nat bounded_use. bounded_reach 1 u \<and> bounded_exec BOwnedDrop u = Some (Inr v) \<and> bounded_reach 1 v"
proof -
  have "bounded_legal BOwnedDrop (b_world 4 (idle_sem 1 True) (Some 7) 2 True 1 1)" by (simp add: b_world_def)
  from bounded_channel_never_panics [OF world_reach this] world_reach show ?thesis by auto
qed

theorem bounded_receiver_is_woken_witness:
  "\<exists>u c. bounded_reach 1 u \<and> cu_waiting u = Some 7 \<and> chan_send (3 :: nat) (cu_chan u) = Some (Inr (c, [7]))"
proof -
  let ?u = "b_world 4 (idle_sem 1 True) (Some 7) 2 True 1 1"
  have w: "cu_waiting ?u = Some 7" "b_room ?u" by (simp_all add: b_world_def b_room_def)
  from bounded_receiver_is_woken [OF world_reach w(1), of 3] w world_reach show ?thesis by blast
qed

end
