(* ===== verification/Mpsc_Unbounded.thy ===== *)
theory Mpsc_Unbounded
  imports Mpsc_Chan Atomic_Loop
begin

text \<open>
  \<open>sync/mpsc/unbounded.rs\<close>: a channel whose semaphore is a counter of the values in it, shifted by one, with
  the closed flag in the lowest bit. Sending never waits; it is refused after the receiver closed.
\<close>

section \<open>The counter\<close>

type_synonym 'a uchan = "('a, usize) chan"

definition unbounded_sem :: "usize sem_ops" where
  "unbounded_sem = \<lparr>
     so_is_idle = (\<lambda>s. drop_bit 1 s = 0),
     so_add_permit = (\<lambda>s. if drop_bit 1 s = 0 then Some (Inl ProcessAbort) else Some (Inr (s - 2, []))),
     so_close = (\<lambda>s. (s OR 1, [])),
     so_is_closed = (\<lambda>s. s AND 1 = 1)\<rparr>"

definition unbounded_channel :: "'a uchan" where
  "unbounded_channel = chan_channel 0"

section \<open>Sending\<close>

definition inc_num_action :: "usize \<Rightarrow> (bool \<times> usize option) outcome" where
  "inc_num_action cur =
     (if cur AND 1 = 1 then Inr (False, None)
      else if cur = usize_max XOR 1 then Inl ProcessAbort
      else Inr (True, Some (cur + 2)))"

definition inc_num_messages :: "'a uchan \<Rightarrow> (bool \<times> 'a uchan) outcome" where
  "inc_num_messages c =
     and_then (run_action inc_num_action (ch_semaphore c)) (\<lambda>(r, s). Inr (r, c\<lparr>ch_semaphore := s\<rparr>))"

text \<open>\<open>Inl v\<close> is \<open>Err(SendError(v))\<close>.\<close>

definition unbounded_send :: "'a \<Rightarrow> 'a uchan \<Rightarrow> (('a + unit) \<times> 'a uchan \<times> waker list) outcome option" where
  "unbounded_send message c =
     bind_oo (Some (inc_num_messages c)) (\<lambda>(r, c1).
       if \<not> r then Some (Inr (Inl message, c1, []))
       else bind_oo (chan_send message c1) (\<lambda>(c2, ws). Some (Inr (Inr (), c2, ws))))"

section \<open>Receiving\<close>

definition unbounded_poll_recv ::
    "waker \<Rightarrow> 'a uchan \<Rightarrow> ('a option poll \<times> 'a uchan \<times> waker list) outcome option" where
  "unbounded_poll_recv cx c = chan_recv unbounded_sem cx c"

definition unbounded_try_recv :: "'a uchan \<Rightarrow> ((TryRecvError + 'a) \<times> 'a uchan \<times> waker list) outcome option" where
  "unbounded_try_recv c = chan_try_recv unbounded_sem c"

definition unbounded_close :: "'a uchan \<Rightarrow> ('a uchan \<times> waker list) outcome" where
  "unbounded_close c = chan_close unbounded_sem c"

definition unbounded_is_closed :: "'a uchan \<Rightarrow> bool" where
  "unbounded_is_closed c \<longleftrightarrow> chan_is_closed unbounded_sem c"

section \<open>What the counter says\<close>

definition counted :: "usize \<Rightarrow> nat \<Rightarrow> bool" where
  "counted s n \<longleftrightarrow> unat s div 2 = n"

lemma drop_one_zero: "drop_bit (Suc 0) s = 0 \<longleftrightarrow> unat (s :: usize) div 2 = 0"
  using unat_drop_bit [of 1 s] unat_eq_0 [of "drop_bit 1 s"] by simp

lemma unbounded_sem_simps [simp]:
  "so_is_closed unbounded_sem s \<longleftrightarrow> odd (unat s)"
  "so_is_idle unbounded_sem s \<longleftrightarrow> unat s div 2 = 0"
  "so_add_permit unbounded_sem s = (if unat s div 2 = 0 then Some (Inl ProcessAbort) else Some (Inr (s - 2, [])))"
  "fst (so_close unbounded_sem s) = s OR 1"
  by (simp_all add: unbounded_sem_def and_one_odd drop_one_zero)

lemma unat_minus_two: "2 \<le> unat s \<Longrightarrow> unat (s - 2 :: usize) = unat s - 2"
  by (simp add: unat_sub word_le_nat_alt)

lemma or_one: "unat (s OR 1 :: usize) = (if odd (unat s) then unat s else unat s + 1)"
proof (cases "odd (unat s)")
  case True
  then have "bit s 0" using flag_test_bit [of 0 s] by (simp add: and_one_odd)
  then have "s OR 1 = s" by (intro bit_word_eqI) (auto simp: bit_simps)
  with True show ?thesis by simp
next
  case False
  then have "\<not> bit s 0" using flag_test_bit [of 0 s] by (simp add: and_one_odd)
  then have "\<And>n. bit s n \<Longrightarrow> n \<noteq> 0" by metis
  then have "s OR 1 = s + 1" by (subst disjunctive_add) (auto simp: bit_simps)
  moreover have "unat s + 1 < 2 ^ 64"
  proof -
    have "unat s < 2 ^ 64" using unsigned_less [of s] by simp
    moreover have "unat s \<noteq> 2 ^ 64 - 1"
    proof
      assume "unat s = 2 ^ 64 - 1"
      moreover have "odd (2 ^ 64 - 1 :: nat)" by simp
      ultimately show False using False by metis
    qed
    ultimately show ?thesis by linarith
  qed
  ultimately show ?thesis using False by (simp add: unat_word_ariths)
qed

interpretation usem: chan_semaphore unbounded_sem counted
proof unfold_locales
  fix s :: usize and n
  assume c: "counted s (Suc n)"
  then have two: "2 \<le> unat s" by (simp add: counted_def)
  then have "unat (s - 2) = unat s - 2" by (rule unat_minus_two)
  then have "counted (s - 2) n \<and> odd (unat (s - 2)) = odd (unat s)" using c two by (simp add: counted_def)
  with c show "\<exists>s' ws. so_add_permit unbounded_sem s = Some (Inr (s', ws)) \<and> counted s' n \<and>
      so_is_closed unbounded_sem s' = so_is_closed unbounded_sem s" by (simp add: counted_def)
next
  fix s :: usize and n
  assume "counted s n"
  then show "counted (fst (so_close unbounded_sem s)) n \<and> so_is_closed unbounded_sem (fst (so_close unbounded_sem s))"
    by (auto simp: counted_def or_one elim!: evenE oddE)
qed


section \<open>An unbounded channel in use\<close>

type_synonym 'a unbounded_use = "('a, usize) chan_use"

datatype 'a unbounded_op =
    USend 'a | UClone | USenderDrop | URecv waker | UTryRecv | UClose | URxDrop | UClosed waker nat | UClosedDrop nat

definition unbounded_new :: "'a unbounded_use" where
  "unbounded_new = (use_new 0)\<lparr>cu_chan := unbounded_channel\<rparr>"

fun unbounded_exec :: "'a unbounded_op \<Rightarrow> 'a unbounded_use \<Rightarrow> 'a unbounded_use outcome option" where
  "unbounded_exec (USend x) u =
     bind_oo (unbounded_send x (cu_chan u)) (\<lambda>(r, c, ws).
       Some (Inr (case r of
           Inl _ \<Rightarrow> u\<lparr>cu_chan := c\<rparr>
         | Inr _ \<Rightarrow> u\<lparr>cu_chan := c, cu_sent := cu_sent u @ [x], cu_waiting := woke ws (cu_waiting u)\<rparr>)))"
| "unbounded_exec UClone u = Some (Inr (use_clone u))"
| "unbounded_exec USenderDrop u = use_tx_drop (u\<lparr>cu_senders := cu_senders u - 1\<rparr>)"
| "unbounded_exec (URecv cx) u = bind_oo (use_recv unbounded_sem cx u) (\<lambda>(_, v). Some (Inr v))"
| "unbounded_exec UTryRecv u = bind_oo (use_try_recv unbounded_sem u) (\<lambda>(_, v). Some (Inr v))"
| "unbounded_exec UClose u = use_close unbounded_sem u"
| "unbounded_exec URxDrop u = use_rx_drop unbounded_sem u"
| "unbounded_exec (UClosed cx i) u = bind_oo (use_closed unbounded_sem cx i u) (\<lambda>(_, v). Some (Inr v))"
| "unbounded_exec (UClosedDrop i) u = use_closed_drop i u"

fun unbounded_legal :: "'a unbounded_op \<Rightarrow> 'a unbounded_use \<Rightarrow> bool" where
  "unbounded_legal (USend x) u \<longleftrightarrow> 0 < cu_senders u \<and> length (cu_sent u) + 258 \<le> 2 ^ 63"
| "unbounded_legal UClone u \<longleftrightarrow> 0 < cu_senders u \<and> cu_senders u + 1 < 2 ^ 64"
| "unbounded_legal USenderDrop u \<longleftrightarrow> 0 < cu_senders u"
| "unbounded_legal (URecv cx) u \<longleftrightarrow> cu_rx u"
| "unbounded_legal UTryRecv u \<longleftrightarrow> cu_rx u"
| "unbounded_legal UClose u \<longleftrightarrow> cu_rx u \<and> unat (nf_state (ch_notify_rx_closed (cu_chan u))) + 4 < 2 ^ 64"
| "unbounded_legal URxDrop u \<longleftrightarrow> cu_rx u \<and> unat (nf_state (ch_notify_rx_closed (cu_chan u))) + 4 < 2 ^ 64"
| "unbounded_legal (UClosed cx i) u \<longleftrightarrow> 0 < cu_senders u"
| "unbounded_legal (UClosedDrop i) u \<longleftrightarrow> True"

inductive unbounded_reach :: "'a unbounded_use \<Rightarrow> bool" where
  unbounded_start: "unbounded_reach unbounded_new"
| unbounded_next: "unbounded_reach u \<Longrightarrow> unbounded_legal p u \<Longrightarrow> unbounded_exec p u = Some (Inr v) \<Longrightarrow> unbounded_reach v"

text \<open>The counter is the number of values, and its flag says whether the receiver closed.\<close>

definition u_ok :: "'a list \<Rightarrow> waker option \<Rightarrow> 'a unbounded_use \<Rightarrow> bool" where
  "u_ok xs w u \<longleftrightarrow>
     use_ok (cu_senders u) xs w u \<and> counted (ch_semaphore (cu_chan u)) (length xs) \<and> length (cu_sent u) + 257 \<le> 2 ^ 63 \<and>
     ch_rx_closed (cu_chan u) = odd (unat (ch_semaphore (cu_chan u))) \<and> (cu_waiting u \<noteq> None \<longrightarrow> \<not> ch_rx_closed (cu_chan u))"

lemma u_okD:
  assumes "u_ok xs w u"
  shows "use_ok (cu_senders u) xs w u" "counted (ch_semaphore (cu_chan u)) (length xs)" "length (cu_sent u) + 257 \<le> 2 ^ 63"
    "ch_rx_closed (cu_chan u) = odd (unat (ch_semaphore (cu_chan u)))" "cu_waiting u = Some k \<Longrightarrow> \<not> ch_rx_closed (cu_chan u)"
  using assms unfolding u_ok_def by blast+

lemma unbounded_new_ok: "u_ok [] None unbounded_new"
  using use_new_ok [of "0 :: usize"]
  by (simp add: u_ok_def unbounded_new_def unbounded_channel_def use_new_def chan_channel_def counted_def)

lemma use_ok_senders [simp]: "use_ok n xs w (u\<lparr>cu_senders := k\<rparr>) = use_ok n xs w u"
  by (simp add: use_ok_def)

text \<open>The counter stays far from the value at which it would abort the process.\<close>

lemma inc_num_ok:
  assumes c: "counted s n" and n: "n + 257 \<le> 2 ^ 63"
  shows "run_action inc_num_action s = (if odd (unat s) then Inr (False, s) else Inr (True, s + 2))"
    and "unat (s + 2) = unat s + 2" "counted (s + 2) (Suc n)" "odd (unat (s + 2)) = odd (unat s)"
proof -
  have "unat s < 2 * (n + 1)" using c by (simp add: counted_def)
  then have small: "unat s + 4 < 2 ^ 64" using n by simp
  then show u: "unat (s + 2) = unat s + 2" by (simp add: unat_word_ariths)
  then show "counted (s + 2) (Suc n)" "odd (unat (s + 2)) = odd (unat s)" using c by (simp_all add: counted_def)
  have "unat (usize_max XOR 1 :: usize) = 2 ^ 64 - 2" by simp
  then have "s \<noteq> usize_max XOR 1" using small by auto
  then show "run_action inc_num_action s = (if odd (unat s) then Inr (False, s) else Inr (True, s + 2))"
    by (simp add: run_action_eq inc_num_action_def and_one_odd)
qed

lemma u_send_keeps:
  assumes ok: "u_ok xs w u" and legal: "unbounded_legal (USend x) u"
  shows "\<exists>v xs' w'. unbounded_exec (USend x) u = Some (Inr v) \<and> u_ok xs' w' v"
proof -
  note d = u_okD [OF ok]
  let ?s = "ch_semaphore (cu_chan u)"
  have "length xs \<le> length (cu_sent u)" using use_okD(1) [OF d(1)] by simp
  then have room: "length xs + 257 \<le> 2 ^ 63" using legal by simp
  note inc = inc_num_ok [OF d(2) room]
  show ?thesis
  proof (cases "odd (unat ?s)")
    case True
    then have "unbounded_exec (USend x) u = Some (Inr u)"
      using inc(1) by (simp add: unbounded_send_def inc_num_messages_def)
    with ok show ?thesis by blast
  next
    case False
    let ?u = "u\<lparr>cu_chan := (cu_chan u)\<lparr>ch_semaphore := ?s + 2\<rparr>\<rparr>"
    have use: "use_ok (cu_senders u) xs w ?u" using use_okD [OF d(1)] by (simp add: use_ok_def chan_ok_def)
    obtain c where c: "use_send x ?u = Some (Inr (?u\<lparr>cu_chan := c, cu_sent := cu_sent ?u @ [x], cu_waiting := None\<rparr>))"
      "use_ok (cu_senders u) (xs @ [x]) None (?u\<lparr>cu_chan := c, cu_sent := cu_sent ?u @ [x], cu_waiting := None\<rparr>)"
      "ch_semaphore c = ch_semaphore (cu_chan ?u)" "same_but_queue (cu_chan ?u) c"
      "chan_send x (cu_chan ?u) = Some (Inr (c, waker_list w))"
      using use_send_ok [OF use, of x] legal by (elim meta_impE exE conjE) (auto intro: that)
    let ?v = "u\<lparr>cu_chan := c, cu_sent := cu_sent u @ [x], cu_waiting := None\<rparr>"
    have "woke (waker_list w) (cu_waiting u) = None"
      using use_okD(6) [OF d(1)] by (cases "cu_waiting u") (auto simp: woke_def waker_list_def)
    then have "unbounded_exec (USend x) u = Some (Inr ?v)"
      using inc(1) False c(5) by (simp add: unbounded_send_def inc_num_messages_def)
    moreover have "u_ok (xs @ [x]) None ?v"
      using c(2-4) inc(2-4) d(4) legal by (simp add: u_ok_def same_but_queue_def)
    ultimately show ?thesis by blast
  qed
qed


text \<open>The other operations keep it too. What a call changes is put in place of the channel.\<close>

lemma u_okI:
  assumes "use_ok (cu_senders v) xs w v" "counted (ch_semaphore (cu_chan v)) (length xs)" "length (cu_sent v) + 257 \<le> 2 ^ 63"
    "ch_rx_closed (cu_chan v) = odd (unat (ch_semaphore (cu_chan v)))" "\<And>k. cu_waiting v = Some k \<Longrightarrow> \<not> ch_rx_closed (cu_chan v)"
  shows "u_ok xs w v"
  using assms by (auto simp: u_ok_def)

lemma keepsI: "e = Some (Inr v) \<Longrightarrow> u_ok xs w v \<Longrightarrow> \<exists>v xs' w'. e = Some (Inr v) \<and> u_ok xs' w' v"
  by blast

lemma u_clone_keeps:
  assumes ok: "u_ok xs w u" and legal: "unbounded_legal UClone u"
  shows "u_ok xs w (use_clone u)"
proof -
  note d = u_okD [OF ok]
  have "use_ok (cu_senders u + 1) xs w (use_clone u)" using use_clone_ok [OF d(1)] legal by simp
  with d show ?thesis by (intro u_okI) (simp_all add: use_clone_def chan_tx_clone_def)
qed

lemma u_sender_drop_keeps:
  assumes ok: "u_ok xs w u" and legal: "unbounded_legal USenderDrop u"
  shows "\<exists>v xs' w'. unbounded_exec USenderDrop u = Some (Inr v) \<and> u_ok xs' w' v"
proof -
  note d = u_okD [OF ok]
  let ?u = "u\<lparr>cu_senders := cu_senders u - 1\<rparr>"
  let ?v = "\<lambda>c. ?u\<lparr>cu_chan := c, cu_waiting := (if cu_senders u = 1 then None else cu_waiting ?u)\<rparr>"
  have "use_ok (cu_senders u) xs w ?u" "0 < cu_senders u" using d(1) legal by simp_all
  from use_tx_drop_ok [OF this] obtain c where c: "use_tx_drop ?u = Some (Inr (?v c))"
    "use_ok (cu_senders u - 1) xs (if cu_senders u = 1 then None else w) (?v c)"
    "ch_semaphore c = ch_semaphore (cu_chan ?u)" "same_but_queue (cu_chan ?u) c" by (elim exE conjE) (rule that)
  have "u_ok xs (if cu_senders u = 1 then None else w) (?v c)"
    using c(2-4) d(2-5) by (intro u_okI) (simp_all add: same_but_queue_def split: if_splits)
  with c(1) show ?thesis by (intro keepsI) simp_all
qed

lemma u_recv_keeps:
  assumes ok: "u_ok xs w u"
  shows "\<exists>v xs' w'. unbounded_exec (URecv cx) u = Some (Inr v) \<and> u_ok xs' w' v"
proof -
  note d = u_okD [OF ok]
  have idle: "xs = [] \<Longrightarrow> so_is_idle unbounded_sem (ch_semaphore (cu_chan u))" using d(2) by (simp add: counted_def)
  then have "xs = [] \<and> cu_senders u = 0 \<longrightarrow> so_is_idle unbounded_sem (ch_semaphore (cu_chan u))" by blast
  from usem.use_recv_ok [OF d(1, 2) this, of cx] obtain r c w' where c:
    "use_recv unbounded_sem cx u = Some (Inr (r, u\<lparr>cu_chan := c,
         cu_taken := cu_taken u @ (case r of Ready (Some v) \<Rightarrow> [v] | _ \<Rightarrow> []), cu_waiting := (if r = Pending then Some cx else None)\<rparr>))"
    "r = (case xs of x # _ \<Rightarrow> Ready (Some x)
          | [] \<Rightarrow> if cu_senders u = 0 \<or> ch_rx_closed (cu_chan u) \<and> so_is_idle unbounded_sem (ch_semaphore (cu_chan u)) then Ready None else Pending)"
    "use_ok (cu_senders u) (tl xs) w' (u\<lparr>cu_chan := c,
         cu_taken := cu_taken u @ (case r of Ready (Some v) \<Rightarrow> [v] | _ \<Rightarrow> []), cu_waiting := (if r = Pending then Some cx else None)\<rparr>)"
    "same_but_queue (cu_chan u) c" "counted (ch_semaphore c) (length (tl xs))"
    "so_is_closed unbounded_sem (ch_semaphore c) = so_is_closed unbounded_sem (ch_semaphore (cu_chan u))"
    by (elim exE conjE) (rule that)
  have open': "\<not> ch_rx_closed (cu_chan u)" if "r = Pending"
    using c(2) idle that by (cases xs) (auto split: if_splits)
  have "u_ok (tl xs) w' (u\<lparr>cu_chan := c,
         cu_taken := cu_taken u @ (case r of Ready (Some v) \<Rightarrow> [v] | _ \<Rightarrow> []), cu_waiting := (if r = Pending then Some cx else None)\<rparr>)"
    using c(3-6) d(3, 4) open' by (intro u_okI) (simp_all add: same_but_queue_def split: if_splits)
  with c(1) show ?thesis by (intro keepsI) simp_all
qed

lemma u_try_recv_keeps:
  assumes ok: "u_ok xs w u"
  shows "\<exists>v xs' w'. unbounded_exec UTryRecv u = Some (Inr v) \<and> u_ok xs' w' v"
proof -
  note d = u_okD [OF ok]
  from usem.use_try_recv_ok [OF d(1, 2)] obtain r c where c:
    "use_try_recv unbounded_sem u = Some (Inr (r, u\<lparr>cu_chan := c,
         cu_taken := cu_taken u @ (case xs of x # _ \<Rightarrow> [x] | [] \<Rightarrow> []), cu_waiting := None\<rparr>))"
    "use_ok (cu_senders u) (tl xs) w (u\<lparr>cu_chan := c,
         cu_taken := cu_taken u @ (case xs of x # _ \<Rightarrow> [x] | [] \<Rightarrow> []), cu_waiting := None\<rparr>)"
    "same_but_queue (cu_chan u) c" "counted (ch_semaphore c) (length (tl xs))"
    "so_is_closed unbounded_sem (ch_semaphore c) = so_is_closed unbounded_sem (ch_semaphore (cu_chan u))"
    by (elim exE conjE) (rule that)
  have "u_ok (tl xs) w (u\<lparr>cu_chan := c,
         cu_taken := cu_taken u @ (case xs of x # _ \<Rightarrow> [x] | [] \<Rightarrow> []), cu_waiting := None\<rparr>)"
    using c(2-5) d(3, 4) by (intro u_okI) (simp_all add: same_but_queue_def)
  with c(1) show ?thesis by (intro keepsI) simp_all
qed

lemma u_close_keeps:
  assumes ok: "u_ok xs w u" and legal: "unbounded_legal UClose u"
  shows "\<exists>v xs' w'. unbounded_exec UClose u = Some (Inr v) \<and> u_ok xs' w' v"
proof -
  note d = u_okD [OF ok]
  have "unat (nf_state (ch_notify_rx_closed (cu_chan u))) + 4 < 2 ^ 64" using legal by simp
  from usem.use_close_ok [OF d(1) this] obtain c where c: "use_close unbounded_sem u = Some (Inr (u\<lparr>cu_chan := c, cu_waiting := None\<rparr>))"
    "use_ok (cu_senders u) xs w (u\<lparr>cu_chan := c, cu_waiting := None\<rparr>)" "ch_rx_closed c"
    "ch_semaphore c = fst (so_close unbounded_sem (ch_semaphore (cu_chan u)))" by (elim exE conjE) (rule that)
  have "u_ok xs w (u\<lparr>cu_chan := c, cu_waiting := None\<rparr>)"
    using c(2-4) d(3) usem.close_owed [OF d(2)] by (intro u_okI) simp_all
  with c(1) show ?thesis by (intro keepsI) simp_all
qed

lemma u_rx_drop_keeps:
  assumes ok: "u_ok xs w u" and legal: "unbounded_legal URxDrop u"
  shows "\<exists>v xs' w'. unbounded_exec URxDrop u = Some (Inr v) \<and> u_ok xs' w' v"
proof -
  note d = u_okD [OF ok]
  have "unat (nf_state (ch_notify_rx_closed (cu_chan u))) + 4 < 2 ^ 64" using legal by simp
  from usem.use_rx_drop_ok [OF d(1, 2) this] obtain c where c:
    "use_rx_drop unbounded_sem u = Some (Inr (u\<lparr>cu_chan := c, cu_rx := False, cu_taken := cu_sent u, cu_waiting := None\<rparr>))"
    "use_ok (cu_senders u) [] w (u\<lparr>cu_chan := c, cu_rx := False, cu_taken := cu_sent u, cu_waiting := None\<rparr>)" "ch_rx_closed c"
    "counted (ch_semaphore c) 0" "so_is_closed unbounded_sem (ch_semaphore c)" by (elim exE conjE) (rule that)
  have "u_ok [] w (u\<lparr>cu_chan := c, cu_rx := False, cu_taken := cu_sent u, cu_waiting := None\<rparr>)"
    using c(2-5) d(3) by (intro u_okI) simp_all
  with c(1) show ?thesis by (intro keepsI) simp_all
qed

lemma u_notify_keeps:
  assumes "u_ok xs w u" "use_ok (cu_senders u) xs w (u\<lparr>cu_chan := (cu_chan u)\<lparr>ch_notify_rx_closed := m\<rparr>, cu_closers := f\<rparr>)"
  shows "u_ok xs w (u\<lparr>cu_chan := (cu_chan u)\<lparr>ch_notify_rx_closed := m\<rparr>, cu_closers := f\<rparr>)"
  using u_okD [OF assms(1)] assms(2) by (intro u_okI) simp_all

lemma unbounded_exec_keeps:
  assumes ok: "u_ok xs w u" and legal: "unbounded_legal p u"
  shows "\<exists>v xs' w'. unbounded_exec p u = Some (Inr v) \<and> u_ok xs' w' v"
proof (cases p)
  case (USend x)
  then show ?thesis using u_send_keeps [OF ok] legal by blast
next
  case UClone
  then show ?thesis using u_clone_keeps [OF ok] legal by auto
next
  case USenderDrop
  then show ?thesis using u_sender_drop_keeps [OF ok] legal by blast
next
  case (URecv cx)
  then show ?thesis using u_recv_keeps [OF ok] by blast
next
  case UTryRecv
  then show ?thesis using u_try_recv_keeps [OF ok] by blast
next
  case UClose
  then show ?thesis using u_close_keeps [OF ok] legal by blast
next
  case URxDrop
  then show ?thesis using u_rx_drop_keeps [OF ok] legal by blast
next
  case (UClosed cx i)
  from use_closed_ok [OF u_okD(1) [OF ok], of unbounded_sem cx i] u_notify_keeps [OF ok] UClosed show ?thesis by fastforce
next
  case (UClosedDrop i)
  from use_closed_drop_ok [OF u_okD(1) [OF ok], of i] u_notify_keeps [OF ok] UClosedDrop show ?thesis by fastforce
qed

lemma unbounded_reach_ok: "unbounded_reach u \<Longrightarrow> \<exists>xs w. u_ok xs w u"
proof (induction rule: unbounded_reach.induct)
  case unbounded_start
  show ?case using unbounded_new_ok by blast
next
  case (unbounded_next u p v)
  then obtain xs w where "u_ok xs w u" by blast
  from unbounded_exec_keeps [OF this unbounded_next.hyps(2)] unbounded_next.hyps(3) show ?case by auto
qed

section \<open>What the channel promises\<close>

text \<open>C13: In every state of an unbounded channel the values in it are those that were accepted and not yet taken
  out, in the order in which they were sent, its counter is their number, and every call that the handles
  allow returns: none panics, and the counter never reaches the value at which a send would abort the process.
  A send is refused exactly if the receiver closed the channel.\<close>

theorem unbounded_channel_is_a_fifo:
  assumes "unbounded_reach u" "unbounded_legal p u"
  shows "(\<exists>xs k cl. cu_sent u = cu_taken u @ xs \<and> queue_state (ch_list (cu_chan u)) xs k cl \<and>
       unat (ch_semaphore (cu_chan u)) div 2 = length xs) \<and>
     (\<exists>v. unbounded_exec p u = Some (Inr v) \<and> unbounded_reach v \<and>
       (\<forall>x. p = USend x \<longrightarrow> cu_sent v = (if ch_rx_closed (cu_chan u) then cu_sent u else cu_sent u @ [x])))"
proof -
  obtain xs w where ok: "u_ok xs w u" using unbounded_reach_ok [OF assms(1)] by blast
  note d = u_okD [OF ok]
  obtain v where v: "unbounded_exec p u = Some (Inr v)" using unbounded_exec_keeps [OF ok assms(2)] by blast
  have sent: "cu_sent v = (if ch_rx_closed (cu_chan u) then cu_sent u else cu_sent u @ [x])" if p: "p = USend x" for x
  proof -
    have "length xs \<le> length (cu_sent u)" using use_okD(1) [OF d(1)] by simp
    then have "length xs + 257 \<le> 2 ^ 63" using assms(2) p by simp
    from inc_num_ok(1) [OF d(2) this] v p d(4) show ?thesis
      by (auto simp: unbounded_send_def inc_num_messages_def bind_oo_eq split: if_splits)
  qed
  have "cu_sent u = cu_taken u @ xs" "queue_state (ch_list (cu_chan u)) xs (positions_left (cu_sent u) (cu_senders u)) (cu_senders u = 0)"
    "unat (ch_semaphore (cu_chan u)) div 2 = length xs"
    using use_okD(1, 3) [OF d(1)] d(2) by (simp_all add: chan_ok_def counted_def)
  with v sent unbounded_next [OF assms v] show ?thesis by blast
qed

text \<open>A receiver of an unbounded channel that waits and has not been woken has nothing to receive, the
  channel is open and has a sender, and the next send and the last sender that goes wake it.\<close>

lemma unbounded_receiver_is_woken:
  assumes "unbounded_reach u" "cu_waiting u = Some k"
  shows "cu_sent u = cu_taken u \<and> \<not> ch_rx_closed (cu_chan u) \<and> ch_tx_count (cu_chan u) \<noteq> 0 \<and>
     (length (cu_sent u) + 258 \<le> 2 ^ 63 \<longrightarrow> (\<exists>c. unbounded_send x (cu_chan u) = Some (Inr (Inr (), c, [k])))) \<and>
     (ch_tx_count (cu_chan u) = 1 \<longrightarrow> (\<exists>c. chan_tx_drop (cu_chan u) = Some (Inr (c, [k]))))"
proof -
  obtain xs w where ok: "u_ok xs w u" using unbounded_reach_ok [OF assms(1)] by blast
  note d = u_okD [OF ok]
  note f = use_okD [OF d(1)]
  have w: "w = Some k" "xs = []" "0 < cu_senders u" using f(6) [OF assms(2)] by simp_all
  have "ch_tx_count (cu_chan u) \<noteq> 0" using f(4) w(3) by auto
  moreover have "\<exists>c. unbounded_send x (cu_chan u) = Some (Inr (Inr (), c, [k]))" if "length (cu_sent u) + 258 \<le> 2 ^ 63"
  proof -
    let ?c = "(cu_chan u)\<lparr>ch_semaphore := ch_semaphore (cu_chan u) + 2\<rparr>"
    have "use_ok (cu_senders u) xs w (u\<lparr>cu_chan := ?c\<rparr>)" using f by (simp add: use_ok_def chan_ok_def)
    from use_send_ok [OF this w(3), of x] that obtain c where "chan_send x ?c = Some (Inr (c, [k]))"
      by (auto simp: w(1) waker_list_def)
    moreover have "\<not> odd (unat (ch_semaphore (cu_chan u)))" using d(4) d(5) [OF assms(2)] by simp
    ultimately show ?thesis using inc_num_ok(1) [OF d(2)] w(2)
      by (simp add: unbounded_send_def inc_num_messages_def)
  qed
  moreover have "\<exists>c. chan_tx_drop (cu_chan u) = Some (Inr (c, [k]))" if "ch_tx_count (cu_chan u) = 1"
  proof -
    have "cu_senders u = 1" using f(4) that by simp
    with use_tx_drop_ok [OF d(1) w(3)] w(1) show ?thesis by (auto simp: waker_list_def)
  qed
  ultimately show ?thesis using f(1) w(2) d(5) [OF assms(2)] by simp
qed


text \<open>A receiver waits on a new channel.\<close>

lemma unbounded_waits:
  "unbounded_reach (unbounded_new\<lparr>cu_chan := (unbounded_channel :: nat uchan)\<lparr>ch_rx_waker := idle_cell (Some 7)\<rparr>, cu_waiting := Some 7\<rparr>)"
proof -
  have cell: "ch_rx_waker (unbounded_channel :: nat uchan) = idle_cell None"
    by (simp add: unbounded_channel_def chan_channel_def idle_cell_def atomic_waker_new_def)
  have list: "ch_list (unbounded_channel :: nat uchan) = mlist_channel" "\<not> ch_rx_closed (unbounded_channel :: nat uchan)"
    by (simp_all add: unbounded_channel_def chan_channel_def)
  have same: "c\<lparr>ch_list := mlist_channel\<rparr> = c" if "ch_list c = mlist_channel" for c :: "nat uchan" using that by simp
  have "unbounded_exec (URecv 7) (unbounded_new :: nat unbounded_use) = Some (Inr
      (unbounded_new\<lparr>cu_chan := unbounded_channel\<lparr>ch_rx_waker := idle_cell (Some 7)\<rparr>, cu_waiting := Some 7\<rparr>))"
    using cell list by (simp add: unbounded_new_def use_recv_def chan_recv_def recv_once_def pop_new run_cell_register same Let_def)
  from unbounded_next [OF unbounded_start _ this] show ?thesis by (simp add: unbounded_new_def use_new_def)
qed

theorem unbounded_channel_is_a_fifo_witness:
  "\<exists>u v. unbounded_reach u \<and> unbounded_exec (USend (3 :: nat)) u = Some (Inr v) \<and> unbounded_reach v \<and> cu_sent v = [3]"
proof -
  let ?u = "unbounded_new\<lparr>cu_chan := (unbounded_channel :: nat uchan)\<lparr>ch_rx_waker := idle_cell (Some 7)\<rparr>, cu_waiting := Some 7\<rparr>"
  have new: "cu_sent ?u = []" "0 < cu_senders ?u" "\<not> ch_rx_closed (cu_chan ?u)"
    by (simp_all add: unbounded_new_def use_new_def unbounded_channel_def chan_channel_def)
  then have "unbounded_legal (USend 3) ?u" by simp
  from unbounded_channel_is_a_fifo [OF unbounded_waits this] new unbounded_waits show ?thesis by auto
qed

lemma unbounded_receiver_is_woken_witness:
  "\<exists>u c. unbounded_reach u \<and> cu_waiting u = Some 7 \<and> unbounded_send (3 :: nat) (cu_chan u) = Some (Inr (Inr (), c, [7]))"
proof -
  let ?u = "unbounded_new\<lparr>cu_chan := (unbounded_channel :: nat uchan)\<lparr>ch_rx_waker := idle_cell (Some 7)\<rparr>, cu_waiting := Some 7\<rparr>"
  have new: "cu_sent ?u = []" "cu_waiting ?u = Some 7" by (simp_all add: unbounded_new_def use_new_def)
  from unbounded_receiver_is_woken [OF unbounded_waits new(2), of 3] new unbounded_waits show ?thesis by auto
qed

end
