(* ===== verification/Spec2Isabelle.thy ===== *)
theory Spec2Isabelle
  imports Scheduler Semaphore Mutex Rw_Lock Once_Cell Notify Watch Barrier Broadcast Task_Local Local_Set Park_Thread Executor Oneshot Atomic_Waker Time_Driver Mpsc_Bounded Mpsc_Unbounded
begin

text \<open>
  A verification library for osaka, a single-threaded asynchronous runtime with simulated time. File
  names below are relative to \<open>src/osaka/src/\<close>.

  \<^bold>\<open>The program.\<close> A runtime owns a scheduler (\<open>runtime/spawner.rs\<close>), the list of the tasks spawned on it
  (\<open>runtime/task/list.rs\<close>) and a time driver (\<open>time/driver/\<close>). A task is a cell shared by counted handles
  (\<open>runtime/task/harness.rs\<close>, \<open>core.rs\<close>, \<open>join.rs\<close>, \<open>waker.rs\<close>); one state word (\<open>state.rs\<close>) says who may do
  what with it. Waking a task marks the word and hands the task to the scheduler's queue; the scheduler
  polls it. Tasks block on the primitives of \<open>sync/\<close>: a semaphore with a queue of waiters
  (\<open>batch_semaphore.rs\<close>), from which the public semaphore, the mutex, the readers-writer lock, the once
  cell and the bounded channel are made; \<open>Notify\<close>, from which the watch channel is made; the oneshot
  channel; the queue of the many-to-one channel; and the atomic waker. Waiters sit in an intrusive linked
  list (\<open>util/linked_list.rs\<close>).

  \<^bold>\<open>How it is modelled.\<close> A struct is a record, an enum a datatype, \<open>usize\<close> a 64 bit word. Code that may panic
  returns an \<open>outcome\<close> (\<open>Prelude\<close>), code that may not return an \<open>option\<close> of it, by \<open>partial_function\<close>; where the
  code returns, that is a theorem. A waker is the identity of what it wakes, waking is an effect that
  operations report in order. Code of the user (the future of a task, an initialiser, a future under a
  timeout) is a parameter; what is relied on is a named hypothesis (\<open>run_ok\<close>, \<open>main_ok\<close> in \<open>Scheduler\<close>) with
  an instance for which it is proved. The standard library's \<open>Duration\<close>, \<open>BinaryHeap\<close>, \<open>Arc\<close> and atomics are
  modelled by what they compute; atomics are sequentially consistent.

  \<^bold>\<open>Theories.\<close>
  \<^item> \<open>Prelude\<close>: machine integers, panics, polls, flags packed into words.
  \<^item> \<open>Atomic_Loop\<close>: retry loops over \<open>compare_exchange\<close> with the writes of others between the attempts; they act
    as one atomic step and return when they are not disturbed forever.
  \<^item> \<open>Atomic_Program\<close>: code as the tree of its single memory accesses, the races of two such programs, a
    computation of all their interleavings, and a rely-guarantee rule (locale \<open>two_threads\<close>).
  \<^item> \<open>Intrusive_List\<close>: the pointer list as a store, refined to plain lists for any program over it.
  \<^item> \<open>Task_State\<close>: the state word, each transition refined to a specification on decoded flags and count.
  \<^item> \<open>Task_Harness\<close>: one task with its handles, wakers and join handle, as a step relation with an invariant:
    reference counts, no failing assertion, output delivered once, no lost wakeup; any poll is a run of it.
  \<^item> \<open>Scheduler\<close>: both queues, the loops, spawning and shutdown, over any behaviour of tasks within the
    contract; fairness, what the loops can return, and that no notified task is forgotten in any state it can
    reach (\<open>sched_run\<close>), wake-ups from outside its context and from other threads included.
  \<^item> \<open>Batch_Semaphore\<close>: permits and the queue of waiters; conservation of permits, order of service.
    \<open>Permit_Guards\<close> is the interface (a locale) through which guards are counted against permits; \<open>Semaphore\<close>,
    \<open>Mutex\<close>, \<open>Rw_Lock\<close>, \<open>Once_Cell\<close> are built on it and inherit exclusion from it.
  \<^item> \<open>Notify\<close>, \<open>Watch\<close>: notifications, and the channel of the latest value; who is woken when, and by which
    waker (the ghosts \<open>wu_wakers\<close> and \<open>bu_wakers\<close> keep the one of a call's last poll). \<open>Barrier\<close> is a client of
    the watch channel: every use of it is a use of that channel, from whose invariant follows that it opens for
    every \<open>n\<close> arrivals and wakes all that wait.
  \<^item> \<open>Broadcast\<close>: the ring of slots of the broadcast channel, refined to a log with a cursor for each receiver:
    what is received, what is lost by lagging behind, who is told that the channel closed, who is woken.
  \<^item> \<open>Oneshot\<close>: both halves as programs of accesses; all interleavings of two tasks are safe, deliver the
    value once and lose no wakeup. \<open>Atomic_Waker\<close>: registering against waking, all interleavings.
  \<^item> \<open>Mpsc_List\<close>: the queue of the many-to-one channel, blocks of slots on a heap, refined to a list (locale
    \<open>fifo_queue\<close>). \<open>Mpsc_Chan\<close>: the channel over it, for any semaphore that keeps the laws of the locale
    \<open>chan_semaphore\<close>. \<open>Mpsc_Bounded\<close> interprets it on the batch semaphore, with the permits of the senders,
    \<open>Mpsc_Unbounded\<close> on a counter: any run of calls keeps the order and wakes the receiver, and none panics but \<open>send_timeout\<close> (a \<open>todo!\<close>).
  \<^item> \<open>Task_Local\<close>: the cell of a task-local key, exchanged around the polls; equal to lexical scope. \<open>Local_Set\<close>: sets
    of tasks polled in place, the current set, yielding; no wakeup is lost, but no task can be spawned.
  \<^item> \<open>Park_Thread\<close>: parking and unparking a thread, all interleavings of the accesses. \<open>Executor\<close>: the first executor of
    the crate (\<open>runtime/executor.rs\<close>, \<open>task_queue.rs\<close>) with the reactor, for any poller; it forgets tasks.
  \<^item> \<open>Sim_Time\<close>, \<open>Time_Driver\<close>: durations, the heap of sleepers, \<open>Sleep\<close>, \<open>Timeout\<close>, \<open>Interval\<close>, and the runtime's
    access to its driver.

  \<^bold>\<open>Bounds.\<close> Reference counts, permits and positions are words; theorems that need them not to overflow say
  so in their hypotheses. There is no fuel: loops are structural, have a measure, or are partial functions
  with a proof that they return from every state that satisfies the invariant.

  \<^bold>\<open>Not modelled.\<close> Sockets (\<open>net/\<close>: input and output), blocking a second thread on a scheduler, logging and
  formatting, the procedural macros (\<open>osaka_macros\<close>), \<open>runtime/task/inject.rs\<close> (not compiled into the crate), the
  functions that only forward to the scheduler in the thread-local context (\<open>task/spawn.rs\<close>, \<open>runtime/handle.rs\<close>),
  those that block a thread until a future is ready (\<open>blocking_send\<close>, \<open>blocking_recv\<close>, \<open>blocking_lock\<close> and the like),
  conversions of durations from and to floating point numbers, and memory orderings weaker than sequential
  consistency. An operation of the broadcast channel, the semaphores and the many-to-one channel runs as a
  whole: their locks exclude other threads, and the runtime has one thread.
\<close>

end
